(* ===== verification/Pintos_Prelude.thy ===== *)
theory Pintos_Prelude
  imports Main "HOL-Library.Word" "HOL-Library.Monad_Syntax"
begin

section \<open>Shared vocabulary of the development\<close>

text \<open>
  The kernel is 32-bit x86 C. This theory names its integer types, says how a kernel panic is
  modelled, and collects the generic facts on words and lists the component theories share.

  A C function that can hit a failing \<^verbatim>\<open>ASSERT\<close>, a \<^verbatim>\<open>PANIC\<close>, a \<^verbatim>\<open>NOT_REACHED\<close> or a memory
  access outside the object it works on is a function into an \<^typ>\<open>'a option\<close>: \<^term>\<open>None\<close> is
  "the kernel does not go on from here". \<open>do\<close> blocks over \<open>option\<close> then read like the
  statements of the source, the state being passed on explicitly.
\<close>

unbundle bit_operations_syntax

type_synonym u8 = "8 word"
type_synonym u16 = "16 word"
type_synonym u32 = "32 word"
type_synonym u64 = "64 word"
type_synonym size_t = u32
type_synonym ptr = u32

named_theorems u32_nat \<open>reading 32-bit word arithmetic as arithmetic on natural numbers\<close>
named_theorems panic_simps \<open>evaluation of assertions and monadic sequencing\<close>

subsection \<open>Assertions\<close>

definition kassert :: "bool \<Rightarrow> unit option" where
  "kassert b = (if b then Some () else None)"

lemma kassert_True [simp, panic_simps]: "kassert True = Some ()"
  by (simp add: kassert_def)

lemma kassert_False [simp, panic_simps]: "kassert False = None"
  by (simp add: kassert_def)

lemma kassert_eq_Some [simp]: "kassert b = Some u \<longleftrightarrow> b"
  by (simp add: kassert_def)

lemma kassert_eq_None [simp]: "kassert b = None \<longleftrightarrow> \<not> b"
  by (simp add: kassert_def)

lemma bind_kassert [panic_simps]: "Option.bind (kassert b) f = (if b then f () else None)"
  by (simp add: kassert_def)

lemma bind_kassert_eq_Some [simp]:
  "Option.bind (kassert b) f = Some y \<longleftrightarrow> b \<and> f () = Some y"
  by (simp add: kassert_def)

text \<open>The values of a C \<^verbatim>\<open>int\<close>; the code must not leave them in signed arithmetic.\<close>

definition int_fits :: "int \<Rightarrow> bool" where
  "int_fits i \<longleftrightarrow> - (2 ^ 31) \<le> i \<and> i < 2 ^ 31"

subsection \<open>32-bit words as natural numbers\<close>

lemma unat_u32_bound: "unat (x :: u32) < 2 ^ 32"
  using unsigned_less [of x, where ?'a = nat] by simp

lemma unat_u32_le: "unat (x :: u32) \<le> 4294967295"
  using unat_u32_bound [of x] by simp

lemma unat_Suc_u32 [u32_nat]:
  assumes "(x :: u32) < y"
  shows "unat (x + 1) = Suc (unat x)"
proof -
  have "unat x < unat y" using assms by (simp add: word_less_nat_alt)
  moreover have "unat y < 2 ^ 32" by (rule unat_u32_bound)
  ultimately show ?thesis by (simp add: unat_word_ariths)
qed

lemma u32_count_up: "(i :: u32) < n \<Longrightarrow> unat n - unat (i + 1) < unat n - unat i"
  by (simp add: unat_Suc_u32 word_less_nat_alt)

lemma u32_count_up_le: "(i :: u32) \<le> n \<Longrightarrow> i \<noteq> n \<Longrightarrow> unat n - unat (i + 1) < unat n - unat i"
  by (simp add: u32_count_up)

lemma unat_add_u32 [u32_nat]:
  "unat (x :: u32) + unat y < 2 ^ 32 \<Longrightarrow> unat (x + y) = unat x + unat y"
  by (simp add: unat_word_ariths)

lemma unat_sub_u32 [u32_nat]: "(y :: u32) \<le> x \<Longrightarrow> unat (x - y) = unat x - unat y"
  by (simp add: unat_sub_if' word_le_nat_alt)

lemma unat_mult_u32 [u32_nat]:
  "unat (x :: u32) * unat y < 2 ^ 32 \<Longrightarrow> unat (x * y) = unat x * unat y"
  by (simp add: unat_word_ariths)

lemma unat_of_nat_u32 [u32_nat]: "n < 2 ^ 32 \<Longrightarrow> unat (of_nat n :: u32) = n"
  by (simp add: unat_of_nat)

lemma u32_eq_iff: "(x :: u32) = y \<longleftrightarrow> unat x = unat y"
  by (auto simp: word_unat_eq_iff)

subsection \<open>Shifts and conversions as arithmetic\<close>

lemma unat_push_bit:
  "unat (x :: 'a::len word) * 2 ^ k < 2 ^ LENGTH('a) \<Longrightarrow> unat (push_bit k x) = unat x * 2 ^ k"
  by (simp only: unsigned_push_bit_eq) (simp add: take_bit_eq_mod push_bit_eq_mult)

lemma unat_drop_bit: "unat (drop_bit k (x :: 'a::len word)) = unat x div 2 ^ k"
  by (simp only: unsigned_drop_bit_eq)
    (simp add: drop_bit_eq_div take_bit_nat_eq_self unsigned_less)

lemma unat_ucast_mod: "unat (ucast (x :: 'a::len word) :: 'b::len word) = unat x mod 2 ^ LENGTH('b)"
  by (simp add: unsigned_ucast_eq take_bit_eq_mod)

subsection \<open>Overwriting a range of a list\<close>

definition fill :: "'a list \<Rightarrow> nat \<Rightarrow> nat \<Rightarrow> 'a \<Rightarrow> 'a list" where
  "fill xs s n v = take s xs @ replicate n v @ drop (s + n) xs"

lemma length_fill [simp]: "s + n \<le> length xs \<Longrightarrow> length (fill xs s n v) = length xs"
  by (simp add: fill_def)

lemma fill_0 [simp]: "fill xs s 0 v = xs"
  by (simp add: fill_def)

lemma nth_fill:
  assumes "s + n \<le> length xs" and "i < length xs"
  shows "fill xs s n v ! i = (if s \<le> i \<and> i < s + n then v else xs ! i)"
proof -
  have "i - s - n = i - (s + n)" if "s + n \<le> i" using that by simp
  then show ?thesis
    using assms by (auto simp: fill_def nth_append min_def)
qed

lemma fill_eqI:
  assumes "length ys = length xs" and "s + n \<le> length xs"
    and "\<And>i. i < length xs \<Longrightarrow> ys ! i = (if s \<le> i \<and> i < s + n then v else xs ! i)"
  shows "ys = fill xs s n v"
  using assms by (intro nth_equalityI) (auto simp: nth_fill)

lemma fill_Suc:
  "s + Suc n \<le> length xs \<Longrightarrow> (fill xs s n v)[s + n := v] = fill xs s (Suc n) v"
  by (rule fill_eqI) (auto simp: nth_fill nth_list_update)

lemma fill_step:
  "s + Suc n \<le> length xs \<Longrightarrow> fill (xs[s := v]) (Suc s) n v = fill xs s (Suc n) v"
  by (rule fill_eqI) (auto simp: nth_fill nth_list_update)

lemma fill_fill_same:
  assumes "s + n \<le> length xs"
  shows "fill (fill xs s n v) s n w = fill xs s n w"
  using assms by (intro fill_eqI) (auto simp: nth_fill)

lemma fill_id:
  assumes "s + n \<le> length xs" and "\<And>k. k < n \<Longrightarrow> xs ! (s + k) = v"
  shows "fill xs s n v = xs"
proof (rule sym, rule fill_eqI)
  fix i assume "i < length xs"
  show "xs ! i = (if s \<le> i \<and> i < s + n then v else xs ! i)"
    using assms(2) [of "i - s"] by auto
qed (use assms in auto)

end
