(* ===== verification/Bitmap.thy ===== *)
theory Bitmap
  imports Pintos_Prelude
begin

section \<open>Bitmaps (lib/kernel/bitmap.c)\<close>

text \<open>
  A bitmap is an array of 32-bit elements of which the first \<^verbatim>\<open>bit_cnt\<close> bits are in use. The
  operations are translated with the element arithmetic, the masks and the loops of the source on
  32-bit words; the lemmas relate them to the list of booleans \<open>bitmap_bits\<close> the bitmap
  stands for. The page allocator, the free map of the file system and the priority arrays of the
  scheduler are built on it: what they need is the interface \<open>bit_allocator\<close> at the end.
\<close>

subsection \<open>State and operations\<close>

type_synonym elem_type = u32

record bitmap =
  bit_cnt :: size_t
  bits :: "elem_type list"

definition ELEM_BITS :: size_t where
  "ELEM_BITS = 32"

definition BITMAP_ERROR :: size_t where
  "BITMAP_ERROR = 4294967295"

definition elem_idx :: "size_t \<Rightarrow> size_t" where
  "elem_idx bit_idx = bit_idx div ELEM_BITS"

definition bit_mask :: "size_t \<Rightarrow> elem_type" where
  "bit_mask bit_idx = push_bit (unat (bit_idx mod ELEM_BITS)) 1"

definition elem_cnt :: "size_t \<Rightarrow> size_t" where
  "elem_cnt n = (n + ELEM_BITS - 1) div ELEM_BITS"

definition byte_cnt :: "size_t \<Rightarrow> size_t" where
  "byte_cnt n = 4 * elem_cnt n"

definition last_mask :: "bitmap \<Rightarrow> elem_type" where
  "last_mask b =
     (let last_bits = unat (bit_cnt b mod ELEM_BITS)
      in if last_bits \<noteq> 0 then push_bit last_bits 1 - 1 else - 1)"

definition bitmap_buf_size :: "size_t \<Rightarrow> size_t" where
  "bitmap_buf_size n = 8 + byte_cnt n"

definition bitmap_size :: "bitmap \<Rightarrow> size_t" where
  "bitmap_size b = bit_cnt b"

text \<open>
  Reading or writing an element outside \<^const>\<open>bits\<close> is an access outside the storage of the
  bitmap; there the model gives \<^term>\<open>None\<close>.
\<close>

definition upd_elem :: "bitmap \<Rightarrow> size_t \<Rightarrow> (elem_type \<Rightarrow> elem_type) \<Rightarrow> bitmap option" where
  "upd_elem b idx f =
     (if unat idx < length (bits b)
      then Some (b\<lparr>bits := (bits b)[unat idx := f (bits b ! unat idx)]\<rparr>)
      else None)"

definition bitmap_mark :: "bitmap \<Rightarrow> size_t \<Rightarrow> bitmap option" where
  "bitmap_mark b bit_idx = upd_elem b (elem_idx bit_idx) (\<lambda>e. e OR bit_mask bit_idx)"

definition bitmap_reset :: "bitmap \<Rightarrow> size_t \<Rightarrow> bitmap option" where
  "bitmap_reset b bit_idx = upd_elem b (elem_idx bit_idx) (\<lambda>e. e AND NOT (bit_mask bit_idx))"

definition bitmap_flip :: "bitmap \<Rightarrow> size_t \<Rightarrow> bitmap option" where
  "bitmap_flip b bit_idx = upd_elem b (elem_idx bit_idx) (\<lambda>e. e XOR bit_mask bit_idx)"

definition bitmap_set :: "bitmap \<Rightarrow> size_t \<Rightarrow> bool \<Rightarrow> bitmap option" where
  "bitmap_set b idx value = do {
     kassert (idx < bit_cnt b);
     if value then bitmap_mark b idx else bitmap_reset b idx
   }"

definition bitmap_test :: "bitmap \<Rightarrow> size_t \<Rightarrow> bool option" where
  "bitmap_test b idx = do {
     kassert (idx < bit_cnt b);
     kassert (unat (elem_idx idx) < length (bits b));
     Some ((bits b ! unat (elem_idx idx)) AND bit_mask idx \<noteq> 0)
   }"

text \<open>The loops \<^verbatim>\<open>for (i = 0; i < cnt; i++)\<close>, with the loop variable a \<^typ>\<open>size_t\<close>.\<close>

function set_multiple_loop :: "bitmap \<Rightarrow> size_t \<Rightarrow> size_t \<Rightarrow> bool \<Rightarrow> size_t \<Rightarrow> bitmap option" where
  "set_multiple_loop b start cnt value i =
     (if i < cnt
      then Option.bind (bitmap_set b (start + i) value)
             (\<lambda>b'. set_multiple_loop b' start cnt value (i + 1))
      else Some b)"
  by pat_completeness auto
termination
  by (relation "measure (\<lambda>(b, start, cnt, value, i). unat cnt - unat i)")
    (simp_all add: u32_count_up)

definition bitmap_set_multiple :: "bitmap \<Rightarrow> size_t \<Rightarrow> size_t \<Rightarrow> bool \<Rightarrow> bitmap option" where
  "bitmap_set_multiple b start cnt value = do {
     kassert (start \<le> bit_cnt b);
     kassert (start + cnt \<le> bit_cnt b);
     set_multiple_loop b start cnt value 0
   }"

definition bitmap_set_all :: "bitmap \<Rightarrow> bool \<Rightarrow> bitmap option" where
  "bitmap_set_all b value = bitmap_set_multiple b 0 (bitmap_size b) value"

function count_loop :: "bitmap \<Rightarrow> size_t \<Rightarrow> size_t \<Rightarrow> bool \<Rightarrow> size_t \<Rightarrow> size_t \<Rightarrow> size_t option" where
  "count_loop b start cnt value i value_cnt =
     (if i < cnt
      then Option.bind (bitmap_test b (start + i))
             (\<lambda>t. count_loop b start cnt value (i + 1)
                    (if t = value then value_cnt + 1 else value_cnt))
      else Some value_cnt)"
  by pat_completeness auto
termination
  by (relation "measure (\<lambda>(b, start, cnt, value, i, value_cnt). unat cnt - unat i)")
    (simp_all add: u32_count_up)

definition bitmap_count :: "bitmap \<Rightarrow> size_t \<Rightarrow> size_t \<Rightarrow> bool \<Rightarrow> size_t option" where
  "bitmap_count b start cnt value = do {
     kassert (start \<le> bit_cnt b);
     kassert (start + cnt \<le> bit_cnt b);
     count_loop b start cnt value 0 0
   }"

function contains_loop :: "bitmap \<Rightarrow> size_t \<Rightarrow> size_t \<Rightarrow> bool \<Rightarrow> size_t \<Rightarrow> bool option" where
  "contains_loop b start cnt value i =
     (if i < cnt
      then Option.bind (bitmap_test b (start + i))
             (\<lambda>t. if t = value then Some True else contains_loop b start cnt value (i + 1))
      else Some False)"
  by pat_completeness auto
termination
  by (relation "measure (\<lambda>(b, start, cnt, value, i). unat cnt - unat i)")
    (simp_all add: u32_count_up)

definition bitmap_contains :: "bitmap \<Rightarrow> size_t \<Rightarrow> size_t \<Rightarrow> bool \<Rightarrow> bool option" where
  "bitmap_contains b start cnt value = do {
     kassert (start \<le> bit_cnt b);
     kassert (start + cnt \<le> bit_cnt b);
     contains_loop b start cnt value 0
   }"

definition bitmap_any :: "bitmap \<Rightarrow> size_t \<Rightarrow> size_t \<Rightarrow> bool option" where
  "bitmap_any b start cnt = bitmap_contains b start cnt True"

definition bitmap_none :: "bitmap \<Rightarrow> size_t \<Rightarrow> size_t \<Rightarrow> bool option" where
  "bitmap_none b start cnt = map_option Not (bitmap_contains b start cnt True)"

definition bitmap_all :: "bitmap \<Rightarrow> size_t \<Rightarrow> size_t \<Rightarrow> bool option" where
  "bitmap_all b start cnt = map_option Not (bitmap_contains b start cnt False)"

text \<open>
  The scan loop runs while \<^verbatim>\<open>i <= last\<close>. With \<^verbatim>\<open>last\<close> the greatest \<^typ>\<open>size_t\<close> that condition
  would hold for ever; \<^verbatim>\<open>last\<close> is \<^verbatim>\<open>bit_cnt - cnt\<close>, so this needs \<^verbatim>\<open>cnt\<close> to be 0, and then the
  loop returns in its first iteration. The exit \<open>i = lst\<close> of the model is the failing of
  the loop condition at the next iteration.
\<close>

function scan_loop :: "bitmap \<Rightarrow> size_t \<Rightarrow> bool \<Rightarrow> size_t \<Rightarrow> size_t \<Rightarrow> size_t option" where
  "scan_loop b cnt value lst i =
     (if i \<le> lst
      then Option.bind (bitmap_contains b i cnt (\<not> value))
             (\<lambda>c. if \<not> c then Some i
                  else if i = lst then Some BITMAP_ERROR
                  else scan_loop b cnt value lst (i + 1))
      else Some BITMAP_ERROR)"
  by pat_completeness auto
termination
  by (relation "measure (\<lambda>(b, cnt, value, lst, i). unat lst - unat i)")
    (simp_all add: u32_count_up_le)

definition bitmap_scan :: "bitmap \<Rightarrow> size_t \<Rightarrow> size_t \<Rightarrow> bool \<Rightarrow> size_t option" where
  "bitmap_scan b start cnt value = do {
     kassert (start \<le> bit_cnt b);
     if cnt \<le> bit_cnt b
     then scan_loop b cnt value (bit_cnt b - cnt) start
     else Some BITMAP_ERROR
   }"

definition bitmap_scan_and_flip ::
  "bitmap \<Rightarrow> size_t \<Rightarrow> size_t \<Rightarrow> bool \<Rightarrow> (size_t \<times> bitmap) option" where
  "bitmap_scan_and_flip b start cnt value = do {
     idx \<leftarrow> bitmap_scan b start cnt value;
     if idx \<noteq> BITMAP_ERROR
     then map_option (\<lambda>b'. (idx, b')) (bitmap_set_multiple b idx cnt (\<not> value))
     else Some (idx, b)
   }"

text \<open>
  Creation. \<open>storage\<close> is what the memory at \<^verbatim>\<open>bits\<close> holds before the bits are cleared:
  the block \<^verbatim>\<open>malloc\<close> returned (\<^term>\<open>None\<close> when it returned a null pointer), or the bytes after
  the header of the caller's buffer.
\<close>

definition bitmap_create_in_buf :: "size_t \<Rightarrow> elem_type list \<Rightarrow> size_t \<Rightarrow> bitmap option" where
  "bitmap_create_in_buf n storage block_size = do {
     kassert (bitmap_buf_size n \<le> block_size);
     bitmap_set_all \<lparr>bit_cnt = n, bits = storage\<rparr> False
   }"

definition bitmap_create :: "size_t \<Rightarrow> bool \<Rightarrow> elem_type list option \<Rightarrow> bitmap option option" where
  "bitmap_create n header_ok storage =
     (if \<not> header_ok then Some None
      else case storage of
        None \<Rightarrow> if n = 0 then map_option Some (bitmap_set_all \<lparr>bit_cnt = n, bits = []\<rparr> False)
                else Some None
      | Some es \<Rightarrow> map_option Some (bitmap_set_all \<lparr>bit_cnt = n, bits = es\<rparr> False))"

subsection \<open>The list of bits a bitmap stands for\<close>

definition bitmap_wf :: "bitmap \<Rightarrow> bool" where
  "bitmap_wf b \<longleftrightarrow>
     unat (bit_cnt b) + 31 < 2 ^ 32 \<and> length (bits b) = (unat (bit_cnt b) + 31) div 32"

definition bitmap_bits :: "bitmap \<Rightarrow> bool list" where
  "bitmap_bits b = map (\<lambda>i. bit (bits b ! (i div 32)) (i mod 32)) [0..<unat (bit_cnt b)]"

lemma length_bitmap_bits [simp]: "length (bitmap_bits b) = unat (bit_cnt b)"
  by (simp add: bitmap_bits_def)

lemma nth_bitmap_bits:
  "i < unat (bit_cnt b) \<Longrightarrow> bitmap_bits b ! i = bit (bits b ! (i div 32)) (i mod 32)"
  by (simp add: bitmap_bits_def)

lemma unat_elem_idx [simp]: "unat (elem_idx i) = unat i div 32"
  by (simp add: elem_idx_def ELEM_BITS_def unat_div)

lemma unat_mod_ELEM_BITS [simp]: "unat (i mod ELEM_BITS) = unat i mod 32"
  by (simp add: ELEM_BITS_def unat_mod)

lemma bit_bit_mask: "bit (bit_mask i) n \<longleftrightarrow> n = unat i mod 32"
proof -
  have "unat i mod 32 < 32" by simp
  then show ?thesis
    by (auto simp: bit_mask_def bit_exp_iff)
qed

lemma unat_elem_cnt:
  assumes "unat n + 31 < 2 ^ 32"
  shows "unat (elem_cnt n) = (unat n + 31) div 32"
proof -
  have "unat (31 + n) = unat (31 :: u32) + unat n"
    by (rule unat_add_u32) (use assms in simp)
  then show ?thesis
    by (simp add: elem_cnt_def ELEM_BITS_def unat_div)
qed

lemma wf_elem_index:
  assumes "bitmap_wf b" and "i < unat (bit_cnt b)"
  shows "i div 32 < length (bits b)"
  using assms by (auto simp: bitmap_wf_def)

lemma bitmap_test_eq:
  assumes "bitmap_wf b"
  shows "bitmap_test b i =
    (if unat i < unat (bit_cnt b) then Some (bitmap_bits b ! unat i) else None)"
proof (cases "unat i < unat (bit_cnt b)")
  case True
  have "(e AND bit_mask i \<noteq> 0) = bit e (unat i mod 32)" for e :: elem_type
    by (subst bit_eq_iff) (auto simp: bit_and_iff bit_bit_mask)
  with True show ?thesis
    using wf_elem_index [OF assms True]
    by (simp add: bitmap_test_def word_less_nat_alt nth_bitmap_bits)
next
  case False
  then show ?thesis by (simp add: bitmap_test_def word_less_nat_alt)
qed

text \<open>An update of one element changes exactly the bits of that element.\<close>

lemma upd_elem_bits:
  assumes wf: "bitmap_wf b" and i: "i < unat (bit_cnt b)"
    and f: "\<And>e n. n < 32 \<Longrightarrow> bit (f e) n = (if n = i mod 32 then v e else bit e n)"
    and j: "unat idx = i div 32"
  shows "\<exists>b'. upd_elem b idx f = Some b' \<and> bitmap_wf b' \<and> bit_cnt b' = bit_cnt b \<and>
     bitmap_bits b' = (bitmap_bits b)[i := v (bits b ! (i div 32))]"
proof -
  let ?b = "b\<lparr>bits := (bits b)[i div 32 := f (bits b ! (i div 32))]\<rparr>"
  have len: "i div 32 < length (bits b)" using wf i by (rule wf_elem_index)
  have "bitmap_bits ?b = (bitmap_bits b)[i := v (bits b ! (i div 32))]"
  proof (rule nth_equalityI)
    fix k assume "k < length (bitmap_bits ?b)"
    then have k: "k < unat (bit_cnt b)" by simp
    have "k = i" if "k div 32 = i div 32" "k mod 32 = i mod 32"
      using that by (metis div_mult_mod_eq)
    then show "bitmap_bits ?b ! k = (bitmap_bits b)[i := v (bits b ! (i div 32))] ! k"
      using k i len f by (auto simp: nth_bitmap_bits nth_list_update)
  qed simp
  then show ?thesis
    using wf len j by (auto simp: upd_elem_def bitmap_wf_def)
qed

lemma bitmap_set_bits:
  assumes wf: "bitmap_wf b" and i: "unat i < unat (bit_cnt b)"
  shows "\<exists>b'. bitmap_set b i v = Some b' \<and> bitmap_wf b' \<and> bit_cnt b' = bit_cnt b \<and>
     bitmap_bits b' = (bitmap_bits b)[unat i := v]"
proof (cases v)
  case True
  have "\<exists>b'. upd_elem b (elem_idx i) (\<lambda>e. e OR bit_mask i) = Some b' \<and> bitmap_wf b' \<and>
     bit_cnt b' = bit_cnt b \<and> bitmap_bits b' = (bitmap_bits b)[unat i := True]"
    by (rule upd_elem_bits [OF wf i]) (auto simp: bit_or_iff bit_bit_mask)
  with True i show ?thesis
    by (simp add: bitmap_set_def bitmap_mark_def word_less_nat_alt)
next
  case False
  have "\<exists>b'. upd_elem b (elem_idx i) (\<lambda>e. e AND NOT (bit_mask i)) = Some b' \<and> bitmap_wf b' \<and>
     bit_cnt b' = bit_cnt b \<and> bitmap_bits b' = (bitmap_bits b)[unat i := False]"
    by (rule upd_elem_bits [OF wf i]) (auto simp: bit_and_iff bit_not_iff bit_bit_mask)
  with False i show ?thesis
    by (simp add: bitmap_set_def bitmap_reset_def word_less_nat_alt)
qed

lemma bitmap_set_out: "\<not> unat i < unat (bit_cnt b) \<Longrightarrow> bitmap_set b i v = None"
  by (simp add: bitmap_set_def word_less_nat_alt)

lemma bitmap_mark_bits:
  assumes "bitmap_wf b" and "unat i < unat (bit_cnt b)"
  shows "\<exists>b'. bitmap_mark b i = Some b' \<and> bitmap_wf b' \<and> bit_cnt b' = bit_cnt b \<and>
     bitmap_bits b' = (bitmap_bits b)[unat i := True]"
  using bitmap_set_bits [OF assms, of True] assms(2)
  by (simp add: bitmap_set_def word_less_nat_alt)

lemma bitmap_reset_bits:
  assumes "bitmap_wf b" and "unat i < unat (bit_cnt b)"
  shows "\<exists>b'. bitmap_reset b i = Some b' \<and> bitmap_wf b' \<and> bit_cnt b' = bit_cnt b \<and>
     bitmap_bits b' = (bitmap_bits b)[unat i := False]"
  using bitmap_set_bits [OF assms, of False] assms(2)
  by (simp add: bitmap_set_def word_less_nat_alt)

lemma bitmap_flip_bits:
  assumes wf: "bitmap_wf b" and i: "unat i < unat (bit_cnt b)"
  shows "\<exists>b'. bitmap_flip b i = Some b' \<and> bitmap_wf b' \<and> bit_cnt b' = bit_cnt b \<and>
     bitmap_bits b' = (bitmap_bits b)[unat i := \<not> bitmap_bits b ! unat i]"
proof -
  have "\<exists>b'. upd_elem b (elem_idx i) (\<lambda>e. e XOR bit_mask i) = Some b' \<and> bitmap_wf b' \<and>
     bit_cnt b' = bit_cnt b \<and>
     bitmap_bits b' =
       (bitmap_bits b)[unat i := (\<lambda>e. \<not> bit e (unat i mod 32)) (bits b ! (unat i div 32))]"
    by (rule upd_elem_bits [OF wf i]) (auto simp: bit_xor_iff bit_bit_mask)
  then show ?thesis
    using i by (simp add: bitmap_flip_def nth_bitmap_bits)
qed

subsection \<open>Ranges of bits\<close>

declare set_multiple_loop.simps [simp del]
declare count_loop.simps [simp del]
declare contains_loop.simps [simp del]
declare scan_loop.simps [simp del]

lemma range_index:
  assumes "unat (start :: u32) + unat (cnt :: u32) \<le> unat (n :: u32)" and "i < cnt"
  shows "unat (start + i) = unat start + unat i" and "unat start + unat i < unat n"
proof -
  have lt: "unat start + unat i < unat n"
    using assms by (simp add: word_less_nat_alt)
  with unat_u32_bound [of n] show "unat (start + i) = unat start + unat i"
    by (intro unat_add_u32) simp
  show "unat start + unat i < unat n" by (rule lt)
qed

lemma set_multiple_loop_bits:
  assumes "bitmap_wf b" and "unat start + unat cnt \<le> unat (bit_cnt b)" and "unat i \<le> unat cnt"
  shows "\<exists>b'. set_multiple_loop b start cnt v i = Some b' \<and> bitmap_wf b' \<and>
     bit_cnt b' = bit_cnt b \<and>
     bitmap_bits b' = fill (bitmap_bits b) (unat start + unat i) (unat cnt - unat i) v"
  using assms
proof (induction b start cnt v i rule: set_multiple_loop.induct)
  case (1 b start cnt v i)
  show ?case
  proof (cases "i < cnt")
    case False
    then have "unat cnt - unat i = 0" by (simp add: word_less_nat_alt)
    with False "1.prems" show ?thesis by (simp add: set_multiple_loop.simps [of b])
  next
    case True
    note idx = range_index [OF "1.prems"(2) True]
    obtain b' where b': "bitmap_set b (start + i) v = Some b'" "bitmap_wf b'"
        "bit_cnt b' = bit_cnt b"
        "bitmap_bits b' = (bitmap_bits b)[unat start + unat i := v]"
      using bitmap_set_bits [OF "1.prems"(1), of "start + i" v] idx by auto
    have lt: "unat i < unat cnt" using True by (simp add: word_less_nat_alt)
    have cnt: "unat cnt - unat i = Suc (unat cnt - unat (i + 1))"
      using lt by (simp add: unat_Suc_u32 [OF True])
    have "unat start + unat i + Suc (unat cnt - unat (i + 1)) \<le> length (bitmap_bits b)"
      using "1.prems"(2) lt cnt by simp
    note step = fill_step [OF this, of v]
    have "unat (i + 1) \<le> unat cnt" using lt by (simp add: unat_Suc_u32 [OF True])
    then show ?thesis
      using "1.IH" [OF True b'(1)] b' "1.prems" True step
      by (simp add: set_multiple_loop.simps [of b] cnt unat_Suc_u32 [OF True])
  qed
qed

text \<open>
  The assertions of \<^verbatim>\<open>bitmap_set_multiple\<close> add \<^verbatim>\<open>start\<close> and \<^verbatim>\<open>cnt\<close> in \<^typ>\<open>size_t\<close>, so the second
  one also passes when the sum wraps around. The loop then runs into the assertion of
  \<^verbatim>\<open>bitmap_set\<close>.
\<close>

lemma set_multiple_loop_panics:
  assumes "unat (bit_cnt b) < unat start + unat cnt" and "unat start + unat i \<le> unat (bit_cnt b)"
  shows "set_multiple_loop b start cnt v i = None"
  using assms
proof (induction b start cnt v i rule: set_multiple_loop.induct)
  case (1 b start cnt v i)
  have lt: "i < cnt" using "1.prems" by (simp add: word_less_nat_alt)
  have idx: "unat (start + i) = unat start + unat i"
    using "1.prems"(2) unat_u32_bound [of "bit_cnt b"] by (intro unat_add_u32) simp
  have cnt: "bit_cnt b' = bit_cnt b" if "bitmap_set b (start + i) v = Some b'" for b'
    using that by (auto simp: bitmap_set_def bitmap_mark_def bitmap_reset_def upd_elem_def
        split: if_splits)
  show ?case
  proof (cases "unat start + unat i < unat (bit_cnt b)")
    case False
    with idx lt show ?thesis
      by (simp add: set_multiple_loop.simps [of b] bitmap_set_out)
  next
    case True
    show ?thesis
    proof (cases "bitmap_set b (start + i) v")
      case None
      with lt show ?thesis by (simp add: set_multiple_loop.simps [of b])
    next
      case (Some b')
      have "set_multiple_loop b' start cnt v (i + 1) = None"
        by (rule "1.IH" [OF lt Some])
          (use "1.prems"(1) True cnt [OF Some] in \<open>simp_all add: unat_Suc_u32 [OF lt]\<close>)
      with Some lt show ?thesis by (simp add: set_multiple_loop.simps [of b])
    qed
  qed
qed

lemma bitmap_set_multiple_bits:
  assumes "bitmap_wf b" and le: "unat start + unat cnt \<le> unat (bit_cnt b)"
  shows "\<exists>b'. bitmap_set_multiple b start cnt v = Some b' \<and> bitmap_wf b' \<and>
     bit_cnt b' = bit_cnt b \<and> bitmap_bits b' = fill (bitmap_bits b) (unat start) (unat cnt) v"
proof -
  have "unat (start + cnt) = unat start + unat cnt"
    using le unat_u32_bound [of "bit_cnt b"] by (intro unat_add_u32) simp
  then show ?thesis
    using set_multiple_loop_bits [OF assms, of 0 v] le
    by (simp add: bitmap_set_multiple_def word_le_nat_alt)
qed

lemma bitmap_set_multiple_panics:
  "\<not> unat start + unat cnt \<le> unat (bit_cnt b) \<Longrightarrow> bitmap_set_multiple b start cnt v = None"
  using set_multiple_loop_panics [of b start cnt 0 v]
  by (auto simp: bitmap_set_multiple_def word_le_nat_alt kassert_def)

lemma count_loop_eq:
  assumes "bitmap_wf b" and "unat start + unat cnt \<le> unat (bit_cnt b)" and "unat i \<le> unat cnt"
  shows "count_loop b start cnt v i n =
    Some (n + of_nat (length (filter (\<lambda>x. x = v)
       (take (unat cnt - unat i) (drop (unat start + unat i) (bitmap_bits b))))))"
  using assms
proof (induction b start cnt v i n rule: count_loop.induct)
  case (1 b start cnt v i n)
  show ?case
  proof (cases "i < cnt")
    case False
    then have "unat cnt - unat i = 0" by (simp add: word_less_nat_alt)
    with False show ?thesis by (simp add: count_loop.simps [of b])
  next
    case True
    note idx = range_index [OF "1.prems"(2) True]
    have lt: "unat i < unat cnt" using True by (simp add: word_less_nat_alt)
    have cnt: "unat cnt - unat i = Suc (unat cnt - unat (i + 1))"
      using lt by (simp add: unat_Suc_u32 [OF True])
    have "drop (unat start + unat i) (bitmap_bits b) =
        bitmap_bits b ! (unat start + unat i) # drop (unat start + unat (i + 1)) (bitmap_bits b)"
      using idx by (simp add: unat_Suc_u32 [OF True] Cons_nth_drop_Suc)
    moreover have "unat (i + 1) \<le> unat cnt" using lt by (simp add: unat_Suc_u32 [OF True])
    moreover have t: "bitmap_test b (start + i) = Some (bitmap_bits b ! (unat start + unat i))"
      using idx "1.prems"(1) by (simp add: bitmap_test_eq)
    ultimately show ?thesis
      using "1.IH" [OF True] "1.prems" True
      by (simp add: count_loop.simps [of b] cnt t)
  qed
qed

lemma bitmap_count_eq:
  assumes "bitmap_wf b" and le: "unat start + unat cnt \<le> unat (bit_cnt b)"
  shows "bitmap_count b start cnt v =
    Some (of_nat (count_list (take (unat cnt) (drop (unat start) (bitmap_bits b))) v))"
proof -
  have "unat (start + cnt) = unat start + unat cnt"
    using le unat_u32_bound [of "bit_cnt b"] by (intro unat_add_u32) simp
  moreover have "length (filter (\<lambda>x. x = v) xs) = count_list xs v" for xs
    by (induction xs) auto
  ultimately show ?thesis
    using count_loop_eq [OF assms, of 0 v 0] le
    by (simp add: bitmap_count_def word_le_nat_alt)
qed

lemma contains_loop_eq:
  assumes "bitmap_wf b" and "unat start + unat cnt \<le> unat (bit_cnt b)"
  shows "contains_loop b start cnt v i =
    Some (\<exists>k. unat i \<le> k \<and> k < unat cnt \<and> bitmap_bits b ! (unat start + k) = v)"
  using assms
proof (induction b start cnt v i rule: contains_loop.induct)
  case (1 b start cnt v i)
  show ?case
  proof (cases "i < cnt")
    case False
    then show ?thesis by (auto simp: contains_loop.simps [of b] word_less_nat_alt)
  next
    case True
    note idx = range_index [OF "1.prems"(2) True]
    have lt: "unat i < unat cnt" using True by (simp add: word_less_nat_alt)
    have t: "bitmap_test b (start + i) = Some (bitmap_bits b ! (unat start + unat i))"
      using idx "1.prems"(1) by (simp add: bitmap_test_eq)
    show ?thesis
    proof (cases "bitmap_bits b ! (unat start + unat i) = v")
      case True
      with \<open>i < cnt\<close> t lt show ?thesis by (auto simp: contains_loop.simps [of b])
    next
      case False
      have "(unat i \<le> k \<and> bitmap_bits b ! (unat start + k) = v) \<longleftrightarrow>
          (unat (i + 1) \<le> k \<and> bitmap_bits b ! (unat start + k) = v)" for k
        using False by (auto simp: unat_Suc_u32 [OF \<open>i < cnt\<close>] Suc_le_eq le_less)
      then show ?thesis
        using "1.IH" [OF \<open>i < cnt\<close> _ False] "1.prems" \<open>i < cnt\<close> t False
        by (auto simp: contains_loop.simps [of b])
    qed
  qed
qed

lemma bitmap_contains_eq:
  assumes "bitmap_wf b" and le: "unat start + unat cnt \<le> unat (bit_cnt b)"
  shows "bitmap_contains b start cnt v =
    Some (\<exists>k < unat cnt. bitmap_bits b ! (unat start + k) = v)"
proof -
  have "unat (start + cnt) = unat start + unat cnt"
    using le unat_u32_bound [of "bit_cnt b"] by (intro unat_add_u32) simp
  then show ?thesis
    using contains_loop_eq [OF assms, of v 0] le
    by (simp add: bitmap_contains_def word_le_nat_alt)
qed

subsection \<open>Scanning for a run of equal bits\<close>

definition run_at :: "bool list \<Rightarrow> nat \<Rightarrow> nat \<Rightarrow> bool \<Rightarrow> bool" where
  "run_at bs i n v \<longleftrightarrow> i + n \<le> length bs \<and> (\<forall>k < n. bs ! (i + k) = v)"

text \<open>The specification of the scan: the first start of a run, searched from the left.\<close>

definition first_run :: "bool list \<Rightarrow> nat \<Rightarrow> nat \<Rightarrow> bool \<Rightarrow> nat option" where
  "first_run bs s n v = find (\<lambda>i. run_at bs i n v) [s..<Suc (length bs)]"

lemma find_upt_Some:
  "find P [a..<b] = Some i \<longleftrightarrow> a \<le> i \<and> i < b \<and> P i \<and> (\<forall>j. a \<le> j \<and> j < i \<longrightarrow> \<not> P j)"
proof (induction "b - a" arbitrary: a)
  case 0
  then show ?case by simp
next
  case (Suc d)
  then have lt: "a < b" and d: "d = b - Suc a" by simp_all
  have "(\<forall>j. a \<le> j \<and> j < i \<longrightarrow> \<not> P j) \<longleftrightarrow>
      (a < i \<longrightarrow> \<not> P a) \<and> (\<forall>j. Suc a \<le> j \<and> j < i \<longrightarrow> \<not> P j)" for i
    by (metis Suc_le_eq le_eq_less_or_eq)
  then show ?case
    using lt Suc.hyps(1) [OF d] by (auto simp: upt_conv_Cons Suc_le_eq)
qed

lemma first_run_Some:
  "first_run bs s n v = Some i \<longleftrightarrow>
     s \<le> i \<and> run_at bs i n v \<and> (\<forall>j. s \<le> j \<and> j < i \<longrightarrow> \<not> run_at bs j n v)"
  unfolding first_run_def find_upt_Some by (auto simp: run_at_def)

lemma first_run_None:
  "first_run bs s n v = None \<longleftrightarrow> (\<forall>i. s \<le> i \<longrightarrow> \<not> run_at bs i n v)"
  unfolding first_run_def find_None_iff by (auto simp: run_at_def)

lemma first_run_step:
  "s \<le> length bs \<Longrightarrow>
     first_run bs s n v = (if run_at bs s n v then Some s else first_run bs (Suc s) n v)"
  by (simp add: first_run_def upt_conv_Cons del: upt_Suc)

definition scan_result :: "nat option \<Rightarrow> size_t" where
  "scan_result r = (case r of None \<Rightarrow> BITMAP_ERROR | Some i \<Rightarrow> of_nat i)"

lemma scan_loop_eq:
  assumes "bitmap_wf b" and "cnt \<le> bit_cnt b" and "lst = bit_cnt b - cnt"
  shows "scan_loop b cnt v lst i =
    Some (scan_result (first_run (bitmap_bits b) (unat i) (unat cnt) v))"
  using assms
proof (induction b cnt v lst i rule: scan_loop.induct)
  case (1 b cnt v lst i)
  let ?bs = "bitmap_bits b"
  have lst: "unat lst = unat (bit_cnt b) - unat cnt" and cnt: "unat cnt \<le> unat (bit_cnt b)"
    using "1.prems" by (simp_all add: unat_sub_u32 word_le_nat_alt)
  have beyond: "first_run ?bs j (unat cnt) v = None" if "unat lst < j" for j
    using that lst cnt by (auto simp: first_run_None run_at_def)
  show ?case
  proof (cases "i \<le> lst")
    case False
    then show ?thesis
      using beyond [of "unat i"]
      by (simp add: scan_loop.simps [of b] word_le_nat_alt scan_result_def)
  next
    case True
    then have le: "unat i + unat cnt \<le> unat (bit_cnt b)"
      using lst cnt by (simp add: word_le_nat_alt)
    have c: "bitmap_contains b i cnt (\<not> v) = Some (\<not> run_at ?bs (unat i) (unat cnt) v)"
      using bitmap_contains_eq [OF "1.prems"(1) le, of "\<not> v"] le by (auto simp: run_at_def)
    have step: "first_run ?bs (unat i) (unat cnt) v =
        (if run_at ?bs (unat i) (unat cnt) v then Some (unat i)
         else first_run ?bs (Suc (unat i)) (unat cnt) v)"
      using le by (intro first_run_step) simp
    show ?thesis
    proof (cases "run_at ?bs (unat i) (unat cnt) v \<or> i = lst")
      case True
      then show ?thesis
        using \<open>i \<le> lst\<close> c step beyond [of "Suc (unat lst)"]
        by (auto simp: scan_loop.simps [of b] scan_result_def)
    next
      case False
      then have "i < lst" using \<open>i \<le> lst\<close> by (simp add: order_less_le)
      then show ?thesis
        using \<open>i \<le> lst\<close> c step False "1.IH" [OF \<open>i \<le> lst\<close> c] "1.prems"
        by (simp add: scan_loop.simps [of b] unat_Suc_u32)
    qed
  qed
qed

lemma bitmap_scan_eq:
  assumes wf: "bitmap_wf b" and "unat start \<le> unat (bit_cnt b)"
  shows "bitmap_scan b start cnt v =
    Some (scan_result (first_run (bitmap_bits b) (unat start) (unat cnt) v))"
proof (cases "cnt \<le> bit_cnt b")
  case True
  then show ?thesis
    using assms scan_loop_eq [OF wf True refl]
    by (simp add: bitmap_scan_def word_le_nat_alt)
next
  case False
  then have "first_run (bitmap_bits b) (unat start) (unat cnt) v = None"
    by (auto simp: first_run_None run_at_def word_le_nat_alt)
  with False assms show ?thesis
    by (simp add: bitmap_scan_def word_le_nat_alt scan_result_def)
qed

lemma scan_result_index:
  assumes "bitmap_wf b" and "first_run (bitmap_bits b) s n v = Some i"
  shows "unat (scan_result (Some i)) = i" and "scan_result (Some i) \<noteq> BITMAP_ERROR"
proof -
  have "i < 2 ^ 32 - 31"
    using assms by (auto simp: first_run_Some run_at_def bitmap_wf_def)
  then show i: "unat (scan_result (Some i)) = i"
    by (simp add: scan_result_def unat_of_nat_u32)
  have "unat BITMAP_ERROR = 2 ^ 32 - 1" by (simp add: BITMAP_ERROR_def)
  then show "scan_result (Some i) \<noteq> BITMAP_ERROR"
    using i \<open>i < 2 ^ 32 - 31\<close> by auto
qed

lemma bitmap_scan_and_flip_eq:
  assumes wf: "bitmap_wf b" and start: "unat start \<le> unat (bit_cnt b)"
  shows "case first_run (bitmap_bits b) (unat start) (unat cnt) v of
      None \<Rightarrow> bitmap_scan_and_flip b start cnt v = Some (BITMAP_ERROR, b)
    | Some i \<Rightarrow> \<exists>idx b'. bitmap_scan_and_flip b start cnt v = Some (idx, b') \<and>
        idx \<noteq> BITMAP_ERROR \<and> unat idx = i \<and> bitmap_wf b' \<and> bit_cnt b' = bit_cnt b \<and>
        bitmap_bits b' = fill (bitmap_bits b) i (unat cnt) (\<not> v)"
proof (cases "first_run (bitmap_bits b) (unat start) (unat cnt) v")
  case None
  then show ?thesis
    by (simp add: bitmap_scan_and_flip_def bitmap_scan_eq [OF assms] scan_result_def)
next
  case (Some i)
  note idx = scan_result_index [OF wf Some]
  have "unat (scan_result (Some i)) + unat cnt \<le> unat (bit_cnt b)"
    using Some idx by (simp add: first_run_Some run_at_def)
  from bitmap_set_multiple_bits [OF wf this, of "\<not> v"] Some idx show ?thesis
    by (auto simp: bitmap_scan_and_flip_def bitmap_scan_eq [OF assms])
qed

subsection \<open>Creation\<close>

lemma bitmap_set_all_bits:
  assumes "bitmap_wf b"
  shows "\<exists>b'. bitmap_set_all b v = Some b' \<and> bitmap_wf b' \<and> bit_cnt b' = bit_cnt b \<and>
     bitmap_bits b' = replicate (unat (bit_cnt b)) v"
  using bitmap_set_multiple_bits [OF assms, of 0 "bit_cnt b" v]
  by (simp add: bitmap_set_all_def bitmap_size_def fill_def)

lemma bitmap_create_in_buf_bits:
  assumes "unat n + 31 < 2 ^ 32" and "length es = (unat n + 31) div 32"
    and "bitmap_buf_size n \<le> sz"
  shows "\<exists>b. bitmap_create_in_buf n es sz = Some b \<and> bitmap_wf b \<and> bit_cnt b = n \<and>
     bitmap_bits b = replicate (unat n) False"
proof -
  have "bitmap_wf \<lparr>bit_cnt = n, bits = es\<rparr>" using assms by (simp add: bitmap_wf_def)
  from bitmap_set_all_bits [OF this, of False] assms(3) show ?thesis
    by (simp add: bitmap_create_in_buf_def)
qed

subsection \<open>The interface of an allocator of units\<close>

text \<open>
  \<^verbatim>\<open>palloc.c\<close> (pages) and \<^verbatim>\<open>free-map.c\<close> (disk sectors) use a bitmap in the same way: take the first
  run of clear bits and set it; later check that a run is set and clear it. The interface names
  the two operations, the list of flags they work on, and their laws.
\<close>

definition release_range :: "bitmap \<Rightarrow> size_t \<Rightarrow> size_t \<Rightarrow> bitmap option" where
  "release_range b start cnt = do {
     a \<leftarrow> bitmap_all b start cnt;
     kassert a;
     bitmap_set_multiple b start cnt False
   }"

locale bit_allocator =
  fixes used :: "'b \<Rightarrow> bool list"
    and inv :: "'b \<Rightarrow> bool"
    and alloc :: "'b \<Rightarrow> size_t \<Rightarrow> (size_t \<times> 'b) option"
    and release :: "'b \<Rightarrow> size_t \<Rightarrow> size_t \<Rightarrow> 'b option"
  assumes alloc_full:
      "inv b \<Longrightarrow> first_run (used b) 0 (unat n) False = None \<Longrightarrow> alloc b n = Some (BITMAP_ERROR, b)"
    and alloc_first:
      "inv b \<Longrightarrow> first_run (used b) 0 (unat n) False = Some i \<Longrightarrow>
        \<exists>idx b'. alloc b n = Some (idx, b') \<and> idx \<noteq> BITMAP_ERROR \<and> unat idx = i \<and> inv b' \<and>
          used b' = fill (used b) i (unat n) True"
    and release_run:
      "inv b \<Longrightarrow> run_at (used b) (unat s) (unat n) True \<Longrightarrow>
        \<exists>b'. release b s n = Some b' \<and> inv b' \<and>
          used b' = fill (used b) (unat s) (unat n) False"
    and release_not_run:
      "inv b \<Longrightarrow> unat s + unat n \<le> length (used b) \<Longrightarrow>
        \<not> run_at (used b) (unat s) (unat n) True \<Longrightarrow> release b s n = None"
begin

lemma alloc_total: "inv b \<Longrightarrow> \<exists>idx b'. alloc b n = Some (idx, b') \<and> inv b'"
  using alloc_full [of b n] alloc_first [of b n]
  by (cases "first_run (used b) 0 (unat n) False") auto

lemma alloc_SomeD:
  assumes "inv b" and "alloc b n = Some (idx, b')" and "idx \<noteq> BITMAP_ERROR"
  shows "run_at (used b) (unat idx) (unat n) False" and "inv b'"
    and "used b' = fill (used b) (unat idx) (unat n) True"
    and "\<And>j. j < unat idx \<Longrightarrow> \<not> run_at (used b) j (unat n) False"
proof -
  obtain i where i: "first_run (used b) 0 (unat n) False = Some i"
    using alloc_full [OF assms(1), of n] assms(2,3)
    by (cases "first_run (used b) 0 (unat n) False") auto
  have "unat idx = i \<and> inv b' \<and> used b' = fill (used b) i (unat n) True"
    using alloc_first [OF assms(1) i] assms(2) by auto
  with i show "run_at (used b) (unat idx) (unat n) False" "inv b'"
    "used b' = fill (used b) (unat idx) (unat n) True"
    "\<And>j. j < unat idx \<Longrightarrow> \<not> run_at (used b) j (unat n) False"
    by (auto simp: first_run_Some)
qed

lemma alloc_fails_iff:
  assumes "inv b"
  shows "alloc b n = Some (BITMAP_ERROR, b) \<longleftrightarrow> (\<forall>i. \<not> run_at (used b) i (unat n) False)"
proof -
  have "first_run (used b) 0 (unat n) False = None \<longleftrightarrow> (\<forall>i. \<not> run_at (used b) i (unat n) False)"
    by (simp add: first_run_None)
  then show ?thesis
    using alloc_full [OF assms, of n] alloc_first [OF assms, of n]
    by (cases "first_run (used b) 0 (unat n) False") auto
qed

lemma length_used_alloc:
  assumes "inv b" and "alloc b n = Some (idx, b')"
  shows "length (used b') = length (used b)"
proof (cases "first_run (used b) 0 (unat n) False")
  case None
  with alloc_full [OF assms(1)] assms(2) show ?thesis by simp
next
  case (Some i)
  then have "i + unat n \<le> length (used b)" by (simp add: first_run_Some run_at_def)
  with alloc_first [OF assms(1) Some] assms(2) show ?thesis by auto
qed

text \<open>The units of two allocations that follow each other are different.\<close>

lemma alloc_alloc_disjoint:
  assumes "inv b" and "alloc b n = Some (i, b')" and "i \<noteq> BITMAP_ERROR"
    and "alloc b' m = Some (j, b'')" and "j \<noteq> BITMAP_ERROR"
  shows "{unat i ..< unat i + unat n} \<inter> {unat j ..< unat j + unat m} = {}"
proof -
  note a = alloc_SomeD [OF assms(1-3)] and c = alloc_SomeD [OF _ assms(4,5)]
  have "used b' ! x = True" if "x \<in> {unat i ..< unat i + unat n}" for x
    using that a(1,3) by (auto simp: run_at_def nth_fill)
  moreover have "used b' ! x = False" if "x \<in> {unat j ..< unat j + unat m}" for x
    using that c(1) [OF a(2)] by (auto simp: run_at_def dest: spec [of _ "x - unat j"])
  ultimately show ?thesis by blast
qed

text \<open>Releasing what was just allocated gives back the flags from before.\<close>

lemma alloc_release:
  assumes "inv b" and "alloc b n = Some (i, b')" and "i \<noteq> BITMAP_ERROR"
  shows "\<exists>b''. release b' i n = Some b'' \<and> inv b'' \<and> used b'' = used b"
proof -
  note a = alloc_SomeD [OF assms]
  have le: "unat i + unat n \<le> length (used b)" using a(1) by (simp add: run_at_def)
  have "run_at (used b') (unat i) (unat n) True"
    using le by (simp add: a(3) run_at_def nth_fill)
  moreover have "fill (used b') (unat i) (unat n) False = used b"
    using le a(1) by (simp add: a(3) fill_fill_same fill_id run_at_def)
  ultimately show ?thesis using release_run [OF a(2)] by metis
qed

end

lemma release_range_eq:
  assumes wf: "bitmap_wf b" and le: "unat s + unat n \<le> unat (bit_cnt b)"
  shows "if run_at (bitmap_bits b) (unat s) (unat n) True
    then \<exists>b'. release_range b s n = Some b' \<and> bitmap_wf b' \<and> bit_cnt b' = bit_cnt b \<and>
           bitmap_bits b' = fill (bitmap_bits b) (unat s) (unat n) False
    else release_range b s n = None"
proof -
  have all: "bitmap_all b s n = Some (run_at (bitmap_bits b) (unat s) (unat n) True)"
    using le by (auto simp: bitmap_all_def bitmap_contains_eq [OF wf le] run_at_def)
  show ?thesis
    using bitmap_set_multiple_bits [OF wf le, of False]
    by (auto simp: release_range_def all)
qed

interpretation bm: bit_allocator bitmap_bits bitmap_wf
  "\<lambda>b n. bitmap_scan_and_flip b 0 n False" release_range
proof
  fix b n i assume "bitmap_wf b"
  note eq = bitmap_scan_and_flip_eq [OF this, of 0 n False]
  show "bitmap_scan_and_flip b 0 n False = Some (BITMAP_ERROR, b)"
    if "first_run (bitmap_bits b) 0 (unat n) False = None"
    using eq that by simp
  show "\<exists>idx b'. bitmap_scan_and_flip b 0 n False = Some (idx, b') \<and> idx \<noteq> BITMAP_ERROR \<and>
      unat idx = i \<and> bitmap_wf b' \<and> bitmap_bits b' = fill (bitmap_bits b) i (unat n) True"
    if "first_run (bitmap_bits b) 0 (unat n) False = Some i"
    using eq that by auto
next
  fix b s n assume wf: "bitmap_wf b"
  show "\<exists>b'. release_range b s n = Some b' \<and> bitmap_wf b' \<and>
      bitmap_bits b' = fill (bitmap_bits b) (unat s) (unat n) False"
    if "run_at (bitmap_bits b) (unat s) (unat n) True"
    using release_range_eq [OF wf, of s n] that by (auto simp: run_at_def)
  show "release_range b s n = None"
    if "unat s + unat n \<le> length (bitmap_bits b)"
      "\<not> run_at (bitmap_bits b) (unat s) (unat n) True"
    using release_range_eq [OF wf, of s n] that by simp
qed

subsection \<open>Properties\<close>



text \<open>The range operations of a well-formed bitmap are those of its list of flags:
  \<^verbatim>\<open>bitmap_set_multiple\<close> sets exactly the bits of the range, \<^verbatim>\<open>bitmap_count\<close> counts and \<^verbatim>\<open>bitmap_contains\<close>
  searches exactly the range, for every range inside the bitmap; setting a range that reaches beyond
  the end fails an assertion, also when the sum of start and length wraps around.\<close>

theorem bitmap_ranges:
  assumes "bitmap_wf b"
  shows "if unat s + unat n \<le> unat (bit_cnt b)
     then (\<exists>b'. bitmap_set_multiple b s n v = Some b' \<and> bitmap_wf b' \<and> bit_cnt b' = bit_cnt b \<and>
             bitmap_bits b' = fill (bitmap_bits b) (unat s) (unat n) v) \<and>
          bitmap_count b s n v =
             Some (of_nat (count_list (take (unat n) (drop (unat s) (bitmap_bits b))) v)) \<and>
          bitmap_contains b s n v = Some (v \<in> set (take (unat n) (drop (unat s) (bitmap_bits b))))
     else bitmap_set_multiple b s n v = None"
proof (cases "unat s + unat n \<le> unat (bit_cnt b)")
  case True
  have "(\<exists>k < unat n. bitmap_bits b ! (unat s + k) = v) \<longleftrightarrow>
      v \<in> set (take (unat n) (drop (unat s) (bitmap_bits b)))"
    using True by (fastforce simp: in_set_conv_nth)
  with True show ?thesis
    using bitmap_set_multiple_bits [OF assms True] bitmap_count_eq [OF assms True]
      bitmap_contains_eq [OF assms True] by simp
qed (simp add: bitmap_set_multiple_panics)

theorem bitmap_ranges_witness:
  "bitmap_count \<lparr>bit_cnt = 8, bits = [0b11001011]\<rparr> 1 6 True = Some 3 \<and>
   bitmap_set_multiple \<lparr>bit_cnt = 8, bits = [0b11001011]\<rparr> 7 0xFFFFFFFF True = None"
proof -
  have "bitmap_bits \<lparr>bit_cnt = 8, bits = [0b11001011]\<rparr> =
      [True, True, False, True, False, False, True, True]" by code_simp
  then show ?thesis
    using bitmap_ranges [of "\<lparr>bit_cnt = 8, bits = [0b11001011]\<rparr>" 1 6 True]
      bitmap_ranges [of "\<lparr>bit_cnt = 8, bits = [0b11001011]\<rparr>" 7 "0xFFFFFFFF" True]
    by (simp add: bitmap_wf_def)
qed

end
