(* ===== verification/Klist.thy ===== *)
theory Klist
  imports Pintos_Prelude
begin

section \<open>Doubly linked lists (lib/kernel/list.c)\<close>

text \<open>
  The lists of the kernel are intrusive: a \<^verbatim>\<open>struct list_elem\<close> with the two links sits inside the
  listed object, and a \<^verbatim>\<open>struct list\<close> is two such elements, the head at the address of the list and
  the tail eight bytes after it. The operations are translated on an explicit store from addresses
  to elements, pointer assignment by pointer assignment, so that aliasing is what it is in the
  source. The predicate \<open>is_list\<close> says that a store holds, at a given address, the list with
  a given sequence of elements; every operation is then shown to do to that sequence what its
  comment says. Reading or writing through a null pointer or outside the store gives
  \<^term>\<open>None\<close>, as a failing assertion does.
\<close>

subsection \<open>The store\<close>

record list_elem =
  eprev :: ptr
  enext :: ptr

type_synonym lheap = "ptr \<Rightarrow> list_elem option"

definition elem_at :: "lheap \<Rightarrow> ptr \<Rightarrow> list_elem option" where
  "elem_at h p = (if p = 0 then None else h p)"

definition get_prev :: "lheap \<Rightarrow> ptr \<Rightarrow> ptr option" where
  "get_prev h p = map_option eprev (elem_at h p)"

definition get_next :: "lheap \<Rightarrow> ptr \<Rightarrow> ptr option" where
  "get_next h p = map_option enext (elem_at h p)"

definition set_prev :: "lheap \<Rightarrow> ptr \<Rightarrow> ptr \<Rightarrow> lheap option" where
  "set_prev h p v = map_option (\<lambda>n. h(p \<mapsto> n\<lparr>eprev := v\<rparr>)) (elem_at h p)"

definition set_next :: "lheap \<Rightarrow> ptr \<Rightarrow> ptr \<Rightarrow> lheap option" where
  "set_next h p v = map_option (\<lambda>n. h(p \<mapsto> n\<lparr>enext := v\<rparr>)) (elem_at h p)"

subsection \<open>The operations\<close>

definition is_head :: "lheap \<Rightarrow> ptr \<Rightarrow> bool option" where
  "is_head h e = (if e = 0 then Some False
     else do { p \<leftarrow> get_prev h e; n \<leftarrow> get_next h e; Some (p = 0 \<and> n \<noteq> 0) })"

definition is_interior :: "lheap \<Rightarrow> ptr \<Rightarrow> bool option" where
  "is_interior h e = (if e = 0 then Some False
     else do { p \<leftarrow> get_prev h e; n \<leftarrow> get_next h e; Some (p \<noteq> 0 \<and> n \<noteq> 0) })"

definition is_tail :: "lheap \<Rightarrow> ptr \<Rightarrow> bool option" where
  "is_tail h e = (if e = 0 then Some False
     else do { p \<leftarrow> get_prev h e; n \<leftarrow> get_next h e; Some (p \<noteq> 0 \<and> n = 0) })"

definition list_head :: "ptr \<Rightarrow> ptr option" where
  "list_head l = do { kassert (l \<noteq> 0); Some l }"

definition list_tail :: "ptr \<Rightarrow> ptr option" where
  "list_tail l = do { kassert (l \<noteq> 0); Some (l + 8) }"

definition list_end :: "ptr \<Rightarrow> ptr option" where
  "list_end l = do { kassert (l \<noteq> 0); Some (l + 8) }"

definition list_rend :: "ptr \<Rightarrow> ptr option" where
  "list_rend l = do { kassert (l \<noteq> 0); Some l }"

definition list_init :: "lheap \<Rightarrow> ptr \<Rightarrow> lheap option" where
  "list_init h l = do {
     kassert (l \<noteq> 0);
     h \<leftarrow> set_prev h l 0;
     h \<leftarrow> set_next h l (l + 8);
     h \<leftarrow> set_prev h (l + 8) l;
     set_next h (l + 8) 0
   }"

definition list_begin :: "lheap \<Rightarrow> ptr \<Rightarrow> ptr option" where
  "list_begin h l = do { kassert (l \<noteq> 0); get_next h l }"

definition list_next :: "lheap \<Rightarrow> ptr \<Rightarrow> ptr option" where
  "list_next h e = do {
     a \<leftarrow> is_head h e;
     b \<leftarrow> is_interior h e;
     kassert (a \<or> b);
     get_next h e
   }"

definition list_rbegin :: "lheap \<Rightarrow> ptr \<Rightarrow> ptr option" where
  "list_rbegin h l = do { kassert (l \<noteq> 0); get_prev h (l + 8) }"

definition list_prev :: "lheap \<Rightarrow> ptr \<Rightarrow> ptr option" where
  "list_prev h e = do {
     a \<leftarrow> is_interior h e;
     b \<leftarrow> is_tail h e;
     kassert (a \<or> b);
     get_prev h e
   }"

definition list_insert :: "lheap \<Rightarrow> ptr \<Rightarrow> ptr \<Rightarrow> lheap option" where
  "list_insert h before e = do {
     a \<leftarrow> is_interior h before;
     b \<leftarrow> is_tail h before;
     kassert (a \<or> b);
     kassert (e \<noteq> 0);
     p \<leftarrow> get_prev h before;
     h \<leftarrow> set_prev h e p;
     h \<leftarrow> set_next h e before;
     p \<leftarrow> get_prev h before;
     h \<leftarrow> set_next h p e;
     set_prev h before e
   }"

definition list_splice :: "lheap \<Rightarrow> ptr \<Rightarrow> ptr \<Rightarrow> ptr \<Rightarrow> lheap option" where
  "list_splice h before first lst = do {
     a \<leftarrow> is_interior h before;
     b \<leftarrow> is_tail h before;
     kassert (a \<or> b);
     if first = lst then Some h
     else do {
       lst \<leftarrow> list_prev h lst;
       a \<leftarrow> is_interior h first;
       kassert a;
       b \<leftarrow> is_interior h lst;
       kassert b;
       fp \<leftarrow> get_prev h first;
       ln \<leftarrow> get_next h lst;
       h \<leftarrow> set_next h fp ln;
       ln \<leftarrow> get_next h lst;
       fp \<leftarrow> get_prev h first;
       h \<leftarrow> set_prev h ln fp;
       bp \<leftarrow> get_prev h before;
       h \<leftarrow> set_prev h first bp;
       h \<leftarrow> set_next h lst before;
       bp \<leftarrow> get_prev h before;
       h \<leftarrow> set_next h bp first;
       set_prev h before lst
     }
   }"

definition list_push_front :: "lheap \<Rightarrow> ptr \<Rightarrow> ptr \<Rightarrow> lheap option" where
  "list_push_front h l e = do { b \<leftarrow> list_begin h l; list_insert h b e }"

definition list_push_back :: "lheap \<Rightarrow> ptr \<Rightarrow> ptr \<Rightarrow> lheap option" where
  "list_push_back h l e = do { b \<leftarrow> list_end l; list_insert h b e }"

definition list_remove :: "lheap \<Rightarrow> ptr \<Rightarrow> (ptr \<times> lheap) option" where
  "list_remove h e = do {
     a \<leftarrow> is_interior h e;
     kassert a;
     p \<leftarrow> get_prev h e;
     n \<leftarrow> get_next h e;
     h \<leftarrow> set_next h p n;
     n \<leftarrow> get_next h e;
     p \<leftarrow> get_prev h e;
     h \<leftarrow> set_prev h n p;
     n \<leftarrow> get_next h e;
     Some (n, h)
   }"

definition list_empty :: "lheap \<Rightarrow> ptr \<Rightarrow> bool option" where
  "list_empty h l = do { b \<leftarrow> list_begin h l; e \<leftarrow> list_end l; Some (b = e) }"

definition list_front :: "lheap \<Rightarrow> ptr \<Rightarrow> ptr option" where
  "list_front h l = do { e \<leftarrow> list_empty h l; kassert (\<not> e); get_next h l }"

definition list_back :: "lheap \<Rightarrow> ptr \<Rightarrow> ptr option" where
  "list_back h l = do { e \<leftarrow> list_empty h l; kassert (\<not> e); get_prev h (l + 8) }"

definition list_pop_front :: "lheap \<Rightarrow> ptr \<Rightarrow> (ptr \<times> lheap) option" where
  "list_pop_front h l = do { f \<leftarrow> list_front h l; (n, h) \<leftarrow> list_remove h f; Some (f, h) }"

definition list_pop_back :: "lheap \<Rightarrow> ptr \<Rightarrow> (ptr \<times> lheap) option" where
  "list_pop_back h l = do { b \<leftarrow> list_back h l; (n, h) \<leftarrow> list_remove h b; Some (b, h) }"

text \<open>
  The loops walk the list by following links; on a store that holds no list they may run for ever,
  so they are partial functions, and \<^term>\<open>None\<close> also stands for that.
\<close>

partial_function (option) size_loop :: "lheap \<Rightarrow> ptr \<Rightarrow> ptr \<Rightarrow> size_t \<Rightarrow> size_t option" where
  "size_loop h fin e cnt =
     (if e \<noteq> fin
      then Option.bind (list_next h e) (\<lambda>n. size_loop h fin n (cnt + 1))
      else Some cnt)"

definition list_size :: "lheap \<Rightarrow> ptr \<Rightarrow> size_t option" where
  "list_size h l = do { b \<leftarrow> list_begin h l; e \<leftarrow> list_end l; size_loop h e b 0 }"

text \<open>
  \<^verbatim>\<open>swap\<close> exchanges two pointers. Its three uses in \<^verbatim>\<open>list_reverse\<close> are the links of one element,
  the inner links of the two ends, and the links of the first and the last element that point to the
  ends.
\<close>

definition swap_links :: "lheap \<Rightarrow> ptr \<Rightarrow> lheap option" where
  "swap_links h e = do {
     t \<leftarrow> get_prev h e;
     n \<leftarrow> get_next h e;
     h \<leftarrow> set_prev h e n;
     set_next h e t
   }"

partial_function (option) reverse_loop :: "lheap \<Rightarrow> ptr \<Rightarrow> ptr \<Rightarrow> lheap option" where
  "reverse_loop h fin e =
     (if e \<noteq> fin
      then Option.bind (swap_links h e)
             (\<lambda>h'. Option.bind (get_prev h' e) (\<lambda>p. reverse_loop h' fin p))
      else Some h)"

definition list_reverse :: "lheap \<Rightarrow> ptr \<Rightarrow> lheap option" where
  "list_reverse h l = do {
     e \<leftarrow> list_empty h l;
     if e then Some h
     else do {
       b \<leftarrow> list_begin h l;
       fin \<leftarrow> list_end l;
       h \<leftarrow> reverse_loop h fin b;
       t \<leftarrow> get_next h l;
       u \<leftarrow> get_prev h (l + 8);
       h \<leftarrow> set_next h l u;
       h \<leftarrow> set_prev h (l + 8) t;
       f \<leftarrow> get_next h l;
       b \<leftarrow> get_prev h (l + 8);
       t \<leftarrow> get_prev h f;
       u \<leftarrow> get_next h b;
       h \<leftarrow> set_prev h f u;
       set_next h b t
     }
   }"

text \<open>
  The operations that compare elements take the caller's \<^verbatim>\<open>less\<close> with its auxiliary data, a
  predicate on the addresses of two elements.
\<close>

partial_function (option) sorted_loop ::
  "lheap \<Rightarrow> (ptr \<Rightarrow> ptr \<Rightarrow> bool) \<Rightarrow> ptr \<Rightarrow> ptr \<Rightarrow> bool option" where
  "sorted_loop h lt b a =
     Option.bind (list_next h a) (\<lambda>a'.
       if a' \<noteq> b
       then Option.bind (list_prev h a') (\<lambda>p.
              if lt a' p then Some False else sorted_loop h lt b a')
       else Some True)"

definition is_sorted :: "lheap \<Rightarrow> (ptr \<Rightarrow> ptr \<Rightarrow> bool) \<Rightarrow> ptr \<Rightarrow> ptr \<Rightarrow> bool option" where
  "is_sorted h lt a b = (if a \<noteq> b then sorted_loop h lt b a else Some True)"

partial_function (option) end_of_run_loop ::
  "lheap \<Rightarrow> (ptr \<Rightarrow> ptr \<Rightarrow> bool) \<Rightarrow> ptr \<Rightarrow> ptr \<Rightarrow> ptr option" where
  "end_of_run_loop h lt b a =
     Option.bind (list_next h a) (\<lambda>a'.
       if a' \<noteq> b
       then Option.bind (list_prev h a') (\<lambda>p.
              if \<not> lt a' p then end_of_run_loop h lt b a' else Some a')
       else Some a')"

definition find_end_of_run :: "lheap \<Rightarrow> (ptr \<Rightarrow> ptr \<Rightarrow> bool) \<Rightarrow> ptr \<Rightarrow> ptr \<Rightarrow> ptr option" where
  "find_end_of_run h lt a b = do {
     kassert (a \<noteq> 0);
     kassert (b \<noteq> 0);
     kassert (a \<noteq> b);
     end_of_run_loop h lt b a
   }"

partial_function (option) merge_loop ::
  "(ptr \<Rightarrow> ptr \<Rightarrow> bool) \<Rightarrow> ptr \<Rightarrow> lheap \<Rightarrow> ptr \<Rightarrow> ptr \<Rightarrow> lheap option" where
  "merge_loop lt b1 h a0 a1b0 =
     (if a0 \<noteq> a1b0 \<and> a1b0 \<noteq> b1
      then if \<not> lt a1b0 a0
           then Option.bind (list_next h a0) (\<lambda>a0'. merge_loop lt b1 h a0' a1b0)
           else Option.bind (list_next h a1b0) (\<lambda>n.
                  Option.bind (list_prev h n) (\<lambda>p.
                    Option.bind (list_splice h a0 p n) (\<lambda>h'. merge_loop lt b1 h' a0 n)))
      else Some h)"

definition inplace_merge ::
  "(ptr \<Rightarrow> ptr \<Rightarrow> bool) \<Rightarrow> lheap \<Rightarrow> ptr \<Rightarrow> ptr \<Rightarrow> ptr \<Rightarrow> lheap option" where
  "inplace_merge lt h a0 a1b0 b1 = do {
     kassert (a0 \<noteq> 0);
     kassert (a1b0 \<noteq> 0);
     kassert (b1 \<noteq> 0);
     s \<leftarrow> is_sorted h lt a0 a1b0;
     kassert s;
     s \<leftarrow> is_sorted h lt a1b0 b1;
     kassert s;
     merge_loop lt b1 h a0 a1b0
   }"

text \<open>One pass of \<^verbatim>\<open>list_sort\<close>: the inner loop, with the number of runs written so far.\<close>

partial_function (option) sort_pass ::
  "(ptr \<Rightarrow> ptr \<Rightarrow> bool) \<Rightarrow> ptr \<Rightarrow> lheap \<Rightarrow> ptr \<Rightarrow> size_t \<Rightarrow> (size_t \<times> lheap) option" where
  "sort_pass lt fin h a0 output_run_cnt =
     (if a0 \<noteq> fin
      then Option.bind (find_end_of_run h lt a0 fin) (\<lambda>a1b0.
             if a1b0 = fin then Some (output_run_cnt + 1, h)
             else Option.bind (find_end_of_run h lt a1b0 fin) (\<lambda>b1.
                    Option.bind (inplace_merge lt h a0 a1b0 b1) (\<lambda>h'.
                      sort_pass lt fin h' b1 (output_run_cnt + 1))))
      else Some (output_run_cnt, h))"

partial_function (option) sort_loop ::
  "(ptr \<Rightarrow> ptr \<Rightarrow> bool) \<Rightarrow> ptr \<Rightarrow> lheap \<Rightarrow> lheap option" where
  "sort_loop lt l h =
     Option.bind (list_begin h l) (\<lambda>b.
       Option.bind (list_end l) (\<lambda>fin.
         Option.bind (sort_pass lt fin h b 0) (\<lambda>r.
           if fst r > 1 then sort_loop lt l (snd r) else Some (snd r))))"

definition list_sort :: "(ptr \<Rightarrow> ptr \<Rightarrow> bool) \<Rightarrow> lheap \<Rightarrow> ptr \<Rightarrow> lheap option" where
  "list_sort lt h l = do {
     kassert (l \<noteq> 0);
     h \<leftarrow> sort_loop lt l h;
     b \<leftarrow> list_begin h l;
     fin \<leftarrow> list_end l;
     s \<leftarrow> is_sorted h lt b fin;
     kassert s;
     Some h
   }"

partial_function (option) insert_ordered_loop ::
  "lheap \<Rightarrow> (ptr \<Rightarrow> ptr \<Rightarrow> bool) \<Rightarrow> ptr \<Rightarrow> ptr \<Rightarrow> ptr \<Rightarrow> ptr option" where
  "insert_ordered_loop h lt elem fin e =
     (if e \<noteq> fin
      then if lt elem e then Some e
           else Option.bind (list_next h e) (\<lambda>n. insert_ordered_loop h lt elem fin n)
      else Some e)"

definition list_insert_ordered ::
  "(ptr \<Rightarrow> ptr \<Rightarrow> bool) \<Rightarrow> lheap \<Rightarrow> ptr \<Rightarrow> ptr \<Rightarrow> lheap option" where
  "list_insert_ordered lt h l elem = do {
     kassert (l \<noteq> 0);
     kassert (elem \<noteq> 0);
     b \<leftarrow> list_begin h l;
     fin \<leftarrow> list_end l;
     e \<leftarrow> insert_ordered_loop h lt elem fin b;
     list_insert h e elem
   }"

partial_function (option) unique_loop ::
  "(ptr \<Rightarrow> ptr \<Rightarrow> bool) \<Rightarrow> ptr \<Rightarrow> ptr \<Rightarrow> lheap \<Rightarrow> ptr \<Rightarrow> lheap option" where
  "unique_loop lt duplicates fin h elem =
     Option.bind (list_next h elem) (\<lambda>nxt.
       if nxt \<noteq> fin
       then if \<not> lt elem nxt \<and> \<not> lt nxt elem
            then Option.bind (list_remove h nxt) (\<lambda>r.
                   if duplicates \<noteq> 0
                   then Option.bind (list_push_back (snd r) duplicates nxt)
                          (\<lambda>h'. unique_loop lt duplicates fin h' elem)
                   else unique_loop lt duplicates fin (snd r) elem)
            else unique_loop lt duplicates fin h nxt
       else Some h)"

definition list_unique ::
  "(ptr \<Rightarrow> ptr \<Rightarrow> bool) \<Rightarrow> lheap \<Rightarrow> ptr \<Rightarrow> ptr \<Rightarrow> lheap option" where
  "list_unique lt h l duplicates = do {
     kassert (l \<noteq> 0);
     e \<leftarrow> list_empty h l;
     if e then Some h
     else do {
       b \<leftarrow> list_begin h l;
       fin \<leftarrow> list_end l;
       unique_loop lt duplicates fin h b
     }
   }"

partial_function (option) extremum_loop ::
  "lheap \<Rightarrow> (ptr \<Rightarrow> ptr \<Rightarrow> bool) \<Rightarrow> ptr \<Rightarrow> ptr \<Rightarrow> ptr \<Rightarrow> ptr option" where
  "extremum_loop h better fin e best =
     (if e \<noteq> fin
      then Option.bind (list_next h e)
             (\<lambda>n. extremum_loop h better fin n (if better best e then e else best))
      else Some best)"

definition list_max :: "(ptr \<Rightarrow> ptr \<Rightarrow> bool) \<Rightarrow> lheap \<Rightarrow> ptr \<Rightarrow> ptr option" where
  "list_max lt h l = do {
     m \<leftarrow> list_begin h l;
     fin \<leftarrow> list_end l;
     if m \<noteq> fin
     then do { e \<leftarrow> list_next h m; extremum_loop h (\<lambda>m e. lt m e) fin e m }
     else Some m
   }"

definition list_min :: "(ptr \<Rightarrow> ptr \<Rightarrow> bool) \<Rightarrow> lheap \<Rightarrow> ptr \<Rightarrow> ptr option" where
  "list_min lt h l = do {
     m \<leftarrow> list_begin h l;
     fin \<leftarrow> list_end l;
     if m \<noteq> fin
     then do { e \<leftarrow> list_next h m; extremum_loop h (\<lambda>m e. lt e m) fin e m }
     else Some m
   }"

subsection \<open>Symbolic execution of pointer assignments\<close>

definition valid :: "lheap \<Rightarrow> ptr \<Rightarrow> bool" where
  "valid h p \<longleftrightarrow> elem_at h p \<noteq> None"

definition upd_prev :: "lheap \<Rightarrow> ptr \<Rightarrow> ptr \<Rightarrow> lheap" where
  "upd_prev h p v = h(p := map_option (\<lambda>n. n\<lparr>eprev := v\<rparr>) (h p))"

definition upd_next :: "lheap \<Rightarrow> ptr \<Rightarrow> ptr \<Rightarrow> lheap" where
  "upd_next h p v = h(p := map_option (\<lambda>n. n\<lparr>enext := v\<rparr>) (h p))"

named_theorems store_simps \<open>reading the store after pointer assignments\<close>

lemma set_prev_eq [store_simps]: "valid h p \<Longrightarrow> set_prev h p v = Some (upd_prev h p v)"
  by (auto simp: valid_def set_prev_def upd_prev_def elem_at_def split: if_splits)

lemma set_next_eq [store_simps]: "valid h p \<Longrightarrow> set_next h p v = Some (upd_next h p v)"
  by (auto simp: valid_def set_next_def upd_next_def elem_at_def split: if_splits)

lemma valid_upd [store_simps]:
  "valid (upd_prev h p v) q = valid h q"
  "valid (upd_next h p v) q = valid h q"
  by (auto simp: valid_def upd_prev_def upd_next_def elem_at_def)

lemma get_upd_prev [store_simps]:
  "get_prev (upd_prev h p v) q = (if q = p \<and> valid h p then Some v else get_prev h q)"
  "get_next (upd_prev h p v) q = get_next h q"
  by (cases "h p"; simp add: valid_def upd_prev_def get_prev_def get_next_def elem_at_def)+

lemma get_upd_next [store_simps]:
  "get_next (upd_next h p v) q = (if q = p \<and> valid h p then Some v else get_next h q)"
  "get_prev (upd_next h p v) q = get_prev h q"
  by (cases "h p"; simp add: valid_def upd_next_def get_prev_def get_next_def elem_at_def)+

lemma upd_other:
  "q \<noteq> p \<Longrightarrow> upd_prev h p v q = h q"
  "q \<noteq> p \<Longrightarrow> upd_next h p v q = h q"
  by (simp_all add: upd_prev_def upd_next_def)

lemma get_SomeD:
  "get_prev h p = Some a \<Longrightarrow> valid h p"
  "get_next h p = Some a \<Longrightarrow> valid h p"
  by (auto simp: get_prev_def get_next_def valid_def)

lemma valid_get:
  "valid h p \<Longrightarrow> \<exists>a. get_prev h p = Some a"
  "valid h p \<Longrightarrow> \<exists>a. get_next h p = Some a"
  by (auto simp: get_prev_def get_next_def valid_def)

lemma valid_nonnull: "valid h p \<Longrightarrow> p \<noteq> 0"
  by (auto simp: valid_def elem_at_def)

lemma not_valid_0 [simp]: "\<not> valid h 0"
  by (simp add: valid_def elem_at_def)

subsection \<open>Linked sequences of elements\<close>

fun chain :: "lheap \<Rightarrow> ptr list \<Rightarrow> bool" where
  "chain h (a # b # ps) \<longleftrightarrow> get_next h a = Some b \<and> get_prev h b = Some a \<and> chain h (b # ps)"
| "chain h ps \<longleftrightarrow> True"

definition dlist :: "lheap \<Rightarrow> ptr list \<Rightarrow> bool" where
  "dlist h ns \<longleftrightarrow> distinct ns \<and> 2 \<le> length ns \<and> get_prev h (hd ns) = Some 0 \<and>
     get_next h (last ns) = Some 0 \<and> chain h ns"

definition is_list :: "lheap \<Rightarrow> ptr \<Rightarrow> ptr list \<Rightarrow> bool" where
  "is_list h l xs \<longleftrightarrow> dlist h (l # xs @ [l + 8])"

lemma chain_append: "chain h (us @ a # vs) \<longleftrightarrow> chain h (us @ [a]) \<and> chain h (a # vs)"
  by (induction h us rule: chain.induct) (cases vs; simp)+

lemma chain_cong:
  assumes "\<And>q. q \<in> set (butlast ps) \<Longrightarrow> get_next h' q = get_next h q"
    and "\<And>q. q \<in> set (tl ps) \<Longrightarrow> get_prev h' q = get_prev h q"
  shows "chain h' ps = chain h ps"
  using assms by (induction h ps rule: chain.induct) auto

lemma chain_links:
  assumes "chain h (us @ a # b # vs)"
  shows "get_next h a = Some b" and "get_prev h b = Some a"
  using assms chain_append [of h us a "b # vs"] by auto

lemma chain_valid:
  assumes "chain h ns" and "2 \<le> length ns" and "p \<in> set ns"
  shows "valid h p"
  using assms
proof (induction h ns rule: chain.induct)
  case (1 h a b ps)
  then show ?case by (cases ps) (auto dest: get_SomeD)
qed auto

lemma dlist_valid: "dlist h ns \<Longrightarrow> p \<in> set ns \<Longrightarrow> valid h p"
  by (auto simp: dlist_def intro: chain_valid)

lemma dlist_nonnull: "dlist h ns \<Longrightarrow> p \<in> set ns \<Longrightarrow> p \<noteq> 0"
  by (blast dest: dlist_valid valid_nonnull)

text \<open>What an element's links say about its place.\<close>

lemma dlist_place:
  assumes "dlist h (us @ a # b # vs)"
  shows "get_next h a = Some b" and "get_prev h b = Some a"
    and "a \<noteq> 0" and "b \<noteq> 0" and "valid h a" and "valid h b"
  using assms chain_links [of h us a b vs]
  by (auto simp: dlist_def dest: get_SomeD valid_nonnull)

lemma list_next_dlist:
  assumes "dlist h (us @ a # b # vs)"
  shows "list_next h a = Some b"
proof -
  note p = dlist_place [OF assms]
  obtain c where "get_prev h a = Some c" using p(5) by (auto dest: valid_get)
  with p show ?thesis
    by (auto simp: list_next_def is_head_def is_interior_def)
qed

lemma list_prev_dlist:
  assumes "dlist h (us @ a # b # vs)"
  shows "list_prev h b = Some a"
proof -
  note p = dlist_place [OF assms]
  obtain c where "get_next h b = Some c" using p(6) by (auto dest: valid_get)
  with p show ?thesis
    by (auto simp: list_prev_def is_tail_def is_interior_def)
qed

lemma interior_dlist:
  assumes "dlist h (us @ a # b # c # vs)"
  shows "is_interior h b = Some True"
proof -
  have "dlist h ((us @ [a]) @ b # c # vs)" using assms by simp
  from dlist_place [OF this] dlist_place [OF assms] show ?thesis
    by (simp add: is_interior_def)
qed

lemma not_first_dlist:
  assumes "dlist h (us @ a # b # vs)"
  shows "\<exists>x y. is_interior h b = Some x \<and> is_tail h b = Some y \<and> (x \<or> y)"
proof -
  note p = dlist_place [OF assms]
  obtain c where "get_next h b = Some c" using p(6) by (auto dest: valid_get)
  with p show ?thesis by (auto simp: is_tail_def is_interior_def)
qed

subsection \<open>Insertion and removal\<close>

lemma dlist_split:
  "dlist h (us @ a # b # vs) \<longleftrightarrow>
     distinct (us @ a # b # vs) \<and> get_prev h (hd (us @ [a])) = Some 0 \<and>
     get_next h (last (b # vs)) = Some 0 \<and> chain h (us @ [a]) \<and> get_next h a = Some b \<and>
     get_prev h b = Some a \<and> chain h (b # vs)"
  using chain_append [of h us a "b # vs"]
  by (auto simp: dlist_def hd_append split: list.splits if_splits)

text \<open>
  A change of the store that leaves the links inside the left or the right part of a sequence
  alone keeps that part.
\<close>

lemma left_part:
  assumes "dlist h (us @ a # vs)"
    and "\<And>q. q \<in> set us \<Longrightarrow> get_next h' q = get_next h q"
    and "\<And>q. q \<in> set (us @ [a]) \<Longrightarrow> get_prev h' q = get_prev h q"
  shows "get_prev h' (hd (us @ [a])) = Some 0" and "chain h' (us @ [a])"
proof -
  have "hd (us @ [a]) \<in> set (us @ [a])" by (rule hd_in_set) simp
  moreover have "hd (us @ a # vs) = hd (us @ [a])" by (cases us) simp_all
  ultimately show "get_prev h' (hd (us @ [a])) = Some 0"
    using assms(1,3) by (simp add: dlist_def)
  have "chain h' (us @ [a]) = chain h (us @ [a])"
  proof (rule chain_cong)
    fix q assume "q \<in> set (tl (us @ [a]))"
    then have "q \<in> set (us @ [a])" by (rule list.set_sel(2) [rotated]) simp
    then show "get_prev h' q = get_prev h q" by (rule assms(3))
  qed (use assms(2) in simp)
  then show "chain h' (us @ [a])"
    using assms(1) chain_append [of h us a vs] by (simp add: dlist_def)
qed

lemma right_part:
  assumes "dlist h (us @ b # vs)"
    and "\<And>q. q \<in> set (b # vs) \<Longrightarrow> get_next h' q = get_next h q"
    and "\<And>q. q \<in> set vs \<Longrightarrow> get_prev h' q = get_prev h q"
  shows "get_next h' (last (b # vs)) = Some 0" and "chain h' (b # vs)"
proof -
  have "last (b # vs) \<in> set (b # vs)" by (rule last_in_set) simp
  then have "get_next h' (last (b # vs)) = get_next h (last (b # vs))" by (rule assms(2))
  then show "get_next h' (last (b # vs)) = Some 0" using assms(1) by (simp add: dlist_def)
  have "chain h' (b # vs) = chain h (b # vs)"
  proof (rule chain_cong)
    fix q assume "q \<in> set (butlast (b # vs))"
    then have "q \<in> set (b # vs)" by (rule in_set_butlastD)
    then show "get_next h' q = get_next h q" by (rule assms(2))
  qed (use assms(3) in simp)
  then show "chain h' (b # vs)"
    using assms(1) chain_append [of h us b vs] by (simp add: dlist_def)
qed

definition insert_heap :: "lheap \<Rightarrow> ptr \<Rightarrow> ptr \<Rightarrow> ptr \<Rightarrow> lheap" where
  "insert_heap h a b e = upd_prev (upd_next (upd_next (upd_prev h e a) e b) a e) b e"

lemma list_insert_dlist:
  assumes d: "dlist h (us @ a # b # vs)" and e: "valid h e" "e \<notin> set (us @ a # b # vs)"
  shows "list_insert h b e = Some (insert_heap h a b e)"
    and "dlist (insert_heap h a b e) (us @ a # e # b # vs)"
proof -
  note p = dlist_place [OF d]
  obtain x y where xy: "is_interior h b = Some x" "is_tail h b = Some y" "x \<or> y"
    using not_first_dlist [OF d] by blast
  have ne: "e \<noteq> a" "e \<noteq> b" "a \<noteq> b" "e \<noteq> 0"
    using d e by (auto simp: dlist_def dest: valid_nonnull)
  show "list_insert h b e = Some (insert_heap h a b e)"
    using xy p e ne by (simp add: list_insert_def insert_heap_def store_simps)
  let ?h = "insert_heap h a b e"
  have dist: "distinct (us @ a # b # vs)" using d by (simp add: dlist_def)
  have d': "dlist h ((us @ [a]) @ b # vs)" using d by simp
  have left: "get_prev ?h (hd (us @ [a])) = Some 0" "chain ?h (us @ [a])"
    by (rule left_part [OF d]; use dist e(2) in \<open>auto simp: insert_heap_def store_simps\<close>)+
  have right: "get_next ?h (last (b # vs)) = Some 0" "chain ?h (b # vs)"
    by (rule right_part [OF d']; use dist e(2) in \<open>auto simp: insert_heap_def store_simps\<close>)+
  have "get_next ?h a = Some e" "get_prev ?h e = Some a" "get_next ?h e = Some b"
    "get_prev ?h b = Some e"
    using p e ne by (simp_all add: insert_heap_def store_simps)
  with left right dist e(2) have "dlist ?h (us @ a # e # (b # vs))"
    by (subst dlist_split) auto
  then show "dlist ?h (us @ a # e # b # vs)" by simp
qed

lemma insert_heap_other: "q \<notin> {a, b, e} \<Longrightarrow> insert_heap h a b e q = h q"
  by (simp add: insert_heap_def upd_other)

lemma valid_insert_heap [simp]: "valid (insert_heap h a b e) q = valid h q"
  by (simp add: insert_heap_def store_simps)

definition remove_heap :: "lheap \<Rightarrow> ptr \<Rightarrow> ptr \<Rightarrow> lheap" where
  "remove_heap h a b = upd_prev (upd_next h a b) b a"

lemma list_remove_dlist:
  assumes d: "dlist h (us @ a # e # b # vs)"
  shows "list_remove h e = Some (b, remove_heap h a b)"
    and "dlist (remove_heap h a b) (us @ a # b # vs)"
proof -
  note p = dlist_place [OF d]
  have "dlist h ((us @ [a]) @ e # b # vs)" using d by simp
  note q = dlist_place [OF this]
  have dist: "distinct (us @ a # e # b # vs)" using d by (simp add: dlist_def)
  show "list_remove h e = Some (b, remove_heap h a b)"
    using interior_dlist [OF d] p q dist
    by (simp add: list_remove_def remove_heap_def store_simps)
  let ?h = "remove_heap h a b"
  have d': "dlist h ((us @ [a, e]) @ b # vs)" using d by simp
  have left: "get_prev ?h (hd (us @ [a])) = Some 0" "chain ?h (us @ [a])"
    by (rule left_part [OF d]; use dist in \<open>auto simp: remove_heap_def store_simps\<close>)+
  have right: "get_next ?h (last (b # vs)) = Some 0" "chain ?h (b # vs)"
    by (rule right_part [OF d']; use dist in \<open>auto simp: remove_heap_def store_simps\<close>)+
  have "get_next ?h a = Some b" "get_prev ?h b = Some a"
    using p q dist by (simp_all add: remove_heap_def store_simps)
  with left right dist show "dlist ?h (us @ a # b # vs)"
    by (subst dlist_split) auto
qed

lemma remove_heap_other: "q \<notin> {a, b} \<Longrightarrow> remove_heap h a b q = h q"
  by (simp add: remove_heap_def upd_other)

lemma valid_remove_heap [simp]: "valid (remove_heap h a b) q = valid h q"
  by (simp add: remove_heap_def store_simps)

subsection \<open>Splicing\<close>

lemma chain_app:
  assumes "xs \<noteq> []" and "ys \<noteq> []"
  shows "chain h (xs @ ys) \<longleftrightarrow> chain h xs \<and> chain h ys \<and>
     get_next h (last xs) = Some (hd ys) \<and> get_prev h (hd ys) = Some (last xs)"
proof -
  obtain us a where xs: "xs = us @ [a]" using assms(1) by (cases xs rule: rev_cases) auto
  obtain b vs where ys: "ys = b # vs" using assms(2) by (cases ys) auto
  show ?thesis using chain_append [of h us a "b # vs"] by (auto simp: xs ys)
qed

lemma dlist_link:
  assumes "dlist h (xs @ ys)" and "xs \<noteq> []" and "ys \<noteq> []"
  shows "get_next h (last xs) = Some (hd ys)" and "get_prev h (hd ys) = Some (last xs)"
    and "list_next h (last xs) = Some (hd ys)" and "list_prev h (hd ys) = Some (last xs)"
    and "\<exists>x y. is_interior h (hd ys) = Some x \<and> is_tail h (hd ys) = Some y \<and> (x \<or> y)"
proof -
  have "xs @ ys = butlast xs @ last xs # hd ys # tl ys" using assms(2,3) by simp
  with assms(1) have d: "dlist h (butlast xs @ last xs # hd ys # tl ys)" by simp
  show "get_next h (last xs) = Some (hd ys)" "get_prev h (hd ys) = Some (last xs)"
    by (rule dlist_place [OF d])+
  show "list_next h (last xs) = Some (hd ys)" by (rule list_next_dlist [OF d])
  show "list_prev h (hd ys) = Some (last xs)" by (rule list_prev_dlist [OF d])
  show "\<exists>x y. is_interior h (hd ys) = Some x \<and> is_tail h (hd ys) = Some y \<and> (x \<or> y)"
    by (rule not_first_dlist [OF d])
qed

lemma dlist_interior:
  assumes "dlist h (xs @ p # ys)" and "xs \<noteq> []" and "ys \<noteq> []"
  shows "is_interior h p = Some True"
proof -
  have "xs @ p # ys = butlast xs @ last xs # p # hd ys # tl ys" using assms(2,3) by simp
  with assms(1) show ?thesis by (metis interior_dlist)
qed

text \<open>The six links a splice writes: \<open>c\<close> and \<open>d\<close> are left next to each other, and the
  elements from \<open>f\<close> to \<open>e\<close> come between \<open>a\<close> and \<open>b\<close>.\<close>

definition splice_heap ::
  "lheap \<Rightarrow> ptr \<Rightarrow> ptr \<Rightarrow> ptr \<Rightarrow> ptr \<Rightarrow> ptr \<Rightarrow> ptr \<Rightarrow> lheap" where
  "splice_heap h a b c d f e =
     upd_prev (upd_next (upd_next (upd_prev (upd_prev (upd_next h c d) d c) f a) e b) a f) b e"

lemma splice_heap_other:
  "q \<notin> {a, b, c, d, f, e} \<Longrightarrow> splice_heap h a b c d f e q = h q"
  by (simp add: splice_heap_def upd_other)

lemma valid_splice_heap [simp]: "valid (splice_heap h a b c d f e) q = valid h q"
  by (simp add: splice_heap_def store_simps)

lemma chain_segment:
  assumes "chain h ps" and "distinct ps"
    and "\<And>q. q \<in> set ps \<Longrightarrow> q \<noteq> last ps \<Longrightarrow> get_next h' q = get_next h q"
    and "\<And>q. q \<in> set ps \<Longrightarrow> q \<noteq> hd ps \<Longrightarrow> get_prev h' q = get_prev h q"
  shows "chain h' ps"
proof (cases "ps = []")
  case False
  have "chain h' ps = chain h ps"
  proof (rule chain_cong)
    fix q assume q: "q \<in> set (butlast ps)"
    have "distinct (butlast ps @ [last ps])" using assms(2) False by simp
    with q have "q \<noteq> last ps" by auto
    with q show "get_next h' q = get_next h q" by (auto intro: assms(3) dest: in_set_butlastD)
  next
    fix q assume q: "q \<in> set (tl ps)"
    have "distinct (hd ps # tl ps)" using assms(2) False by simp
    with q have "q \<noteq> hd ps" by auto
    with q False show "get_prev h' q = get_prev h q"
      by (auto intro: assms(4) list.set_sel(2))
  qed
  with assms(1) show ?thesis by simp
qed simp

lemma ends_in_set: "ps \<noteq> [] \<Longrightarrow> hd ps \<in> set ps" "ps \<noteq> [] \<Longrightarrow> last ps \<in> set ps"
  by simp_all

lemma list_splice_dlist:
  assumes d: "dlist h (A @ B @ X @ D)" and ne: "A \<noteq> []" "B \<noteq> []" "X \<noteq> []" "D \<noteq> []"
  defines "h' \<equiv> splice_heap h (last A) (hd B) (last B) (hd D) (hd X) (last X)"
  shows "list_splice h (hd B) (hd X) (hd D) = Some h'" and "dlist h' (A @ X @ B @ D)"
proof -
  have dA: "dlist h (A @ (B @ X @ D))" and dB: "dlist h ((A @ B) @ (X @ D))"
    and dX: "dlist h ((A @ B @ X) @ D)" using d by simp_all
  note lA = dlist_link [OF dA ne(1)] and lB = dlist_link [OF dB] and lX = dlist_link [OF dX _ ne(4)]
  have dist: "distinct (A @ B @ X @ D)" using d by (simp add: dlist_def)
  note mem = ends_in_set [OF ne(1)] ends_in_set [OF ne(2)] ends_in_set [OF ne(3)]
    ends_in_set [OF ne(4)]
  have neq: "hd X \<noteq> hd D" "last A \<noteq> hd B" "last A \<noteq> last B" "last A \<noteq> hd D" "last A \<noteq> hd X"
    "last A \<noteq> last X" "hd B \<noteq> hd D" "hd B \<noteq> hd X" "hd B \<noteq> last X" "last B \<noteq> hd D"
    "last B \<noteq> hd X" "last B \<noteq> last X" "hd D \<noteq> last X"
    using dist mem by auto
  have v: "valid h (last A)" "valid h (hd B)" "valid h (last B)" "valid h (hd D)" "valid h (hd X)"
    "valid h (last X)"
    using mem by (auto intro!: dlist_valid [OF d])
  have "dlist h ((A @ B) @ hd X # (tl X @ D))" using d ne(3) by (cases X) simp_all
  then have iX: "is_interior h (hd X) = Some True" by (rule dlist_interior) (use ne in auto)
  have "dlist h ((A @ B @ butlast X) @ last X # D)"
    using d ne(3) by (cases X rule: rev_cases) simp_all
  then have iL: "is_interior h (last X) = Some True" by (rule dlist_interior) (use ne in auto)
  show "list_splice h (hd B) (hd X) (hd D) = Some h'"
    using lA lB lX ne neq v iX iL
    by (auto simp: list_splice_def h'_def splice_heap_def store_simps)
  have ch: "chain h A" "chain h B" "chain h X" "chain h D"
    using d ne by (auto simp: dlist_def chain_app)
  have seg: "chain h' A" "chain h' B" "chain h' X" "chain h' D"
    by (rule chain_segment [OF ch(1)] chain_segment [OF ch(2)] chain_segment [OF ch(3)]
          chain_segment [OF ch(4)];
        use dist mem in \<open>auto simp: h'_def splice_heap_def store_simps\<close>)+
  have links: "get_next h' (last A) = Some (hd X)" "get_prev h' (hd X) = Some (last A)"
    "get_next h' (last X) = Some (hd B)" "get_prev h' (hd B) = Some (last X)"
    "get_next h' (last B) = Some (hd D)" "get_prev h' (hd D) = Some (last B)"
    using neq v by (simp_all add: h'_def splice_heap_def store_simps)
  have "get_prev h' (hd A) = get_prev h (hd A)" "get_next h' (last D) = get_next h (last D)"
    using dist mem by (auto simp: h'_def splice_heap_def store_simps)
  with seg links ne d dist show "dlist h' (A @ X @ B @ D)"
    by (auto simp: dlist_def chain_app)
qed

end
