(* ===== verification/Klist_Seq.thy ===== *)
theory Klist_Seq
  imports Klist
begin

section \<open>The list operations on sequences of elements\<close>

text \<open>
  The operations of lib/kernel/list.c, which \<open>Klist\<close> translates on a store of links, seen on the
  sequence of elements that a list stands for. Each lemma says that the operation does not fail on a
  well-formed list, what it does to the sequence, and which addresses it leaves alone, so that lists
  that share no element do not disturb each other.
\<close>

subsection \<open>The operations on the sequence a list stands for\<close>

definition nodes :: "ptr \<Rightarrow> ptr list \<Rightarrow> ptr set" where
  "nodes l xs = set (l # xs @ [l + 8])"

text \<open>The store changes at most at the given addresses.\<close>

definition same_outside :: "ptr set \<Rightarrow> lheap \<Rightarrow> lheap \<Rightarrow> bool" where
  "same_outside S h h' \<longleftrightarrow> (\<forall>q. q \<notin> S \<longrightarrow> h' q = h q) \<and> (\<forall>q. valid h' q = valid h q)"

lemma same_outside_refl [simp]: "same_outside S h h"
  by (simp add: same_outside_def)

lemma same_outside_trans:
  "same_outside S h h1 \<Longrightarrow> same_outside T h1 h2 \<Longrightarrow> S \<union> T \<subseteq> U \<Longrightarrow> same_outside U h h2"
  unfolding same_outside_def by (metis UnCI subsetD)

lemma same_outside_valid: "same_outside S h h' \<Longrightarrow> valid h' q = valid h q"
  by (simp add: same_outside_def)

lemma same_outside_get:
  "same_outside S h h' \<Longrightarrow> q \<notin> S \<Longrightarrow> get_next h' q = get_next h q \<and> get_prev h' q = get_prev h q"
  by (simp add: same_outside_def get_next_def get_prev_def elem_at_def)

text \<open>A list of which no element is touched is still there: the frame rule.\<close>

lemma is_list_frame:
  assumes "is_list h l xs" and "same_outside S h h'" and "S \<inter> nodes l xs = {}"
  shows "is_list h' l xs"
proof -
  let ?ns = "l # xs @ [l + 8]"
  have eq: "get_next h' q = get_next h q \<and> get_prev h' q = get_prev h q" if "q \<in> set ?ns" for q
    using same_outside_get [OF assms(2), of q] assms(3) that by (auto simp: nodes_def)
  have "chain h' ?ns = chain h ?ns"
    by (rule chain_cong) (use eq in \<open>auto simp: butlast_append split: if_splits\<close>)
  then show ?thesis using assms(1) eq by (auto simp: is_list_def dlist_def)
qed

lemma is_list_distinct: "is_list h l xs \<Longrightarrow> distinct (l # xs @ [l + 8])"
  by (simp add: is_list_def dlist_def)

lemma is_list_valid: "is_list h l xs \<Longrightarrow> p \<in> nodes l xs \<Longrightarrow> valid h p"
  unfolding is_list_def nodes_def by (rule dlist_valid)

lemma is_list_nonnull: "is_list h l xs \<Longrightarrow> l \<noteq> 0"
  using is_list_valid [of h l xs l] by (auto simp: nodes_def)

text \<open>The place between two parts of a list: the element before it and the one after it.\<close>

lemma is_list_place:
  assumes "is_list h l (xs @ ys)"
  obtains us a b vs where "l # xs = us @ [a]" and "ys @ [l + 8] = b # vs"
    and "dlist h (us @ a # b # vs)" and "last (l # xs) = a" and "hd (ys @ [l + 8]) = b"
    and "nodes l (xs @ ys) = set (us @ a # b # vs)"
proof -
  obtain us a where l: "l # xs = us @ [a]" by (metis append_butlast_last_id list.distinct(1))
  obtain b vs where r: "ys @ [l + 8] = b # vs" by (cases ys) auto
  have all: "l # (xs @ ys) @ [l + 8] = us @ a # b # vs"
    using arg_cong2 [OF l r, of "(@)"] by simp
  show thesis
  proof (rule that [OF l r])
    show "dlist h (us @ a # b # vs)" using assms all by (simp add: is_list_def)
    show "last (l # xs) = a" by (simp only: l last_snoc)
    show "hd (ys @ [l + 8]) = b" by (simp only: r list.sel)
    show "nodes l (xs @ ys) = set (us @ a # b # vs)" by (simp only: nodes_def all)
  qed
qed

lemma is_listI:
  assumes "l # xs = us @ [a]" and "ys @ [l + 8] = b # vs" and "dlist h (us @ a # es @ b # vs)"
  shows "is_list h l (xs @ es @ ys)"
proof -
  have "l # (xs @ es @ ys) @ [l + 8] = (l # xs) @ es @ (ys @ [l + 8])" by simp
  then show ?thesis using assms(3) by (simp only: is_list_def assms(1,2)) simp
qed

lemma list_init_ok:
  assumes "valid h l" and "valid h (l + 8)"
  shows "\<exists>h'. list_init h l = Some h' \<and> is_list h' l [] \<and> same_outside (nodes l []) h h'"
proof -
  have "l \<noteq> 0" "l + 8 \<noteq> l" using assms by (auto dest: valid_nonnull)
  with assms show ?thesis
    by (auto simp: list_init_def store_simps is_list_def dlist_def same_outside_def nodes_def upd_other)
qed

lemma list_end_ok: "is_list h l xs \<Longrightarrow> list_end l = Some (l + 8)"
  using is_list_nonnull by (auto simp: list_end_def)

lemma list_begin_ok: "is_list h l xs \<Longrightarrow> list_begin h l = Some (hd (xs @ [l + 8]))"
  using is_list_nonnull [of h l xs]
  by (cases xs) (auto simp: list_begin_def is_list_def dlist_def)

lemma list_rbegin_ok:
  assumes "is_list h l xs"
  shows "list_rbegin h l = Some (last (l # xs))"
proof -
  from assms have l: "is_list h l (xs @ [])" by simp
  show ?thesis
  proof (rule is_list_place [OF l])
    fix us a b vs
    assume "dlist h (us @ a # b # vs)" "last (l # xs) = a" "hd ([] @ [l + 8]) = b"
    then show ?thesis
      using dlist_place(2) [of h us a b vs] is_list_nonnull [OF assms]
      by (simp add: list_rbegin_def del: last.simps)
  qed
qed

lemma list_empty_ok: "is_list h l xs \<Longrightarrow> list_empty h l = Some (xs = [])"
  using is_list_distinct [of h l xs]
  by (cases xs) (auto simp: list_empty_def list_begin_ok list_end_ok)

lemma list_next_ok:
  assumes "is_list h l (xs @ y # ys)"
  shows "list_next h y = Some (hd (ys @ [l + 8]))"
proof -
  from assms have l: "is_list h l ((xs @ [y]) @ ys)" by simp
  show ?thesis
    by (rule is_list_place [OF l]) (auto dest: list_next_dlist)
qed

lemma list_prev_ok:
  assumes "is_list h l (xs @ y # ys)"
  shows "list_prev h y = Some (last (l # xs))"
  by (rule is_list_place [OF assms]) (auto dest: list_prev_dlist simp del: last.simps)

lemma list_insert_ok:
  assumes l: "is_list h l (xs @ ys)" and e: "valid h e" "e \<notin> nodes l (xs @ ys)"
  shows "\<exists>h'. list_insert h (hd (ys @ [l + 8])) e = Some h' \<and> is_list h' l (xs @ e # ys) \<and>
     same_outside (insert e (nodes l (xs @ ys))) h h'"
proof (rule is_list_place [OF l])
  fix us a b vs
  assume p: "l # xs = us @ [a]" "ys @ [l + 8] = b # vs" and d: "dlist h (us @ a # b # vs)"
    and b: "hd (ys @ [l + 8]) = b" and ns: "nodes l (xs @ ys) = set (us @ a # b # vs)"
  note ins = list_insert_dlist [OF d e(1) e(2) [unfolded ns]]
  have "is_list (insert_heap h a b e) l (xs @ [e] @ ys)"
    by (rule is_listI [OF p]) (use ins(2) in simp)
  moreover have "same_outside (insert e (nodes l (xs @ ys))) h (insert_heap h a b e)"
    unfolding same_outside_def ns by (auto intro!: insert_heap_other)
  ultimately show ?thesis using ins(1) b by simp
qed

lemma list_remove_ok:
  assumes l: "is_list h l (xs @ e # ys)"
  shows "\<exists>h'. list_remove h e = Some (hd (ys @ [l + 8]), h') \<and> is_list h' l (xs @ ys) \<and>
     same_outside (nodes l (xs @ ys)) h h'"
proof -
  from l have l': "is_list h l ((xs @ [e]) @ ys)" by simp
  show ?thesis
  proof (rule is_list_place [OF l'])
    fix us' a' b vs
    assume p': "l # xs @ [e] = us' @ [a']" "ys @ [l + 8] = b # vs" and d': "dlist h (us' @ a' # b # vs)"
      and b: "hd (ys @ [l + 8]) = b"
    obtain us a where p: "l # xs = us @ [a]" by (metis append_butlast_last_id list.distinct(1))
    have "us @ [a] @ [e] = us' @ [a']" using p' p by (metis append_Cons append_assoc)
    then have d: "dlist h (us @ a # e # b # vs)" using d' by auto
    note rem = list_remove_dlist [OF d]
    have "nodes l (xs @ ys) = set (us @ [a]) \<union> set (b # vs)"
      by (simp only: p [symmetric] p'(2) [symmetric] nodes_def) auto
    then have "same_outside (nodes l (xs @ ys)) h (remove_heap h a b)"
      by (auto simp: same_outside_def intro!: remove_heap_other)
    moreover have "is_list (remove_heap h a b) l (xs @ [] @ ys)"
      by (rule is_listI [OF p p'(2)]) (use rem(2) in simp)
    ultimately show ?thesis using rem(1) b by simp
  qed
qed

lemma list_push_back_ok:
  assumes "is_list h l xs" and "valid h e" and "e \<notin> nodes l xs"
  shows "\<exists>h'. list_push_back h l e = Some h' \<and> is_list h' l (xs @ [e]) \<and>
     same_outside (insert e (nodes l xs)) h h'"
  using list_insert_ok [of h l xs "[]" e] assms list_end_ok [OF assms(1)]
  by (simp add: list_push_back_def)

lemma list_push_front_ok:
  assumes "is_list h l xs" and "valid h e" and "e \<notin> nodes l xs"
  shows "\<exists>h'. list_push_front h l e = Some h' \<and> is_list h' l (e # xs) \<and>
     same_outside (insert e (nodes l xs)) h h'"
  using list_insert_ok [of h l "[]" xs e] assms list_begin_ok [OF assms(1)]
  by (simp add: list_push_front_def)

lemma list_front_ok: "is_list h l (x # xs) \<Longrightarrow> list_front h l = Some x"
  using list_begin_ok [of h l "x # xs"]
  by (auto simp: list_front_def list_empty_ok list_begin_def)

lemma list_back_ok: "is_list h l (xs @ [x]) \<Longrightarrow> list_back h l = Some x"
  using list_rbegin_ok [of h l "xs @ [x]"]
  by (auto simp: list_back_def list_empty_ok list_rbegin_def)

lemma list_pop_front_ok:
  assumes "is_list h l (x # xs)"
  shows "\<exists>h'. list_pop_front h l = Some (x, h') \<and> is_list h' l xs \<and> same_outside (nodes l xs) h h'"
  using list_remove_ok [of h l "[]" x xs] list_front_ok [OF assms] assms
  by (auto simp: list_pop_front_def)

lemma list_pop_back_ok:
  assumes "is_list h l (xs @ [x])"
  shows "\<exists>h'. list_pop_back h l = Some (x, h') \<and> is_list h' l xs \<and> same_outside (nodes l xs) h h'"
  using list_remove_ok [of h l xs x "[]"] list_back_ok [OF assms] assms
  by (auto simp: list_pop_back_def)

lemma list_pop_empty: "is_list h l [] \<Longrightarrow> list_pop_front h l = None \<and> list_pop_back h l = None"
  by (simp add: list_pop_front_def list_pop_back_def list_front_def list_back_def list_empty_ok)

end
