(* ===== verification/Klist_Alg.thy ===== *)
theory Klist_Alg
  imports Klist_Seq "HOL-Library.Multiset"
begin

section \<open>Searching, reversing and sorting lists\<close>

text \<open>
  The operations of lib/kernel/list.c that walk a whole list: \<^verbatim>\<open>list_size\<close>, \<^verbatim>\<open>list_max\<close>, \<^verbatim>\<open>list_min\<close>,
  \<^verbatim>\<open>list_insert_ordered\<close>, \<^verbatim>\<open>list_unique\<close>, \<^verbatim>\<open>list_reverse\<close>, \<^verbatim>\<open>list_splice\<close> and the natural merge sort
  \<^verbatim>\<open>list_sort\<close>. Each loop is shown to end on a well-formed list and to compute a function of its
  sequence of elements.
\<close>

subsection \<open>Walking a list\<close>

lemma hd_neq_end:
  "is_list h l (xs @ y # ys) \<Longrightarrow> y \<noteq> l + 8"
  by (auto dest: is_list_distinct)

lemma size_loop_ok:
  "is_list h l (xs @ ys) \<Longrightarrow>
   size_loop h (l + 8) (hd (ys @ [l + 8])) c = Some (c + of_nat (length ys))"
proof (induction ys arbitrary: xs c)
  case Nil
  then show ?case by (simp add: size_loop.simps)
next
  case (Cons y ys)
  then show ?case
    using Cons.IH [of "xs @ [y]" "c + 1"] list_next_ok [OF Cons.prems] hd_neq_end [OF Cons.prems]
    by (simp add: size_loop.simps [of h "l + 8" y])
qed

lemma list_size_ok: "is_list h l xs \<Longrightarrow> list_size h l = Some (of_nat (length xs))"
  using size_loop_ok [of h l "[]" xs 0]
  by (simp add: list_size_def list_begin_ok list_end_ok)

text \<open>The elements of a list have different addresses, so their number is a \<^verbatim>\<open>size_t\<close>.\<close>

lemma is_list_length: "is_list h l xs \<Longrightarrow> length xs < 2 ^ 32"
proof -
  assume "is_list h l xs"
  then have d: "distinct (l # xs)" by (auto dest: is_list_distinct)
  have "length (l # xs) = card (set (l # xs))" using d by (metis distinct_card)
  also have "\<dots> \<le> card (UNIV :: ptr set)" by (rule card_mono) simp_all
  finally show ?thesis by (simp add: card_word)
qed

lemma extremum_loop_ok:
  "is_list h l (xs @ ys) \<Longrightarrow>
   extremum_loop h better (l + 8) (hd (ys @ [l + 8])) m =
     Some (fold (\<lambda>e m. if better m e then e else m) ys m)"
proof (induction ys arbitrary: xs m)
  case Nil
  then show ?case by (simp add: extremum_loop.simps)
next
  case (Cons y ys)
  then show ?case
    using Cons.IH [of "xs @ [y]"] list_next_ok [OF Cons.prems] hd_neq_end [OF Cons.prems]
    by (simp add: extremum_loop.simps [of h better "l + 8" y])
qed

lemma fold_best:
  fixes k :: "'a \<Rightarrow> 'k::linorder"
  defines "m \<equiv> \<lambda>ys x. fold (\<lambda>e m. if k m < k e then e else m) ys x"
  shows "m ys x \<in> set (x # ys) \<and> (\<forall>y\<in>set (x # ys). k y \<le> k (m ys x))"
  unfolding m_def
proof (induction ys arbitrary: x)
  case (Cons y ys)
  show ?case using Cons [of x] Cons [of y] by (auto dest: order.trans)
qed simp

lemma fold_least:
  fixes k :: "'a \<Rightarrow> 'k::linorder"
  defines "m \<equiv> \<lambda>ys x. fold (\<lambda>e m. if k e < k m then e else m) ys x"
  shows "m ys x \<in> set (x # ys) \<and> (\<forall>y\<in>set (x # ys). k (m ys x) \<le> k y)"
  unfolding m_def
proof (induction ys arbitrary: x)
  case (Cons y ys)
  show ?case using Cons [of x] Cons [of y] by (auto dest: order.trans)
qed simp

lemma list_max_Cons:
  assumes "is_list h l (x # xs)"
  shows "list_max lt h l = Some (fold (\<lambda>e m. if lt m e then e else m) xs x)"
  using assms extremum_loop_ok [of h l "[x]" xs "\<lambda>m e. lt m e" x] list_next_ok [of h l "[]" x xs]
    hd_neq_end [of h l "[]" x xs]
  by (simp add: list_max_def list_begin_ok list_end_ok)

lemma list_min_Cons:
  assumes "is_list h l (x # xs)"
  shows "list_min lt h l = Some (fold (\<lambda>e m. if lt e m then e else m) xs x)"
  using assms extremum_loop_ok [of h l "[x]" xs "\<lambda>m e. lt e m" x] list_next_ok [of h l "[]" x xs]
    hd_neq_end [of h l "[]" x xs]
  by (simp add: list_min_def list_begin_ok list_end_ok)

subsection \<open>Ordered insertion\<close>

lemma insert_ordered_loop_ok:
  "is_list h l (xs @ ys) \<Longrightarrow>
   insert_ordered_loop h lt elem (l + 8) (hd (ys @ [l + 8])) =
     Some (hd (dropWhile (\<lambda>x. \<not> lt elem x) ys @ [l + 8]))"
proof (induction ys arbitrary: xs)
  case Nil
  then show ?case by (simp add: insert_ordered_loop.simps)
next
  case (Cons y ys)
  then show ?case
    using Cons.IH [of "xs @ [y]"] list_next_ok [OF Cons.prems] hd_neq_end [OF Cons.prems]
    by (simp add: insert_ordered_loop.simps [of h lt elem "l + 8" y])
qed

lemma list_insert_ordered_ok:
  assumes l: "is_list h l xs" and e: "valid h e" "e \<notin> nodes l xs"
  shows "\<exists>h'. list_insert_ordered lt h l e = Some h' \<and>
     is_list h' l (takeWhile (\<lambda>x. \<not> lt e x) xs @ e # dropWhile (\<lambda>x. \<not> lt e x) xs) \<and>
     same_outside (insert e (nodes l xs)) h h'"
  using list_insert_ok [of h l "takeWhile (\<lambda>x. \<not> lt e x) xs" "dropWhile (\<lambda>x. \<not> lt e x) xs" e]
    insert_ordered_loop_ok [of h l "[]" xs lt e] assms is_list_nonnull [OF l] valid_nonnull [OF e(1)]
  by (simp add: list_insert_ordered_def list_begin_ok list_end_ok)

subsection \<open>Removal of duplicates\<close>

fun uniq :: "('a \<Rightarrow> 'a \<Rightarrow> bool) \<Rightarrow> 'a list \<Rightarrow> 'a list \<times> 'a list" where
  "uniq lt (x # y # zs) =
     (if \<not> lt x y \<and> \<not> lt y x then (case uniq lt (x # zs) of (us, ds) \<Rightarrow> (us, y # ds))
      else (case uniq lt (y # zs) of (us, ds) \<Rightarrow> (x # us, ds)))"
| "uniq lt xs = (xs, [])"

lemma unique_loop_keep:
  assumes "is_list h l (xs @ x # ys)"
  shows "\<exists>h' zs. unique_loop lt 0 (l + 8) h x = Some h' \<and> fst (uniq lt (x # ys)) = x # zs \<and>
     is_list h' l (xs @ x # zs) \<and> same_outside (nodes l (xs @ x # ys)) h h'"
  using assms
proof (induction ys arbitrary: xs x h)
  case Nil
  then show ?case using list_next_ok [OF Nil.prems] by (simp add: unique_loop.simps)
next
  case (Cons y ys)
  have l: "is_list h l ((xs @ [x]) @ y # ys)" using Cons.prems by simp
  have nxt: "list_next h x = Some y" using list_next_ok [OF Cons.prems] by simp
  note ne = hd_neq_end [OF l]
  show ?case
  proof (cases "lt x y \<or> lt y x")
    case True
    then show ?thesis
      using Cons.IH [of h "xs @ [x]" y] l nxt ne
      by (auto simp: unique_loop.simps [of lt 0 "l + 8" h x] split: prod.splits)
  next
    case False
    obtain h1 where h1: "list_remove h y = Some (hd (ys @ [l + 8]), h1)"
      "is_list h1 l (xs @ x # ys)" "same_outside (nodes l (xs @ x # ys)) h h1"
      using list_remove_ok [OF l] by auto
    have sub: "nodes l (xs @ x # ys) \<union> nodes l (xs @ x # ys) \<subseteq> nodes l (xs @ x # y # ys)"
      by (auto simp: nodes_def)
    show ?thesis
      using Cons.IH [OF h1(2)] False nxt ne h1(1) same_outside_trans [OF h1(3) _ sub]
      by (auto simp: unique_loop.simps [of lt 0 "l + 8" h x] split: prod.splits)
  qed
qed

lemma unique_loop_move:
  assumes "is_list h l (xs @ x # ys)" and "is_list h d ds"
    and "nodes l (xs @ x # ys) \<inter> nodes d ds = {}"
  shows "\<exists>h' zs. unique_loop lt d (l + 8) h x = Some h' \<and> fst (uniq lt (x # ys)) = x # zs \<and>
     is_list h' l (xs @ x # zs) \<and> is_list h' d (ds @ snd (uniq lt (x # ys)))"
  using assms
proof (induction ys arbitrary: xs x h ds)
  case Nil
  then show ?case using list_next_ok [OF Nil.prems(1)] by (simp add: unique_loop.simps)
next
  case (Cons y ys)
  have l: "is_list h l ((xs @ [x]) @ y # ys)" using Cons.prems by simp
  have nxt: "list_next h x = Some y" using list_next_ok [OF Cons.prems(1)] by simp
  note ne = hd_neq_end [OF l]
  show ?case
  proof (cases "lt x y \<or> lt y x")
    case True
    then show ?thesis
      using Cons.IH [of h "xs @ [x]" y ds] l nxt ne Cons.prems
      by (auto simp: unique_loop.simps [of lt d "l + 8" h x] split: prod.splits)
  next
    case False
    obtain h1 where h1: "list_remove h y = Some (hd (ys @ [l + 8]), h1)"
      "is_list h1 l (xs @ x # ys)" "same_outside (nodes l (xs @ x # ys)) h h1"
      using list_remove_ok [OF l] by auto
    have y: "valid h1 y" "y \<notin> nodes d ds" "y \<notin> nodes l (xs @ x # ys)"
      using is_list_valid [OF l, of y] h1(3) Cons.prems(3) is_list_distinct [OF l]
      by (auto simp: same_outside_valid nodes_def)
    have "is_list h1 d ds"
      by (rule is_list_frame [OF Cons.prems(2) h1(3)]) (use Cons.prems(3) in \<open>auto simp: nodes_def\<close>)
    then obtain h2 where h2: "list_push_back h1 d y = Some h2" "is_list h2 d (ds @ [y])"
      "same_outside (insert y (nodes d ds)) h1 h2"
      using list_push_back_ok [of h1 d ds y] y by blast
    have "is_list h2 l (xs @ x # ys)"
      by (rule is_list_frame [OF h1(2) h2(3)]) (use y Cons.prems(3) in \<open>auto simp: nodes_def\<close>)
    moreover have "nodes l (xs @ x # ys) \<inter> nodes d (ds @ [y]) = {}"
      using y Cons.prems(3) by (auto simp: nodes_def)
    moreover have "d \<noteq> 0" using is_list_nonnull [OF Cons.prems(2)] .
    ultimately show ?thesis
      using Cons.IH [OF _ h2(2)] False nxt ne h1(1) h2(1)
      by (fastforce simp: unique_loop.simps [of lt d "l + 8" h x] split: prod.splits)
  qed
qed

lemma list_unique_keep:
  assumes "is_list h l xs"
  shows "\<exists>h'. list_unique lt h l 0 = Some h' \<and> is_list h' l (fst (uniq lt xs)) \<and>
     same_outside (nodes l xs) h h'"
proof (cases xs)
  case Nil
  then show ?thesis
    using assms is_list_nonnull [OF assms] by (simp add: list_unique_def list_empty_ok)
next
  case (Cons y ys)
  then show ?thesis
    using assms is_list_nonnull [OF assms] unique_loop_keep [of h l "[]" y ys lt]
    by (auto simp: list_unique_def list_empty_ok list_begin_ok list_end_ok)
qed

lemma list_unique_move:
  assumes "is_list h l xs" and "is_list h d ds" and "nodes l xs \<inter> nodes d ds = {}"
  shows "\<exists>h'. list_unique lt h l d = Some h' \<and> is_list h' l (fst (uniq lt xs)) \<and>
     is_list h' d (ds @ snd (uniq lt xs))"
proof (cases xs)
  case Nil
  then show ?thesis
    using assms is_list_nonnull [OF assms(1)] by (simp add: list_unique_def list_empty_ok)
next
  case (Cons y ys)
  then show ?thesis
    using assms is_list_nonnull [OF assms(1)] unique_loop_move [of h l "[]" y ys d ds lt]
    by (auto simp: list_unique_def list_empty_ok list_begin_ok list_end_ok)
qed

text \<open>On a comparison by keys, the elements that stay are those of which the key differs from the
  key of the element before, and nothing is lost.\<close>

lemma uniq_mset: "mset (fst (uniq lt xs)) + mset (snd (uniq lt xs)) = mset xs"
  by (induction lt xs rule: uniq.induct) (auto split: prod.splits)

lemma uniq_keys:
  fixes k :: "'a \<Rightarrow> 'k::linorder"
  shows "map k (fst (uniq (\<lambda>x y. k x < k y) xs)) = remdups_adj (map k xs)"
  by (induction "\<lambda>x y. k x < k y" xs rule: uniq.induct) (auto split: prod.splits)

subsection \<open>Reversal\<close>

lemma swap_links_ok:
  assumes "get_prev h e = Some p" and "get_next h e = Some n"
  shows "swap_links h e = Some (upd_next (upd_prev h e n) e p)"
  using assms by (auto simp: swap_links_def store_simps dest: get_SomeD)

lemma reverse_loop_ok:
  assumes "chain h (ys @ [fin])" and "distinct (ys @ [fin])" and "\<And>y. y \<in> set ys \<Longrightarrow> valid h y"
  shows "\<exists>h'. reverse_loop h fin (hd (ys @ [fin])) = Some h' \<and> same_outside (set ys) h h' \<and>
     (\<forall>y\<in>set ys. get_next h' y = get_prev h y \<and> get_prev h' y = get_next h y)"
  using assms
proof (induction ys arbitrary: h)
  case Nil
  then show ?case by (simp add: reverse_loop.simps)
next
  case (Cons y ys)
  obtain p n where pn: "get_prev h y = Some p" "get_next h y = Some n"
    using valid_get [OF Cons.prems(3) [of y]] by auto
  have n: "n = hd (ys @ [fin])" using Cons.prems(1) pn by (cases ys) auto
  let ?h = "upd_next (upd_prev h y n) y p"
  have v: "valid h y" using Cons.prems(3) by simp
  have y: "y \<noteq> fin" "y \<notin> set ys" using Cons.prems(2) by auto
  have "chain ?h (ys @ [fin]) = chain h (ys @ [fin])"
  proof (rule chain_cong)
    fix q assume "q \<in> set (tl (ys @ [fin]))"
    then have "q \<noteq> y" using y by (auto dest: list.set_sel(2) [rotated])
    then show "get_prev ?h q = get_prev h q" by (simp add: store_simps)
  qed (use y in \<open>auto simp: store_simps\<close>)
  moreover have "chain h (ys @ [fin])" using Cons.prems(1) by (cases ys) auto
  ultimately obtain h' where h': "reverse_loop ?h fin n = Some h'" "same_outside (set ys) ?h h'"
    "\<forall>q\<in>set ys. get_next h' q = get_prev ?h q \<and> get_prev h' q = get_next ?h q"
    using Cons.IH [of ?h] Cons.prems(2,3) by (auto simp: store_simps n)
  have "reverse_loop h fin y = Some h'"
    using y h'(1) v by (simp add: reverse_loop.simps [of h fin y] swap_links_ok [OF pn] store_simps)
  moreover have "same_outside {y} h ?h" by (auto simp: same_outside_def store_simps upd_other)
  from same_outside_trans [OF this h'(2)] have "same_outside (set (y # ys)) h h'" by auto
  moreover have "get_next h' y = get_prev h y \<and> get_prev h' y = get_next h y"
    using same_outside_get [OF h'(2) y(2)] v pn by (simp add: store_simps)
  moreover have "get_next ?h q = get_next h q \<and> get_prev ?h q = get_prev h q" if "q \<in> set ys" for q
    using that y by (auto simp: store_simps)
  ultimately show ?case using h'(3) by auto
qed

lemma chain_rev:
  "\<forall>q\<in>set ps. get_next h' q = get_prev h q \<and> get_prev h' q = get_next h q \<Longrightarrow>
   chain h' (rev ps) = chain h ps"
proof (induction ps)
  case (Cons p ps)
  show ?case
  proof (cases ps)
    case (Cons q qs)
    then show ?thesis using Cons.IH Cons.prems chain_append [of h' "rev qs" q "[p]"] by auto
  qed simp
qed simp

lemma is_list_links:
  assumes "is_list h l xs" and "xs \<noteq> []"
  shows "get_prev h l = Some 0" and "get_next h (l + 8) = Some 0" and "chain h xs"
    and "get_next h l = Some (hd xs)" and "get_prev h (hd xs) = Some l"
    and "get_next h (last xs) = Some (l + 8)" and "get_prev h (l + 8) = Some (last xs)"
  using assms chain_app [of "[l]" "xs @ [l + 8]" h] chain_app [of xs "[l + 8]" h]
  by (auto simp: is_list_def dlist_def)

lemma is_listI_links:
  assumes "get_prev h l = Some 0" and "get_next h (l + 8) = Some 0" and "chain h xs"
    and "get_next h l = Some (hd xs)" and "get_prev h (hd xs) = Some l"
    and "get_next h (last xs) = Some (l + 8)" and "get_prev h (l + 8) = Some (last xs)"
    and "xs \<noteq> []" and "distinct (l # xs @ [l + 8])"
  shows "is_list h l xs"
  using assms chain_app [of "[l]" "xs @ [l + 8]" h] chain_app [of xs "[l + 8]" h]
  by (auto simp: is_list_def dlist_def)

definition flip_ends :: "lheap \<Rightarrow> ptr \<Rightarrow> ptr \<Rightarrow> ptr \<Rightarrow> lheap" where
  "flip_ends h l a z = upd_next (upd_prev (upd_prev (upd_next h l z) (l + 8) a) z l) a (l + 8)"

lemma flip_ends_other: "q \<notin> {l, l + 8, a, z} \<Longrightarrow> flip_ends h l a z q = h q"
  by (simp add: flip_ends_def upd_other)

lemma valid_flip_ends [simp]: "valid (flip_ends h l a z) q = valid h q"
  by (simp add: flip_ends_def store_simps)

lemma flip_ends_ok:
  assumes r: "chain h (rev xs)" and x: "xs \<noteq> []" "distinct (l # xs @ [l + 8])"
    and v: "valid h l" "valid h (l + 8)" "\<forall>q\<in>set xs. valid h q"
    and e: "get_prev h l = Some 0" "get_next h (l + 8) = Some 0"
  shows "is_list (flip_ends h l (hd xs) (last xs)) l (rev xs)"
proof (rule is_listI_links)
  let ?h = "flip_ends h l (hd xs) (last xs)"
  note m = hd_in_set [OF x(1)] last_in_set [OF x(1)]
  have ne: "hd xs \<noteq> l" "last xs \<noteq> l" "hd xs \<noteq> l + 8" "last xs \<noteq> l + 8" "l + 8 \<noteq> l"
    using x(2) m by auto
  have vm: "valid h (hd xs)" "valid h (last xs)" using v(3) m by auto
  show "chain ?h (rev xs)"
    by (rule chain_segment [OF r])
      (use x in \<open>auto simp: flip_ends_def store_simps hd_rev last_rev\<close>)
  show "get_prev ?h l = Some 0" "get_next ?h (l + 8) = Some 0"
    using e ne by (auto simp: flip_ends_def store_simps)
  show "get_next ?h l = Some (hd (rev xs))" "get_prev ?h (hd (rev xs)) = Some l"
    "get_next ?h (last (rev xs)) = Some (l + 8)" "get_prev ?h (l + 8) = Some (last (rev xs))"
    using ne v(1,2) vm x(1) by (auto simp: flip_ends_def store_simps hd_rev last_rev)
qed (use x in auto)

lemma list_reverse_ok:
  assumes l: "is_list h l xs"
  shows "\<exists>h'. list_reverse h l = Some h' \<and> is_list h' l (rev xs) \<and> same_outside (nodes l xs) h h'"
proof (cases "xs = []")
  case True
  then show ?thesis using l by (simp add: list_reverse_def list_empty_ok)
next
  case False
  note k = is_list_links [OF l False] and d = is_list_distinct [OF l]
  have valid: "q \<in> nodes l xs \<Longrightarrow> valid h q" for q using is_list_valid [OF l] .
  have "chain h (xs @ [l + 8])" using chain_app [of xs "[l + 8]" h] k False by simp
  then obtain h1 where h1: "reverse_loop h (l + 8) (hd (xs @ [l + 8])) = Some h1"
    "same_outside (set xs) h h1"
    "\<forall>y\<in>set xs. get_next h1 y = get_prev h y \<and> get_prev h1 y = get_next h y"
    using reverse_loop_ok [of h xs "l + 8"] d valid by (auto simp: nodes_def)
  have out: "get_next h1 l = get_next h l" "get_prev h1 l = get_prev h l"
    "get_next h1 (l + 8) = get_next h (l + 8)" "get_prev h1 (l + 8) = get_prev h (l + 8)"
    using same_outside_get [OF h1(2)] d by auto
  note m = hd_in_set [OF False] last_in_set [OF False]
  have v1: "q \<in> nodes l xs \<Longrightarrow> valid h1 q" for q
    using same_outside_valid [OF h1(2)] valid by simp
  let ?h = "flip_ends h1 l (hd xs) (last xs)"
  have "is_list ?h l (rev xs)"
    by (rule flip_ends_ok)
      (use chain_rev [OF h1(3)] k d v1 out False in \<open>auto simp: nodes_def\<close>)
  moreover have "list_reverse h l = Some ?h"
  proof -
    have "hd xs \<noteq> l" "last xs \<noteq> l" "hd xs \<noteq> l + 8" "last xs \<noteq> l + 8" "l + 8 \<noteq> l"
      using d m by auto
    moreover have "valid h1 l" "valid h1 (l + 8)" "valid h1 (hd xs)" "valid h1 (last xs)"
      using v1 m by (auto simp: nodes_def)
    moreover have "get_prev h1 (last xs) = Some (l + 8)" "get_next h1 (hd xs) = Some l"
      using h1(3) m k by auto
    ultimately show ?thesis
      using l False h1(1) out k
      by (simp add: list_reverse_def list_empty_ok list_begin_ok list_end_ok flip_ends_def store_simps)
  qed
  moreover have "same_outside (nodes l xs) h1 ?h"
    unfolding same_outside_def using m by (auto simp: nodes_def intro!: flip_ends_other)
  then have "same_outside (nodes l xs) h ?h"
    by (rule same_outside_trans [OF h1(2)]) (auto simp: nodes_def)
  ultimately show ?thesis by blast
qed

subsection \<open>Splicing inside a list\<close>

lemma list_splice_ok:
  assumes l: "is_list h l (P @ B @ X @ S)" and ne: "B \<noteq> []" "X \<noteq> []"
  shows "\<exists>h'. list_splice h (hd B) (hd X) (hd (S @ [l + 8])) = Some h' \<and>
     is_list h' l (P @ X @ B @ S) \<and> same_outside (nodes l (P @ B @ X @ S)) h h'"
proof -
  have d: "dlist h ((l # P) @ B @ X @ (S @ [l + 8]))" using l by (simp add: is_list_def)
  let ?h = "splice_heap h (last (l # P)) (hd B) (last B) (hd (S @ [l + 8])) (hd X) (last X)"
  note sp = list_splice_dlist [OF d _ ne]
  have "{last (l # P), hd B, last B, hd (S @ [l + 8]), hd X, last X} \<subseteq> nodes l (P @ B @ X @ S)"
    using ends_in_set [OF ne(1)] ends_in_set [OF ne(2)] by (cases S) (auto simp: nodes_def)
  then have "same_outside (nodes l (P @ B @ X @ S)) h ?h"
    unfolding same_outside_def by (auto intro!: splice_heap_other simp del: last.simps)
  moreover have "is_list ?h l (P @ X @ B @ S)"
    using sp(2) by (simp add: is_list_def del: last.simps)
  ultimately show ?thesis using sp(1) by (simp del: last.simps)
qed

subsection \<open>Merge sort\<close>

text \<open>The steps of the sort on sequences: merging, and one pass over the runs of a sequence.\<close>

fun merge :: "('a \<Rightarrow> 'a \<Rightarrow> bool) \<Rightarrow> 'a list \<Rightarrow> 'a list \<Rightarrow> 'a list" where
  "merge lt (a # us) (b # vs) =
     (if \<not> lt b a then a # merge lt us (b # vs) else b # merge lt (a # us) vs)"
| "merge lt [] vs = vs"
| "merge lt us [] = us"

fun split_run :: "('a \<Rightarrow> 'a \<Rightarrow> bool) \<Rightarrow> 'a \<Rightarrow> 'a list \<Rightarrow> 'a list \<times> 'a list" where
  "split_run lt a (x # xs) =
     (if \<not> lt x a then (case split_run lt x xs of (r, s) \<Rightarrow> (x # r, s)) else ([], x # xs))"
| "split_run lt a [] = ([], [])"

lemma split_run_append: "split_run lt a xs = (r, s) \<Longrightarrow> r @ s = xs"
  by (induction lt a xs arbitrary: r s rule: split_run.induct) (auto split: prod.splits if_splits)

lemma split_run_le: "split_run lt a xs = (r, s) \<Longrightarrow> length s \<le> length xs"
  by (auto dest: split_run_append)

function pass_runs :: "('a \<Rightarrow> 'a \<Rightarrow> bool) \<Rightarrow> 'a list \<Rightarrow> 'a list list" where
  "pass_runs lt [] = []"
| "pass_runs lt (a # xs) = (case split_run lt a xs of
      (r, []) \<Rightarrow> [a # r]
    | (r, b # ys) \<Rightarrow> (case split_run lt b ys of
        (r2, zs) \<Rightarrow> merge lt (a # r) (b # r2) # pass_runs lt zs))"
  by pat_completeness auto
termination
  by (relation "measure (\<lambda>(lt, xs). length xs)")
    (auto dest!: split_run_le [OF sym] simp: less_Suc_eq_le)

abbreviation in_order :: "('a \<Rightarrow> 'a \<Rightarrow> bool) \<Rightarrow> 'a list \<Rightarrow> bool" where
  "in_order lt \<equiv> successively (\<lambda>x y. \<not> lt y x)"

lemma mset_merge [simp]: "mset (merge lt us vs) = mset us + mset vs"
  by (induction lt us vs rule: merge.induct) auto

lemma set_merge [simp]: "set (merge lt us vs) = set us \<union> set vs"
  by (simp flip: set_mset_mset)

lemma merge_Nil2 [simp]: "merge lt us [] = us"
  by (cases us) simp_all

lemma in_order_Cons_merge:
  assumes "in_order lt (x # us)" and "in_order lt (x # vs)" and "in_order lt (merge lt us vs)"
  shows "in_order lt (x # merge lt us vs)"
  using assms by (cases us; cases vs) auto

lemma in_order_tl: "in_order lt (x # xs) \<Longrightarrow> in_order lt xs"
  by (auto simp: successively_Cons)

lemma in_order_merge:
  assumes asym: "\<And>x y. lt x y \<Longrightarrow> \<not> lt y x"
  shows "in_order lt us \<Longrightarrow> in_order lt vs \<Longrightarrow> in_order lt (merge lt us vs)"
  using asym
proof (induction lt us vs rule: merge.induct)
  case (1 lt a us b vs)
  show ?case
  proof (cases "lt b a")
    case True
    have "in_order lt (b # merge lt (a # us) vs)"
      using 1 True in_order_tl [of lt b vs] by (intro in_order_Cons_merge) auto
    with True show ?thesis by simp
  next
    case False
    have "in_order lt (a # merge lt us (b # vs))"
      using 1 False in_order_tl [of lt a us] by (intro in_order_Cons_merge) auto
    with False show ?thesis by simp
  qed
qed auto

lemma in_order_split_run: "split_run lt a xs = (r, s) \<Longrightarrow> in_order lt (a # r)"
  by (induction lt a xs arbitrary: r s rule: split_run.induct) (auto split: prod.splits if_splits)

lemma pass_runs_induct [case_names Nil one two]:
  assumes "P []"
    and "\<And>a r. split_run lt a r = (r, []) \<Longrightarrow> P (a # r)"
    and "\<And>a r b r2 zs. split_run lt a (r @ b # r2 @ zs) = (r, b # r2 @ zs) \<Longrightarrow>
           split_run lt b (r2 @ zs) = (r2, zs) \<Longrightarrow> P zs \<Longrightarrow> P (a # r @ b # r2 @ zs)"
  shows "P xs"
proof (induction xs rule: length_induct)
  case (1 xs)
  show ?case
  proof (cases xs)
    case (Cons a ys)
    obtain r s where rs: "split_run lt a ys = (r, s)" by fastforce
    note ys = split_run_append [OF rs]
    show ?thesis
    proof (cases s)
      case Nil
      then show ?thesis using assms(2) [of a r] rs ys Cons by simp
    next
      case (Cons b us)
      obtain r2 zs where rz: "split_run lt b us = (r2, zs)" by fastforce
      from split_run_append [OF rz] have us: "us = r2 @ zs" by simp
      have "P zs" using 1 \<open>xs = a # ys\<close> ys Cons us by auto
      then show ?thesis
        using assms(3) [of a r b r2 zs] rs rz ys Cons us \<open>xs = a # ys\<close> by auto
    qed
  qed (simp add: assms(1))
qed

lemma mset_pass_runs: "mset (concat (pass_runs lt xs)) = mset xs"
  by (induction xs rule: pass_runs_induct [of _ lt]) simp_all

lemma in_order_pass_runs:
  assumes "\<And>x y. lt x y \<Longrightarrow> \<not> lt y x"
  shows "\<forall>r\<in>set (pass_runs lt xs). in_order lt r"
proof (induction xs rule: pass_runs_induct [of _ lt])
  case (two a r b r2 zs)
  have "in_order lt (merge lt (a # r) (b # r2))"
    by (intro in_order_merge assms in_order_split_run [OF two(1)] in_order_split_run [OF two(2)])
  then show ?case using two by simp
qed (simp_all add: in_order_split_run)

text \<open>The number of runs of a sequence, which every pass halves.\<close>

fun n_runs :: "('a \<Rightarrow> 'a \<Rightarrow> bool) \<Rightarrow> 'a list \<Rightarrow> nat" where
  "n_runs lt [] = 0"
| "n_runs lt [x] = 1"
| "n_runs lt (x # y # zs) = (if lt y x then 1 else 0) + n_runs lt (y # zs)"

lemma n_runs_split: "split_run lt a xs = (r, s) \<Longrightarrow> n_runs lt (a # xs) = Suc (n_runs lt s)"
  by (induction lt a xs arbitrary: r s rule: split_run.induct) (auto split: prod.splits if_splits)

lemma length_pass_runs: "length (pass_runs lt xs) = (n_runs lt xs + 1) div 2"
proof (induction xs rule: pass_runs_induct [of _ lt])
  case (two a r b r2 zs)
  then show ?case using n_runs_split [OF two(1)] n_runs_split [OF two(2)] by simp
qed (simp_all add: n_runs_split)

lemma n_runs_append: "n_runs lt (xs @ ys) \<le> n_runs lt xs + n_runs lt ys"
proof (induction lt xs rule: n_runs.induct)
  case (2 lt x)
  then show ?case by (cases ys) simp_all
qed simp_all

lemma n_runs_in_order: "in_order lt xs \<Longrightarrow> n_runs lt xs \<le> 1"
  by (induction lt xs rule: n_runs.induct) simp_all

lemma n_runs_concat: "\<forall>r\<in>set rs. in_order lt r \<Longrightarrow> n_runs lt (concat rs) \<le> length rs"
proof (induction rs)
  case (Cons r rs)
  then show ?case using n_runs_append [of lt r "concat rs"] n_runs_in_order [of lt r] by simp
qed simp

lemma n_runs_le_length: "n_runs lt xs \<le> length xs"
  by (induction lt xs rule: n_runs.induct) simp_all

text \<open>The loops of the sort on the store.\<close>

lemma merge_loop_ok:
  assumes "is_list h l (P @ us @ vs @ S)"
  shows "\<exists>h'. merge_loop lt (hd (S @ [l + 8])) h (hd (us @ vs @ S @ [l + 8])) (hd (vs @ S @ [l + 8]))
      = Some h' \<and> is_list h' l (P @ merge lt us vs @ S) \<and> same_outside (nodes l (P @ us @ vs @ S)) h h'"
  using assms
proof (induction lt us vs arbitrary: P h rule: merge.induct)
  case (1 lt a us b vs)
  let ?n = "hd (vs @ S @ [l + 8])"
  have l: "is_list h l ((P @ a # us) @ b # (vs @ S))" using "1.prems" by simp
  have d: "distinct (l # (P @ a # us @ b # vs @ S) @ [l + 8])"
    using is_list_distinct [OF "1.prems"] by simp
  have ne: "a \<noteq> b" "b \<noteq> hd (S @ [l + 8])" using d by (cases S; auto)+
  show ?case
  proof (cases "lt b a")
    case False
    have "list_next h a = Some (hd (us @ b # vs @ S @ [l + 8]))"
      using list_next_ok [of h l P a "us @ b # vs @ S"] "1.prems" by simp
    then show ?thesis
      using "1.IH"(1) [of h "P @ [a]"] "1.prems" False ne
      by (simp add: merge_loop.simps [of lt _ h a])
  next
    case True
    have "list_next h b = Some ?n" using list_next_ok [OF l] by simp
    moreover have "list_prev h ?n = Some b"
    proof -
      have "dlist h ((l # P @ a # us @ [b]) @ (vs @ S @ [l + 8]))"
        using "1.prems" by (simp add: is_list_def)
      from dlist_link(4) [OF this] show ?thesis by simp
    qed
    moreover obtain h1 where h1: "list_splice h a b ?n = Some h1"
      "is_list h1 l (P @ [b] @ (a # us) @ vs @ S)"
      "same_outside (nodes l (P @ (a # us) @ [b] @ vs @ S)) h h1"
      using list_splice_ok [of h l P "a # us" "[b]" "vs @ S"] "1.prems" by auto
    moreover have "is_list h1 l ((P @ [b]) @ (a # us) @ vs @ S)" using h1(2) by simp
    note "1.IH"(2) [OF _ this]
    moreover have "same_outside (nodes l ((P @ [b]) @ (a # us) @ vs @ S)) h1 h' \<Longrightarrow>
        same_outside (nodes l (P @ (a # us) @ (b # vs) @ S)) h h'" for h'
      by (rule same_outside_trans [OF h1(3)]) (auto simp: nodes_def)
    ultimately show ?thesis using True ne by (fastforce simp: merge_loop.simps [of lt _ h a])
  qed
next
  case (2 lt vs)
  then show ?case by (simp add: merge_loop.simps)
next
  case (3 lt v va)
  then show ?case by (simp add: merge_loop.simps)
qed

lemma sorted_loop_ok:
  assumes "is_list h l (P @ a # us @ S)"
  shows "sorted_loop h lt (hd (S @ [l + 8])) a = Some (in_order lt (a # us))"
  using assms
proof (induction us arbitrary: P a)
  case Nil
  then show ?case using list_next_ok [OF Nil.prems] by (simp add: sorted_loop.simps)
next
  case (Cons u us)
  have l: "is_list h l ((P @ [a]) @ u # (us @ S))" using Cons.prems by simp
  have "list_next h a = Some u" using list_next_ok [OF Cons.prems] by simp
  moreover have "list_prev h u = Some a" using list_prev_ok [OF l] by simp
  moreover have "u \<noteq> hd (S @ [l + 8])" using is_list_distinct [OF l] by (cases S) auto
  ultimately show ?case
    using Cons.IH [of "P @ [a]" u] l by (simp add: sorted_loop.simps [of h lt _ a])
qed

lemma is_sorted_ok:
  assumes "is_list h l (P @ us @ S)"
  shows "is_sorted h lt (hd (us @ S @ [l + 8])) (hd (S @ [l + 8])) = Some (in_order lt us)"
proof (cases us)
  case (Cons a vs)
  have "a \<noteq> hd (S @ [l + 8])" using is_list_distinct [OF assms] Cons by (cases S) auto
  then show ?thesis using sorted_loop_ok [of h l P a vs S lt] assms Cons by (simp add: is_sorted_def)
qed (simp add: is_sorted_def)

lemma end_of_run_loop_ok:
  assumes "is_list h l (P @ a # us)"
  shows "end_of_run_loop h lt (l + 8) a = Some (hd (snd (split_run lt a us) @ [l + 8]))"
  using assms
proof (induction us arbitrary: P a)
  case Nil
  then show ?case using list_next_ok [OF Nil.prems] by (simp add: end_of_run_loop.simps)
next
  case (Cons u us)
  have l: "is_list h l ((P @ [a]) @ u # us)" using Cons.prems by simp
  have "list_next h a = Some u" using list_next_ok [OF Cons.prems] by simp
  moreover have "list_prev h u = Some a" using list_prev_ok [OF l] by simp
  ultimately show ?case
    using Cons.IH [of "P @ [a]" u] l hd_neq_end [OF l]
    by (simp add: end_of_run_loop.simps [of h lt _ a] split: prod.splits)
qed

lemma find_end_of_run_ok:
  assumes "is_list h l (P @ a # us)"
  shows "find_end_of_run h lt a (l + 8) = Some (hd (snd (split_run lt a us) @ [l + 8]))"
proof -
  have "valid h a" "valid h (l + 8)" using is_list_valid [OF assms] by (auto simp: nodes_def)
  then show ?thesis
    using end_of_run_loop_ok [OF assms] hd_neq_end [OF assms]
    by (auto simp: find_end_of_run_def dest: valid_nonnull)
qed

lemma inplace_merge_ok:
  assumes l: "is_list h l (P @ (a # us) @ (b # vs) @ S)"
    and "in_order lt (a # us)" and "in_order lt (b # vs)"
  shows "\<exists>h'. inplace_merge lt h a b (hd (S @ [l + 8])) = Some h' \<and>
     is_list h' l (P @ merge lt (a # us) (b # vs) @ S) \<and>
     same_outside (nodes l (P @ (a # us) @ (b # vs) @ S)) h h'"
proof -
  have "hd (S @ [l + 8]) \<in> nodes l (P @ (a # us) @ (b # vs) @ S)"
    by (cases S) (auto simp: nodes_def)
  then have "valid h a" "valid h b" "valid h (hd (S @ [l + 8]))"
    using is_list_valid [OF l] by (auto simp: nodes_def)
  then have "a \<noteq> 0" "b \<noteq> 0" "hd (S @ [l + 8]) \<noteq> 0" by (auto dest: valid_nonnull)
  moreover have "is_sorted h lt a b = Some True"
    using is_sorted_ok [of h l P "a # us" "b # vs @ S" lt] assms by simp
  moreover have "is_sorted h lt b (hd (S @ [l + 8])) = Some True"
    using is_sorted_ok [of h l "P @ a # us" "b # vs" S lt] assms by simp
  ultimately show ?thesis
    using merge_loop_ok [OF l, of lt] by (simp add: inplace_merge_def)
qed

lemma sort_pass_ok:
  assumes "is_list h l (P @ xs)"
  shows "\<exists>h'. sort_pass lt (l + 8) h (hd (xs @ [l + 8])) c =
       Some (c + of_nat (length (pass_runs lt xs)), h') \<and>
     is_list h' l (P @ concat (pass_runs lt xs)) \<and> same_outside (nodes l (P @ xs)) h h'"
  using assms
proof (induction xs arbitrary: P h c rule: pass_runs_induct [of _ lt])
  case Nil
  then show ?case by (simp add: sort_pass.simps)
next
  case (one a r)
  then show ?case
    using find_end_of_run_ok [of h l P a r lt] hd_neq_end [of h l P a r]
    by (simp add: sort_pass.simps [of lt _ h a])
next
  case (two a r b r2 zs)
  let ?m = "merge lt (a # r) (b # r2)"
  have l: "is_list h l (P @ (a # r) @ (b # r2) @ zs)" using two.prems by simp
  have lb: "is_list h l ((P @ a # r) @ b # (r2 @ zs))" using two.prems by simp
  obtain h1 where h1: "inplace_merge lt h a b (hd (zs @ [l + 8])) = Some h1"
    "is_list h1 l (P @ ?m @ zs)" "same_outside (nodes l (P @ (a # r) @ (b # r2) @ zs)) h h1"
    using inplace_merge_ok [OF l in_order_split_run [OF two(1)] in_order_split_run [OF two(2)]]
    by blast
  have fa: "find_end_of_run h lt a (l + 8) = Some b"
    using find_end_of_run_ok [of h l P a "r @ b # r2 @ zs" lt] two.prems two(1) by simp
  have fb: "find_end_of_run h lt b (l + 8) = Some (hd (zs @ [l + 8]))"
    using find_end_of_run_ok [OF lb, of lt] two(2) by simp
  obtain h' where h': "sort_pass lt (l + 8) h1 (hd (zs @ [l + 8])) (c + 1) =
       Some (c + 1 + of_nat (length (pass_runs lt zs)), h')"
    "is_list h' l ((P @ ?m) @ concat (pass_runs lt zs))"
    "same_outside (nodes l ((P @ ?m) @ zs)) h1 h'"
    using two(3) [of h1 "P @ ?m" "c + 1"] h1(2) by auto
  have "nodes l ((P @ ?m) @ zs) = nodes l (P @ (a # r) @ (b # r2) @ zs)"
    by (simp add: nodes_def del: merge.simps) auto
  with h'(3) have "same_outside (nodes l (P @ (a # r) @ (b # r2) @ zs)) h h'"
    using same_outside_trans [OF h1(3)] by auto
  moreover have "a \<noteq> l + 8" "b \<noteq> l + 8"
    using hd_neq_end [of h l P a] hd_neq_end [OF lb] two.prems by auto
  ultimately show ?case
    using h' h1(1) fa fb two(1,2)
    by (simp add: sort_pass.simps [of lt _ h a] add.assoc del: merge.simps)
qed

lemma concat_le_one: "length rs \<le> 1 \<Longrightarrow> \<forall>r\<in>set rs. in_order lt r \<Longrightarrow> in_order lt (concat rs)"
  by (cases rs) auto

lemma nodes_mset: "mset xs = mset ys \<Longrightarrow> nodes l xs = nodes l ys"
  using mset_eq_setD [of xs ys] by (simp add: nodes_def)

text \<open>What a sort does to the sequence: passes until one run is left.\<close>

inductive passes :: "('a \<Rightarrow> 'a \<Rightarrow> bool) \<Rightarrow> 'a list \<Rightarrow> 'a list \<Rightarrow> bool" for lt where
  passes_one: "passes lt xs (concat (pass_runs lt xs))"
| passes_more: "passes lt (concat (pass_runs lt xs)) zs \<Longrightarrow> passes lt xs zs"

lemma passes_mset: "passes lt xs zs \<Longrightarrow> mset zs = mset xs"
  by (induction rule: passes.induct) (simp_all add: mset_pass_runs)

lemma sort_loop_ok:
  assumes asym: "\<And>x y. lt x y \<Longrightarrow> \<not> lt y x" and "is_list h l xs"
  shows "\<exists>h' zs. sort_loop lt l h = Some h' \<and> is_list h' l zs \<and> in_order lt zs \<and> passes lt xs zs \<and>
     same_outside (nodes l xs) h h'"
  using assms(2)
proof (induction "n_runs lt xs" arbitrary: xs h rule: less_induct)
  case less
  let ?rs = "pass_runs lt xs"
  obtain h1 where h1: "sort_pass lt (l + 8) h (hd (xs @ [l + 8])) 0 = Some (of_nat (length ?rs), h1)"
    "is_list h1 l (concat ?rs)" "same_outside (nodes l xs) h h1"
    using sort_pass_ok [of h l "[]" xs lt 0] less.prems by auto
  have len: "length ?rs < 2 ^ 32"
    using n_runs_le_length [of lt xs] is_list_length [OF less.prems] by (simp add: length_pass_runs)
  have more: "(1 :: size_t) < of_nat (length ?rs) \<longleftrightarrow> 1 < length ?rs"
    using len by (simp add: word_less_nat_alt unat_of_nat_u32)
  note ord = in_order_pass_runs [of lt xs, OF asym]
  show ?case
  proof (cases "1 < length ?rs")
    case True
    have "n_runs lt (concat ?rs) < n_runs lt xs"
      using n_runs_concat [OF ord] True by (simp add: length_pass_runs)
    from less.hyps [OF this h1(2)] obtain h' zs where h': "sort_loop lt l h1 = Some h'"
      "is_list h' l zs" "in_order lt zs" "passes lt (concat ?rs) zs"
      "same_outside (nodes l (concat ?rs)) h1 h'" by blast
    have "same_outside (nodes l xs) h h'"
      by (rule same_outside_trans [OF h1(3) h'(5)]) (simp add: nodes_mset [OF mset_pass_runs])
    with h' True more h1(1) less.prems show ?thesis
      by (auto simp: sort_loop.simps [of lt l h] list_begin_ok list_end_ok intro: passes_more)
  next
    case False
    then have "in_order lt (concat ?rs)" using ord by (intro concat_le_one) simp_all
    with False more h1 less.prems show ?thesis
      by (auto simp: sort_loop.simps [of lt l h] list_begin_ok list_end_ok intro: passes_one)
  qed
qed

lemma list_sort_ok:
  assumes asym: "\<And>x y. lt x y \<Longrightarrow> \<not> lt y x" and l: "is_list h l xs"
  shows "\<exists>h' zs. list_sort lt h l = Some h' \<and> is_list h' l zs \<and> in_order lt zs \<and> passes lt xs zs \<and>
     same_outside (nodes l xs) h h'"
proof -
  obtain h' zs where h': "sort_loop lt l h = Some h'" "is_list h' l zs" "in_order lt zs"
    "passes lt xs zs" "same_outside (nodes l xs) h h'"
    using sort_loop_ok [of lt h l xs, OF assms] by blast
  moreover have "is_sorted h' lt (hd (zs @ [l + 8])) (l + 8) = Some True"
    using is_sorted_ok [of h' l "[]" zs "[]" lt] h'(2,3) by simp
  ultimately show ?thesis
    using is_list_nonnull [OF l] by (auto simp: list_sort_def list_begin_ok list_end_ok)
qed

text \<open>With a comparison of keys the sort is stable.\<close>

lemma in_order_keys:
  fixes k :: "'a \<Rightarrow> 'k::linorder"
  shows "in_order (\<lambda>x y. k x < k y) xs = sorted (map k xs)"
  by (simp add: successively_map [symmetric] not_less successively_conv_sorted_wrt sorted_map)

lemma filter_merge:
  fixes k :: "'a \<Rightarrow> 'k::linorder"
  assumes "sorted (map k us)" and "sorted (map k vs)"
  shows "filter (\<lambda>x. k x = c) (merge (\<lambda>x y. k x < k y) us vs) =
    filter (\<lambda>x. k x = c) us @ filter (\<lambda>x. k x = c) vs"
  using assms
proof (induction "\<lambda>x y. k x < k y" us vs rule: merge.induct)
  case (1 a us b vs)
  show ?case
  proof (cases "k b < k a")
    case True
    then have "k b = c \<Longrightarrow> filter (\<lambda>x. k x = c) (a # us) = []"
      using "1.prems"(1) by (auto simp: filter_empty_conv)
    then show ?thesis using 1 True by auto
  qed (use 1 in auto)
qed auto

lemma filter_pass_runs:
  fixes k :: "'a \<Rightarrow> 'k::linorder"
  shows "filter (\<lambda>x. k x = c) (concat (pass_runs (\<lambda>x y. k x < k y) xs)) = filter (\<lambda>x. k x = c) xs"
proof (induction xs rule: pass_runs_induct [of _ "\<lambda>x y. k x < k y"])
  case (two a r b r2 zs)
  have "sorted (map k (a # r))" "sorted (map k (b # r2))"
    using in_order_split_run [OF two(1)] in_order_split_run [OF two(2)]
    by (simp_all only: in_order_keys)
  from filter_merge [OF this, of c] show ?case using two by (simp del: merge.simps)
qed simp_all

lemma passes_stable:
  fixes k :: "'a \<Rightarrow> 'k::linorder"
  shows "passes (\<lambda>x y. k x < k y) xs zs \<Longrightarrow> filter (\<lambda>x. k x = c) zs = filter (\<lambda>x. k x = c) xs"
  by (induction rule: passes.induct) (simp_all add: filter_pass_runs)

lemma list_sort_keys:
  fixes k :: "ptr \<Rightarrow> 'k::linorder"
  assumes "is_list h l xs"
  shows "\<exists>h'. list_sort (\<lambda>x y. k x < k y) h l = Some h' \<and> is_list h' l (sort_key k xs) \<and>
     same_outside (nodes l xs) h h'"
proof -
  obtain h' zs where h': "list_sort (\<lambda>x y. k x < k y) h l = Some h'" "is_list h' l zs"
    "in_order (\<lambda>x y. k x < k y) zs" "passes (\<lambda>x y. k x < k y) xs zs" "same_outside (nodes l xs) h h'"
    using list_sort_ok [of "\<lambda>x y. k x < k y", OF _ assms] by fastforce
  have "sort_key k xs = zs"
    using passes_mset [OF h'(4)] passes_stable [OF h'(4)] h'(3)
    by (intro properties_for_sort_key) (simp_all add: in_order_keys eq_commute)
  with h' show ?thesis by blast
qed

subsection \<open>What clients rely on: a double-ended queue\<close>

text \<open>
  The scheduler, the synchronisation primitives and the allocators use a list as a queue or a stack.
  The contract is that of a double-ended queue of distinct elements; what clients need is that any
  sequence of operations has the results it has on the plain sequence.
\<close>

datatype 'e deque_op = Push_Front 'e | Push_Back 'e | Pop_Front | Pop_Back

fun deque_step :: "'e list \<Rightarrow> 'e deque_op \<Rightarrow> ('e list \<times> 'e list) option" where
  "deque_step xs (Push_Front e) = (if e \<in> set xs then None else Some ([], e # xs))"
| "deque_step xs (Push_Back e) = (if e \<in> set xs then None else Some ([], xs @ [e]))"
| "deque_step xs Pop_Front = (if xs = [] then None else Some ([hd xs], tl xs))"
| "deque_step xs Pop_Back = (if xs = [] then None else Some ([last xs], butlast xs))"

fun deque_run :: "'e list \<Rightarrow> 'e deque_op list \<Rightarrow> ('e list \<times> 'e list) option" where
  "deque_run xs [] = Some ([], xs)"
| "deque_run xs (c # cs) = do {
     (out, xs) \<leftarrow> deque_step xs c;
     (outs, xs) \<leftarrow> deque_run xs cs;
     Some (out @ outs, xs)
   }"

fun exec_op :: "('h \<Rightarrow> 'e \<Rightarrow> 'h option) \<Rightarrow> ('h \<Rightarrow> 'e \<Rightarrow> 'h option) \<Rightarrow> ('h \<Rightarrow> ('e \<times> 'h) option) \<Rightarrow>
    ('h \<Rightarrow> ('e \<times> 'h) option) \<Rightarrow> 'h \<Rightarrow> 'e deque_op \<Rightarrow> ('e list \<times> 'h) option" where
  "exec_op pushf pushb popf popb h (Push_Front e) = map_option (\<lambda>h. ([], h)) (pushf h e)"
| "exec_op pushf pushb popf popb h (Push_Back e) = map_option (\<lambda>h. ([], h)) (pushb h e)"
| "exec_op pushf pushb popf popb h Pop_Front = map_option (\<lambda>(e, h). ([e], h)) (popf h)"
| "exec_op pushf pushb popf popb h Pop_Back = map_option (\<lambda>(e, h). ([e], h)) (popb h)"

fun exec_ops :: "('h \<Rightarrow> 'e \<Rightarrow> 'h option) \<Rightarrow> ('h \<Rightarrow> 'e \<Rightarrow> 'h option) \<Rightarrow> ('h \<Rightarrow> ('e \<times> 'h) option) \<Rightarrow>
    ('h \<Rightarrow> ('e \<times> 'h) option) \<Rightarrow> 'h \<Rightarrow> 'e deque_op list \<Rightarrow> ('e list \<times> 'h) option" where
  "exec_ops pushf pushb popf popb h [] = Some ([], h)"
| "exec_ops pushf pushb popf popb h (c # cs) = do {
     (out, h) \<leftarrow> exec_op pushf pushb popf popb h c;
     (outs, h) \<leftarrow> exec_ops pushf pushb popf popb h cs;
     Some (out @ outs, h)
   }"

definition op_elem_ok :: "('e \<Rightarrow> bool) \<Rightarrow> 'e deque_op \<Rightarrow> bool" where
  "op_elem_ok ok c = (case c of Push_Front e \<Rightarrow> ok e | Push_Back e \<Rightarrow> ok e | _ \<Rightarrow> True)"

locale deque =
  fixes rep :: "'h \<Rightarrow> 'e list \<Rightarrow> bool"
    and elem_ok :: "'h \<Rightarrow> 'e \<Rightarrow> bool"
    and push_front :: "'h \<Rightarrow> 'e \<Rightarrow> 'h option"
    and push_back :: "'h \<Rightarrow> 'e \<Rightarrow> 'h option"
    and pop_front :: "'h \<Rightarrow> ('e \<times> 'h) option"
    and pop_back :: "'h \<Rightarrow> ('e \<times> 'h) option"
  assumes push_front_law: "rep h xs \<Longrightarrow> elem_ok h e \<Longrightarrow> e \<notin> set xs \<Longrightarrow>
      \<exists>h'. push_front h e = Some h' \<and> rep h' (e # xs) \<and> elem_ok h' = elem_ok h"
    and push_back_law: "rep h xs \<Longrightarrow> elem_ok h e \<Longrightarrow> e \<notin> set xs \<Longrightarrow>
      \<exists>h'. push_back h e = Some h' \<and> rep h' (xs @ [e]) \<and> elem_ok h' = elem_ok h"
    and pop_front_law: "rep h (e # xs) \<Longrightarrow>
      \<exists>h'. pop_front h = Some (e, h') \<and> rep h' xs \<and> elem_ok h' = elem_ok h"
    and pop_back_law: "rep h (xs @ [e]) \<Longrightarrow>
      \<exists>h'. pop_back h = Some (e, h') \<and> rep h' xs \<and> elem_ok h' = elem_ok h"
begin

lemma step_refines:
  assumes "rep h xs" and "deque_step xs c = Some (out, ys)" and "op_elem_ok (elem_ok h) c"
  shows "\<exists>h'. exec_op push_front push_back pop_front pop_back h c = Some (out, h') \<and>
     rep h' ys \<and> elem_ok h' = elem_ok h"
proof (cases c)
  case (Push_Front e)
  then show ?thesis
    using push_front_law [OF assms(1), of e] assms by (auto simp: op_elem_ok_def split: if_splits)
next
  case (Push_Back e)
  then show ?thesis
    using push_back_law [OF assms(1), of e] assms by (auto simp: op_elem_ok_def split: if_splits)
next
  case Pop_Front
  then show ?thesis using pop_front_law [of h "hd xs" "tl xs"] assms by (auto split: if_splits)
next
  case Pop_Back
  then show ?thesis using pop_back_law [of h "butlast xs" "last xs"] assms by (auto split: if_splits)
qed

lemma run_refines:
  assumes "rep h xs" and "deque_run xs cs = Some (out, ys)" and "list_all (op_elem_ok (elem_ok h)) cs"
  shows "\<exists>h'. exec_ops push_front push_back pop_front pop_back h cs = Some (out, h') \<and> rep h' ys"
  using assms
proof (induction cs arbitrary: h xs out)
  case (Cons c cs)
  from Cons.prems(2) obtain o1 xs1 o2 where 1: "deque_step xs c = Some (o1, xs1)"
    "deque_run xs1 cs = Some (o2, ys)" "out = o1 @ o2"
    by (auto simp: bind_eq_Some_conv split: prod.splits)
  obtain h1 where h1: "exec_op push_front push_back pop_front pop_back h c = Some (o1, h1)"
    "rep h1 xs1" "elem_ok h1 = elem_ok h"
    using step_refines [OF Cons.prems(1) 1(1)] Cons.prems(3) by auto
  from Cons.IH [OF h1(2) 1(2)] Cons.prems(3) h1 1(3) show ?case by auto
qed simp

end

definition insertable :: "ptr \<Rightarrow> lheap \<Rightarrow> ptr \<Rightarrow> bool" where
  "insertable l h e \<longleftrightarrow> valid h e \<and> e \<noteq> l \<and> e \<noteq> l + 8"

lemma insertable_same: "same_outside S h h' \<Longrightarrow> insertable l h' = insertable l h"
  by (simp add: insertable_def fun_eq_iff same_outside_valid)

interpretation kl: deque "\<lambda>h xs. is_list h l xs" "insertable l" "\<lambda>h e. list_push_front h l e"
    "\<lambda>h e. list_push_back h l e" "\<lambda>h. list_pop_front h l" "\<lambda>h. list_pop_back h l" for l
proof
  fix h xs e
  assume a: "is_list h l xs" "insertable l h e" "e \<notin> set xs"
  then have e: "valid h e" "e \<notin> nodes l xs" by (auto simp: insertable_def nodes_def)
  show "\<exists>h'. list_push_front h l e = Some h' \<and> is_list h' l (e # xs) \<and> insertable l h' = insertable l h"
    using list_push_front_ok [OF a(1) e] insertable_same by blast
  show "\<exists>h'. list_push_back h l e = Some h' \<and> is_list h' l (xs @ [e]) \<and> insertable l h' = insertable l h"
    using list_push_back_ok [OF a(1) e] insertable_same by blast
next
  fix h xs e
  show "is_list h l (e # xs) \<Longrightarrow>
      \<exists>h'. list_pop_front h l = Some (e, h') \<and> is_list h' l xs \<and> insertable l h' = insertable l h"
    using list_pop_front_ok insertable_same by blast
  show "is_list h l (xs @ [e]) \<Longrightarrow>
      \<exists>h'. list_pop_back h l = Some (e, h') \<and> is_list h' l xs \<and> insertable l h' = insertable l h"
    using list_pop_back_ok insertable_same by blast
qed

lemma dropWhile_sorted:
  fixes k :: "'a \<Rightarrow> 'k::linorder"
  shows "sorted (map k xs) \<Longrightarrow> x \<in> set (dropWhile (\<lambda>x. \<not> c < k x) xs) \<Longrightarrow> c < k x"
  by (induction xs) (auto split: if_splits)

lemma sorted_insert_mid:
  fixes k :: "'a \<Rightarrow> 'k::linorder"
  assumes "\<forall>x\<in>set us. k x \<le> k e" and "\<forall>x\<in>set vs. k e < k x"
    and "sorted (map k us)" and "sorted (map k vs)"
  shows "sorted (map k (us @ e # vs))"
proof -
  have "k x \<le> k y" if "x \<in> set us" "y \<in> set vs" for x y
    using assms(1,2) that by (meson order.strict_implies_order order.trans)
  with assms show ?thesis by (auto simp: sorted_append less_imp_le)
qed

subsection \<open>Properties\<close>

text \<open>A store that holds the list of the elements at 200, 300 and 400 with the list header at 100, and
  a loose element at 500.\<close>

definition three_elems :: lheap where
  "three_elems = (\<lambda>_. None)(
     100 \<mapsto> \<lparr>eprev = 0, enext = 200\<rparr>, 200 \<mapsto> \<lparr>eprev = 100, enext = 300\<rparr>,
     300 \<mapsto> \<lparr>eprev = 200, enext = 400\<rparr>, 400 \<mapsto> \<lparr>eprev = 300, enext = 108\<rparr>,
     108 \<mapsto> \<lparr>eprev = 400, enext = 0\<rparr>, 500 \<mapsto> \<lparr>eprev = 0, enext = 0\<rparr>)"

lemma three_elems_ok: "is_list three_elems 100 [200, 300, 400]"
  by (simp add: is_list_def dlist_def three_elems_def get_next_def get_prev_def elem_at_def)

text \<open>C3. \<^verbatim>\<open>list_sort\<close> on a well-formed list returns, never fails one of its assertions, and leaves the
  elements in the order of the stable sort by their keys; stores outside the list do not change.\<close>

theorem list_sort_stable:
  fixes k :: "ptr \<Rightarrow> 'k::linorder"
  assumes "is_list h l xs"
  shows "\<exists>h'. list_sort (\<lambda>x y. k x < k y) h l = Some h' \<and> is_list h' l (sort_key k xs) \<and>
     (\<forall>q. q \<notin> nodes l xs \<longrightarrow> h' q = h q)"
  using list_sort_keys [OF assms, of k] by (auto simp: same_outside_def)

theorem list_sort_stable_witness:
  "\<exists>h'. list_sort (\<lambda>x y. unat (500 - x) < unat (500 - y)) three_elems 100 = Some h' \<and>
     is_list h' 100 [400, 300, 200]"
  using list_sort_stable [OF three_elems_ok, of "\<lambda>x. unat (500 - x)"] by auto

text \<open>\<^verbatim>\<open>list_reverse\<close> returns and leaves exactly the reversed list.\<close>

theorem list_reverse_rev:
  assumes "is_list h l xs"
  shows "\<exists>h'. list_reverse h l = Some h' \<and> is_list h' l (rev xs) \<and>
     (\<forall>q. q \<notin> nodes l xs \<longrightarrow> h' q = h q)"
  using list_reverse_ok [OF assms] by (auto simp: same_outside_def)

theorem list_reverse_rev_witness:
  "\<exists>h'. list_reverse three_elems 100 = Some h' \<and> is_list h' 100 [400, 300, 200]"
  using list_reverse_rev [OF three_elems_ok] by auto

text \<open>C5. Any sequence of pushes and pops at both ends that is possible on the plain sequence of
  elements runs on the linked list without failing, returns the same elements and ends in a list
  with the same sequence.\<close>

theorem list_deque_refines:
  assumes "is_list h l xs" and "deque_run xs cs = Some (out, ys)"
    and "list_all (op_elem_ok (insertable l h)) cs"
  shows "\<exists>h'. exec_ops (\<lambda>h e. list_push_front h l e) (\<lambda>h e. list_push_back h l e)
      (\<lambda>h. list_pop_front h l) (\<lambda>h. list_pop_back h l) h cs = Some (out, h') \<and> is_list h' l ys"
  by (rule kl.run_refines [OF assms])

theorem list_deque_refines_witness:
  "\<exists>h'. exec_ops (\<lambda>h e. list_push_front h 100 e) (\<lambda>h e. list_push_back h 100 e)
      (\<lambda>h. list_pop_front h 100) (\<lambda>h. list_pop_back h 100) three_elems
      [Pop_Front, Push_Back 500, Pop_Back, Push_Front 200, Pop_Back] = Some ([200, 500, 400], h') \<and>
    is_list h' 100 [200, 300]"
  by (rule list_deque_refines [OF three_elems_ok])
    (simp_all add: op_elem_ok_def insertable_def valid_def elem_at_def three_elems_def)

text \<open>C30. \<^verbatim>\<open>list_insert_ordered\<close> keeps a list sorted by keys sorted: the new element goes behind every
  element with a key that is not larger and before all others.\<close>

theorem list_insert_ordered_sorted:
  fixes k :: "ptr \<Rightarrow> 'k::linorder"
  assumes "is_list h l xs" and "sorted (map k xs)" and "valid h e" and "e \<notin> nodes l xs"
  shows "\<exists>h' us vs. list_insert_ordered (\<lambda>x y. k x < k y) h l e = Some h' \<and> xs = us @ vs \<and>
     is_list h' l (us @ e # vs) \<and> sorted (map k (us @ e # vs)) \<and>
     (\<forall>x\<in>set us. k x \<le> k e) \<and> (\<forall>x\<in>set vs. k e < k x)"
proof -
  let ?us = "takeWhile (\<lambda>x. \<not> k e < k x) xs" and ?vs = "dropWhile (\<lambda>x. \<not> k e < k x) xs"
  have split: "sorted (map k xs) \<longleftrightarrow> sorted (map k ?us) \<and> sorted (map k ?vs) \<and>
      (\<forall>x\<in>set (map k ?us). \<forall>y\<in>set (map k ?vs). x \<le> y)"
    by (simp only: map_append [symmetric] sorted_append [symmetric] takeWhile_dropWhile_id)
  have "\<forall>x\<in>set ?us. k x \<le> k e" by (auto dest: set_takeWhileD)
  moreover have "\<forall>x\<in>set ?vs. k e < k x"
    by (blast intro: dropWhile_sorted [OF assms(2)])
  moreover have "sorted (map k ?us)" "sorted (map k ?vs)"
    using split [THEN iffD1, OF assms(2)] by simp_all
  ultimately have "sorted (map k (?us @ e # ?vs))"
    by (intro sorted_insert_mid)
  moreover note \<open>\<forall>x\<in>set ?us. k x \<le> k e\<close> \<open>\<forall>x\<in>set ?vs. k e < k x\<close>
  moreover have "xs = ?us @ ?vs" by simp
  ultimately show ?thesis
    using list_insert_ordered_ok [OF assms(1,3,4), of "\<lambda>x y. k x < k y"] by metis
qed

theorem list_insert_ordered_sorted_witness:
  "\<exists>h' us vs. list_insert_ordered (\<lambda>x y. unat x < unat y) three_elems 100 500 = Some h' \<and>
     [200, 300, 400] = us @ vs \<and> is_list h' 100 (us @ 500 # vs) \<and> sorted (map unat (us @ 500 # vs))"
proof -
  have "sorted (map unat [200 :: ptr, 300, 400])" "valid three_elems 500"
    "500 \<notin> nodes 100 [200, 300, 400]"
    by (simp_all add: valid_def elem_at_def three_elems_def nodes_def)
  from list_insert_ordered_sorted [OF three_elems_ok this] show ?thesis by blast
qed

text \<open>\<^verbatim>\<open>list_unique\<close> with a second list returns, keeps one element of every group of neighbours with
  equal keys, and appends all the others, none lost, to the second list.\<close>

theorem list_unique_partition:
  fixes k :: "ptr \<Rightarrow> 'k::linorder"
  assumes "is_list h l xs" and "is_list h d ds" and "nodes l xs \<inter> nodes d ds = {}"
  shows "\<exists>h' us vs. list_unique (\<lambda>x y. k x < k y) h l d = Some h' \<and> is_list h' l us \<and>
     is_list h' d (ds @ vs) \<and> map k us = remdups_adj (map k xs) \<and> mset us + mset vs = mset xs"
  using list_unique_move [OF assms, of "\<lambda>x y. k x < k y"] uniq_keys [of k xs] uniq_mset by blast

definition two_lists :: lheap where
  "two_lists = three_elems(600 \<mapsto> \<lparr>eprev = 0, enext = 608\<rparr>, 608 \<mapsto> \<lparr>eprev = 600, enext = 0\<rparr>)"

lemma two_lists_ok: "is_list two_lists 100 [200, 300, 400]" "is_list two_lists 600 []"
  by (simp_all add: is_list_def dlist_def two_lists_def three_elems_def get_next_def get_prev_def
      elem_at_def)

theorem list_unique_partition_witness:
  "\<exists>h' us vs. list_unique (\<lambda>x y. (x < 350) < (y < 350)) two_lists 100 600 = Some h' \<and>
     is_list h' 100 us \<and> is_list h' 600 ([] @ vs) \<and> map (\<lambda>x. x < 350) us = [True, False] \<and>
     mset us + mset vs = {#200, 300, 400#}"
  using list_unique_partition [OF two_lists_ok, of "\<lambda>x. x < 350"] by (simp add: nodes_def)

text \<open>On a list that is not empty \<^verbatim>\<open>list_max\<close> and \<^verbatim>\<open>list_min\<close> return elements of the list with the
  largest and the smallest key, and \<^verbatim>\<open>list_size\<close> the number of its elements.\<close>

theorem list_max_min_size:
  fixes k :: "ptr \<Rightarrow> 'k::linorder"
  assumes "is_list h l xs" and "xs \<noteq> []"
  shows "\<exists>a b n. list_max (\<lambda>x y. k x < k y) h l = Some a \<and> list_min (\<lambda>x y. k x < k y) h l = Some b \<and>
     list_size h l = Some n \<and> a \<in> set xs \<and> b \<in> set xs \<and> (\<forall>x\<in>set xs. k x \<le> k a \<and> k b \<le> k x) \<and>
     unat n = length xs"
proof -
  obtain x ys where xs: "xs = x # ys" using assms(2) by (cases xs) auto
  note l = assms(1) [unfolded xs]
  have "unat (of_nat (length xs) :: size_t) = length xs"
    using is_list_length [OF assms(1)] by (simp add: unat_of_nat_u32)
  then show ?thesis
    using list_max_Cons [OF l] list_min_Cons [OF l] list_size_ok [OF assms(1)]
      fold_best [of k ys x] fold_least [of k ys x] xs by auto
qed

theorem list_max_min_size_witness:
  "\<exists>a b n. list_max (\<lambda>x y. unat x < unat y) three_elems 100 = Some a \<and>
     list_min (\<lambda>x y. unat x < unat y) three_elems 100 = Some b \<and> list_size three_elems 100 = Some n \<and>
     unat 400 \<le> unat a \<and> unat b \<le> unat (200 :: ptr) \<and> unat n = 3"
  using list_max_min_size [OF three_elems_ok, of unat] by auto

end
