(* ===== verification/Arith64.thy ===== *)
theory Arith64
  imports Pintos_Prelude "HOL-Library.Signed_Division"
begin

section \<open>64-bit division (lib/arithmetic.c)\<close>

text \<open>
  The compiler calls these routines for the division of 64-bit integers, which the 32-bit machine
  has no instruction for. The only primitive is \<^verbatim>\<open>divl\<close>, which divides a 64-bit by a 32-bit number
  and traps when the quotient does not fit in 32 bits; the trap is \<^term>\<open>None\<close>.
\<close>

subsection \<open>The routines\<close>

definition divl :: "u64 \<Rightarrow> u32 \<Rightarrow> u32 option" where
  "divl n d = (if d = 0 \<or> 2 ^ 32 \<le> unat n div unat d then None
     else Some (of_nat (unat n div unat d)))"

definition nlz :: "u32 \<Rightarrow> nat" where
  "nlz x =
    (let (n, x) = (if x \<le> 0x0000FFFF then (16, push_bit 16 x) else (0, x));
         (n, x) = (if x \<le> 0x00FFFFFF then (n + 8, push_bit 8 x) else (n, x));
         (n, x) = (if x \<le> 0x0FFFFFFF then (n + 4, push_bit 4 x) else (n, x));
         (n, x) = (if x \<le> 0x3FFFFFFF then (n + 2, push_bit 2 x) else (n, x))
     in if x \<le> 0x7FFFFFFF then n + 1 else n)"

definition udiv64 :: "u64 \<Rightarrow> u64 \<Rightarrow> u64 option" where
  "udiv64 n d =
    (if drop_bit 32 d = 0
     then let b = push_bit 32 1;
              n1 = (ucast (drop_bit 32 n) :: u32);
              n0 = (ucast n :: u32);
              d0 = (ucast d :: u32)
          in do {
            kassert (d0 \<noteq> 0);
            q \<leftarrow> divl (b * ucast (n1 mod d0) + ucast n0) d0;
            Some (ucast q + b * ucast (n1 div d0))
          }
     else if n < d then Some 0
     else let d1 = (ucast (drop_bit 32 d) :: u32);
              s = nlz d1
          in do {
            p \<leftarrow> divl (drop_bit 1 n) (ucast (drop_bit 32 (push_bit s d)));
            let q = (ucast (drop_bit (31 - s) p) :: u64);
            Some (if n - (q - 1) * d < d then q - 1 else q)
          })"

definition umod64 :: "u64 \<Rightarrow> u64 \<Rightarrow> u32 option" where
  "umod64 n d = do { q \<leftarrow> udiv64 n d; Some (ucast (n - d * q)) }"

definition sdiv64 :: "u64 \<Rightarrow> u64 \<Rightarrow> u64 option" where
  "sdiv64 n d =
    (let n_abs = (if 0 \<le> sint n then n else - n);
         d_abs = (if 0 \<le> sint d then d else - d)
     in do {
       q_abs \<leftarrow> udiv64 n_abs d_abs;
       Some (if (sint n < 0) = (sint d < 0) then q_abs else - q_abs)
     })"

definition smod64 :: "u64 \<Rightarrow> u64 \<Rightarrow> u32 option" where
  "smod64 n d = do { q \<leftarrow> sdiv64 n d; Some (ucast (n - d * q)) }"

text \<open>The entry points: a 32-bit remainder is extended to the 64-bit result type.\<close>

definition divdi3 :: "u64 \<Rightarrow> u64 \<Rightarrow> u64 option" where
  "divdi3 n d = sdiv64 n d"

definition moddi3 :: "u64 \<Rightarrow> u64 \<Rightarrow> u64 option" where
  "moddi3 n d = map_option scast (smod64 n d)"

definition udivdi3 :: "u64 \<Rightarrow> u64 \<Rightarrow> u64 option" where
  "udivdi3 n d = udiv64 n d"

definition umoddi3 :: "u64 \<Rightarrow> u64 \<Rightarrow> u64 option" where
  "umoddi3 n d = map_option ucast (umod64 n d)"

subsection \<open>Leading zeros\<close>

definition shift_up :: "nat \<Rightarrow> nat \<times> u32 \<Rightarrow> nat \<times> u32" where
  "shift_up k = (\<lambda>(n, x). if unat x < 2 ^ (32 - k) then (n + k, push_bit k x) else (n, x))"

lemma shift_up_inv:
  assumes "unat x = unat y * 2 ^ n" "2 ^ (32 - 2 * k) \<le> unat x" "k \<le> 16"
  shows "unat (snd (shift_up k (n, x))) = unat y * 2 ^ fst (shift_up k (n, x))"
    and "2 ^ (32 - k) \<le> unat (snd (shift_up k (n, x)))"
proof -
  have p: "unat (push_bit k x) = unat x * 2 ^ k" if "unat x < 2 ^ (32 - k)"
  proof (rule unat_push_bit)
    have "unat x * 2 ^ k < 2 ^ (32 - k) * 2 ^ k" using that by simp
    also have "\<dots> = (2 :: nat) ^ 32" using assms(3) by (simp flip: power_add)
    finally show "unat x * 2 ^ k < 2 ^ LENGTH(32)" by simp
  qed
  show "unat (snd (shift_up k (n, x))) = unat y * 2 ^ fst (shift_up k (n, x))"
    using p assms(1) by (simp add: shift_up_def power_add)
  have "(2 :: nat) ^ (32 - k) = 2 ^ (32 - 2 * k) * 2 ^ k" using assms(3) by (simp flip: power_add)
  also have "\<dots> \<le> unat x * 2 ^ k" using assms(2) by simp
  finally show "2 ^ (32 - k) \<le> unat (snd (shift_up k (n, x)))"
    using p by (auto simp: shift_up_def)
qed

lemma shift_up_if:
  "(if x \<le> 0x0000FFFF then (16, push_bit 16 x) else (0, x)) = shift_up 16 (0, x)"
  "(if x \<le> 0x00FFFFFF then (n + 8, push_bit 8 x) else (n, x)) = shift_up 8 (n, x)"
  "(if x \<le> 0x0FFFFFFF then (n + 4, push_bit 4 x) else (n, x)) = shift_up 4 (n, x)"
  "(if x \<le> 0x3FFFFFFF then (n + 2, push_bit 2 x) else (n, x)) = shift_up 2 (n, x)"
  "(if x \<le> 0x7FFFFFFF then n + 1 else n) = fst (shift_up 1 (n, x))"
  by (simp_all add: shift_up_def word_le_nat_alt)

lemma nlz_shifts:
  "nlz x = fst (shift_up 1 (shift_up 2 (shift_up 4 (shift_up 8 (shift_up 16 (0, x))))))"
  by (simp only: nlz_def Let_def shift_up_if split_beta prod.collapse)

lemma nlz_bounds:
  assumes "x \<noteq> 0"
  shows "2 ^ 31 \<le> unat x * 2 ^ nlz x" and "unat x * 2 ^ nlz x < 2 ^ 32"
proof -
  define a where "a = shift_up 16 (0, x)"
  define b where "b = shift_up 8 a"
  define c where "c = shift_up 4 b"
  define d where "d = shift_up 2 c"
  define e where "e = shift_up 1 d"
  have a: "unat (snd a) = unat x * 2 ^ fst a" "2 ^ 16 \<le> unat (snd a)"
    using shift_up_inv [of x x 0 16] assms by (simp_all add: a_def unat_gt_0 Suc_le_eq)
  have b: "unat (snd b) = unat x * 2 ^ fst b" "2 ^ 24 \<le> unat (snd b)"
    using shift_up_inv [of "snd a" x "fst a" 8] a by (simp_all add: b_def)
  have c: "unat (snd c) = unat x * 2 ^ fst c" "2 ^ 28 \<le> unat (snd c)"
    using shift_up_inv [of "snd b" x "fst b" 4] b by (simp_all add: c_def)
  have d: "unat (snd d) = unat x * 2 ^ fst d" "2 ^ 30 \<le> unat (snd d)"
    using shift_up_inv [of "snd c" x "fst c" 2] c by (simp_all add: d_def)
  have e: "unat (snd e) = unat x * 2 ^ fst e" "2 ^ 31 \<le> unat (snd e)"
    using shift_up_inv [of "snd d" x "fst d" 1] d by (simp_all add: e_def)
  have "nlz x = fst e" by (simp add: nlz_shifts a_def b_def c_def d_def e_def)
  then show "2 ^ 31 \<le> unat x * 2 ^ nlz x" "unat x * 2 ^ nlz x < 2 ^ 32"
    using e unat_u32_bound [of "snd e"] by simp_all
qed

subsection \<open>Unsigned division\<close>

lemma unat_u64_bound: "unat (x :: u64) < 2 ^ 64"
  using unsigned_less [of x, where ?'a = nat] by simp

lemma divl_fits:
  assumes "d \<noteq> 0" and "unat n div unat d < 2 ^ 32"
  shows "\<exists>q. divl n d = Some q \<and> unat q = unat n div unat d"
  using assms by (simp add: divl_def unat_of_nat_u32)

lemma short_division:
  fixes b n1 n0 d :: nat
  assumes "0 < d" and "n0 < b"
  shows "(b * n1 + n0) div d = (b * (n1 mod d) + n0) div d + b * (n1 div d)"
    and "(b * (n1 mod d) + n0) div d < b"
proof -
  have "b * n1 + n0 = (b * (n1 mod d) + n0) + d * (b * (n1 div d))"
    by (metis (no_types, lifting) add.assoc add.commute distrib_left mod_mult_div_eq mult.left_commute)
  then show "(b * n1 + n0) div d = (b * (n1 mod d) + n0) div d + b * (n1 div d)"
    using assms(1) by (simp only: div_mult_self2)
  have "n1 mod d + 1 \<le> d" using assms(1) by (simp add: Suc_le_eq)
  then have "b * (n1 mod d + 1) \<le> b * d" by (rule mult_le_mono2)
  with assms(2) have "b * (n1 mod d) + n0 < b * d" by (simp add: distrib_left)
  then show "(b * (n1 mod d) + n0) div d < b"
    using assms(1) by (simp add: div_less_iff_less_mult)
qed

lemma udiv64_short:
  assumes "unat d < 2 ^ 32" and "d \<noteq> 0"
  shows "\<exists>q. udiv64 n d = Some q \<and> unat q = unat n div unat d"
proof -
  define n1 n0 d0 where "n1 = (ucast (drop_bit 32 n) :: u32)" and "n0 = (ucast n :: u32)"
    and "d0 = (ucast d :: u32)"
  define m where "m = (push_bit 32 1 :: u64) * ucast (n1 mod d0) + ucast n0"
  have u: "unat n1 = unat n div 2 ^ 32" "unat n0 = unat n mod 2 ^ 32" "unat d0 = unat d"
    using assms(1) unat_u64_bound [of n]
    by (simp_all add: n1_def n0_def d0_def unat_ucast_mod unat_drop_bit)
  have d: "0 < unat d" "d0 \<noteq> 0" using assms(2) u(3) by (auto simp: unat_gt_0 unat_eq_zero)
  have n: "unat n = 2 ^ 32 * unat n1 + unat n0" by (simp add: u)
  note sd = short_division [OF d(1) unat_u32_bound [of n0], of "unat n1"]
  have b: "unat (push_bit 32 1 :: u64) = 2 ^ 32" by simp
  have "2 ^ 32 * (unat n1 mod unat d) + unat n0 < 2 ^ 64"
    using unat_u32_bound [of n0] unat_u32_bound [of "n1 mod d0"] by (simp add: unat_mod u)
  then have m: "unat m = 2 ^ 32 * (unat n1 mod unat d) + unat n0"
    by (simp add: m_def unat_word_ariths unat_ucast_mod unat_mod u)
  from sd(2) m obtain q where q: "divl m d0 = Some q" "unat q = unat m div unat d"
    using divl_fits [OF d(2), of m] u(3) by auto
  have r: "udiv64 n d = Some (ucast q + push_bit 32 1 * ucast (n1 div d0))"
  proof -
    have "drop_bit 32 d = 0"
      using assms(1) by (simp add: word_unat_eq_iff unat_drop_bit)
    with q d(2) show ?thesis
      by (simp add: udiv64_def Let_def m_def n1_def [symmetric] n0_def [symmetric] d0_def [symmetric])
  qed
  have "unat n div unat d < 2 ^ 64"
    using unat_u64_bound [of n] by (meson div_le_dividend order.strict_trans1)
  moreover define k where "k = n1 div d0"
  have sum: "unat q + 2 ^ 32 * unat k = unat n div unat d"
    using sd(1) n q(2) m by (simp only: k_def unat_div u(3))
  ultimately have "unat (ucast q + push_bit 32 1 * ucast k :: u64) = unat q + 2 ^ 32 * unat k"
    unfolding unat_word_ariths b using unat_u32_bound [of q] unat_u32_bound [of k]
    by (simp add: unat_ucast_mod)
  with r sum show ?thesis by (simp add: k_def)
qed

lemma square_bound: "4 * (x - 1) \<le> (x :: nat) * x"
proof -
  have "0 \<le> (int x - 2) * (int x - 2)" by simp
  also have "\<dots> = int x * int x - 4 * (int x - 1)" by (simp add: algebra_simps)
  finally show ?thesis by (cases x) (simp_all add: algebra_simps flip: of_nat_mult)
qed

text \<open>The quotient by the leading 32 bits of the divisor is the true one or one more.\<close>

lemma estimate:
  fixes n d k :: nat
  defines "D \<equiv> (d div 2 ^ k) * 2 ^ k"
  assumes n: "n < 2 ^ 64" and v: "2 ^ 31 \<le> d div 2 ^ k"
  shows "n div d \<le> n div D" and "n div D \<le> n div d + 1"
proof -
  have "(2 :: nat) ^ 31 * 2 ^ k \<le> d div 2 ^ k * 2 ^ k" using v by (rule mult_le_mono1)
  then have D: "2 ^ 31 * 2 ^ k \<le> D" by (simp add: D_def)
  then have D0: "0 < D" by (auto intro: order.strict_trans2 [rotated])
  have d: "d = D + d mod 2 ^ k" by (simp only: D_def div_mult_mod_eq)
  then have le: "D \<le> d" by simp
  then show "n div d \<le> n div D" using D0 by (rule div_le_mono2 [rotated])
  have "n * (d mod 2 ^ k) < d * D"
  proof (cases "d mod 2 ^ k = 0")
    case False
    have "d mod 2 ^ k \<le> 2 ^ k - 1"
      using mod_less_divisor [of "2 ^ k" d] by (simp del: mod_less_divisor)
    moreover have "n * (d mod 2 ^ k) < 2 ^ 64 * (d mod 2 ^ k)" using n False by simp
    ultimately have "n * (d mod 2 ^ k) < 2 ^ 64 * (2 ^ k - 1)"
      by (meson mult_le_mono2 order.strict_trans2)
    also have "\<dots> = 2 ^ 62 * (4 * (2 ^ k - 1))" by simp
    also have "\<dots> \<le> 2 ^ 62 * (2 ^ k * 2 ^ k)" using square_bound by (rule mult_le_mono2)
    also have "\<dots> = (2 ^ 31 * 2 ^ k) * (2 ^ 31 * 2 ^ k)" by simp
    also have "\<dots> \<le> d * D" using D le by (intro mult_le_mono) auto
    finally show ?thesis .
  qed (use D0 le in simp)
  then have step: "n * d < n * D + d * D" by (subst d, subst distrib_left) simp
  have "n div D * D * d \<le> n * d" by simp
  also note step
  also have "n < (n div d + 1) * d" using D0 le dividend_less_div_times [of d n] by simp
  then have "n * D < (n div d + 1) * d * D" using D0 by (rule mult_less_mono1)
  then have "n * D + d * D < (n div d + 1) * d * D + d * D" by simp
  also have "\<dots> = (n div d + 2) * (D * d)" by (simp add: algebra_simps)
  finally have "n div D * (D * d) < (n div d + 2) * (D * d)" by (simp only: mult.assoc)
  then have "n div D < n div d + 2" by (rule mult_less_cancel2 [THEN iffD1, THEN conjunct2])
  then show "n div D \<le> n div d + 1" by simp
qed

lemma div_mult_le: "0 < (b :: nat) \<Longrightarrow> a div b * c \<le> a * c div b"
proof -
  assume "0 < b"
  have "a div b * b * c \<le> a * c" by (rule mult_le_mono1) simp
  then show ?thesis using \<open>0 < b\<close> by (simp add: less_eq_div_iff_mult_less_eq mult.commute mult.left_commute)
qed

lemma divisor_top:
  assumes "2 ^ 32 \<le> unat (d :: u64)"
  defines "s \<equiv> nlz (ucast (drop_bit 32 d))"
  shows "s \<le> 31" and "unat (ucast (drop_bit 32 (push_bit s d)) :: u32) = unat d div 2 ^ (32 - s)"
    and "2 ^ 31 \<le> unat d div 2 ^ (32 - s)"
proof -
  let ?d1 = "ucast (drop_bit 32 d) :: u32"
  have d1: "unat ?d1 = unat d div 2 ^ 32"
    using unat_u64_bound [of d] by (simp add: unat_ucast_mod unat_drop_bit)
  have "0 < unat ?d1" using assms(1) by (simp add: d1 div_greater_zero_iff)
  then have "?d1 \<noteq> 0" by (metis less_irrefl unat_0)
  note b = nlz_bounds [OF this, folded s_def]
  have "2 ^ s \<le> unat ?d1 * 2 ^ s" using \<open>0 < unat ?d1\<close> by simp
  with b(2) have "(2 :: nat) ^ s < 2 ^ 32" by linarith
  then have "s < 32" by (rule power_less_imp_less_exp [rotated]) simp
  then show s: "s \<le> 31" by simp
  have p: "(2 :: nat) ^ 32 = 2 ^ (32 - s) * 2 ^ s" using s by (simp flip: power_add)
  have "unat ?d1 < 2 ^ (32 - s)" using b(2) by (simp only: p) simp
  then have "unat d < 2 ^ 32 * 2 ^ (32 - s)"
    by (simp only: d1) (simp add: div_less_iff_less_mult mult.commute)
  also have "\<dots> = 2 ^ (32 + (32 - s))" by (simp only: power_add)
  also have "32 + (32 - s) = 64 - s" using s by simp
  finally have d: "unat d < 2 ^ (64 - s)" .
  have "unat d * 2 ^ s < 2 ^ (64 - s) * 2 ^ s" using d by simp
  also have "\<dots> = (2 :: nat) ^ LENGTH(64)" using s by (simp flip: power_add)
  finally have sh: "unat (push_bit s d) = unat d * 2 ^ s" by (rule unat_push_bit)
  have q: "unat d * 2 ^ s div 2 ^ 32 = unat d div 2 ^ (32 - s)"
    by (simp only: p) (rule div_mult_mult2, simp)
  have "unat d div 2 ^ (32 - s) < 2 ^ 32"
    using \<open>unat d < 2 ^ 32 * 2 ^ (32 - s)\<close> by (simp add: div_less_iff_less_mult)
  with sh q show "unat (ucast (drop_bit 32 (push_bit s d)) :: u32) = unat d div 2 ^ (32 - s)"
    by (simp only: unat_ucast_mod unat_drop_bit) simp
  have "2 ^ 31 \<le> unat d div 2 ^ 32 * 2 ^ s" using b(1) by (simp only: d1)
  also have "\<dots> \<le> unat d * 2 ^ s div 2 ^ 32" by (rule div_mult_le) simp
  finally show "2 ^ 31 \<le> unat d div 2 ^ (32 - s)" by (simp only: q)
qed

lemma udiv64_long:
  assumes d: "2 ^ 32 \<le> unat d"
  shows "\<exists>q. udiv64 n d = Some q \<and> unat q = unat n div unat d"
proof (cases "n < d")
  case True
  moreover have "drop_bit 32 d \<noteq> 0"
    using d by (auto simp: word_unat_eq_iff unat_drop_bit div_eq_0_iff)
  ultimately show ?thesis by (simp add: udiv64_def word_less_nat_alt)
next
  case False
  define s where "s = nlz (ucast (drop_bit 32 d))"
  define v where "v = (ucast (drop_bit 32 (push_bit s d)) :: u32)"
  note top = divisor_top [OF d, folded s_def, folded v_def]
  let ?k = "32 - s"
  have v31: "2 ^ 31 \<le> unat v" using top(2,3) by (simp only:)
  have vpos: "0 < unat v" by (rule order.strict_trans2 [OF _ v31]) simp
  then have "v \<noteq> 0" by (metis less_irrefl unat_0)
  have "unat (drop_bit 1 n) div unat v < 2 ^ 32"
  proof -
    have "unat (drop_bit 1 n) < 2 ^ 32 * 2 ^ 31"
      using unat_u64_bound [of n] by (simp add: unat_drop_bit)
    also have "\<dots> \<le> 2 ^ 32 * unat v" using v31 by (rule mult_le_mono2)
    finally show ?thesis using vpos by (simp add: div_less_iff_less_mult mult.commute)
  qed
  from divl_fits [OF \<open>v \<noteq> 0\<close> this] obtain p where p: "divl (drop_bit 1 n) v = Some p"
    "unat p = unat n div 2 div unat v" by (auto simp: unat_drop_bit)
  define q where "q = (ucast (drop_bit (31 - s) p) :: u64)"
  define D where "D = unat d div 2 ^ ?k * 2 ^ ?k"
  have "unat q = unat n div 2 div unat v div 2 ^ (31 - s)"
    using unat_u32_bound [of "drop_bit (31 - s) p"] by (simp add: q_def unat_ucast_mod unat_drop_bit p)
  also have "\<dots> = unat n div (2 * (unat v * 2 ^ (31 - s)))" by (simp only: div_mult2_eq)
  also have "2 * (unat v * 2 ^ (31 - s)) = D"
  proof -
    have "?k = Suc (31 - s)" using top(1) by simp
    then show ?thesis by (simp add: D_def top(2))
  qed
  finally have q: "unat q = unat n div D" .
  note est = estimate [OF unat_u64_bound [of n] top(3), folded D_def, folded q]
  have nd: "unat d \<le> unat n" using False by (simp add: word_less_nat_alt)
  then have q1: "1 \<le> unat n div unat d" using d by (simp add: Suc_le_eq div_greater_zero_iff)
  then have qp: "unat (q - 1) = unat q - 1"
    using est(1) by (simp add: unat_sub_if' )
  have le: "(unat q - 1) * unat d \<le> unat n"
    using est(2) by (meson div_times_less_eq_dividend le_diff_conv mult_le_mono1 order.trans)
  then have m: "unat ((q - 1) * d) = (unat q - 1) * unat d"
    using unat_u64_bound [of n] by (simp add: unat_word_ariths qp)
  then have r: "unat (n - (q - 1) * d) = unat n - (unat q - 1) * unat d"
    using le by (simp add: unat_sub_if')
  have "udiv64 n d = Some (if n - (q - 1) * d < d then q - 1 else q)"
  proof -
    have "drop_bit 32 d \<noteq> 0"
      using d by (auto simp: word_unat_eq_iff unat_drop_bit div_eq_0_iff)
    then show ?thesis
      using False p(1) by (simp add: udiv64_def Let_def s_def [symmetric] v_def [symmetric] q_def)
  qed
  moreover have "unat (if n - (q - 1) * d < d then q - 1 else q) = unat n div unat d"
  proof (cases "unat q = unat n div unat d")
    case True
    obtain j where j: "unat q = Suc j" by (metis True q1 not0_implies_Suc not_one_le_zero)
    then have "Suc j * unat d \<le> unat n" using True by (metis div_times_less_eq_dividend)
    then have "unat d \<le> unat n - (unat q - 1) * unat d" using j by simp
    then show ?thesis using True by (simp add: word_less_nat_alt r)
  next
    case False
    then have "unat q = unat n div unat d + 1" using est by simp
    moreover have "unat n - unat n div unat d * unat d < unat d"
      using d by (simp add: minus_div_mult_eq_mod)
    ultimately show ?thesis by (simp add: word_less_nat_alt r qp)
  qed
  ultimately show ?thesis by blast
qed

lemma udiv64_correct:
  assumes "d \<noteq> 0"
  shows "\<exists>q. udiv64 n d = Some q \<and> unat q = unat n div unat d"
  using udiv64_short [OF _ assms] udiv64_long by (meson not_less)

subsection \<open>Signed division\<close>

lemma sint_u64_bounds: "- (2 ^ 63) \<le> sint (x :: u64)" "sint (x :: u64) < 2 ^ 63"
  using sint_greater_eq [of x] sint_less [of x] by simp_all

lemma sint_of_int_u64: "- (2 ^ 63) \<le> v \<Longrightarrow> v < 2 ^ 63 \<Longrightarrow> sint (of_int v :: u64) = v"
  by (simp add: signed_of_int signed_take_bit_int_eq_self)

lemma unat_abs_u64: "unat (if 0 \<le> sint x then x else - x :: u64) = nat \<bar>sint x\<bar>"
proof -
  have "(if 0 \<le> sint x then x else - x) = of_int \<bar>sint x\<bar>"
    by simp
  moreover have "\<bar>sint x\<bar> < 2 ^ 64" using sint_u64_bounds [of x] by simp
  ultimately show ?thesis
    by (simp only: unat_eq_nat_uint uint_word_of_int) simp
qed

lemma sdiv64_correct:
  assumes "d \<noteq> 0" and "\<not> (sint n = - (2 ^ 63) \<and> sint d = - 1)"
  shows "\<exists>q. sdiv64 n d = Some q \<and> sint q = sint n sdiv sint d"
proof -
  define n_abs d_abs where "n_abs = (if 0 \<le> sint n then n else - n)"
    and "d_abs = (if 0 \<le> sint d then d else - d)"
  let ?Q = "\<bar>sint n\<bar> div \<bar>sint d\<bar>"
  have d: "sint d \<noteq> 0"
  proof
    assume "sint d = 0"
    then have "(of_int (sint d) :: u64) = 0" by simp
    with assms(1) show False by simp
  qed
  then have "d_abs \<noteq> 0" using assms(1) by (simp add: d_abs_def)
  then obtain q where q: "udiv64 n_abs d_abs = Some q" "unat q = unat n_abs div unat d_abs"
    using udiv64_correct by blast
  then have u: "unat q = nat ?Q"
    by (simp add: n_abs_def d_abs_def unat_abs_u64 nat_div_distrib)
  have Q0: "0 \<le> ?Q" using d by (simp add: pos_imp_zdiv_nonneg_iff)
  have "q = of_nat (unat q)" by simp
  also have "\<dots> = of_int ?Q" unfolding u using Q0 by (rule of_nat_nat)
  finally have q': "q = of_int ?Q" .
  have Q: "?Q \<le> 2 ^ 63"
  proof -
    have "?Q \<le> \<bar>sint n\<bar>" using zdiv_mono2 [of "\<bar>sint n\<bar>" 1 "\<bar>sint d\<bar>"] d by simp
    then show ?thesis using sint_u64_bounds [of n] by simp
  qed
  have Q': "?Q < 2 ^ 63" if "(sint n < 0) = (sint d < 0)"
  proof (cases "sint n = - (2 ^ 63)")
    case True
    then have "2 \<le> \<bar>sint d\<bar>" using that assms(2) d by auto
    then have "?Q \<le> \<bar>sint n\<bar> div 2" by (intro zdiv_mono2) auto
    then show ?thesis by (simp add: True)
  next
    case False
    have "?Q \<le> \<bar>sint n\<bar>" using zdiv_mono2 [of "\<bar>sint n\<bar>" 1 "\<bar>sint d\<bar>"] d by simp
    then show ?thesis using sint_u64_bounds [of n] False by simp
  qed
  have "sdiv64 n d = Some (if (sint n < 0) = (sint d < 0) then q else - q)"
    using q(1) by (simp add: sdiv64_def Let_def n_abs_def d_abs_def)
  moreover have "sint (if (sint n < 0) = (sint d < 0) then q else - q) = sint n sdiv sint d"
  proof (cases "(sint n < 0) = (sint d < 0)")
    case True
    then have "sint q = ?Q" unfolding q' using Q0 Q' by (intro sint_of_int_u64) auto
    then show ?thesis using True d by (auto simp: signed_divide_int_def sgn_if)
  next
    case False
    have "sint (- q) = - ?Q"
      using sint_of_int_u64 [of "- ?Q"] Q Q0 by (simp add: q')
    then show ?thesis using False d by (auto simp: signed_divide_int_def sgn_if)
  qed
  ultimately show ?thesis by blast
qed

subsection \<open>Properties\<close>

text \<open>C8. 64-bit division is exact: for every non-zero divisor \<^verbatim>\<open>__udivdi3\<close> returns the quotient, without
  the divide instruction ever trapping, and \<^verbatim>\<open>__divdi3\<close> returns the quotient rounded towards zero
  for all operands but the one pair whose quotient does not fit in 64 bits.\<close>

theorem division64_correct:
  assumes "d \<noteq> 0"
  shows "(\<exists>q. udivdi3 n d = Some q \<and> unat q = unat n div unat d) \<and>
     (sint n = - (2 ^ 63) \<and> sint d = - 1 \<or> (\<exists>q. divdi3 n d = Some q \<and> sint q = sint n sdiv sint d))"
  using udiv64_correct [OF assms] sdiv64_correct [OF assms] by (auto simp: udivdi3_def divdi3_def)

theorem division64_correct_witness:
  "\<exists>q. udivdi3 0xFFFFFFFFFFFFFFFF 0x1FFFFFFFF = Some q \<and> unat q = 0xFFFFFFFFFFFFFFFF div 0x1FFFFFFFF"
  using division64_correct [of "0x1FFFFFFFF" "0xFFFFFFFFFFFFFFFF"] by auto

text \<open>C34. The remainder routine \<^verbatim>\<open>__umoddi3\<close> goes through a 32-bit result: it returns the remainder
  modulo \<open>2 ^ 32\<close>, which is the remainder exactly when that is below \<open>2 ^ 32\<close>; with a divisor of
  \<open>2 ^ 34\<close> the remainder of \<open>2 ^ 33\<close> comes out as 0.\<close>

theorem umoddi3_truncated:
  "(d \<noteq> 0 \<longrightarrow> (\<exists>r. umoddi3 n d = Some r \<and> unat r = (unat n mod unat d) mod 2 ^ 32 \<and>
      (r = n mod d \<longleftrightarrow> unat n mod unat d < 2 ^ 32))) \<and>
   umoddi3 (2 ^ 33) (2 ^ 34) = Some 0 \<and> (2 ^ 33 :: u64) mod 2 ^ 34 = 2 ^ 33"
proof (intro conjI impI)
  have eq: "\<exists>r. umoddi3 n d = Some r \<and> unat r = (unat n mod unat d) mod 2 ^ 32" if d0: "d \<noteq> 0" for n d
  proof -
    obtain q where q: "udiv64 n d = Some q" "unat q = unat n div unat d"
      using udiv64_correct [OF d0] by blast
    have le: "unat d * unat q \<le> unat n" by (simp add: q)
    then have "unat (d * q) = unat d * unat q"
      using unat_u64_bound [of n] by (simp add: unat_word_ariths)
    then have "unat (n - d * q) = unat n mod unat d"
      using le by (simp add: unat_sub_if' q minus_mult_div_eq_mod)
    then show ?thesis using q(1) by (simp add: umoddi3_def umod64_def unat_ucast_mod)
  qed
  show "\<exists>r. umoddi3 n d = Some r \<and> unat r = unat n mod unat d mod 2 ^ 32 \<and>
      (r = n mod d \<longleftrightarrow> unat n mod unat d < 2 ^ 32)" if d0: "d \<noteq> 0"
  proof -
    from eq [OF d0] obtain r where r: "umoddi3 n d = Some r" "unat r = unat n mod unat d mod 2 ^ 32"
      by blast
    have "r = n mod d \<longleftrightarrow> unat r = unat n mod unat d" by (simp add: word_unat_eq_iff unat_mod)
    also have "\<dots> \<longleftrightarrow> unat n mod unat d < 2 ^ 32"
      by (simp only: r(2)) (metis mod_less mod_less_divisor zero_less_numeral zero_less_power)
    finally show ?thesis using r by blast
  qed
  show "umoddi3 (2 ^ 33) (2 ^ 34) = Some 0"
    using eq [of "2 ^ 34" "2 ^ 33"] by (auto simp: word_unat_eq_iff)
  show "(2 ^ 33 :: u64) mod 2 ^ 34 = 2 ^ 33" by simp
qed

theorem umoddi3_truncated_witness:
  "\<exists>r. umoddi3 (2 ^ 63) 10 = Some r \<and> unat r = 8"
  using umoddi3_truncated [of 10 "2 ^ 63"] by auto

end
