(* ===== verification/Runqueue.thy ===== *)
theory Runqueue
  imports Bitmap
begin

section \<open>The run queue (threads/thread.c)\<close>

text \<open>
  The ready threads are kept in two priority arrays, \<^verbatim>\<open>active\<close> and \<^verbatim>\<open>expired\<close>. An array has one list of
  threads for each of the 64 priorities and a bitmap in which bit \<open>63 - p\<close> says whether the list for
  priority \<open>p\<close> has an element, so that the highest priority is found by scanning for the first set
  bit. The lists are plain sequences of threads: \<open>Klist_Alg\<close> shows that the operations used on them
  (append at the end, remove at the front, test for emptiness) are what list.c computes. An index
  outside the array of lists is \<^term>\<open>None\<close>.
\<close>

subsection \<open>The operations\<close>

definition PRI_MIN :: int where "PRI_MIN = 0"

definition PRI_DEFAULT :: int where "PRI_DEFAULT = 31"

definition PRI_MAX :: int where "PRI_MAX = 63"

record 't prio_array =
  num :: int
  pmap :: bitmap
  queue :: "'t list list"

record 't runqueue =
  active :: "'t prio_array"
  expired :: "'t prio_array"

text \<open>The buffer of \<^verbatim>\<open>bitmap_create_in_buf\<close> is \<^verbatim>\<open>maparr\<close>: 64 words, of which the first two hold the
  bitmap's header.\<close>

definition prioarr_init :: "'t prio_array option" where
  "prioarr_init = do {
     m \<leftarrow> bitmap_create_in_buf (of_int (PRI_MAX + 1)) [0, 0] 256;
     Some \<lparr>num = 0, pmap = m, queue = replicate (nat (PRI_MAX + 1)) []\<rparr>
   }"

definition runqueue_init :: "'t runqueue option" where
  "runqueue_init = do {
     a \<leftarrow> prioarr_init;
     b \<leftarrow> prioarr_init;
     Some \<lparr>active = a, expired = b\<rparr>
   }"

definition prioarr_empty :: "'t prio_array \<Rightarrow> bool" where
  "prioarr_empty arr \<longleftrightarrow> num arr = 0"

definition runqueue_empty :: "'t runqueue \<Rightarrow> bool" where
  "runqueue_empty rq \<longleftrightarrow> prioarr_empty (active rq) \<and> prioarr_empty (expired rq)"

definition prioarr_insert :: "'t prio_array \<Rightarrow> int \<Rightarrow> 't \<Rightarrow> 't prio_array option" where
  "prioarr_insert arr priority t = do {
     m \<leftarrow> bitmap_mark (pmap arr) (of_int (PRI_MAX - priority));
     kassert (0 \<le> priority \<and> nat priority < length (queue arr));
     Some (arr\<lparr>num := num arr + 1, pmap := m,
       queue := (queue arr)[nat priority := queue arr ! nat priority @ [t]]\<rparr>)
   }"

definition prioarr_remove :: "'t prio_array \<Rightarrow> ('t \<times> 't prio_array) option" where
  "prioarr_remove arr = do {
     kassert (num arr \<noteq> 0);
     first_bit \<leftarrow> bitmap_scan (pmap arr) 0 1 True;
     let highest_prio = PRI_MAX - sint first_bit;
     kassert (0 \<le> highest_prio \<and> nat highest_prio < length (queue arr));
     let q = queue arr ! nat highest_prio;
     kassert (q \<noteq> []);
     m \<leftarrow> (if tl q = [] then bitmap_reset (pmap arr) first_bit else Some (pmap arr));
     Some (hd q, arr\<lparr>num := num arr - 1, pmap := m, queue := (queue arr)[nat highest_prio := tl q]\<rparr>)
   }"

definition active_insert :: "'t runqueue \<Rightarrow> int \<Rightarrow> 't \<Rightarrow> 't runqueue option" where
  "active_insert rq priority t =
     map_option (\<lambda>a. rq\<lparr>active := a\<rparr>) (prioarr_insert (active rq) priority t)"

definition active_remove :: "'t runqueue \<Rightarrow> ('t \<times> 't runqueue) option" where
  "active_remove rq = map_option (\<lambda>(t, a). (t, rq\<lparr>active := a\<rparr>)) (prioarr_remove (active rq))"

definition prioarr_swap :: "'t runqueue \<Rightarrow> 't runqueue option" where
  "prioarr_swap rq = do {
     kassert (num (active rq) = 0);
     Some \<lparr>active = expired rq, expired = active rq\<rparr>
   }"

subsection \<open>The invariant of a priority array\<close>

text \<open>The bitmap is an index of the non-empty lists and \<open>num\<close> counts the threads.\<close>

definition prioarr_ok :: "'t prio_array \<Rightarrow> bool" where
  "prioarr_ok arr \<longleftrightarrow> length (queue arr) = 64 \<and> bitmap_wf (pmap arr) \<and> bit_cnt (pmap arr) = 64 \<and>
     num arr = int (length (concat (queue arr))) \<and>
     (\<forall>i < 64. bitmap_bits (pmap arr) ! i \<longleftrightarrow> queue arr ! (63 - i) \<noteq> [])"

lemma prioarr_init_ok:
  "\<exists>arr. prioarr_init = Some arr \<and> prioarr_ok arr \<and> queue arr = replicate 64 []"
proof -
  have "bitmap_buf_size 64 \<le> 256"
    by (simp add: bitmap_buf_size_def byte_cnt_def elem_cnt_def ELEM_BITS_def)
  then obtain b where b: "bitmap_create_in_buf 64 [0, 0] 256 = Some b" "bitmap_wf b"
    "bit_cnt b = 64" "bitmap_bits b = replicate 64 False"
    using bitmap_create_in_buf_bits [of 64 "[0, 0]" 256] by auto
  define qs :: "'a list list" where "qs = replicate 64 []"
  have "prioarr_ok \<lparr>num = 0, pmap = b, queue = qs\<rparr>"
    using b by (auto simp: prioarr_ok_def qs_def)
  then show ?thesis
    using b(1) by (simp add: prioarr_init_def PRI_MAX_def qs_def)
qed

lemma length_concat_update:
  "p < length qs \<Longrightarrow> length (concat (qs[p := q])) + length (qs ! p) = length (concat qs) + length q"
  by (induction qs arbitrary: p) (auto split: nat.splits)

lemma num_0_iff:
  assumes "prioarr_ok arr"
  shows "num arr = 0 \<longleftrightarrow> (\<forall>p < 64. queue arr ! p = [])"
proof -
  have "num arr = 0 \<longleftrightarrow> (\<forall>q\<in>set (queue arr). q = [])"
    using assms by (simp add: prioarr_ok_def)
  also have "\<dots> \<longleftrightarrow> (\<forall>p < length (queue arr). queue arr ! p = [])" by (rule all_set_conv_all_nth)
  finally show ?thesis using assms by (simp add: prioarr_ok_def)
qed

lemma prioarr_ok_update:
  assumes ok: "prioarr_ok arr" and p: "p < 64" and m: "bitmap_wf m" "bit_cnt m = 64"
    "bitmap_bits m = (bitmap_bits (pmap arr))[63 - p := (q \<noteq> [])]"
  shows "prioarr_ok \<lparr>num = num arr + int (length q) - int (length (queue arr ! p)), pmap = m,
    queue = (queue arr)[p := q]\<rparr>"
proof -
  have len: "length (queue arr) = 64" using ok by (simp add: prioarr_ok_def)
  have "num arr = int (length (concat (queue arr)))" using ok by (simp add: prioarr_ok_def)
  moreover have "length (concat ((queue arr)[p := q])) + length (queue arr ! p) =
      length (concat (queue arr)) + length q"
    using len p by (intro length_concat_update) simp
  ultimately have "num arr + int (length q) - int (length (queue arr ! p)) =
      int (length (concat ((queue arr)[p := q])))" by linarith
  moreover have "bitmap_bits m ! i \<longleftrightarrow> (queue arr)[p := q] ! (63 - i) \<noteq> []" if "i < 64" for i
  proof (cases "i = 63 - p")
    case True
    have "length (bitmap_bits (pmap arr)) = 64" using ok by (simp add: prioarr_ok_def)
    with True p len show ?thesis by (simp add: m(3))
  next
    case False
    then have "63 - i \<noteq> p" using that p by auto
    with False that ok show ?thesis by (simp add: m(3) prioarr_ok_def)
  qed
  ultimately show ?thesis using len m(1,2) by (simp add: prioarr_ok_def)
qed

lemma prioarr_insert_ok:
  assumes ok: "prioarr_ok arr" and p: "0 \<le> p" "p \<le> 63"
  shows "\<exists>arr'. prioarr_insert arr p t = Some arr' \<and> prioarr_ok arr' \<and> num arr' = num arr + 1 \<and>
     queue arr' = (queue arr)[nat p := queue arr ! nat p @ [t]]"
proof -
  let ?i = "of_int (63 - p) :: size_t"
  have i: "unat ?i = 63 - nat p"
    using p by (simp only: unat_eq_nat_uint uint_word_of_int) (simp add: nat_diff_distrib)
  have n: "nat p < 64" using p by simp
  have "bitmap_wf (pmap arr)" "unat ?i < unat (bit_cnt (pmap arr))" "bit_cnt (pmap arr) = 64"
    using ok unfolding i by (simp_all add: prioarr_ok_def)
  then obtain m where m: "bitmap_mark (pmap arr) ?i = Some m" "bitmap_wf m" "bit_cnt m = 64"
    "bitmap_bits m = (bitmap_bits (pmap arr))[63 - nat p := True]"
    using bitmap_mark_bits [of "pmap arr" ?i] i by metis
  have "prioarr_ok \<lparr>num = num arr + 1, pmap = m,
      queue = (queue arr)[nat p := queue arr ! nat p @ [t]]\<rparr>"
    using prioarr_ok_update [OF ok n m(2,3), of "queue arr ! nat p @ [t]"] m(4) by simp
  moreover have "prioarr_insert arr p t = Some \<lparr>num = num arr + 1, pmap = m,
      queue = (queue arr)[nat p := queue arr ! nat p @ [t]]\<rparr>"
    using m(1) ok p n by (simp add: prioarr_insert_def PRI_MAX_def prioarr_ok_def)
  ultimately show ?thesis by simp
qed

text \<open>Removal takes the first thread of the highest priority that has one.\<close>

lemma prioarr_remove_ok:
  assumes ok: "prioarr_ok arr" and "num arr \<noteq> 0"
  shows "\<exists>p t q arr'. p < 64 \<and> queue arr ! p = t # q \<and> (\<forall>p'. p < p' \<and> p' < 64 \<longrightarrow> queue arr ! p' = []) \<and>
     prioarr_remove arr = Some (t, arr') \<and> prioarr_ok arr' \<and> num arr' = num arr - 1 \<and>
     queue arr' = (queue arr)[p := q]"
proof -
  let ?bs = "bitmap_bits (pmap arr)"
  have wf: "bitmap_wf (pmap arr)" and cnt: "bit_cnt (pmap arr) = 64" and len: "length (queue arr) = 64"
    and idx: "\<And>i. i < 64 \<Longrightarrow> ?bs ! i \<longleftrightarrow> queue arr ! (63 - i) \<noteq> []"
    using ok by (auto simp: prioarr_ok_def)
  have lb: "length ?bs = 64" using cnt by simp
  obtain p0 where "p0 < 64" "queue arr ! p0 \<noteq> []" using num_0_iff [OF ok] assms(2) by auto
  then have "run_at ?bs (63 - p0) 1 True" using idx [of "63 - p0"] lb by (simp add: run_at_def)
  then obtain i where i: "first_run ?bs 0 1 True = Some i"
    using first_run_None [of ?bs 0 1 True] by (cases "first_run ?bs 0 1 True") auto
  then have i64: "i < 64" and bi: "?bs ! i" and min: "\<And>j. j < i \<Longrightarrow> \<not> ?bs ! j"
    using lb by (auto simp: first_run_Some run_at_def)
  define f where "f = scan_result (Some i)"
  have f: "unat f = i" using scan_result_index [OF wf i] by (simp add: f_def)
  have scan: "bitmap_scan (pmap arr) 0 1 True = Some f"
    using bitmap_scan_eq [OF wf, of 0 1 True] i by (simp add: f_def)
  have sf: "sint f = int i"
  proof -
    have "int (unat f) = uint f" by simp
    then have "uint f = int i" by (simp only: f)
    then show ?thesis using i64 by (simp add: sint_uint signed_take_bit_int_eq_self)
  qed
  obtain t q where q: "queue arr ! (63 - i) = t # q" using bi idx [OF i64] by (cases "queue arr ! (63 - i)") auto
  have hi: "queue arr ! p' = []" if "63 - i < p'" "p' < 64" for p'
    using min [of "63 - p'"] idx [of "63 - p'"] that by simp
  obtain m where m: "(if q = [] then bitmap_reset (pmap arr) f else Some (pmap arr)) = Some m"
    "bitmap_wf m" "bit_cnt m = 64" "bitmap_bits m = ?bs[i := (q \<noteq> [])]"
  proof (cases "q = []")
    case True
    then show thesis using that bitmap_reset_bits [OF wf, of f] cnt f i64 by auto
  next
    case False
    have "?bs[i := True] = ?bs" using bi list_update_id [of ?bs i] by simp
    then show thesis using that [of "pmap arr"] wf cnt False by simp
  qed
  let ?arr = "\<lparr>num = num arr - 1, pmap = m, queue = (queue arr)[63 - i := q]\<rparr>"
  have "prioarr_ok ?arr"
    using prioarr_ok_update [OF ok _ m(2,3), of "63 - i" q] m(4) q i64 by simp
  moreover have "prioarr_remove arr = Some (t, ?arr)"
  proof -
    have "nat (63 - int i) = 63 - i" using i64 by (simp add: nat_diff_distrib)
    then show ?thesis
      using assms(2) scan sf q m(1) i64 len
      by (simp add: prioarr_remove_def PRI_MAX_def)
  qed
  ultimately show ?thesis using q hi i64 by (intro exI [of _ "63 - i"]) auto
qed

subsection \<open>The interface of a queue of ready threads\<close>

text \<open>
  What the scheduler relies on: the ready threads of each priority in the order of their arrival, an
  insertion at the end, and a removal that takes the first thread of the highest priority.
\<close>

locale ready_queue =
  fixes inv :: "'q \<Rightarrow> bool"
    and at :: "'q \<Rightarrow> nat \<Rightarrow> 't list"
    and ins :: "'q \<Rightarrow> int \<Rightarrow> 't \<Rightarrow> 'q option"
    and rem :: "'q \<Rightarrow> ('t \<times> 'q) option"
    and emp :: "'q \<Rightarrow> bool"
  assumes ins_law: "inv q \<Longrightarrow> 0 \<le> p \<Longrightarrow> p \<le> 63 \<Longrightarrow>
      \<exists>q'. ins q p t = Some q' \<and> inv q' \<and> at q' = (at q)(nat p := at q (nat p) @ [t])"
    and rem_law: "inv q \<Longrightarrow> \<not> emp q \<Longrightarrow>
      \<exists>p t ts q'. p < 64 \<and> at q p = t # ts \<and> (\<forall>p'. p < p' \<longrightarrow> at q p' = []) \<and>
        rem q = Some (t, q') \<and> inv q' \<and> at q' = (at q)(p := ts)"
    and emp_law: "inv q \<Longrightarrow> emp q \<longleftrightarrow> (\<forall>p. at q p = [])"
begin

lemma inserted_not_empty:
  assumes "inv q" and "0 \<le> p" "p \<le> 63" and "ins q p t = Some q'"
  shows "\<not> emp q'"
  using ins_law [OF assms(1-3), of t] assms(4) emp_law [of q'] by auto

text \<open>A thread that is inserted with a priority above all others is the one removed next.\<close>

lemma new_highest_next:
  assumes "inv q" and "0 \<le> p" "p \<le> 63" and "\<And>p'. nat p \<le> p' \<Longrightarrow> at q p' = []"
  shows "\<exists>q' q''. ins q p t = Some q' \<and> rem q' = Some (t, q'') \<and> inv q'' \<and> at q'' = at q"
proof -
  obtain q' where q': "ins q p t = Some q'" "inv q'" "at q' = (at q)(nat p := [t])"
    using ins_law [OF assms(1-3), of t] assms(4) [of "nat p"] by auto
  obtain r s ts q'' where r: "at q' r = s # ts" "\<forall>r'. r < r' \<longrightarrow> at q' r' = []"
    "rem q' = Some (s, q'')" "inv q''" "at q'' = (at q')(r := ts)"
    using rem_law [OF q'(2) inserted_not_empty [OF assms(1-3) q'(1)]] by blast
  have "r = nat p"
  proof (rule linorder_cases [of r "nat p"])
    assume "r < nat p"
    then show ?thesis using r(2) q'(3) by auto
  next
    assume "nat p < r"
    then show ?thesis using assms(4) [of r] r(1) q'(3) by auto
  qed
  moreover have "(at q)(nat p := []) = at q" using assms(4) [of "nat p"] by (simp add: fun_eq_iff)
  ultimately show ?thesis using q' r by (auto simp: fun_upd_idem_iff)
qed

text \<open>A thread that is inserted while another one has at least its priority is not removed next.\<close>

lemma older_first:
  assumes "inv q" and "0 \<le> p" "p \<le> 63" and "at q r \<noteq> []" and "nat p \<le> r"
    and "ins q p t = Some q'" and "rem q' = Some (s, q'')"
  shows "\<exists>r'\<ge>r. at q r' \<noteq> [] \<and> s = hd (at q r')"
proof -
  have q': "inv q'" "at q' = (at q)(nat p := at q (nat p) @ [t])"
    using ins_law [OF assms(1-3), of t] assms(6) by auto
  obtain m u ts where m: "at q' m = u # ts" "\<forall>m'. m < m' \<longrightarrow> at q' m' = []" "u = s"
    using rem_law [OF q'(1) inserted_not_empty [OF assms(1-3,6)]] assms(7) by auto
  have "at q' r \<noteq> []" using assms(4) by (simp add: q'(2))
  with m(2) have le: "r \<le> m" by (meson not_less)
  show ?thesis
  proof (cases "m = nat p")
    case True
    then have "m = r" using le assms(5) by simp
    then show ?thesis
      using m(1,3) True assms(4) by (cases "at q r") (auto simp: q'(2) intro!: exI [of _ r])
  next
    case False
    then show ?thesis using le m(1,3) by (intro exI [of _ m]) (auto simp: q'(2))
  qed
qed

end

text \<open>The run queue of this kernel: nothing inserts into the expired array.\<close>

definition runqueue_ok :: "'t runqueue \<Rightarrow> bool" where
  "runqueue_ok rq \<longleftrightarrow> prioarr_ok (active rq) \<and> prioarr_ok (expired rq) \<and> num (expired rq) = 0"

definition ready_at :: "'t runqueue \<Rightarrow> nat \<Rightarrow> 't list" where
  "ready_at rq p = (if p < 64 then queue (active rq) ! p else [])"

text \<open>The second part of \<^verbatim>\<open>next_thread_to_run\<close>, for a run queue that is not empty.\<close>

definition runqueue_pick :: "'t runqueue \<Rightarrow> ('t \<times> 't runqueue) option" where
  "runqueue_pick rq = do {
     rq \<leftarrow> (if prioarr_empty (active rq) then prioarr_swap rq else Some rq);
     active_remove rq
   }"

lemma runqueue_init_ok:
  "\<exists>rq. (runqueue_init :: 't runqueue option) = Some rq \<and> runqueue_ok rq \<and> (\<forall>p. ready_at rq p = [])"
proof -
  obtain a :: "'t prio_array" where a: "prioarr_init = Some a" "prioarr_ok a" "queue a = replicate 64 []"
    using prioarr_init_ok by blast
  then have "num a = 0" by (auto simp: num_0_iff)
  moreover have "runqueue_init = Some \<lparr>active = a, expired = a\<rparr>"
    by (simp add: runqueue_init_def a(1))
  moreover have "runqueue_ok \<lparr>active = a, expired = a\<rparr>" "\<forall>p. ready_at \<lparr>active = a, expired = a\<rparr> p = []"
    using a \<open>num a = 0\<close> by (simp_all add: runqueue_ok_def ready_at_def)
  ultimately show ?thesis by blast
qed

interpretation rq: ready_queue runqueue_ok ready_at active_insert runqueue_pick runqueue_empty
proof
  fix q :: "'t runqueue" and p :: int and t :: 't
  assume q: "runqueue_ok q" and p: "0 \<le> p" "p \<le> 63"
  have len: "length (queue (active q)) = 64" using q by (simp add: runqueue_ok_def prioarr_ok_def)
  obtain a where a: "prioarr_insert (active q) p t = Some a" "prioarr_ok a"
    "queue a = (queue (active q))[nat p := queue (active q) ! nat p @ [t]]"
    using prioarr_insert_ok [OF _ p, of "active q" t] q by (auto simp: runqueue_ok_def)
  have "ready_at (q\<lparr>active := a\<rparr>) = (ready_at q)(nat p := ready_at q (nat p) @ [t])"
    using p len by (auto simp: ready_at_def fun_eq_iff a(3) nth_list_update)
  then show "\<exists>q'. active_insert q p t = Some q' \<and> runqueue_ok q' \<and>
      ready_at q' = (ready_at q)(nat p := ready_at q (nat p) @ [t])"
    using a q by (simp add: active_insert_def runqueue_ok_def)
next
  fix q :: "'t runqueue"
  assume q: "runqueue_ok q"
  show emp: "runqueue_empty q \<longleftrightarrow> (\<forall>p. ready_at q p = [])"
    using q num_0_iff [of "active q"]
    by (auto simp: runqueue_empty_def prioarr_empty_def runqueue_ok_def ready_at_def)
  assume "\<not> runqueue_empty q"
  then have n: "num (active q) \<noteq> 0"
    using q by (simp add: runqueue_empty_def prioarr_empty_def runqueue_ok_def)
  have len: "length (queue (active q)) = 64" using q by (simp add: runqueue_ok_def prioarr_ok_def)
  obtain p t ts a where a: "p < 64" "queue (active q) ! p = t # ts"
    "\<forall>p'. p < p' \<and> p' < 64 \<longrightarrow> queue (active q) ! p' = []" "prioarr_remove (active q) = Some (t, a)"
    "prioarr_ok a" "queue a = (queue (active q))[p := ts]"
    using prioarr_remove_ok [OF _ n] q by (auto simp: runqueue_ok_def)
  have "ready_at (q\<lparr>active := a\<rparr>) = (ready_at q)(p := ts)"
    using a(1) len by (auto simp: ready_at_def fun_eq_iff a(6) nth_list_update)
  moreover have "runqueue_pick q = Some (t, q\<lparr>active := a\<rparr>)"
    using n a(4) by (simp add: runqueue_pick_def prioarr_empty_def active_remove_def)
  ultimately show "\<exists>p t ts q'. p < 64 \<and> ready_at q p = t # ts \<and> (\<forall>p'. p < p' \<longrightarrow> ready_at q p' = []) \<and>
      runqueue_pick q = Some (t, q') \<and> runqueue_ok q' \<and> ready_at q' = (ready_at q)(p := ts)"
    using a q by (intro exI [of _ p] exI [of _ t] exI [of _ ts] exI [of _ "q\<lparr>active := a\<rparr>"])
      (simp add: ready_at_def runqueue_ok_def)
qed

end
