(* ===== verification/Vaddr.thy ===== *)
theory Vaddr
  imports Pintos_Prelude
begin

section \<open>Virtual addresses and page table entries (threads/vaddr.h, threads/pte.h, lib/round.h)\<close>

text \<open>
  The macros and inline functions that take 32-bit addresses apart: page number and offset, page
  directory and page table index, the mapping between physical and kernel virtual addresses, and the
  entries of page directories and page tables. The lemmas read them as arithmetic on natural
  numbers and show that what is put into an entry comes out again.
\<close>

definition BITMASK :: "nat \<Rightarrow> nat \<Rightarrow> u32" where
  "BITMASK shift cnt = push_bit shift (push_bit cnt 1 - 1)"

definition PGBITS :: nat where "PGBITS = 12"
definition PGSIZE :: u32 where "PGSIZE = 4096"
definition PGMASK :: u32 where "PGMASK = BITMASK 0 PGBITS"

definition pg_ofs :: "ptr \<Rightarrow> u32" where "pg_ofs va = va AND PGMASK"
definition pg_no :: "ptr \<Rightarrow> u32" where "pg_no va = drop_bit PGBITS va"
definition pg_round_up :: "ptr \<Rightarrow> ptr" where "pg_round_up va = (va + PGSIZE - 1) AND NOT PGMASK"
definition pg_round_down :: "ptr \<Rightarrow> ptr" where "pg_round_down va = va AND NOT PGMASK"

definition PHYS_BASE :: ptr where "PHYS_BASE = 0xc0000000"

definition is_user_vaddr :: "ptr \<Rightarrow> bool" where "is_user_vaddr vaddr \<longleftrightarrow> vaddr < PHYS_BASE"
definition is_kernel_vaddr :: "ptr \<Rightarrow> bool" where "is_kernel_vaddr vaddr \<longleftrightarrow> vaddr \<ge> PHYS_BASE"

definition ptov :: "u32 \<Rightarrow> ptr option" where
  "ptov paddr = do { kassert (paddr < PHYS_BASE); Some (paddr + PHYS_BASE) }"

definition vtop :: "ptr \<Rightarrow> u32 option" where
  "vtop vaddr = do { kassert (is_kernel_vaddr vaddr); Some (vaddr - PHYS_BASE) }"

definition PTSHIFT :: nat where "PTSHIFT = PGBITS"
definition PTBITS :: nat where "PTBITS = 10"
definition PTMASK :: u32 where "PTMASK = BITMASK PTSHIFT PTBITS"
definition PDSHIFT :: nat where "PDSHIFT = PTSHIFT + PTBITS"

definition pt_no :: "ptr \<Rightarrow> u32" where "pt_no va = drop_bit PTSHIFT (va AND PTMASK)"
definition pd_no :: "ptr \<Rightarrow> u32" where "pd_no va = drop_bit PDSHIFT va"

definition PTE_FLAGS :: u32 where "PTE_FLAGS = 0x00000fff"
definition PTE_ADDR :: u32 where "PTE_ADDR = 0xfffff000"
definition PTE_P :: u32 where "PTE_P = 0x1"
definition PTE_W :: u32 where "PTE_W = 0x2"
definition PTE_U :: u32 where "PTE_U = 0x4"
definition PTE_A :: u32 where "PTE_A = 0x20"
definition PTE_D :: u32 where "PTE_D = 0x40"

definition pde_create :: "ptr \<Rightarrow> u32 option" where
  "pde_create pt = do {
     kassert (pg_ofs pt = 0);
     p \<leftarrow> vtop pt;
     Some (p OR PTE_U OR PTE_P OR PTE_W)
   }"

definition pde_get_pt :: "u32 \<Rightarrow> ptr option" where
  "pde_get_pt pde = do { kassert (pde AND PTE_P \<noteq> 0); ptov (pde AND PTE_ADDR) }"

definition pte_create_kernel :: "ptr \<Rightarrow> bool \<Rightarrow> u32 option" where
  "pte_create_kernel page writable = do {
     kassert (pg_ofs page = 0);
     p \<leftarrow> vtop page;
     Some (p OR PTE_P OR (if writable then PTE_W else 0))
   }"

definition pte_create_user :: "ptr \<Rightarrow> bool \<Rightarrow> u32 option" where
  "pte_create_user page writable = map_option (\<lambda>e. e OR PTE_U) (pte_create_kernel page writable)"

definition pte_get_page :: "u32 \<Rightarrow> ptr option" where
  "pte_get_page pte = ptov (pte AND PTE_ADDR)"

definition ROUND_UP :: "u32 \<Rightarrow> u32 \<Rightarrow> u32" where "ROUND_UP x step = (x + step - 1) div step * step"
definition DIV_ROUND_UP :: "u32 \<Rightarrow> u32 \<Rightarrow> u32" where "DIV_ROUND_UP x step = (x + step - 1) div step"
definition ROUND_DOWN :: "u32 \<Rightarrow> u32 \<Rightarrow> u32" where "ROUND_DOWN x step = x div step * step"

subsection \<open>Arithmetic\<close>

lemma PGMASK_mask: "PGMASK = mask 12"
  by (simp add: PGMASK_def BITMASK_def PGBITS_def mask_eq_exp_minus_1 push_bit_eq_mult)

lemma PTE_ADDR_mask: "PTE_ADDR = NOT (mask 12)"
  by (simp add: PTE_ADDR_def mask_eq_exp_minus_1)

lemma unat_pg_ofs: "unat (pg_ofs va) = unat va mod 4096"
  by (simp add: pg_ofs_def PGMASK_mask flip: take_bit_eq_mask) (simp add: take_bit_eq_mod unat_mod)

lemma unat_pg_no: "unat (pg_no va) = unat va div 4096"
  by (simp add: pg_no_def PGBITS_def unat_drop_bit)

lemma word_and_not_mask: "x AND NOT (mask 12) = x - take_bit 12 x" for x :: u32
proof -
  have "x AND NOT (mask 12) = push_bit 12 (drop_bit 12 x)"
    by (rule bit_eqI) (auto simp: bit_simps)
  then show ?thesis using bits_ident [of 12 x] by (simp add: eq_diff_eq)
qed

lemma unat_pg_round_down: "unat (pg_round_down va) = unat va div 4096 * 4096"
proof -
  have t: "unat (take_bit 12 va) = unat va mod 4096" by (simp add: take_bit_eq_mod unat_mod)
  then have "unat (va - take_bit 12 va) = unat va - unat va mod 4096"
    by (simp add: unat_sub_u32 word_le_nat_alt)
  then show ?thesis by (simp add: pg_round_down_def PGMASK_mask word_and_not_mask minus_mod_eq_div_mult)
qed

lemma pg_round_up_down: "pg_round_up va = pg_round_down (va + 4095)"
  by (simp add: pg_round_up_def pg_round_down_def PGSIZE_def add.commute)

lemma unat_pg_round_up:
  assumes "unat va + 4095 < 2 ^ 32"
  shows "unat (pg_round_up va) = (unat va + 4095) div 4096 * 4096"
  using assms by (simp add: pg_round_up_down unat_pg_round_down unat_add_u32)

lemma unat_pd_no: "unat (pd_no va) = unat va div 2 ^ 22"
  by (simp add: pd_no_def PDSHIFT_def PTSHIFT_def PGBITS_def PTBITS_def unat_drop_bit)

lemma PTMASK_mask: "PTMASK = push_bit 12 (mask 10)"
  by (simp add: PTMASK_def BITMASK_def PTSHIFT_def PGBITS_def PTBITS_def mask_eq_exp_minus_1 push_bit_eq_mult)

lemma pt_no_take: "pt_no va = take_bit 10 (drop_bit 12 va)"
  by (rule bit_eqI)
    (auto simp: pt_no_def PTMASK_mask PTSHIFT_def PGBITS_def bit_simps)

lemma unat_pt_no: "unat (pt_no va) = unat va div 4096 mod 1024"
  by (simp add: pt_no_take take_bit_eq_mod unat_mod unat_drop_bit)

text \<open>An address is determined by its directory index, table index and offset.\<close>

lemma page_no_split: "n div 4096 = n div 4194304 * 1024 + n div 4096 mod (1024 :: nat)"
proof -
  have "n div 4194304 = n div 4096 div 1024" by (simp flip: div_mult2_eq)
  then show ?thesis by (metis div_mult_mod_eq)
qed

lemma vaddr_split: "unat va = unat (pd_no va) * 2 ^ 22 + unat (pt_no va) * 2 ^ 12 + unat (pg_ofs va)"
proof -
  have "n = (n div 4194304 * 1024 + n div 4096 mod 1024) * 4096 + n mod 4096" for n :: nat
    using page_no_split [of n] by (metis div_mult_mod_eq)
  from this [of "unat va"] show ?thesis
    unfolding unat_pd_no unat_pt_no unat_pg_ofs by (simp add: distrib_right)
qed

lemma same_page: "pd_no a = pd_no b \<Longrightarrow> pt_no a = pt_no b \<Longrightarrow> pg_no a = pg_no b"
  using page_no_split [of "unat a"] page_no_split [of "unat b"]
  by (simp add: u32_eq_iff unat_pd_no unat_pt_no unat_pg_no)

lemma pt_no_bound: "unat (pt_no va) < 1024" and pd_no_bound: "unat (pd_no va) < 1024"
  using unat_u32_bound [of va] by (simp_all add: unat_pt_no unat_pd_no less_mult_imp_div_less)

lemma is_user_pd_no: "is_user_vaddr va \<longleftrightarrow> unat (pd_no va) < 768"
  by (auto simp: is_user_vaddr_def PHYS_BASE_def word_less_nat_alt unat_pd_no)

subsection \<open>Physical addresses\<close>

lemma vtop_ptov: "vtop va = Some p \<Longrightarrow> ptov p = (if unat p < 0xc0000000 then Some va else None)"
  by (auto simp: vtop_def ptov_def PHYS_BASE_def word_less_nat_alt)

lemma ptov_vtop: "unat p < 0x40000000 \<Longrightarrow> \<exists>va. ptov p = Some va \<and> vtop va = Some p \<and> is_kernel_vaddr va"
proof -
  assume p: "unat p < 0x40000000"
  then have "unat (p + 0xc0000000) = unat p + 0xc0000000" by (simp add: unat_add_u32)
  then show ?thesis using p
    by (auto simp: ptov_def vtop_def is_kernel_vaddr_def PHYS_BASE_def word_less_nat_alt word_le_nat_alt)
qed

lemma vtop_bound: "vtop va = Some p \<Longrightarrow> unat p < 0x40000000"
  using unat_u32_bound [of va]
  by (auto simp: vtop_def is_kernel_vaddr_def PHYS_BASE_def word_le_nat_alt unat_sub_u32)

subsection \<open>Entries\<close>

lemma aligned_low_bits: "pg_ofs va = 0 \<Longrightarrow> n < 12 \<Longrightarrow> \<not> bit va n"
proof
  assume a: "pg_ofs va = 0" "n < 12" "bit va n"
  from a(2,3) have "bit (pg_ofs va) n" by (simp add: pg_ofs_def PGMASK_mask bit_and_iff bit_mask_iff)
  with a(1) show False by simp
qed

lemma pg_ofs_vtop: "vtop va = Some p \<Longrightarrow> pg_ofs p = pg_ofs va"
proof -
  assume v: "vtop va = Some p"
  then have "unat p = unat va - 0xc0000000" "0xc0000000 \<le> unat va"
    by (auto simp: vtop_def is_kernel_vaddr_def PHYS_BASE_def word_le_nat_alt unat_sub_u32)
  then have "unat va = unat p + 786432 * 4096" by simp
  then have "unat va mod 4096 = unat p mod 4096" by (simp only: mod_mult_self1)
  then show ?thesis by (simp add: u32_eq_iff unat_pg_ofs)
qed

lemma entry_addr:
  assumes "pg_ofs p = 0" and "f AND NOT (mask 12) = 0"
  shows "(p OR f) AND PTE_ADDR = p"
proof -
  have "p AND NOT (mask 12) = p"
    using assms(1) by (simp add: word_and_not_mask pg_ofs_def PGMASK_mask take_bit_eq_mask)
  then show ?thesis using assms(2) by (simp add: PTE_ADDR_mask word_ao_dist)
qed

lemma entry_flags:
  assumes "pg_ofs p = 0" and "f AND PGMASK = f"
  shows "(p OR g) AND f = g AND f"
proof -
  have "p AND f = (p AND PGMASK) AND f" using assms(2) by (metis and.assoc and.commute)
  then show ?thesis using assms(1) by (simp add: word_ao_dist pg_ofs_def)
qed

lemmas pte_flag_defs = PTE_P_def PTE_W_def PTE_U_def PTE_A_def PTE_D_def

text \<open>A page directory entry gives back the page table, and a page table entry the page and its
  permissions.\<close>

lemma pde_roundtrip:
  assumes "pg_ofs pt = 0" and "is_kernel_vaddr pt"
  shows "\<exists>e. pde_create pt = Some e \<and> e \<noteq> 0 \<and> e AND PTE_P \<noteq> 0 \<and> pde_get_pt e = Some pt"
proof -
  obtain p where p: "vtop pt = Some p" using assms(2) by (auto simp: vtop_def)
  have ofs: "pg_ofs p = 0" using pg_ofs_vtop [OF p] assms(1) by simp
  let ?e = "p OR (PTE_U OR PTE_P OR PTE_W)"
  have "?e AND PTE_P = PTE_P"
    using entry_flags [OF ofs, of PTE_P "PTE_U OR PTE_P OR PTE_W"] by (simp add: pte_flag_defs PGMASK_mask mask_eq_exp_minus_1)
  moreover have "?e AND PTE_ADDR = p"
    by (rule entry_addr [OF ofs]) (simp add: pte_flag_defs mask_eq_exp_minus_1)
  moreover have "ptov p = Some pt" using vtop_ptov [OF p] vtop_bound [OF p] by simp
  ultimately have "?e AND PTE_P \<noteq> 0" "pde_get_pt ?e = Some pt"
    by (simp_all add: pde_get_pt_def PTE_P_def)
  moreover from this(1) have "?e \<noteq> 0" by (metis and_zero_eq and.commute)
  ultimately show ?thesis using p assms(1) by (simp add: pde_create_def or.assoc)
qed

lemma pte_roundtrip:
  assumes "pg_ofs page = 0" and "is_kernel_vaddr page"
  shows "\<exists>e. pte_create_user page w = Some e \<and> e AND PTE_P \<noteq> 0 \<and> e AND PTE_U \<noteq> 0 \<and>
    (e AND PTE_W \<noteq> 0 \<longleftrightarrow> w) \<and> e AND PTE_D = 0 \<and> e AND PTE_A = 0 \<and> pte_get_page e = Some page"
proof -
  obtain p where p: "vtop page = Some p" using assms(2) by (auto simp: vtop_def)
  have ofs: "pg_ofs p = 0" using pg_ofs_vtop [OF p] assms(1) by simp
  let ?f = "PTE_P OR (if w then PTE_W else 0) OR PTE_U"
  have fl: "(p OR ?f) AND g = ?f AND g" if "g AND PGMASK = g" for g
    by (rule entry_flags [OF ofs that])
  have "(p OR ?f) AND PTE_ADDR = p"
    by (rule entry_addr [OF ofs]) (simp add: pte_flag_defs mask_eq_exp_minus_1)
  moreover have "ptov p = Some page" using vtop_ptov [OF p] vtop_bound [OF p] by simp
  ultimately have "pte_get_page (p OR ?f) = Some page" by (simp add: pte_get_page_def)
  moreover have "pte_create_user page w = Some (p OR ?f)"
    using p assms(1) by (simp add: pte_create_user_def pte_create_kernel_def or.assoc)
  ultimately show ?thesis
    using fl [of PTE_P] fl [of PTE_U] fl [of PTE_W] fl [of PTE_D] fl [of PTE_A]
    by (simp add: pte_flag_defs PGMASK_mask mask_eq_exp_minus_1)
qed

end
