(* ===== verification/Thread.thy ===== *)
theory Thread
  imports Runqueue Klist Vaddr
begin

section \<open>Threads and the scheduler (threads/thread.c)\<close>

text \<open>
  The state of the scheduler is the table of thread structures by address, the running thread, the
  run queue, the list of all threads, the interrupt level and the counters of thread.c. A function
  that ends in a switch to another thread is translated up to the point where the other thread runs;
  the interrupt level a thread restores when it runs again, which its suspended call holds in a
  local variable, is kept in the thread. A failing assertion or an access to a page that holds no
  thread is \<^term>\<open>None\<close>.
\<close>

subsection \<open>State\<close>

datatype thread_status = THREAD_RUNNING | THREAD_READY | THREAD_BLOCKED | THREAD_DYING

definition THREAD_MAGIC :: u32 where "THREAD_MAGIC = 0xcd6abf4b"

definition TID_ERROR :: int where "TID_ERROR = - 1"

record thread =
  tid :: int
  status :: thread_status
  name :: string
  stack :: u32
  priority :: int
  timeslice :: u32
  next_fd :: int
  exited_by_exit_call :: bool
  exit_status :: int
  is_userprog :: bool
  parent :: ptr
  mmid :: u32
  magic :: u32
  kf_function :: ptr
  kf_aux :: ptr
  resume_level :: bool

record kernel =
  threads :: "ptr \<Rightarrow> thread option"
  running :: ptr
  idle_thread :: ptr
  initial_thread :: ptr
  run_queue :: "ptr runqueue"
  all_list :: "ptr list"
  next_tid :: int
  thread_ticks :: u32
  idle_ticks :: u64
  kernel_ticks :: u64
  user_ticks :: u64
  intr_on :: bool
  in_external_intr :: bool
  yield_on_return :: bool
  freed_pages :: "ptr list"

definition is_thread :: "kernel \<Rightarrow> ptr \<Rightarrow> bool" where
  "is_thread k t \<longleftrightarrow> t \<noteq> 0 \<and> (case threads k t of None \<Rightarrow> False | Some th \<Rightarrow> magic th = THREAD_MAGIC)"

definition upd_thread :: "kernel \<Rightarrow> ptr \<Rightarrow> (thread \<Rightarrow> thread) \<Rightarrow> kernel option" where
  "upd_thread k t f = do { th \<leftarrow> threads k t; Some (k\<lparr>threads := (threads k)(t \<mapsto> f th)\<rparr>) }"

definition thread_current :: "kernel \<Rightarrow> (ptr \<times> thread) option" where
  "thread_current k = do {
     kassert (is_thread k (running k));
     th \<leftarrow> threads k (running k);
     kassert (status th = THREAD_RUNNING);
     Some (running k, th)
   }"

subsection \<open>Creation of threads\<close>

text \<open>The thread's name is cut to 15 characters, as \<^verbatim>\<open>strlcpy\<close> does.\<close>

definition init_thread :: "kernel \<Rightarrow> ptr \<Rightarrow> string \<Rightarrow> int \<Rightarrow> kernel option" where
  "init_thread k t nm pri = do {
     kassert (t \<noteq> 0);
     kassert (PRI_MIN \<le> pri \<and> pri \<le> PRI_MAX);
     let par = (case threads k (running k) of
                  Some r \<Rightarrow> if magic r = THREAD_MAGIC then running k else 0
                | None \<Rightarrow> 0);
     let th = \<lparr>tid = 0, status = THREAD_BLOCKED, name = take 15 nm, stack = t + PGSIZE, priority = pri,
               timeslice = of_int (pri + 5), next_fd = 2, exited_by_exit_call = False,
               exit_status = - 1, is_userprog = False, parent = par, mmid = 0,
               magic = THREAD_MAGIC, kf_function = 0, kf_aux = 0, resume_level = True\<rparr>;
     Some (k\<lparr>threads := (threads k)(t \<mapsto> th), all_list := all_list k @ [t]\<rparr>)
   }"

definition allocate_tid :: "kernel \<Rightarrow> int \<times> kernel" where
  "allocate_tid k = (next_tid k, k\<lparr>next_tid := next_tid k + 1\<rparr>)"

definition alloc_frame :: "kernel \<Rightarrow> ptr \<Rightarrow> u32 \<Rightarrow> (u32 \<times> kernel) option" where
  "alloc_frame k t sz = do {
     kassert (is_thread k t);
     kassert (sz mod 4 = 0);
     th \<leftarrow> threads k t;
     k \<leftarrow> upd_thread k t (\<lambda>th. th\<lparr>stack := stack th - sz\<rparr>);
     Some (stack th - sz, k)
   }"

definition thread_init :: "kernel \<Rightarrow> kernel option" where
  "thread_init k = do {
     kassert (\<not> intr_on k);
     let k = k\<lparr>all_list := [], initial_thread := running k\<rparr>;
     k \<leftarrow> init_thread k (running k) ''main'' PRI_DEFAULT;
     let (new_tid, k) = allocate_tid k;
     upd_thread k (running k) (\<lambda>th. th\<lparr>status := THREAD_RUNNING, tid := new_tid\<rparr>)
   }"

subsection \<open>Switching threads\<close>

definition next_thread_to_run :: "kernel \<Rightarrow> (ptr \<times> kernel) option" where
  "next_thread_to_run k =
     (if runqueue_empty (run_queue k) then Some (idle_thread k, k)
      else map_option (\<lambda>(t, rq). (t, k\<lparr>run_queue := rq\<rparr>)) (runqueue_pick (run_queue k)))"

definition schedule_tail :: "kernel \<Rightarrow> ptr option \<Rightarrow> kernel option" where
  "schedule_tail k prev = do {
     kassert (\<not> intr_on k);
     k \<leftarrow> upd_thread k (running k) (\<lambda>th. th\<lparr>status := THREAD_RUNNING\<rparr>);
     let k = k\<lparr>thread_ticks := 0\<rparr>;
     case prev of
       None \<Rightarrow> Some k
     | Some p \<Rightarrow> do {
         th \<leftarrow> threads k p;
         if status th = THREAD_DYING \<and> p \<noteq> initial_thread k
         then do {
           kassert (p \<noteq> running k);
           Some (k\<lparr>threads := (threads k)(p := None), freed_pages := p # freed_pages k\<rparr>)
         }
         else Some k
       }
   }"

definition schedule :: "kernel \<Rightarrow> kernel option" where
  "schedule k = do {
     let cur = running k;
     (nxt, k) \<leftarrow> next_thread_to_run k;
     kassert (\<not> intr_on k);
     c \<leftarrow> threads k cur;
     kassert (status c \<noteq> THREAD_RUNNING);
     kassert (is_thread k nxt);
     if cur \<noteq> nxt then schedule_tail (k\<lparr>running := nxt\<rparr>) (Some cur) else schedule_tail k None
   }"

text \<open>The thread switched to returns from its own call, which restores its interrupt level.\<close>

definition continue_running :: "kernel \<Rightarrow> kernel option" where
  "continue_running k = do { th \<leftarrow> threads k (running k); Some (k\<lparr>intr_on := resume_level th\<rparr>) }"

definition thread_block :: "kernel \<Rightarrow> kernel option" where
  "thread_block k = do {
     kassert (\<not> in_external_intr k);
     kassert (\<not> intr_on k);
     (cur, _) \<leftarrow> thread_current k;
     k \<leftarrow> upd_thread k cur (\<lambda>th. th\<lparr>status := THREAD_BLOCKED, resume_level := False\<rparr>);
     k \<leftarrow> schedule k;
     continue_running k
   }"

definition yield_to_scheduler :: "kernel \<Rightarrow> bool \<Rightarrow> kernel option" where
  "yield_to_scheduler k old_level = do {
     (cur, th) \<leftarrow> thread_current k;
     kassert (\<not> in_external_intr k);
     let k = k\<lparr>intr_on := False\<rparr>;
     k \<leftarrow> (if cur \<noteq> idle_thread k
           then map_option (\<lambda>rq. k\<lparr>run_queue := rq\<rparr>) (active_insert (run_queue k) (priority th) cur)
           else Some k);
     k \<leftarrow> upd_thread k cur (\<lambda>th. th\<lparr>status := THREAD_READY, resume_level := old_level\<rparr>);
     k \<leftarrow> schedule k;
     continue_running k
   }"

definition thread_yield :: "kernel \<Rightarrow> kernel option" where
  "thread_yield k = yield_to_scheduler k (intr_on k)"

text \<open>\<^verbatim>\<open>thread_unblock\<close> may call \<^verbatim>\<open>thread_yield\<close>; when the caller runs again it restores the interrupt
  level it had before.\<close>

definition thread_unblock :: "kernel \<Rightarrow> ptr \<Rightarrow> kernel option" where
  "thread_unblock k t = do {
     kassert (is_thread k t);
     let old_level = intr_on k;
     let k = k\<lparr>intr_on := False\<rparr>;
     th \<leftarrow> threads k t;
     kassert (status th = THREAD_BLOCKED);
     rq \<leftarrow> active_insert (run_queue k) (priority th) t;
     k \<leftarrow> upd_thread (k\<lparr>run_queue := rq\<rparr>) t (\<lambda>th. th\<lparr>status := THREAD_READY\<rparr>);
     (cur, c) \<leftarrow> thread_current k;
     if cur \<noteq> idle_thread k \<and> priority th > priority c
     then yield_to_scheduler k old_level
     else Some (k\<lparr>intr_on := old_level\<rparr>)
   }"

text \<open>The part of \<^verbatim>\<open>thread_exit\<close> after \<^verbatim>\<open>process_exit\<close>.\<close>

definition thread_exit :: "kernel \<Rightarrow> kernel option" where
  "thread_exit k = do {
     kassert (\<not> in_external_intr k);
     let k = k\<lparr>intr_on := False\<rparr>;
     (cur, _) \<leftarrow> thread_current k;
     kassert (cur \<in> set (all_list k));
     let k = k\<lparr>all_list := remove1 cur (all_list k)\<rparr>;
     k \<leftarrow> upd_thread k cur (\<lambda>th. th\<lparr>status := THREAD_DYING\<rparr>);
     k \<leftarrow> schedule k;
     kassert (running k \<noteq> cur);
     continue_running k
   }"

text \<open>The page \<open>t\<close> is what \<^verbatim>\<open>palloc_get_page\<close> returned, 0 when there is none.\<close>

definition thread_create :: "kernel \<Rightarrow> string \<Rightarrow> int \<Rightarrow> ptr \<Rightarrow> ptr \<Rightarrow> ptr \<Rightarrow> (int \<times> kernel) option" where
  "thread_create k nm pri function aux t = do {
     kassert (function \<noteq> 0);
     if t = 0 then Some (TID_ERROR, k)
     else do {
       k \<leftarrow> init_thread k t nm pri;
       let (new_tid, k) = allocate_tid k;
       k \<leftarrow> upd_thread k t (\<lambda>th. th\<lparr>tid := new_tid\<rparr>);
       (kf, k) \<leftarrow> alloc_frame k t 12;
       k \<leftarrow> upd_thread k t (\<lambda>th. th\<lparr>kf_function := function, kf_aux := aux\<rparr>);
       (ef, k) \<leftarrow> alloc_frame k t 4;
       (sf, k) \<leftarrow> alloc_frame k t 28;
       k \<leftarrow> thread_unblock k t;
       Some (new_tid, k)
     }
   }"

subsection \<open>Ticks, priorities, time slices\<close>

definition thread_tick :: "kernel \<Rightarrow> bool \<Rightarrow> kernel option" where
  "thread_tick k has_pagedir = do {
     (t, th) \<leftarrow> thread_current k;
     let k = (if t = idle_thread k then k\<lparr>idle_ticks := idle_ticks k + 1\<rparr>
              else if has_pagedir then k\<lparr>user_ticks := user_ticks k + 1\<rparr>
              else k\<lparr>kernel_ticks := kernel_ticks k + 1\<rparr>);
     let k = k\<lparr>thread_ticks := thread_ticks k + 1\<rparr>;
     if thread_ticks k \<ge> timeslice th
     then do { kassert (in_external_intr k); Some (k\<lparr>yield_on_return := True\<rparr>) }
     else Some k
   }"

definition thread_set_priority :: "kernel \<Rightarrow> int \<Rightarrow> kernel option" where
  "thread_set_priority k new_priority = do {
     (cur, _) \<leftarrow> thread_current k;
     upd_thread k cur (\<lambda>th. th\<lparr>priority := new_priority\<rparr>)
   }"

definition thread_get_priority :: "kernel \<Rightarrow> int option" where
  "thread_get_priority k = do { (_, th) \<leftarrow> thread_current k; Some (priority th) }"

definition thread_name :: "kernel \<Rightarrow> string option" where
  "thread_name k = do { (_, th) \<leftarrow> thread_current k; Some (name th) }"

definition thread_tid :: "kernel \<Rightarrow> int option" where
  "thread_tid k = do { (_, th) \<leftarrow> thread_current k; Some (tid th) }"

fun foreach_loop :: "(ptr \<Rightarrow> kernel \<Rightarrow> kernel option) \<Rightarrow> ptr list \<Rightarrow> kernel \<Rightarrow> kernel option" where
  "foreach_loop func [] k = Some k"
| "foreach_loop func (t # ts) k = do { k \<leftarrow> func t k; foreach_loop func ts k }"

definition thread_foreach :: "(ptr \<Rightarrow> kernel \<Rightarrow> kernel option) \<Rightarrow> kernel \<Rightarrow> kernel option" where
  "thread_foreach func k = do { kassert (\<not> intr_on k); foreach_loop func (all_list k) k }"

definition recompute_tslice :: "kernel \<Rightarrow> ptr \<Rightarrow> kernel option" where
  "recompute_tslice k t = upd_thread k t (\<lambda>th. th\<lparr>timeslice := of_int (priority th + 5)\<rparr>)"

definition expired_insert :: "kernel \<Rightarrow> ptr \<Rightarrow> kernel option" where
  "expired_insert k t = do {
     k \<leftarrow> recompute_tslice k t;
     th \<leftarrow> threads k t;
     a \<leftarrow> prioarr_insert (expired (run_queue k)) (priority th) t;
     Some (k\<lparr>run_queue := (run_queue k)\<lparr>expired := a\<rparr>\<rparr>)
   }"

subsection \<open>The invariant of the scheduler\<close>

text \<open>
  The run queue holds exactly the threads in state ready, each in the list of its priority and only
  once; the idle thread is never in it. The first predicate leaves open which thread is running,
  as is the case inside \<^verbatim>\<open>schedule\<close>.
\<close>

definition queue_ok :: "kernel \<Rightarrow> bool" where
  "queue_ok k \<longleftrightarrow> runqueue_ok (run_queue k) \<and>
     (\<forall>t th. threads k t = Some th \<longrightarrow>
        t \<noteq> 0 \<and> magic th = THREAD_MAGIC \<and> 0 \<le> priority th \<and> priority th \<le> 63) \<and>
     (\<forall>p. distinct (ready_at (run_queue k) p)) \<and>
     (\<forall>t p. t \<in> set (ready_at (run_queue k) p) \<longleftrightarrow>
        (\<exists>th. threads k t = Some th \<and> status th = THREAD_READY \<and> priority th = int p \<and>
           t \<noteq> idle_thread k)) \<and>
     (\<exists>th. threads k (idle_thread k) = Some th \<and> status th \<noteq> THREAD_DYING)"

definition sched_ok :: "kernel \<Rightarrow> bool" where
  "sched_ok k \<longleftrightarrow> queue_ok k \<and>
     (\<forall>t th. threads k t = Some th \<longrightarrow> (status th = THREAD_RUNNING \<longleftrightarrow> t = running k)) \<and>
     threads k (running k) \<noteq> None"

lemma queue_ok_thread:
  assumes "queue_ok k" and "threads k t = Some th"
  shows "t \<noteq> 0" and "magic th = THREAD_MAGIC" and "0 \<le> priority th" and "priority th \<le> 63"
    and "is_thread k t"
proof -
  show th: "t \<noteq> 0" "magic th = THREAD_MAGIC" "0 \<le> priority th" "priority th \<le> 63"
    using assms by (auto simp: queue_ok_def)
  then show "is_thread k t" using assms(2) by (simp add: is_thread_def)
qed

lemma queue_ok_mem:
  assumes "queue_ok k"
  shows "t \<in> set (ready_at (run_queue k) p) \<longleftrightarrow>
    (\<exists>th. threads k t = Some th \<and> status th = THREAD_READY \<and> priority th = int p \<and> t \<noteq> idle_thread k)"
  using assms by (simp add: queue_ok_def)

lemma sched_ok_running:
  assumes "sched_ok k"
  shows "\<exists>c. threads k (running k) = Some c \<and> status c = THREAD_RUNNING \<and>
    thread_current k = Some (running k, c)"
proof -
  obtain c where c: "threads k (running k) = Some c" "status c = THREAD_RUNNING"
    using assms by (auto simp: sched_ok_def)
  moreover have "is_thread k (running k)"
    using assms c(1) by (auto simp: sched_ok_def intro: queue_ok_thread)
  ultimately show ?thesis by (simp add: thread_current_def)
qed

text \<open>The thread the scheduler takes: the first of the highest priority, or the idle thread.\<close>

definition picks :: "kernel \<Rightarrow> ptr \<Rightarrow> (nat \<Rightarrow> ptr list) \<Rightarrow> bool" where
  "picks k t rest \<longleftrightarrow>
     (if \<forall>p. ready_at (run_queue k) p = [] then t = idle_thread k \<and> rest = ready_at (run_queue k)
      else \<exists>p ts. ready_at (run_queue k) p = t # ts \<and> (\<forall>p'. p < p' \<longrightarrow> ready_at (run_queue k) p' = []) \<and>
             rest = (ready_at (run_queue k))(p := ts))"

lemma next_thread_to_run_ok:
  assumes "queue_ok k"
  shows "\<exists>t rq. next_thread_to_run k = Some (t, k\<lparr>run_queue := rq\<rparr>) \<and> runqueue_ok rq \<and>
     picks k t (ready_at rq) \<and> is_thread k t \<and>
     (\<exists>th. threads k t = Some th \<and> status th \<noteq> THREAD_DYING)"
proof -
  have rq: "runqueue_ok (run_queue k)" using assms by (simp add: queue_ok_def)
  show ?thesis
  proof (cases "runqueue_empty (run_queue k)")
    case True
    then have "\<forall>p. ready_at (run_queue k) p = []" using rq.emp_law [OF rq] by simp
    moreover obtain th where "threads k (idle_thread k) = Some th" "status th \<noteq> THREAD_DYING"
      using assms by (auto simp: queue_ok_def)
    ultimately show ?thesis
      using True rq assms
      by (auto simp: next_thread_to_run_def picks_def intro!: exI [of _ "run_queue k"]
          queue_ok_thread(5))
  next
    case False
    obtain p t ts q where q: "ready_at (run_queue k) p = t # ts"
      "\<forall>p'. p < p' \<longrightarrow> ready_at (run_queue k) p' = []"
      "runqueue_pick (run_queue k) = Some (t, q)" "runqueue_ok q"
      "ready_at q = (ready_at (run_queue k))(p := ts)"
      using rq.rem_law [OF rq False] by blast
    then obtain th where th: "threads k t = Some th" "status th = THREAD_READY"
      using queue_ok_mem [OF assms, of t p] by auto
    have "picks k t (ready_at q)" using q by (auto simp: picks_def)
    with False q th show ?thesis
      using queue_ok_thread(5) [OF assms th(1)] by (auto simp: next_thread_to_run_def)
  qed
qed

lemma picks_mem:
  assumes "queue_ok k" and "picks k t rest"
  shows "u \<in> set (rest p) \<longleftrightarrow> u \<in> set (ready_at (run_queue k) p) \<and> u \<noteq> t" and "distinct (rest p)"
proof -
  have dist: "\<And>p. distinct (ready_at (run_queue k) p)" using assms(1) by (simp add: queue_ok_def)
  have one: "q = p" if "u \<in> set (ready_at (run_queue k) p)" "u \<in> set (ready_at (run_queue k) q)" for p q u
    using that by (auto simp: queue_ok_mem [OF assms(1)])
  show "u \<in> set (rest p) \<longleftrightarrow> u \<in> set (ready_at (run_queue k) p) \<and> u \<noteq> t"
  proof (cases "\<forall>p. ready_at (run_queue k) p = []")
    case True
    then show ?thesis using assms(2) by (simp add: picks_def)
  next
    case False
    then obtain q ts where q: "ready_at (run_queue k) q = t # ts" "rest = (ready_at (run_queue k))(q := ts)"
      using assms(2) [unfolded picks_def if_not_P [OF False]] by blast
    show ?thesis
    proof (cases "p = q")
      case True
      then show ?thesis using q dist [of q] by auto
    next
      case False
      then have "t \<notin> set (ready_at (run_queue k) p)" using one [of t p q] q(1) by auto
      then show ?thesis using q False by auto
    qed
  qed
  show "distinct (rest p)"
  proof (cases "\<forall>p. ready_at (run_queue k) p = []")
    case False
    then obtain q ts where q: "ready_at (run_queue k) q = t # ts" "rest = (ready_at (run_queue k))(q := ts)"
      using assms(2) [unfolded picks_def if_not_P [OF False]] by blast
    then show ?thesis using dist [of p] dist [of q] by auto
  qed (use assms(2) in \<open>simp add: picks_def\<close>)
qed

text \<open>The state after a switch from \<open>cur\<close> to \<open>t\<close>.\<close>

definition switched :: "kernel \<Rightarrow> ptr \<Rightarrow> ptr runqueue \<Rightarrow> kernel" where
  "switched k t rq =
    (let cur = running k; k1 = k\<lparr>running := t, run_queue := rq, thread_ticks := 0,
           threads := (threads k)(t := map_option (\<lambda>th. th\<lparr>status := THREAD_RUNNING\<rparr>) (threads k t))\<rparr>
     in if cur \<noteq> t \<and> (\<exists>th. threads k cur = Some th \<and> status th = THREAD_DYING) \<and> cur \<noteq> initial_thread k
        then k1\<lparr>threads := (threads k1)(cur := None), freed_pages := cur # freed_pages k\<rparr> else k1)"

lemma schedule_ok:
  assumes ok: "queue_ok k" and off: "\<not> intr_on k"
    and cur: "threads k (running k) = Some c" "status c \<noteq> THREAD_RUNNING"
  shows "\<exists>t rq. schedule k = Some (switched k t rq) \<and> runqueue_ok rq \<and> picks k t (ready_at rq) \<and>
     (\<exists>th. threads k t = Some th \<and> status th \<noteq> THREAD_DYING)"
proof -
  obtain t rq th where t: "next_thread_to_run k = Some (t, k\<lparr>run_queue := rq\<rparr>)" "runqueue_ok rq"
    "picks k t (ready_at rq)" "is_thread k t" "threads k t = Some th" "status th \<noteq> THREAD_DYING"
    using next_thread_to_run_ok [OF ok] by blast
  have "is_thread (k\<lparr>run_queue := rq\<rparr>) t" using t(4) by (simp add: is_thread_def)
  then have "schedule k = Some (switched k t rq)"
    using t off cur
    by (auto simp: schedule_def schedule_tail_def upd_thread_def switched_def Let_def)
  with t show ?thesis by blast
qed

lemma switched_ok:
  assumes ok: "queue_ok k" and none: "\<And>t th. threads k t = Some th \<Longrightarrow> status th \<noteq> THREAD_RUNNING"
    and rq: "runqueue_ok rq" "picks k t (ready_at rq)"
    and t: "threads k t = Some th" "status th \<noteq> THREAD_DYING"
  shows "sched_ok (switched k t rq)"
proof -
  let ?k = "switched k t rq"
  have thr: "threads ?k u = Some v \<longleftrightarrow>
      (if u = t then v = th\<lparr>status := THREAD_RUNNING\<rparr>
       else threads k u = Some v \<and> \<not> (u = running k \<and> status v = THREAD_DYING \<and> u \<noteq> initial_thread k))" for u v
    using t by (auto simp: switched_def Let_def)
  have sel: "running ?k = t" "run_queue ?k = rq" "idle_thread ?k = idle_thread k"
    by (simp_all add: switched_def Let_def)
  have "u \<in> set (ready_at rq p) \<longleftrightarrow> (\<exists>v. threads ?k u = Some v \<and> status v = THREAD_READY \<and>
      priority v = int p \<and> u \<noteq> idle_thread k)" for u p
    using picks_mem(1) [OF ok rq(2)] queue_ok_mem [OF ok] by (auto simp: thr)
  moreover have "\<exists>v. threads ?k (idle_thread k) = Some v \<and> status v \<noteq> THREAD_DYING"
  proof -
    obtain i where "threads k (idle_thread k) = Some i" "status i \<noteq> THREAD_DYING"
      using ok by (auto simp: queue_ok_def)
    then show ?thesis by (cases "idle_thread k = t") (auto simp: thr)
  qed
  moreover have "u \<noteq> 0 \<and> magic v = THREAD_MAGIC \<and> 0 \<le> priority v \<and> priority v \<le> 63"
    if "threads ?k u = Some v" for u v
    using that queue_ok_thread [OF ok] t(1) by (auto simp: thr split: if_splits)
  ultimately have "queue_ok ?k"
    using rq(1) picks_mem(2) [OF ok rq(2)] by (simp add: queue_ok_def sel)
  then show ?thesis
    using none by (auto simp: sched_ok_def sel thr split: if_splits)
qed

text \<open>No ready thread has a higher priority than the running one; the idle thread runs when none is
  ready.\<close>

definition top_priority :: "kernel \<Rightarrow> bool" where
  "top_priority k \<longleftrightarrow> (\<exists>c. threads k (running k) = Some c \<and>
     (\<forall>p. ready_at (run_queue k) p \<noteq> [] \<longrightarrow> running k \<noteq> idle_thread k \<and> int p \<le> priority c))"

lemma intr_on_irrelevant [simp]:
  "sched_ok (k\<lparr>intr_on := b\<rparr>) = sched_ok k" "queue_ok (k\<lparr>intr_on := b\<rparr>) = queue_ok k"
  "top_priority (k\<lparr>intr_on := b\<rparr>) = top_priority k"
  by (simp_all add: sched_ok_def queue_ok_def top_priority_def)

lemma top_priority_switched:
  assumes ok: "queue_ok k" and rq: "picks k t (ready_at rq)" and t: "threads k t = Some th"
  shows "top_priority (switched k t rq)"
proof -
  have sel: "running (switched k t rq) = t" "run_queue (switched k t rq) = rq"
    "idle_thread (switched k t rq) = idle_thread k"
    "threads (switched k t rq) t = Some (th\<lparr>status := THREAD_RUNNING\<rparr>)"
    using t by (auto simp: switched_def Let_def)
  have "t \<noteq> idle_thread k \<and> int p \<le> priority th" if p: "ready_at rq p \<noteq> []" for p
  proof -
    have "\<not> (\<forall>p. ready_at (run_queue k) p = [])"
      using p rq by (auto simp: picks_def split: if_splits)
    then obtain q ts where q: "ready_at (run_queue k) q = t # ts"
      "\<forall>p'. q < p' \<longrightarrow> ready_at (run_queue k) p' = []" "ready_at rq = (ready_at (run_queue k))(q := ts)"
      using rq [unfolded picks_def] by (metis (no_types, lifting))
    have "p \<le> q" using p q(2,3) by (metis fun_upd_other leI less_irrefl)
    moreover have "t \<noteq> idle_thread k \<and> priority th = int q"
      using queue_ok_mem [OF ok, of t q] q(1) t by auto
    ultimately show ?thesis by simp
  qed
  then show ?thesis by (simp add: top_priority_def sel)
qed

text \<open>What the scheduler does to a state \<open>k\<close> in which no thread is running.\<close>

definition handed_over :: "kernel \<Rightarrow> kernel \<Rightarrow> bool" where
  "handed_over k k' \<longleftrightarrow> (\<exists>t rq th. k' = (switched k t rq)\<lparr>intr_on := resume_level th\<rparr> \<and>
     threads k t = Some th \<and> status th \<noteq> THREAD_DYING \<and> runqueue_ok rq \<and> picks k t (ready_at rq) \<and>
     queue_ok k \<and> sched_ok k' \<and> top_priority k')"

lemma run_scheduler:
  assumes ok: "queue_ok k" and off: "\<not> intr_on k"
    and none: "\<And>t th. threads k t = Some th \<Longrightarrow> status th \<noteq> THREAD_RUNNING"
    and cur: "threads k (running k) = Some c"
  shows "\<exists>k'. do { k \<leftarrow> schedule k; continue_running k } = Some k' \<and> handed_over k k'"
proof -
  obtain t rq th where t: "schedule k = Some (switched k t rq)" "runqueue_ok rq" "picks k t (ready_at rq)"
    "threads k t = Some th" "status th \<noteq> THREAD_DYING"
    using schedule_ok [OF ok off cur none [OF cur]] by blast
  have "continue_running (switched k t rq) = Some ((switched k t rq)\<lparr>intr_on := resume_level th\<rparr>)"
    using t(4) by (auto simp: continue_running_def switched_def Let_def)
  moreover have "sched_ok (switched k t rq)"
    by (rule switched_ok [OF ok _ t(2,3,4,5)]) (rule none)
  ultimately show ?thesis
    using t ok top_priority_switched [OF ok t(3,4)] by (auto simp: handed_over_def)
qed

lemma switched_sel [simp]:
  "running (switched k t rq) = t" "run_queue (switched k t rq) = rq"
  "idle_thread (switched k t rq) = idle_thread k" "all_list (switched k t rq) = all_list k"
  "initial_thread (switched k t rq) = initial_thread k" "next_tid (switched k t rq) = next_tid k"
  "in_external_intr (switched k t rq) = in_external_intr k" "intr_on (switched k t rq) = intr_on k"
  by (simp_all add: switched_def Let_def)

lemma handed_over_running:
  assumes "handed_over k k'"
  shows "\<exists>th. threads k (running k') = Some th \<and> status th \<noteq> THREAD_DYING"
    and "sched_ok k'" and "top_priority k'" and "idle_thread k' = idle_thread k"
    and "in_external_intr k' = in_external_intr k" and "all_list k' = all_list k"
  using assms by (auto simp: handed_over_def)

lemma handed_over_thread:
  assumes "handed_over k k'" and "threads k u = Some v" and "status v \<noteq> THREAD_DYING"
  shows "threads k' u = Some (if u = running k' then v\<lparr>status := THREAD_RUNNING\<rparr> else v)"
proof -
  obtain t rq and th :: thread where "k' = (switched k t rq)\<lparr>intr_on := resume_level th\<rparr>"
    using assms(1) unfolding handed_over_def by blast
  then show ?thesis using assms(2,3) by (auto simp: switched_def Let_def)
qed

lemma handed_over_frame:
  assumes "handed_over k k'" and "u \<noteq> running k'" and "u \<noteq> running k"
  shows "threads k' u = threads k u"
proof -
  obtain t rq and th :: thread where k': "k' = (switched k t rq)\<lparr>intr_on := resume_level th\<rparr>"
    using assms(1) unfolding handed_over_def by blast
  have "u \<noteq> t" using assms(2) by (simp add: k')
  then have "threads (switched k t rq) u = threads k u" using assms(3) by (simp add: switched_def Let_def)
  then show ?thesis by (simp add: k')
qed

lemma handed_over_intr:
  assumes "handed_over k k'" and "threads k (running k') = Some th"
  shows "intr_on k' = resume_level th"
proof -
  obtain t rq and v :: thread where "k' = (switched k t rq)\<lparr>intr_on := resume_level v\<rparr>" "threads k t = Some v"
    using assms(1) unfolding handed_over_def by blast
  then show ?thesis using assms(2) by auto
qed

text \<open>A waiting thread stays as it is when the scheduler runs.\<close>

lemma handed_over_blocked:
  assumes "handed_over k k'" and "threads k u = Some v" and "status v = THREAD_BLOCKED"
    and "u \<noteq> idle_thread k"
  shows "threads k' u = Some v" and "running k' \<noteq> u"
proof -
  obtain rest where "picks k (running k') rest" and q: "queue_ok k"
    using assms(1) by (auto simp: handed_over_def)
  then have "running k' = idle_thread k \<or> (\<exists>p. running k' \<in> set (ready_at (run_queue k) p))"
    by (auto simp: picks_def split: if_splits) (metis list.set_intros(1))
  then show "running k' \<noteq> u" using assms(2-4) by (auto simp: queue_ok_mem [OF q])
  then show "threads k' u = Some v" using handed_over_thread [OF assms(1,2)] assms(3) by simp
qed

text \<open>A thread gives up the processor: the state before the scheduler runs.\<close>

definition descheduled :: "kernel \<Rightarrow> thread_status \<Rightarrow> bool \<Rightarrow> ptr runqueue \<Rightarrow> kernel" where
  "descheduled k s lvl rq = k\<lparr>intr_on := False, run_queue := rq,
     threads := (threads k)(running k :=
       map_option (\<lambda>th. th\<lparr>status := s, resume_level := lvl\<rparr>) (threads k (running k)))\<rparr>"

lemma descheduled_blocked:
  assumes "sched_ok k" and "s = THREAD_BLOCKED \<or> s = THREAD_DYING \<and> running k \<noteq> idle_thread k"
  shows "queue_ok (descheduled k s lvl (run_queue k))"
    and "threads (descheduled k s lvl (run_queue k)) t = Some th \<Longrightarrow> status th \<noteq> THREAD_RUNNING"
proof -
  obtain c where c: "threads k (running k) = Some c" "status c = THREAD_RUNNING"
    using sched_ok_running [OF assms(1)] by blast
  have ok: "queue_ok k" using assms(1) by (simp add: sched_ok_def)
  show "queue_ok (descheduled k s lvl (run_queue k))"
    using ok c assms(2) unfolding queue_ok_def descheduled_def by auto
  show "threads (descheduled k s lvl (run_queue k)) t = Some th \<Longrightarrow> status th \<noteq> THREAD_RUNNING"
    using assms c by (auto simp: sched_ok_def descheduled_def split: if_splits)
qed

lemma descheduled_ready:
  assumes "sched_ok k" and "threads k (running k) = Some c"
  shows "\<exists>rq. (if running k \<noteq> idle_thread k then active_insert (run_queue k) (priority c) (running k)
              else Some (run_queue k)) = Some rq \<and>
     queue_ok (descheduled k THREAD_READY lvl rq) \<and>
     ready_at rq = (if running k \<noteq> idle_thread k
        then (ready_at (run_queue k))(nat (priority c) := ready_at (run_queue k) (nat (priority c)) @ [running k])
        else ready_at (run_queue k))"
    and "threads (descheduled k THREAD_READY lvl rq) t = Some th \<Longrightarrow> status th \<noteq> THREAD_RUNNING"
proof -
  have run: "status c = THREAD_RUNNING" using assms by (auto simp: sched_ok_def)
  have ok: "queue_ok k" using assms(1) by (simp add: sched_ok_def)
  note pr = queue_ok_thread [OF ok assms(2)]
  have notin: "running k \<notin> set (ready_at (run_queue k) p)" for p
    using assms(2) run by (simp add: queue_ok_mem [OF ok])
  show "\<exists>rq. (if running k \<noteq> idle_thread k then active_insert (run_queue k) (priority c) (running k)
              else Some (run_queue k)) = Some rq \<and>
     queue_ok (descheduled k THREAD_READY lvl rq) \<and>
     ready_at rq = (if running k \<noteq> idle_thread k
        then (ready_at (run_queue k))(nat (priority c) := ready_at (run_queue k) (nat (priority c)) @ [running k])
        else ready_at (run_queue k))"
  proof (cases "running k = idle_thread k")
    case True
    then show ?thesis
      using ok assms(2) run unfolding queue_ok_def descheduled_def by auto
  next
    case False
    obtain rq where rq: "active_insert (run_queue k) (priority c) (running k) = Some rq" "runqueue_ok rq"
      "ready_at rq = (ready_at (run_queue k))
         (nat (priority c) := ready_at (run_queue k) (nat (priority c)) @ [running k])"
      using rq.ins_law [OF _ pr(3,4), of "run_queue k" "running k"] ok by (auto simp: queue_ok_def)
    have "queue_ok (descheduled k THREAD_READY lvl rq)"
      using ok assms(2) run notin False pr rq(2) unfolding queue_ok_def descheduled_def
      by (auto simp: rq(3))
    with False rq show ?thesis by simp
  qed
  show "threads (descheduled k THREAD_READY lvl rq) t = Some th \<Longrightarrow> status th \<noteq> THREAD_RUNNING"
    using assms run by (auto simp: sched_ok_def descheduled_def split: if_splits)
qed

subsection \<open>The operations keep the invariant\<close>

lemma descheduled_sel [simp]:
  "running (descheduled k s lvl rq) = running k" "intr_on (descheduled k s lvl rq) = False"
  "run_queue (descheduled k s lvl rq) = rq" "idle_thread (descheduled k s lvl rq) = idle_thread k"
  "in_external_intr (descheduled k s lvl rq) = in_external_intr k"
  "all_list (descheduled k s lvl rq) = all_list k"
  by (simp_all add: descheduled_def)

lemma thread_block_ok:
  assumes ok: "sched_ok k" and off: "\<not> intr_on k" "\<not> in_external_intr k"
  shows "\<exists>k'. thread_block k = Some k' \<and>
     handed_over (descheduled k THREAD_BLOCKED False (run_queue k)) k'"
proof -
  let ?k = "descheduled k THREAD_BLOCKED False (run_queue k)"
  obtain c where c: "threads k (running k) = Some c" "thread_current k = Some (running k, c)"
    using sched_ok_running [OF ok] by blast
  have "upd_thread k (running k) (\<lambda>th. th\<lparr>status := THREAD_BLOCKED, resume_level := False\<rparr>) = Some ?k"
    using c(1) off by (simp add: upd_thread_def descheduled_def)
  then have "thread_block k = do { k \<leftarrow> schedule ?k; continue_running k }"
    using off c(2) by (simp add: thread_block_def)
  moreover have "threads ?k (running ?k) = Some (c\<lparr>status := THREAD_BLOCKED, resume_level := False\<rparr>)"
    using c(1) by (simp add: descheduled_def)
  moreover have "queue_ok ?k" by (rule descheduled_blocked(1) [OF ok]) simp
  moreover have "status th \<noteq> THREAD_RUNNING" if "threads ?k t = Some th" for t th
    by (rule descheduled_blocked(2) [OF ok _ that]) simp
  ultimately show ?thesis using run_scheduler [of ?k] by simp
qed

lemma yield_to_scheduler_ok:
  assumes ok: "sched_ok k" and ext: "\<not> in_external_intr k" and c: "threads k (running k) = Some c"
  shows "\<exists>k' rq. yield_to_scheduler k lvl = Some k' \<and> handed_over (descheduled k THREAD_READY lvl rq) k' \<and>
     (running k \<noteq> idle_thread k \<longrightarrow> active_insert (run_queue k) (priority c) (running k) = Some rq) \<and>
     ready_at rq = (if running k \<noteq> idle_thread k
        then (ready_at (run_queue k))(nat (priority c) := ready_at (run_queue k) (nat (priority c)) @ [running k])
        else ready_at (run_queue k))"
proof -
  have cur: "thread_current k = Some (running k, c)" using sched_ok_running [OF ok] c by auto
  obtain rq where rq: "(if running k \<noteq> idle_thread k then active_insert (run_queue k) (priority c) (running k)
      else Some (run_queue k)) = Some rq" "queue_ok (descheduled k THREAD_READY lvl rq)"
    "ready_at rq = (if running k \<noteq> idle_thread k
        then (ready_at (run_queue k))(nat (priority c) := ready_at (run_queue k) (nat (priority c)) @ [running k])
        else ready_at (run_queue k))"
    using descheduled_ready(1) [OF ok c] by blast
  let ?k = "descheduled k THREAD_READY lvl rq"
  have "yield_to_scheduler k lvl = do { k \<leftarrow> schedule ?k; continue_running k }"
    using c cur rq(1) ext
    by (auto simp: yield_to_scheduler_def upd_thread_def descheduled_def split: if_splits)
  moreover have "threads ?k (running ?k) = Some (c\<lparr>status := THREAD_READY, resume_level := lvl\<rparr>)"
    using c by (simp add: descheduled_def)
  moreover have "status th \<noteq> THREAD_RUNNING" if "threads ?k t = Some th" for t th
    by (rule descheduled_ready(2) [OF ok c that])
  ultimately show ?thesis using run_scheduler [of ?k] rq by (auto split: if_splits)
qed

lemma thread_exit_ok:
  assumes ok: "sched_ok k" and ext: "\<not> in_external_intr k" and cur: "running k \<in> set (all_list k)"
    "running k \<noteq> idle_thread k"
  shows "\<exists>k' lvl. thread_exit k = Some k' \<and>
     handed_over (descheduled (k\<lparr>all_list := remove1 (running k) (all_list k)\<rparr>) THREAD_DYING lvl (run_queue k)) k'"
proof -
  let ?k1 = "k\<lparr>all_list := remove1 (running k) (all_list k)\<rparr>"
  have ok1: "sched_ok ?k1" using ok by (simp add: sched_ok_def queue_ok_def)
  obtain c where c: "threads k (running k) = Some c" "thread_current k = Some (running k, c)"
    using sched_ok_running [OF ok] by blast
  let ?k = "descheduled ?k1 THREAD_DYING (resume_level c) (run_queue k)"
  have cur': "thread_current (k\<lparr>intr_on := False\<rparr>) = Some (running k, c)"
    using c by (auto simp: thread_current_def is_thread_def)
  have upd: "upd_thread (k\<lparr>intr_on := False, all_list := remove1 (running k) (all_list k)\<rparr>) (running k)
      (\<lambda>th. th\<lparr>status := THREAD_DYING\<rparr>) = Some ?k"
    using c(1) by (simp add: upd_thread_def descheduled_def)
  have "threads ?k (running ?k) = Some (c\<lparr>status := THREAD_DYING\<rparr>)"
    using c(1) by (simp add: descheduled_def)
  moreover have "queue_ok ?k"
    using descheduled_blocked(1) [OF ok1, of THREAD_DYING] cur(2) by simp
  moreover have "status th \<noteq> THREAD_RUNNING" if "threads ?k t = Some th" for t th
    using descheduled_blocked(2) [OF ok1, of THREAD_DYING _ t th] cur(2) that by simp
  ultimately obtain k' where k': "do { k \<leftarrow> schedule ?k; continue_running k } = Some k'" "handed_over ?k k'"
    using run_scheduler [of ?k] by auto
  then obtain k2 where k2: "schedule ?k = Some k2" "continue_running k2 = Some k'"
    by (auto simp: bind_eq_Some_conv)
  have "running k' \<noteq> running k"
    using handed_over_running(1) [OF k'(2)] c(1) by (auto simp: descheduled_def)
  moreover have "running k2 = running k'"
    using k2(2) by (auto simp: continue_running_def bind_eq_Some_conv)
  ultimately have "thread_exit k = Some k'"
    using ext cur(1) cur' upd k2 by (simp add: thread_exit_def)
  with k'(2) show ?thesis by blast
qed

lemma running_status:
  "sched_ok k \<Longrightarrow> threads k t = Some th \<Longrightarrow> status th = THREAD_RUNNING \<longleftrightarrow> t = running k"
  by (simp add: sched_ok_def)

text \<open>Waking a thread: the state before the possible switch to it.\<close>

definition unblocked :: "kernel \<Rightarrow> ptr \<Rightarrow> thread \<Rightarrow> ptr runqueue \<Rightarrow> kernel" where
  "unblocked k t th rq = k\<lparr>intr_on := False, run_queue := rq,
     threads := (threads k)(t \<mapsto> th\<lparr>status := THREAD_READY\<rparr>)\<rparr>"

lemma unblocked_sel [simp]:
  "running (unblocked k t th rq) = running k" "run_queue (unblocked k t th rq) = rq"
  "idle_thread (unblocked k t th rq) = idle_thread k"
  "in_external_intr (unblocked k t th rq) = in_external_intr k"
  by (simp_all add: unblocked_def)

lemma thread_unblock_eq:
  assumes ok: "sched_ok k" and t: "threads k t = Some th" "status th = THREAD_BLOCKED" "t \<noteq> idle_thread k"
    and c: "threads k (running k) = Some c"
  shows "\<exists>rq. sched_ok (unblocked k t th rq) \<and>
     ready_at rq = (ready_at (run_queue k))
        (nat (priority th) := ready_at (run_queue k) (nat (priority th)) @ [t]) \<and>
     thread_unblock k t =
       (if running k \<noteq> idle_thread k \<and> priority c < priority th
        then yield_to_scheduler (unblocked k t th rq) (intr_on k)
        else Some ((unblocked k t th rq)\<lparr>intr_on := intr_on k\<rparr>))"
proof -
  have q: "queue_ok k" using ok by (simp add: sched_ok_def)
  note pr = queue_ok_thread [OF q t(1)]
  have run: "status c = THREAD_RUNNING" and ne: "t \<noteq> running k"
    using running_status [OF ok c] running_status [OF ok t(1)] t(2) by auto
  obtain rq where rq: "active_insert (run_queue k) (priority th) t = Some rq" "runqueue_ok rq"
    "ready_at rq = (ready_at (run_queue k))
       (nat (priority th) := ready_at (run_queue k) (nat (priority th)) @ [t])"
    using rq.ins_law [OF _ pr(3,4), of "run_queue k" t] q by (auto simp: queue_ok_def)
  have notin: "t \<notin> set (ready_at (run_queue k) p)" for p
    using t by (simp add: queue_ok_mem [OF q])
  have qok: "queue_ok (unblocked k t th rq)"
    using q t notin pr rq(2) unfolding queue_ok_def unblocked_def by (auto simp: rq(3))
  have sok: "sched_ok (unblocked k t th rq)"
    using ok qok t ne by (auto simp: sched_ok_def unblocked_def)
  have "thread_current (unblocked k t th rq) = Some (running k, c)"
    using sched_ok_running [OF sok] c ne by (auto simp: unblocked_def)
  then have "thread_unblock k t =
       (if running k \<noteq> idle_thread k \<and> priority c < priority th
        then yield_to_scheduler (unblocked k t th rq) (intr_on k)
        else Some ((unblocked k t th rq)\<lparr>intr_on := intr_on k\<rparr>))"
    using t rq(1) pr(5) by (simp add: thread_unblock_def upd_thread_def unblocked_def)
  with sok rq(3) show ?thesis by blast
qed

text \<open>Threads other than the idle thread give way to higher priorities.\<close>

definition priority_respected :: "kernel \<Rightarrow> bool" where
  "priority_respected k \<longleftrightarrow> (\<exists>c. threads k (running k) = Some c \<and>
     (running k \<noteq> idle_thread k \<longrightarrow> (\<forall>p. ready_at (run_queue k) p \<noteq> [] \<longrightarrow> int p \<le> priority c)))"

lemma top_priority_respected: "top_priority k \<Longrightarrow> priority_respected k"
  by (auto simp: top_priority_def priority_respected_def)

lemma priority_respected_intr_on [simp]: "priority_respected (k\<lparr>intr_on := b\<rparr>) = priority_respected k"
  by (simp add: priority_respected_def)

lemma thread_unblock_ok:
  assumes ok: "sched_ok k" and t: "threads k t = Some th" "status th = THREAD_BLOCKED" "t \<noteq> idle_thread k"
    and c: "threads k (running k) = Some c"
    and ext: "\<not> in_external_intr k \<or> running k = idle_thread k \<or> priority th \<le> priority c"
  shows "\<exists>k'. thread_unblock k t = Some k' \<and> sched_ok k' \<and>
     (priority_respected k \<longrightarrow> priority_respected k') \<and> idle_thread k' = idle_thread k \<and>
     in_external_intr k' = in_external_intr k"
proof -
  obtain rq where rq: "sched_ok (unblocked k t th rq)"
    "ready_at rq = (ready_at (run_queue k))
        (nat (priority th) := ready_at (run_queue k) (nat (priority th)) @ [t])"
    "thread_unblock k t =
       (if running k \<noteq> idle_thread k \<and> priority c < priority th
        then yield_to_scheduler (unblocked k t th rq) (intr_on k)
        else Some ((unblocked k t th rq)\<lparr>intr_on := intr_on k\<rparr>))"
    using thread_unblock_eq [OF ok t c] by blast
  have ne: "t \<noteq> running k" using running_status [OF ok t(1)] t(2) by auto
  then have c': "threads (unblocked k t th rq) (running (unblocked k t th rq)) = Some c"
    using c by (simp add: unblocked_def)
  show ?thesis
  proof (cases "running k \<noteq> idle_thread k \<and> priority c < priority th")
    case True
    then have "\<not> in_external_intr (unblocked k t th rq)" using ext by auto
    then obtain k' rq' where k': "thread_unblock k t = Some k'"
      "handed_over (descheduled (unblocked k t th rq) THREAD_READY (intr_on k) rq') k'"
      using yield_to_scheduler_ok [OF rq(1) _ c', of "intr_on k"] rq(3) True by auto
    then show ?thesis
      using handed_over_running [OF k'(2)] by (auto intro: top_priority_respected)
  next
    case False
    have "0 \<le> priority th" using ok t(1) by (auto simp: sched_ok_def dest: queue_ok_thread)
    then have "priority_respected (unblocked k t th rq)" if "priority_respected k"
      using that c False c' by (auto simp: priority_respected_def rq(2) split: if_splits)
    with False rq show ?thesis by auto
  qed
qed

text \<open>A thread of higher priority than the running one gets the processor at once.\<close>

lemma thread_unblock_preempts:
  assumes ok: "sched_ok k" and t: "threads k t = Some th" "status th = THREAD_BLOCKED" "t \<noteq> idle_thread k"
    and c: "threads k (running k) = Some c" and ext: "\<not> in_external_intr k"
    and pr: "priority_respected k" "running k \<noteq> idle_thread k" "priority c < priority th"
  shows "\<exists>k'. thread_unblock k t = Some k' \<and> running k' = t \<and> sched_ok k' \<and> top_priority k' \<and>
     threads k' (running k) = Some (c\<lparr>status := THREAD_READY, resume_level := intr_on k\<rparr>) \<and>
     threads k' t = Some (th\<lparr>status := THREAD_RUNNING\<rparr>) \<and>
     (\<forall>u. u \<noteq> t \<longrightarrow> u \<noteq> running k \<longrightarrow> threads k' u = threads k u) \<and>
     idle_thread k' = idle_thread k \<and> in_external_intr k' = in_external_intr k \<and> intr_on k' = resume_level th"
proof -
  obtain rq where rq: "sched_ok (unblocked k t th rq)"
    "ready_at rq = (ready_at (run_queue k))
        (nat (priority th) := ready_at (run_queue k) (nat (priority th)) @ [t])"
    "thread_unblock k t = yield_to_scheduler (unblocked k t th rq) (intr_on k)"
    using thread_unblock_eq [OF ok t c] pr(2,3) by auto
  have q: "queue_ok k" using ok by (simp add: sched_ok_def)
  note prt = queue_ok_thread [OF q t(1)] and prc = queue_ok_thread [OF q c]
  have ne: "t \<noteq> running k" using running_status [OF ok t(1)] t(2) by auto
  then have c': "threads (unblocked k t th rq) (running (unblocked k t th rq)) = Some c"
    using c by (simp add: unblocked_def)
  let ?u = "unblocked k t th rq"
  obtain k' rq' where k': "yield_to_scheduler ?u (intr_on k) = Some k'"
    "handed_over (descheduled ?u THREAD_READY (intr_on k) rq') k'"
    "ready_at rq' = (ready_at rq)(nat (priority c) := ready_at rq (nat (priority c)) @ [running k])"
    using yield_to_scheduler_ok [OF rq(1) _ c', of "intr_on k"] ext pr(2) by auto
  have high: "ready_at rq' p = (if p = nat (priority th) then [t] else [])" if "nat (priority c) < p" for p
  proof -
    have "ready_at (run_queue k) p = []"
      using pr(1,2) c that prc(3) by (auto simp: priority_respected_def)
    moreover have "p \<noteq> nat (priority c)" using that by simp
    ultimately show ?thesis by (auto simp: k'(3) rq(2))
  qed
  have pt: "nat (priority c) < nat (priority th)" using pr(3) prc(3) by simp
  obtain rq'' where p: "picks (descheduled ?u THREAD_READY (intr_on k) rq') (running k') rq''"
    using k'(2) by (auto simp: handed_over_def)
  have "\<not> (\<forall>p. ready_at rq' p = [])" using high [OF pt] by (metis list.distinct(1))
  then obtain p ts where p: "ready_at rq' p = running k' # ts" "\<forall>p'. p < p' \<longrightarrow> ready_at rq' p' = []"
    using p by (auto simp: picks_def split: if_splits)
  then have "nat (priority th) \<le> p" using high [OF pt] by (metis if_P leI list.distinct(1))
  with high [of p] p(1) pt have "running k' = t" by (auto split: if_splits)
  moreover have "threads k' (running k) = Some (c\<lparr>status := THREAD_READY, resume_level := intr_on k\<rparr>)"
    using handed_over_thread [OF k'(2), of "running k"] \<open>running k' = t\<close> c' ne
    by (simp add: descheduled_def)
  moreover have "threads k' t = Some (th\<lparr>status := THREAD_RUNNING\<rparr>)"
    using handed_over_thread [OF k'(2), of t] \<open>running k' = t\<close> ne
    by (simp add: descheduled_def unblocked_def)
  moreover have "threads k' u = threads k u" if "u \<noteq> t" "u \<noteq> running k" for u
    using handed_over_frame [OF k'(2), of u] that \<open>running k' = t\<close>
    by (simp add: descheduled_def unblocked_def)
  moreover have "intr_on k' = resume_level th"
    using handed_over_intr [OF k'(2), of "th\<lparr>status := THREAD_READY\<rparr>"] \<open>running k' = t\<close> ne
    by (simp add: descheduled_def unblocked_def)
  ultimately show ?thesis
    using k'(1) rq(3) handed_over_running [OF k'(2)] by simp
qed

lemma thread_create_ok:
  assumes ok: "sched_ok k" and t: "threads k t = None" "t \<noteq> 0" and pr: "0 \<le> pri" "pri \<le> 63"
    and f: "function \<noteq> 0" and ext: "\<not> in_external_intr k"
  shows "\<exists>k'. thread_create k nm pri function aux t = Some (next_tid k, k') \<and> sched_ok k' \<and>
     (priority_respected k \<longrightarrow> priority_respected k') \<and> idle_thread k' = idle_thread k \<and>
     in_external_intr k' = in_external_intr k"
proof -
  obtain c where c: "threads k (running k) = Some c" using ok by (auto simp: sched_ok_def)
  have mc: "magic c = THREAD_MAGIC"
    using ok c by (auto simp: sched_ok_def dest: queue_ok_thread)
  define th where "th = \<lparr>tid = next_tid k, status = THREAD_BLOCKED, name = take 15 nm,
    stack = t + PGSIZE - 12 - 4 - 28, priority = pri, timeslice = of_int (pri + 5), next_fd = 2,
    exited_by_exit_call = False, exit_status = - 1, is_userprog = False, parent = running k, mmid = 0,
    magic = THREAD_MAGIC, kf_function = function, kf_aux = aux, resume_level = True\<rparr>"
  define k1 where "k1 = k\<lparr>all_list := all_list k @ [t], next_tid := next_tid k + 1,
    threads := (threads k)(t \<mapsto> th)\<rparr>"
  have idle: "t \<noteq> idle_thread k" "t \<noteq> running k"
    using ok t c by (auto simp: sched_ok_def queue_ok_def)
  have "queue_ok k" using ok by (simp add: sched_ok_def)
  then have "queue_ok k1"
    using t pr idle unfolding queue_ok_def k1_def by (auto simp: th_def)
  then have ok1: "sched_ok k1"
    using ok idle t by (auto simp: sched_ok_def k1_def th_def)
  have "thread_create k nm pri function aux t =
      do { k' \<leftarrow> thread_unblock k1 t; Some (next_tid k, k') }"
    using t f c mc pr
    by (simp add: thread_create_def init_thread_def allocate_tid_def alloc_frame_def upd_thread_def
        is_thread_def PRI_MIN_def PRI_MAX_def k1_def th_def)
  moreover have "\<exists>k'. thread_unblock k1 t = Some k' \<and> sched_ok k' \<and>
     (priority_respected k1 \<longrightarrow> priority_respected k') \<and> idle_thread k' = idle_thread k1 \<and>
     in_external_intr k' = in_external_intr k1"
    by (rule thread_unblock_ok [OF ok1, of t th c])
      (use c idle ext in \<open>auto simp: k1_def th_def\<close>)
  moreover have "priority_respected k1 = priority_respected k"
    using idle by (simp add: priority_respected_def k1_def)
  ultimately show ?thesis by (auto simp: k1_def)
qed

lemma thread_set_priority_ok:
  assumes ok: "sched_ok k" and p: "0 \<le> p" "p \<le> 63"
  shows "\<exists>k'. thread_set_priority k p = Some k' \<and> sched_ok k' \<and> idle_thread k' = idle_thread k"
proof -
  obtain c where c: "threads k (running k) = Some c" "status c = THREAD_RUNNING"
    "thread_current k = Some (running k, c)" using sched_ok_running [OF ok] by blast
  let ?k = "k\<lparr>threads := (threads k)(running k \<mapsto> c\<lparr>priority := p\<rparr>)\<rparr>"
  have "queue_ok k" using ok by (simp add: sched_ok_def)
  then have "queue_ok ?k" using p c unfolding queue_ok_def by auto
  then have "sched_ok ?k" using ok c by (auto simp: sched_ok_def)
  with c show ?thesis by (simp add: thread_set_priority_def upd_thread_def)
qed

subsection \<open>The scheduler as a transition system\<close>

text \<open>
  What threads and interrupt handlers do to the state of the scheduler. Blocking is done with
  interrupts off, the idle thread does not exit and is not woken (it is never blocked elsewhere than
  in its own loop), new threads come on pages that hold no thread, and priorities are in range. An
  interrupt handler may wake a thread only where this does not lead to a switch.
\<close>

inductive kernel_step :: "kernel \<Rightarrow> kernel \<Rightarrow> bool" where
  step_block: "\<not> in_external_intr k \<Longrightarrow> thread_block (k\<lparr>intr_on := False\<rparr>) = Some k' \<Longrightarrow> kernel_step k k'"
| step_yield: "\<not> in_external_intr k \<Longrightarrow> thread_yield k = Some k' \<Longrightarrow> kernel_step k k'"
| step_unblock: "t \<noteq> idle_thread k \<Longrightarrow> thread_unblock k t = Some k' \<Longrightarrow> kernel_step k k'"
| step_exit: "running k \<noteq> idle_thread k \<Longrightarrow> thread_exit k = Some k' \<Longrightarrow> kernel_step k k'"
| step_create: "threads k t = None \<Longrightarrow> t \<noteq> 0 \<Longrightarrow> \<not> in_external_intr k \<Longrightarrow>
    thread_create k nm pri f aux t = Some (i, k') \<Longrightarrow> kernel_step k k'"
| step_priority: "0 \<le> p \<Longrightarrow> p \<le> 63 \<Longrightarrow> thread_set_priority k p = Some k' \<Longrightarrow> kernel_step k k'"
| step_tick: "thread_tick k u = Some k' \<Longrightarrow> kernel_step k k'"
| step_intr: "kernel_step k (k\<lparr>intr_on := b, in_external_intr := e\<rparr>)"

inductive_cases kernel_stepE: "kernel_step k k'"

lemma thread_unblock_SomeD:
  assumes "sched_ok k" and "thread_unblock k t = Some k'" and "t \<noteq> idle_thread k"
  shows "sched_ok k' \<and> (priority_respected k \<longrightarrow> priority_respected k')"
proof -
  obtain th where th: "threads k t = Some th" "status th = THREAD_BLOCKED"
    using assms(2) by (auto simp: thread_unblock_def Let_def bind_eq_Some_conv)
  obtain c where c: "threads k (running k) = Some c" using sched_ok_running [OF assms(1)] by blast
  obtain rq where rq: "thread_unblock k t =
       (if running k \<noteq> idle_thread k \<and> priority c < priority th
        then yield_to_scheduler (unblocked k t th rq) (intr_on k)
        else Some ((unblocked k t th rq)\<lparr>intr_on := intr_on k\<rparr>))"
    using thread_unblock_eq [OF assms(1) th assms(3) c] by blast
  have "\<not> in_external_intr k" if "running k \<noteq> idle_thread k \<and> priority c < priority th"
    using rq assms(2) that
    by (cases "thread_current (unblocked k t th rq)") (auto simp: yield_to_scheduler_def)
  then show ?thesis
    using thread_unblock_ok [OF assms(1) th assms(3) c] assms(2) by fastforce
qed

lemma thread_tick_same:
  assumes "thread_tick k u = Some k'"
  shows "threads k' = threads k \<and> running k' = running k \<and> run_queue k' = run_queue k \<and>
    idle_thread k' = idle_thread k"
proof -
  obtain t th where cur: "thread_current k = Some (t, th)"
    using assms by (cases "thread_current k") (auto simp: thread_tick_def)
  define k1 where "k1 = (if t = idle_thread k then k\<lparr>idle_ticks := idle_ticks k + 1\<rparr>
    else if u then k\<lparr>user_ticks := user_ticks k + 1\<rparr> else k\<lparr>kernel_ticks := kernel_ticks k + 1\<rparr>)"
  define k2 where "k2 = k1\<lparr>thread_ticks := thread_ticks k1 + 1\<rparr>"
  have "k' = k2 \<or> k' = k2\<lparr>yield_on_return := True\<rparr>"
  proof -
    have "thread_tick k u = (if thread_ticks k2 \<ge> timeslice th
        then do { kassert (in_external_intr k2); Some (k2\<lparr>yield_on_return := True\<rparr>) } else Some k2)"
      by (simp only: thread_tick_def cur Let_def k1_def k2_def bind.bind_lunit prod.case)
    then show ?thesis using assms by (simp add: bind_kassert split: if_splits)
  qed
  then show ?thesis by (auto simp: k2_def k1_def)
qed

lemma kernel_step_ok: "kernel_step k k' \<Longrightarrow> sched_ok k \<Longrightarrow> sched_ok k'"
proof (induction rule: kernel_step.induct)
  case (step_block k k')
  then show ?case
    using thread_block_ok [of "k\<lparr>intr_on := False\<rparr>"] by (auto dest: handed_over_running(2))
next
  case (step_yield k k')
  obtain c where c: "threads k (running k) = Some c" using sched_ok_running step_yield.prems by blast
  show ?case
    using yield_to_scheduler_ok [OF step_yield.prems step_yield(1) c, of "intr_on k"] step_yield(2)
    by (auto simp: thread_yield_def dest: handed_over_running(2))
next
  case (step_unblock t k k')
  then show ?case using thread_unblock_SomeD by blast
next
  case (step_exit k k')
  have "\<not> in_external_intr k" "running k \<in> set (all_list k)"
    using step_exit(2)
    by (auto simp: thread_exit_def thread_current_def is_thread_def bind_eq_Some_conv split: prod.splits)
  then show ?case
    using thread_exit_ok [OF step_exit.prems] step_exit by (auto dest: handed_over_running(2))
next
  case (step_create k t nm pri f aux i k')
  then have "0 \<le> pri" "pri \<le> 63" "f \<noteq> 0"
    by (auto simp: thread_create_def init_thread_def PRI_MIN_def PRI_MAX_def bind_eq_Some_conv split: if_splits)
  then show ?case using thread_create_ok [of k t pri f nm aux] step_create by auto
next
  case (step_priority p k k')
  then show ?case using thread_set_priority_ok [of k p] by auto
next
  case (step_tick k u k')
  have "threads k' = threads k \<and> running k' = running k \<and> run_queue k' = run_queue k \<and>
      idle_thread k' = idle_thread k"
    using thread_tick_same [OF step_tick(1)] .
  with step_tick.prems show ?case by (simp add: sched_ok_def queue_ok_def)
next
  case (step_intr k b e)
  then show ?case by (simp add: sched_ok_def queue_ok_def)
qed

subsection \<open>Properties\<close>

text \<open>An example: the idle thread at 4096, the running thread at 8192 with priority 31 and a blocked
  thread at 12288 with priority 40.\<close>

definition example_thread :: "thread_status \<Rightarrow> int \<Rightarrow> thread" where
  "example_thread s p = \<lparr>tid = 0, status = s, name = ''t'', stack = 0, priority = p,
     timeslice = of_int (p + 5), next_fd = 2, exited_by_exit_call = False, exit_status = - 1,
     is_userprog = False, parent = 0, mmid = 0, magic = THREAD_MAGIC, kf_function = 0, kf_aux = 0,
     resume_level = False\<rparr>"

definition empty_array :: "ptr prio_array" where
  "empty_array = \<lparr>num = 0, pmap = \<lparr>bit_cnt = 64, bits = [0, 0]\<rparr>, queue = replicate 64 []\<rparr>"

definition example_kernel :: kernel where
  "example_kernel = \<lparr>threads = [4096 \<mapsto> example_thread THREAD_BLOCKED 0,
       8192 \<mapsto> example_thread THREAD_RUNNING 31, 12288 \<mapsto> example_thread THREAD_BLOCKED 40],
     running = 8192, idle_thread = 4096, initial_thread = 8192,
     run_queue = \<lparr>active = empty_array, expired = empty_array\<rparr>, all_list = [4096, 8192, 12288],
     next_tid = 4, thread_ticks = 0, idle_ticks = 0, kernel_ticks = 0, user_ticks = 0,
     intr_on = False, in_external_intr = False, yield_on_return = False, freed_pages = []\<rparr>"

lemma empty_array_ok: "prioarr_ok empty_array"
proof -
  have "bitmap_bits \<lparr>bit_cnt = 64, bits = [0, 0]\<rparr> ! i = False" if "i < 64" for i
  proof -
    have "i div 32 < 2" using that by simp
    then have "[0, 0 :: u32] ! (i div 32) = 0" by (auto simp: less_2_cases_iff nth_Cons')
    then show ?thesis using that by (simp add: nth_bitmap_bits)
  qed
  then show ?thesis by (auto simp: prioarr_ok_def empty_array_def bitmap_wf_def)
qed

lemma example_kernel_ok: "sched_ok example_kernel" "priority_respected example_kernel"
proof -
  have "runqueue_ok (run_queue example_kernel)"
    by (simp add: example_kernel_def runqueue_ok_def empty_array_ok) (simp add: empty_array_def)
  moreover have "ready_at (run_queue example_kernel) p = []" for p
    by (simp add: example_kernel_def ready_at_def empty_array_def)
  ultimately show "sched_ok example_kernel" "priority_respected example_kernel"
    by (auto simp: sched_ok_def queue_ok_def priority_respected_def)
      (auto simp: example_kernel_def example_thread_def split: if_splits)
qed



text \<open>C7. Giving up the processor never fails an assertion and always passes it to the right thread:
  \<^verbatim>\<open>thread_block\<close>, \<^verbatim>\<open>thread_yield\<close> and \<^verbatim>\<open>thread_exit\<close> end with a running thread of the highest priority
  among the ready threads, the one that has been waiting longest, or with the idle thread if none
  is ready.\<close>

theorem switch_takes_highest:
  assumes "sched_ok k" and "\<not> in_external_intr k" and "threads k (running k) = Some c"
    and "running k \<noteq> idle_thread k"
  shows "(\<not> intr_on k \<longrightarrow> (\<exists>k'. thread_block k = Some k' \<and> sched_ok k' \<and> top_priority k' \<and>
       picks k (running k') (ready_at (run_queue k')))) \<and>
     (running k \<in> set (all_list k) \<longrightarrow> (\<exists>k'. thread_exit k = Some k' \<and> sched_ok k' \<and> top_priority k' \<and>
       picks k (running k') (ready_at (run_queue k')))) \<and>
     (\<exists>k' rq. thread_yield k = Some k' \<and> sched_ok k' \<and> top_priority k' \<and>
       active_insert (run_queue k) (priority c) (running k) = Some rq \<and>
       picks (k\<lparr>run_queue := rq\<rparr>) (running k') (ready_at (run_queue k')))"
proof -
  have picks_run: "picks k0 (running k') (ready_at (run_queue k')) \<and> sched_ok k' \<and> top_priority k'"
    if "handed_over k0 k'" for k0 k'
    using that by (auto simp: handed_over_def)
  have same: "picks k0 t rest = picks k1 t rest"
    if "run_queue k0 = run_queue k1" "idle_thread k0 = idle_thread k1" for k0 k1 t rest
    using that by (simp add: picks_def)
  obtain k1 rq where k1: "thread_yield k = Some k1"
    "handed_over (descheduled k THREAD_READY (intr_on k) rq) k1"
    "active_insert (run_queue k) (priority c) (running k) = Some rq"
    using yield_to_scheduler_ok [OF assms(1-3), of "intr_on k"] assms(4) by (auto simp: thread_yield_def)
  have "\<exists>k'. thread_block k = Some k' \<and> sched_ok k' \<and> top_priority k' \<and>
      picks k (running k') (ready_at (run_queue k'))" if "\<not> intr_on k"
    using thread_block_ok [OF assms(1) that assms(2)] picks_run same [of "descheduled _ _ _ _" k]
    by fastforce
  moreover have "\<exists>k'. thread_exit k = Some k' \<and> sched_ok k' \<and> top_priority k' \<and>
      picks k (running k') (ready_at (run_queue k'))" if "running k \<in> set (all_list k)"
    using thread_exit_ok [OF assms(1,2) that assms(4)] picks_run same [of "descheduled _ _ _ _" k]
    by fastforce
  moreover have "picks (k\<lparr>run_queue := rq\<rparr>) (running k1) (ready_at (run_queue k1))"
    using picks_run [OF k1(2)] same [of "descheduled k THREAD_READY (intr_on k) rq" "k\<lparr>run_queue := rq\<rparr>"]
    by simp
  ultimately show ?thesis using k1 picks_run [OF k1(2)] by blast
qed

theorem switch_takes_highest_witness:
  "\<exists>k'. thread_block example_kernel = Some k' \<and> top_priority k'"
  using switch_takes_highest [OF example_kernel_ok(1), of "example_thread THREAD_RUNNING 31"]
  by (auto simp: example_kernel_def)

text \<open>Waking a thread of higher priority than the running thread switches to it at once, and the
  thread that woke it is ready and will continue with the interrupt level it had; priorities stay
  respected by every wake-up.\<close>

theorem unblock_preempts:
  assumes "sched_ok k" and "priority_respected k" and "threads k t = Some th"
    and "status th = THREAD_BLOCKED" and "t \<noteq> idle_thread k" and "threads k (running k) = Some c"
    and "running k \<noteq> idle_thread k" and "\<not> in_external_intr k"
  shows "\<exists>k'. thread_unblock k t = Some k' \<and> sched_ok k' \<and> priority_respected k' \<and>
     (priority c < priority th \<longrightarrow> running k' = t \<and>
       (\<exists>c'. threads k' (running k) = Some c' \<and> status c' = THREAD_READY \<and> resume_level c' = intr_on k))"
proof (cases "priority c < priority th")
  case True
  then show ?thesis
    using thread_unblock_preempts [OF assms(1,3-6,8,2,7)] top_priority_respected by fastforce
next
  case False
  then show ?thesis
    using thread_unblock_ok [OF assms(1,3-6)] assms(2,8) by auto
qed

theorem unblock_preempts_witness:
  "\<exists>k'. thread_unblock example_kernel 12288 = Some k' \<and> running k' = 12288 \<and> sched_ok k'"
  using unblock_preempts [OF example_kernel_ok, of 12288 "example_thread THREAD_BLOCKED 40"
      "example_thread THREAD_RUNNING 31"]
  by (auto simp: example_kernel_def example_thread_def)

text \<open>C33. Waking a thread of higher priority than the running one inside an external interrupt handler
  panics, because the wake-up calls \<^verbatim>\<open>thread_yield\<close>, which asserts that no interrupt is being handled.\<close>

theorem unblock_in_interrupt_panics:
  assumes "sched_ok k" and "threads k t = Some th" and "status th = THREAD_BLOCKED"
    and "t \<noteq> idle_thread k" and "threads k (running k) = Some c" and "running k \<noteq> idle_thread k"
    and "priority c < priority th" and "in_external_intr k"
  shows "thread_unblock k t = None"
proof -
  obtain rq where rq: "thread_unblock k t = yield_to_scheduler (unblocked k t th rq) (intr_on k)"
    using thread_unblock_eq [OF assms(1-5)] assms(6,7) by auto
  then show ?thesis
    using assms(8) by (cases "thread_current (unblocked k t th rq)") (auto simp: yield_to_scheduler_def)
qed

theorem unblock_in_interrupt_panics_witness:
  "thread_unblock (example_kernel\<lparr>in_external_intr := True\<rparr>) 12288 = None"
proof (rule unblock_in_interrupt_panics [where th = "example_thread THREAD_BLOCKED 40"
      and c = "example_thread THREAD_RUNNING 31"])
  show "sched_ok (example_kernel\<lparr>in_external_intr := True\<rparr>)"
    using example_kernel_ok(1) by (simp add: sched_ok_def queue_ok_def)
qed (simp_all add: example_kernel_def example_thread_def)

end
