(* ===== verification/Synch.thy ===== *)
theory Synch
  imports Thread
begin

section \<open>Semaphores, locks and condition variables (threads/synch.c)\<close>

text \<open>
  A call of a synchronisation primitive can lose the processor in the middle: in \<^verbatim>\<open>thread_block\<close>, or in
  the \<^verbatim>\<open>thread_yield\<close> that \<^verbatim>\<open>thread_unblock\<close> does for a thread of higher priority. What such a call
  still has to do is kept as a list of instructions for each thread: an instruction is a part of a
  function of synch.c that runs without losing the processor, and its execution may put the
  rest of the function in front of the thread's list.
\<close>

subsection \<open>State\<close>

record semaphore =
  svalue :: u32
  swaiters :: "ptr list"

text \<open>The semaphores of the system: those of the program, the one inside each lock, and the one in
  the \<^verbatim>\<open>semaphore_elem\<close> on the stack of a thread that waits for a condition.\<close>

datatype sid = Sem nat | Lock_Sem nat | Waiter_Sem ptr

datatype instr =
    Sema_Down sid | Sema_Retest sid bool | Sema_Up sid | Sema_Inc sid bool
  | Lock_Acquire nat | Lock_Set_Holder nat | Lock_Release nat
  | Cond_Wait nat nat | Cond_Signal nat nat | Cond_Broadcast nat nat

record sys =
  kern :: kernel
  sems :: "sid \<Rightarrow> semaphore"
  holders :: "nat \<Rightarrow> ptr"
  conds :: "nat \<Rightarrow> ptr list"
  code :: "ptr \<Rightarrow> instr list"

definition cur_thread :: "sys \<Rightarrow> ptr" where
  "cur_thread s = running (kern s)"

text \<open>The running thread continues with the instructions \<open>is\<close> before the ones it has.\<close>

definition continue_with :: "instr list \<Rightarrow> ptr \<Rightarrow> sys \<Rightarrow> sys" where
  "continue_with ins t s = s\<lparr>code := (code s)(t := ins @ code s t)\<rparr>"

definition set_sem :: "sid \<Rightarrow> semaphore \<Rightarrow> sys \<Rightarrow> sys" where
  "set_sem i sm s = s\<lparr>sems := (sems s)(i := sm)\<rparr>"

subsection \<open>Semaphores\<close>

definition sema_init :: "u32 \<Rightarrow> semaphore" where
  "sema_init v = \<lparr>svalue = v, swaiters = []\<rparr>"

text \<open>One test of the loop in \<^verbatim>\<open>sema_down\<close>, with the interrupt level to restore at the end.\<close>

definition sema_test :: "sid \<Rightarrow> bool \<Rightarrow> sys \<Rightarrow> sys option" where
  "sema_test i old_level s = do {
     let sm = sems s i;
     if svalue sm = 0
     then do {
       (cur, _) \<leftarrow> thread_current (kern s);
       let s = set_sem i (sm\<lparr>swaiters := swaiters sm @ [cur]\<rparr>) s;
       k \<leftarrow> thread_block (kern s);
       Some (continue_with [Sema_Retest i old_level] cur (s\<lparr>kern := k\<rparr>))
     }
     else Some (set_sem i (sm\<lparr>svalue := svalue sm - 1\<rparr>) (s\<lparr>kern := (kern s)\<lparr>intr_on := old_level\<rparr>\<rparr>))
   }"

definition sema_down :: "sid \<Rightarrow> sys \<Rightarrow> sys option" where
  "sema_down i s = do {
     kassert (\<not> in_external_intr (kern s));
     let old_level = intr_on (kern s);
     sema_test i old_level (s\<lparr>kern := (kern s)\<lparr>intr_on := False\<rparr>\<rparr>)
   }"

definition sema_try_down :: "sid \<Rightarrow> sys \<Rightarrow> bool \<times> sys" where
  "sema_try_down i s =
    (let sm = sems s i
     in if svalue sm > 0 then (True, set_sem i (sm\<lparr>svalue := svalue sm - 1\<rparr>) s) else (False, s))"

definition sema_inc :: "sid \<Rightarrow> bool \<Rightarrow> sys \<Rightarrow> sys" where
  "sema_inc i old_level s =
     set_sem i ((sems s i)\<lparr>svalue := svalue (sems s i) + 1\<rparr>) (s\<lparr>kern := (kern s)\<lparr>intr_on := old_level\<rparr>\<rparr>)"

text \<open>\<^verbatim>\<open>sema_up\<close> increments the value after \<^verbatim>\<open>thread_unblock\<close> has returned, so when the woken thread takes
  the processor the increment waits until the caller runs again.\<close>

definition sema_up :: "sid \<Rightarrow> sys \<Rightarrow> sys option" where
  "sema_up i s = do {
     let cur = cur_thread s;
     let old_level = intr_on (kern s);
     let s = s\<lparr>kern := (kern s)\<lparr>intr_on := False\<rparr>\<rparr>;
     case swaiters (sems s i) of
       [] \<Rightarrow> Some (sema_inc i old_level s)
     | t # ts \<Rightarrow> do {
         let s = set_sem i ((sems s i)\<lparr>swaiters := ts\<rparr>) s;
         k \<leftarrow> thread_unblock (kern s) t;
         let s = s\<lparr>kern := k\<rparr>;
         Some (if cur_thread s = cur then sema_inc i old_level s
               else continue_with [Sema_Inc i old_level] cur s)
       }
   }"

subsection \<open>Locks\<close>

definition lock_init :: "nat \<Rightarrow> sys \<Rightarrow> sys" where
  "lock_init l s = set_sem (Lock_Sem l) (sema_init 1) (s\<lparr>holders := (holders s)(l := 0)\<rparr>)"

definition lock_held_by_current_thread :: "nat \<Rightarrow> sys \<Rightarrow> bool option" where
  "lock_held_by_current_thread l s = do {
     (cur, _) \<leftarrow> thread_current (kern s);
     Some (holders s l = cur)
   }"

definition lock_acquire :: "nat \<Rightarrow> sys \<Rightarrow> sys option" where
  "lock_acquire l s = do {
     kassert (\<not> in_external_intr (kern s));
     held \<leftarrow> lock_held_by_current_thread l s;
     kassert (\<not> held);
     Some (continue_with [Sema_Down (Lock_Sem l), Lock_Set_Holder l] (cur_thread s) s)
   }"

definition lock_set_holder :: "nat \<Rightarrow> sys \<Rightarrow> sys option" where
  "lock_set_holder l s = do {
     (cur, _) \<leftarrow> thread_current (kern s);
     Some (s\<lparr>holders := (holders s)(l := cur)\<rparr>)
   }"

definition lock_try_acquire :: "nat \<Rightarrow> sys \<Rightarrow> (bool \<times> sys) option" where
  "lock_try_acquire l s = do {
     held \<leftarrow> lock_held_by_current_thread l s;
     kassert (\<not> held);
     case sema_try_down (Lock_Sem l) s of
       (True, s) \<Rightarrow> map_option (\<lambda>s. (True, s)) (lock_set_holder l s)
     | (False, s) \<Rightarrow> Some (False, s)
   }"

definition lock_release :: "nat \<Rightarrow> sys \<Rightarrow> sys option" where
  "lock_release l s = do {
     held \<leftarrow> lock_held_by_current_thread l s;
     kassert held;
     Some (continue_with [Sema_Up (Lock_Sem l)] (cur_thread s) (s\<lparr>holders := (holders s)(l := 0)\<rparr>))
   }"

subsection \<open>Condition variables\<close>

definition cond_init :: "nat \<Rightarrow> sys \<Rightarrow> sys" where
  "cond_init c s = s\<lparr>conds := (conds s)(c := [])\<rparr>"

definition cond_wait :: "nat \<Rightarrow> nat \<Rightarrow> sys \<Rightarrow> sys option" where
  "cond_wait c l s = do {
     kassert (\<not> in_external_intr (kern s));
     held \<leftarrow> lock_held_by_current_thread l s;
     kassert held;
     let cur = cur_thread s;
     let s = set_sem (Waiter_Sem cur) (sema_init 0) s;
     let s = s\<lparr>conds := (conds s)(c := conds s c @ [cur])\<rparr>;
     Some (continue_with [Lock_Release l, Sema_Down (Waiter_Sem cur), Lock_Acquire l] cur s)
   }"

definition cond_signal :: "nat \<Rightarrow> nat \<Rightarrow> sys \<Rightarrow> sys option" where
  "cond_signal c l s = do {
     kassert (\<not> in_external_intr (kern s));
     held \<leftarrow> lock_held_by_current_thread l s;
     kassert held;
     case conds s c of
       [] \<Rightarrow> Some s
     | t # ts \<Rightarrow> Some (continue_with [Sema_Up (Waiter_Sem t)] (cur_thread s)
                     (s\<lparr>conds := (conds s)(c := ts)\<rparr>))
   }"

definition cond_broadcast :: "nat \<Rightarrow> nat \<Rightarrow> sys \<Rightarrow> sys option" where
  "cond_broadcast c l s =
     (if conds s c = [] then Some s
      else Some (continue_with [Cond_Signal c l, Cond_Broadcast c l] (cur_thread s) s))"

subsection \<open>Execution\<close>

fun exec :: "instr \<Rightarrow> sys \<Rightarrow> sys option" where
  "exec (Sema_Down i) s = sema_down i s"
| "exec (Sema_Retest i old_level) s = sema_test i old_level s"
| "exec (Sema_Up i) s = sema_up i s"
| "exec (Sema_Inc i old_level) s = Some (sema_inc i old_level s)"
| "exec (Lock_Acquire l) s = lock_acquire l s"
| "exec (Lock_Set_Holder l) s = lock_set_holder l s"
| "exec (Lock_Release l) s = lock_release l s"
| "exec (Cond_Wait c l) s = cond_wait c l s"
| "exec (Cond_Signal c l) s = cond_signal c l s"
| "exec (Cond_Broadcast c l) s = cond_broadcast c l s"

text \<open>The running thread executes its next instruction.\<close>

definition run_instr :: "sys \<Rightarrow> sys option" where
  "run_instr s = (case code s (cur_thread s) of
      [] \<Rightarrow> None
    | i # is \<Rightarrow> exec i (s\<lparr>code := (code s)(cur_thread s := is)\<rparr>))"

text \<open>What a program may call: the functions of synch.h on its own semaphores, locks and conditions.\<close>

fun public_call :: "instr \<Rightarrow> bool" where
  "public_call (Sema_Down (Sem n)) = True"
| "public_call (Sema_Up (Sem n)) = True"
| "public_call (Lock_Acquire l) = True"
| "public_call (Lock_Release l) = True"
| "public_call (Cond_Wait c l) = True"
| "public_call (Cond_Signal c l) = True"
| "public_call (Cond_Broadcast c l) = True"
| "public_call _ = False"

text \<open>Threads other than the idle thread make calls.
  A thread with interrupts on can be preempted between its instructions, but not where it has them
  disabled: at a retest in \<^verbatim>\<open>sema_down\<close> or at the increment of \<^verbatim>\<open>sema_up\<close>.\<close>

fun interrupts_off_at :: "instr list \<Rightarrow> bool" where
  "interrupts_off_at (Sema_Retest i b # is) = True"
| "interrupts_off_at (Sema_Inc i b # is) = True"
| "interrupts_off_at _ = False"

inductive sys_step :: "sys \<Rightarrow> sys \<Rightarrow> bool" where
  sys_run: "run_instr s = Some s' \<Longrightarrow> sys_step s s'"
| sys_call: "code s (cur_thread s) = [] \<Longrightarrow> public_call i \<Longrightarrow> cur_thread s \<noteq> idle_thread (kern s) \<Longrightarrow>
    sys_step s (s\<lparr>code := (code s)(cur_thread s := [i])\<rparr>)"
| sys_preempt: "\<not> interrupts_off_at (code s (cur_thread s)) \<Longrightarrow> intr_on (kern s) \<Longrightarrow>
    thread_yield (kern s) = Some k \<Longrightarrow> sys_step s (s\<lparr>kern := k\<rparr>)"

subsection \<open>Mutual exclusion\<close>

text \<open>What each instruction does apart from the scheduler's state.\<close>

lemma sema_test_cases:
  assumes "sema_test i lvl s = Some s'"
  shows "(svalue (sems s i) \<noteq> 0 \<and> sems s' = (sems s)(i := (sems s i)\<lparr>svalue := svalue (sems s i) - 1\<rparr>) \<and>
      code s' = code s \<and> holders s' = holders s \<and> conds s' = conds s \<and>
      kern s' = (kern s)\<lparr>intr_on := lvl\<rparr>) \<or>
    (svalue (sems s i) = 0 \<and> thread_block (kern s) = Some (kern s') \<and>
      sems s' = (sems s)(i := (sems s i)\<lparr>swaiters := swaiters (sems s i) @ [cur_thread s]\<rparr>) \<and>
      code s' = (code s)(cur_thread s := Sema_Retest i lvl # code s (cur_thread s)) \<and>
      holders s' = holders s \<and> conds s' = conds s)"
proof (cases "svalue (sems s i) = 0")
  case True
  then obtain c th where c: "thread_current (kern s) = Some (c, th)"
    using assms by (cases "thread_current (kern s)") (auto simp: sema_test_def)
  then have "c = cur_thread s"
    by (auto simp: thread_current_def cur_thread_def bind_eq_Some_conv)
  with True c assms show ?thesis
    by (auto simp: sema_test_def set_sem_def continue_with_def Let_def bind_eq_Some_conv)
next
  case False
  then show ?thesis using assms by (auto simp: sema_test_def set_sem_def Let_def)
qed

lemma semaphore_value_upd: "(sm :: semaphore)\<lparr>svalue := v\<rparr> = \<lparr>svalue = v, swaiters = swaiters sm\<rparr>"
  by simp

lemma sema_up_cases:
  assumes "sema_up i s = Some s'"
  shows "holders s' = holders s \<and> conds s' = conds s \<and>
    ((\<exists>ws. sems s' = (sems s)(i := \<lparr>svalue = svalue (sems s i) + 1, swaiters = ws\<rparr>) \<and> code s' = code s) \<or>
     (\<exists>ws lvl. sems s' = (sems s)(i := (sems s i)\<lparr>swaiters := ws\<rparr>) \<and>
        code s' = (code s)(cur_thread s := Sema_Inc i lvl # code s (cur_thread s))))"
proof (cases "swaiters (sems s i)")
  case Nil
  then have "s' = sema_inc i (intr_on (kern s)) (s\<lparr>kern := (kern s)\<lparr>intr_on := False\<rparr>\<rparr>)"
    using assms by (simp add: sema_up_def)
  then have "sems s' = (sems s)(i := \<lparr>svalue = svalue (sems s i) + 1, swaiters = swaiters (sems s i)\<rparr>)"
    "code s' = code s" "holders s' = holders s" "conds s' = conds s"
    by (simp_all add: sema_inc_def set_sem_def semaphore_value_upd)
  then show ?thesis by blast
next
  case (Cons t ts)
  define s1 where "s1 = set_sem i ((sems s i)\<lparr>swaiters := ts\<rparr>) (s\<lparr>kern := (kern s)\<lparr>intr_on := False\<rparr>\<rparr>)"
  obtain k where k: "thread_unblock (kern s1) t = Some k"
    "s' = (if cur_thread (s1\<lparr>kern := k\<rparr>) = cur_thread s then sema_inc i (intr_on (kern s)) (s1\<lparr>kern := k\<rparr>)
           else continue_with [Sema_Inc i (intr_on (kern s))] (cur_thread s) (s1\<lparr>kern := k\<rparr>))"
    using assms Cons unfolding sema_up_def s1_def by (auto simp: bind_eq_Some_conv Let_def)
  show ?thesis
  proof (cases "cur_thread (s1\<lparr>kern := k\<rparr>) = cur_thread s")
    case True
    then have "s' = sema_inc i (intr_on (kern s)) (s1\<lparr>kern := k\<rparr>)" using k(2) by simp
    then have "sems s' = (sems s)(i := \<lparr>svalue = svalue (sems s i) + 1, swaiters = ts\<rparr>)" "code s' = code s"
      "holders s' = holders s" "conds s' = conds s"
      by (simp_all add: sema_inc_def set_sem_def s1_def semaphore_value_upd)
    then show ?thesis by blast
  next
    case False
    then have "s' = continue_with [Sema_Inc i (intr_on (kern s))] (cur_thread s) (s1\<lparr>kern := k\<rparr>)"
      using k(2) by simp
    then have "sems s' = (sems s)(i := (sems s i)\<lparr>swaiters := ts\<rparr>)"
      "code s' = (code s)(cur_thread s := Sema_Inc i (intr_on (kern s)) # code s (cur_thread s))"
      "holders s' = holders s" "conds s' = conds s"
      by (simp_all add: continue_with_def set_sem_def s1_def)
    then show ?thesis by blast
  qed
qed

text \<open>Instructions of the inside of a lock are only at the front of what a thread has to do, and taking
  the lock's semaphore is followed by setting the holder.\<close>

primrec lock_of :: "sid \<Rightarrow> nat option" where
  "lock_of (Sem n) = None"
| "lock_of (Lock_Sem l) = Some l"
| "lock_of (Waiter_Sem t) = None"

primrec plain :: "instr \<Rightarrow> bool" where
  "plain (Sema_Down i) \<longleftrightarrow> lock_of i = None"
| "plain (Sema_Retest i b) \<longleftrightarrow> lock_of i = None"
| "plain (Sema_Up i) \<longleftrightarrow> lock_of i = None"
| "plain (Sema_Inc i b) \<longleftrightarrow> lock_of i = None"
| "plain (Lock_Acquire l) \<longleftrightarrow> True"
| "plain (Lock_Set_Holder l) \<longleftrightarrow> False"
| "plain (Lock_Release l) \<longleftrightarrow> True"
| "plain (Cond_Wait c l) \<longleftrightarrow> True"
| "plain (Cond_Signal c l) \<longleftrightarrow> True"
| "plain (Cond_Broadcast c l) \<longleftrightarrow> True"

definition takes_lock :: "sid \<Rightarrow> instr list \<Rightarrow> bool" where
  "takes_lock i ins = (case lock_of i of None \<Rightarrow> list_all plain ins
     | Some l \<Rightarrow> (\<exists>r. ins = Lock_Set_Holder l # r \<and> list_all plain r))"

primrec front_ok :: "instr \<Rightarrow> instr list \<Rightarrow> bool" where
  "front_ok (Sema_Down i) ins = takes_lock i ins"
| "front_ok (Sema_Retest i b) ins = takes_lock i ins"
| "front_ok (Sema_Up i) ins = list_all plain ins"
| "front_ok (Sema_Inc i b) ins = list_all plain ins"
| "front_ok (Lock_Acquire l) ins = list_all plain ins"
| "front_ok (Lock_Set_Holder l) ins = list_all plain ins"
| "front_ok (Lock_Release l) ins = list_all plain ins"
| "front_ok (Cond_Wait c l) ins = list_all plain ins"
| "front_ok (Cond_Signal c l) ins = list_all plain ins"
| "front_ok (Cond_Broadcast c l) ins = list_all plain ins"

fun code_ok :: "instr list \<Rightarrow> bool" where
  "code_ok [] = True"
| "code_ok (i # ins) = front_ok i ins"

text \<open>The lock a thread owns without being its holder: it has taken the lock's semaphore and is about
  to become the holder, or it has given up being the holder and is about to release the semaphore.\<close>

primrec transit_instr :: "instr \<Rightarrow> nat option" where
  "transit_instr (Sema_Down i) = None"
| "transit_instr (Sema_Retest i b) = None"
| "transit_instr (Sema_Up i) = lock_of i"
| "transit_instr (Sema_Inc i b) = lock_of i"
| "transit_instr (Lock_Acquire l) = None"
| "transit_instr (Lock_Set_Holder l) = Some l"
| "transit_instr (Lock_Release l) = None"
| "transit_instr (Cond_Wait c l) = None"
| "transit_instr (Cond_Signal c l) = None"
| "transit_instr (Cond_Broadcast c l) = None"

fun lock_in_transit :: "instr list \<Rightarrow> nat option" where
  "lock_in_transit [] = None"
| "lock_in_transit (i # ins) = transit_instr i"

definition lock_state :: "u32 \<Rightarrow> ptr \<Rightarrow> ptr set \<Rightarrow> bool" where
  "lock_state v h T \<longleftrightarrow> v = 1 \<and> h = 0 \<and> T = {} \<or> v = 0 \<and> h \<noteq> 0 \<and> T = {} \<or>
     v = 0 \<and> h = 0 \<and> (\<exists>t. T = {t})"

definition in_transit :: "sys \<Rightarrow> nat \<Rightarrow> ptr set" where
  "in_transit s l = {t. lock_in_transit (code s t) = Some l}"

definition lock_inv :: "sys \<Rightarrow> bool" where
  "lock_inv s \<longleftrightarrow> (\<forall>t. code_ok (code s t)) \<and>
     (\<forall>l. lock_state (svalue (sems s (Lock_Sem l))) (holders s l) (in_transit s l))"

lemma code_ok_plain: "list_all plain ins \<Longrightarrow> code_ok ins"
proof (cases ins)
  case (Cons i r)
  assume "list_all plain ins"
  with Cons show ?thesis by (cases i) (auto simp: takes_lock_def)
qed simp

lemma transit_plain: "list_all plain ins \<Longrightarrow> lock_in_transit ins = None"
proof (cases ins)
  case (Cons i r)
  assume "list_all plain ins"
  with Cons show ?thesis by (cases i) auto
qed simp

lemma in_transit_upd:
  "in_transit s' l = (if lock_in_transit ins = Some l then insert t (in_transit s l) else in_transit s l - {t})"
  if "code s' = (code s)(t := ins)"
  using that by (auto simp: in_transit_def)

text \<open>An instruction of thread \<open>t\<close> that touches no lock.\<close>

lemma lock_inv_plain:
  assumes "lock_inv s" and "code s' = (code s)(t := ins)" and "list_all plain ins"
    and "lock_in_transit (code s t) = None"
    and "\<And>l. svalue (sems s' (Lock_Sem l)) = svalue (sems s (Lock_Sem l))" and "holders s' = holders s"
  shows "lock_inv s'"
proof -
  have "in_transit s' l = in_transit s l" for l
    using in_transit_upd [OF assms(2)] transit_plain [OF assms(3)] assms(4)
    by (auto simp: in_transit_def)
  then show ?thesis using assms code_ok_plain [OF assms(3)] by (simp add: lock_inv_def)
qed


lemma lock_inv_change:
  assumes "lock_inv s" and "code s' = (code s)(t := ins)" and "code_ok ins"
    and "\<And>l'. l' \<noteq> l \<Longrightarrow> svalue (sems s' (Lock_Sem l')) = svalue (sems s (Lock_Sem l'))"
    and "\<And>l'. l' \<noteq> l \<Longrightarrow> holders s' l' = holders s l'"
    and "lock_in_transit (code s t) \<in> {None, Some l}" and "lock_in_transit ins \<in> {None, Some l}"
    and "lock_state (svalue (sems s' (Lock_Sem l))) (holders s' l)
      (if lock_in_transit ins = Some l then insert t (in_transit s l) else in_transit s l - {t})"
  shows "lock_inv s'"
proof -
  have "lock_state (svalue (sems s' (Lock_Sem l'))) (holders s' l') (in_transit s' l')" for l'
  proof (cases "l' = l")
    case True
    then show ?thesis using assms(8) in_transit_upd [OF assms(2)] by simp
  next
    case False
    then have "in_transit s' l' = in_transit s l'"
      using in_transit_upd [OF assms(2), of l'] assms(6,7) by (auto simp: in_transit_def)
    with False assms(1,4,5) show ?thesis by (simp add: lock_inv_def)
  qed
  then show ?thesis using assms(1-3) by (simp add: lock_inv_def)
qed

lemma lock_inv_state: "lock_inv s \<Longrightarrow> lock_state (svalue (sems s (Lock_Sem l))) (holders s l) (in_transit s l)"
  by (simp add: lock_inv_def)

lemma lock_inv_code: "lock_inv s \<Longrightarrow> code_ok (code s t)"
  by (simp add: lock_inv_def)

lemma held_cur:
  "lock_held_by_current_thread l s = Some b \<Longrightarrow> b = (holders s l = cur_thread s) \<and> cur_thread s \<noteq> 0"
  by (auto simp: lock_held_by_current_thread_def thread_current_def cur_thread_def is_thread_def
      bind_eq_Some_conv)

lemma lock_inv_test:
  assumes inv: "lock_inv s" and c: "code s t = i # ins" "t = cur_thread s0"
    and i: "i = Sema_Down sd \<or> i = Sema_Retest sd lvl"
    and s0: "code s0 = (code s)(t := ins)" "sems s0 = sems s" "holders s0 = holders s"
    and e: "sema_test sd lvl s0 = Some s'"
  shows "lock_inv s'"
proof -
  have tk: "takes_lock sd ins" and tr: "lock_in_transit (code s t) = None"
    using lock_inv_code [OF inv, of t] c(1) i by auto
  consider (take) "svalue (sems s sd) \<noteq> 0"
      "sems s' = (sems s)(sd := (sems s sd)\<lparr>svalue := svalue (sems s sd) - 1\<rparr>)"
      "code s' = (code s)(t := ins)" "holders s' = holders s"
    | (wait) ws where "sems s' = (sems s)(sd := (sems s sd)\<lparr>swaiters := ws\<rparr>)"
      "code s' = (code s)(t := Sema_Retest sd lvl # ins)" "holders s' = holders s"
    using sema_test_cases [OF e] s0 c(2) by auto
  then show ?thesis
  proof cases
    case take
    show ?thesis
    proof (cases "lock_of sd")
      case None
      then have "\<And>l. sd \<noteq> Lock_Sem l" by auto
      then show ?thesis
        using None tk by (intro lock_inv_plain [OF inv take(3) _ tr]) (auto simp: takes_lock_def take)
    next
      case (Some l)
      then have sd: "sd = Lock_Sem l" by (cases sd) auto
      then have "svalue (sems s sd) = 1" "holders s l = 0" "in_transit s l = {}"
        using lock_inv_state [OF inv, of l] take(1) by (auto simp: lock_state_def)
      then show ?thesis
        using Some tk tr sd take
        by (intro lock_inv_change [OF inv take(3), of l]) (auto simp: lock_state_def takes_lock_def)
    qed
  next
    case wait
    have "svalue (sems s' (Lock_Sem l)) = svalue (sems s (Lock_Sem l))" for l by (simp add: wait)
    moreover have "in_transit s' l = in_transit s l" for l
      using in_transit_upd [OF wait(2), of l] tr by (auto simp: in_transit_def)
    moreover have "code_ok (Sema_Retest sd lvl # ins)" using tk by simp
    ultimately show ?thesis using inv wait(2,3) by (simp add: lock_inv_def)
  qed
qed

lemma lock_inv_up:
  assumes inv: "lock_inv s" and c: "code s t = Sema_Up sd # ins" "t = cur_thread s0"
    and s0: "code s0 = (code s)(t := ins)" "sems s0 = sems s" "holders s0 = holders s"
    and e: "sema_up sd s0 = Some s'"
  shows "lock_inv s'"
proof -
  have pl: "list_all plain ins" and tr: "lock_in_transit (code s t) = lock_of sd"
    using lock_inv_code [OF inv, of t] c(1) by auto
  consider (now) ws where "sems s' = (sems s)(sd := \<lparr>svalue = svalue (sems s sd) + 1, swaiters = ws\<rparr>)"
      "code s' = (code s)(t := ins)" "holders s' = holders s"
    | (later) ws lvl where "sems s' = (sems s)(sd := (sems s sd)\<lparr>swaiters := ws\<rparr>)"
      "code s' = (code s)(t := Sema_Inc sd lvl # ins)" "holders s' = holders s"
    using sema_up_cases [OF e] s0 c(2) by auto
  then show ?thesis
  proof cases
    case now
    show ?thesis
    proof (cases "lock_of sd")
      case None
      then have "\<And>l. Lock_Sem l \<noteq> sd" by auto
      then show ?thesis
        using None tr by (intro lock_inv_plain [OF inv now(2) pl]) (auto simp: now)
    next
      case (Some l)
      then have sd: "sd = Lock_Sem l" by (cases sd) auto
      have "t \<in> in_transit s l" using tr Some by (simp add: in_transit_def)
      then have "svalue (sems s sd) = 0" "holders s l = 0" "in_transit s l = {t}"
        using lock_inv_state [OF inv, of l] sd by (auto simp: lock_state_def)
      then show ?thesis
        using Some tr sd now transit_plain [OF pl] code_ok_plain [OF pl]
        by (intro lock_inv_change [OF inv now(2), of l]) (auto simp: lock_state_def)
    qed
  next
    case later
    have "svalue (sems s' (Lock_Sem l)) = svalue (sems s (Lock_Sem l))" for l by (simp add: later)
    moreover have "in_transit s' l = in_transit s l" for l
      using in_transit_upd [OF later(2), of l] tr by (auto simp: in_transit_def)
    moreover have "code_ok (Sema_Inc sd lvl # ins)" using pl by simp
    ultimately show ?thesis using inv later(2,3) by (simp add: lock_inv_def)
  qed
qed

lemma lock_inv_inc:
  assumes inv: "lock_inv s" and c: "code s t = Sema_Inc sd lvl # ins"
    and s': "code s' = (code s)(t := ins)" "holders s' = holders s"
      "sems s' = (sems s)(sd := (sems s sd)\<lparr>svalue := svalue (sems s sd) + 1\<rparr>)"
  shows "lock_inv s'"
proof -
  have pl: "list_all plain ins" and tr: "lock_in_transit (code s t) = lock_of sd"
    using lock_inv_code [OF inv, of t] c(1) by auto
  show ?thesis
  proof (cases "lock_of sd")
    case None
    then have "\<And>l. Lock_Sem l \<noteq> sd" by auto
    then show ?thesis
      using None tr by (intro lock_inv_plain [OF inv s'(1) pl]) (auto simp: s')
  next
    case (Some l)
    then have sd: "sd = Lock_Sem l" by (cases sd) auto
    have "t \<in> in_transit s l" using tr Some by (simp add: in_transit_def)
    then have "svalue (sems s sd) = 0" "holders s l = 0" "in_transit s l = {t}"
      using lock_inv_state [OF inv, of l] sd by (auto simp: lock_state_def)
    then show ?thesis
      using Some tr sd s' transit_plain [OF pl] code_ok_plain [OF pl]
      by (intro lock_inv_change [OF inv s'(1), of l]) (auto simp: lock_state_def)
  qed
qed

lemma run_instr_lock_inv:
  assumes inv: "lock_inv s" and run: "run_instr s = Some s'"
  shows "lock_inv s'"
proof -
  let ?t = "cur_thread s"
  obtain i ins where c: "code s ?t = i # ins"
    using run by (cases "code s ?t") (auto simp: run_instr_def)
  define s0 where "s0 = s\<lparr>code := (code s)(?t := ins)\<rparr>"
  have e: "exec i s0 = Some s'" using run c by (simp add: run_instr_def s0_def)
  have s0: "code s0 = (code s)(?t := ins)" "sems s0 = sems s" "holders s0 = holders s" "cur_thread s0 = ?t"
    by (simp_all add: s0_def cur_thread_def)
  have ck: "front_ok i ins" using lock_inv_code [OF inv, of ?t] c by simp
  show ?thesis
  proof (cases i)
    case (Sema_Down sd)
    then have t: "sema_test sd (intr_on (kern s0)) (s0\<lparr>kern := (kern s0)\<lparr>intr_on := False\<rparr>\<rparr>) = Some s'"
      using e by (simp add: sema_down_def Let_def)
    show ?thesis
      by (rule lock_inv_test [OF inv c _ _ _ _ _ t]) (simp_all add: s0 cur_thread_def Sema_Down, simp add: s0_def)
  next
    case (Sema_Retest sd lvl)
    then have t: "sema_test sd lvl s0 = Some s'" using e by simp
    show ?thesis by (rule lock_inv_test [OF inv c _ _ _ _ _ t]) (simp_all add: s0 Sema_Retest)
  next
    case (Sema_Up sd)
    then have t: "sema_up sd s0 = Some s'" using e by simp
    have "code s ?t = Sema_Up sd # ins" using c Sema_Up by simp
    from lock_inv_up [OF inv this s0(4) [symmetric] s0(1-3) t] show ?thesis .
  next
    case (Sema_Inc sd lvl)
    then have "s' = sema_inc sd lvl s0" using e by simp
    then show ?thesis
      using lock_inv_inc [OF inv, of ?t sd lvl ins s'] c Sema_Inc s0
      by (simp add: sema_inc_def set_sem_def)
  next
    case (Lock_Acquire l)
    then have "s' = continue_with [Sema_Down (Lock_Sem l), Lock_Set_Holder l] ?t s0"
      using e s0(4) by (auto simp: lock_acquire_def bind_eq_Some_conv)
    then have "code s' = (code s)(?t := Sema_Down (Lock_Sem l) # Lock_Set_Holder l # ins)"
      "sems s' = sems s" "holders s' = holders s"
      by (simp_all add: continue_with_def s0)
    then show ?thesis
      using ck c Lock_Acquire lock_inv_state [OF inv, of l]
      by (intro lock_inv_change [OF inv, of s' ?t _ l]) (auto simp: takes_lock_def in_transit_def)
  next
    case (Lock_Set_Holder l)
    have "?t \<in> in_transit s l" using c Lock_Set_Holder by (simp add: in_transit_def)
    then have st: "svalue (sems s (Lock_Sem l)) = 0" "in_transit s l = {?t}"
      using lock_inv_state [OF inv, of l] by (auto simp: lock_state_def)
    obtain th where "thread_current (kern s0) = Some (?t, th)" "?t \<noteq> 0"
      using e Lock_Set_Holder s0(4)
      by (auto simp: lock_set_holder_def thread_current_def cur_thread_def is_thread_def bind_eq_Some_conv)
    then have "s' = s0\<lparr>holders := (holders s0)(l := ?t)\<rparr>"
      using e Lock_Set_Holder by (simp add: lock_set_holder_def)
    then have s': "code s' = (code s)(?t := ins)" "sems s' = sems s" "holders s' = (holders s)(l := ?t)"
      by (simp_all add: s0)
    show ?thesis
      using ck c Lock_Set_Holder st \<open>?t \<noteq> 0\<close> s'
      by (intro lock_inv_change [OF inv s'(1), of l])
        (auto simp: lock_state_def transit_plain code_ok_plain)
  next
    case (Lock_Release l)
    then have h: "holders s l = ?t" "?t \<noteq> 0"
      "s' = continue_with [Sema_Up (Lock_Sem l)] ?t (s0\<lparr>holders := (holders s0)(l := 0)\<rparr>)"
      using e s0 held_cur [of l s0] by (auto simp: lock_release_def bind_eq_Some_conv)
    then have s': "code s' = (code s)(?t := Sema_Up (Lock_Sem l) # ins)" "sems s' = sems s"
      "holders s' = (holders s)(l := 0)"
      by (simp_all add: continue_with_def s0)
    have "svalue (sems s (Lock_Sem l)) = 0" "in_transit s l = {}"
      using lock_inv_state [OF inv, of l] h(1,2) by (auto simp: lock_state_def)
    then show ?thesis
      using ck c Lock_Release s'
      by (intro lock_inv_change [OF inv s'(1), of l]) (auto simp: lock_state_def)
  next
    case (Cond_Wait cv l)
    then have s': "code s' = (code s)(?t := Lock_Release l # Sema_Down (Waiter_Sem ?t) # Lock_Acquire l # ins)"
      "holders s' = holders s" "sems s' = (sems s)(Waiter_Sem ?t := sema_init 0)"
      using e s0 by (auto simp: cond_wait_def Let_def continue_with_def set_sem_def bind_eq_Some_conv cur_thread_def)
    show ?thesis
      by (rule lock_inv_plain [OF inv s'(1)]) (use ck c Cond_Wait s' in auto)
  next
    case (Cond_Signal cv l)
    then have "holders s' = holders s" "sems s' = sems s"
      "\<exists>ins'. code s' = (code s)(?t := ins' @ ins) \<and> list_all plain ins'"
      using e s0 by (auto simp: cond_signal_def continue_with_def bind_eq_Some_conv cur_thread_def
          intro: exI [of _ "[]"] exI [of _ "[Sema_Up (Waiter_Sem _)]"] split: list.splits)
    then obtain ins' where s': "code s' = (code s)(?t := ins' @ ins)" "list_all plain ins'"
      "holders s' = holders s" "sems s' = sems s" by blast
    show ?thesis
      by (rule lock_inv_plain [OF inv s'(1)]) (use ck c Cond_Signal s' in auto)
  next
    case (Cond_Broadcast cv l)
    then have "holders s' = holders s" "sems s' = sems s"
      "\<exists>ins'. code s' = (code s)(?t := ins' @ ins) \<and> list_all plain ins'"
      using e s0 by (auto simp: cond_broadcast_def continue_with_def cur_thread_def
          intro: exI [of _ "[]"] exI [of _ "[Cond_Signal cv l, Cond_Broadcast cv l]"] split: if_splits)
    then obtain ins' where s': "code s' = (code s)(?t := ins' @ ins)" "list_all plain ins'"
      "holders s' = holders s" "sems s' = sems s" by blast
    show ?thesis
      by (rule lock_inv_plain [OF inv s'(1)]) (use ck c Cond_Broadcast s' in auto)
  qed
qed

lemma sys_step_lock_inv: "sys_step s s' \<Longrightarrow> lock_inv s \<Longrightarrow> lock_inv s'"
proof (induction rule: sys_step.induct)
  case (sys_run s s')
  then show ?case using run_instr_lock_inv by blast
next
  case (sys_call s i)
  have "list_all plain [i]"
    using sys_call(2) by (cases i rule: public_call.cases) auto
  then show ?case
    using sys_call(1,3) by (intro lock_inv_plain [OF sys_call.prems, of _ "cur_thread s" "[i]"]) auto
next
  case (sys_preempt s k)
  then show ?case by (simp add: lock_inv_def in_transit_def)
qed

subsection \<open>Wake-ups\<close>

text \<open>
  Among threads of equal priority no wake-up is lost. A thread is woken when it has been taken from
  the waiting list but has not yet tested the semaphore again; while threads wait, there are at
  least as many woken threads as the value of the semaphore.
\<close>

fun retests :: "instr list \<Rightarrow> sid option" where
  "retests [] = None"
| "retests (i # ins) = (case i of Sema_Retest sd b \<Rightarrow> Some sd | _ \<Rightarrow> None)"

fun inner :: "instr \<Rightarrow> bool" where
  "inner (Sema_Retest sd b) = True"
| "inner (Sema_Inc sd b) = True"
| "inner _ = False"

text \<open>Only the first instruction can be a retest, and no increment is pending.\<close>

fun calm_code :: "instr list \<Rightarrow> bool" where
  "calm_code [] = True"
| "calm_code (i # ins) = ((\<forall>sd b. i \<noteq> Sema_Inc sd b) \<and> list_all (\<lambda>i. \<not> inner i) ins)"

definition woken :: "sys \<Rightarrow> sid \<Rightarrow> ptr set" where
  "woken s sd = {t. retests (code s t) = Some sd \<and> t \<notin> set (swaiters (sems s sd))}"

definition equal_priorities :: "kernel \<Rightarrow> bool" where
  "equal_priorities k \<longleftrightarrow> (\<exists>p. \<forall>t th. threads k t = Some th \<and> t \<noteq> idle_thread k \<longrightarrow> priority th = p)"

definition waiter_ok :: "sys \<Rightarrow> sid \<Rightarrow> ptr \<Rightarrow> bool" where
  "waiter_ok s sd t \<longleftrightarrow> retests (code s t) = Some sd \<and> t \<noteq> idle_thread (kern s) \<and>
     (\<exists>th. threads (kern s) t = Some th \<and> status th = THREAD_BLOCKED)"

definition wake_inv :: "sys \<Rightarrow> bool" where
  "wake_inv s \<longleftrightarrow> sched_ok (kern s) \<and> equal_priorities (kern s) \<and> finite {t. code s t \<noteq> []} \<and>
     code s (idle_thread (kern s)) = [] \<and> (\<forall>t. calm_code (code s t)) \<and>
     (\<forall>sd. distinct (swaiters (sems s sd)) \<and> (\<forall>t\<in>set (swaiters (sems s sd)). waiter_ok s sd t) \<and>
       (swaiters (sems s sd) \<noteq> [] \<longrightarrow> unat (svalue (sems s sd)) \<le> card (woken s sd)))"

lemma finite_woken: "finite {t. code s t \<noteq> []} \<Longrightarrow> finite (woken s sd)"
  by (rule finite_subset) (auto simp: woken_def)

lemma not_inner_retests: "list_all (\<lambda>i. \<not> inner i) ins \<Longrightarrow> retests ins = None \<and> calm_code ins"
  by (cases ins) (auto split: instr.splits)

text \<open>The scheduler's operations under equal priorities.\<close>

lemma equal_priorities_switch:
  assumes "handed_over (descheduled k s lvl rq) k'" and "equal_priorities k" and "s \<noteq> THREAD_DYING"
    and cur: "threads k (running k) = Some c"
  shows "equal_priorities k'"
proof -
  obtain p where p: "\<forall>t th. threads k t = Some th \<and> t \<noteq> idle_thread k \<longrightarrow> priority th = p"
    using assms(2) by (auto simp: equal_priorities_def)
  let ?k = "descheduled k s lvl rq"
  have p': "priority v = p" if "threads ?k u = Some v" "u \<noteq> idle_thread k" for u v
    using that p by (auto simp: descheduled_def split: if_splits)
  have "priority th = p" if "threads k' t = Some th" "t \<noteq> idle_thread k'" for t th
  proof -
    have ne: "t \<noteq> idle_thread k" using that(2) handed_over_running(4) [OF assms(1)] by simp
    show ?thesis
    proof (cases "t = running k' \<or> t = running k")
      case True
      then obtain v where v: "threads ?k t = Some v" "status v \<noteq> THREAD_DYING"
        using handed_over_running(1) [OF assms(1)] cur assms(3) by (auto simp: descheduled_def)
      then show ?thesis
        using handed_over_thread [OF assms(1) v] that(1) p' [OF v(1) ne] by (auto split: if_splits)
    next
      case False
      then have "threads k' t = threads ?k t" using handed_over_frame [OF assms(1), of t] by auto
      then show ?thesis using p' [OF _ ne] that(1) by simp
    qed
  qed
  then show ?thesis by (auto simp: equal_priorities_def)
qed

lemma thread_block_waits:
  assumes ok: "sched_ok k" and eq: "equal_priorities k" and e: "thread_block k = Some k'"
  shows "sched_ok k' \<and> equal_priorities k' \<and> idle_thread k' = idle_thread k"
    and "threads k u = Some v \<Longrightarrow> status v = THREAD_BLOCKED \<or> u = running k \<Longrightarrow> u \<noteq> idle_thread k \<Longrightarrow>
      \<exists>w. threads k' u = Some w \<and> status w = THREAD_BLOCKED"
proof -
  have lv: "\<not> intr_on k" "\<not> in_external_intr k" using e by (auto simp: thread_block_def)
  let ?k = "descheduled k THREAD_BLOCKED False (run_queue k)"
  have h: "handed_over ?k k'" using thread_block_ok [OF ok lv] e by simp
  obtain c where c: "threads k (running k) = Some c" using sched_ok_running [OF ok] by blast
  show "sched_ok k' \<and> equal_priorities k' \<and> idle_thread k' = idle_thread k"
    using handed_over_running [OF h] equal_priorities_switch [OF h eq _ c] by simp
  assume u: "threads k u = Some v" "status v = THREAD_BLOCKED \<or> u = running k" "u \<noteq> idle_thread k"
  then obtain w where "threads ?k u = Some w" "status w = THREAD_BLOCKED"
    by (cases "u = running k") (auto simp: descheduled_def)
  then show "\<exists>w. threads k' u = Some w \<and> status w = THREAD_BLOCKED"
    using handed_over_blocked(1) [OF h] u(3) by auto
qed

lemma thread_yield_waits:
  assumes ok: "sched_ok k" and eq: "equal_priorities k" and e: "thread_yield k = Some k'"
  shows "sched_ok k' \<and> equal_priorities k' \<and> idle_thread k' = idle_thread k"
    and "threads k u = Some v \<Longrightarrow> status v = THREAD_BLOCKED \<Longrightarrow> u \<noteq> idle_thread k \<Longrightarrow>
      threads k' u = Some v"
proof -
  obtain c where c: "threads k (running k) = Some c" using sched_ok_running [OF ok] by blast
  obtain rq where h: "handed_over (descheduled k THREAD_READY (intr_on k) rq) k'"
    using yield_to_scheduler_ok [OF ok _ c, of "intr_on k"] e sched_ok_running [OF ok]
    by (auto simp: thread_yield_def yield_to_scheduler_def)
  show "sched_ok k' \<and> equal_priorities k' \<and> idle_thread k' = idle_thread k"
    using handed_over_running [OF h] equal_priorities_switch [OF h eq _ c] by simp
  assume u: "threads k u = Some v" "status v = THREAD_BLOCKED" "u \<noteq> idle_thread k"
  then have "u \<noteq> running k" using running_status [OF ok u(1)] by auto
  then show "threads k' u = Some v"
    using handed_over_blocked(1) [OF h, of u v] u by (simp add: descheduled_def)
qed

lemma equal_priorities_intr_on [simp]: "equal_priorities (k\<lparr>intr_on := b\<rparr>) = equal_priorities k"
  by (simp add: equal_priorities_def)

lemma thread_unblock_calm:
  assumes ok: "sched_ok k" and eq: "equal_priorities k" and e: "thread_unblock k t = Some k'"
    and t: "t \<noteq> idle_thread k"
  shows "sched_ok k' \<and> equal_priorities k' \<and> idle_thread k' = idle_thread k \<and> running k' = running k \<and>
    (\<forall>u. u \<noteq> t \<longrightarrow> threads k' u = threads k u)"
proof -
  obtain th where th: "threads k t = Some th" "status th = THREAD_BLOCKED"
    using e by (auto simp: thread_unblock_def Let_def bind_eq_Some_conv)
  obtain c where c: "threads k (running k) = Some c" using sched_ok_running [OF ok] by blast
  have "\<not> (running k \<noteq> idle_thread k \<and> priority c < priority th)"
    using eq th(1) c t by (auto simp: equal_priorities_def)
  then obtain rq where "sched_ok (unblocked k t th rq)" "k' = (unblocked k t th rq)\<lparr>intr_on := intr_on k\<rparr>"
    using thread_unblock_eq [OF ok th t c] e by auto
  moreover have "equal_priorities (unblocked k t th rq)"
    using eq th(1) t by (auto simp: equal_priorities_def unblocked_def)
  moreover have "threads (unblocked k t th rq) u = threads k u" if "u \<noteq> t" for u
    using that by (simp add: unblocked_def)
  ultimately show ?thesis by simp
qed

text \<open>A step of the scheduler that wakes no thread waiting for a semaphore.\<close>

definition still_waiting :: "kernel \<Rightarrow> kernel \<Rightarrow> bool" where
  "still_waiting k k' \<longleftrightarrow> sched_ok k' \<and> equal_priorities k' \<and> idle_thread k' = idle_thread k \<and>
     (\<forall>u v. threads k u = Some v \<and> status v = THREAD_BLOCKED \<and> u \<noteq> idle_thread k \<longrightarrow>
        (\<exists>w. threads k' u = Some w \<and> status w = THREAD_BLOCKED))"

definition sem_ok :: "sys \<Rightarrow> sid \<Rightarrow> bool" where
  "sem_ok s sd \<longleftrightarrow> distinct (swaiters (sems s sd)) \<and> (\<forall>t\<in>set (swaiters (sems s sd)). waiter_ok s sd t) \<and>
     (swaiters (sems s sd) \<noteq> [] \<longrightarrow> unat (svalue (sems s sd)) \<le> card (woken s sd))"

lemma wake_inv_sem: "wake_inv s \<Longrightarrow> sem_ok s sd"
  by (simp add: wake_inv_def sem_ok_def)

lemma wake_invI:
  assumes "wake_inv s" and "still_waiting (kern s) (kern s')" and "code s' = (code s)(t := ins)"
    and "t \<noteq> idle_thread (kern s)" and "calm_code ins" and "\<And>sd. sem_ok s' sd"
  shows "wake_inv s'"
proof -
  have "{u. code s' u \<noteq> []} \<subseteq> insert t {u. code s u \<noteq> []}" using assms(3) by auto
  moreover have "finite (insert t {u. code s u \<noteq> []})" using assms(1) by (simp add: wake_inv_def)
  ultimately have "finite {u. code s' u \<noteq> []}" by (rule finite_subset)
  then show ?thesis
    using assms unfolding wake_inv_def sem_ok_def still_waiting_def by simp
qed

lemma sem_ok_frame:
  assumes "sem_ok s sd" and "still_waiting (kern s) (kern s')" and "code s' = (code s)(t := ins)"
    and "sems s' sd = sems s sd" and "retests (code s t) \<noteq> Some sd" and "retests ins \<noteq> Some sd"
  shows "sem_ok s' sd"
proof -
  have "woken s' sd = woken s sd" using assms(3-6) by (auto simp: woken_def)
  moreover have "waiter_ok s' sd u" if "waiter_ok s sd u" for u
    using that assms(2,3,5) by (auto simp: waiter_ok_def still_waiting_def)
  ultimately show ?thesis using assms(1,4) by (simp add: sem_ok_def)
qed

lemma running_not_waiter:
  assumes "wake_inv s" and "t \<in> set (swaiters (sems s sd))"
  shows "t \<noteq> cur_thread s"
proof -
  obtain th where "threads (kern s) t = Some th" "status th = THREAD_BLOCKED"
    using wake_inv_sem [OF assms(1), of sd] assms(2) by (auto simp: sem_ok_def waiter_ok_def)
  moreover have "sched_ok (kern s)" using assms(1) by (simp add: wake_inv_def)
  ultimately show ?thesis using running_status by (fastforce simp: cur_thread_def)
qed

lemma still_waiting_refl: "wake_inv s \<Longrightarrow> still_waiting (kern s) ((kern s)\<lparr>intr_on := b\<rparr>)"
  by (auto simp: still_waiting_def wake_inv_def)

lemma wake_inv_test:
  assumes inv: "wake_inv s" and c: "code s t = i # ins" "t = cur_thread s"
    and i: "i = Sema_Down sd \<or> i = Sema_Retest sd lvl"
    and s0: "code s0 = (code s)(t := ins)" "sems s0 = sems s" "kern s0 = (kern s)\<lparr>intr_on := b\<rparr>"
    and e: "sema_test sd lvl s0 = Some s'"
  shows "wake_inv s'"
proof -
  have calm: "list_all (\<lambda>i. \<not> inner i) ins" and fin: "finite {t. code s t \<noteq> []}"
    and idle: "t \<noteq> idle_thread (kern s)" and ok: "sched_ok (kern s)" "equal_priorities (kern s)"
    using inv c by (auto simp: wake_inv_def dest: spec [of _ t])
  note ni = not_inner_retests [OF calm]
  have head: "retests (code s t) \<noteq> Some j" if "j \<noteq> sd" for j using c(1) i that by auto
  have notw: "t \<notin> set (swaiters (sems s j))" for j using running_not_waiter [OF inv] c(2) by blast
  have cur0: "cur_thread s0 = t" using c(2) s0(3) by (simp add: cur_thread_def)
  consider (take) "svalue (sems s sd) \<noteq> 0"
      "sems s' = (sems s)(sd := (sems s sd)\<lparr>svalue := svalue (sems s sd) - 1\<rparr>)"
      "code s' = (code s)(t := ins)" "kern s' = (kern s)\<lparr>intr_on := lvl\<rparr>"
    | (wait) "svalue (sems s sd) = 0"
      "sems s' = (sems s)(sd := (sems s sd)\<lparr>swaiters := swaiters (sems s sd) @ [t]\<rparr>)"
      "code s' = (code s)(t := Sema_Retest sd lvl # ins)" "thread_block ((kern s)\<lparr>intr_on := b\<rparr>) = Some (kern s')"
    using sema_test_cases [OF e] s0 cur0 by auto
  then show ?thesis
  proof cases
    case take
    have sw: "still_waiting (kern s) (kern s')" using still_waiting_refl [OF inv] take(4) by simp
    have "sem_ok s' j" for j
    proof (cases "j = sd")
      case True
      have "woken s' sd = woken s sd - {t}" using take(2,3) ni by (auto simp: woken_def)
      then have "card (woken s sd) \<le> Suc (card (woken s' sd))"
        using finite_woken [OF fin, of sd] card_Suc_Diff1 [of "woken s sd" t]
        by (cases "t \<in> woken s sd") auto
      moreover have "unat (svalue (sems s sd) - 1) = unat (svalue (sems s sd)) - 1"
        using take(1) by (rule unat_minus_one)
      moreover have "waiter_ok s' sd u" if "u \<in> set (swaiters (sems s sd))" for u
        using that inv sw take(3) notw [of sd] by (auto simp: wake_inv_def waiter_ok_def still_waiting_def)
      ultimately show ?thesis
        using wake_inv_sem [OF inv, of sd] True take(2) by (auto simp: sem_ok_def)
    next
      case False
      show ?thesis
        by (rule sem_ok_frame [OF wake_inv_sem [OF inv] sw take(3)])
          (use False take(2) head [OF False] ni in auto)
    qed
    then show ?thesis using wake_invI [OF inv sw take(3) idle] ni by blast
  next
    case wait
    have blk: "\<exists>w. threads (kern s') u = Some w \<and> status w = THREAD_BLOCKED"
      if "threads (kern s) u = Some v" "status v = THREAD_BLOCKED \<or> u = t" "u \<noteq> idle_thread (kern s)" for u v
      using thread_block_waits(2) [OF _ _ wait(4), of u v] ok that c(2) by (simp add: cur_thread_def)
    have sw: "still_waiting (kern s) (kern s')"
      using thread_block_waits(1) [OF _ _ wait(4)] ok blk by (auto simp: still_waiting_def)
    obtain ct where ct: "threads (kern s) t = Some ct" using sched_ok_running [OF ok(1)] c(2) by (auto simp: cur_thread_def)
    have "sem_ok s' j" for j
    proof (cases "j = sd")
      case True
      have "waiter_ok s' sd u" if "u \<in> set (swaiters (sems s sd))" for u
        using that inv sw wait(3) notw [of sd] by (auto simp: wake_inv_def waiter_ok_def still_waiting_def)
      moreover have "waiter_ok s' sd t"
        using wait(3) idle blk [OF ct] sw by (auto simp: waiter_ok_def still_waiting_def)
      ultimately show ?thesis
        using wake_inv_sem [OF inv, of sd] True wait(1,2) notw [of sd] by (auto simp: sem_ok_def)
    next
      case False
      show ?thesis
        by (rule sem_ok_frame [OF wake_inv_sem [OF inv] sw wait(3)])
          (use False wait(2) head [OF False] in auto)
    qed
    then show ?thesis using wake_invI [OF inv sw wait(3) idle] calm by auto
  qed
qed

lemma sema_up_calm:
  assumes e: "sema_up sd s = Some s'" and w: "swaiters (sems s sd) = w # ws"
    and calm: "\<And>k. thread_unblock ((kern s)\<lparr>intr_on := False\<rparr>) w = Some k \<Longrightarrow> running k = cur_thread s"
  shows "\<exists>k. thread_unblock ((kern s)\<lparr>intr_on := False\<rparr>) w = Some k \<and>
    kern s' = k\<lparr>intr_on := intr_on (kern s)\<rparr> \<and> code s' = code s \<and>
    sems s' = (sems s)(sd := \<lparr>svalue = svalue (sems s sd) + 1, swaiters = ws\<rparr>)"
proof -
  define s1 where "s1 = set_sem sd ((sems s sd)\<lparr>swaiters := ws\<rparr>) (s\<lparr>kern := (kern s)\<lparr>intr_on := False\<rparr>\<rparr>)"
  obtain k where k: "thread_unblock (kern s1) w = Some k"
    "s' = (if cur_thread (s1\<lparr>kern := k\<rparr>) = cur_thread s then sema_inc sd (intr_on (kern s)) (s1\<lparr>kern := k\<rparr>)
           else continue_with [Sema_Inc sd (intr_on (kern s))] (cur_thread s) (s1\<lparr>kern := k\<rparr>))"
    using e w unfolding sema_up_def s1_def by (auto simp: bind_eq_Some_conv Let_def)
  have "kern s1 = (kern s)\<lparr>intr_on := False\<rparr>" by (simp add: s1_def set_sem_def)
  with k calm have u: "thread_unblock ((kern s)\<lparr>intr_on := False\<rparr>) w = Some k"
    and "s' = sema_inc sd (intr_on (kern s)) (s1\<lparr>kern := k\<rparr>)"
    by (auto simp: cur_thread_def)
  then show ?thesis by (simp add: sema_inc_def set_sem_def s1_def semaphore_value_upd)
qed

lemma wake_inv_up:
  assumes inv: "wake_inv s" and c: "code s t = Sema_Up sd # ins" "t = cur_thread s"
    and s0: "code s0 = (code s)(t := ins)" "sems s0 = sems s" "kern s0 = kern s"
    and e: "sema_up sd s0 = Some s'"
  shows "wake_inv s'"
proof -
  have calm: "list_all (\<lambda>i. \<not> inner i) ins" and fin: "finite {t. code s t \<noteq> []}"
    and idle: "t \<noteq> idle_thread (kern s)" and ok: "sched_ok (kern s)" "equal_priorities (kern s)"
    using inv c by (auto simp: wake_inv_def dest: spec [of _ t])
  note ni = not_inner_retests [OF calm] and sok = wake_inv_sem [OF inv, of sd]
  have head: "retests (code s t) = None" using c(1) by simp
  show ?thesis
  proof (cases "swaiters (sems s sd)")
    case Nil
    then have s': "s' = sema_inc sd (intr_on (kern s0)) (s0\<lparr>kern := (kern s0)\<lparr>intr_on := False\<rparr>\<rparr>)"
      using e s0(2) by (simp add: sema_up_def)
    have sw: "still_waiting (kern s) (kern s')"
      using still_waiting_refl [OF inv, of "intr_on (kern s)"] by (simp add: s' sema_inc_def set_sem_def s0(3))
    have cs: "code s' = (code s)(t := ins)" by (simp add: s' sema_inc_def set_sem_def s0)
    have "sem_ok s' j" for j
    proof (cases "j = sd")
      case True
      then show ?thesis using Nil s0(2) by (simp add: sem_ok_def s' sema_inc_def set_sem_def)
    next
      case False
      show ?thesis
        by (rule sem_ok_frame [OF wake_inv_sem [OF inv] sw cs])
          (use False head ni s0(2) in \<open>auto simp: s' sema_inc_def set_sem_def\<close>)
    qed
    then show ?thesis using wake_invI [OF inv sw cs idle] ni by blast
  next
    case (Cons w ws)
    have w: "waiter_ok s sd w" "w \<notin> set ws" "distinct ws" using sok Cons by (auto simp: sem_ok_def)
    then have wi: "w \<noteq> idle_thread (kern s)" by (simp add: waiter_ok_def)
    have calm_k: "running k = running (kern s)"
      if "thread_unblock ((kern s)\<lparr>intr_on := False\<rparr>) w = Some k" for k
      using thread_unblock_calm [OF _ _ that] ok wi by simp
    obtain k where k: "thread_unblock ((kern s)\<lparr>intr_on := False\<rparr>) w = Some k"
      "kern s' = k\<lparr>intr_on := intr_on (kern s)\<rparr>" "code s' = (code s)(t := ins)"
      "sems s' = (sems s)(sd := \<lparr>svalue = svalue (sems s sd) + 1, swaiters = ws\<rparr>)"
      using sema_up_calm [OF e, of w ws] calm_k Cons s0 c(2) by (auto simp: cur_thread_def)
    have kk: "sched_ok k" "equal_priorities k" "idle_thread k = idle_thread (kern s)"
      "\<And>u. u \<noteq> w \<Longrightarrow> threads k u = threads (kern s) u"
      using thread_unblock_calm [OF _ _ k(1)] ok wi by simp_all
    have wok: "waiter_ok s' j u" if "waiter_ok s j u" "u \<noteq> w" "u \<noteq> t" for j u
      using that k(2,3) kk(3,4) by (auto simp: waiter_ok_def)
    have notw: "t \<notin> set (swaiters (sems s j))" for j using running_not_waiter [OF inv] c(2) by blast
    have tw: "t \<noteq> w" using notw [of sd] Cons by auto
    have "sem_ok s' j" for j
    proof (cases "j = sd")
      case True
      have "woken s' sd = insert w (woken s sd)"
        using k(3,4) Cons w head ni tw by (auto simp: woken_def waiter_ok_def)
      moreover have "w \<notin> woken s sd" using Cons by (simp add: woken_def)
      ultimately have "card (woken s' sd) = Suc (card (woken s sd))"
        using finite_woken [OF fin, of sd] by simp
      moreover have "unat (svalue (sems s sd) + 1) \<le> Suc (unat (svalue (sems s sd)))"
        by (simp add: unat_word_ariths)
      moreover have "waiter_ok s' sd u" if "u \<in> set ws" for u
        using that sok Cons w(2) notw [of sd] by (intro wok) (auto simp: sem_ok_def)
      ultimately show ?thesis
        using sok Cons True w(3) k(4) by (auto simp: sem_ok_def)
    next
      case False
      have "waiter_ok s' j u" if "u \<in> set (swaiters (sems s j))" for u
      proof -
        have "waiter_ok s j u" using wake_inv_sem [OF inv, of j] that by (simp add: sem_ok_def)
        moreover from this have "u \<noteq> w" using w(1) False by (auto simp: waiter_ok_def)
        ultimately show ?thesis using that notw by (intro wok) auto
      qed
      moreover have "woken s' j = woken s j" using k(3,4) False head ni by (auto simp: woken_def)
      ultimately show ?thesis using wake_inv_sem [OF inv, of j] k(4) False by (simp add: sem_ok_def)
    qed
    moreover have "finite {u. code s' u \<noteq> []}"
      using fin by (rule rev_finite_subset [OF finite.insertI [of _ t]]) (auto simp: k(3))
    ultimately show ?thesis
      using inv k(2,3) kk idle ni unfolding wake_inv_def sem_ok_def by simp
  qed
qed

lemma wake_inv_code_only:
  assumes inv: "wake_inv s" and t: "t \<noteq> idle_thread (kern s)" and "kern s' = kern s"
    and "code s' = (code s)(t := ins)" and "list_all (\<lambda>i. \<not> inner i) ins" and "retests (code s t) = None"
    and sm: "\<And>sd. sems s' sd = sems s sd \<or> swaiters (sems s' sd) = []"
  shows "wake_inv s'"
proof -
  note ni = not_inner_retests [OF assms(5)]
  have sw: "still_waiting (kern s) (kern s')"
    using still_waiting_refl [OF inv, of "intr_on (kern s)"] assms(3) by simp
  have "sem_ok s' sd" for sd
    using sm [of sd]
  proof
    assume "sems s' sd = sems s sd"
    then show ?thesis
      using sem_ok_frame [OF wake_inv_sem [OF inv] sw assms(4)] assms(6) ni by simp
  next
    assume "swaiters (sems s' sd) = []"
    then show ?thesis by (simp add: sem_ok_def)
  qed
  then show ?thesis using wake_invI [OF inv sw assms(4) t] ni by blast
qed

lemma run_instr_wake_inv:
  assumes inv: "wake_inv s" and run: "run_instr s = Some s'"
  shows "wake_inv s'"
proof -
  let ?t = "cur_thread s"
  obtain i ins where c: "code s ?t = i # ins"
    using run by (cases "code s ?t") (auto simp: run_instr_def)
  define s0 where "s0 = s\<lparr>code := (code s)(?t := ins)\<rparr>"
  have e: "exec i s0 = Some s'" using run c by (simp add: run_instr_def s0_def)
  have s0: "code s0 = (code s)(?t := ins)" "sems s0 = sems s" "kern s0 = kern s" "cur_thread s0 = ?t"
    by (simp_all add: s0_def cur_thread_def)
  have idle: "?t \<noteq> idle_thread (kern s)" using inv c by (auto simp: wake_inv_def)
  have "calm_code (i # ins)" using inv c by (metis wake_inv_def)
  then have calm: "list_all (\<lambda>i. \<not> inner i) ins" and noinc: "\<And>sd b. i \<noteq> Sema_Inc sd b" by auto
  have other: "wake_inv s'" if "kern s' = kern s" "\<exists>ins'. code s' = (code s)(?t := ins' @ ins) \<and> list_all (\<lambda>i. \<not> inner i) ins'"
    "retests (code s ?t) = None" "\<And>sd. sems s' sd = sems s sd \<or> swaiters (sems s' sd) = []"
    using wake_inv_code_only [OF inv idle that(1)] that(2-4) calm by fastforce
  show ?thesis
  proof (cases i)
    case (Sema_Down sd)
    let ?s = "s0\<lparr>kern := (kern s0)\<lparr>intr_on := False\<rparr>\<rparr>"
    have t: "sema_test sd (intr_on (kern s0)) ?s = Some s'"
      using e Sema_Down by (simp add: sema_down_def Let_def)
    show ?thesis
      by (rule wake_inv_test [OF inv c refl _ _ _ _ t]) (simp_all add: s0 Sema_Down)
  next
    case (Sema_Retest sd lvl)
    have k: "kern s0 = (kern s)\<lparr>intr_on := intr_on (kern s)\<rparr>" by (simp add: s0)
    have t: "sema_test sd lvl s0 = Some s'" using e Sema_Retest by simp
    show ?thesis
      by (rule wake_inv_test [OF inv c refl _ s0(1,2) k t]) (simp add: Sema_Retest)
  next
    case (Sema_Up sd)
    then have "sema_up sd s0 = Some s'" using e by simp
    then show ?thesis using wake_inv_up [OF inv _ refl s0(1-3)] c Sema_Up by simp
  next
    case (Sema_Inc sd lvl)
    then show ?thesis using noinc by simp
  next
    case (Lock_Acquire l)
    then show ?thesis
      using e c s0 by (intro other) (auto simp: lock_acquire_def continue_with_def bind_eq_Some_conv
          intro!: exI [of _ "[Sema_Down (Lock_Sem l), Lock_Set_Holder l]"])
  next
    case (Lock_Set_Holder l)
    then show ?thesis
      using e c s0 by (intro other) (auto simp: lock_set_holder_def bind_eq_Some_conv intro!: exI [of _ "[]"])
  next
    case (Lock_Release l)
    then show ?thesis
      using e c s0 by (intro other) (auto simp: lock_release_def continue_with_def bind_eq_Some_conv
          intro!: exI [of _ "[Sema_Up (Lock_Sem l)]"])
  next
    case (Cond_Wait cv l)
    then show ?thesis
      using e c s0 by (intro other) (auto simp: cond_wait_def continue_with_def set_sem_def sema_init_def
          Let_def bind_eq_Some_conv cur_thread_def
          intro!: exI [of _ "[Lock_Release l, Sema_Down (Waiter_Sem _), Lock_Acquire l]"])
  next
    case (Cond_Signal cv l)
    then show ?thesis
      using e c s0 by (intro other) (auto simp: cond_signal_def continue_with_def bind_eq_Some_conv cur_thread_def
          intro: exI [of _ "[]"] exI [of _ "[Sema_Up (Waiter_Sem _)]"] split: list.splits)
  next
    case (Cond_Broadcast cv l)
    then show ?thesis
      using e c s0 by (intro other) (auto simp: cond_broadcast_def continue_with_def cur_thread_def
          intro: exI [of _ "[]"] exI [of _ "[Cond_Signal cv l, Cond_Broadcast cv l]"] split: if_splits)
  qed
qed

lemma sys_step_wake_inv: "sys_step s s' \<Longrightarrow> wake_inv s \<Longrightarrow> wake_inv s'"
proof (induction rule: sys_step.induct)
  case (sys_run s s')
  then show ?case using run_instr_wake_inv by blast
next
  case (sys_call s i)
  have "\<not> inner i" using sys_call(2) by (cases i rule: public_call.cases) auto
  then show ?case
    using sys_call by (intro wake_inv_code_only [OF sys_call.prems sys_call(3), of _ "[i]"]) auto
next
  case (sys_preempt s k)
  have ok: "sched_ok (kern s)" "equal_priorities (kern s)" using sys_preempt.prems by (simp_all add: wake_inv_def)
  note y = thread_yield_waits [OF ok sys_preempt(3)]
  have "waiter_ok (s\<lparr>kern := k\<rparr>) sd t" if "waiter_ok s sd t" for sd t
    using that y by (auto simp: waiter_ok_def)
  moreover have "woken (s\<lparr>kern := k\<rparr>) sd = woken s sd" for sd by (simp add: woken_def)
  ultimately show ?case using sys_preempt.prems y(1) by (simp add: wake_inv_def)
qed

subsection \<open>Properties\<close>

text \<open>An example: the kernel of \<open>Thread\<close> with a lock and a semaphore, before anyone made a call.\<close>

definition example_sys :: sys where
  "example_sys = \<lparr>kern = example_kernel,
     sems = (\<lambda>sd. case sd of Lock_Sem l \<Rightarrow> sema_init 1 | _ \<Rightarrow> sema_init 0),
     holders = (\<lambda>l. 0), conds = (\<lambda>c. []), code = (\<lambda>t. [])\<rparr>"

lemma example_sys_lock_inv: "lock_inv example_sys"
  by (simp add: lock_inv_def example_sys_def lock_state_def in_transit_def sema_init_def)




text \<open>Two threads of the same priority; the running one has just gone to wait for the semaphore.\<close>

definition equal_kernel :: kernel where
  "equal_kernel = example_kernel\<lparr>threads := (threads example_kernel)(12288 \<mapsto> example_thread THREAD_BLOCKED 31)\<rparr>"

definition waiting_sys :: sys where
  "waiting_sys = example_sys\<lparr>kern := equal_kernel,
     sems := (sems example_sys)(Sem 0 := \<lparr>svalue = 0, swaiters = [12288]\<rparr>),
     code := (\<lambda>t. [])(12288 := [Sema_Retest (Sem 0) True])\<rparr>"

lemma waiting_sys_inv: "wake_inv waiting_sys"
proof -
  have "runqueue_ok (run_queue equal_kernel)"
    by (simp add: equal_kernel_def example_kernel_def runqueue_ok_def empty_array_ok) (simp add: empty_array_def)
  moreover have "ready_at (run_queue equal_kernel) p = []" for p
    by (simp add: equal_kernel_def example_kernel_def ready_at_def empty_array_def)
  ultimately have "sched_ok equal_kernel"
    by (auto simp: sched_ok_def queue_ok_def)
      (auto simp: equal_kernel_def example_kernel_def example_thread_def split: if_splits)
  moreover have "equal_priorities equal_kernel"
    by (auto simp: equal_priorities_def equal_kernel_def example_kernel_def example_thread_def)
  moreover have "waiter_ok waiting_sys (Sem 0) 12288"
    by (simp add: waiter_ok_def waiting_sys_def equal_kernel_def example_kernel_def example_thread_def)
  ultimately show ?thesis
    by (auto simp: wake_inv_def waiting_sys_def example_sys_def sema_init_def split: sid.splits)
      (simp_all add: equal_kernel_def example_kernel_def)
qed


lemma handed_over_only_ready:
  assumes ho: "handed_over k k'" and t: "threads k t = Some th" "status th = THREAD_READY" "t \<noteq> idle_thread k"
    and only: "\<And>u v. threads k u = Some v \<Longrightarrow> status v = THREAD_READY \<Longrightarrow> u \<noteq> idle_thread k \<Longrightarrow> u = t"
  shows "running k' = t"
proof -
  obtain rest where p: "picks k (running k') rest" and q: "queue_ok k"
    using ho by (auto simp: handed_over_def)
  have "t \<in> set (ready_at (run_queue k) (nat (priority th)))"
    using t queue_ok_thread(3) [OF q t(1)] by (simp add: queue_ok_mem [OF q])
  then have "\<not> (\<forall>p. ready_at (run_queue k) p = [])" by (metis empty_iff empty_set)
  then obtain pr ts where "ready_at (run_queue k) pr = running k' # ts"
    using p [unfolded picks_def] by (metis (no_types, lifting))
  then have "running k' \<in> set (ready_at (run_queue k) pr)" by simp
  then show ?thesis using only by (auto simp: queue_ok_mem [OF q])
qed

text \<open>The woken thread tests the semaphore and blocks again; the thread that was ready takes over.\<close>

lemma woken_blocks_again:
  assumes ok: "sched_ok k" and w: "running k = w" "w \<noteq> idle_thread k" and off: "\<not> intr_on k" "\<not> in_external_intr k"
    and t: "threads k t = Some th" "status th = THREAD_READY" "t \<noteq> idle_thread k" "t \<noteq> w"
    and only: "\<And>u v. threads k u = Some v \<Longrightarrow> status v = THREAD_READY \<Longrightarrow> u \<noteq> idle_thread k \<Longrightarrow> u = t"
  shows "\<exists>k' hi. thread_block k = Some k' \<and> running k' = t \<and>
    threads k' w = Some hi \<and> status hi = THREAD_BLOCKED"
proof -
  let ?d = "descheduled k THREAD_BLOCKED False (run_queue k)"
  obtain k' where k': "thread_block k = Some k'" "handed_over ?d k'"
    using thread_block_ok [OF ok off] by blast
  obtain c where c: "threads k w = Some c" using sched_ok_running [OF ok] w by auto
  have run: "running k' = t"
  proof (rule handed_over_only_ready [OF k'(2), of t th])
    show "threads ?d t = Some th" using t w by (simp add: descheduled_def)
    show "u = t" if "threads ?d u = Some v" "status v = THREAD_READY" "u \<noteq> idle_thread ?d" for u v
      using that only [of u v] w c by (auto simp: descheduled_def split: if_splits)
  qed (use t in simp_all)
  have "threads ?d w = Some (c\<lparr>status := THREAD_BLOCKED, resume_level := False\<rparr>)"
    using c w by (simp add: descheduled_def)
  then have "threads k' w = Some (c\<lparr>status := THREAD_BLOCKED, resume_level := False\<rparr>)"
    by (rule handed_over_blocked(1) [OF k'(2)]) (use w in simp_all)
  with k'(1) run show ?thesis by simp
qed


text \<open>The example has a waiting thread of priority 40 and a running one of priority 31.\<close>

definition uneven_sys :: sys where
  "uneven_sys = waiting_sys\<lparr>kern := example_kernel,
     code := (\<lambda>t. [])(8192 := [Sema_Up (Sem 0)], 12288 := [Sema_Retest (Sem 0) True])\<rparr>"



end
