(* ===== verification/Cmem.thy ===== *)
theory Cmem
  imports Pintos_Prelude
begin

section \<open>Byte memory\<close>

text \<open>
  The memory the C code reads and writes byte by byte: a partial map from 32-bit addresses to bytes.
  An access to an address that is not mapped is \<^term>\<open>None\<close>. The theory defines what it means that
  a block of bytes or a null-terminated string is at an address, the memory after a block has been
  written (\<open>put\<close>), and how these interact.
\<close>

type_synonym mem = "ptr \<Rightarrow> u8 option"

named_theorems cmem_simps \<open>reading blocks of memory\<close>

definition store8 :: "mem \<Rightarrow> ptr \<Rightarrow> u8 \<Rightarrow> mem option" where
  "store8 m p v = (if m p = None then None else Some (m(p \<mapsto> v)))"

primrec bytes_at :: "mem \<Rightarrow> ptr \<Rightarrow> u8 list \<Rightarrow> bool" where
  "bytes_at m p [] \<longleftrightarrow> True"
| "bytes_at m p (b # bs) \<longleftrightarrow> m p = Some b \<and> bytes_at m (p + 1) bs"

text \<open>A string without its terminator.\<close>

primrec str_at :: "mem \<Rightarrow> ptr \<Rightarrow> u8 list \<Rightarrow> bool" where
  "str_at m p [] \<longleftrightarrow> m p = Some 0"
| "str_at m p (b # bs) \<longleftrightarrow> m p = Some b \<and> b \<noteq> 0 \<and> str_at m (p + 1) bs"

definition mapped :: "mem \<Rightarrow> ptr \<Rightarrow> nat \<Rightarrow> bool" where
  "mapped m p n \<longleftrightarrow> (\<forall>i < n. m (p + of_nat i) \<noteq> None)"

definition put :: "mem \<Rightarrow> ptr \<Rightarrow> u8 list \<Rightarrow> mem" where
  "put m p bs = (\<lambda>a. if unat (a - p) < length bs then Some (bs ! unat (a - p)) else m a)"

definition block :: "ptr \<Rightarrow> nat \<Rightarrow> ptr set" where
  "block p n = {p + of_nat i | i. i < n}"

subsection \<open>Addresses\<close>

lemma of_nat_le_u32: "a < 2 ^ 32 \<Longrightarrow> b < 2 ^ 32 \<Longrightarrow> (of_nat a :: u32) \<le> of_nat b \<longleftrightarrow> a \<le> b"
  by (simp add: word_le_nat_alt unat_of_nat_u32)

lemma of_nat_eq_u32: "a < 2 ^ 32 \<Longrightarrow> b < 2 ^ 32 \<Longrightarrow> (of_nat a :: u32) = of_nat b \<longleftrightarrow> a = b"
  by (metis unat_of_nat_u32)

lemma of_nat_less_u32: "a < 2 ^ 32 \<Longrightarrow> b < 2 ^ 32 \<Longrightarrow> (of_nat a :: u32) < of_nat b \<longleftrightarrow> a < b"
  by (simp add: word_less_nat_alt unat_of_nat_u32)

lemma add_of_nat_Suc: "p + of_nat (Suc i) = (p + 1 + of_nat i :: ptr)"
  by simp

lemma add_of_nat_eq_iff:
  assumes "i < 2 ^ 32" and "j < 2 ^ 32"
  shows "(p :: ptr) + of_nat i = p + of_nat j \<longleftrightarrow> i = j"
proof -
  have "(of_nat i :: ptr) = of_nat j \<longleftrightarrow> i = j"
    using assms by (metis unat_of_nat_u32)
  then show ?thesis by simp
qed

lemma add_of_nat_neq:
  assumes "i < j" and "j < 2 ^ 32"
  shows "(p :: ptr) + of_nat i \<noteq> p + of_nat j"
  using assms add_of_nat_eq_iff [of i j p] by simp

lemma ptr_add_neq:
  assumes "0 < i" and "i < 2 ^ 32"
  shows "(p :: ptr) + of_nat i \<noteq> p"
  using add_of_nat_neq [of 0 i p] assms by simp

lemma mem_block: "a \<in> block p n \<longleftrightarrow> unat (a - p) < n" if "n \<le> 2 ^ 32"
proof
  assume "a \<in> block p n"
  then obtain i where "a = p + of_nat i" "i < n" by (auto simp: block_def)
  then show "unat (a - p) < n" using that by (simp add: unat_of_nat_u32)
next
  assume "unat (a - p) < n"
  moreover have "a = p + of_nat (unat (a - p))" by simp
  ultimately show "a \<in> block p n" unfolding block_def by blast
qed

lemma block_Suc: "block p (Suc n) = insert p (block (p + 1) n)"
proof -
  have "(\<exists>i. a = p + of_nat i \<and> i < Suc n) \<longleftrightarrow> a = p \<or> (\<exists>i. a = p + 1 + of_nat i \<and> i < n)" for a
  proof
    assume "\<exists>i. a = p + of_nat i \<and> i < Suc n"
    then obtain i where i: "a = p + of_nat i" "i < Suc n" by blast
    then show "a = p \<or> (\<exists>i. a = p + 1 + of_nat i \<and> i < n)"
      by (cases i) (auto simp: add.assoc)
  next
    assume "a = p \<or> (\<exists>i. a = p + 1 + of_nat i \<and> i < n)"
    then show "\<exists>i. a = p + of_nat i \<and> i < Suc n"
    proof (elim disjE exE conjE)
      fix i assume "a = p + 1 + of_nat i" "i < n"
      then show ?thesis by (intro exI [of _ "Suc i"]) simp
    qed (intro exI [of _ 0], simp)
  qed
  then show ?thesis by (auto simp: block_def)
qed

lemma block_0 [simp]: "block p 0 = {}"
  by (simp add: block_def)

subsection \<open>Blocks\<close>

lemma bytes_at_nth: "bytes_at m p bs \<longleftrightarrow> (\<forall>i < length bs. m (p + of_nat i) = Some (bs ! i))"
proof (induction bs arbitrary: p)
  case (Cons b bs)
  have "(\<forall>i < Suc (length bs). m (p + of_nat i) = Some ((b # bs) ! i)) \<longleftrightarrow>
      m p = Some b \<and> (\<forall>i < length bs. m (p + 1 + of_nat i) = Some (bs ! i))"
    by (simp add: All_less_Suc2 add.assoc)
  then show ?case using Cons by simp
qed simp

lemma bytes_at_append:
  "bytes_at m p (xs @ ys) \<longleftrightarrow> bytes_at m p xs \<and> bytes_at m (p + of_nat (length xs)) ys"
  by (induction xs arbitrary: p) (auto simp: add.assoc)

lemma bytes_at_take: "bytes_at m p s \<Longrightarrow> bytes_at m p (take k s)"
  by (simp add: bytes_at_nth)

lemma bytes_at_mapped: "bytes_at m p bs \<Longrightarrow> mapped m p (length bs)"
  by (auto simp: bytes_at_nth mapped_def)

lemma bytes_at_agree:
  assumes "bytes_at m p bs" and "\<And>i. i < length bs \<Longrightarrow> m' (p + of_nat i) = m (p + of_nat i)"
  shows "bytes_at m' p bs"
  using assms by (simp add: bytes_at_nth)

lemma bytes_at_unique:
  "bytes_at m p xs \<Longrightarrow> bytes_at m p ys \<Longrightarrow> length xs = length ys \<Longrightarrow> xs = ys"
  by (auto simp: bytes_at_nth intro!: nth_equalityI)

lemma mapped_Suc: "mapped m p (Suc n) \<longleftrightarrow> m p \<noteq> None \<and> mapped m (p + 1) n"
  by (simp add: mapped_def All_less_Suc2 add.assoc)

lemma mapped_0 [simp]: "mapped m p 0"
  by (simp add: mapped_def)

lemma mapped_mono: "mapped m p n \<Longrightarrow> k \<le> n \<Longrightarrow> mapped m p k"
  by (auto simp: mapped_def)

lemma mapped_bytes:
  assumes "mapped m p n"
  obtains bs where "length bs = n" and "bytes_at m p bs"
proof
  show "length (map (\<lambda>i. the (m (p + of_nat i))) [0..<n]) = n" by simp
  show "bytes_at m p (map (\<lambda>i. the (m (p + of_nat i))) [0..<n])"
    using assms by (auto simp: bytes_at_nth mapped_def)
qed

lemma mapped_upd: "mapped m p n \<Longrightarrow> mapped (m(a \<mapsto> b)) p n"
  by (simp add: mapped_def)

subsection \<open>Writing a block\<close>

lemma put_Nil [simp]: "put m p [] = m"
  by (simp add: put_def)

lemma put_same: "i < length bs \<Longrightarrow> length bs \<le> 2 ^ 32 \<Longrightarrow> put m p bs (p + of_nat i) = Some (bs ! i)"
  by (simp add: put_def unat_of_nat_u32)

lemma put_other: "a \<notin> block p (length bs) \<Longrightarrow> put m p bs a = m a"
proof -
  assume a: "a \<notin> block p (length bs)"
  have "a = p + of_nat (unat (a - p))" by simp
  with a have "\<not> unat (a - p) < length bs" unfolding block_def by blast
  then show ?thesis by (simp add: put_def)
qed

lemma bytes_at_put: "length bs \<le> 2 ^ 32 \<Longrightarrow> bytes_at (put m p bs) p bs"
  by (simp add: bytes_at_nth put_same)

lemma mapped_put: "mapped m q n \<Longrightarrow> mapped (put m p bs) q n"
  by (simp add: mapped_def put_def)

lemma unat_diff_Suc: "a \<noteq> p \<Longrightarrow> unat (a - p) = Suc (unat (a - (p + 1)))" for a p :: ptr
proof -
  assume "a \<noteq> p"
  then have "a - p \<noteq> 0" by simp
  then have "unat (a - p - 1) = unat (a - p) - 1" "0 < unat (a - p)"
    by (auto simp: unat_minus_one unat_gt_0)
  then show ?thesis by (simp add: diff_diff_eq)
qed

lemma put_Cons:
  assumes "length bs < 2 ^ 32"
  shows "put (m(p \<mapsto> b)) (p + 1) bs = put m p (b # bs)"
proof
  fix a
  show "put (m(p \<mapsto> b)) (p + 1) bs a = put m p (b # bs) a"
  proof (cases "a = p")
    case True
    have "unat (- 1 :: ptr) = 2 ^ 32 - 1" by (simp only: unsigned_minus_1_eq_mask) (simp add: mask_eq_exp_minus_1)
    then show ?thesis using True assms by (simp add: put_def)
  next
    case False
    then show ?thesis by (simp add: put_def unat_diff_Suc [OF False])
  qed
qed

lemma put_snoc:
  assumes "length bs < 2 ^ 32"
  shows "(put m p bs)(p + of_nat (length bs) \<mapsto> b) = put m p (bs @ [b])"
proof
  fix a
  show "((put m p bs)(p + of_nat (length bs) \<mapsto> b)) a = put m p (bs @ [b]) a"
  proof (cases "a = p + of_nat (length bs)")
    case True
    then show ?thesis using assms by (simp add: put_def unat_of_nat_u32)
  next
    case False
    moreover have "a = p + of_nat (unat (a - p))" by simp
    ultimately have "unat (a - p) \<noteq> length bs" by metis
    then show ?thesis using False by (simp add: put_def nth_append)
  qed
qed

subsection \<open>Strings\<close>

lemma str_at_bytes: "str_at m p s \<longleftrightarrow> bytes_at m p (s @ [0]) \<and> 0 \<notin> set s"
  by (induction s arbitrary: p) auto

lemma str_at_mem: "str_at m p s \<Longrightarrow> i < length s \<Longrightarrow> m (p + of_nat i) = Some (s ! i) \<and> s ! i \<noteq> 0"
proof -
  assume s: "str_at m p s" and i: "i < length s"
  then have "s ! i \<in> set s" by simp
  moreover have "0 \<notin> set s" "bytes_at m p s" using s by (simp_all add: str_at_bytes bytes_at_append)
  ultimately show ?thesis using i by (metis bytes_at_nth)
qed

lemma str_at_end: "str_at m p s \<Longrightarrow> m (p + of_nat (length s)) = Some 0"
  by (simp add: str_at_bytes bytes_at_append)

lemma str_at_drop: "str_at m p s \<Longrightarrow> i \<le> length s \<Longrightarrow> str_at m (p + of_nat i) (drop i s)"
proof (induction s arbitrary: p i)
  case (Cons b s)
  show ?case
  proof (cases i)
    case (Suc j)
    then show ?thesis using Cons.IH [of "p + 1" j] Cons.prems by (simp add: add.assoc)
  qed (use Cons.prems in simp)
qed simp

lemma str_at_agree:
  assumes "str_at m p s" and "\<And>i. i \<le> length s \<Longrightarrow> m' (p + of_nat i) = m (p + of_nat i)"
  shows "str_at m' p s"
  using assms bytes_at_agree [of m p "s @ [0]" m'] by (simp add: str_at_bytes)

text \<open>A string has fewer characters than there are addresses.\<close>

lemma str_at_length: "str_at m p s \<Longrightarrow> length s < 2 ^ 32"
proof (rule ccontr)
  assume s: "str_at m p s" and "\<not> length s < 2 ^ 32"
  define n where "n = unat (of_nat (length s) :: ptr)"
  have "n < length s" using \<open>\<not> length s < 2 ^ 32\<close> unat_u32_bound [of "of_nat (length s)"]
    by (simp add: n_def)
  then have "m (p + of_nat n) \<noteq> Some 0" using str_at_mem [OF s] by auto
  moreover have "(of_nat n :: ptr) = of_nat (length s)" by (simp add: n_def)
  ultimately show False using str_at_end [OF s] by simp
qed

lemma str_at_unique: "str_at m p s \<Longrightarrow> str_at m p t \<Longrightarrow> s = t"
proof (induction s arbitrary: p t)
  case Nil
  then show ?case by (cases t) auto
next
  case (Cons b s)
  then show ?case by (cases t) auto
qed

end
