(* ===== verification/Cstring.thy ===== *)
theory Cstring
  imports Cmem
begin

section \<open>Memory blocks and strings (lib/string.c)\<close>

text \<open>
  The functions of \<^verbatim>\<open>lib/string.c\<close> over the byte memory of \<^theory_text>\<open>Cmem\<close>. A pointer result is an
  address, 0 for the null pointer. Loops that count \<^verbatim>\<open>size\<close> down recurse on its value; loops that run
  to a terminator are partial functions, \<^term>\<open>None\<close> when they leave the mapped memory.
\<close>

subsection \<open>Blocks\<close>

primrec copy_up :: "nat \<Rightarrow> mem \<Rightarrow> ptr \<Rightarrow> ptr \<Rightarrow> mem option" where
  "copy_up 0 m dst src = Some m"
| "copy_up (Suc n) m dst src = do { b \<leftarrow> m src; m \<leftarrow> store8 m dst b; copy_up n m (dst + 1) (src + 1) }"

primrec copy_down :: "nat \<Rightarrow> mem \<Rightarrow> ptr \<Rightarrow> ptr \<Rightarrow> mem option" where
  "copy_down 0 m dst src = Some m"
| "copy_down (Suc n) m dst src = do { b \<leftarrow> m (src - 1); m \<leftarrow> store8 m (dst - 1) b; copy_down n m (dst - 1) (src - 1) }"

definition memcpy :: "mem \<Rightarrow> ptr \<Rightarrow> ptr \<Rightarrow> size_t \<Rightarrow> (ptr \<times> mem) option" where
  "memcpy m dst0 src0 sz = do {
     kassert (dst0 \<noteq> 0 \<or> sz = 0);
     kassert (src0 \<noteq> 0 \<or> sz = 0);
     m \<leftarrow> copy_up (unat sz) m dst0 src0;
     Some (dst0, m)
   }"

definition memmove :: "mem \<Rightarrow> ptr \<Rightarrow> ptr \<Rightarrow> size_t \<Rightarrow> (ptr \<times> mem) option" where
  "memmove m dst0 src0 sz = do {
     kassert (dst0 \<noteq> 0 \<or> sz = 0);
     kassert (src0 \<noteq> 0 \<or> sz = 0);
     if dst0 < src0
     then do { m \<leftarrow> copy_up (unat sz) m dst0 src0; Some (dst0 + sz, m) }
     else do { m \<leftarrow> copy_down (unat sz) m (dst0 + sz) (src0 + sz); Some (dst0, m) }
   }"

primrec cmp_loop :: "nat \<Rightarrow> mem \<Rightarrow> ptr \<Rightarrow> ptr \<Rightarrow> int option" where
  "cmp_loop 0 m a b = Some 0"
| "cmp_loop (Suc n) m a b = do {
     x \<leftarrow> m a; y \<leftarrow> m b;
     if x \<noteq> y then Some (if x > y then 1 else - 1) else cmp_loop n m (a + 1) (b + 1)
   }"

definition memcmp :: "mem \<Rightarrow> ptr \<Rightarrow> ptr \<Rightarrow> size_t \<Rightarrow> int option" where
  "memcmp m a b sz = do {
     kassert (a \<noteq> 0 \<or> sz = 0);
     kassert (b \<noteq> 0 \<or> sz = 0);
     cmp_loop (unat sz) m a b
   }"

primrec chr_loop :: "nat \<Rightarrow> mem \<Rightarrow> ptr \<Rightarrow> u8 \<Rightarrow> ptr option" where
  "chr_loop 0 m p c = Some 0"
| "chr_loop (Suc n) m p c = do { b \<leftarrow> m p; if b = c then Some p else chr_loop n m (p + 1) c }"

definition memchr :: "mem \<Rightarrow> ptr \<Rightarrow> u32 \<Rightarrow> size_t \<Rightarrow> ptr option" where
  "memchr m p ch0 sz = do { kassert (p \<noteq> 0 \<or> sz = 0); chr_loop (unat sz) m p (ucast ch0) }"

primrec set_loop :: "nat \<Rightarrow> mem \<Rightarrow> ptr \<Rightarrow> u8 \<Rightarrow> mem option" where
  "set_loop 0 m dst v = Some m"
| "set_loop (Suc n) m dst v = do { m \<leftarrow> store8 m dst v; set_loop n m (dst + 1) v }"

definition memset :: "mem \<Rightarrow> ptr \<Rightarrow> u32 \<Rightarrow> size_t \<Rightarrow> (ptr \<times> mem) option" where
  "memset m dst0 v sz = do {
     kassert (dst0 \<noteq> 0 \<or> sz = 0);
     m \<leftarrow> set_loop (unat sz) m dst0 (ucast v);
     Some (dst0, m)
   }"

subsection \<open>Strings\<close>

partial_function (option) strcmp_loop :: "mem \<Rightarrow> ptr \<Rightarrow> ptr \<Rightarrow> int option" where
  "strcmp_loop m a b = do {
     x \<leftarrow> m a; y \<leftarrow> m b;
     if x \<noteq> 0 \<and> x = y then strcmp_loop m (a + 1) (b + 1)
     else Some (if x < y then - 1 else if x > y then 1 else 0)
   }"

definition strcmp :: "mem \<Rightarrow> ptr \<Rightarrow> ptr \<Rightarrow> int option" where
  "strcmp m a b = do { kassert (a \<noteq> 0); kassert (b \<noteq> 0); strcmp_loop m a b }"

partial_function (option) strchr_loop :: "mem \<Rightarrow> ptr \<Rightarrow> u8 \<Rightarrow> ptr option" where
  "strchr_loop m s c = do {
     b \<leftarrow> m s;
     if b = c then Some s else if b = 0 then Some 0 else strchr_loop m (s + 1) c
   }"

definition strchr :: "mem \<Rightarrow> ptr \<Rightarrow> u8 \<Rightarrow> ptr option" where
  "strchr m s c = do { kassert (s \<noteq> 0); strchr_loop m s c }"

partial_function (option) strcspn_loop :: "mem \<Rightarrow> ptr \<Rightarrow> ptr \<Rightarrow> size_t \<Rightarrow> size_t option" where
  "strcspn_loop m s stop len = do {
     b \<leftarrow> m (s + len);
     if b = 0 then Some len
     else do { f \<leftarrow> strchr m stop b; if f \<noteq> 0 then Some len else strcspn_loop m s stop (len + 1) }
   }"

definition strcspn :: "mem \<Rightarrow> ptr \<Rightarrow> ptr \<Rightarrow> size_t option" where
  "strcspn m s stop = strcspn_loop m s stop 0"

partial_function (option) strpbrk :: "mem \<Rightarrow> ptr \<Rightarrow> ptr \<Rightarrow> ptr option" where
  "strpbrk m s stop = do {
     b \<leftarrow> m s;
     if b = 0 then Some 0
     else do { f \<leftarrow> strchr m stop b; if f \<noteq> 0 then Some s else strpbrk m (s + 1) stop }
   }"

partial_function (option) strrchr_loop :: "mem \<Rightarrow> ptr \<Rightarrow> u8 \<Rightarrow> ptr \<Rightarrow> ptr option" where
  "strrchr_loop m s c p = do {
     b \<leftarrow> m s;
     if b = 0 then Some p else strrchr_loop m (s + 1) c (if b = c then s else p)
   }"

definition strrchr :: "mem \<Rightarrow> ptr \<Rightarrow> u8 \<Rightarrow> ptr option" where
  "strrchr m s c = strrchr_loop m s c 0"

partial_function (option) strspn_loop :: "mem \<Rightarrow> ptr \<Rightarrow> ptr \<Rightarrow> size_t \<Rightarrow> size_t option" where
  "strspn_loop m s skip len = do {
     b \<leftarrow> m (s + len);
     if b = 0 then Some len
     else do { f \<leftarrow> strchr m skip b; if f = 0 then Some len else strspn_loop m s skip (len + 1) }
   }"

definition strspn :: "mem \<Rightarrow> ptr \<Rightarrow> ptr \<Rightarrow> size_t option" where
  "strspn m s skip = strspn_loop m s skip 0"

partial_function (option) strlen_loop :: "mem \<Rightarrow> ptr \<Rightarrow> ptr option" where
  "strlen_loop m p = do { b \<leftarrow> m p; if b \<noteq> 0 then strlen_loop m (p + 1) else Some p }"

definition strlen :: "mem \<Rightarrow> ptr \<Rightarrow> size_t option" where
  "strlen m s = do { kassert (s \<noteq> 0); p \<leftarrow> strlen_loop m s; Some (p - s) }"

partial_function (option) strnlen_loop :: "mem \<Rightarrow> ptr \<Rightarrow> size_t \<Rightarrow> size_t \<Rightarrow> size_t option" where
  "strnlen_loop m s maxlen len = do {
     b \<leftarrow> m (s + len);
     if b \<noteq> 0 \<and> len < maxlen then strnlen_loop m s maxlen (len + 1) else Some len
   }"

definition strnlen :: "mem \<Rightarrow> ptr \<Rightarrow> size_t \<Rightarrow> size_t option" where
  "strnlen m s maxlen = strnlen_loop m s maxlen 0"

partial_function (option) strstr_loop :: "mem \<Rightarrow> ptr \<Rightarrow> ptr \<Rightarrow> size_t \<Rightarrow> size_t \<Rightarrow> size_t \<Rightarrow> ptr option" where
  "strstr_loop m haystack needle needle_len lim i =
     (if i \<le> lim
      then do {
        c \<leftarrow> memcmp m (haystack + i) needle needle_len;
        if c = 0 then Some (haystack + i) else strstr_loop m haystack needle needle_len lim (i + 1)
      }
      else Some 0)"

definition strstr :: "mem \<Rightarrow> ptr \<Rightarrow> ptr \<Rightarrow> ptr option" where
  "strstr m haystack needle = do {
     haystack_len \<leftarrow> strlen m haystack;
     needle_len \<leftarrow> strlen m needle;
     if haystack_len \<ge> needle_len
     then strstr_loop m haystack needle needle_len (haystack_len - needle_len) 0
     else Some 0
   }"

definition strlcpy :: "mem \<Rightarrow> ptr \<Rightarrow> ptr \<Rightarrow> size_t \<Rightarrow> (size_t \<times> mem) option" where
  "strlcpy m dst src sz = do {
     kassert (dst \<noteq> 0);
     kassert (src \<noteq> 0);
     src_len \<leftarrow> strlen m src;
     if sz > 0
     then do {
       let dst_len = (if src_len < sz - 1 then src_len else sz - 1);
       (_, m) \<leftarrow> memcpy m dst src dst_len;
       m \<leftarrow> store8 m (dst + dst_len) 0;
       Some (src_len, m)
     }
     else Some (src_len, m)
   }"

definition strlcat :: "mem \<Rightarrow> ptr \<Rightarrow> ptr \<Rightarrow> size_t \<Rightarrow> (size_t \<times> mem) option" where
  "strlcat m dst src sz = do {
     kassert (dst \<noteq> 0);
     kassert (src \<noteq> 0);
     src_len \<leftarrow> strlen m src;
     dst_len \<leftarrow> strlen m dst;
     if sz > 0 \<and> dst_len < sz
     then do {
       let copy_cnt = (if src_len < sz - dst_len - 1 then src_len else sz - dst_len - 1);
       (_, m) \<leftarrow> memcpy m (dst + dst_len) src copy_cnt;
       m \<leftarrow> store8 m (dst + (dst_len + copy_cnt)) 0;
       Some (src_len + dst_len, m)
     }
     else Some (src_len + dst_len, m)
   }"

subsection \<open>Tokens\<close>

text \<open>The loop over delimiters returns the position after them, or the null pointer and the end of the
  string when there is no token left.\<close>

partial_function (option) skip_delims :: "mem \<Rightarrow> ptr \<Rightarrow> ptr \<Rightarrow> (bool \<times> ptr) option" where
  "skip_delims m delims s = do {
     b \<leftarrow> m s;
     f \<leftarrow> strchr m delims b;
     if f \<noteq> 0 then (if b = 0 then Some (False, s) else skip_delims m delims (s + 1)) else Some (True, s)
   }"

partial_function (option) skip_token :: "mem \<Rightarrow> ptr \<Rightarrow> ptr \<Rightarrow> ptr option" where
  "skip_token m delims s = do {
     b \<leftarrow> m s;
     f \<leftarrow> strchr m delims b;
     if f = 0 then skip_token m delims (s + 1) else Some s
   }"

text \<open>The result is the token, the new saved position and the memory.\<close>

definition strtok_r :: "mem \<Rightarrow> ptr \<Rightarrow> ptr \<Rightarrow> ptr \<Rightarrow> (ptr \<times> ptr \<times> mem) option" where
  "strtok_r m s delims save = do {
     kassert (delims \<noteq> 0);
     let s = (if s = 0 then save else s);
     kassert (s \<noteq> 0);
     (found, token) \<leftarrow> skip_delims m delims s;
     if \<not> found then Some (0, token, m)
     else do {
       s \<leftarrow> skip_token m delims token;
       b \<leftarrow> m s;
       if b \<noteq> 0 then do { m \<leftarrow> store8 m s 0; Some (token, s + 1, m) }
       else Some (token, s, m)
     }
   }"

subsection \<open>Copying\<close>

lemma store8_mapped: "m p \<noteq> None \<Longrightarrow> store8 m p v = Some (m(p \<mapsto> v))"
  by (simp add: store8_def)

lemma copy_up_ok:
  assumes "bytes_at m s bs" and "mapped m d (length bs)" and "length bs \<le> 2 ^ 32"
    and "\<And>i j. i < j \<Longrightarrow> j < length bs \<Longrightarrow> d + of_nat i \<noteq> s + of_nat j"
  shows "copy_up (length bs) m d s = Some (put m d bs)"
  using assms
proof (induction bs arbitrary: m d s)
  case (Cons b bs)
  let ?m = "m(d \<mapsto> b)"
  have 1: "bytes_at ?m (s + 1) bs"
  proof (rule bytes_at_agree)
    show "bytes_at m (s + 1) bs" using Cons.prems(1) by simp
    show "?m (s + 1 + of_nat i) = m (s + 1 + of_nat i)" if "i < length bs" for i
      using Cons.prems(4) [of 0 "Suc i"] that by (auto simp: add.assoc)
  qed
  have 2: "mapped ?m (d + 1) (length bs)"
    using Cons.prems(2) by (simp add: mapped_Suc mapped_upd)
  have 3: "d + 1 + of_nat i \<noteq> s + 1 + of_nat j" if "i < j" "j < length bs" for i j
    using Cons.prems(4) [of "Suc i" "Suc j"] that by (simp add: add.assoc)
  have "copy_up (length bs) ?m (d + 1) (s + 1) = Some (put ?m (d + 1) bs)"
    by (rule Cons.IH [OF 1 2 _ 3]) (use Cons.prems(3) in simp)
  then show ?case
    using Cons.prems by (simp add: mapped_Suc store8_mapped put_Cons)
qed simp

lemma put_upd_other:
  assumes "a \<notin> block p (length bs)"
  shows "put (m(a \<mapsto> b)) p bs = (put m p bs)(a \<mapsto> b)"
proof
  fix x
  have "a = p + of_nat (unat (a - p))" by simp
  then have "\<not> unat (a - p) < length bs" using assms unfolding block_def by blast
  then show "put (m(a \<mapsto> b)) p bs x = ((put m p bs)(a \<mapsto> b)) x" by (auto simp: put_def)
qed

lemma end_notin_block: "n < 2 ^ 32 \<Longrightarrow> p + of_nat n \<notin> block p n"
  using add_of_nat_neq by (fastforce simp: block_def)

lemma copy_down_ok:
  assumes "bytes_at m s bs" and "mapped m d (length bs)" and "length bs \<le> 2 ^ 32"
    and "\<And>i j. j < i \<Longrightarrow> i < length bs \<Longrightarrow> d + of_nat i \<noteq> s + of_nat j"
  shows "copy_down (length bs) m (d + of_nat (length bs)) (s + of_nat (length bs)) = Some (put m d bs)"
  using assms
proof (induction bs arbitrary: m rule: rev_induct)
  case (snoc b bs)
  let ?n = "length bs"
  let ?m = "m(d + of_nat ?n \<mapsto> b)"
  have "bytes_at ?m s bs"
  proof (rule bytes_at_agree)
    show "bytes_at m s bs" using snoc.prems(1) by (simp add: bytes_at_append)
    show "?m (s + of_nat i) = m (s + of_nat i)" if "i < length bs" for i
      using snoc.prems(4) [of i ?n] that by auto
  qed
  moreover have "mapped ?m d ?n"
    using snoc.prems(2) by (intro mapped_upd) (rule mapped_mono, auto)
  ultimately have "copy_down ?n ?m (d + of_nat ?n) (s + of_nat ?n) = Some (put ?m d bs)"
    by (rule snoc.IH) (use snoc.prems(3,4) in simp_all)
  moreover have "put ?m d bs = put m d (bs @ [b])"
    using snoc.prems(3) by (simp add: put_upd_other end_notin_block put_snoc)
  moreover have "m (d + of_nat ?n) \<noteq> None" using snoc.prems(2) by (simp add: mapped_def)
  ultimately show ?case
    using snoc.prems(1) by (simp add: bytes_at_append store8_mapped)
qed simp

text \<open>A block that ends inside the address space.\<close>

definition in_space :: "ptr \<Rightarrow> nat \<Rightarrow> bool" where
  "in_space p n \<longleftrightarrow> p \<noteq> 0 \<and> unat p + n \<le> 2 ^ 32"

lemma in_space_unat: "in_space p n \<Longrightarrow> i < n \<Longrightarrow> unat (p + of_nat i) = unat p + i"
proof -
  assume p: "in_space p n" and i: "i < n"
  then have "i < 2 ^ 32" "unat p + i < 2 ^ 32" by (auto simp: in_space_def)
  then show ?thesis by (simp add: unat_add_u32 unat_of_nat_u32)
qed

lemma in_space_nonnull: "in_space p n \<Longrightarrow> i < n \<Longrightarrow> p + of_nat i \<noteq> 0"
  using in_space_unat [of p n i] by (auto simp: in_space_def unat_gt_0 dest: unat_gt_0 [THEN iffD1])

lemma in_space_length: "in_space p n \<Longrightarrow> n < 2 ^ 32"
  using unat_gt_0 [of p] by (auto simp: in_space_def)

lemma in_space_mono: "in_space p n \<Longrightarrow> k \<le> n \<Longrightarrow> in_space p k"
  by (auto simp: in_space_def)

lemma memcpy_ok:
  assumes "bytes_at m s bs" and "mapped m d (length bs)" and sz: "in_space s (length bs)" "in_space d (length bs)"
    and "block d (length bs) \<inter> block s (length bs) = {}"
  shows "memcpy m d s (of_nat (length bs)) = Some (d, put m d bs)"
proof -
  have n: "length bs < 2 ^ 32" using in_space_length [OF sz(1)] .
  have "d + of_nat i \<noteq> s + of_nat j" if "i < j" "j < length bs" for i j
  proof -
    have "d + of_nat i \<in> block d (length bs)" "s + of_nat j \<in> block s (length bs)"
      using that by (auto simp: block_def intro: less_trans)
    then show ?thesis using assms(5) by (metis disjoint_iff)
  qed
  then have "copy_up (length bs) m d s = Some (put m d bs)"
    using copy_up_ok [OF assms(1,2)] n by simp
  then show ?thesis using n sz by (simp add: memcpy_def unat_of_nat_u32 in_space_def)
qed

lemma memmove_ok:
  assumes "bytes_at m s bs" and "mapped m d (length bs)" and sz: "in_space s (length bs)" "in_space d (length bs)"
  shows "memmove m d s (of_nat (length bs)) =
    Some (if d < s then d + of_nat (length bs) else d, put m d bs)"
proof -
  have n: "length bs < 2 ^ 32" using in_space_length [OF sz(1)] .
  have nn: "unat (of_nat (length bs) :: u32) = length bs" using n by (simp add: unat_of_nat_u32)
  have addr: "d + of_nat i \<noteq> s + of_nat j"
    if "i < length bs" "j < length bs" "unat d + i \<noteq> unat s + j" for i j
    using that in_space_unat [OF sz(1)] in_space_unat [OF sz(2)] by metis
  show ?thesis
  proof (cases "d < s")
    case True
    then have "copy_up (length bs) m d s = Some (put m d bs)"
      using n by (intro copy_up_ok assms addr) (auto simp: word_less_nat_alt)
    then show ?thesis using True sz by (simp add: memmove_def nn in_space_def)
  next
    case False
    then have "copy_down (length bs) m (d + of_nat (length bs)) (s + of_nat (length bs)) = Some (put m d bs)"
      using n by (intro copy_down_ok assms addr) (auto simp: word_less_nat_alt)
    then show ?thesis using False sz by (simp add: memmove_def nn in_space_def)
  qed
qed

lemma set_loop_ok:
  "mapped m d n \<Longrightarrow> n \<le> 2 ^ 32 \<Longrightarrow> set_loop n m d v = Some (put m d (replicate n v))"
  by (induction n arbitrary: m d) (simp_all add: mapped_Suc mapped_upd store8_mapped put_Cons)

lemma memset_ok:
  assumes "mapped m d n" and "in_space d n"
  shows "memset m d v (of_nat n) = Some (d, put m d (replicate n (ucast v)))"
  using set_loop_ok [OF assms(1), of "ucast v"] in_space_length [OF assms(2)] assms(2)
  by (simp add: memset_def unat_of_nat_u32 in_space_def)


subsection \<open>Comparing\<close>

text \<open>The order of strings: the first difference decides, a proper prefix comes first.\<close>

fun lex_cmp :: "u8 list \<Rightarrow> u8 list \<Rightarrow> int" where
  "lex_cmp [] [] = 0"
| "lex_cmp [] (y # ys) = - 1"
| "lex_cmp (x # xs) [] = 1"
| "lex_cmp (x # xs) (y # ys) = (if x < y then - 1 else if y < x then 1 else lex_cmp xs ys)"

lemma lex_cmp_lexord:
  "lex_cmp xs ys = - 1 \<longleftrightarrow> (xs, ys) \<in> lexord {(a, b). a < b}"
  "lex_cmp xs ys = 1 \<longleftrightarrow> (ys, xs) \<in> lexord {(a, b). a < b}"
  "lex_cmp xs ys = 0 \<longleftrightarrow> xs = ys"
  by (induction xs ys rule: lex_cmp.induct) auto

lemma cmp_loop_ok:
  "bytes_at m a xs \<Longrightarrow> bytes_at m b ys \<Longrightarrow> length xs = length ys \<Longrightarrow>
    cmp_loop (length xs) m a b = Some (lex_cmp xs ys)"
proof (induction xs ys arbitrary: a b rule: lex_cmp.induct)
  case (4 x xs y ys)
  then show ?case by (cases "x = y") auto
qed simp_all

lemma memcmp_ok:
  assumes "bytes_at m a xs" and "bytes_at m b ys" and "length xs = length ys"
    and "in_space a (length xs)" "in_space b (length xs)"
  shows "memcmp m a b (of_nat (length xs)) = Some (lex_cmp xs ys)"
  using cmp_loop_ok [OF assms(1-3)] in_space_length [OF assms(4)] assms(4,5)
  by (simp add: memcmp_def unat_of_nat_u32 in_space_def)

lemma strcmp_loop_ok: "str_at m a s \<Longrightarrow> str_at m b t \<Longrightarrow> strcmp_loop m a b = Some (lex_cmp s t)"
proof (induction s t arbitrary: a b rule: lex_cmp.induct)
  case (2 y ys)
  then show ?case by (subst strcmp_loop.simps) (simp add: word_gt_0)
next
  case (3 x xs)
  then show ?case by (subst strcmp_loop.simps) (simp add: word_gt_0)
next
  case (4 x xs y ys)
  then show ?case by (subst strcmp_loop.simps) auto
qed (subst strcmp_loop.simps; simp)

subsection \<open>Searching\<close>

text \<open>A string the C code may point to: not null, terminated and inside the address space.\<close>

definition cstr :: "mem \<Rightarrow> ptr \<Rightarrow> u8 list \<Rightarrow> bool" where
  "cstr m p s \<longleftrightarrow> str_at m p s \<and> in_space p (Suc (length s))"

lemma cstr_str: "cstr m p s \<Longrightarrow> str_at m p s"
  by (simp add: cstr_def)

lemma cstr_nonnull: "cstr m p s \<Longrightarrow> p \<noteq> 0"
  by (simp add: cstr_def in_space_def)

lemma in_space_Suc: "in_space p (Suc n) \<Longrightarrow> 0 < n \<Longrightarrow> in_space (p + 1) n"
proof -
  assume p: "in_space p (Suc n)" and "0 < n"
  then have u: "unat (p + 1) = unat p + 1" using in_space_unat [of p "Suc n" 1] by simp
  then have "p + 1 \<noteq> 0" by auto
  with u p show ?thesis by (simp add: in_space_def)
qed

lemma cstr_Cons: "cstr m p (b # s) \<longleftrightarrow> m p = Some b \<and> b \<noteq> 0 \<and> p \<noteq> 0 \<and> cstr m (p + 1) s"
proof -
  have "in_space p (Suc (Suc (length s)))" if "p \<noteq> 0" "in_space (p + 1) (Suc (length s))"
  proof -
    have "p + 1 \<noteq> 0" using that by (simp add: in_space_def)
    then have "unat (p + 1) = unat p + 1" by (metis Suc_eq_plus1 unatSuc add.commute)
    then show ?thesis using that by (simp add: in_space_def)
  qed
  then show ?thesis
    by (auto simp: cstr_def intro: in_space_Suc) (auto simp: in_space_def)
qed

lemma cstr_Nil: "cstr m p [] \<longleftrightarrow> m p = Some 0 \<and> p \<noteq> 0"
  using unat_u32_bound [of p] by (auto simp: cstr_def in_space_def)

lemma cstr_drop: "cstr m p s \<Longrightarrow> i \<le> length s \<Longrightarrow> cstr m (p + of_nat i) (drop i s)"
proof (induction s arbitrary: p i)
  case (Cons b s)
  show ?case
  proof (cases i)
    case (Suc j)
    then show ?thesis using Cons.IH [of "p + 1" j] Cons.prems by (simp add: cstr_Cons add.assoc)
  qed (use Cons.prems in simp)
qed simp

lemma cstr_in_space: "cstr m p s \<Longrightarrow> in_space p (Suc (length s))"
  by (simp add: cstr_def)

lemma cstr_length: "cstr m p s \<Longrightarrow> Suc (length s) < 2 ^ 32"
  using in_space_length [OF cstr_in_space] by simp

lemma cstr_addr: "cstr m p s \<Longrightarrow> i \<le> length s \<Longrightarrow> p + of_nat i \<noteq> 0"
  using in_space_nonnull [OF cstr_in_space, of m p s i] by simp

lemma strlen_loop_ok: "str_at m p s \<Longrightarrow> strlen_loop m p = Some (p + of_nat (length s))"
  by (induction s arbitrary: p) (subst strlen_loop.simps; simp add: add.assoc)+

lemma strlen_ok: "cstr m p s \<Longrightarrow> strlen m p = Some (of_nat (length s))"
  using strlen_loop_ok [OF cstr_str] by (simp add: strlen_def cstr_nonnull)

lemma strnlen_loop_ok:
  assumes "str_at m (p + of_nat k) t" and "k \<le> n" and "n < 2 ^ 32"
  shows "strnlen_loop m p (of_nat n) (of_nat k) = Some (of_nat (min (k + length t) n))"
  using assms
proof (induction t arbitrary: k)
  case Nil
  then show ?case by (subst strnlen_loop.simps) simp
next
  case (Cons b t)
  have lt: "(of_nat k :: u32) < of_nat n \<longleftrightarrow> k < n"
    using Cons.prems by (simp add: word_less_nat_alt unat_of_nat_u32)
  show ?case
  proof (cases "k < n")
    case True
    then have "strnlen_loop m p (of_nat n) (of_nat (Suc k)) = Some (of_nat (min (Suc k + length t) n))"
      using Cons.prems by (intro Cons.IH) (simp_all add: ac_simps)
    then show ?thesis
      using Cons.prems lt True by (subst strnlen_loop.simps) (simp add: add.commute)
  next
    case False
    then show ?thesis using Cons.prems lt by (subst strnlen_loop.simps) simp
  qed
qed

lemma strnlen_ok: "str_at m p s \<Longrightarrow> n < 2 ^ 32 \<Longrightarrow> strnlen m p (of_nat n) = Some (of_nat (min (length s) n))"
  using strnlen_loop_ok [of m p 0 s n] by (simp add: strnlen_def)

lemma strchr_loop_ok:
  "str_at m p s \<Longrightarrow> strchr_loop m p c =
    Some (if c = 0 \<or> c \<in> set s then p + of_nat (length (takeWhile (\<lambda>b. b \<noteq> c) s)) else 0)"
  by (induction s arbitrary: p) (subst strchr_loop.simps; auto simp: add.assoc)+

lemma strchr_ok:
  "cstr m p s \<Longrightarrow> strchr m p c =
    Some (if c = 0 \<or> c \<in> set s then p + of_nat (length (takeWhile (\<lambda>b. b \<noteq> c) s)) else 0)"
  using strchr_loop_ok [OF cstr_str] by (simp add: strchr_def cstr_nonnull)

text \<open>The test the other functions make.\<close>

lemma strchr_mem:
  assumes "cstr m p ds"
  obtains f where "strchr m p c = Some f" and "f \<noteq> 0 \<longleftrightarrow> c = 0 \<or> c \<in> set ds"
proof (rule that [OF strchr_ok [OF assms]])
  show "((if c = 0 \<or> c \<in> set ds then p + of_nat (length (takeWhile (\<lambda>b. b \<noteq> c) ds)) else 0) \<noteq> 0) \<longleftrightarrow>
      c = 0 \<or> c \<in> set ds"
    using cstr_addr [OF assms] by (simp add: length_takeWhile_le)
qed

lemma strcspn_loop_ok:
  assumes "cstr m q ds" and "str_at m (p + len) t"
  shows "strcspn_loop m p q len = Some (len + of_nat (length (takeWhile (\<lambda>b. b \<notin> set ds) t)))"
  using assms(2)
proof (induction t arbitrary: len)
  case (Cons b t)
  obtain f where "strchr m q b = Some f" "f \<noteq> 0 \<longleftrightarrow> b = 0 \<or> b \<in> set ds"
    using strchr_mem [OF assms(1)] .
  with Cons show ?case by (subst strcspn_loop.simps) (auto simp: add.assoc)
qed (subst strcspn_loop.simps; simp)

lemma strspn_loop_ok:
  assumes "cstr m q ds" and "str_at m (p + len) t"
  shows "strspn_loop m p q len = Some (len + of_nat (length (takeWhile (\<lambda>b. b \<in> set ds) t)))"
  using assms(2)
proof (induction t arbitrary: len)
  case (Cons b t)
  obtain f where "strchr m q b = Some f" "f \<noteq> 0 \<longleftrightarrow> b = 0 \<or> b \<in> set ds"
    using strchr_mem [OF assms(1)] .
  with Cons show ?case by (subst strspn_loop.simps) (auto simp: add.assoc)
qed (subst strspn_loop.simps; simp)

lemma strpbrk_ok:
  assumes "cstr m q ds" and "str_at m p s"
  shows "strpbrk m p q =
    Some (if set s \<inter> set ds = {} then 0 else p + of_nat (length (takeWhile (\<lambda>b. b \<notin> set ds) s)))"
  using assms(2)
proof (induction s arbitrary: p)
  case (Cons b s)
  obtain f where "strchr m q b = Some f" "f \<noteq> 0 \<longleftrightarrow> b = 0 \<or> b \<in> set ds"
    using strchr_mem [OF assms(1)] .
  with Cons show ?case by (subst strpbrk.simps) (auto simp: add.assoc)
qed (subst strpbrk.simps; simp)

lemma strrchr_loop_none: "str_at m p s \<Longrightarrow> c \<notin> set s \<Longrightarrow> strrchr_loop m p c q = Some q"
  by (induction s arbitrary: p) (subst strrchr_loop.simps; auto)+

lemma strrchr_loop_found:
  "str_at m p (xs @ c # ys) \<Longrightarrow> c \<notin> set ys \<Longrightarrow> strrchr_loop m p c q = Some (p + of_nat (length xs))"
proof (induction xs arbitrary: p q)
  case Nil
  then show ?case by (subst strrchr_loop.simps) (auto simp: strrchr_loop_none)
next
  case (Cons b xs)
  then show ?case by (subst strrchr_loop.simps) (auto simp: add.assoc)
qed


subsection \<open>Substrings\<close>

definition occurs_at :: "u8 list \<Rightarrow> u8 list \<Rightarrow> nat \<Rightarrow> bool" where
  "occurs_at t s i \<longleftrightarrow> take (length t) (drop i s) = t"

lemma strstr_memcmp:
  assumes s: "cstr m p s" and t: "cstr m q t" and i: "i + length t \<le> length s"
  shows "\<exists>c. memcmp m (p + of_nat i) q (of_nat (length t)) = Some c \<and> (c = 0 \<longleftrightarrow> occurs_at t s i)"
proof -
  let ?u = "take (length t) (drop i s)"
  have d: "cstr m (p + of_nat i) (drop i s)" using cstr_drop [OF s] i by simp
  then have b: "bytes_at m (p + of_nat i) ?u"
    by (simp add: cstr_def str_at_bytes bytes_at_append bytes_at_take)
  have "bytes_at m q t" using t by (simp add: cstr_def str_at_bytes bytes_at_append)
  moreover have "in_space (p + of_nat i) (length t)"
    using cstr_in_space [OF d] by (rule in_space_mono) (use i in simp)
  moreover have "in_space q (length t)" using cstr_in_space [OF t] by (rule in_space_mono) simp
  ultimately have "memcmp m (p + of_nat i) q (of_nat (length t)) = Some (lex_cmp ?u t)"
    using memcmp_ok [OF b, of q t] i by simp
  then show ?thesis by (simp add: lex_cmp_lexord(3) occurs_at_def)
qed

lemma strstr_loop_step:
  assumes "cstr m p s" and "cstr m q t" and "i + length t \<le> length s"
  shows "strstr_loop m p q (of_nat (length t)) (of_nat (length s - length t)) (of_nat i) =
    (if occurs_at t s i then Some (p + of_nat i)
     else strstr_loop m p q (of_nat (length t)) (of_nat (length s - length t)) (of_nat (Suc i)))"
proof -
  have "length s < 2 ^ 32" using cstr_length [OF assms(1)] by simp
  then have "(of_nat i :: u32) \<le> of_nat (length s - length t)"
    using assms(3) by (subst of_nat_le_u32) simp_all
  moreover obtain c where "memcmp m (p + of_nat i) q (of_nat (length t)) = Some c" "c = 0 \<longleftrightarrow> occurs_at t s i"
    using strstr_memcmp [OF assms] by blast
  ultimately show ?thesis by (subst strstr_loop.simps) (auto simp: add.commute)
qed

lemma strstr_loop_found:
  assumes "cstr m p s" and "cstr m q t" and "k + length t \<le> length s" and "occurs_at t s k"
    and "i \<le> k" and "\<forall>j. i \<le> j \<longrightarrow> j < k \<longrightarrow> \<not> occurs_at t s j"
  shows "strstr_loop m p q (of_nat (length t)) (of_nat (length s - length t)) (of_nat i) = Some (p + of_nat k)"
  using assms(5,6)
proof (induction "k - i" arbitrary: i)
  case 0
  then show ?case using strstr_loop_step [OF assms(1-3)] assms(4) by simp
next
  case (Suc n)
  then have "i < k" by simp
  then have "strstr_loop m p q (of_nat (length t)) (of_nat (length s - length t)) (of_nat (Suc i)) = Some (p + of_nat k)"
    using Suc by (intro Suc.hyps(1)) auto
  moreover have "\<not> occurs_at t s i" using Suc.prems \<open>i < k\<close> by simp
  ultimately show ?case using strstr_loop_step [OF assms(1,2), of i] assms(3) \<open>i < k\<close> by simp
qed

lemma strstr_loop_none:
  assumes "cstr m p s" and "cstr m q t" and "length t \<le> length s"
    and "i \<le> Suc (length s - length t)" and "\<forall>j. i \<le> j \<longrightarrow> j + length t \<le> length s \<longrightarrow> \<not> occurs_at t s j"
  shows "strstr_loop m p q (of_nat (length t)) (of_nat (length s - length t)) (of_nat i) = Some 0"
  using assms(4,5)
proof (induction "Suc (length s - length t) - i" arbitrary: i)
  case 0
  then have i: "i = Suc (length s - length t)" by simp
  have "\<not> (of_nat i :: u32) \<le> of_nat (length s - length t)"
    using cstr_length [OF assms(1)] by (simp add: i word_le_nat_alt unat_of_nat_u32 del: of_nat_Suc)
  then show ?case by (subst strstr_loop.simps) simp
next
  case (Suc n)
  then have "i + length t \<le> length s" using assms(3) by simp
  moreover have "strstr_loop m p q (of_nat (length t)) (of_nat (length s - length t)) (of_nat (Suc i)) = Some 0"
    using Suc by (intro Suc.hyps(1)) auto
  ultimately show ?case using strstr_loop_step [OF assms(1,2), of i] Suc.prems by simp
qed

lemma strstr_ok:
  assumes "cstr m p s" and "cstr m q t"
  shows "(\<forall>k. k + length t \<le> length s \<longrightarrow> occurs_at t s k \<longrightarrow> (\<forall>j<k. \<not> occurs_at t s j) \<longrightarrow>
        strstr m p q = Some (p + of_nat k)) \<and>
    ((\<forall>k. k + length t \<le> length s \<longrightarrow> \<not> occurs_at t s k) \<longrightarrow> strstr m p q = Some 0)"
proof (cases "length t \<le> length s")
  case True
  have "length s < 2 ^ 32" "length t < 2 ^ 32" using cstr_length [OF assms(1)] True by simp_all
  then have le: "(of_nat (length t) :: u32) \<le> of_nat (length s)"
    and sub: "of_nat (length s) - of_nat (length t) = (of_nat (length s - length t) :: u32)"
    using True by (simp_all add: word_le_nat_alt unat_of_nat_u32 of_nat_diff)
  have "strstr m p q = strstr_loop m p q (of_nat (length t)) (of_nat (length s - length t)) (of_nat 0)"
    using le by (simp add: strstr_def strlen_ok [OF assms(1)] strlen_ok [OF assms(2)] sub)
  then show ?thesis
    using strstr_loop_found [OF assms, of _ 0] strstr_loop_none [OF assms True, of 0] by auto
next
  case False
  have "length s < 2 ^ 32" "length t < 2 ^ 32" using cstr_length [OF assms(1)] cstr_length [OF assms(2)] by simp_all
  then have "\<not> (of_nat (length t) :: u32) \<le> of_nat (length s)"
    using False by (simp add: word_le_nat_alt unat_of_nat_u32)
  then show ?thesis
    using False by (simp add: strstr_def strlen_ok [OF assms(1)] strlen_ok [OF assms(2)])
qed

subsection \<open>Bounded copies\<close>

lemma copy_terminated:
  assumes s: "cstr m src s" and k: "k \<le> length s" and d: "mapped m dst (Suc k)" "in_space dst (Suc k)"
    and dis: "block dst (Suc k) \<inter> block src (Suc (length s)) = {}"
  shows "\<exists>m'. memcpy m dst src (of_nat k) = Some (dst, m') \<and>
    store8 m' (dst + of_nat k) 0 = Some (put m dst (take k s @ [0]))"
proof -
  let ?u = "take k s"
  have len: "length ?u = k" using k by simp
  have b: "bytes_at m src ?u" using s by (simp add: cstr_def str_at_bytes bytes_at_append bytes_at_take)
  have "block dst k \<subseteq> block dst (Suc k)" "block src k \<subseteq> block src (Suc (length s))"
    using k by (auto simp: block_def)
  then have "block dst k \<inter> block src k = {}" using dis by blast
  moreover have "in_space src k" using cstr_in_space [OF s] by (rule in_space_mono) (use k in simp)
  moreover have "in_space dst k" "mapped m dst k"
    using in_space_mono [OF d(2)] mapped_mono [OF d(1)] by simp_all
  ultimately have cp: "memcpy m dst src (of_nat k) = Some (dst, put m dst ?u)"
    using memcpy_ok [OF b, of dst] by (simp only: len)
  have "put m dst ?u (dst + of_nat k) \<noteq> None"
    using mapped_put [OF d(1)] by (simp add: mapped_def)
  then have "store8 (put m dst ?u) (dst + of_nat k) 0 = Some ((put m dst ?u)(dst + of_nat (length ?u) \<mapsto> 0))"
    unfolding len by (rule store8_mapped)
  also have "\<dots> = Some (put m dst (?u @ [0]))"
    using in_space_length [OF d(2)] by (subst put_snoc) (simp_all add: len)
  finally show ?thesis using cp by blast
qed

lemma strlcpy_ok:
  assumes s: "cstr m src s" and n: "0 < n" "n < 2 ^ 32"
    and d: "mapped m dst (Suc (min (length s) (n - 1)))" "in_space dst (Suc (min (length s) (n - 1)))"
    and dis: "block dst (Suc (min (length s) (n - 1))) \<inter> block src (Suc (length s)) = {}"
  shows "strlcpy m dst src (of_nat n) = Some (of_nat (length s), put m dst (take (n - 1) s @ [0]))"
proof -
  let ?k = "min (length s) (n - 1)"
  have l: "length s < 2 ^ 32" using cstr_length [OF s] by simp
  have k: "(if (of_nat (length s) :: u32) < of_nat n - 1 then of_nat (length s) else of_nat n - 1) = (of_nat ?k :: u32)"
  proof -
    have "(of_nat n - 1 :: u32) = of_nat (n - 1)" using n by (simp add: of_nat_diff)
    moreover have "(of_nat (length s) :: u32) < of_nat (n - 1) \<longleftrightarrow> length s < n - 1"
      using l n by (intro of_nat_less_u32) simp_all
    ultimately show ?thesis by (simp add: min_def)
  qed
  have "(of_nat n :: u32) > 0" using n by (simp add: word_less_nat_alt unat_of_nat_u32)
  moreover obtain m' where "memcpy m dst src (of_nat ?k) = Some (dst, m')"
    "store8 m' (dst + of_nat ?k) 0 = Some (put m dst (take ?k s @ [0]))"
    using copy_terminated [OF s _ d dis] by auto
  moreover have "take ?k s = take (n - 1) s" by (simp add: min_def)
  ultimately show ?thesis
    using s d by (simp add: strlcpy_def strlen_ok [OF s] cstr_nonnull k in_space_def Let_def)
qed

lemma strlcat_ok:
  assumes s: "cstr m src s" and t: "cstr m dst t" and n: "length t < n" "n < 2 ^ 32"
    and d: "mapped m (dst + of_nat (length t)) (Suc (min (length s) (n - length t - 1)))"
      "in_space (dst + of_nat (length t)) (Suc (min (length s) (n - length t - 1)))"
    and dis: "block (dst + of_nat (length t)) (Suc (min (length s) (n - length t - 1))) \<inter> block src (Suc (length s)) = {}"
  shows "strlcat m dst src (of_nat n) =
    Some (of_nat (length s + length t), put m (dst + of_nat (length t)) (take (n - length t - 1) s @ [0]))"
proof -
  let ?k = "min (length s) (n - length t - 1)"
  have l: "length s < 2 ^ 32" using cstr_length [OF s] by simp
  have k: "(if (of_nat (length s) :: u32) < of_nat n - of_nat (length t) - 1 then of_nat (length s)
      else of_nat n - of_nat (length t) - 1) = (of_nat ?k :: u32)"
  proof -
    have "(of_nat n - of_nat (length t) - 1 :: u32) = of_nat (n - length t - 1)"
      using n by (simp add: of_nat_diff)
    moreover have "(of_nat (length s) :: u32) < of_nat (n - length t - 1) \<longleftrightarrow> length s < n - length t - 1"
      using l n by (intro of_nat_less_u32) simp_all
    ultimately show ?thesis by (simp add: min_def)
  qed
  have "(of_nat n :: u32) > 0" "(of_nat (length t) :: u32) < of_nat n"
    using n by (simp_all add: word_less_nat_alt unat_of_nat_u32)
  moreover obtain m' where "memcpy m (dst + of_nat (length t)) src (of_nat ?k) = Some (dst + of_nat (length t), m')"
    "store8 m' (dst + of_nat (length t) + of_nat ?k) 0 = Some (put m (dst + of_nat (length t)) (take ?k s @ [0]))"
    using copy_terminated [OF s _ d dis] by auto
  moreover have "take ?k s = take (n - length t - 1) s" by (simp add: min_def)
  ultimately show ?thesis
    using cstr_nonnull [OF t] cstr_nonnull [OF s]
    by (simp add: strlcat_def strlen_ok [OF s] strlen_ok [OF t] k Let_def add.assoc)
qed


subsection \<open>Tokens of a string\<close>

lemma skip_delims_ok:
  assumes q: "cstr m q ds" and "cstr m p s"
  shows "skip_delims m q p = Some (dropWhile (\<lambda>b. b \<in> set ds) s \<noteq> [],
    p + of_nat (length (takeWhile (\<lambda>b. b \<in> set ds) s)))"
  using assms(2)
proof (induction s arbitrary: p)
  case Nil
  obtain f where "strchr m q 0 = Some f" "f \<noteq> 0" using strchr_mem [OF q, of 0] by blast
  with Nil show ?case by (subst skip_delims.simps) (simp add: cstr_Nil)
next
  case (Cons b s)
  obtain f where "strchr m q b = Some f" "f \<noteq> 0 \<longleftrightarrow> b = 0 \<or> b \<in> set ds" using strchr_mem [OF q] .
  with Cons show ?case by (subst skip_delims.simps) (auto simp: cstr_Cons add.assoc)
qed

lemma skip_token_ok:
  assumes q: "cstr m q ds" and "cstr m p s"
  shows "skip_token m q p = Some (p + of_nat (length (takeWhile (\<lambda>b. b \<notin> set ds) s)))"
  using assms(2)
proof (induction s arbitrary: p)
  case Nil
  obtain f where "strchr m q 0 = Some f" "f \<noteq> 0" using strchr_mem [OF q, of 0] by blast
  with Nil show ?case by (subst skip_token.simps) (simp add: cstr_Nil)
next
  case (Cons b s)
  obtain f where "strchr m q b = Some f" "f \<noteq> 0 \<longleftrightarrow> b = 0 \<or> b \<in> set ds" using strchr_mem [OF q] .
  with Cons show ?case by (subst skip_token.simps) (auto simp: cstr_Cons add.assoc)
qed

lemma cstr_cut:
  assumes s: "cstr m p (xs @ b # ys)"
  shows "cstr (m(p + of_nat (length xs) \<mapsto> 0)) p xs"
    and "cstr (m(p + of_nat (length xs) \<mapsto> 0)) (p + of_nat (length xs) + 1) ys"
    and "m (p + of_nat (length xs)) = Some b" and "b \<noteq> 0"
proof -
  let ?m = "m(p + of_nat (length xs) \<mapsto> 0)"
  have len: "Suc (length xs + Suc (length ys)) < 2 ^ 32" using cstr_length [OF s] by simp
  have sb: "bytes_at m p xs" "0 \<notin> set xs" using s by (simp_all add: cstr_def str_at_bytes bytes_at_append)
  have "bytes_at ?m p xs"
    by (rule bytes_at_agree [OF sb(1)]) (use len add_of_nat_neq in auto)
  moreover have "in_space p (Suc (length xs))" using cstr_in_space [OF s] by (rule in_space_mono) simp
  ultimately show "cstr ?m p xs" using sb by (simp add: cstr_def str_at_bytes bytes_at_append)
  have d: "cstr m (p + of_nat (length xs)) (b # ys)" using cstr_drop [OF s, of "length xs"] by simp
  then show "m (p + of_nat (length xs)) = Some b" "b \<noteq> 0" by (simp_all add: cstr_Cons)
  have ys: "cstr m (p + of_nat (length xs) + 1) ys" using d by (simp add: cstr_Cons)
  have "str_at ?m (p + of_nat (length xs) + 1) ys"
  proof (rule str_at_agree [OF cstr_str [OF ys]])
    fix i assume "i \<le> length ys"
    then have "p + of_nat (length xs) \<noteq> p + of_nat (length xs + Suc i)"
      using len by (intro add_of_nat_neq) auto
    then show "?m (p + of_nat (length xs) + 1 + of_nat i) = m (p + of_nat (length xs) + 1 + of_nat i)"
      by (simp add: add.assoc)
  qed
  with ys show "cstr ?m (p + of_nat (length xs) + 1) ys" by (simp add: cstr_def)
qed

text \<open>One call: it returns the null pointer when only delimiters are left, and otherwise the next token,
  now a string of its own, with the saved position at the string that remains.\<close>

definition next_token :: "u8 list \<Rightarrow> u8 list \<Rightarrow> u8 list \<times> u8 list" where
  "next_token ds s = (let r = dropWhile (\<lambda>b. b \<in> set ds) s
     in (takeWhile (\<lambda>b. b \<notin> set ds) r, drop 1 (dropWhile (\<lambda>b. b \<notin> set ds) r)))"

lemma strtok_start:
  assumes q: "cstr m q ds" and p: "cstr m p s"
  shows "strtok_r m p q sv = strtok_r m 0 q p"
  using cstr_nonnull [OF p] by (simp add: strtok_r_def)

lemma strtok_none:
  assumes q: "cstr m q ds" and p: "cstr m p s" and "fst (next_token ds s) = []"
  shows "strtok_r m 0 q p = Some (0, p + of_nat (length s), m)"
proof -
  have d: "dropWhile (\<lambda>b. b \<in> set ds) s = []"
    using assms(3) hd_dropWhile [of "\<lambda>b. b \<in> set ds" s]
    by (cases "dropWhile (\<lambda>b. b \<in> set ds) s") (auto simp: next_token_def Let_def split: if_splits)
  then have t: "takeWhile (\<lambda>b. b \<in> set ds) s = s" by (metis takeWhile_dropWhile_id append_Nil2)
  have "skip_delims m q p = Some (False, p + of_nat (length s))"
    unfolding skip_delims_ok [OF q p] d t by simp
  then show ?thesis
    using cstr_nonnull [OF q] cstr_nonnull [OF p] by (simp add: strtok_r_def)
qed

lemma strtok_token:
  assumes q: "cstr m q ds" and p: "cstr m p s" and tok: "next_token ds s = (t, r)" "t \<noteq> []"
  shows "\<exists>tp sv m' n. strtok_r m 0 q p = Some (tp, sv, m') \<and> tp \<noteq> 0 \<and> cstr m' tp t \<and> cstr m' sv r \<and>
    tp = p + of_nat n \<and> n + length t \<le> length s \<and>
    (m' = m \<or> m' = m(p + of_nat (n + length t) \<mapsto> 0) \<and> n + length t < length s)"
proof -
  define pre where "pre = takeWhile (\<lambda>b. b \<in> set ds) s"
  define rest where "rest = dropWhile (\<lambda>b. b \<in> set ds) s"
  define post where "post = dropWhile (\<lambda>b. b \<notin> set ds) rest"
  have t: "t = takeWhile (\<lambda>b. b \<notin> set ds) rest" and r: "r = drop 1 post"
    using tok(1) by (auto simp: next_token_def rest_def post_def Let_def)
  have s: "s = pre @ rest" and rest: "rest = t @ post"
    by (simp_all add: pre_def rest_def t post_def)
  have "rest \<noteq> []" using tok(2) by (auto simp: t)
  let ?tp = "p + of_nat (length pre)"
  have tp: "cstr m ?tp rest" using cstr_drop [OF p, of "length pre"] by (simp add: s)
  have sd: "skip_delims m q p = Some (True, ?tp)"
    using \<open>rest \<noteq> []\<close> by (simp add: skip_delims_ok [OF q p] pre_def rest_def)
  have st: "skip_token m q ?tp = Some (?tp + of_nat (length t))"
    using skip_token_ok [OF q tp] by (simp add: t)
  note nn = cstr_nonnull [OF q] cstr_nonnull [OF p] cstr_nonnull [OF tp]
  show ?thesis
  proof (cases post)
    case Nil
    then have e: "cstr m ?tp t" "r = []" using tp rest r by simp_all
    then have z: "cstr m (?tp + of_nat (length t)) []" using cstr_drop [OF e(1), of "length t"] by simp
    then have "strtok_r m 0 q p = Some (?tp, ?tp + of_nat (length t), m)"
      using sd st nn by (simp add: strtok_r_def cstr_Nil)
    with e z nn(3) s rest Nil show ?thesis by (intro exI [of _ ?tp] exI conjI) auto
  next
    case (Cons b ys)
    have c: "cstr m ?tp (t @ b # ys)" and ry: "r = ys" using tp rest Cons r by simp_all
    note cut = cstr_cut [OF c]
    then have "strtok_r m 0 q p = Some (?tp, ?tp + of_nat (length t) + 1, m(?tp + of_nat (length t) \<mapsto> 0))"
      using sd st nn by (simp add: strtok_r_def store8_def)
    with cut ry nn(3) s rest Cons show ?thesis
      by (intro exI [of _ ?tp] exI [of _ "?tp + of_nat (length t) + 1"]
          exI [of _ "m(?tp + of_nat (length t) \<mapsto> 0)"] exI [of _ "length pre"]) (simp add: add.assoc)
  qed
qed


subsection \<open>Properties\<close>

text \<open>C26. \<^verbatim>\<open>memmove\<close> copies correctly however the two blocks overlap: the destination holds the bytes the
  source held before the call and no other address changes. The pointer it returns is the destination
  only when the destination does not lie below the source; otherwise it is the end of the
  destination, although the comment says that the destination is returned.\<close>

theorem memmove_copies:
  assumes "bytes_at m s bs" and "mapped m d (length bs)" and "in_space s (length bs)" "in_space d (length bs)"
  shows "\<exists>m'. memmove m d s (of_nat (length bs)) = Some (if d < s then d + of_nat (length bs) else d, m') \<and>
    bytes_at m' d bs \<and> (\<forall>a. a \<notin> block d (length bs) \<longrightarrow> m' a = m a)"
  using memmove_ok [OF assms] in_space_length [OF assms(3)]
  by (simp add: bytes_at_put put_other)

theorem memmove_copies_witness:
  "\<exists>m'. memmove (\<lambda>a. Some (ucast a)) 100 101 3 = Some (103, m') \<and> bytes_at m' 100 [101, 102, 103]"
proof -
  have "bytes_at (\<lambda>a. Some (ucast a)) 101 [101, 102, 103]" by simp
  moreover have "mapped (\<lambda>a. Some (ucast a)) 100 (length [101, 102, 103 :: u8])" by (simp add: mapped_def)
  ultimately show ?thesis
    using memmove_copies [of "\<lambda>a. Some (ucast a)" 101 "[101, 102, 103]" 100] by (auto simp: in_space_def)
qed

text \<open>C28. The bounded copies stay in bounds: \<^verbatim>\<open>strlcpy\<close> writes at most \<^verbatim>\<open>size\<close> bytes at the destination,
  leaves there the longest prefix of the source that fits, terminated, and returns the length of the
  source.\<close>

theorem strlcpy_bounded:
  assumes "cstr m src s" and "0 < n" "n < 2 ^ 32"
    and "mapped m dst n" "in_space dst n" "block dst n \<inter> block src (Suc (length s)) = {}"
  shows "\<exists>m'. strlcpy m dst src (of_nat n) = Some (of_nat (length s), m') \<and> cstr m' dst (take (n - 1) s) \<and>
    (\<forall>a. a \<notin> block dst n \<longrightarrow> m' a = m a)"
proof -
  let ?k = "Suc (min (length s) (n - 1))" and ?bs = "take (n - 1) s @ [0]"
  have le: "?k \<le> n" using assms(2) by simp
  then have sub: "block dst ?k \<subseteq> block dst n" by (auto simp: block_def)
  have "strlcpy m dst src (of_nat n) = Some (of_nat (length s), put m dst ?bs)"
    using mapped_mono [OF assms(4) le] in_space_mono [OF assms(5) le] sub assms(6)
    by (intro strlcpy_ok assms(1-3)) auto
  moreover have "bytes_at (put m dst ?bs) dst ?bs" using assms(3) by (intro bytes_at_put) simp
  moreover have "0 \<notin> set (take (n - 1) s)"
    using assms(1) by (auto simp: cstr_def str_at_bytes dest: in_set_takeD)
  moreover have "in_space dst (Suc (length (take (n - 1) s)))"
    using in_space_mono [OF assms(5), of ?k] le by simp
  moreover have "put m dst ?bs a = m a" if "a \<notin> block dst n" for a
    using that sub by (intro put_other) (auto simp: block_def)
  ultimately show ?thesis by (auto simp: cstr_def str_at_bytes)
qed

definition example_mem :: mem where
  "example_mem = (\<lambda>a. if a = 100 then Some 97 else if a = 101 then Some 98 else if a = 102 then Some 99 else Some 0)"

theorem strlcpy_bounded_witness:
  "\<exists>m'. strlcpy example_mem 200 100 3 = Some (3, m') \<and> cstr m' 200 [97, 98]"
proof -
  have c: "cstr example_mem 100 [97, 98, 99]" by (simp add: cstr_def in_space_def example_mem_def)
  have "block 200 3 \<inter> block 100 (Suc (length [97, 98, 99 :: u8])) = {}"
    by (simp add: block_Suc numeral_3_eq_3)
  moreover have "mapped example_mem 200 3" by (simp add: mapped_def example_mem_def)
  ultimately show ?thesis
    using strlcpy_bounded [OF c, of 3 200] by (simp add: in_space_def) blast
qed

text \<open>The scanning functions return what their comments say: the length of a string, the sign of
  the lexicographic comparison of two strings as unsigned bytes, the first occurrence of a character, and
  the lengths of the longest prefixes inside and outside a set of characters.\<close>

theorem string_scans:
  assumes "cstr m p s" and "cstr m q t"
  shows "strlen m p = Some (of_nat (length s)) \<and>
    (\<exists>r. strcmp m p q = Some r \<and> (r = 0 \<longleftrightarrow> s = t) \<and> (r = - 1 \<longleftrightarrow> (s, t) \<in> lexord {(a, b). a < b}) \<and>
       (r = 1 \<longleftrightarrow> (t, s) \<in> lexord {(a, b). a < b})) \<and>
    strchr m p c = Some (if c = 0 \<or> c \<in> set s then p + of_nat (length (takeWhile (\<lambda>b. b \<noteq> c) s)) else 0) \<and>
    strspn m p q = Some (of_nat (length (takeWhile (\<lambda>b. b \<in> set t) s))) \<and>
    strcspn m p q = Some (of_nat (length (takeWhile (\<lambda>b. b \<notin> set t) s)))"
  using strlen_ok [OF assms(1)] strcmp_loop_ok [OF cstr_str cstr_str, OF assms] strchr_ok [OF assms(1)]
    strspn_loop_ok [OF assms(2), of p 0 s] strcspn_loop_ok [OF assms(2), of p 0 s]
    cstr_str [OF assms(1)] cstr_nonnull [OF assms(1)] cstr_nonnull [OF assms(2)]
  by (simp add: strcmp_def strspn_def strcspn_def lex_cmp_lexord)

theorem string_scans_witness:
  "strlen example_mem 100 = Some 3 \<and> strcspn example_mem 100 102 = Some 2 \<and> strchr example_mem 100 98 = Some 101"
proof -
  have "cstr example_mem 100 [97, 98, 99]" "cstr example_mem 102 [99]"
    by (simp_all add: cstr_def in_space_def example_mem_def)
  from string_scans [OF this, of 98] show ?thesis by simp
qed


end
