(* ===== verification/Stdlib.thy ===== *)
theory Stdlib
  imports Cstring "HOL-Library.Multiset"
begin

section \<open>Characters, numbers, sorting and searching (lib/ctype.h, lib/stdlib.c)\<close>

text \<open>
  The character classes of \<^verbatim>\<open>ctype.h\<close>, \<^verbatim>\<open>atoi\<close> over the byte memory, the heap sort \<^verbatim>\<open>sort\<close> over an array of
  elements of \<^verbatim>\<open>size\<close> bytes with 1-based 32-bit indices as in the code, and \<^verbatim>\<open>binary_search\<close> over
  addresses. The comparison function is a parameter; what the code asks of it is the hypothesis
  \<open>strcmp_like\<close>.
\<close>

subsection \<open>Character classes\<close>

definition islower :: "int \<Rightarrow> bool" where "islower c \<longleftrightarrow> 97 \<le> c \<and> c \<le> 122"
definition isupper :: "int \<Rightarrow> bool" where "isupper c \<longleftrightarrow> 65 \<le> c \<and> c \<le> 90"
definition isalpha :: "int \<Rightarrow> bool" where "isalpha c \<longleftrightarrow> islower c \<or> isupper c"
definition isdigit :: "int \<Rightarrow> bool" where "isdigit c \<longleftrightarrow> 48 \<le> c \<and> c \<le> 57"
definition isalnum :: "int \<Rightarrow> bool" where "isalnum c \<longleftrightarrow> isalpha c \<or> isdigit c"

definition isxdigit :: "int \<Rightarrow> bool" where
  "isxdigit c \<longleftrightarrow> isdigit c \<or> 97 \<le> c \<and> c \<le> 102 \<or> 65 \<le> c \<and> c \<le> 70"

definition isspace :: "int \<Rightarrow> bool" where
  "isspace c \<longleftrightarrow> c = 32 \<or> c = 12 \<or> c = 10 \<or> c = 13 \<or> c = 9 \<or> c = 11"

definition isblank :: "int \<Rightarrow> bool" where "isblank c \<longleftrightarrow> c = 32 \<or> c = 9"
definition isgraph :: "int \<Rightarrow> bool" where "isgraph c \<longleftrightarrow> 32 < c \<and> c < 127"
definition isprint :: "int \<Rightarrow> bool" where "isprint c \<longleftrightarrow> 32 \<le> c \<and> c < 127"
definition iscntrl :: "int \<Rightarrow> bool" where "iscntrl c \<longleftrightarrow> 0 \<le> c \<and> c < 32 \<or> c = 127"
definition isascii :: "int \<Rightarrow> bool" where "isascii c \<longleftrightarrow> 0 \<le> c \<and> c < 128"

definition ispunct :: "int \<Rightarrow> bool" where
  "ispunct c \<longleftrightarrow> isprint c \<and> \<not> isalnum c \<and> \<not> isspace c"

definition tolower :: "int \<Rightarrow> int" where "tolower c = (if isupper c then c - 65 + 97 else c)"
definition toupper :: "int \<Rightarrow> int" where "toupper c = (if islower c then c - 97 + 65 else c)"

lemmas ctype_defs = islower_def isupper_def isalpha_def isdigit_def isalnum_def isxdigit_def isspace_def
  isblank_def isgraph_def isprint_def iscntrl_def isascii_def ispunct_def tolower_def toupper_def

text \<open>Every ASCII character is a control character, a space, a letter, a digit or punctuation.\<close>

lemma ctype_partition:
  "isascii c \<longleftrightarrow> iscntrl c \<or> c = 32 \<or> isalpha c \<or> isdigit c \<or> ispunct c"
  unfolding ctype_defs by presburger

lemma ctype_case: "isupper c \<Longrightarrow> toupper (tolower c) = c" "islower c \<Longrightarrow> tolower (toupper c) = c"
  by (auto simp: ctype_defs)

subsection \<open>Numbers\<close>

text \<open>A \<^verbatim>\<open>char\<close> is signed: this is its value as an \<^verbatim>\<open>int\<close>.\<close>

definition char_int :: "u8 \<Rightarrow> int" where
  "char_int b = (if uint b < 128 then uint b else uint b - 256)"

partial_function (option) skip_space :: "mem \<Rightarrow> ptr \<Rightarrow> ptr option" where
  "skip_space m s = do { b \<leftarrow> m s; if isspace (uint b) then skip_space m (s + 1) else Some s }"

partial_function (option) digits_loop :: "mem \<Rightarrow> ptr \<Rightarrow> u32 \<Rightarrow> u32 option" where
  "digits_loop m s v = do {
     b \<leftarrow> m s;
     if isdigit (char_int b) then digits_loop m (s + 1) (v * 10 - of_int (char_int b - 48)) else Some v
   }"

definition atoi :: "mem \<Rightarrow> ptr \<Rightarrow> u32 option" where
  "atoi m s = do {
     kassert (s \<noteq> 0);
     s \<leftarrow> skip_space m s;
     b \<leftarrow> m s;
     let (negative, s) = (if b = 43 then (False, s + 1) else if b = 45 then (True, s + 1) else (False, s));
     v \<leftarrow> digits_loop m s 0;
     Some (if \<not> negative then - v else v)
   }"

definition digit :: "u8 \<Rightarrow> bool" where
  "digit b \<longleftrightarrow> 48 \<le> b \<and> b \<le> 57"

fun decimal :: "int \<Rightarrow> u8 list \<Rightarrow> int" where
  "decimal acc [] = acc"
| "decimal acc (b # bs) = decimal (acc * 10 + (uint b - 48)) bs"

lemma char_int_digit: "isdigit (char_int b) \<longleftrightarrow> digit b" "digit b \<Longrightarrow> char_int b = uint b"
  using uint_lt2p [of b] by (auto simp: isdigit_def digit_def word_le_def char_int_def)

lemma skip_space_ok:
  "bytes_at m p (ws @ [b]) \<Longrightarrow> list_all (\<lambda>b. isspace (uint b)) ws \<Longrightarrow> \<not> isspace (uint b) \<Longrightarrow>
    skip_space m p = Some (p + of_nat (length ws))"
  by (induction ws arbitrary: p) (subst skip_space.simps; simp add: add.assoc)+

lemma digits_loop_ok:
  "bytes_at m p (ds @ [e]) \<Longrightarrow> list_all digit ds \<Longrightarrow> \<not> digit e \<Longrightarrow>
    digits_loop m p (of_int (- a)) = Some (of_int (- decimal a ds))"
proof (induction ds arbitrary: p a)
  case Nil
  then show ?case by (subst digits_loop.simps) (simp add: char_int_digit)
next
  case (Cons d ds)
  have "digits_loop m (p + 1) (of_int (- (a * 10 + (uint d - 48)))) =
      Some (of_int (- decimal (a * 10 + (uint d - 48)) ds))"
    using Cons.prems by (intro Cons.IH) simp_all
  moreover have "of_int (- a) * 10 - of_int (char_int d - 48) = (of_int (- (a * 10 + (uint d - 48))) :: u32)"
    using Cons.prems by (simp add: char_int_digit algebra_simps)
  ultimately show ?case
    using Cons.prems by (subst digits_loop.simps) (simp add: char_int_digit(1) algebra_simps)
qed

lemma atoi_ok:
  assumes b: "bytes_at m p (ws @ sg @ ds @ [e])" and p: "p \<noteq> 0"
    and ws: "list_all (\<lambda>b. isspace (uint b)) ws" and sg: "sg \<in> {[], [43], [45]}"
    and ds: "list_all digit ds" "ds \<noteq> []" "\<not> digit e"
  shows "atoi m p = Some (of_int (if sg = [45] then - decimal 0 ds else decimal 0 ds))"
proof -
  let ?q = "p + of_nat (length ws)" and ?r = "p + of_nat (length ws) + of_nat (length sg)"
  obtain d ds' where d: "ds = d # ds'" using ds(2) by (cases ds) auto
  have dd: "48 \<le> d" "d \<le> 57" using ds(1) d by (simp_all add: digit_def)
  have nsp: "\<not> isspace (uint c)" if "c \<in> {43, 45, d}" for c
    using that dd by (auto simp: isspace_def word_le_def)
  obtain c cs where c: "sg @ ds @ [e] = c # cs" "c \<in> {43, 45, d}" using sg d by auto
  have "skip_space m p = Some ?q"
    by (rule skip_space_ok [of _ _ _ c]) (use b c ws nsp in \<open>simp_all add: bytes_at_append\<close>)
  moreover have "m ?q = Some c" using b c by (simp add: bytes_at_append)
  moreover have "(if c = 43 then (False, ?q + 1) else if c = 45 then (True, ?q + 1) else (False, ?q)) =
      (sg = [45], ?r)"
    using sg c d dd by auto
  moreover have "digits_loop m ?r 0 = Some (of_int (- decimal 0 ds))"
    using digits_loop_ok [of m ?r ds e 0] b ds by (simp add: bytes_at_append)
  ultimately show ?thesis using p by (simp add: atoi_def)
qed

subsection \<open>Heap sort\<close>

type_synonym element = "u8 list"

definition elem_at :: "element list \<Rightarrow> size_t \<Rightarrow> element option" where
  "elem_at array i = (if 1 \<le> i \<and> unat i \<le> length array then Some (array ! (unat i - 1)) else None)"

text \<open>The loop that exchanges two elements byte by byte.\<close>

primrec swap_loop :: "nat \<Rightarrow> nat \<Rightarrow> element \<Rightarrow> element \<Rightarrow> element \<times> element" where
  "swap_loop 0 i a b = (a, b)"
| "swap_loop (Suc n) i a b = swap_loop n (Suc i) (a[i := b ! i]) (b[i := a ! i])"

definition do_swap :: "element list \<Rightarrow> size_t \<Rightarrow> size_t \<Rightarrow> nat \<Rightarrow> element list option" where
  "do_swap array a_idx b_idx sz = do {
     a \<leftarrow> elem_at array a_idx;
     b \<leftarrow> elem_at array b_idx;
     kassert (sz \<le> length a \<and> sz \<le> length b);
     let (a, b) = swap_loop sz 0 a b;
     Some (array[unat a_idx - 1 := a, unat b_idx - 1 := b])
   }"

definition do_compare :: "(element \<Rightarrow> element \<Rightarrow> int) \<Rightarrow> element list \<Rightarrow> size_t \<Rightarrow> size_t \<Rightarrow> int option" where
  "do_compare compare array a_idx b_idx = do {
     a \<leftarrow> elem_at array a_idx;
     b \<leftarrow> elem_at array b_idx;
     Some (compare a b)
   }"

definition larger :: "(element \<Rightarrow> element \<Rightarrow> int) \<Rightarrow> element list \<Rightarrow> size_t \<Rightarrow> size_t \<Rightarrow> size_t \<Rightarrow> size_t option" where
  "larger compare array child mx cnt =
     (if child \<le> cnt then do { c \<leftarrow> do_compare compare array child mx; Some (if c > 0 then child else mx) }
      else Some mx)"

partial_function (option) heapify ::
  "(element \<Rightarrow> element \<Rightarrow> int) \<Rightarrow> nat \<Rightarrow> element list \<Rightarrow> size_t \<Rightarrow> size_t \<Rightarrow> element list option" where
  "heapify compare sz array i cnt = do {
     let left = 2 * i;
     let right = 2 * i + 1;
     mx \<leftarrow> larger compare array left i cnt;
     mx \<leftarrow> larger compare array right mx cnt;
     if mx = i then Some array
     else do { array \<leftarrow> do_swap array i mx sz; heapify compare sz array mx cnt }
   }"

primrec build_loop :: "(element \<Rightarrow> element \<Rightarrow> int) \<Rightarrow> nat \<Rightarrow> size_t \<Rightarrow> nat \<Rightarrow> element list \<Rightarrow> element list option" where
  "build_loop compare sz cnt 0 array = Some array"
| "build_loop compare sz cnt (Suc n) array = do {
     array \<leftarrow> heapify compare sz array (of_nat (Suc n)) cnt;
     build_loop compare sz cnt n array
   }"

primrec heap_loop :: "(element \<Rightarrow> element \<Rightarrow> int) \<Rightarrow> nat \<Rightarrow> nat \<Rightarrow> element list \<Rightarrow> element list option" where
  "heap_loop compare sz 0 array = Some array"
| "heap_loop compare sz (Suc n) array =
     (if n = 0 then Some array
      else do {
        array \<leftarrow> do_swap array 1 (of_nat (Suc n)) sz;
        array \<leftarrow> heapify compare sz array 1 (of_nat n);
        heap_loop compare sz n array
      })"

definition sort_c :: "(element \<Rightarrow> element \<Rightarrow> int) \<Rightarrow> element list \<Rightarrow> size_t \<Rightarrow> nat \<Rightarrow> element list option" where
  "sort_c compare array cnt sz = do {
     kassert (sz > 0);
     array \<leftarrow> build_loop compare sz cnt (unat (cnt div 2)) array;
     heap_loop compare sz (unat cnt) array
   }"

definition qsort :: "(element \<Rightarrow> element \<Rightarrow> int) \<Rightarrow> element list \<Rightarrow> size_t \<Rightarrow> nat \<Rightarrow> element list option" where
  "qsort compare array cnt sz = sort_c compare array cnt sz"

text \<open>What \<^verbatim>\<open>compare\<close> must be: the sign of a total preorder.\<close>

definition strcmp_like :: "(element \<Rightarrow> element \<Rightarrow> int) \<Rightarrow> bool" where
  "strcmp_like compare \<longleftrightarrow> (\<forall>a b. compare a b > 0 \<longleftrightarrow> compare b a < 0) \<and>
     (\<forall>a b c. compare a b \<le> 0 \<longrightarrow> compare b c \<le> 0 \<longrightarrow> compare a c \<le> 0)"

lemma strcmp_likeD:
  assumes "strcmp_like compare"
  shows "compare a b > 0 \<Longrightarrow> compare b a \<le> 0" and "\<not> compare a b > 0 \<Longrightarrow> compare a b \<le> 0"
    and "compare a b \<le> 0 \<Longrightarrow> compare b c \<le> 0 \<Longrightarrow> compare a c \<le> 0" and "compare a a \<le> 0"
proof -
  show "compare a b > 0 \<Longrightarrow> compare b a \<le> 0" using assms unfolding strcmp_like_def by (meson less_imp_le)
  show "compare a b \<le> 0 \<Longrightarrow> compare b c \<le> 0 \<Longrightarrow> compare a c \<le> 0" using assms unfolding strcmp_like_def by blast
  have "compare a a > 0 \<longleftrightarrow> compare a a < 0" using assms unfolding strcmp_like_def by blast
  then show "compare a a \<le> 0" by linarith
qed simp

text \<open>Elements by 1-based position.\<close>

definition pos :: "'a list \<Rightarrow> nat \<Rightarrow> 'a" where
  "pos xs j = xs ! (j - 1)"

definition exchange :: "'a list \<Rightarrow> nat \<Rightarrow> nat \<Rightarrow> 'a list" where
  "exchange xs i j = xs[i - 1 := pos xs j, j - 1 := pos xs i]"

lemma length_exchange [simp]: "length (exchange xs i j) = length xs"
  by (simp add: exchange_def)

lemma pos_exchange:
  assumes "1 \<le> i" "i \<le> length xs" "1 \<le> j" "j \<le> length xs" "1 \<le> k"
  shows "pos (exchange xs i j) k = (if k = j then pos xs i else if k = i then pos xs j else pos xs k)"
  using assms by (auto simp: pos_def exchange_def nth_list_update)

lemma mset_exchange:
  assumes "1 \<le> i" "i \<le> length xs" "1 \<le> j" "j \<le> length xs"
  shows "mset (exchange xs i j) = mset xs"
  using assms by (simp add: exchange_def pos_def mset_swap)

lemma swap_loop_eq:
  "i + n \<le> length a \<Longrightarrow> i + n \<le> length b \<Longrightarrow> swap_loop n i a b =
    (take i a @ take n (drop i b) @ drop (i + n) a, take i b @ take n (drop i a) @ drop (i + n) b)"
proof (induction n arbitrary: i a b)
  case (Suc n)
  have step: "take (Suc i) (a[i := x]) @ take n (drop (Suc i) c) @ drop (Suc (i + n)) (a[i := x]) =
      take i a @ take (Suc n) (drop i c) @ drop (Suc (i + n)) a"
    if "i < length a" "i < length c" "x = c ! i" for a c :: element and x
  proof -
    have "take (Suc i) (a[i := x]) = take i a @ [x]" using that(1) by (simp add: take_Suc_conv_app_nth)
    moreover have "drop i c = x # drop (Suc i) c" using that(2,3) by (simp add: Cons_nth_drop_Suc)
    ultimately show ?thesis by simp
  qed
  show ?case
    using Suc.prems step [of a b "b ! i"] step [of b a "a ! i"]
    by (simp add: Suc.IH)
qed simp

lemma swap_loop_all: "length a = sz \<Longrightarrow> length b = sz \<Longrightarrow> swap_loop sz 0 a b = (b, a)"
  by (simp add: swap_loop_eq)


text \<open>The heap property below position \<open>m\<close>, and the same except at \<open>i\<close>, whose element may be too small
  for its children.\<close>

definition heap_from :: "('a \<Rightarrow> 'a \<Rightarrow> int) \<Rightarrow> nat \<Rightarrow> nat \<Rightarrow> 'a list \<Rightarrow> bool" where
  "heap_from cmp m n xs \<longleftrightarrow>
     (\<forall>j. m \<le> j div 2 \<longrightarrow> j \<le> n \<longrightarrow> cmp (pos xs j) (pos xs (j div 2)) \<le> 0)"

definition heap_except :: "('a \<Rightarrow> 'a \<Rightarrow> int) \<Rightarrow> nat \<Rightarrow> nat \<Rightarrow> nat \<Rightarrow> 'a list \<Rightarrow> bool" where
  "heap_except cmp m n i xs \<longleftrightarrow>
     (\<forall>j. m \<le> j div 2 \<longrightarrow> j \<le> n \<longrightarrow> j div 2 \<noteq> i \<longrightarrow> cmp (pos xs j) (pos xs (j div 2)) \<le> 0) \<and>
     (\<forall>j. j div 2 = i \<longrightarrow> j \<le> n \<longrightarrow> m \<le> i div 2 \<longrightarrow> cmp (pos xs j) (pos xs (i div 2)) \<le> 0)"

lemma heap_except_done:
  assumes "heap_except cmp m n i xs" and "\<And>j. j div 2 = i \<Longrightarrow> j \<le> n \<Longrightarrow> cmp (pos xs j) (pos xs i) \<le> 0"
  shows "heap_from cmp m n xs"
  unfolding heap_from_def
proof (intro allI impI)
  fix j assume "m \<le> j div 2" "j \<le> n"
  then show "cmp (pos xs j) (pos xs (j div 2)) \<le> 0"
    using assms unfolding heap_except_def by (cases "j div 2 = i") auto
qed

lemma heap_except_down:
  assumes ex: "heap_except cmp m n i xs" and i: "1 \<le> m" "m \<le> i" "n \<le> length xs"
    and c: "c div 2 = i" "c \<le> n" "cmp (pos xs i) (pos xs c) \<le> 0"
    and sib: "\<And>j. j div 2 = i \<Longrightarrow> j \<le> n \<Longrightarrow> cmp (pos xs j) (pos xs c) \<le> 0"
  shows "heap_except cmp m n c (exchange xs i c)"
proof -
  have ic: "i < c" "1 \<le> i" using i c by auto
  have at: "pos (exchange xs i c) k = (if k = c then pos xs i else if k = i then pos xs c else pos xs k)"
    if "1 \<le> k" for k
    using pos_exchange [of i xs c k] ic i c that by simp
  have old: "cmp (pos xs j) (pos xs (j div 2)) \<le> 0" if "m \<le> j div 2" "j \<le> n" "j div 2 \<noteq> i" for j
    using ex that by (simp add: heap_except_def)
  have up: "cmp (pos xs c) (pos xs (i div 2)) \<le> 0" if "m \<le> i div 2"
    using ex that c by (simp add: heap_except_def)
  have "cmp (pos (exchange xs i c) j) (pos (exchange xs i c) (j div 2)) \<le> 0"
    if j: "m \<le> j div 2" "j \<le> n" "j div 2 \<noteq> c" for j
  proof -
    have ge: "1 \<le> j div 2" "j div 2 < j" "1 \<le> j" using j i(1) by auto
    consider "j = c" | "j = i" | "j \<noteq> c" "j \<noteq> i" "j div 2 = i" | "j \<noteq> c" "j \<noteq> i" "j div 2 \<noteq> i" by blast
    then show ?thesis
    proof cases
      case 1 then show ?thesis using c ic ge by (simp add: at)
    next
      case 2
      then have "j div 2 \<noteq> i" "j \<noteq> c" using ge ic by auto
      then show ?thesis using 2 j up ge by (simp add: at)
    next
      case 3 then show ?thesis using j sib ic ge by (simp add: at)
    next
      case 4 then show ?thesis using j old ge by (simp add: at)
    qed
  qed
  moreover have "cmp (pos (exchange xs i c) j) (pos (exchange xs i c) (c div 2)) \<le> 0"
    if j: "j div 2 = c" "j \<le> n" for j
  proof -
    have "j \<noteq> c" "j \<noteq> i" "1 \<le> j" using j ic by auto
    then show ?thesis using old [of j] j c ic i by (simp add: at)
  qed
  ultimately show ?thesis by (simp add: heap_except_def)
qed

lemma elem_at_of_nat:
  "1 \<le> i \<Longrightarrow> i \<le> length xs \<Longrightarrow> i < 2 ^ 32 \<Longrightarrow> elem_at xs (of_nat i) = Some (pos xs i)"
  by (simp add: elem_at_def pos_def unat_of_nat_u32 word_le_nat_alt)

lemma do_swap_ok:
  assumes "1 \<le> i" "i \<le> length xs" "1 \<le> j" "j \<le> length xs" "i < 2 ^ 32" "j < 2 ^ 32"
    and "\<forall>x \<in> set xs. length x = sz"
  shows "do_swap xs (of_nat i) (of_nat j) sz = Some (exchange xs i j)"
proof -
  have "length (pos xs i) = sz" "length (pos xs j) = sz" using assms by (simp_all add: pos_def)
  then show ?thesis
    using assms by (simp add: do_swap_def elem_at_of_nat swap_loop_all exchange_def unat_of_nat_u32)
qed

lemma larger_ok:
  assumes "1 \<le> c" "1 \<le> mx" "mx \<le> length xs" "n \<le> length xs" "n < 2 ^ 32" "c < 2 ^ 32" "mx < 2 ^ 32"
  shows "larger cmp xs (of_nat c) (of_nat mx) (of_nat n) =
    Some (of_nat (if c \<le> n \<and> cmp (pos xs c) (pos xs mx) > 0 then c else mx))"
  using assms by (auto simp: larger_def do_compare_def elem_at_of_nat of_nat_le_u32)

text \<open>The position \<^verbatim>\<open>heapify\<close> selects among an element and its children.\<close>

definition largest :: "('a \<Rightarrow> 'a \<Rightarrow> int) \<Rightarrow> 'a list \<Rightarrow> nat \<Rightarrow> nat \<Rightarrow> nat" where
  "largest cmp xs i n =
    (let a = (if 2 * i \<le> n \<and> cmp (pos xs (2 * i)) (pos xs i) > 0 then 2 * i else i)
     in if 2 * i + 1 \<le> n \<and> cmp (pos xs (2 * i + 1)) (pos xs a) > 0 then 2 * i + 1 else a)"

lemma largest_max:
  assumes sl: "strcmp_like cmp"
  shows "largest cmp xs i n \<in> {i, 2 * i, 2 * i + 1}" "i \<le> n \<Longrightarrow> largest cmp xs i n \<le> n"
    and "cmp (pos xs i) (pos xs (largest cmp xs i n)) \<le> 0"
    and "j div 2 = i \<Longrightarrow> j \<le> n \<Longrightarrow> cmp (pos xs j) (pos xs (largest cmp xs i n)) \<le> 0"
proof -
  note le = strcmp_likeD [OF sl]
  define a where "a = (if 2 * i \<le> n \<and> cmp (pos xs (2 * i)) (pos xs i) > 0 then 2 * i else i)"
  define l where "l = largest cmp xs i n"
  have l: "l = (if 2 * i + 1 \<le> n \<and> cmp (pos xs (2 * i + 1)) (pos xs a) > 0 then 2 * i + 1 else a)"
    by (simp add: l_def a_def largest_def Let_def)
  show "largest cmp xs i n \<in> {i, 2 * i, 2 * i + 1}" "i \<le> n \<Longrightarrow> largest cmp xs i n \<le> n"
    unfolding l_def [symmetric] l a_def by auto
  have ai: "cmp (pos xs i) (pos xs a) \<le> 0" and ac: "2 * i \<le> n \<Longrightarrow> cmp (pos xs (2 * i)) (pos xs a) \<le> 0"
    using le(1,2,4) by (auto simp: a_def)
  have la: "cmp (pos xs a) (pos xs l) \<le> 0" using le(1,4) by (auto simp: l)
  have lr: "2 * i + 1 \<le> n \<Longrightarrow> cmp (pos xs (2 * i + 1)) (pos xs l) \<le> 0" using le(2,4) by (auto simp: l)
  show "cmp (pos xs i) (pos xs (largest cmp xs i n)) \<le> 0"
    using le(3) [OF ai la] by (simp add: l_def)
  assume j: "j div 2 = i" "j \<le> n"
  then have "j = 2 * i \<or> j = 2 * i + 1" by presburger
  then show "cmp (pos xs j) (pos xs (largest cmp xs i n)) \<le> 0"
    using j le(3) [OF ac la] lr by (auto simp: l_def)
qed


lemma drop_exchange: "1 \<le> i \<Longrightarrow> i \<le> n \<Longrightarrow> 1 \<le> j \<Longrightarrow> j \<le> n \<Longrightarrow> drop n (exchange xs i j) = drop n xs"
  by (simp add: exchange_def)

lemma heapify_unfold:
  assumes i: "1 \<le> i" "i \<le> n" "n \<le> length xs" "n < 2 ^ 31" and sz: "\<forall>x \<in> set xs. length x = sz"
  shows "heapify cmp sz xs (of_nat i) (of_nat n) =
    (if largest cmp xs i n = i then Some xs
     else heapify cmp sz (exchange xs i (largest cmp xs i n)) (of_nat (largest cmp xs i n)) (of_nat n))"
proof -
  define a where "a = (if 2 * i \<le> n \<and> cmp (pos xs (2 * i)) (pos xs i) > 0 then 2 * i else i)"
  have a: "1 \<le> a" "a \<le> n" "a < 2 ^ 32" using i by (auto simp: a_def)
  have l: "largest cmp xs i n = (if 2 * i + 1 \<le> n \<and> cmp (pos xs (2 * i + 1)) (pos xs a) > 0 then 2 * i + 1 else a)"
    by (simp add: a_def largest_def Let_def)
  then have ln: "1 \<le> largest cmp xs i n" "largest cmp xs i n \<le> n" using a i by auto
  have w: "2 * (of_nat i :: u32) = of_nat (2 * i)" "of_nat (2 * i) + 1 = (of_nat (2 * i + 1) :: u32)" by simp_all
  have 1: "larger cmp xs (of_nat (2 * i)) (of_nat i) (of_nat n) = Some (of_nat a)"
    using i unfolding a_def by (intro larger_ok) auto
  have 2: "larger cmp xs (of_nat (2 * i + 1)) (of_nat a) (of_nat n) = Some (of_nat (largest cmp xs i n))"
    using i a unfolding l by (intro larger_ok) auto
  have eq: "(of_nat (largest cmp xs i n) :: u32) = of_nat i \<longleftrightarrow> largest cmp xs i n = i"
    using ln i by (intro of_nat_eq_u32) auto
  have 3: "do_swap xs (of_nat i) (of_nat (largest cmp xs i n)) sz = Some (exchange xs i (largest cmp xs i n))"
    using i ln sz by (intro do_swap_ok) auto
  show ?thesis
    by (subst heapify.simps) (simp only: Let_def w 1 2 3 eq bind.bind_lunit)
qed

lemma heapify_ok:
  assumes sl: "strcmp_like cmp" and m: "1 \<le> m" "n < 2 ^ 31"
    and "m \<le> i" "i \<le> n" "n \<le> length xs" "\<forall>x \<in> set xs. length x = sz" "heap_except cmp m n i xs"
  shows "\<exists>ys. heapify cmp sz xs (of_nat i) (of_nat n) = Some ys \<and> heap_from cmp m n ys \<and>
    mset ys = mset xs \<and> drop n ys = drop n xs"
  using assms(4-8)
proof (induction "n - i" arbitrary: i xs rule: less_induct)
  case less
  let ?l = "largest cmp xs i n"
  note lm = largest_max [OF sl, where xs = xs and i = i and n = n]
  have i: "1 \<le> i" using less.prems m by simp
  note unf = heapify_unfold [OF i less.prems(2,3) m(2) less.prems(4), of cmp]
  show ?case
  proof (cases "?l = i")
    case True
    have "heap_from cmp m n xs"
      by (rule heap_except_done [OF less.prems(5)]) (use lm(4) True in auto)
    with True unf show ?thesis by simp
  next
    case False
    then have l: "?l div 2 = i" "?l \<le> n" "i < ?l" "1 \<le> ?l" using lm(1,2) less.prems(2) i by auto
    let ?xs = "exchange xs i ?l"
    have ex: "heap_except cmp m n ?l ?xs"
      by (rule heap_except_down [OF less.prems(5) m(1) less.prems(1,3) l(1,2) lm(3)]) (use lm(4) in auto)
    have ms: "mset ?xs = mset xs" using l i less.prems by (intro mset_exchange) auto
    then have "set ?xs = set xs" by (metis set_mset_mset)
    moreover have "n - ?l < n - i" using l by linarith
    ultimately obtain ys where "heapify cmp sz ?xs (of_nat ?l) (of_nat n) = Some ys" "heap_from cmp m n ys"
      "mset ys = mset ?xs" "drop n ys = drop n ?xs"
      using less.hyps [of ?l ?xs] l less.prems ex by auto
    moreover have "drop n ?xs = drop n xs" using l i less.prems by (intro drop_exchange) auto
    ultimately show ?thesis using unf False ms by auto
  qed
qed

lemma build_loop_ok:
  assumes sl: "strcmp_like cmp" and n: "n < 2 ^ 31"
    and "k \<le> n div 2" "n = length xs" "\<forall>x \<in> set xs. length x = sz" "heap_from cmp (Suc k) n xs"
  shows "\<exists>ys. build_loop cmp sz (of_nat n) k xs = Some ys \<and> heap_from cmp 1 n ys \<and> mset ys = mset xs"
  using assms(3-)
proof (induction k arbitrary: xs)
  case (Suc k)
  have ex: "heap_except cmp (Suc k) n (Suc k) xs"
    using Suc.prems(4) unfolding heap_from_def heap_except_def
    by (auto dest!: le_neq_implies_less)
  have le: "Suc k \<le> n" using Suc.prems(1) by (rule order_trans) simp
  obtain ys where ys: "heapify cmp sz xs (of_nat (Suc k)) (of_nat n) = Some ys"
    "heap_from cmp (Suc k) n ys" "mset ys = mset xs"
    using heapify_ok [OF sl _ n _ le _ Suc.prems(3) ex] Suc.prems(2) by auto
  moreover have "length ys = length xs" "set ys = set xs" using ys(3) by (metis size_mset, metis set_mset_mset)
  ultimately obtain zs where "build_loop cmp sz (of_nat n) k ys = Some zs" "heap_from cmp 1 n zs" "mset zs = mset ys"
    using Suc.IH [of ys] Suc.prems by auto
  with ys show ?case by (simp del: of_nat_Suc)
qed simp


lemma heap_root:
  assumes sl: "strcmp_like cmp" and h: "heap_from cmp 1 n xs" and "1 \<le> j" "j \<le> n"
  shows "cmp (pos xs j) (pos xs 1) \<le> 0"
  using assms(3,4)
proof (induction j rule: less_induct)
  case (less j)
  show ?case
  proof (cases "j = 1")
    case False
    then have j: "1 \<le> j div 2" "j div 2 < j" "j div 2 \<le> n" using less.prems by auto
    then have "cmp (pos xs (j div 2)) (pos xs 1) \<le> 0" using less.IH by simp
    moreover have "cmp (pos xs j) (pos xs (j div 2)) \<le> 0" using h j less.prems by (simp add: heap_from_def)
    ultimately show ?thesis using strcmp_likeD(3) [OF sl] by blast
  qed (use strcmp_likeD(4) [OF sl] in simp)
qed

lemma set_take_pos: "y \<in> set (take n xs) \<longleftrightarrow> (\<exists>j. 1 \<le> j \<and> j \<le> n \<and> j \<le> length xs \<and> y = pos xs j)"
proof
  assume "y \<in> set (take n xs)"
  then obtain k where "k < n" "k < length xs" "y = xs ! k" by (auto simp: in_set_conv_nth)
  then show "\<exists>j. 1 \<le> j \<and> j \<le> n \<and> j \<le> length xs \<and> y = pos xs j"
    by (intro exI [of _ "Suc k"]) (simp add: pos_def)
next
  assume "\<exists>j. 1 \<le> j \<and> j \<le> n \<and> j \<le> length xs \<and> y = pos xs j"
  then obtain j where "1 \<le> j" "j \<le> n" "j \<le> length xs" "y = pos xs j" by blast
  then show "y \<in> set (take n xs)" by (auto simp: pos_def in_set_conv_nth intro!: exI [of _ "j - 1"])
qed

lemma set_take_mset_drop:
  assumes "mset ys = mset xs" and "drop n ys = drop n xs"
  shows "set (take n ys) = set (take n xs)"
proof -
  have "mset (take n ys) + mset (drop n ys) = mset (take n xs) + mset (drop n xs)"
    using assms(1) by (simp flip: mset_append)
  then have "mset (take n ys) = mset (take n xs)" using assms(2) by simp
  then show ?thesis by (metis set_mset_mset)
qed

definition sorting :: "(element \<Rightarrow> element \<Rightarrow> int) \<Rightarrow> nat \<Rightarrow> element list \<Rightarrow> bool" where
  "sorting cmp n xs \<longleftrightarrow> heap_from cmp 1 n xs \<and> n \<le> length xs \<and> sorted_wrt (\<lambda>a b. cmp a b \<le> 0) (drop n xs) \<and>
     (\<forall>a \<in> set (take n xs). \<forall>b \<in> set (drop n xs). cmp a b \<le> 0)"

lemma sort_step:
  assumes sl: "strcmp_like cmp" and n: "0 < n" "Suc n < 2 ^ 31" and sz: "\<forall>x \<in> set xs. length x = sz"
    and s: "sorting cmp (Suc n) xs"
  shows "\<exists>ys zs. do_swap xs 1 (of_nat (Suc n)) sz = Some ys \<and> heapify cmp sz ys 1 (of_nat n) = Some zs \<and>
    sorting cmp n zs \<and> mset zs = mset xs"
proof -
  have len: "Suc n \<le> length xs" and h: "heap_from cmp 1 (Suc n) xs" using s by (simp_all add: sorting_def)
  let ?ys = "exchange xs (Suc 0) (Suc n)"
  have sw: "do_swap xs (of_nat (Suc 0)) (of_nat (Suc n)) sz = Some ?ys"
    using len n sz by (intro do_swap_ok) auto
  have at: "pos ?ys k = (if k = Suc n then pos xs (Suc 0) else if k = Suc 0 then pos xs (Suc n) else pos xs k)"
    if "Suc 0 \<le> k" for k
    using len that by (intro pos_exchange) auto
  have ms: "mset ?ys = mset xs" using len by (intro mset_exchange) auto
  have "heap_except cmp 1 n 1 ?ys"
    unfolding heap_except_def
  proof (intro conjI allI impI)
    fix j assume j: "1 \<le> j div 2" "j \<le> n" "j div 2 \<noteq> 1"
    then have "1 \<le> j" "j \<noteq> 1" "j \<noteq> Suc n" "j div 2 \<noteq> Suc n" by auto
    then show "cmp (pos ?ys j) (pos ?ys (j div 2)) \<le> 0"
      using h j at [of j] at [of "j div 2"] by (simp add: heap_from_def)
  qed auto
  moreover have "\<forall>x \<in> set ?ys. length x = sz" using sz ms by (metis set_mset_mset)
  ultimately obtain zs where zs: "heapify cmp sz ?ys (of_nat 1) (of_nat n) = Some zs" "heap_from cmp 1 n zs"
    "mset zs = mset ?ys" "drop n zs = drop n ?ys"
    using heapify_ok [OF sl, of 1 n 1 ?ys sz] n len by auto
  have "drop n ?ys = pos ?ys (Suc n) # drop (Suc n) ?ys"
    using len by (simp add: pos_def Cons_nth_drop_Suc)
  then have d: "drop n zs = pos xs 1 # drop (Suc n) xs"
    using zs(4) drop_exchange [of 1 "Suc n" "Suc n" xs] by (simp add: at)
  have sub: "set (take n zs) \<subseteq> set (take (Suc n) xs)"
  proof
    fix y assume "y \<in> set (take n zs)"
    then have "y \<in> set (take n ?ys)" using set_take_mset_drop [OF zs(3,4)] by simp
    then obtain j where "1 \<le> j" "j \<le> n" "y = pos ?ys j" by (auto simp: set_take_pos)
    then show "y \<in> set (take (Suc n) xs)"
      using len unfolding set_take_pos by (intro exI [of _ "if j = Suc 0 then Suc n else j"]) (auto simp: at)
  qed
  have "pos xs 1 \<in> set (take (Suc n) xs)" using len unfolding set_take_pos by (intro exI [of _ 1]) simp
  moreover have "cmp a (pos xs 1) \<le> 0" if "a \<in> set (take (Suc n) xs)" for a
    using that heap_root [OF sl h] by (auto simp: set_take_pos)
  moreover have "length zs = length xs" using zs(3) ms by (metis size_mset)
  ultimately have "sorting cmp n zs"
    using s zs(2) sub len unfolding sorting_def d by auto
  with sw zs ms show ?thesis by (intro exI [of _ ?ys] exI [of _ zs]) simp
qed

lemma heap_loop_ok:
  assumes sl: "strcmp_like cmp" and "n < 2 ^ 31" "\<forall>x \<in> set xs. length x = sz" "sorting cmp n xs"
  shows "\<exists>ys. heap_loop cmp sz n xs = Some ys \<and> mset ys = mset xs \<and> sorted_wrt (\<lambda>a b. cmp a b \<le> 0) ys"
  using assms(2-)
proof (induction n arbitrary: xs)
  case 0
  then show ?case by (simp add: sorting_def)
next
  case (Suc n)
  show ?case
  proof (cases "n = 0")
    case True
    have "xs = take 1 xs @ drop 1 xs" by simp
    moreover have "sorted_wrt (\<lambda>a b. cmp a b \<le> 0) (take 1 xs @ drop 1 xs)"
      using Suc.prems(3) True by (cases xs) (auto simp: sorting_def sorted_wrt_append)
    ultimately show ?thesis using True by simp
  next
    case False
    then obtain ys zs where yz: "do_swap xs 1 (of_nat (Suc n)) sz = Some ys" "heapify cmp sz ys 1 (of_nat n) = Some zs"
      "sorting cmp n zs" "mset zs = mset xs"
      using sort_step [OF sl _ Suc.prems] by auto
    moreover have "\<forall>x \<in> set zs. length x = sz" using Suc.prems(2) yz(4) by (metis set_mset_mset)
    ultimately show ?thesis using Suc.IH [of zs] Suc.prems(1) False by (simp del: of_nat_Suc)
  qed
qed

text \<open>C25. Heap sort is correct: for elements of \<^verbatim>\<open>size\<close> bytes and a comparison function that is a total
  preorder, \<^verbatim>\<open>sort\<close> returns, with an array that is a permutation of the given one and sorted.\<close>

theorem heap_sort_sorts:
  assumes "strcmp_like compare" and "0 < sz" and "\<forall>x \<in> set array. length x = sz" and "length array < 2 ^ 31"
  shows "\<exists>ys. sort_c compare array (of_nat (length array)) sz = Some ys \<and> mset ys = mset array \<and>
    sorted_wrt (\<lambda>a b. compare a b \<le> 0) ys"
proof -
  let ?n = "length array"
  have u: "unat (of_nat ?n :: u32) = ?n" using assms(4) by (simp add: unat_of_nat_u32)
  have "heap_from compare (Suc (?n div 2)) ?n array" by (auto simp: heap_from_def)
  then obtain ys where ys: "build_loop compare sz (of_nat ?n) (?n div 2) array = Some ys"
    "heap_from compare 1 ?n ys" "mset ys = mset array"
    using build_loop_ok [OF assms(1,4), of "?n div 2" array sz] assms(3) by auto
  moreover have len: "length ys = ?n" "\<forall>x \<in> set ys. length x = sz"
    using ys(3) assms(3) by (metis size_mset, metis set_mset_mset)
  ultimately have "sorting compare ?n ys" by (simp add: sorting_def)
  then obtain zs where "heap_loop compare sz ?n ys = Some zs" "mset zs = mset ys"
    "sorted_wrt (\<lambda>a b. compare a b \<le> 0) zs"
    using heap_loop_ok [OF assms(1,4) len(2)] by auto
  with ys(1,3) assms(2) u show ?thesis by (simp add: sort_c_def unat_div)
qed

theorem heap_sort_sorts_witness:
  "\<exists>ys. sort_c lex_cmp [[3, 1], [1, 2], [2, 0]] 3 2 = Some ys \<and> sorted_wrt (\<lambda>a b. lex_cmp a b \<le> 0) ys \<and>
     mset ys = mset [[3, 1], [1, 2], [2, 0]]"
proof -
  have lt: "lex_cmp a b > 0 \<longleftrightarrow> lex_cmp b a < 0" for a b
    by (induction a b rule: lex_cmp.induct) auto
  have "lex_cmp a b \<le> 0 \<Longrightarrow> lex_cmp b c \<le> 0 \<Longrightarrow> lex_cmp a c \<le> 0" for a b c
  proof (induction a b arbitrary: c rule: lex_cmp.induct)
    case (4 x xs y ys)
    then show ?case by (cases c) (auto split: if_splits)
  qed (auto, metis lex_cmp.simps(1,2) list.exhaust order_refl neg_le_0_iff_le zero_le_one)
  with lt have "strcmp_like lex_cmp" unfolding strcmp_like_def by blast
  from heap_sort_sorts [OF this, of 2 "[[3, 1], [1, 2], [2, 0]]"] show ?thesis by auto
qed


subsection \<open>Binary search\<close>

text \<open>\<open>compare\<close> is the comparison of the key with the element at an address.\<close>

partial_function (option) search_loop :: "(ptr \<Rightarrow> int) \<Rightarrow> size_t \<Rightarrow> ptr \<Rightarrow> ptr \<Rightarrow> ptr option" where
  "search_loop compare sz first fin =
     (if first < fin
      then do {
        kassert (sz \<noteq> 0);
        let range = (fin - first) div sz;
        let middle = first + (range div 2) * sz;
        let c = compare middle;
        if c < 0 then search_loop compare sz first middle
        else if c > 0 then search_loop compare sz (middle + sz) fin
        else Some middle
      }
      else Some 0)"

definition binary_search :: "(ptr \<Rightarrow> int) \<Rightarrow> ptr \<Rightarrow> size_t \<Rightarrow> size_t \<Rightarrow> ptr option" where
  "binary_search compare array cnt sz = search_loop compare sz array (array + sz * cnt)"

definition bsearch :: "(ptr \<Rightarrow> int) \<Rightarrow> ptr \<Rightarrow> size_t \<Rightarrow> size_t \<Rightarrow> ptr option" where
  "bsearch compare array cnt sz = binary_search compare array cnt sz"

definition elem_addr :: "ptr \<Rightarrow> nat \<Rightarrow> nat \<Rightarrow> ptr" where
  "elem_addr array sz k = array + of_nat (k * sz)"

lemma elem_addr_unat:
  assumes "unat array + n * sz < 2 ^ 32" and "k \<le> n"
  shows "unat (elem_addr array sz k) = unat array + k * sz"
proof -
  have "k * sz \<le> n * sz" using assms(2) by (rule mult_le_mono1)
  then have b: "unat array + k * sz < 2 ^ 32" using assms(1) by (meson add_le_mono le_less_trans order_refl)
  then have "unat (of_nat (k * sz) :: u32) = k * sz" by (intro unat_of_nat_u32) simp
  then show ?thesis using b by (simp only: elem_addr_def unat_add_u32)
qed

lemma search_middle:
  assumes b: "unat array + n * sz < 2 ^ 32" and sz: "0 < sz" "sz < 2 ^ 32" and lh: "lo \<le> hi" "hi \<le> n"
  shows "elem_addr array sz lo + ((elem_addr array sz hi - elem_addr array sz lo) div of_nat sz div 2) * of_nat sz =
      elem_addr array sz (lo + (hi - lo) div 2)"
proof -
  let ?lo = "elem_addr array sz lo" and ?hi = "elem_addr array sz hi"
  have u: "unat ?lo = unat array + lo * sz" "unat ?hi = unat array + hi * sz"
    using elem_addr_unat [OF b] lh by auto
  have le: "lo * sz \<le> hi * sz" using lh(1) by (rule mult_le_mono1)
  then have "unat (?hi - ?lo) = hi * sz - lo * sz"
    using u by (simp add: unat_sub_u32 word_le_nat_alt)
  then have d: "unat (?hi - ?lo) = (hi - lo) * sz" by (simp add: diff_mult_distrib)
  have "unat ((?hi - ?lo) div of_nat sz div 2) = (hi - lo) div 2"
    using sz d by (simp add: unat_div unat_of_nat_u32)
  then have "(?hi - ?lo) div of_nat sz div 2 = of_nat ((hi - lo) div 2)" by (metis of_nat_unat ucast_id)
  then show ?thesis by (simp add: elem_addr_def algebra_simps)
qed

lemma search_loop_ok:
  assumes b: "unat array + n * sz < 2 ^ 32" and sz: "0 < sz" "sz < 2 ^ 32"
    and sorted: "\<And>i j. i < j \<Longrightarrow> j < n \<Longrightarrow> sgn (compare (elem_addr array sz j)) \<le> sgn (compare (elem_addr array sz i))"
    and "lo \<le> hi" "hi \<le> n"
    and "\<And>k. k < n \<Longrightarrow> compare (elem_addr array sz k) = 0 \<Longrightarrow> lo \<le> k \<and> k < hi"
  shows "\<exists>r. search_loop compare (of_nat sz) (elem_addr array sz lo) (elem_addr array sz hi) = Some r \<and>
     (if \<exists>k < n. compare (elem_addr array sz k) = 0
      then \<exists>k < n. r = elem_addr array sz k \<and> compare r = 0 else r = 0)"
  using assms(5-7)
proof (induction "hi - lo" arbitrary: lo hi rule: less_induct)
  case less
  let ?lo = "elem_addr array sz lo" and ?hi = "elem_addr array sz hi"
  have u: "unat ?lo = unat array + lo * sz" "unat ?hi = unat array + hi * sz"
    using elem_addr_unat [OF b] less.prems by auto
  show ?case
  proof (cases "lo < hi")
    case False
    then have "\<not> (\<exists>k < n. compare (elem_addr array sz k) = 0)" using less.prems(3) by force
    moreover have "search_loop compare (of_nat sz) ?lo ?hi = Some 0"
      using False less.prems(1) by (subst search_loop.simps) simp
    ultimately show ?thesis by auto
  next
    case True
    define mid where "mid = lo + (hi - lo) div 2"
    have m: "lo \<le> mid" "mid < hi" "mid < n" "hi - Suc mid < hi - lo" "mid - lo < hi - lo"
      using True less.prems(2) by (auto simp: mid_def)
    have "lo * sz < hi * sz" using True sz by simp
    then have lt: "?lo < ?hi" using u by (simp add: word_less_nat_alt)
    have nz: "(of_nat sz :: u32) \<noteq> 0" using sz by (metis unat_of_nat_u32 unat_0 less_irrefl)
    have nxt: "elem_addr array sz mid + of_nat sz = elem_addr array sz (Suc mid)"
      by (simp add: elem_addr_def algebra_simps)
    let ?c = "compare (elem_addr array sz mid)"
    have unf: "search_loop compare (of_nat sz) ?lo ?hi =
       (if ?c < 0 then search_loop compare (of_nat sz) ?lo (elem_addr array sz mid)
        else if ?c > 0 then search_loop compare (of_nat sz) (elem_addr array sz (Suc mid)) ?hi
        else Some (elem_addr array sz mid))"
      using lt nz search_middle [OF b sz less.prems(1,2)] nxt
      by (subst search_loop.simps) (simp add: Let_def mid_def [symmetric])
    consider "?c < 0" | "?c > 0" | "?c = 0" by linarith
    then show ?thesis
    proof cases
      case 1
      have "lo \<le> k \<and> k < mid" if k: "k < n" "compare (elem_addr array sz k) = 0" for k
      proof -
        have "\<not> mid \<le> k" using sorted [of mid k] k 1 by (cases "k = mid") auto
        then show ?thesis using less.prems(3) k by auto
      qed
      then show ?thesis using less.hyps [of mid lo] m 1 unf by simp
    next
      case 2
      have "Suc mid \<le> k \<and> k < hi" if k: "k < n" "compare (elem_addr array sz k) = 0" for k
      proof -
        have "\<not> k \<le> mid" using sorted [of k mid] k m 2 by (cases "k = mid") auto
        then show ?thesis using less.prems(3) k by auto
      qed
      then show ?thesis using less.hyps [of hi "Suc mid"] m 2 unf less.prems(2) by simp
    next
      case 3
      then show ?thesis using unf m by auto
    qed
  qed
qed

text \<open>C27. Binary search is correct: on an array sorted according to the comparison it returns the
  address of an element equal to the key if there is one, and the null pointer otherwise.\<close>

theorem binary_search_finds:
  assumes "unat array + n * sz < 2 ^ 32" and "0 < sz" and "sz < 2 ^ 32" and "n < 2 ^ 32"
    and "\<And>i j. i < j \<Longrightarrow> j < n \<Longrightarrow>
      sgn (compare (elem_addr array sz j)) \<le> sgn (compare (elem_addr array sz i))"
  shows "\<exists>r. binary_search compare array (of_nat n) (of_nat sz) = Some r \<and>
     (if \<exists>k < n. compare (elem_addr array sz k) = 0
      then \<exists>k < n. r = elem_addr array sz k \<and> compare r = 0 else r = 0)"
proof -
  have "array = elem_addr array sz 0" "array + of_nat sz * of_nat n = elem_addr array sz n"
    by (simp_all add: elem_addr_def mult.commute)
  then show ?thesis
    using search_loop_ok [of array n sz compare 0 n, OF assms(1-3,5)] by (simp add: binary_search_def)
qed

theorem binary_search_finds_witness:
  "\<exists>r. binary_search (\<lambda>p. 108 - sint p) 100 5 4 = Some r \<and> 108 - sint r = 0"
proof -
  have eq: "108 - sint (elem_addr 100 4 j) = 8 - 4 * int j" if "j < 5" for j
  proof -
    have "j \<in> {0, 1, 2, 3, 4}" using that by auto
    then show ?thesis by (auto simp: elem_addr_def)
  qed
  have "sgn (108 - sint (elem_addr 100 4 j)) \<le> sgn (108 - sint (elem_addr 100 4 i))" if "i < j" "j < 5" for i j
    using that by (simp add: eq sgn_if)
  from binary_search_finds [of 100 5 4 "\<lambda>p. 108 - sint p", OF _ _ _ _ this]
  obtain r where r: "binary_search (\<lambda>p. 108 - sint p) 100 5 4 = Some r"
    "if \<exists>k<5. 108 - sint (elem_addr 100 4 k) = 0
     then \<exists>k<5. r = elem_addr 100 4 k \<and> 108 - sint r = 0 else r = 0" by auto
  have "\<exists>k<5. 108 - sint (elem_addr 100 4 k) = 0" by (intro exI [of _ 2]) (simp add: eq)
  with r show ?thesis by (simp only: if_True) blast
qed


text \<open>\<^verbatim>\<open>atoi\<close> reads decimal numbers: after white space, an optional sign and at least one digit it
  returns the signed value of the digits, modulo \<open>2 ^ 32\<close>, so exactly the number whenever it fits an
  \<^verbatim>\<open>int\<close>; what follows the digits is ignored.\<close>

theorem atoi_decimal:
  assumes "bytes_at m p (ws @ sg @ ds @ [e])" and "p \<noteq> 0"
    and "list_all (\<lambda>b. isspace (uint b)) ws" and "sg \<in> {[], [43], [45]}"
    and "list_all digit ds" "ds \<noteq> []" "\<not> digit e"
  shows "\<exists>v. atoi m p = Some v \<and> v = of_int (if sg = [45] then - decimal 0 ds else decimal 0 ds) \<and>
    (decimal 0 ds < 2 ^ 31 \<longrightarrow> sint v = (if sg = [45] then - decimal 0 ds else decimal 0 ds))"
proof -
  have nn: "0 \<le> a \<Longrightarrow> list_all digit ds \<Longrightarrow> 0 \<le> decimal a ds" for a
    by (induction ds arbitrary: a) (simp_all add: digit_def word_le_def)
  have "sint (of_int z :: u32) = z" if "- (2 ^ 31) \<le> z" "z < 2 ^ 31" for z
    using that by (simp add: signed_of_int signed_take_bit_int_eq_self)
  moreover have "0 \<le> decimal 0 ds" using nn assms(5) by simp
  ultimately have "decimal 0 ds < 2 ^ 31 \<longrightarrow>
      sint (of_int (if sg = [45] then - decimal 0 ds else decimal 0 ds) :: u32) =
      (if sg = [45] then - decimal 0 ds else decimal 0 ds)" by auto
  with atoi_ok [OF assms] show ?thesis by blast
qed

theorem atoi_decimal_witness:
  "\<exists>v. atoi (\<lambda>a. if a = 8 then Some 32 else if a = 9 then Some 45 else if a = 10 then Some 52
     else if a = 11 then Some 50 else Some 0) 8 = Some v \<and> sint v = - 42"
  using atoi_decimal [of "\<lambda>a. if a = 8 then Some 32 else if a = 9 then Some 45 else if a = 10 then Some 52
     else if a = 11 then Some 50 else Some 0" 8 "[32]" "[45]" "[52, 50]" 0]
  by (simp add: isspace_def digit_def)


end
