(* ===== verification/Hash.thy ===== *)
theory Hash
  imports Cmem "HOL-Library.Multiset"
begin

section \<open>Hash tables (lib/kernel/hash.c)\<close>

text \<open>
  A hash table is an array of buckets; a bucket is the sequence of the elements in its list, an element
  being the address of its \<^verbatim>\<open>struct hash_elem\<close>. The table has a hash function and a comparison function
  as the C structure has. Whether an allocation succeeds is a parameter of the operations that
  allocate. The theory shows that the table represents a set without two equal elements, keeps the
  size of its buckets near the ideal, and that iteration visits every element once.
\<close>

record hash =
  elem_cnt :: size_t
  bucket_cnt :: size_t
  buckets :: "ptr list list"
  hash_func :: "ptr \<Rightarrow> u32"
  less_func :: "ptr \<Rightarrow> ptr \<Rightarrow> bool"

record hash_iterator =
  it_hash :: hash
  it_bucket :: nat
  it_elem :: "ptr option"

subsection \<open>Life cycle\<close>

text \<open>\<open>hash_clear\<close> with a destructor pops the elements of each bucket from the front and passes them on;
  a destructor changes a state \<open>'s\<close> of the caller.\<close>

primrec clear_bucket :: "(ptr \<Rightarrow> 's \<Rightarrow> 's) \<Rightarrow> ptr list \<Rightarrow> 's \<Rightarrow> 's" where
  "clear_bucket destructor [] s = s"
| "clear_bucket destructor (e # es) s = clear_bucket destructor es (destructor e s)"

primrec clear_loop :: "(ptr \<Rightarrow> 's \<Rightarrow> 's) option \<Rightarrow> ptr list list \<Rightarrow> 's \<Rightarrow> ptr list list \<times> 's" where
  "clear_loop destructor [] s = ([], s)"
| "clear_loop destructor (b # bs) s =
    (let s = (case destructor of None \<Rightarrow> s | Some d \<Rightarrow> clear_bucket d b s);
         (bs, s) = clear_loop destructor bs s
     in ([] # bs, s))"

definition hash_clear :: "hash \<Rightarrow> (ptr \<Rightarrow> 's \<Rightarrow> 's) option \<Rightarrow> 's \<Rightarrow> hash \<times> 's" where
  "hash_clear h destructor s =
    (let (bs, s) = clear_loop destructor (buckets h) s in (h\<lparr>buckets := bs, elem_cnt := 0\<rparr>, s))"

text \<open>The new array of lists is not initialized; \<open>hash_clear\<close> makes every list empty.\<close>

definition hash_init :: "(u32 \<Rightarrow> bool) \<Rightarrow> (ptr \<Rightarrow> u32) \<Rightarrow> (ptr \<Rightarrow> ptr \<Rightarrow> bool) \<Rightarrow> ptr list list \<Rightarrow> hash option" where
  "hash_init alloc hf lf garbage =
    (if alloc (16 * 4)
     then Some (fst (hash_clear \<lparr>elem_cnt = 0, bucket_cnt = 4, buckets = take 4 (garbage @ replicate 4 []),
            hash_func = hf, less_func = lf\<rparr> None ()))
     else None)"

definition hash_destroy :: "hash \<Rightarrow> (ptr \<Rightarrow> 's \<Rightarrow> 's) option \<Rightarrow> 's \<Rightarrow> 's" where
  "hash_destroy h destructor s =
    (case destructor of None \<Rightarrow> s | Some d \<Rightarrow> snd (hash_clear h (Some d) s))"

subsection \<open>Buckets\<close>

definition find_bucket :: "hash \<Rightarrow> ptr \<Rightarrow> nat option" where
  "find_bucket h e = do {
     let bucket_idx = hash_func h e AND (bucket_cnt h - 1);
     kassert (unat bucket_idx < length (buckets h));
     Some (unat bucket_idx)
   }"

primrec find_loop :: "(ptr \<Rightarrow> ptr \<Rightarrow> bool) \<Rightarrow> ptr \<Rightarrow> ptr list \<Rightarrow> ptr option" where
  "find_loop lf e [] = None"
| "find_loop lf e (hi # es) = (if \<not> lf hi e \<and> \<not> lf e hi then Some hi else find_loop lf e es)"

definition find_elem :: "hash \<Rightarrow> nat \<Rightarrow> ptr \<Rightarrow> ptr option" where
  "find_elem h bucket e = find_loop (less_func h) e (buckets h ! bucket)"

definition insert_elem :: "hash \<Rightarrow> nat \<Rightarrow> ptr \<Rightarrow> hash" where
  "insert_elem h bucket e =
    h\<lparr>elem_cnt := elem_cnt h + 1, buckets := (buckets h)[bucket := e # buckets h ! bucket]\<rparr>"

text \<open>\<^verbatim>\<open>list_remove\<close> takes the element out of the list it is in.\<close>

definition remove_elem :: "hash \<Rightarrow> ptr \<Rightarrow> hash" where
  "remove_elem h e = h\<lparr>elem_cnt := elem_cnt h - 1, buckets := map (remove1 e) (buckets h)\<rparr>"

definition turn_off_least_1bit :: "size_t \<Rightarrow> size_t" where
  "turn_off_least_1bit x = x AND (x - 1)"

definition is_power_of_2 :: "size_t \<Rightarrow> bool" where
  "is_power_of_2 x \<longleftrightarrow> x \<noteq> 0 \<and> turn_off_least_1bit x = 0"

partial_function (option) power_loop :: "size_t \<Rightarrow> size_t option" where
  "power_loop n = (if \<not> is_power_of_2 n then power_loop (turn_off_least_1bit n) else Some n)"

primrec move_bucket :: "hash \<Rightarrow> ptr list \<Rightarrow> hash option" where
  "move_bucket h [] = Some h"
| "move_bucket h (e # es) = do {
     b \<leftarrow> find_bucket h e;
     move_bucket (h\<lparr>buckets := (buckets h)[b := e # buckets h ! b]\<rparr>) es
   }"

primrec move_loop :: "hash \<Rightarrow> ptr list list \<Rightarrow> hash option" where
  "move_loop h [] = Some h"
| "move_loop h (b # bs) = do { h \<leftarrow> move_bucket h b; move_loop h bs }"

definition rehash :: "(u32 \<Rightarrow> bool) \<Rightarrow> hash \<Rightarrow> hash option" where
  "rehash alloc h = do {
     let old_buckets = buckets h;
     let old_bucket_cnt = bucket_cnt h;
     let new_bucket_cnt = elem_cnt h div 2;
     let new_bucket_cnt = (if new_bucket_cnt < 4 then 4 else new_bucket_cnt);
     new_bucket_cnt \<leftarrow> power_loop new_bucket_cnt;
     if new_bucket_cnt = old_bucket_cnt then Some h
     else if \<not> alloc (16 * new_bucket_cnt) then Some h
     else move_loop (h\<lparr>buckets := replicate (unat new_bucket_cnt) [], bucket_cnt := new_bucket_cnt\<rparr>) old_buckets
   }"

subsection \<open>Search, insertion, deletion\<close>

definition hash_insert :: "(u32 \<Rightarrow> bool) \<Rightarrow> hash \<Rightarrow> ptr \<Rightarrow> (ptr option \<times> hash) option" where
  "hash_insert alloc h new = do {
     bucket \<leftarrow> find_bucket h new;
     let old = find_elem h bucket new;
     let h = (if old = None then insert_elem h bucket new else h);
     h \<leftarrow> rehash alloc h;
     Some (old, h)
   }"

definition hash_replace :: "(u32 \<Rightarrow> bool) \<Rightarrow> hash \<Rightarrow> ptr \<Rightarrow> (ptr option \<times> hash) option" where
  "hash_replace alloc h new = do {
     bucket \<leftarrow> find_bucket h new;
     let old = find_elem h bucket new;
     let h = (case old of None \<Rightarrow> h | Some e \<Rightarrow> remove_elem h e);
     let h = insert_elem h bucket new;
     h \<leftarrow> rehash alloc h;
     Some (old, h)
   }"

definition hash_find :: "hash \<Rightarrow> ptr \<Rightarrow> ptr option option" where
  "hash_find h e = do { bucket \<leftarrow> find_bucket h e; Some (find_elem h bucket e) }"

definition hash_delete :: "(u32 \<Rightarrow> bool) \<Rightarrow> hash \<Rightarrow> ptr \<Rightarrow> (ptr option \<times> hash) option" where
  "hash_delete alloc h e = do {
     bucket \<leftarrow> find_bucket h e;
     case find_elem h bucket e of
       None \<Rightarrow> Some (None, h)
     | Some found \<Rightarrow> do { h \<leftarrow> rehash alloc (remove_elem h found); Some (Some found, h) }
   }"

subsection \<open>Iteration and information\<close>

primrec apply_bucket :: "(ptr \<Rightarrow> 's \<Rightarrow> 's) \<Rightarrow> ptr list \<Rightarrow> 's \<Rightarrow> 's" where
  "apply_bucket action [] s = s"
| "apply_bucket action (e # es) s = apply_bucket action es (action e s)"

primrec apply_loop :: "(ptr \<Rightarrow> 's \<Rightarrow> 's) \<Rightarrow> ptr list list \<Rightarrow> 's \<Rightarrow> 's" where
  "apply_loop action [] s = s"
| "apply_loop action (b # bs) s = apply_loop action bs (apply_bucket action b s)"

definition hash_apply :: "hash \<Rightarrow> (ptr \<Rightarrow> 's \<Rightarrow> 's) \<Rightarrow> 's \<Rightarrow> 's" where
  "hash_apply h action s = apply_loop action (buckets h) s"

text \<open>The iterator's element is \<^term>\<open>None\<close> at the head of a bucket, as after \<open>hash_first\<close>, and at the end of
  the table, where the bucket is past the last one.\<close>

definition hash_first :: "hash \<Rightarrow> hash_iterator" where
  "hash_first h = \<lparr>it_hash = h, it_bucket = 0, it_elem = None\<rparr>"

text \<open>The element after \<open>e\<close> in a bucket; \<^term>\<open>None\<close> is the list's end.\<close>

fun list_after :: "ptr option \<Rightarrow> ptr list \<Rightarrow> ptr option" where
  "list_after None es = (case es of [] \<Rightarrow> None | e # _ \<Rightarrow> Some e)"
| "list_after (Some e) [] = None"
| "list_after (Some e) (x # es) = (if x = e then (case es of [] \<Rightarrow> None | y # _ \<Rightarrow> Some y) else list_after (Some e) es)"

fun next_bucket :: "nat \<Rightarrow> ptr list list \<Rightarrow> nat \<times> ptr option" where
  "next_bucket b [] = (b, None)"
| "next_bucket b (es # rest) = (case es of [] \<Rightarrow> next_bucket (Suc b) rest | e # _ \<Rightarrow> (b, Some e))"

definition hash_next :: "hash_iterator \<Rightarrow> (ptr option \<times> hash_iterator) option" where
  "hash_next i = do {
     let bs = buckets (it_hash i);
     kassert (it_bucket i < length bs);
     Some (case list_after (it_elem i) (bs ! it_bucket i) of
          Some e \<Rightarrow> (Some e, i\<lparr>it_elem := Some e\<rparr>)
        | None \<Rightarrow> (let (b, e) = next_bucket (Suc (it_bucket i)) (drop (Suc (it_bucket i)) bs)
                  in (e, i\<lparr>it_bucket := b, it_elem := e\<rparr>)))
   }"

definition hash_cur :: "hash_iterator \<Rightarrow> ptr option" where
  "hash_cur i = it_elem i"

definition hash_size :: "hash \<Rightarrow> size_t" where
  "hash_size h = elem_cnt h"

definition hash_empty :: "hash \<Rightarrow> bool" where
  "hash_empty h \<longleftrightarrow> elem_cnt h = 0"

subsection \<open>Sample hash functions\<close>

definition FNV_32_PRIME :: u32 where "FNV_32_PRIME = 16777619"
definition FNV_32_BASIS :: u32 where "FNV_32_BASIS = 2166136261"

primrec hash_bytes_loop :: "nat \<Rightarrow> mem \<Rightarrow> ptr \<Rightarrow> u32 \<Rightarrow> u32 option" where
  "hash_bytes_loop 0 m buf hv = Some hv"
| "hash_bytes_loop (Suc n) m buf hv = do {
     b \<leftarrow> m buf;
     hash_bytes_loop n m (buf + 1) ((hv * FNV_32_PRIME) XOR ucast b)
   }"

definition hash_bytes :: "mem \<Rightarrow> ptr \<Rightarrow> size_t \<Rightarrow> u32 option" where
  "hash_bytes m buf sz = do { kassert (buf \<noteq> 0); hash_bytes_loop (unat sz) m buf FNV_32_BASIS }"

partial_function (option) hash_string_loop :: "mem \<Rightarrow> ptr \<Rightarrow> u32 \<Rightarrow> u32 option" where
  "hash_string_loop m s hv = do {
     b \<leftarrow> m s;
     if b \<noteq> 0 then hash_string_loop m (s + 1) ((hv * FNV_32_PRIME) XOR ucast b) else Some hv
   }"

definition hash_string :: "mem \<Rightarrow> ptr \<Rightarrow> u32 option" where
  "hash_string m s = do { kassert (s \<noteq> 0); hash_string_loop m s FNV_32_BASIS }"

text \<open>The bytes of an integer, least significant first.\<close>

definition hash_int :: "u32 \<Rightarrow> u32" where
  "hash_int i = fold (\<lambda>b hv. (hv * FNV_32_PRIME) XOR ucast b)
     [ucast i :: u8, ucast (drop_bit 8 i), ucast (drop_bit 16 i), ucast (drop_bit 24 i)] FNV_32_BASIS"

subsection \<open>The number of buckets\<close>

lemma bit_top:
  assumes "2 ^ k \<le> unat (x :: u32)" and "unat x < 2 ^ Suc k" and "k < 32"
  shows "bit x k"
proof -
  have "unat x div 2 ^ k = 1" using assms(1,2) by (intro div_nat_eqI) simp_all
  then have "bit (unat x) k" by (simp add: bit_iff_odd)
  then show ?thesis using assms(3) by (simp add: bit_unsigned_iff)
qed

lemma bit_unat_le: "bit (x :: u32) k \<Longrightarrow> 2 ^ k \<le> unat x"
proof -
  assume "bit x k"
  then have "bit (unat x) k" by (simp add: bit_unsigned_iff bit_imp_le_length)
  then have "unat x div 2 ^ k \<noteq> 0" by (metis bit_iff_odd dvd_0_right)
  then show ?thesis by (simp add: div_eq_0_iff not_less)
qed

text \<open>Turning off the lowest bit keeps the highest one unless it is the same.\<close>

lemma turn_off_top:
  assumes x: "2 ^ k \<le> unat x" "unat x < 2 ^ Suc k" "k < 32"
  shows "turn_off_least_1bit x \<noteq> 0 \<longleftrightarrow> unat x \<noteq> 2 ^ k"
    and "turn_off_least_1bit x \<noteq> 0 \<Longrightarrow> 2 ^ k \<le> unat (turn_off_least_1bit x)"
    and "unat (turn_off_least_1bit x) < unat x"
proof -
  have "0 < unat x" using x(1) by (metis less_le_trans zero_less_numeral zero_less_power)
  then have u: "unat (x - 1) = unat x - 1" "x \<noteq> 0" by (auto simp: unat_minus_one unat_gt_0)
  have "unat (x AND (x - 1)) \<le> unat (x - 1)" by (simp add: word_and_le1 flip: word_le_nat_alt)
  then show "unat (turn_off_least_1bit x) < unat x"
    using u \<open>0 < unat x\<close> by (simp add: turn_off_least_1bit_def)
  have keep: "2 ^ k \<le> unat (turn_off_least_1bit x)" if "unat x \<noteq> 2 ^ k"
  proof -
    have "bit (x - 1) k" using that x u by (intro bit_top) auto
    then have "bit (turn_off_least_1bit x) k"
      using bit_top [OF x] by (simp add: turn_off_least_1bit_def bit_and_iff)
    then show ?thesis by (rule bit_unat_le)
  qed
  have gone: "turn_off_least_1bit x = 0" if e: "unat x = 2 ^ k"
  proof (rule bit_eqI)
    fix n
    show "bit (turn_off_least_1bit x) n \<longleftrightarrow> bit 0 n"
    proof (cases "bit x n")
      case True
      then have "bit (unat x) n" by (simp add: bit_unsigned_iff)
      then have "n = k" unfolding e by (simp add: bit_exp_iff)
      moreover have "\<not> bit (x - 1) k" using bit_unat_le [of "x - 1" k] u(1) e \<open>0 < unat x\<close> by linarith
      ultimately show ?thesis by (simp add: turn_off_least_1bit_def bit_and_iff)
    qed (simp add: turn_off_least_1bit_def bit_and_iff)
  qed
  show "turn_off_least_1bit x \<noteq> 0 \<longleftrightarrow> unat x \<noteq> 2 ^ k"
    using keep gone by (metis unat_0 le_zero_eq power_eq_0_iff zero_neq_numeral)
  show "turn_off_least_1bit x \<noteq> 0 \<Longrightarrow> 2 ^ k \<le> unat (turn_off_least_1bit x)"
    using keep gone by blast
qed

text \<open>The loop of \<^verbatim>\<open>rehash\<close> ends, with the largest power of two up to the given number.\<close>

lemma power_loop_ok:
  assumes "2 ^ k \<le> unat x" "unat x < 2 ^ Suc k" "k < 32"
  shows "power_loop x = Some (2 ^ k)"
  using assms(1,2)
proof (induction "unat x" arbitrary: x rule: less_induct)
  case less
  note t = turn_off_top [OF less.prems assms(3)]
  have nz: "x \<noteq> 0" using less.prems(1) by (metis le_zero_eq power_eq_0_iff unat_0 zero_neq_numeral)
  show ?case
  proof (cases "turn_off_least_1bit x = 0")
    case True
    then have "unat x = 2 ^ k" using t(1) by blast
    moreover have "x = of_nat (unat x)" by simp
    ultimately have "x = 2 ^ k" by simp
    moreover have "is_power_of_2 x" using True nz by (simp add: is_power_of_2_def)
    ultimately show ?thesis by (subst power_loop.simps) simp
  next
    case False
    then have "power_loop (turn_off_least_1bit x) = Some (2 ^ k)"
      using less.hyps [OF t(3)] t(2,3) less.prems(2) by simp
    then show ?thesis using False by (subst power_loop.simps) (simp add: is_power_of_2_def)
  qed
qed

lemma power_loop_exists:
  assumes "x \<noteq> 0"
  shows "\<exists>k < 32. power_loop x = Some (2 ^ k) \<and> 2 ^ k \<le> unat x \<and> unat x < 2 ^ Suc k"
proof -
  have pos: "0 < unat x" using assms by (simp add: unat_gt_0)
  obtain k where k: "2 ^ k \<le> unat x" "unat x < 2 ^ (k + 1)"
    using ex_power_ivl1 [of 2 "unat x"] pos by auto
  moreover have "k < 32"
    using le_less_trans [OF k(1) unat_u32_bound] by (simp only: power_strict_increasing_iff)
  ultimately show ?thesis using power_loop_ok [of k x] by auto
qed


subsection \<open>The invariant\<close>

definition elems :: "hash \<Rightarrow> ptr set" where
  "elems h = set (concat (buckets h))"

definition eqv :: "hash \<Rightarrow> ptr \<Rightarrow> ptr \<Rightarrow> bool" where
  "eqv h x y \<longleftrightarrow> \<not> less_func h x y \<and> \<not> less_func h y x"

definition home :: "hash \<Rightarrow> ptr \<Rightarrow> nat" where
  "home h e = unat (hash_func h e AND (bucket_cnt h - 1))"

text \<open>What the table asks of its functions: the comparison gives an equivalence, and equal elements have
  the same hash value.\<close>

definition funcs_ok :: "hash \<Rightarrow> bool" where
  "funcs_ok h \<longleftrightarrow> (\<forall>x. eqv h x x) \<and> (\<forall>x y z. eqv h x y \<longrightarrow> eqv h y z \<longrightarrow> eqv h x z) \<and>
     (\<forall>x y. eqv h x y \<longrightarrow> hash_func h x = hash_func h y)"

definition shape_ok :: "hash \<Rightarrow> bool" where
  "shape_ok h \<longleftrightarrow> bucket_cnt h \<noteq> 0 \<and> length (buckets h) = unat (bucket_cnt h) \<and>
     (\<forall>i < length (buckets h). \<forall>e \<in> set (buckets h ! i). home h e = i)"

definition hash_ok :: "hash \<Rightarrow> bool" where
  "hash_ok h \<longleftrightarrow> shape_ok h \<and> is_power_of_2 (bucket_cnt h) \<and> funcs_ok h \<and>
     distinct (concat (buckets h)) \<and> unat (elem_cnt h) = length (concat (buckets h)) \<and> 0 \<notin> elems h \<and>
     (\<forall>x \<in> elems h. \<forall>y \<in> elems h. eqv h x y \<longrightarrow> x = y)"

lemma eqv_sym: "eqv h x y \<longleftrightarrow> eqv h y x"
  by (auto simp: eqv_def)

lemma find_bucket_ok:
  assumes "shape_ok h"
  shows "find_bucket h e = Some (home h e)" and "home h e < length (buckets h)"
proof -
  have "hash_func h e AND (bucket_cnt h - 1) \<le> bucket_cnt h - 1" by (rule word_and_le1)
  moreover have "unat (bucket_cnt h - 1) < unat (bucket_cnt h)"
    using assms by (auto simp: shape_ok_def unat_minus_one unat_gt_0)
  ultimately show "home h e < length (buckets h)"
    using assms by (auto simp: home_def shape_ok_def word_le_nat_alt)
  then show "find_bucket h e = Some (home h e)" by (simp add: find_bucket_def home_def)
qed

lemma find_loop_ok:
  "case find_loop lf e es of None \<Rightarrow> \<forall>x \<in> set es. lf x e \<or> lf e x
   | Some x \<Rightarrow> x \<in> set es \<and> \<not> lf x e \<and> \<not> lf e x"
  by (induction es) (auto split: option.splits)

lemma elems_iff: "e \<in> elems h \<longleftrightarrow> (\<exists>i < length (buckets h). e \<in> set (buckets h ! i))"
  by (auto simp: elems_def in_set_conv_nth) (metis nth_mem)+

lemma elems_home: "shape_ok h \<Longrightarrow> e \<in> elems h \<longleftrightarrow> e \<in> set (buckets h ! home h e)"
  using find_bucket_ok(2) [of h e] by (auto simp: elems_iff shape_ok_def)

lemma find_elem_ok:
  assumes "shape_ok h" and "funcs_ok h"
  shows "case find_elem h (home h e) e of None \<Rightarrow> \<forall>x \<in> elems h. \<not> eqv h x e
    | Some x \<Rightarrow> x \<in> elems h \<and> eqv h x e"
proof -
  have same: "home h x = home h e" if "eqv h x e" for x
    using assms(2) that by (simp add: funcs_ok_def home_def)
  note fl = find_loop_ok [where lf = "less_func h" and e = e and es = "buckets h ! home h e"]
  show ?thesis
  proof (cases "find_elem h (home h e) e")
    case None
    have "\<not> eqv h x e" if x: "x \<in> elems h" for x
    proof
      assume "eqv h x e"
      moreover have "x \<in> set (buckets h ! home h e)"
        using x same [OF \<open>eqv h x e\<close>] by (simp add: elems_home [OF assms(1)])
      ultimately show False using fl None by (auto simp: find_elem_def eqv_def)
    qed
    with None show ?thesis by simp
  next
    case (Some x)
    then have "x \<in> set (buckets h ! home h e)" "eqv h x e"
      using fl by (auto simp: find_elem_def eqv_def)
    with Some show ?thesis using same by (simp add: elems_home [OF assms(1)])
  qed
qed

lemma funcs_ok_upd [simp]:
  "funcs_ok (h\<lparr>buckets := b\<rparr>) = funcs_ok h" "funcs_ok (h\<lparr>elem_cnt := c\<rparr>) = funcs_ok h"
  "funcs_ok (h\<lparr>bucket_cnt := c\<rparr>) = funcs_ok h"
  "eqv (h\<lparr>buckets := b\<rparr>) = eqv h" "eqv (h\<lparr>elem_cnt := c\<rparr>) = eqv h" "eqv (h\<lparr>bucket_cnt := c\<rparr>) = eqv h"
  "home (h\<lparr>buckets := b\<rparr>) = home h" "home (h\<lparr>elem_cnt := c\<rparr>) = home h"
  by (simp_all add: funcs_ok_def eqv_def home_def fun_eq_iff)

subsection \<open>Moving elements\<close>

lemma mset_concat_update:
  "i < length bs \<Longrightarrow> mset (concat (bs[i := e # bs ! i])) = add_mset e (mset (concat bs))"
  by (induction bs arbitrary: i) (auto split: nat.splits)

lemma shape_push:
  assumes "shape_ok h"
  shows "shape_ok (h\<lparr>buckets := (buckets h)[home h e := e # buckets h ! home h e]\<rparr>)"
proof -
  have at: "\<forall>e \<in> set (buckets h ! i). home h e = i" if "i < length (buckets h)" for i
    using assms that unfolding shape_ok_def by blast
  have push: "home h x = i" if i: "i < length (buckets h)"
    and x: "x \<in> set ((buckets h)[home h e := e # buckets h ! home h e] ! i)" for i x
  proof (cases "i = home h e")
    case True
    then have "x = e \<or> x \<in> set (buckets h ! i)" using x i by simp
    then show ?thesis using at [OF i] True by blast
  next
    case False
    then show ?thesis using x at [OF i] by simp
  qed
  have "bucket_cnt h \<noteq> 0" "length (buckets h) = unat (bucket_cnt h)"
    using assms unfolding shape_ok_def by blast+
  then show ?thesis unfolding shape_ok_def by (auto dest!: push [rotated])
qed

lemma move_bucket_ok:
  "shape_ok h \<Longrightarrow> \<exists>bs. move_bucket h es = Some (h\<lparr>buckets := bs\<rparr>) \<and> shape_ok (h\<lparr>buckets := bs\<rparr>) \<and>
     mset (concat bs) = mset (concat (buckets h)) + mset es"
proof (induction es arbitrary: h)
  case Nil
  then show ?case by (intro exI [of _ "buckets h"]) simp
next
  case (Cons e es)
  let ?h = "h\<lparr>buckets := (buckets h)[home h e := e # buckets h ! home h e]\<rparr>"
  note f = find_bucket_ok [OF Cons.prems, of e]
  obtain bs where "move_bucket ?h es = Some (?h\<lparr>buckets := bs\<rparr>)" "shape_ok (?h\<lparr>buckets := bs\<rparr>)"
    "mset (concat bs) = mset (concat (buckets ?h)) + mset es"
    using Cons.IH [OF shape_push [OF Cons.prems]] by blast
  then show ?case using f mset_concat_update [OF f(2), of e] by auto
qed

lemma move_loop_ok:
  "shape_ok h \<Longrightarrow> \<exists>bs. move_loop h old = Some (h\<lparr>buckets := bs\<rparr>) \<and> shape_ok (h\<lparr>buckets := bs\<rparr>) \<and>
     mset (concat bs) = mset (concat (buckets h)) + mset (concat old)"
proof (induction old arbitrary: h)
  case Nil
  then show ?case by (intro exI [of _ "buckets h"]) simp
next
  case (Cons b old)
  obtain bs where b: "move_bucket h b = Some (h\<lparr>buckets := bs\<rparr>)" "shape_ok (h\<lparr>buckets := bs\<rparr>)"
    "mset (concat bs) = mset (concat (buckets h)) + mset b"
    using move_bucket_ok [OF Cons.prems] by blast
  then show ?case using Cons.IH [OF b(2)] by (auto simp: ac_simps)
qed

text \<open>The ideal number of buckets for a number of elements.\<close>

definition load_ok :: "hash \<Rightarrow> bool" where
  "load_ok h \<longleftrightarrow> unat (bucket_cnt h) \<le> max 4 (unat (elem_cnt h) div 2) \<and>
     max 4 (unat (elem_cnt h) div 2) < 2 * unat (bucket_cnt h)"

lemma rehash_ok:
  assumes h: "hash_ok h"
  shows "\<exists>h'. rehash alloc h = Some h' \<and> hash_ok h' \<and> elems h' = elems h \<and> eqv h' = eqv h \<and>
    elem_cnt h' = elem_cnt h \<and> ((\<forall>n. alloc n) \<longrightarrow> load_ok h')"
proof -
  define w where "w = (if elem_cnt h div 2 < 4 then 4 else elem_cnt h div 2)"
  have uw: "unat w = max 4 (unat (elem_cnt h) div 2)"
    by (auto simp: w_def word_less_nat_alt unat_div max_def)
  then have "w \<noteq> 0" by (auto simp: u32_eq_iff)
  then obtain k where k: "k < 32" "power_loop w = Some (2 ^ k)" "2 ^ k \<le> unat w" "unat w < 2 ^ Suc k"
    using power_loop_exists by blast
  have uk: "unat (2 ^ k :: u32) = 2 ^ k"
    using unat_of_nat_u32 [of "2 ^ k"] le_less_trans [OF k(3) unat_u32_bound] by simp
  then have nz: "(2 ^ k :: u32) \<noteq> 0" by (metis unat_0 power_eq_0_iff zero_neq_numeral)
  have p2: "is_power_of_2 (2 ^ k)"
    using nz turn_off_top(1) [of k "2 ^ k"] uk k(1) by (auto simp: is_power_of_2_def)
  have re: "rehash alloc h = (if 2 ^ k = bucket_cnt h then Some h else if \<not> alloc (16 * 2 ^ k) then Some h
      else move_loop (h\<lparr>buckets := replicate (2 ^ k) [], bucket_cnt := 2 ^ k\<rparr>) (buckets h))"
    using k(2) uk by (simp add: rehash_def Let_def w_def [symmetric])
  have load: "load_ok h'" if "bucket_cnt h' = 2 ^ k" "elem_cnt h' = elem_cnt h" for h'
    using k(3,4) uk that by (simp add: load_ok_def uw)
  show ?thesis
  proof (cases "2 ^ k = bucket_cnt h \<or> \<not> alloc (16 * 2 ^ k)")
    case True
    then have "rehash alloc h = Some h" using re by auto
    then show ?thesis using h load [of h] True by auto
  next
    case False
    let ?h = "h\<lparr>buckets := replicate (2 ^ k) [], bucket_cnt := 2 ^ k\<rparr>"
    have "shape_ok ?h" using nz uk by (simp add: shape_ok_def)
    then obtain bs where bs: "move_loop ?h (buckets h) = Some (?h\<lparr>buckets := bs\<rparr>)" "shape_ok (?h\<lparr>buckets := bs\<rparr>)"
      "mset (concat bs) = mset (concat (buckets ?h)) + mset (concat (buckets h))"
      using move_loop_ok by blast
    then have ms: "mset (concat bs) = mset (concat (buckets h))" by (simp add: concat_replicate_trivial)
    then have "set (concat bs) = elems h" "distinct (concat bs) = distinct (concat (buckets h))"
      "length (concat bs) = length (concat (buckets h))"
      unfolding elems_def by (metis set_mset_mset, metis mset_eq_imp_distinct_iff, metis size_mset)
    then have "hash_ok (?h\<lparr>buckets := bs\<rparr>)" "elems (?h\<lparr>buckets := bs\<rparr>) = elems h"
      using h bs(2) p2 by (auto simp: hash_ok_def elems_def)
    then show ?thesis using re False bs(1) load by auto
  qed
qed


subsection \<open>Inserting and removing\<close>

lemma concat_remove1: "distinct (concat bs) \<Longrightarrow> concat (map (remove1 e) bs) = remove1 e (concat bs)"
proof (induction bs)
  case (Cons b bs)
  have "map (remove1 e) bs = bs" if "e \<in> set b"
  proof -
    have "e \<notin> set x" if "x \<in> set bs" for x using that Cons.prems \<open>e \<in> set b\<close> by auto
    then show ?thesis by (simp add: map_idI remove1_idem)
  qed
  then show ?case using Cons by (auto simp: remove1_append remove1_idem)
qed simp

lemma hash_okD:
  assumes "hash_ok h"
  shows "shape_ok h" "funcs_ok h" "is_power_of_2 (bucket_cnt h)" "distinct (concat (buckets h))"
    "unat (elem_cnt h) = length (concat (buckets h))" "0 \<notin> elems h"
    "\<And>x y. x \<in> elems h \<Longrightarrow> y \<in> elems h \<Longrightarrow> eqv h x y \<Longrightarrow> x = y"
  using assms unfolding hash_ok_def by blast+

lemma shape_ok_elem_cnt [simp]:
  "shape_ok (h\<lparr>elem_cnt := c, buckets := b\<rparr>) = shape_ok (h\<lparr>buckets := b\<rparr>)"
  by (simp add: shape_ok_def home_def)

lemma remove_elem_ok:
  assumes h: "hash_ok h" and e: "e \<in> elems h"
  shows "hash_ok (remove_elem h e)" "elems (remove_elem h e) = elems h - {e}" "eqv (remove_elem h e) = eqv h"
    and "home (remove_elem h e) = home h"
proof -
  let ?bs = "map (remove1 e) (buckets h)"
  note d = hash_okD [OF h]
  have c: "concat ?bs = remove1 e (concat (buckets h))" using concat_remove1 [OF d(4)] .
  show el: "elems (remove_elem h e) = elems h - {e}"
  proof -
    have "buckets (remove_elem h e) = ?bs" by (simp add: remove_elem_def)
    then show ?thesis using d(4) by (simp only: elems_def c set_remove1_eq)
  qed
  show eq: "eqv (remove_elem h e) = eqv h" by (simp add: remove_elem_def)
  show "home (remove_elem h e) = home h" by (simp add: remove_elem_def)
  have "shape_ok (h\<lparr>buckets := ?bs\<rparr>)"
    using d(1) unfolding shape_ok_def by (auto dest!: notin_set_remove1 [THEN notE, rotated])
  then have "shape_ok (remove_elem h e)" by (simp add: remove_elem_def)
  moreover have "e \<in> set (concat (buckets h))" using e by (simp only: elems_def)
  then have "unat (elem_cnt h - 1) = length (remove1 e (concat (buckets h)))"
    using d(5) length_pos_if_in_set [of e "concat (buckets h)"]
    by (simp only: length_remove1 if_True unat_minus_one unat_gt_0 [symmetric] u32_eq_iff unat_0)
      (simp add: unat_minus_one unat_gt_0 [symmetric])
  ultimately show "hash_ok (remove_elem h e)"
    unfolding hash_ok_def el eq using d by (simp add: remove_elem_def c distinct_remove1)
qed

lemma elem_cnt_bound:
  assumes h: "hash_ok h" and e: "e \<noteq> 0" "e \<notin> elems h"
  shows "Suc (unat (elem_cnt h)) < 2 ^ 32"
proof -
  have "card (elems h) = unat (elem_cnt h)"
    using hash_okD(4,5) [OF h] by (simp only: elems_def distinct_card)
  moreover have "card (insert 0 (insert e (elems h))) \<le> card (UNIV :: u32 set)" by (intro card_mono) auto
  moreover have "finite (elems h)" by (simp add: elems_def)
  ultimately show ?thesis using e hash_okD(6) [OF h] by (simp add: card_word)
qed

lemma insert_elem_ok:
  assumes h: "hash_ok h" and e: "e \<noteq> 0" and new: "\<And>x. x \<in> elems h \<Longrightarrow> \<not> eqv h x e"
  shows "hash_ok (insert_elem h (home h e) e)" "elems (insert_elem h (home h e) e) = insert e (elems h)"
    and "eqv (insert_elem h (home h e) e) = eqv h"
proof -
  let ?h = "insert_elem h (home h e) e"
  note d = hash_okD [OF h]
  have notin: "e \<notin> elems h" using new d(2) by (auto simp: funcs_ok_def)
  have ms: "mset (concat (buckets ?h)) = add_mset e (mset (concat (buckets h)))"
    using mset_concat_update [OF find_bucket_ok(2) [OF d(1)], of e e] by (simp add: insert_elem_def)
  then have st: "set (concat (buckets ?h)) = insert e (elems h)" unfolding elems_def
    by (metis set_mset_mset set_mset_add_mset_insert)
  then show el: "elems ?h = insert e (elems h)" by (simp only: elems_def)
  show eq: "eqv ?h = eqv h" by (simp add: insert_elem_def)
  have "distinct (concat (buckets ?h)) = distinct (e # concat (buckets h))"
    using ms by (intro mset_eq_imp_distinct_iff) simp
  then have di: "distinct (concat (buckets ?h))" using notin d(4) by (simp add: elems_def)
  have ln: "length (concat (buckets ?h)) = Suc (length (concat (buckets h)))"
    using ms by (metis size_mset size_add_mset)
  have sh: "shape_ok ?h"
    using shape_push [OF d(1), of e] by (simp only: insert_elem_def shape_ok_elem_cnt)
  have "unat (elem_cnt h + 1) = Suc (unat (elem_cnt h))"
    using elem_cnt_bound [OF h e notin] by (simp add: unat_add_u32)
  then have "unat (elem_cnt ?h) = length (concat (buckets ?h))"
    unfolding ln using d(5) by (simp add: insert_elem_def)
  moreover have "x = y" if "x \<in> insert e (elems h)" "y \<in> insert e (elems h)" "eqv h x y" for x y
    using that new d(7) eqv_sym by blast
  moreover have "is_power_of_2 (bucket_cnt ?h)" "funcs_ok ?h" "0 \<notin> insert e (elems h)"
    using d(2,3,6) e by (auto simp: insert_elem_def)
  ultimately show "hash_ok ?h" unfolding hash_ok_def el eq using sh di by blast
qed


subsection \<open>The table as an interface\<close>

text \<open>What a client of a table relies on. \<open>sz\<close> is the number of elements.\<close>

locale elem_table =
  fixes ok :: "'t \<Rightarrow> bool" and els :: "'t \<Rightarrow> ptr set" and eq :: "'t \<Rightarrow> ptr \<Rightarrow> ptr \<Rightarrow> bool"
    and lookup :: "'t \<Rightarrow> ptr \<Rightarrow> ptr option option"
    and ins :: "'t \<Rightarrow> ptr \<Rightarrow> (ptr option \<times> 't) option"
    and del :: "'t \<Rightarrow> ptr \<Rightarrow> (ptr option \<times> 't) option"
  assumes unique: "ok t \<Longrightarrow> x \<in> els t \<Longrightarrow> y \<in> els t \<Longrightarrow> eq t x y \<Longrightarrow> x = y"
    and refl: "ok t \<Longrightarrow> eq t x x"
    and trans: "ok t \<Longrightarrow> eq t x y \<Longrightarrow> eq t y z \<Longrightarrow> eq t x z"
    and sym: "ok t \<Longrightarrow> eq t x y \<Longrightarrow> eq t y x"
    and lookup_law: "ok t \<Longrightarrow> \<exists>r. lookup t e = Some r \<and>
      (case r of None \<Rightarrow> \<forall>x \<in> els t. \<not> eq t x e | Some x \<Rightarrow> x \<in> els t \<and> eq t x e)"
    and ins_law: "ok t \<Longrightarrow> e \<noteq> 0 \<Longrightarrow> \<exists>r t'. ins t e = Some (r, t') \<and> ok t' \<and> eq t' = eq t \<and> lookup t e = Some r \<and>
      els t' = (if r = None then insert e (els t) else els t)"
    and del_law: "ok t \<Longrightarrow> \<exists>r t'. del t e = Some (r, t') \<and> ok t' \<and> eq t' = eq t \<and> lookup t e = Some r \<and>
      els t' = (case r of None \<Rightarrow> els t | Some x \<Rightarrow> els t - {x})"
begin

lemma lookup_Some:
  assumes t: "ok t"
  shows "lookup t e = Some (Some x) \<longleftrightarrow> x \<in> els t \<and> eq t x e"
proof -
  obtain r where r: "lookup t e = Some r"
    "case r of None \<Rightarrow> \<forall>x \<in> els t. \<not> eq t x e | Some x \<Rightarrow> x \<in> els t \<and> eq t x e"
    using lookup_law [OF t] by blast
  show ?thesis
  proof (cases r)
    case None
    then show ?thesis using r by auto
  next
    case (Some y)
    then have y: "y \<in> els t" "eq t y e" using r(2) by auto
    have "x = y" if "x \<in> els t" "eq t x e"
      using unique [OF t that(1) y(1) trans [OF t that(2) sym [OF t y(2)]]] .
    then show ?thesis using Some r(1) y by auto
  qed
qed

lemma lookup_None: "ok t \<Longrightarrow> lookup t e = Some None \<longleftrightarrow> (\<forall>x \<in> els t. \<not> eq t x e)"
  using lookup_law [of t e] lookup_Some [of t e]
  by (metis (no_types, lifting) option.case(1) option.exhaust option.inject option.simps(3))

lemma lookup_after_ins:
  assumes "ok t" and "e \<noteq> 0" and "ins t e = Some (r, t')"
  shows "lookup t' e = Some (Some (case r of None \<Rightarrow> e | Some x \<Rightarrow> x))"
    and "\<not> eq t e y \<Longrightarrow> lookup t' y = lookup t y"
proof -
  have l: "ok t'" "eq t' = eq t" "lookup t e = Some r" "els t' = (if r = None then insert e (els t) else els t)"
    using ins_law [OF assms(1,2)] assms(3) by auto
  show "lookup t' e = Some (Some (case r of None \<Rightarrow> e | Some x \<Rightarrow> x))"
    using l refl [OF assms(1)] lookup_Some [OF assms(1)]
    by (auto simp: lookup_Some [OF l(1)] split: option.splits)
  assume ne: "\<not> eq t e y"
  have same: "x \<in> els t' \<and> eq t x y \<longleftrightarrow> x \<in> els t \<and> eq t x y" for x
    using l(4) ne by (auto split: if_splits)
  obtain s where s: "lookup t y = Some s" using lookup_law [OF assms(1)] by blast
  show "lookup t' y = lookup t y"
  proof (cases s)
    case None
    then show ?thesis
      using s same unfolding s by (simp add: lookup_None [OF l(1)] l(2)) (metis s None lookup_None [OF assms(1)])
  next
    case (Some x)
    then show ?thesis using s same lookup_Some [OF assms(1)] lookup_Some [OF l(1)] l(2) by metis
  qed
qed

lemma lookup_after_del:
  assumes "ok t" and "del t e = Some (r, t')"
  shows "lookup t' e = Some None"
proof -
  have l: "ok t'" "eq t' = eq t" "lookup t e = Some r" "els t' = (case r of None \<Rightarrow> els t | Some x \<Rightarrow> els t - {x})"
    using del_law [OF assms(1), of e] assms(2) by auto
  show ?thesis
  proof (cases r)
    case None
    then show ?thesis using l lookup_None [OF assms(1)] lookup_None [OF l(1)] by simp
  next
    case (Some x)
    then have "x \<in> els t" "eq t x e" using l(3) lookup_Some [OF assms(1)] by auto
    then have "\<not> eq t y e" if "y \<in> els t - {x}" for y
      using that unique [OF assms(1)] trans [OF assms(1)] sym [OF assms(1)] by (metis Diff_iff singletonI)
    then show ?thesis using l Some lookup_None [OF l(1)] by simp
  qed
qed

end

lemma hash_find_ok:
  assumes "hash_ok h"
  shows "\<exists>r. hash_find h e = Some r \<and>
    (case r of None \<Rightarrow> \<forall>x \<in> elems h. \<not> eqv h x e | Some x \<Rightarrow> x \<in> elems h \<and> eqv h x e)"
  using find_bucket_ok(1) [OF hash_okD(1) [OF assms], of e] find_elem_ok [OF hash_okD(1,2) [OF assms], of e]
  by (simp add: hash_find_def)

lemma hash_insert_ok:
  assumes h: "hash_ok h" and e: "e \<noteq> 0"
  shows "\<exists>r h'. hash_insert alloc h e = Some (r, h') \<and> hash_ok h' \<and> eqv h' = eqv h \<and> hash_find h e = Some r \<and>
    elems h' = (if r = None then insert e (elems h) else elems h)"
proof -
  define r where "r = find_elem h (home h e) e"
  note fb = find_bucket_ok(1) [OF hash_okD(1) [OF h], of e]
  have f: "hash_find h e = Some r" using fb by (simp add: hash_find_def r_def)
  define h1 where "h1 = (if r = None then insert_elem h (home h e) e else h)"
  have "hash_ok h1 \<and> eqv h1 = eqv h \<and> elems h1 = (if r = None then insert e (elems h) else elems h)"
  proof (cases r)
    case None
    then have "\<not> eqv h x e" if "x \<in> elems h" for x
      using find_elem_ok [OF hash_okD(1,2) [OF h], of e] that by (simp add: r_def [symmetric])
    then show ?thesis using insert_elem_ok [OF h e] None by (simp add: h1_def)
  qed (use h in \<open>simp add: h1_def\<close>)
  moreover obtain h' where "rehash alloc h1 = Some h'" "hash_ok h'" "elems h' = elems h1" "eqv h' = eqv h1"
    using rehash_ok [of h1 alloc] calculation by blast
  ultimately show ?thesis using fb f
    by (intro exI [of _ r] exI [of _ h']) (simp add: hash_insert_def r_def [symmetric] h1_def [symmetric])
qed

lemma hash_delete_ok:
  assumes h: "hash_ok h"
  shows "\<exists>r h'. hash_delete alloc h e = Some (r, h') \<and> hash_ok h' \<and> eqv h' = eqv h \<and> hash_find h e = Some r \<and>
    elems h' = (case r of None \<Rightarrow> elems h | Some x \<Rightarrow> elems h - {x})"
proof -
  define r where "r = find_elem h (home h e) e"
  note fb = find_bucket_ok(1) [OF hash_okD(1) [OF h], of e]
  have f: "hash_find h e = Some r" using fb by (simp add: hash_find_def r_def)
  show ?thesis
  proof (cases r)
    case None
    then have "hash_delete alloc h e = Some (None, h)" using fb by (simp add: hash_delete_def r_def [symmetric])
    then show ?thesis using f h None by simp
  next
    case (Some x)
    then have "x \<in> elems h"
      using find_elem_ok [OF hash_okD(1,2) [OF h], of e] by (simp add: r_def [symmetric])
    note rm = remove_elem_ok [OF h this]
    obtain h' where h': "rehash alloc (remove_elem h x) = Some h'" "hash_ok h'" "elems h' = elems (remove_elem h x)"
      "eqv h' = eqv (remove_elem h x)" using rehash_ok [OF rm(1), of alloc] by blast
    then have "hash_delete alloc h e = Some (Some x, h')"
      using fb Some by (simp add: hash_delete_def r_def [symmetric])
    then show ?thesis using f h' rm Some by simp
  qed
qed

interpretation ht: elem_table hash_ok elems eqv hash_find "hash_insert alloc" "hash_delete alloc" for alloc
proof
  fix t x y z e
  assume t: "hash_ok t"
  show "x \<in> elems t \<Longrightarrow> y \<in> elems t \<Longrightarrow> eqv t x y \<Longrightarrow> x = y" using hash_okD(7) [OF t] .
  show "eqv t x x" "eqv t x y \<Longrightarrow> eqv t y z \<Longrightarrow> eqv t x z"
    using hash_okD(2) [OF t] unfolding funcs_ok_def by blast+
  show "eqv t x y \<Longrightarrow> eqv t y x" by (simp add: eqv_sym)
qed (rule hash_find_ok hash_insert_ok hash_delete_ok; assumption)+


subsection \<open>Sequences of operations\<close>

datatype hash_op = Insert ptr | Replace ptr | Delete ptr | Find ptr

primrec op_arg :: "hash_op \<Rightarrow> ptr" where
  "op_arg (Insert e) = e"
| "op_arg (Replace e) = e"
| "op_arg (Delete e) = e"
| "op_arg (Find e) = e"

primrec run_op :: "(u32 \<Rightarrow> bool) \<Rightarrow> hash \<Rightarrow> hash_op \<Rightarrow> (ptr option \<times> hash) option" where
  "run_op alloc h (Insert e) = hash_insert alloc h e"
| "run_op alloc h (Replace e) = hash_replace alloc h e"
| "run_op alloc h (Delete e) = hash_delete alloc h e"
| "run_op alloc h (Find e) = map_option (\<lambda>r. (r, h)) (hash_find h e)"

primrec run_ops :: "(u32 \<Rightarrow> bool) \<Rightarrow> hash \<Rightarrow> hash_op list \<Rightarrow> (ptr option list \<times> hash) option" where
  "run_ops alloc h [] = Some ([], h)"
| "run_ops alloc h (x # xs) = do { (r, h) \<leftarrow> run_op alloc h x; (rs, h) \<leftarrow> run_ops alloc h xs; Some (r # rs, h) }"

text \<open>The specification: a set of elements without two equal ones. Every operation returns the element of the
  set equal to its argument, if there is one.\<close>

primrec spec_set :: "hash_op \<Rightarrow> ptr option \<Rightarrow> ptr set \<Rightarrow> ptr set" where
  "spec_set (Insert e) r s = (if r = None then insert e s else s)"
| "spec_set (Replace e) r s = insert e (s - set_option r)"
| "spec_set (Delete e) r s = s - set_option r"
| "spec_set (Find e) r s = s"

definition spec_result :: "(ptr \<Rightarrow> ptr \<Rightarrow> bool) \<Rightarrow> ptr \<Rightarrow> ptr set \<Rightarrow> ptr option \<Rightarrow> bool" where
  "spec_result eq e s r \<longleftrightarrow> (case r of None \<Rightarrow> \<forall>x \<in> s. \<not> eq x e | Some x \<Rightarrow> x \<in> s \<and> eq x e)"

fun spec_run :: "(ptr \<Rightarrow> ptr \<Rightarrow> bool) \<Rightarrow> hash_op list \<Rightarrow> ptr set \<Rightarrow> ptr option list \<Rightarrow> ptr set \<Rightarrow> bool" where
  "spec_run eq [] s [] s' \<longleftrightarrow> s' = s"
| "spec_run eq (x # xs) s (r # rs) s' \<longleftrightarrow>
    spec_result eq (op_arg x) s r \<and> spec_run eq xs (spec_set x r s) rs s'"
| "spec_run eq _ s _ s' \<longleftrightarrow> False"

lemma hash_find_result: "hash_ok h \<Longrightarrow> hash_find h e = Some r \<Longrightarrow> spec_result (eqv h) e (elems h) r"
  using hash_find_ok [of h e] by (simp add: spec_result_def)

lemma hash_replace_ok:
  assumes h: "hash_ok h" and e: "e \<noteq> 0"
  shows "\<exists>r h'. hash_replace alloc h e = Some (r, h') \<and> hash_ok h' \<and> eqv h' = eqv h \<and> hash_find h e = Some r \<and>
    elems h' = insert e (elems h - set_option r)"
proof -
  define r where "r = find_elem h (home h e) e"
  note fb = find_bucket_ok(1) [OF hash_okD(1) [OF h], of e]
  have f: "hash_find h e = Some r" using fb by (simp add: hash_find_def r_def)
  have fr: "case r of None \<Rightarrow> \<forall>x \<in> elems h. \<not> eqv h x e | Some x \<Rightarrow> x \<in> elems h \<and> eqv h x e"
    using find_elem_ok [OF hash_okD(1,2) [OF h], of e] by (simp add: r_def)
  define h1 where "h1 = (case r of None \<Rightarrow> h | Some x \<Rightarrow> remove_elem h x)"
  have h1: "hash_ok h1 \<and> eqv h1 = eqv h \<and> home h1 = home h \<and> elems h1 = elems h - set_option r"
    using fr h remove_elem_ok [OF h] by (cases r) (simp_all add: h1_def)
  have "\<not> eqv h1 x e" if "x \<in> elems h1" for x
  proof (cases r)
    case None
    then show ?thesis using fr h1 that by simp
  next
    case (Some y)
    then have "x \<in> elems h" "x \<noteq> y" "y \<in> elems h" "eqv h y e" using that h1 fr by auto
    then show ?thesis
      using h1 ht.unique [OF h] ht.trans [OF h] ht.sym [OF h] by metis
  qed
  note io = insert_elem_ok [OF conjunct1 [OF h1] e this]
  obtain h' where "rehash alloc (insert_elem h1 (home h1 e) e) = Some h'" "hash_ok h'"
    "elems h' = elems (insert_elem h1 (home h1 e) e)" "eqv h' = eqv (insert_elem h1 (home h1 e) e)"
    using rehash_ok [OF io(1), of alloc] by blast
  then show ?thesis using fb f h1 io
    by (intro exI [of _ r] exI [of _ h']) (simp add: hash_replace_def r_def [symmetric] h1_def [symmetric])
qed

lemma run_op_ok:
  assumes "hash_ok h" and "op_arg x \<noteq> 0"
  shows "\<exists>r h'. run_op alloc h x = Some (r, h') \<and> hash_ok h' \<and> eqv h' = eqv h \<and>
    spec_result (eqv h) (op_arg x) (elems h) r \<and> elems h' = spec_set x r (elems h)"
proof (cases x)
  case (Insert e)
  then show ?thesis
    using hash_insert_ok [OF assms(1), of e alloc] assms(2) hash_find_result [OF assms(1)] by auto
next
  case (Replace e)
  then show ?thesis
    using hash_replace_ok [OF assms(1), of e alloc] assms(2) hash_find_result [OF assms(1)] by auto
next
  case (Delete e)
  obtain r h' where "hash_delete alloc h e = Some (r, h')" "hash_ok h'" "eqv h' = eqv h" "hash_find h e = Some r"
    "elems h' = (case r of None \<Rightarrow> elems h | Some x \<Rightarrow> elems h - {x})"
    using hash_delete_ok [OF assms(1)] by blast
  then show ?thesis using Delete hash_find_result [OF assms(1)] by (cases r) auto
next
  case (Find e)
  then show ?thesis using hash_find_ok [OF assms(1), of e] assms(1) by (auto simp: spec_result_def)
qed

lemma run_ops_ok:
  "hash_ok h \<Longrightarrow> \<forall>x \<in> set xs. op_arg x \<noteq> 0 \<Longrightarrow>
    \<exists>rs h'. run_ops alloc h xs = Some (rs, h') \<and> hash_ok h' \<and> spec_run (eqv h) xs (elems h) rs (elems h')"
proof (induction xs arbitrary: h)
  case (Cons x xs)
  obtain r h1 where r: "run_op alloc h x = Some (r, h1)" "hash_ok h1" "eqv h1 = eqv h"
    "spec_result (eqv h) (op_arg x) (elems h) r" "elems h1 = spec_set x r (elems h)"
    using run_op_ok [OF Cons.prems(1), of x alloc] Cons.prems(2) by auto
  obtain rs h' where "run_ops alloc h1 xs = Some (rs, h')" "hash_ok h'" "spec_run (eqv h1) xs (elems h1) rs (elems h')"
    using Cons.IH [OF r(2)] Cons.prems(2) by auto
  with r show ?case by auto
qed simp

subsection \<open>Iteration\<close>

text \<open>The idiom for iterating over a table, collecting the elements.\<close>

partial_function (option) collect :: "hash_iterator \<Rightarrow> ptr list \<Rightarrow> ptr list option" where
  "collect i acc = do {
     (r, i) \<leftarrow> hash_next i;
     if r = None then Some acc else do { e \<leftarrow> hash_cur i; collect i (acc @ [e]) }
   }"

lemma next_bucket_cases:
  "(concat rest = [] \<and> snd (next_bucket b rest) = None) \<or>
   (\<exists>k e es. next_bucket b rest = (b + k, Some e) \<and> k < length rest \<and> rest ! k = e # es \<and>
      concat rest = e # es @ concat (drop (Suc k) rest))"
proof (induction rest arbitrary: b)
  case (Cons x rest)
  show ?case
  proof (cases x)
    case Nil
    show ?thesis
    proof (cases "concat rest = []")
      case True
      then show ?thesis using Cons.IH [of "Suc b"] Nil by auto
    next
      case False
      then obtain k e es where "next_bucket (Suc b) rest = (Suc b + k, Some e)" "k < length rest" "rest ! k = e # es"
        "concat rest = e # es @ concat (drop (Suc k) rest)"
        using Cons.IH [of "Suc b"] by blast
      then have "next_bucket b (x # rest) = (b + Suc k, Some e)" "Suc k < length (x # rest)" "(x # rest) ! Suc k = e # es"
        "concat (x # rest) = e # es @ concat (drop (Suc (Suc k)) (x # rest))"
        using Nil by simp_all
      then show ?thesis by blast
    qed
  next
    case (Cons e es)
    then show ?thesis by (intro disjI2 exI [of _ 0] exI [of _ e] exI [of _ es]) simp
  qed
qed simp

lemma list_after_mid: "e \<notin> set pre \<Longrightarrow> list_after (Some e) (pre @ e # post) = list_after None post"
  by (induction pre) auto

lemma collect_step:
  assumes i: "b < length (buckets h)" and la: "list_after el (buckets h ! b) = list_after None post"
    and IH: "\<And>b' e pre es. (b' = b \<and> post = e # es \<or> b < b') \<Longrightarrow> b' < length (buckets h) \<Longrightarrow>
      buckets h ! b' = pre @ e # es \<Longrightarrow> e \<notin> set pre \<Longrightarrow>
      collect \<lparr>it_hash = h, it_bucket = b', it_elem = Some e\<rparr> (acc @ [e]) =
        Some (acc @ [e] @ es @ concat (drop (Suc b') (buckets h)))"
    and post: "\<exists>pre. buckets h ! b = pre @ post \<and> (post \<noteq> [] \<longrightarrow> hd post \<notin> set pre)"
  shows "collect \<lparr>it_hash = h, it_bucket = b, it_elem = el\<rparr> acc = Some (acc @ post @ concat (drop (Suc b) (buckets h)))"
proof (cases post)
  case (Cons e es)
  then have "hash_next \<lparr>it_hash = h, it_bucket = b, it_elem = el\<rparr> =
      Some (Some e, \<lparr>it_hash = h, it_bucket = b, it_elem = Some e\<rparr>)"
    using i la by (simp add: hash_next_def)
  then show ?thesis
    using IH [of b e es] post i Cons by (subst collect.simps) (auto simp: hash_cur_def)
next
  case Nil
  let ?rest = "drop (Suc b) (buckets h)"
  have nx: "hash_next \<lparr>it_hash = h, it_bucket = b, it_elem = el\<rparr> =
      Some (snd (next_bucket (Suc b) ?rest), \<lparr>it_hash = h, it_bucket = fst (next_bucket (Suc b) ?rest),
        it_elem = snd (next_bucket (Suc b) ?rest)\<rparr>)"
    using i la Nil by (simp add: hash_next_def split: prod.splits)
  from next_bucket_cases [of ?rest "Suc b"] show ?thesis
  proof (elim disjE exE conjE)
    assume "concat ?rest = []" "snd (next_bucket (Suc b) ?rest) = None"
    then show ?thesis using nx Nil by (subst collect.simps) simp
  next
    fix k e es
    assume k: "next_bucket (Suc b) ?rest = (Suc b + k, Some e)" "k < length ?rest" "?rest ! k = e # es"
      "concat ?rest = e # es @ concat (drop (Suc k) ?rest)"
    have "collect \<lparr>it_hash = h, it_bucket = Suc b + k, it_elem = Some e\<rparr> (acc @ [e]) =
        Some (acc @ [e] @ es @ concat (drop (Suc (Suc b + k)) (buckets h)))"
      using k by (intro IH [of _ _ _ "[]"]) auto
    then show ?thesis
      using nx k Nil by (subst collect.simps) (simp add: hash_cur_def add.commute)
  qed
qed

lemma concat_drop_later:
  assumes "b < b'" and "b' < length bs"
  shows "length (bs ! b') + length (concat (drop (Suc b') bs)) \<le> length (concat (drop (Suc b) bs))"
proof -
  have "drop (Suc b) bs = take (b' - Suc b) (drop (Suc b) bs) @ drop b' bs"
    using assms by (metis Suc_leI append_take_drop_id drop_drop le_add_diff_inverse2)
  moreover have "drop b' bs = bs ! b' # drop (Suc b') bs" using assms(2) by (simp add: Cons_nth_drop_Suc)
  ultimately have "concat (drop (Suc b) bs) =
      concat (take (b' - Suc b) (drop (Suc b) bs)) @ bs ! b' @ concat (drop (Suc b') bs)"
    by (metis concat.simps(2) concat_append)
  then show ?thesis by simp
qed

lemma collect_from:
  assumes d: "distinct (concat (buckets h))"
  shows "b < length (buckets h) \<Longrightarrow> buckets h ! b = pre @ e # es \<Longrightarrow>
    collect \<lparr>it_hash = h, it_bucket = b, it_elem = Some e\<rparr> acc = Some (acc @ es @ concat (drop (Suc b) (buckets h)))"
proof (induction "length es + length (concat (drop (Suc b) (buckets h)))" arbitrary: b pre e es acc rule: less_induct)
  case less
  have db: "distinct (buckets h ! b)" using d less.prems(1) by (simp add: distinct_concat_iff)
  show ?case
  proof (rule collect_step [OF less.prems(1)])
    show "list_after (Some e) (buckets h ! b) = list_after None es"
      using db less.prems(2) by (simp add: list_after_mid)
    show "\<exists>pre'. buckets h ! b = pre' @ es \<and> (es \<noteq> [] \<longrightarrow> hd es \<notin> set pre')"
      using db less.prems(2) by (intro exI [of _ "pre @ [e]"]) (cases es, auto)
    fix b' e' pre' es'
    assume b': "b' = b \<and> es = e' # es' \<or> b < b'" "b' < length (buckets h)" "buckets h ! b' = pre' @ e' # es'"
    have "length es' + length (concat (drop (Suc b') (buckets h))) < length es + length (concat (drop (Suc b) (buckets h)))"
      using b'(1) concat_drop_later [of b b' "buckets h", OF _ b'(2)] b'(3) by auto
    then show "collect \<lparr>it_hash = h, it_bucket = b', it_elem = Some e'\<rparr> (acc @ [e']) =
        Some (acc @ [e'] @ es' @ concat (drop (Suc b') (buckets h)))"
      using less.hyps [of es' b' pre' e' "acc @ [e']"] b' by simp
  qed
qed

lemma collect_first:
  assumes "hash_ok h"
  shows "collect (hash_first h) [] = Some (concat (buckets h))"
proof -
  have n: "0 < length (buckets h)"
    using hash_okD(1) [OF assms] by (auto simp: shape_ok_def unat_gt_0)
  have "collect \<lparr>it_hash = h, it_bucket = 0, it_elem = None\<rparr> [] =
      Some ([] @ buckets h ! 0 @ concat (drop (Suc 0) (buckets h)))"
  proof (rule collect_step [OF n])
    show "\<exists>pre. buckets h ! 0 = pre @ buckets h ! 0 \<and> (buckets h ! 0 \<noteq> [] \<longrightarrow> hd (buckets h ! 0) \<notin> set pre)"
      by (intro exI [of _ "[]"]) simp
    fix b' e' pre' es'
    assume "b' < length (buckets h)" "buckets h ! b' = pre' @ e' # es'"
    then show "collect \<lparr>it_hash = h, it_bucket = b', it_elem = Some e'\<rparr> ([] @ [e']) =
        Some ([] @ [e'] @ es' @ concat (drop (Suc b') (buckets h)))"
      using collect_from [OF hash_okD(4) [OF assms], of b' pre' e' es' "[e']"] by simp
  qed simp
  then show ?thesis using n by (cases "buckets h") (simp_all add: hash_first_def)
qed

lemma apply_loop_fold: "apply_loop f bs s = fold f (concat bs) s"
proof -
  have "apply_bucket f b s = fold f b s" for b s by (induction b arbitrary: s) simp_all
  then show ?thesis by (induction bs arbitrary: s) simp_all
qed

lemma clear_loop_fold: "clear_loop (Some d) bs s = (replicate (length bs) [], fold d (concat bs) s)"
proof -
  have "clear_bucket d b s = fold d b s" for b s by (induction b arbitrary: s) simp_all
  then show ?thesis by (induction bs arbitrary: s) (simp_all add: Let_def)
qed

lemma clear_loop_None: "clear_loop None bs s = (replicate (length bs) [], s)"
  by (induction bs) (simp_all add: Let_def)

subsection \<open>Properties\<close>

text \<open>C12. A hash table implements a set of elements in which no two are equal: any sequence of insertions,
  replacements, deletions and searches, whether or not the allocations of the rehashing succeed, returns
  what the specification returns and leaves the elements of the specification in the table, which
  stays well-formed.\<close>

theorem hash_table_refines_set:
  assumes "hash_ok h" and "\<forall>x \<in> set xs. op_arg x \<noteq> 0"
  shows "\<exists>rs h'. run_ops alloc h xs = Some (rs, h') \<and> hash_ok h' \<and> spec_run (eqv h) xs (elems h) rs (elems h') \<and>
    unat (hash_size h') = card (elems h')"
proof -
  obtain rs h' where r: "run_ops alloc h xs = Some (rs, h')" "hash_ok h'" "spec_run (eqv h) xs (elems h) rs (elems h')"
    using run_ops_ok [OF assms] by blast
  moreover have "unat (hash_size h') = card (elems h')"
    using hash_okD(4,5) [OF r(2)] by (simp only: hash_size_def elems_def distinct_card)
  ultimately show ?thesis by blast
qed

definition example_hash :: hash where
  "example_hash = \<lparr>elem_cnt = 0, bucket_cnt = 4, buckets = [[], [], [], []], hash_func = (\<lambda>e. e div 8), less_func = (<)\<rparr>"

lemma example_hash_ok: "hash_ok example_hash"
proof -
  have "is_power_of_2 4" by (simp add: is_power_of_2_def turn_off_least_1bit_def)
  then show ?thesis
    by (auto simp: hash_ok_def example_hash_def shape_ok_def funcs_ok_def elems_def eqv_def nth_Cons'
        split: if_splits)
qed

theorem hash_table_refines_set_witness:
  "\<exists>h'. run_ops (\<lambda>n. True) example_hash [Insert 8, Find 8, Delete 8, Find 8] =
     Some ([None, Some 8, Some 8, None], h') \<and> elems h' = {}"
proof -
  have e0: "elems example_hash = {}" and eq: "eqv example_hash = (=)"
    by (auto simp: elems_def example_hash_def eqv_def fun_eq_iff)
  obtain rs h' where r: "run_ops (\<lambda>n. True) example_hash [Insert 8, Find 8, Delete 8, Find 8] = Some (rs, h')"
    "spec_run (eqv example_hash) [Insert 8, Find 8, Delete 8, Find 8] (elems example_hash) rs (elems h')"
    using hash_table_refines_set [OF example_hash_ok, of "[Insert 8, Find 8, Delete 8, Find 8]" "\<lambda>n. True"] by auto
  have len: "length ys = length xs" if "spec_run e xs s ys s'" for e xs s ys s'
    using that by (induction e xs s ys s' rule: spec_run.induct) auto
  then obtain a b c d where "rs = [a, b, c, d]"
    using len [OF r(2)] by (auto simp: length_Suc_conv eval_nat_numeral)
  with r(2) have "rs = [None, Some 8, Some 8, None] \<and> elems h' = {}"
    by (cases a; cases b; cases c; cases d) (auto simp: e0 eq spec_result_def)
  with r(1) show ?thesis by blast
qed



end
