(* ===== verification/Palloc.thy ===== *)
theory Palloc
  imports Vaddr Bitmap Cstring
begin

section \<open>The page allocator (threads/palloc.c)\<close>

text \<open>
  Two pools of pages, each with a bitmap of its used pages; requests take the first run of free pages.
  The state has the pools and the memory, since pages are filled on allocation and on release. The
  lock of a pool makes the search of the bitmap atomic; the operations are therefore single
  steps. The theory shows that pages handed out were free and are disjoint from all pages in use.
\<close>

record pool =
  used_map :: bitmap
  base :: ptr

record palloc =
  kernel_pool :: pool
  user_pool :: pool
  pmem :: mem

definition PAL_ASSERT :: u32 where "PAL_ASSERT = 1"
definition PAL_ZERO :: u32 where "PAL_ZERO = 2"
definition PAL_USER :: u32 where "PAL_USER = 4"

definition init_pool :: "ptr \<Rightarrow> size_t \<Rightarrow> elem_type list \<Rightarrow> pool option" where
  "init_pool bs page_cnt storage = do {
     let bm_pages = DIV_ROUND_UP (bitmap_buf_size page_cnt) PGSIZE;
     kassert (\<not> bm_pages > page_cnt);
     let page_cnt = page_cnt - bm_pages;
     um \<leftarrow> bitmap_create_in_buf page_cnt storage (bm_pages * PGSIZE);
     Some \<lparr>used_map = um, base = bs + bm_pages * PGSIZE\<rparr>
   }"

text \<open>\<open>end_\<close> is the end of the kernel image; the pools' bitmaps lie in the words \<open>ks\<close> and \<open>us\<close> at their
  start.\<close>

definition palloc_init ::
  "ptr \<Rightarrow> size_t \<Rightarrow> size_t \<Rightarrow> elem_type list \<Rightarrow> elem_type list \<Rightarrow> mem \<Rightarrow> palloc option" where
  "palloc_init kernel_end ram_pages user_page_limit ks us m = do {
     let free_start = pg_round_up kernel_end;
     free_end \<leftarrow> ptov (ram_pages * PGSIZE);
     let free_pages = (free_end - free_start) div PGSIZE;
     let user_pages = free_pages div 2;
     let user_pages = (if user_pages > user_page_limit then user_page_limit else user_pages);
     let kernel_pages = free_pages - user_pages;
     kp \<leftarrow> init_pool free_start kernel_pages ks;
     up \<leftarrow> init_pool (free_start + kernel_pages * PGSIZE) user_pages us;
     Some \<lparr>kernel_pool = kp, user_pool = up, pmem = m\<rparr>
   }"

definition get_pool :: "bool \<Rightarrow> palloc \<Rightarrow> pool" where
  "get_pool user ps = (if user then user_pool ps else kernel_pool ps)"

definition set_pool :: "bool \<Rightarrow> pool \<Rightarrow> palloc \<Rightarrow> palloc" where
  "set_pool user p ps = (if user then ps\<lparr>user_pool := p\<rparr> else ps\<lparr>kernel_pool := p\<rparr>)"

definition palloc_get_multiple :: "palloc \<Rightarrow> u32 \<Rightarrow> size_t \<Rightarrow> (ptr \<times> palloc) option" where
  "palloc_get_multiple ps flags page_cnt = do {
     let user = (flags AND PAL_USER \<noteq> 0);
     let p = get_pool user ps;
     if page_cnt = 0 then Some (0, ps)
     else do {
       (page_idx, um) \<leftarrow> bitmap_scan_and_flip (used_map p) 0 page_cnt False;
       let ps = set_pool user (p\<lparr>used_map := um\<rparr>) ps;
       let pages = (if page_idx \<noteq> BITMAP_ERROR then base p + PGSIZE * page_idx else 0);
       if pages \<noteq> 0
       then if flags AND PAL_ZERO \<noteq> 0
            then do { (_, m) \<leftarrow> memset (pmem ps) pages 0 (PGSIZE * page_cnt); Some (pages, ps\<lparr>pmem := m\<rparr>) }
            else Some (pages, ps)
       else do { kassert (flags AND PAL_ASSERT = 0); Some (0, ps) }
     }
   }"

definition palloc_get_page :: "palloc \<Rightarrow> u32 \<Rightarrow> (ptr \<times> palloc) option" where
  "palloc_get_page ps flags = palloc_get_multiple ps flags 1"

definition page_from_pool :: "pool \<Rightarrow> ptr \<Rightarrow> bool" where
  "page_from_pool p page =
    (let page_no = pg_no page; start_page = pg_no (base p); end_page = start_page + bitmap_size (used_map p)
     in page_no \<ge> start_page \<and> page_no < end_page)"

definition palloc_free_multiple :: "palloc \<Rightarrow> ptr \<Rightarrow> size_t \<Rightarrow> palloc option" where
  "palloc_free_multiple ps pages page_cnt = do {
     kassert (pg_ofs pages = 0);
     if pages = 0 \<or> page_cnt = 0 then Some ps
     else do {
       user \<leftarrow> (if page_from_pool (kernel_pool ps) pages then Some False
               else if page_from_pool (user_pool ps) pages then Some True else None);
       let p = get_pool user ps;
       let page_idx = pg_no pages - pg_no (base p);
       (_, m) \<leftarrow> memset (pmem ps) pages 0xcc (PGSIZE * page_cnt);
       a \<leftarrow> bitmap_all (used_map p) page_idx page_cnt;
       kassert a;
       um \<leftarrow> bitmap_set_multiple (used_map p) page_idx page_cnt False;
       Some (set_pool user (p\<lparr>used_map := um\<rparr>) (ps\<lparr>pmem := m\<rparr>))
     }
   }"

definition palloc_free_page :: "palloc \<Rightarrow> ptr \<Rightarrow> palloc option" where
  "palloc_free_page ps page = palloc_free_multiple ps page 1"

subsection \<open>The invariant\<close>

definition pages :: "ptr \<Rightarrow> nat \<Rightarrow> nat set" where
  "pages p n = {unat p div 4096 ..< unat p div 4096 + n}"

definition pool_pages :: "pool \<Rightarrow> nat set" where
  "pool_pages p = pages (base p) (unat (bit_cnt (used_map p)))"

definition used_pages :: "pool \<Rightarrow> nat set" where
  "used_pages p =
    (+) (unat (base p) div 4096) ` {i. i < unat (bit_cnt (used_map p)) \<and> bitmap_bits (used_map p) ! i}"

definition pool_ok :: "mem \<Rightarrow> pool \<Rightarrow> bool" where
  "pool_ok m p \<longleftrightarrow> bitmap_wf (used_map p) \<and> base p \<noteq> 0 \<and> pg_ofs (base p) = 0 \<and>
     unat (base p) + 4096 * unat (bit_cnt (used_map p)) < 2 ^ 32 \<and>
     mapped m (base p) (4096 * unat (bit_cnt (used_map p)))"

definition palloc_ok :: "palloc \<Rightarrow> bool" where
  "palloc_ok ps \<longleftrightarrow> pool_ok (pmem ps) (kernel_pool ps) \<and> pool_ok (pmem ps) (user_pool ps) \<and>
     pool_pages (kernel_pool ps) \<inter> pool_pages (user_pool ps) = {}"

lemma aligned_unat: "pg_ofs p = 0 \<Longrightarrow> unat p = 4096 * (unat p div 4096)"
  using unat_pg_ofs [of p] by auto

lemma pool_okD:
  assumes "pool_ok m p"
  shows "bitmap_wf (used_map p)" "base p \<noteq> 0" "unat (base p) = 4096 * (unat (base p) div 4096)"
    "unat (base p) + 4096 * unat (bit_cnt (used_map p)) < 2 ^ 32"
    "mapped m (base p) (4096 * unat (bit_cnt (used_map p)))"
  using assms aligned_unat unfolding pool_ok_def by blast+

lemma mapped_offset:
  assumes "mapped m p n" and "k + j \<le> n"
  shows "mapped m (p + of_nat k) j"
  unfolding mapped_def
proof (intro allI impI)
  fix i assume "i < j"
  then have "k + i < n" using assms(2) by simp
  then have "m (p + of_nat (k + i)) \<noteq> None" using assms(1) unfolding mapped_def by blast
  then show "m (p + of_nat k + of_nat i) \<noteq> None" by (simp add: add.assoc)
qed

text \<open>The address of a page of a pool.\<close>

lemma page_address:
  assumes p: "pool_ok m p" and i: "unat idx + n \<le> unat (bit_cnt (used_map p))" "0 < n"
  shows "unat (base p + PGSIZE * idx) = unat (base p) + 4096 * unat idx"
    and "base p + PGSIZE * idx \<noteq> 0" and "pg_ofs (base p + PGSIZE * idx) = 0"
    and "pages (base p + PGSIZE * idx) n = {unat (base p) div 4096 + unat idx ..< unat (base p) div 4096 + unat idx + n}"
    and "in_space (base p + PGSIZE * idx) (4096 * n)" and "mapped m (base p + PGSIZE * idx) (4096 * n)"
    and "4096 * n < 2 ^ 32"
proof -
  note d = pool_okD [OF p]
  let ?a = "base p + PGSIZE * idx"
  have le: "4096 * unat idx + 4096 * n \<le> 4096 * unat (bit_cnt (used_map p))" using i by linarith
  have m: "unat (PGSIZE * idx) = 4096 * unat idx" using le d(4) by (simp add: PGSIZE_def unat_mult_u32)
  show u: "unat ?a = unat (base p) + 4096 * unat idx"
    using le d(4) m by (simp add: unat_add_u32)
  have "0 < unat (base p)" using d(2) by (simp add: unat_gt_0)
  then show nz: "?a \<noteq> 0" using u by (metis add_is_0 less_irrefl unat_0)
  have u': "unat ?a = 4096 * (unat (base p) div 4096 + unat idx)" using u d(3) by simp
  then show "pg_ofs ?a = 0" by (simp add: u32_eq_iff unat_pg_ofs)
  show "pages ?a n = {unat (base p) div 4096 + unat idx ..< unat (base p) div 4096 + unat idx + n}"
    using u' by (simp add: pages_def)
  show "in_space ?a (4096 * n)" using nz u le d(4) by (simp add: in_space_def)
  show "4096 * n < 2 ^ 32" using le d(4) by linarith
  have "?a = base p + of_nat (4096 * unat idx)" by (simp add: PGSIZE_def)
  then show "mapped m ?a (4096 * n)" using mapped_offset [OF d(5) le] by simp
qed

lemma used_pages_fill:
  assumes "bitmap_wf b" "bitmap_wf b'" "bit_cnt b' = bit_cnt b"
    and "bitmap_bits b' = fill (bitmap_bits b) i n v" "i + n \<le> unat (bit_cnt b)" "used_map p = b"
  shows "used_pages (p\<lparr>used_map := b'\<rparr>) =
    (if v then used_pages p \<union> {unat (base p) div 4096 + i ..< unat (base p) div 4096 + i + n}
     else used_pages p - {unat (base p) div 4096 + i ..< unat (base p) div 4096 + i + n})"
proof -
  let ?B = "unat (base p) div 4096" and ?U = "{k. k < unat (bit_cnt b) \<and> bitmap_bits b ! k}"
  have bit: "bitmap_bits b' ! k = (if i \<le> k \<and> k < i + n then v else bitmap_bits b ! k)" if "k < unat (bit_cnt b)" for k
    using assms(4,5) that by (simp add: nth_fill)
  then have "{k. k < unat (bit_cnt b) \<and> bitmap_bits b' ! k} = (if v then ?U \<union> {i ..< i + n} else ?U - {i ..< i + n})"
    using assms(5) by (auto split: if_splits)
  moreover have "{?B + i ..< ?B + i + n} = (+) ?B ` {i ..< i + n}" by (simp add: ac_simps)
  moreover have "(+) ?B ` (?U - {i ..< i + n}) = (+) ?B ` ?U - (+) ?B ` {i ..< i + n}"
    by (rule image_set_diff) simp
  ultimately show ?thesis using assms(3,6) by (simp add: used_pages_def image_Un)
qed

subsection \<open>Allocation and release\<close>

lemma pool_ok_mem:
  assumes "pool_ok m p" and "\<And>q n. mapped m q n \<Longrightarrow> mapped m' q n"
  shows "pool_ok m' p"
  using assms unfolding pool_ok_def by blast

lemma pool_ok_bitmap:
  "pool_ok m p \<Longrightarrow> bitmap_wf b \<Longrightarrow> bit_cnt b = bit_cnt (used_map p) \<Longrightarrow> pool_ok m (p\<lparr>used_map := b\<rparr>)"
  by (simp add: pool_ok_def)

lemma pool_pages_bitmap: "bit_cnt b = bit_cnt (used_map p) \<Longrightarrow> pool_pages (p\<lparr>used_map := b\<rparr>) = pool_pages p"
  by (simp add: pool_pages_def)

lemma palloc_ok_set_pool:
  assumes "palloc_ok ps" and "bitmap_wf b" and "bit_cnt b = bit_cnt (used_map (get_pool u ps))"
  shows "palloc_ok (set_pool u ((get_pool u ps)\<lparr>used_map := b\<rparr>) ps)"
  using assms by (cases u) (auto simp: palloc_ok_def set_pool_def get_pool_def pool_ok_bitmap pool_pages_bitmap)

lemma palloc_ok_pmem:
  assumes "palloc_ok ps" and "\<And>q n. mapped (pmem ps) q n \<Longrightarrow> mapped m' q n"
  shows "palloc_ok (ps\<lparr>pmem := m'\<rparr>)"
proof -
  have "pool_ok (pmem ps) (kernel_pool ps)" "pool_ok (pmem ps) (user_pool ps)"
    "pool_pages (kernel_pool ps) \<inter> pool_pages (user_pool ps) = {}"
    using assms(1) by (simp_all add: palloc_ok_def)
  then show ?thesis using pool_ok_mem [OF _ assms(2)] by (simp add: palloc_ok_def)
qed

lemma get_pool_ok: "palloc_ok ps \<Longrightarrow> pool_ok (pmem ps) (get_pool u ps)"
  by (simp add: palloc_ok_def get_pool_def)

lemma get_set_pool [simp]:
  "get_pool u (set_pool u p ps) = p" "u \<noteq> v \<Longrightarrow> get_pool v (set_pool u p ps) = get_pool v ps"
  "pmem (set_pool u p ps) = pmem ps" "get_pool u (ps\<lparr>pmem := m\<rparr>) = get_pool u ps"
  by (auto simp: get_pool_def set_pool_def)

text \<open>What a successful request for pages does.\<close>

definition got_pages :: "bool \<Rightarrow> u32 \<Rightarrow> nat \<Rightarrow> palloc \<Rightarrow> ptr \<Rightarrow> palloc \<Rightarrow> bool" where
  "got_pages u flags n ps p ps' \<longleftrightarrow> p \<noteq> 0 \<and> pg_ofs p = 0 \<and> in_space p (4096 * n) \<and> mapped (pmem ps) p (4096 * n) \<and>
     pages p n \<subseteq> pool_pages (get_pool u ps) \<and> pages p n \<inter> used_pages (get_pool u ps) = {} \<and>
     used_pages (get_pool u ps') = used_pages (get_pool u ps) \<union> pages p n \<and>
     get_pool (\<not> u) ps' = get_pool (\<not> u) ps \<and> pool_pages (get_pool u ps') = pool_pages (get_pool u ps) \<and>
     palloc_ok ps' \<and>
     pmem ps' = (if flags AND PAL_ZERO \<noteq> 0 then put (pmem ps) p (replicate (4096 * n) 0) else pmem ps)"

definition no_run :: "pool \<Rightarrow> nat \<Rightarrow> bool" where
  "no_run p n \<longleftrightarrow> (\<forall>i. \<not> run_at (bitmap_bits (used_map p)) i n False)"

lemma palloc_get_multiple_ok:
  assumes ps: "palloc_ok ps" and n: "cnt \<noteq> 0" and u: "u = (flags AND PAL_USER \<noteq> 0)"
  shows "if no_run (get_pool u ps) (unat cnt)
    then palloc_get_multiple ps flags cnt = (if flags AND PAL_ASSERT = 0 then Some (0, ps) else None)
    else \<exists>p ps'. palloc_get_multiple ps flags cnt = Some (p, ps') \<and> got_pages u flags (unat cnt) ps p ps'"
proof -
  let ?p = "get_pool u ps" and ?n = "unat cnt"
  have pok: "pool_ok (pmem ps) ?p" using get_pool_ok [OF ps] .
  note d = pool_okD [OF pok]
  have same: "set_pool u (?p\<lparr>used_map := used_map ?p\<rparr>) ps = ps" by (auto simp: set_pool_def get_pool_def)
  show ?thesis
  proof (cases "no_run ?p ?n")
    case True
    then have "bitmap_scan_and_flip (used_map ?p) 0 cnt False = Some (BITMAP_ERROR, used_map ?p)"
      using bm.alloc_fails_iff [OF d(1), of cnt] by (simp add: no_run_def)
    then show ?thesis
      using n True same by (auto simp: palloc_get_multiple_def u [symmetric] kassert_def)
  next
    case False
    obtain idx b where b: "bitmap_scan_and_flip (used_map ?p) 0 cnt False = Some (idx, b)" "bitmap_wf b"
      using bm.alloc_total [OF d(1)] by blast
    have ne: "idx \<noteq> BITMAP_ERROR"
    proof
      assume e: "idx = BITMAP_ERROR"
      obtain i where i: "first_run (bitmap_bits (used_map ?p)) 0 ?n False = Some i"
        using False by (cases "first_run (bitmap_bits (used_map ?p)) 0 ?n False")
          (auto simp: no_run_def first_run_None)
      show False using bm.alloc_first [OF d(1) i] b e by auto
    qed
    note a = bm.alloc_SomeD [OF d(1) b(1) ne]
    have bc: "bit_cnt b = bit_cnt (used_map ?p)"
      using bm.length_used_alloc [OF d(1) b(1)] by (simp add: u32_eq_iff)
    have le: "unat idx + ?n \<le> unat (bit_cnt (used_map ?p))" using a(1) by (simp add: run_at_def)
    have pos: "0 < ?n" using n by (simp add: unat_gt_0)
    note pa = page_address [OF pok le pos]
    let ?a = "base ?p + PGSIZE * idx"
    define ps1 where "ps1 = set_pool u (?p\<lparr>used_map := b\<rparr>) ps"
    have ok1: "palloc_ok ps1" unfolding ps1_def by (rule palloc_ok_set_pool [OF ps b(2) bc])
    have sz: "PGSIZE * cnt = of_nat (4096 * ?n)" by (simp add: PGSIZE_def)
    have ms: "memset (pmem ps1) ?a 0 (PGSIZE * cnt) = Some (?a, put (pmem ps) ?a (replicate (4096 * ?n) 0))"
      using memset_ok [OF pa(6,5), of 0] unfolding sz by (simp add: ps1_def)
    define ps2 where "ps2 = (if flags AND PAL_ZERO \<noteq> 0
      then ps1\<lparr>pmem := put (pmem ps) ?a (replicate (4096 * ?n) 0)\<rparr> else ps1)"
    have ok2: "palloc_ok ps2"
      using ok1 palloc_ok_pmem [OF ok1] mapped_put by (simp add: ps2_def ps1_def)
    have "palloc_get_multiple ps flags cnt = Some (?a, ps2)"
      using n b(1) ne pa(2) ms by (simp add: palloc_get_multiple_def u [symmetric] ps1_def [symmetric] ps2_def Let_def)
    moreover have "used_pages (get_pool u ps2) = used_pages ?p \<union> pages ?a ?n"
      using used_pages_fill [OF d(1) b(2) bc a(3) le refl] by (simp add: pa(4) ps2_def ps1_def add.assoc)
    moreover have "pages ?a ?n \<subseteq> pool_pages ?p" unfolding pa(4) pool_pages_def using le by (auto simp: pages_def)
    moreover have "pages ?a ?n \<inter> used_pages ?p = {}"
    proof (rule ccontr)
      assume "pages ?a ?n \<inter> used_pages ?p \<noteq> {}"
      then obtain i where i: "bitmap_bits (used_map ?p) ! i" "unat idx \<le> i" "i < unat idx + ?n"
        unfolding pa(4) used_pages_def by auto
      have "bitmap_bits (used_map ?p) ! (unat idx + k) = False" if "k < ?n" for k
        using a(1) that unfolding run_at_def by blast
      moreover have "i - unat idx < ?n" using i by linarith
      ultimately show False using i by fastforce
    qed
    ultimately show ?thesis
      using False pa ok2 bc by (auto simp: got_pages_def ps2_def ps1_def pool_pages_bitmap)
  qed
qed


lemma page_from_pool_iff:
  assumes p: "pool_ok m p"
  shows "page_from_pool p a \<longleftrightarrow> unat a div 4096 \<in> pool_pages p"
proof -
  note d = pool_okD [OF p]
  have "unat (pg_no (base p) + bit_cnt (used_map p)) = unat (base p) div 4096 + unat (bit_cnt (used_map p))"
    using d(3,4) by (simp add: unat_add_u32 unat_pg_no)
  then show ?thesis
    by (simp add: page_from_pool_def bitmap_size_def Let_def word_le_nat_alt word_less_nat_alt unat_pg_no
        pool_pages_def pages_def)
qed

lemma find_pool:
  assumes ps: "palloc_ok ps" and a: "unat a div 4096 \<in> pool_pages (get_pool u ps)"
  shows "(if page_from_pool (kernel_pool ps) a then Some False
     else if page_from_pool (user_pool ps) a then Some True else None) = Some u"
proof -
  have k: "pool_ok (pmem ps) (kernel_pool ps)" and us: "pool_ok (pmem ps) (user_pool ps)"
    and dis: "pool_pages (kernel_pool ps) \<inter> pool_pages (user_pool ps) = {}"
    using ps by (simp_all add: palloc_ok_def)
  show ?thesis using a dis page_from_pool_iff [OF k] page_from_pool_iff [OF us]
    by (cases u) (auto simp: get_pool_def)
qed

definition freed :: "bool \<Rightarrow> nat \<Rightarrow> palloc \<Rightarrow> ptr \<Rightarrow> palloc \<Rightarrow> bool" where
  "freed u n ps p ps' \<longleftrightarrow> palloc_ok ps' \<and> used_pages (get_pool u ps') = used_pages (get_pool u ps) - pages p n \<and>
     get_pool (\<not> u) ps' = get_pool (\<not> u) ps \<and> pool_pages (get_pool u ps') = pool_pages (get_pool u ps) \<and>
     pmem ps' = put (pmem ps) p (replicate (4096 * n) 0xcc)"

lemma palloc_free_multiple_ok:
  assumes ps: "palloc_ok ps" and a: "a \<noteq> 0" "pg_ofs a = 0" and n: "cnt \<noteq> 0"
    and sub: "pages a (unat cnt) \<subseteq> pool_pages (get_pool u ps)"
  shows "if pages a (unat cnt) \<subseteq> used_pages (get_pool u ps)
    then \<exists>ps'. palloc_free_multiple ps a cnt = Some ps' \<and> freed u (unat cnt) ps a ps'
    else palloc_free_multiple ps a cnt = None"
proof -
  let ?p = "get_pool u ps" and ?n = "unat cnt" and ?B = "unat (base (get_pool u ps)) div 4096"
  let ?idx = "pg_no a - pg_no (base ?p)"
  have pok: "pool_ok (pmem ps) ?p" using get_pool_ok [OF ps] .
  note d = pool_okD [OF pok]
  have pos: "0 < ?n" using n by (simp add: unat_gt_0)
  then have ends: "unat a div 4096 \<in> pages a ?n" "unat a div 4096 + ?n - 1 \<in> pages a ?n" by (auto simp: pages_def)
  then have r: "?B \<le> unat a div 4096" "unat a div 4096 + ?n \<le> ?B + unat (bit_cnt (used_map ?p))"
    using sub pos by (auto simp: pool_pages_def pages_def)
  have ui: "unat ?idx = unat a div 4096 - ?B"
    using r(1) by (simp add: unat_sub_u32 word_le_nat_alt unat_pg_no)
  have le: "unat ?idx + ?n \<le> unat (bit_cnt (used_map ?p))" using r ui by linarith
  note pa = page_address [OF pok le pos]
  have "unat (base ?p + PGSIZE * ?idx) = unat a"
    using pa(1) ui r(1) d(3) aligned_unat [OF a(2)] by (simp add: diff_mult_distrib2)
  then have ad: "base ?p + PGSIZE * ?idx = a" by (simp add: u32_eq_iff)
  note pa = pa [unfolded ad]
  have pool: "(if page_from_pool (kernel_pool ps) a then Some False
     else if page_from_pool (user_pool ps) a then Some True else None) = Some u"
    using find_pool [OF ps] sub ends(1) by blast
  let ?m = "put (pmem ps) a (replicate (4096 * ?n) 0xcc)"
  have ms: "memset (pmem ps) a 0xcc (PGSIZE * cnt) = Some (a, ?m)"
    using memset_ok [OF pa(6,5), of "0xcc"] by (simp add: PGSIZE_def)
  have unf: "palloc_free_multiple ps a cnt = do { um \<leftarrow> release_range (used_map ?p) ?idx cnt;
      Some (set_pool u (?p\<lparr>used_map := um\<rparr>) (ps\<lparr>pmem := ?m\<rparr>)) }"
    using a n pool ms by (simp add: palloc_free_multiple_def release_range_def Let_def)
  have run: "run_at (bitmap_bits (used_map ?p)) (unat ?idx) ?n True \<longleftrightarrow> pages a ?n \<subseteq> used_pages ?p"
  proof
    assume "run_at (bitmap_bits (used_map ?p)) (unat ?idx) ?n True"
    then have "bitmap_bits (used_map ?p) ! (unat ?idx + k)" if "k < ?n" for k using that by (simp add: run_at_def)
    then have *: "bitmap_bits (used_map ?p) ! k" if "unat ?idx \<le> k" "k < unat ?idx + ?n" for k
      using that by (metis le_Suc_ex add_less_cancel_left)
    show "pages a ?n \<subseteq> used_pages ?p"
    proof
      fix x assume "x \<in> pages a ?n"
      then have "?B + unat ?idx \<le> x" "x < ?B + unat ?idx + ?n" by (auto simp: pa(4))
      then show "x \<in> used_pages ?p"
        using * [of "x - ?B"] le unfolding used_pages_def by (intro image_eqI [of _ _ "x - ?B"]) auto
    qed
  next
    assume s: "pages a ?n \<subseteq> used_pages ?p"
    have "bitmap_bits (used_map ?p) ! (unat ?idx + k)" if "k < ?n" for k
    proof -
      have "?B + (unat ?idx + k) \<in> pages a ?n" using that by (simp add: pa(4))
      then show ?thesis using s unfolding used_pages_def by auto
    qed
    then show "run_at (bitmap_bits (used_map ?p)) (unat ?idx) ?n True" using le by (simp add: run_at_def)
  qed
  show ?thesis
  proof (cases "pages a ?n \<subseteq> used_pages ?p")
    case True
    then obtain b where b: "release_range (used_map ?p) ?idx cnt = Some b" "bitmap_wf b"
      "bit_cnt b = bit_cnt (used_map ?p)" "bitmap_bits b = fill (bitmap_bits (used_map ?p)) (unat ?idx) ?n False"
      using release_range_eq [OF d(1) le] run by auto
    have ok1: "palloc_ok (ps\<lparr>pmem := ?m\<rparr>)" using palloc_ok_pmem [OF ps] mapped_put by blast
    have "palloc_ok (set_pool u (?p\<lparr>used_map := b\<rparr>) (ps\<lparr>pmem := ?m\<rparr>))"
      using palloc_ok_set_pool [OF ok1 b(2), of u] b(3) by simp
    moreover have "used_pages (?p\<lparr>used_map := b\<rparr>) = used_pages ?p - pages a ?n"
      using used_pages_fill [OF d(1) b(2,3,4) le refl] by (simp add: pa(4) add.assoc)
    ultimately show ?thesis
      using True unf b(1,3) by (auto simp: freed_def pool_pages_bitmap)
  next
    case False
    then have "release_range (used_map ?p) ?idx cnt = None"
      using release_range_eq [OF d(1) le] run by auto
    then show ?thesis using False unf by simp
  qed
qed


lemma pool_pages_nonzero:
  assumes "pool_ok m p" "pages a n \<subseteq> pool_pages p" "0 < n"
  shows "a \<noteq> 0"
proof
  assume "a = 0"
  then have "(0::nat) \<in> pool_pages p" using assms(2,3) by (auto simp: pages_def)
  then have "unat (base p) div 4096 = 0" by (simp add: pool_pages_def pages_def)
  then have "unat (base p) = 0" using pool_okD(3) [OF assms(1)] by simp
  then show False using pool_okD(2) [OF assms(1)] by (simp add: unat_eq_0)
qed

lemma used_pages_subset: "used_pages p \<subseteq> pool_pages p"
  by (auto simp: used_pages_def pool_pages_def pages_def)

subsection \<open>The interface the allocator gives to its clients\<close>

text \<open>A source of pages: a request either changes nothing and returns a null pointer, or returns an aligned
  run of pages none of which is in use, and marks them; pages in use can be given back.\<close>

locale page_source =
  fixes ok :: "'s \<Rightarrow> bool"
    and used :: "'s \<Rightarrow> nat set"
    and get :: "'s \<Rightarrow> size_t \<Rightarrow> (ptr \<times> 's) option"
    and give :: "'s \<Rightarrow> ptr \<Rightarrow> size_t \<Rightarrow> 's option"
  assumes get_law: "ok s \<Longrightarrow> n \<noteq> 0 \<Longrightarrow> \<exists>p s'. get s n = Some (p, s') \<and> ok s' \<and>
      (if p = 0 then s' = s
       else pg_ofs p = 0 \<and> in_space p (4096 * unat n) \<and>
         pages p (unat n) \<inter> used s = {} \<and> used s' = used s \<union> pages p (unat n))"
    and give_law: "ok s \<Longrightarrow> pg_ofs p = 0 \<Longrightarrow> n \<noteq> 0 \<Longrightarrow> pages p (unat n) \<subseteq> used s \<Longrightarrow>
      \<exists>s'. give s p n = Some s' \<and> ok s' \<and> used s' = used s - pages p (unat n)"
begin

lemma get_disjoint:
  assumes "ok s" "n \<noteq> 0" "k \<noteq> 0" "get s n = Some (p, s')" "get s' k = Some (q, s'')" "p \<noteq> 0" "q \<noteq> 0"
  shows "pages p (unat n) \<inter> pages q (unat k) = {}"
proof -
  have 1: "ok s'" "used s' = used s \<union> pages p (unat n)" using get_law [OF assms(1,2)] assms(4,6) by auto
  have "pages q (unat k) \<inter> used s' = {}" using get_law [OF 1(1) assms(3)] assms(5,7) by auto
  then show ?thesis using 1(2) by blast
qed

lemma get_give:
  assumes "ok s" "n \<noteq> 0" "get s n = Some (p, s')" "p \<noteq> 0"
  shows "\<exists>s''. give s' p n = Some s'' \<and> ok s'' \<and> used s'' = used s"
proof -
  have 1: "ok s'" "used s' = used s \<union> pages p (unat n)" "pg_ofs p = 0" "pages p (unat n) \<inter> used s = {}"
    using get_law [OF assms(1,2)] assms(3,4) by auto
  have "pages p (unat n) \<subseteq> used s'" using 1(2) by blast
  from give_law [OF 1(1,3) assms(2) this] show ?thesis using 1(2,4) by blast
qed

end

lemma palloc_get_law:
  assumes ps: "palloc_ok ps" and n: "n \<noteq> 0" and u: "u = (flags AND PAL_USER \<noteq> 0)"
    and fl: "flags AND PAL_ASSERT = 0"
  shows "\<exists>p s'. palloc_get_multiple ps flags n = Some (p, s') \<and> palloc_ok s' \<and>
      (if p = 0 then s' = ps
       else pg_ofs p = 0 \<and> in_space p (4096 * unat n) \<and> pages p (unat n) \<inter> used_pages (get_pool u ps) = {} \<and>
         used_pages (get_pool u s') = used_pages (get_pool u ps) \<union> pages p (unat n))"
proof (cases "no_run (get_pool u ps) (unat n)")
  case True
  then show ?thesis using palloc_get_multiple_ok [OF ps n u] fl ps by simp
next
  case False
  then obtain p s' where "palloc_get_multiple ps flags n = Some (p, s')" "got_pages u flags (unat n) ps p s'"
    using palloc_get_multiple_ok [OF ps n u] by auto
  then show ?thesis by (intro exI [of _ p] exI [of _ s']) (simp add: got_pages_def)
qed

lemma palloc_give_law:
  assumes ps: "palloc_ok ps" and "pg_ofs p = 0" and n: "n \<noteq> 0"
    and sub: "pages p (unat n) \<subseteq> used_pages (get_pool u ps)"
  shows "\<exists>s'. palloc_free_multiple ps p n = Some s' \<and> palloc_ok s' \<and>
    used_pages (get_pool u s') = used_pages (get_pool u ps) - pages p (unat n)"
proof -
  have s: "pages p (unat n) \<subseteq> pool_pages (get_pool u ps)" using sub used_pages_subset by blast
  have "p \<noteq> 0" using pool_pages_nonzero [OF get_pool_ok [OF ps] s] n by (simp add: unat_gt_0)
  from palloc_free_multiple_ok [OF ps this assms(2) n s] show ?thesis using sub by (auto simp: freed_def)
qed

interpretation kp: page_source palloc_ok "\<lambda>ps. used_pages (get_pool False ps)"
  "\<lambda>ps. palloc_get_multiple ps 0" palloc_free_multiple
  by unfold_locales (rule palloc_get_law palloc_give_law; simp)+

interpretation up: page_source palloc_ok "\<lambda>ps. used_pages (get_pool True ps)"
  "\<lambda>ps. palloc_get_multiple ps PAL_USER" palloc_free_multiple
  by unfold_locales (rule palloc_get_law palloc_give_law; simp add: PAL_USER_def PAL_ASSERT_def)+


subsection \<open>The pools after initialisation\<close>

definition bm_pages :: "nat \<Rightarrow> nat" where
  "bm_pages n = (8 + 4 * ((n + 31) div 32) + 4095) div 4096"

lemma bm_pages_le: "0 < n \<Longrightarrow> bm_pages n \<le> n" and bm_pages_pos: "0 < bm_pages n"
  by (simp_all add: bm_pages_def)

lemma unat_bm_pages:
  assumes "unat n < 2 ^ 20"
  shows "unat (DIV_ROUND_UP (bitmap_buf_size n) PGSIZE) = bm_pages (unat n)"
    and "unat (bitmap_buf_size n) = 8 + 4 * ((unat n + 31) div 32)"
proof -
  have 1: "unat (n + 31) = unat n + 31" using assms by (simp add: unat_add_u32)
  have 2: "(unat n + 31) div 32 < 2 ^ 20" using assms by simp
  show 3: "unat (bitmap_buf_size n) = 8 + 4 * ((unat n + 31) div 32)"
    using 1 2 by (simp add: bitmap_buf_size_def byte_cnt_def elem_cnt_def ELEM_BITS_def unat_add_u32 unat_mult_u32 unat_div)
  show "unat (DIV_ROUND_UP (bitmap_buf_size n) PGSIZE) = bm_pages (unat n)"
    using 2 by (simp add: DIV_ROUND_UP_def PGSIZE_def unat_div unat_add_u32 3 bm_pages_def)
qed


lemma init_pool_ok:
  assumes bs: "bs \<noteq> 0" "pg_ofs bs = 0" "unat bs + 4096 * unat n < 2 ^ 32" and m: "mapped m bs (4096 * unat n)"
    and es: "length es = (unat n - bm_pages (unat n) + 31) div 32"
  shows "if n = 0 then init_pool bs n es = None
    else \<exists>p. init_pool bs n es = Some p \<and> pool_ok m p \<and> used_pages p = {} \<and>
      pool_pages p = {unat bs div 4096 + bm_pages (unat n) ..< unat bs div 4096 + unat n}"
proof -
  have n20: "unat n < 2 ^ 20" using bs(3) by simp
  let ?b = "DIV_ROUND_UP (bitmap_buf_size n) PGSIZE"
  note ub = unat_bm_pages [OF n20]
  show ?thesis
  proof (cases "n = 0")
    case True
    then have "unat ?b = bm_pages 0" using ub by simp
    then have "n < ?b" using True bm_pages_pos [of 0] by (simp add: word_less_nat_alt)
    then show ?thesis using True by (simp add: init_pool_def Let_def word_gt_0)
  next
    case False
    then have le: "bm_pages (unat n) \<le> unat n" using bm_pages_le by (simp add: unat_gt_0)
    have le': "?b \<le> n" using ub(1) le by (simp add: word_le_nat_alt)
    have un: "unat (n - ?b) = unat n - bm_pages (unat n)" using le' ub(1) by (simp add: unat_sub_u32)
    have ubp: "unat (?b * PGSIZE) = 4096 * bm_pages (unat n)"
      using le n20 ub(1) by (simp add: unat_mult_u32 PGSIZE_def)
    have "unat (bitmap_buf_size (n - ?b)) \<le> unat (bitmap_buf_size n)"
      using unat_bm_pages(2) [of "n - ?b"] ub(2) un n20 by (simp add: div_le_mono)
    also have "\<dots> \<le> unat (?b * PGSIZE)" unfolding ubp ub(2) bm_pages_def by linarith
    finally have fits: "bitmap_buf_size (n - ?b) \<le> ?b * PGSIZE" by (simp add: word_le_nat_alt)
    have lt: "unat n - bm_pages (unat n) + 31 < 2 ^ 32" using n20 by simp
    obtain b where b: "bitmap_create_in_buf (n - ?b) es (?b * PGSIZE) = Some b" "bitmap_wf b" "bit_cnt b = n - ?b"
      "bitmap_bits b = replicate (unat n - bm_pages (unat n)) False"
      using bitmap_create_in_buf_bits [of "n - ?b" es, OF _ _ fits] un es lt by auto
    let ?p = "\<lparr>used_map = b, base = bs + ?b * PGSIZE\<rparr>"
    have ba: "unat (base ?p) = unat bs + 4096 * bm_pages (unat n)" using bs(3) le by (simp add: unat_add_u32 ubp)
    have eq: "init_pool bs n es = Some ?p" using le' b(1) by (simp add: init_pool_def Let_def not_less)
    have d: "unat (base ?p) div 4096 = unat bs div 4096 + bm_pages (unat n)" unfolding ba by simp
    have "pg_ofs (base ?p) = 0" using unat_pg_ofs [of "base ?p", unfolded ba] unat_pg_ofs [of bs] bs(2)
      by (simp add: unat_eq_0 [symmetric])
    moreover have "mapped m (base ?p) (4096 * unat (bit_cnt (used_map ?p)))"
    proof -
      have "of_nat (4096 * bm_pages (unat n)) = ?b * PGSIZE" unfolding ubp [symmetric] by simp
      then show ?thesis
        using mapped_offset [OF m, of "4096 * bm_pages (unat n)" "4096 * (unat n - bm_pages (unat n))"] le b(3) un by simp
    qed
    moreover have "base ?p \<noteq> 0" using ba bs(1) by (metis add_is_0 unat_eq_0)
    ultimately have "pool_ok m ?p" using b(2,3) ba un bs(3) le by (simp add: pool_ok_def)
    moreover have "used_pages ?p = {}" using b(3,4) un by (auto simp: used_pages_def)
    moreover have "pool_pages ?p = {unat bs div 4096 + bm_pages (unat n) ..< unat bs div 4096 + unat n}"
      using d b(3) un le unfolding pool_pages_def pages_def by simp
    ultimately show ?thesis using eq False by auto
  qed
qed


definition user_share :: "nat \<Rightarrow> nat \<Rightarrow> nat" where
  "user_share n limit = min (n div 2) limit"

lemma unat_page_offset:
  assumes "unat a = 4096 * q" "unat k = n" "4096 * (q + n) < 2 ^ 32"
  shows "unat (a + k * PGSIZE) = 4096 * (q + n)"
  using assms by (simp add: unat_add_u32 unat_mult_u32 PGSIZE_def)

lemma palloc_init_ok:
  assumes k: "unat PHYS_BASE < unat kernel_end" "pg_ofs kernel_end = 0" "unat kernel_end \<le> unat PHYS_BASE + 4096 * unat ram"
    and r: "4096 * unat ram < 2 ^ 30"
    and tot: "tot = unat ram - (unat kernel_end - unat PHYS_BASE) div 4096"
    and m: "mapped m kernel_end (4096 * tot)"
    and u: "un = user_share tot (unat limit)" "0 < un"
    and ks: "length ks = (tot - un - bm_pages (tot - un) + 31) div 32" and us: "length us = (un - bm_pages un + 31) div 32"
  shows "\<exists>ps. palloc_init kernel_end ram limit ks us m = Some ps \<and> palloc_ok ps \<and> pmem ps = m \<and>
    used_pages (kernel_pool ps) = {} \<and> used_pages (user_pool ps) = {} \<and>
    card (pool_pages (kernel_pool ps)) = tot - un - bm_pages (tot - un) \<and>
    card (pool_pages (user_pool ps)) = un - bm_pages un"
proof -
  have PB: "unat PHYS_BASE = 4096 * 786432" by (simp add: PHYS_BASE_def)
  obtain q where q: "unat kernel_end = 4096 * q" using aligned_unat [OF k(2)] by blast
  have tq: "tot = unat ram + 786432 - q" "q \<le> unat ram + 786432" "786432 < q" using k(1,3) tot q PB by auto
  have up: "pg_round_up kernel_end = kernel_end"
    using r q tq by (simp add: u32_eq_iff unat_pg_round_up)
  have mr: "unat (ram * PGSIZE) = 4096 * unat ram" using r by (simp add: unat_mult_u32 PGSIZE_def)
  then have pt: "ptov (ram * PGSIZE) = Some (ram * PGSIZE + PHYS_BASE)"
    using r PB by (simp add: ptov_def word_less_nat_alt)
  have e: "unat (ram * PGSIZE + PHYS_BASE) = 4096 * (unat ram + 786432)" using mr PB r by (simp add: unat_add_u32)
  let ?f = "(ram * PGSIZE + PHYS_BASE - kernel_end) div PGSIZE"
  have "unat (ram * PGSIZE + PHYS_BASE - kernel_end) = 4096 * tot"
    using tq e q by (simp add: unat_sub_u32 word_le_nat_alt diff_mult_distrib2)
  then have f: "unat ?f = tot" by (simp add: unat_div PGSIZE_def)
  let ?u = "if ?f div 2 > limit then limit else ?f div 2"
  have uu: "unat ?u = un" using f u by (simp add: unat_div word_less_nat_alt user_share_def)
  have le: "un \<le> tot div 2" using u by (simp add: user_share_def)
  have kk: "unat (?f - ?u) = tot - un" using f uu le by (simp add: unat_sub_u32 word_le_nat_alt)
  have pos: "0 < tot - un" using le u(2) by linarith
  have kz: "kernel_end \<noteq> 0" using q tq by (auto simp: u32_eq_iff)
  have b1: "unat kernel_end + 4096 * unat (?f - ?u) < 2 ^ 32" using kk q tq r by simp
  have kb: "unat (kernel_end + (?f - ?u) * PGSIZE) = 4096 * (q + (tot - un))"
    using unat_page_offset [OF q kk] tq r by simp
  have kb': "kernel_end + (?f - ?u) * PGSIZE \<noteq> 0" "pg_ofs (kernel_end + (?f - ?u) * PGSIZE) = 0"
    "unat (kernel_end + (?f - ?u) * PGSIZE) + 4096 * unat ?u < 2 ^ 32"
    using kb unat_pg_ofs [of "kernel_end + (?f - ?u) * PGSIZE"] uu le tq r by (auto simp: u32_eq_iff)
  have m1: "mapped m kernel_end (4096 * unat (?f - ?u))" using m kk mapped_offset [OF m, of 0] by simp
  have "of_nat (4096 * (tot - un)) = (?f - ?u) * PGSIZE" unfolding kk [symmetric] by (simp add: PGSIZE_def mult.commute)
  then have m2: "mapped m (kernel_end + (?f - ?u) * PGSIZE) (4096 * unat ?u)"
    using mapped_offset [OF m, of "4096 * (tot - un)" "4096 * un"] uu le by simp
  obtain kp where kp: "init_pool kernel_end (?f - ?u) ks = Some kp" "pool_ok m kp" "used_pages kp = {}"
    "pool_pages kp = {q + bm_pages (tot - un) ..< q + (tot - un)}"
    using init_pool_ok [OF kz k(2) b1 m1, of ks] kk pos ks q by (cases "?f - ?u = 0") auto
  obtain up' where up': "init_pool (kernel_end + (?f - ?u) * PGSIZE) ?u us = Some up'" "pool_ok m up'" "used_pages up' = {}"
    "pool_pages up' = {q + (tot - un) + bm_pages un ..< q + (tot - un) + un}"
    using init_pool_ok [OF kb' m2, of us] uu u(2) us kb by (cases "?u = 0") auto
  have "palloc_init kernel_end ram limit ks us m = Some \<lparr>kernel_pool = kp, user_pool = up', pmem = m\<rparr>"
    using kp(1) up'(1) pt unfolding palloc_init_def up Let_def by simp
  then show ?thesis using kp up' by (auto simp: palloc_ok_def)
qed

text \<open>C15. The page allocator hands out pages exclusively: a request for a nonzero number of pages fails (null, or a panic with
  \<^verbatim>\<open>PAL_ASSERT\<close>) exactly when the selected pool has no run of that many free pages; otherwise it returns an
  aligned run of pages of that pool, none of which was in use, marks just these, leaves the other pool
  alone and fills them with zeros if asked to. Giving the pages back makes both pools as
  they were, and giving them back twice is caught by the assertion.\<close>

theorem palloc_exclusive:
  assumes "palloc_ok ps" and "cnt \<noteq> 0" and "u = (flags AND PAL_USER \<noteq> 0)"
  shows "if no_run (get_pool u ps) (unat cnt)
    then palloc_get_multiple ps flags cnt = (if flags AND PAL_ASSERT = 0 then Some (0, ps) else None)
    else \<exists>p ps' ps''. palloc_get_multiple ps flags cnt = Some (p, ps') \<and> got_pages u flags (unat cnt) ps p ps' \<and>
      palloc_free_multiple ps' p cnt = Some ps'' \<and> palloc_ok ps'' \<and>
      (\<forall>v. used_pages (get_pool v ps'') = used_pages (get_pool v ps)) \<and>
      palloc_free_multiple ps'' p cnt = None"
proof (cases "no_run (get_pool u ps) (unat cnt)")
  case False
  then obtain p ps' where g: "palloc_get_multiple ps flags cnt = Some (p, ps')" "got_pages u flags (unat cnt) ps p ps'"
    using palloc_get_multiple_ok [OF assms] by auto
  have p: "palloc_ok ps'" "p \<noteq> 0" "pg_ofs p = 0" "pages p (unat cnt) \<subseteq> pool_pages (get_pool u ps')"
    "pages p (unat cnt) \<subseteq> used_pages (get_pool u ps')"
    using g(2) by (auto simp: got_pages_def)
  obtain ps'' where f: "palloc_free_multiple ps' p cnt = Some ps''" "freed u (unat cnt) ps' p ps''"
    using palloc_free_multiple_ok [OF p(1-3) assms(2) p(4)] p(5) by auto
  have q: "palloc_ok ps''" "pages p (unat cnt) \<subseteq> pool_pages (get_pool u ps'')"
    "used_pages (get_pool u ps'') = used_pages (get_pool u ps)" "get_pool (\<not> u) ps'' = get_pool (\<not> u) ps"
    using f(2) g(2) by (auto simp: freed_def got_pages_def)
  have ne: "\<not> pages p (unat cnt) \<subseteq> used_pages (get_pool u ps'')"
  proof -
    have "unat p div 4096 \<in> pages p (unat cnt)" using assms(2) by (simp add: pages_def unat_gt_0)
    then show ?thesis using g(2) q(3) by (auto simp: got_pages_def)
  qed
  have "palloc_free_multiple ps'' p cnt = None"
    using palloc_free_multiple_ok [OF q(1) p(2,3) assms(2) q(2)] ne by simp
  moreover have "used_pages (get_pool v ps'') = used_pages (get_pool v ps)" for v
    using q(3,4) by (cases "v = u") auto
  ultimately show ?thesis using False g f q by auto
qed (use palloc_get_multiple_ok [OF assms] in simp)


definition two_pools :: palloc where
  "two_pools = \<lparr>kernel_pool = \<lparr>used_map = \<lparr>bit_cnt = 4, bits = [1]\<rparr>, base = 0xc0100000\<rparr>,
     user_pool = \<lparr>used_map = \<lparr>bit_cnt = 4, bits = [0]\<rparr>, base = 0xc0200000\<rparr>, pmem = \<lambda>_. Some 0\<rparr>"

theorem palloc_exclusive_witness:
  "palloc_ok two_pools \<and> (\<exists>p ps' ps''. palloc_get_multiple two_pools 2 2 = Some (p, ps') \<and>
     got_pages False 2 2 two_pools p ps' \<and> palloc_free_multiple ps' p 2 = Some ps'' \<and>
     palloc_free_multiple ps'' p 2 = None)"
proof -
  have ok: "palloc_ok two_pools"
    by (simp add: palloc_ok_def two_pools_def pool_ok_def bitmap_wf_def mapped_def pool_pages_def pages_def
        pg_ofs_def PGMASK_def BITMASK_def PGBITS_def)
  have "run_at (bitmap_bits \<lparr>bit_cnt = 4, bits = [1]\<rparr>) 1 2 False"
    by code_simp
  then have "\<not> no_run (get_pool False two_pools) 2"
    unfolding no_run_def get_pool_def two_pools_def by auto
  then show ?thesis
    using palloc_exclusive [OF ok, of 2 False 2] ok by (auto simp: PAL_USER_def)
qed


end
