(* ===== verification/Malloc.thy ===== *)
theory Malloc
  imports Palloc
begin

section \<open>The block allocator (threads/malloc.c)\<close>

text \<open>
  Blocks of a few sizes are cut from one-page arenas, bigger ones get pages of their own.
  The state has the descriptors with their free lists, the arena headers by the address of their page, and
  the page allocator with the memory. An arena header is a separate object of the model: a page given back to the
  page allocator, which overwrites it, has none. Free lists hold the addresses of the
  free blocks, so that the bytes of a free block, where the code keeps the links, mean nothing here.
  A descriptor's lock makes each operation one step. The theory shows that blocks in
  use never overlap each other or an arena header.
\<close>

record desc =
  block_size :: size_t
  blocks_per_arena :: size_t
  free_list :: "ptr list"

record arena =
  magic :: u32
  arena_desc :: "nat option"
  free_cnt :: size_t

record heap =
  descs :: "desc list"
  arenas :: "ptr \<Rightarrow> arena option"
  pal :: palloc

definition ARENA_MAGIC :: u32 where "ARENA_MAGIC = 0x9a548eed"

definition sizeof_arena :: size_t where "sizeof_arena = 12"

text \<open>\<open>descs\<close> has room for ten descriptors; \<open>desc_cnt\<close> is the length of the list.\<close>

function init_loop :: "size_t \<Rightarrow> desc list \<Rightarrow> desc list option" where
  "init_loop sz ds =
    (if sz < PGSIZE div 2
     then if length ds + 1 \<le> 10
       then init_loop (sz * 2)
         (ds @ [\<lparr>block_size = sz, blocks_per_arena = (PGSIZE - sizeof_arena) div sz, free_list = []\<rparr>])
       else None
     else Some ds)"
  by auto
termination by (relation "measure (\<lambda>(sz, ds). 10 - length ds)") auto

declare init_loop.simps [simp del]

definition malloc_init :: "palloc \<Rightarrow> heap option" where
  "malloc_init ps = do { ds \<leftarrow> init_loop 16 []; Some \<lparr>descs = ds, arenas = \<lambda>_. None, pal = ps\<rparr> }"

definition desc_of :: "heap \<Rightarrow> nat \<Rightarrow> desc option" where
  "desc_of h i = (if i < length (descs h) then Some (descs h ! i) else None)"

definition set_desc :: "nat \<Rightarrow> desc \<Rightarrow> heap \<Rightarrow> heap" where
  "set_desc i d h = h\<lparr>descs := (descs h)[i := d]\<rparr>"

definition block_to_arena :: "heap \<Rightarrow> ptr \<Rightarrow> (ptr \<times> arena) option" where
  "block_to_arena h b = do {
     let a = pg_round_down b;
     kassert (a \<noteq> 0);
     ar \<leftarrow> arenas h a;
     kassert (magic ar = ARENA_MAGIC);
     case arena_desc ar of
       Some i \<Rightarrow> do {
         d \<leftarrow> desc_of h i;
         kassert (block_size d \<noteq> 0);
         kassert ((pg_ofs b - sizeof_arena) mod block_size d = 0);
         Some (a, ar)
       }
     | None \<Rightarrow> do { kassert (pg_ofs b = sizeof_arena); Some (a, ar) }
   }"

definition arena_to_block :: "heap \<Rightarrow> ptr \<Rightarrow> size_t \<Rightarrow> ptr option" where
  "arena_to_block h a idx = do {
     kassert (a \<noteq> 0);
     ar \<leftarrow> arenas h a;
     kassert (magic ar = ARENA_MAGIC);
     i \<leftarrow> arena_desc ar;
     d \<leftarrow> desc_of h i;
     kassert (idx < blocks_per_arena d);
     Some (a + sizeof_arena + idx * block_size d)
   }"

primrec push_blocks :: "nat \<Rightarrow> ptr \<Rightarrow> nat list \<Rightarrow> heap \<Rightarrow> heap option" where
  "push_blocks i a [] h = Some h"
| "push_blocks i a (k # ks) h = do {
     b \<leftarrow> arena_to_block h a (of_nat k);
     d \<leftarrow> desc_of h i;
     push_blocks i a ks (set_desc i (d\<lparr>free_list := free_list d @ [b]\<rparr>) h)
   }"

definition new_arena :: "nat \<Rightarrow> heap \<Rightarrow> (bool \<times> heap) option" where
  "new_arena i h = do {
     d \<leftarrow> desc_of h i;
     (a, ps) \<leftarrow> palloc_get_page (pal h) 0;
     let h = h\<lparr>pal := ps\<rparr>;
     if a = 0 then Some (False, h)
     else do {
       let h = h\<lparr>arenas := (arenas h)(a \<mapsto>
         \<lparr>magic = ARENA_MAGIC, arena_desc = Some i, free_cnt = blocks_per_arena d\<rparr>)\<rparr>;
       h \<leftarrow> push_blocks i a [0..<unat (blocks_per_arena d)] h;
       Some (True, h)
     }
   }"

definition pop_block :: "nat \<Rightarrow> heap \<Rightarrow> (ptr \<times> heap) option" where
  "pop_block i h = do {
     d \<leftarrow> desc_of h i;
     case free_list d of
       [] \<Rightarrow> None
     | b # bs \<Rightarrow> do {
         let h = set_desc i (d\<lparr>free_list := bs\<rparr>) h;
         (a, ar) \<leftarrow> block_to_arena h b;
         Some (b, h\<lparr>arenas := (arenas h)(a \<mapsto> ar\<lparr>free_cnt := free_cnt ar - 1\<rparr>)\<rparr>)
       }
   }"

fun find_desc :: "size_t \<Rightarrow> nat \<Rightarrow> desc list \<Rightarrow> nat" where
  "find_desc sz i [] = i"
| "find_desc sz i (d # ds) = (if block_size d \<ge> sz then i else find_desc sz (i + 1) ds)"

definition malloc :: "heap \<Rightarrow> size_t \<Rightarrow> (ptr \<times> heap) option" where
  "malloc h sz =
    (if sz = 0 then Some (0, h)
     else do {
       let i = find_desc sz 0 (descs h);
       if i = length (descs h) then do {
         let page_cnt = DIV_ROUND_UP (sz + sizeof_arena) PGSIZE;
         (a, ps) \<leftarrow> palloc_get_multiple (pal h) 0 page_cnt;
         let h = h\<lparr>pal := ps\<rparr>;
         if a = 0 then Some (0, h)
         else Some (a + sizeof_arena, h\<lparr>arenas := (arenas h)(a \<mapsto>
           \<lparr>magic = ARENA_MAGIC, arena_desc = None, free_cnt = page_cnt\<rparr>)\<rparr>)
       }
       else do {
         d \<leftarrow> desc_of h i;
         (ok, h) \<leftarrow> (if free_list d = [] then new_arena i h else Some (True, h));
         if \<not> ok then Some (0, h) else pop_block i h
       }
     })"

definition calloc :: "heap \<Rightarrow> size_t \<Rightarrow> size_t \<Rightarrow> (ptr \<times> heap) option" where
  "calloc h a b = do {
     let sz = a * b;
     if sz < a \<or> sz < b then Some (0, h)
     else do {
       (p, h) \<leftarrow> malloc h sz;
       if p \<noteq> 0
       then do { (_, m) \<leftarrow> memset (pmem (pal h)) p 0 sz; Some (p, h\<lparr>pal := (pal h)\<lparr>pmem := m\<rparr>\<rparr>) }
       else Some (p, h)
     }
   }"

definition allocated_size :: "heap \<Rightarrow> ptr \<Rightarrow> size_t option" where
  "allocated_size h b = do {
     (a, ar) \<leftarrow> block_to_arena h b;
     case arena_desc ar of
       Some i \<Rightarrow> do { d \<leftarrow> desc_of h i; Some (block_size d) }
     | None \<Rightarrow> Some (PGSIZE * free_cnt ar - pg_ofs b)
   }"

text \<open>Removing an element that is in no list writes through its stale links; in the model this is \<^term>\<open>None\<close>.\<close>

primrec remove_blocks :: "nat \<Rightarrow> ptr \<Rightarrow> nat list \<Rightarrow> heap \<Rightarrow> heap option" where
  "remove_blocks i a [] h = Some h"
| "remove_blocks i a (k # ks) h = do {
     b \<leftarrow> arena_to_block h a (of_nat k);
     d \<leftarrow> desc_of h i;
     kassert (b \<in> set (free_list d));
     remove_blocks i a ks (set_desc i (d\<lparr>free_list := remove1 b (free_list d)\<rparr>) h)
   }"

definition free_pages :: "ptr \<Rightarrow> size_t \<Rightarrow> heap \<Rightarrow> heap option" where
  "free_pages a cnt h = do {
     ps \<leftarrow> palloc_free_multiple (pal h) a cnt;
     Some (h\<lparr>pal := ps, arenas := (arenas h)(a := None)\<rparr>)
   }"

definition free :: "heap \<Rightarrow> ptr \<Rightarrow> heap option" where
  "free h p =
    (if p = 0 then Some h
     else do {
       (a, ar) \<leftarrow> block_to_arena h p;
       case arena_desc ar of
         Some i \<Rightarrow> do {
           d \<leftarrow> desc_of h i;
           (_, m) \<leftarrow> memset (pmem (pal h)) p 0xcc (block_size d);
           let ar = ar\<lparr>free_cnt := free_cnt ar + 1\<rparr>;
           let h = set_desc i (d\<lparr>free_list := p # free_list d\<rparr>)
             (h\<lparr>pal := (pal h)\<lparr>pmem := m\<rparr>, arenas := (arenas h)(a \<mapsto> ar)\<rparr>);
           if free_cnt ar \<ge> blocks_per_arena d
           then do {
             kassert (free_cnt ar = blocks_per_arena d);
             h \<leftarrow> remove_blocks i a [0..<unat (blocks_per_arena d)] h;
             free_pages a 1 h
           }
           else Some h
         }
       | None \<Rightarrow> free_pages a (free_cnt ar) h
     })"

definition realloc :: "heap \<Rightarrow> ptr \<Rightarrow> size_t \<Rightarrow> (ptr \<times> heap) option" where
  "realloc h old_block new_size =
    (if new_size = 0 then do { h \<leftarrow> free h old_block; Some (0, h) }
     else do {
       (new_block, h) \<leftarrow> malloc h new_size;
       if old_block \<noteq> 0 \<and> new_block \<noteq> 0
       then do {
         old_size \<leftarrow> allocated_size h old_block;
         let min_size = (if new_size < old_size then new_size else old_size);
         (_, m) \<leftarrow> memcpy (pmem (pal h)) new_block old_block min_size;
         h \<leftarrow> free (h\<lparr>pal := (pal h)\<lparr>pmem := m\<rparr>\<rparr>) old_block;
         Some (new_block, h)
       }
       else Some (new_block, h)
     })"

subsection \<open>Blocks and arenas\<close>

definition bsize :: "nat \<Rightarrow> nat" where "bsize i = 16 * 2 ^ i"

definition bpa :: "nat \<Rightarrow> nat" where "bpa i = 4084 div bsize i"

definition blk :: "ptr \<Rightarrow> nat \<Rightarrow> nat \<Rightarrow> ptr" where
  "blk a i k = a + of_nat (12 + k * bsize i)"

lemma bsize_pos [simp]: "0 < bsize i"
  by (simp add: bsize_def)

lemma bsize_le: "i < 7 \<Longrightarrow> bsize i \<le> 1024"
  using power_increasing [of i 6 "2::nat"] by (simp add: bsize_def)

lemma block_fits: "k < bpa i \<Longrightarrow> k * bsize i + bsize i \<le> 4084"
proof -
  assume "k < bpa i"
  then have "Suc k * bsize i \<le> bpa i * bsize i" by (intro mult_le_mono1) simp
  also have "\<dots> \<le> 4084" by (simp add: bpa_def div_times_less_eq_dividend)
  finally show ?thesis by simp
qed

lemma aligned_page_end: "pg_ofs a = 0 \<Longrightarrow> unat a + 4096 \<le> 2 ^ 32"
proof -
  assume "pg_ofs a = 0"
  then obtain q where q: "unat a = 4096 * q" using aligned_unat by blast
  moreover have "unat a < 2 ^ 32" using unat_u32_bound by simp
  ultimately show ?thesis by simp
qed

lemma in_page:
  assumes "pg_ofs a = 0" "n < 4096"
  shows "unat (a + of_nat n) = unat a + n" and "pg_round_down (a + of_nat n) = a" and "unat (pg_ofs (a + of_nat n)) = n"
proof -
  obtain q where q: "unat a = 4096 * q" using aligned_unat [OF assms(1)] by blast
  show u: "unat (a + of_nat n) = unat a + n"
    using aligned_page_end [OF assms(1)] assms(2) by (simp add: unat_add_u32 unat_of_nat_u32)
  have "(4096 * q + n) div 4096 * 4096 = 4096 * q" using assms(2) by simp
  then show "pg_round_down (a + of_nat n) = a"
    by (simp add: u32_eq_iff unat_pg_round_down u q)
  show "unat (pg_ofs (a + of_nat n)) = n" using assms(2) by (simp add: unat_pg_ofs u q)
qed

lemma blk_addr:
  assumes "pg_ofs a = 0" "k < bpa i"
  shows "unat (blk a i k) = unat a + 12 + k * bsize i" and "pg_round_down (blk a i k) = a"
    and "unat (pg_ofs (blk a i k)) = 12 + k * bsize i"
proof -
  have "12 + k * bsize i < 4096" using block_fits [OF assms(2)] bsize_pos [of i] by linarith
  from in_page [OF assms(1) this] show "unat (blk a i k) = unat a + 12 + k * bsize i"
    "pg_round_down (blk a i k) = a" "unat (pg_ofs (blk a i k)) = 12 + k * bsize i"
    by (simp_all add: blk_def)
qed

lemma blk_eq:
  assumes "pg_ofs a = 0" "k < bpa i" "l < bpa i"
  shows "blk a i k = blk a i l \<longleftrightarrow> k = l"
proof
  assume "blk a i k = blk a i l"
  then have "unat (blk a i k) = unat (blk a i l)" by simp
  then show "k = l" using bsize_pos [of i] by (simp add: blk_addr assms)
qed simp

lemma inj_blk: "pg_ofs a = 0 \<Longrightarrow> inj_on (blk a i) {..<bpa i}"
  by (auto simp: inj_on_def blk_eq)

definition desc_ok :: "nat \<Rightarrow> desc \<Rightarrow> bool" where
  "desc_ok i d \<longleftrightarrow> block_size d = of_nat (bsize i) \<and> blocks_per_arena d = of_nat (bpa i)"

definition descs_ok :: "desc list \<Rightarrow> bool" where
  "descs_ok ds \<longleftrightarrow> length ds = 7 \<and> (\<forall>i < 7. desc_ok i (ds ! i))"

lemma desc_okD:
  assumes "desc_ok i d" "i < 7"
  shows "unat (block_size d) = bsize i" "unat (blocks_per_arena d) = bpa i"
proof -
  have "bpa i \<le> 4084" by (simp add: bpa_def)
  then show "unat (block_size d) = bsize i" "unat (blocks_per_arena d) = bpa i"
    using assms bsize_le [OF assms(2)] by (simp_all add: desc_ok_def unat_of_nat_u32)
qed

lemma descs_ok_update: "descs_ok ds \<Longrightarrow> desc_ok i d \<Longrightarrow> descs_ok (ds[i := d])"
  unfolding descs_ok_def by (metis length_list_update nth_list_update_eq nth_list_update_neq)

lemma bpa_pos: "i < 7 \<Longrightarrow> 0 < bpa i"
  using bsize_le [of i] by (simp add: bpa_def div_greater_zero_iff)

definition span :: "arena \<Rightarrow> nat" where
  "span r = (case arena_desc r of None \<Rightarrow> unat (free_cnt r) | Some _ \<Rightarrow> 1)"

definition in_arena :: "ptr \<Rightarrow> ptr list \<Rightarrow> ptr list" where
  "in_arena a bs = filter (\<lambda>b. pg_round_down b = a) bs"

definition arena_ok :: "nat set \<Rightarrow> desc list \<Rightarrow> ptr \<Rightarrow> arena \<Rightarrow> bool" where
  "arena_ok used ds a r \<longleftrightarrow> magic r = ARENA_MAGIC \<and> pg_ofs a = 0 \<and> pages a (span r) \<subseteq> used \<and>
    (case arena_desc r of
       None \<Rightarrow> free_cnt r \<noteq> 0
     | Some i \<Rightarrow> i < 7 \<and> unat (free_cnt r) = length (in_arena a (free_list (ds ! i))) \<and> unat (free_cnt r) \<le> bpa i)"

definition is_block :: "(ptr \<Rightarrow> arena option) \<Rightarrow> nat \<Rightarrow> ptr \<Rightarrow> bool" where
  "is_block ars i b \<longleftrightarrow> (\<exists>a r k. ars a = Some r \<and> arena_desc r = Some i \<and> k < bpa i \<and> b = blk a i k)"

definition lists_ok :: "desc list \<Rightarrow> (ptr \<Rightarrow> arena option) \<Rightarrow> bool" where
  "lists_ok ds ars \<longleftrightarrow>
    (\<forall>i < 7. distinct (free_list (ds ! i)) \<and> (\<forall>b \<in> set (free_list (ds ! i)). is_block ars i b))"

definition kused :: "palloc \<Rightarrow> nat set" where
  "kused ps = used_pages (get_pool False ps)"

text \<open>The invariant. Only arenas in \<open>E\<close> may have all their blocks free, which happens within an operation.\<close>

definition heap_inv :: "ptr set \<Rightarrow> heap \<Rightarrow> bool" where
  "heap_inv E h \<longleftrightarrow> palloc_ok (pal h) \<and> descs_ok (descs h) \<and> lists_ok (descs h) (arenas h) \<and>
    (\<forall>a r. arenas h a = Some r \<longrightarrow> arena_ok (kused (pal h)) (descs h) a r) \<and>
    (\<forall>a r i. arenas h a = Some r \<longrightarrow> arena_desc r = Some i \<longrightarrow> a \<notin> E \<longrightarrow> unat (free_cnt r) < bpa i) \<and>
    (\<forall>a b r s. arenas h a = Some r \<longrightarrow> arenas h b = Some s \<longrightarrow> a \<noteq> b \<longrightarrow> pages a (span r) \<inter> pages b (span s) = {})"

definition blocks_of :: "(ptr \<Rightarrow> arena option) \<Rightarrow> ptr set" where
  "blocks_of ars = {b. (\<exists>a r. ars a = Some r \<and> arena_desc r = None \<and> b = a + 12) \<or> (\<exists>i. is_block ars i b)}"

definition free_set :: "desc list \<Rightarrow> ptr set" where
  "free_set ds = (\<Union>i < 7. set (free_list (ds ! i)))"

text \<open>The blocks in use: those of an arena that are on no free list.\<close>

definition live :: "heap \<Rightarrow> ptr set" where
  "live h = blocks_of (arenas h) - free_set (descs h)"

lemma heap_invD:
  assumes "heap_inv E h"
  shows "palloc_ok (pal h)" "descs_ok (descs h)" "lists_ok (descs h) (arenas h)"
    and "arenas h a = Some r \<Longrightarrow> arena_ok (kused (pal h)) (descs h) a r"
    and "arenas h a = Some r \<Longrightarrow> arena_desc r = Some i \<Longrightarrow> a \<notin> E \<Longrightarrow> unat (free_cnt r) < bpa i"
    and "arenas h a = Some r \<Longrightarrow> arenas h b = Some s \<Longrightarrow> a \<noteq> b \<Longrightarrow> pages a (span r) \<inter> pages b (span s) = {}"
  using assms unfolding heap_inv_def by blast+

lemma arena_okD:
  assumes "arena_ok used ds a r"
  shows "magic r = ARENA_MAGIC" "pg_ofs a = 0" "pages a (span r) \<subseteq> used" "0 < span r"
    and "arena_desc r = Some i \<Longrightarrow> i < 7" and "arena_desc r = None \<Longrightarrow> free_cnt r \<noteq> 0"
    and "arena_desc r = Some i \<Longrightarrow> unat (free_cnt r) = length (in_arena a (free_list (ds ! i)))"
    and "arena_desc r = Some i \<Longrightarrow> unat (free_cnt r) \<le> bpa i"
  using assms by (auto simp: arena_ok_def span_def unat_gt_0 split: option.splits)

lemma kused_nonzero:
  assumes "palloc_ok ps" "pages a n \<subseteq> kused ps" "0 < n"
  shows "a \<noteq> 0"
  using pool_pages_nonzero [OF get_pool_ok [OF assms(1)] _ assms(3)] assms(2) used_pages_subset
  unfolding kused_def by blast

lemma arena_nonzero: "heap_inv E h \<Longrightarrow> arenas h a = Some r \<Longrightarrow> a \<noteq> 0"
  by (meson kused_nonzero arena_okD(3,4) heap_invD(1,4))

lemma is_blockE:
  assumes "heap_inv E h" "is_block (arenas h) i b"
  obtains r k where "arenas h (pg_round_down b) = Some r" "arena_desc r = Some i" "k < bpa i"
    "b = blk (pg_round_down b) i k" "i < 7" "pg_ofs (pg_round_down b) = 0"
proof -
  obtain a r k where *: "arenas h a = Some r" "arena_desc r = Some i" "k < bpa i" "b = blk a i k"
    using assms(2) by (auto simp: is_block_def)
  note ok = arena_okD [OF heap_invD(4) [OF assms(1) *(1)]]
  have "pg_round_down b = a" using blk_addr(2) [OF ok(2) *(3)] *(4) by simp
  then show ?thesis using that [of r k] * ok(2,5) by blast
qed

lemma desc_of_ok: "descs_ok (descs h) \<Longrightarrow> i < 7 \<Longrightarrow> desc_of h i = Some (descs h ! i) \<and> desc_ok i (descs h ! i)"
  by (simp add: desc_of_def descs_ok_def)

lemma block_to_arena_blk:
  assumes "arenas h a = Some r" "magic r = ARENA_MAGIC" "pg_ofs a = 0" "a \<noteq> 0" "arena_desc r = Some i" "i < 7"
    and "descs_ok (descs h)" "k < bpa i"
  shows "block_to_arena h (blk a i k) = Some (a, r)"
proof -
  note b = blk_addr [OF assms(3,8)]
  note d = desc_of_ok [OF assms(7,6)]
  have bs: "unat (block_size (descs h ! i)) = bsize i" using d desc_okD assms(6) by blast
  have nz: "block_size (descs h ! i) \<noteq> 0"
  proof
    assume "block_size (descs h ! i) = 0"
    then show False using bs bsize_pos [of i] by simp
  qed
  have "unat (pg_ofs (blk a i k) - sizeof_arena) = k * bsize i"
    using b(3) by (simp add: unat_sub_u32 word_le_nat_alt sizeof_arena_def)
  then have "unat ((pg_ofs (blk a i k) - sizeof_arena) mod block_size (descs h ! i)) = 0"
    by (simp add: unat_mod bs)
  then have "(pg_ofs (blk a i k) - sizeof_arena) mod block_size (descs h ! i) = 0"
    by (simp only: unat_eq_0)
  then show ?thesis using assms b(2) d nz by (simp add: block_to_arena_def Let_def)
qed

lemma block_to_arena_big:
  assumes "arenas h a = Some r" "magic r = ARENA_MAGIC" "pg_ofs a = 0" "a \<noteq> 0" "arena_desc r = None"
  shows "block_to_arena h (a + 12) = Some (a, r)"
proof -
  have b: "pg_round_down (a + 12) = a" "unat (pg_ofs (a + 12)) = 12"
    using in_page [OF assms(3), of 12] by simp_all
  then have "pg_ofs (a + 12) = 12" by (simp add: u32_eq_iff)
  then show ?thesis using assms b by (simp add: block_to_arena_def Let_def sizeof_arena_def)
qed

lemma arena_to_block_blk:
  assumes "arenas h a = Some r" "magic r = ARENA_MAGIC" "a \<noteq> 0" "arena_desc r = Some i" "i < 7"
    and "descs_ok (descs h)" "k < bpa i"
  shows "arena_to_block h a (of_nat k) = Some (blk a i k)"
proof -
  note d = desc_of_ok [OF assms(6,5)]
  have "bpa i \<le> 4084" by (simp add: bpa_def)
  then have "of_nat k < blocks_per_arena (descs h ! i)"
    using d desc_okD(2) [OF _ assms(5)] assms(7) by (auto simp: word_less_nat_alt unat_of_nat_u32)
  then show ?thesis using assms d by (simp add: arena_to_block_def blk_def sizeof_arena_def desc_ok_def algebra_simps)
qed

lemma set_desc_simps [simp]:
  "arenas (set_desc i d h) = arenas h" "pal (set_desc i d h) = pal h" "descs (set_desc i d h) = (descs h)[i := d]"
  by (simp_all add: set_desc_def)

lemma set_desc_twice: "set_desc i d' (set_desc i d h) = set_desc i d' h"
  by (simp add: set_desc_def)

lemma push_blocks_ok:
  assumes "arenas h a = Some r" "magic r = ARENA_MAGIC" "a \<noteq> 0" "arena_desc r = Some i" "i < 7"
    and "descs_ok (descs h)" "\<And>k. k \<in> set ks \<Longrightarrow> k < bpa i"
  shows "push_blocks i a ks h =
    Some (set_desc i ((descs h ! i)\<lparr>free_list := free_list (descs h ! i) @ map (blk a i) ks\<rparr>) h)"
  using assms(1,6,7)
proof (induction ks arbitrary: h)
  case Nil
  then show ?case by (simp add: set_desc_def)
next
  case (Cons k ks)
  note d = desc_of_ok [OF Cons.prems(2) assms(5)]
  let ?d = "(descs h ! i)\<lparr>free_list := free_list (descs h ! i) @ [blk a i k]\<rparr>"
  have l: "i < length (descs h)" using Cons.prems(2) assms(5) by (simp add: descs_ok_def)
  have "descs_ok (descs (set_desc i ?d h))"
    using descs_ok_update [OF Cons.prems(2), of i ?d] d by (simp add: desc_ok_def)
  then show ?case
    using Cons.IH [of "set_desc i ?d h"] Cons.prems d l arena_to_block_blk [OF Cons.prems(1) assms(2-5) Cons.prems(2), of k]
    by (simp add: set_desc_twice)
qed

lemma remove_blocks_ok:
  assumes "arenas h a = Some r" "magic r = ARENA_MAGIC" "a \<noteq> 0" "arena_desc r = Some i" "i < 7" "pg_ofs a = 0"
    and "descs_ok (descs h)" "\<And>k. k \<in> set ks \<Longrightarrow> k < bpa i" "distinct ks"
    and "distinct (free_list (descs h ! i))" "blk a i ` set ks \<subseteq> set (free_list (descs h ! i))"
  shows "remove_blocks i a ks h =
    Some (set_desc i ((descs h ! i)\<lparr>free_list := filter (\<lambda>b. b \<notin> blk a i ` set ks) (free_list (descs h ! i))\<rparr>) h)"
  using assms(1,7-)
proof (induction ks arbitrary: h)
  case Nil
  then show ?case by (simp add: set_desc_def)
next
  case (Cons k ks)
  note d = desc_of_ok [OF Cons.prems(2) assms(5)]
  let ?fl = "free_list (descs h ! i)"
  let ?d = "(descs h ! i)\<lparr>free_list := remove1 (blk a i k) ?fl\<rparr>"
  have l: "i < length (descs h)" using Cons.prems(2) assms(5) by (simp add: descs_ok_def)
  have ok: "descs_ok (descs (set_desc i ?d h))"
    using descs_ok_update [OF Cons.prems(2), of i ?d] d by (simp add: desc_ok_def)
  have rm: "remove1 (blk a i k) ?fl = filter (\<lambda>b. b \<noteq> blk a i k) ?fl"
    using Cons.prems(5) by (simp add: distinct_remove1_removeAll removeAll_filter_not_eq) (rule filter_cong; auto)
  have "blk a i k \<notin> blk a i ` set ks"
    using Cons.prems(3,4) blk_eq [OF assms(6)] by fastforce
  then have sub: "blk a i ` set ks \<subseteq> set (free_list (descs (set_desc i ?d h) ! i))"
    using Cons.prems(6) l by (auto simp: rm) (metis imageI)
  have eq: "filter (\<lambda>b. b \<notin> blk a i ` set ks) (remove1 (blk a i k) ?fl) = filter (\<lambda>b. b \<notin> blk a i ` set (k # ks)) ?fl"
    unfolding rm filter_filter by (rule filter_cong) auto
  have "remove_blocks i a ks (set_desc i ?d h) = Some (set_desc i ((descs (set_desc i ?d h) ! i)\<lparr>free_list :=
      filter (\<lambda>b. b \<notin> blk a i ` set ks) (free_list (descs (set_desc i ?d h) ! i))\<rparr>) (set_desc i ?d h))"
    using Cons.prems l by (intro Cons.IH [OF _ ok _ _ _ sub]) (auto simp: rm)
  then show ?case
    using Cons.prems d l arena_to_block_blk [OF Cons.prems(1) assms(2-5) Cons.prems(2), of k]
    by (simp add: set_desc_twice eq)
qed


lemma is_block_unique:
  assumes "heap_inv E h" "is_block (arenas h) i b" "is_block (arenas h) j b"
  shows "i = j"
  using is_blockE [OF assms(1,2)] is_blockE [OF assms(1,3)] by (metis option.inject)

lemma lists_okD:
  assumes "heap_inv E h" "i < 7"
  shows "distinct (free_list (descs h ! i))" and "b \<in> set (free_list (descs h ! i)) \<Longrightarrow> is_block (arenas h) i b"
  using heap_invD(3) [OF assms(1)] assms(2) by (auto simp: lists_ok_def)

definition arena_kind :: "(ptr \<Rightarrow> arena option) \<Rightarrow> ptr \<Rightarrow> nat option option" where
  "arena_kind ars a = map_option arena_desc (ars a)"

lemma is_block_kind: "is_block ars i b \<longleftrightarrow> (\<exists>a k. arena_kind ars a = Some (Some i) \<and> k < bpa i \<and> b = blk a i k)"
  by (fastforce simp: is_block_def arena_kind_def)

lemma blocks_of_kind: "blocks_of ars = {b. (\<exists>a. arena_kind ars a = Some None \<and> b = a + 12) \<or> (\<exists>i. is_block ars i b)}"
  by (fastforce simp: blocks_of_def arena_kind_def)

lemma kind_free_cnt: "ars a = Some r \<Longrightarrow> arena_kind (ars(a \<mapsto> r\<lparr>free_cnt := n\<rparr>)) = arena_kind ars"
  by (auto simp: arena_kind_def)

lemma is_block_free_cnt: "ars a = Some r \<Longrightarrow> is_block (ars(a \<mapsto> r\<lparr>free_cnt := n\<rparr>)) = is_block ars"
  by (intro ext) (simp add: is_block_kind kind_free_cnt)

lemma blocks_of_free_cnt: "ars a = Some r \<Longrightarrow> blocks_of (ars(a \<mapsto> r\<lparr>free_cnt := n\<rparr>)) = blocks_of ars"
  by (simp add: blocks_of_kind is_block_free_cnt kind_free_cnt)

lemma heap_inv_relist:
  assumes inv: "heap_inv E h" and a: "arenas h a = Some r" "arena_desc r = Some i"
    and h': "h' = set_desc i ((descs h ! i)\<lparr>free_list := fl\<rparr>) (h\<lparr>arenas := (arenas h)(a \<mapsto> r\<lparr>free_cnt := n\<rparr>)\<rparr>)"
    and fl: "distinct fl" "\<And>b. b \<in> set fl \<Longrightarrow> is_block (arenas h) i b"
      "\<And>c. c \<noteq> a \<Longrightarrow> in_arena c fl = in_arena c (free_list (descs h ! i))"
    and n: "unat n = length (in_arena a fl)" "unat n \<le> bpa i"
  shows "heap_inv (if unat n < bpa i then E - {a} else insert a E) h'"
proof -
  note ok = arena_okD [OF heap_invD(4) [OF inv a(1)]]
  have i7: "i < 7" using ok(5) a(2) .
  have l: "length (descs h) = 7" using heap_invD(2) [OF inv] by (simp add: descs_ok_def)
  have ds: "descs_ok (descs h')"
    using descs_ok_update [OF heap_invD(2) [OF inv]] desc_of_ok [OF heap_invD(2) [OF inv] i7]
    by (simp add: h' desc_ok_def)
  have ars: "arenas h' = (arenas h)(a \<mapsto> r\<lparr>free_cnt := n\<rparr>)" by (simp add: h')
  have dj: "descs h' ! j = (if j = i then (descs h ! i)\<lparr>free_list := fl\<rparr> else descs h ! j)" if "j < 7" for j
    using that l by (simp add: h' nth_list_update)
  have ls: "lists_ok (descs h') (arenas h')"
    using heap_invD(3) [OF inv] fl(1,2) unfolding lists_ok_def ars is_block_free_cnt [of "arenas h", OF a(1)]
    by (auto simp: dj)
  have sp: "span s = span t" if "arenas h' b = Some s" "arenas h b = Some t" for b s t
    using that a by (cases "b = a") (auto simp: ars span_def)
  have aok: "arena_ok (kused (pal h')) (descs h') b s" if "arenas h' b = Some s" for b s
  proof (cases "b = a")
    case True
    then have s: "s = r\<lparr>free_cnt := n\<rparr>" using that by (simp add: ars)
    show ?thesis using ok n a(2) i7 unfolding True s
      by (simp add: arena_ok_def dj span_def) (simp add: h')
  next
    case False
    then have s: "arenas h b = Some s" using that by (simp add: ars)
    have "in_arena b (free_list (descs h' ! j)) = in_arena b (free_list (descs h ! j))" if "j < 7" for j
      using fl(3) [OF False] dj [OF that] by simp
    then show ?thesis using heap_invD(4) [OF inv s] unfolding arena_ok_def
      by (auto simp: h' split: option.splits)
  qed
  have full: "unat (free_cnt s) < bpa j"
    if "arenas h' b = Some s" "arena_desc s = Some j" "b \<notin> (if unat n < bpa i then E - {a} else insert a E)" for b s j
    using that heap_invD(5) [OF inv, of b s j] a(2) by (auto simp: ars split: if_splits)
  have dis: "pages b (span s) \<inter> pages c (span t) = {}"
    if s: "arenas h' b = Some s" "arenas h' c = Some t" "b \<noteq> c" for b c s t
  proof -
    obtain s' t' where *: "arenas h b = Some s'" "arenas h c = Some t'" using s a(1) by (auto simp: ars split: if_splits)
    show ?thesis using heap_invD(6) [OF inv *(1,2) s(3)] sp [OF s(1) *(1)] sp [OF s(2) *(2)] by simp
  qed
  have "palloc_ok (pal h')" using heap_invD(1) [OF inv] by (simp add: h')
  then show ?thesis unfolding heap_inv_def using ds ls aok full dis by blast
qed

lemma in_arena_Cons: "in_arena a (b # bs) = (if pg_round_down b = a then b # in_arena a bs else in_arena a bs)"
  by (simp add: in_arena_def)

lemma free_set_update:
  "length ds = 7 \<Longrightarrow> i < 7 \<Longrightarrow> free_set (ds[i := d]) = (\<Union>j \<in> {..<7} - {i}. set (free_list (ds ! j))) \<union> set (free_list d)"
  unfolding free_set_def by (auto simp: nth_list_update split: if_splits)

lemma free_set_split:
  "i < 7 \<Longrightarrow> free_set ds = (\<Union>j \<in> {..<7} - {i}. set (free_list (ds ! j))) \<union> set (free_list (ds ! i))"
  unfolding free_set_def by auto

lemma not_other_list:
  assumes "heap_inv E h" "is_block (arenas h) i b" "j < 7" "j \<noteq> i"
  shows "b \<notin> set (free_list (descs h ! j))"
  using is_block_unique [OF assms(1,2)] lists_okD(2) [OF assms(1,3)] assms(4) by blast

definition sizes_kept :: "heap \<Rightarrow> heap \<Rightarrow> bool" where
  "sizes_kept h h' \<longleftrightarrow> (\<forall>c \<in> live h \<inter> live h'. allocated_size h' c = allocated_size h c)"

lemma allocated_size_small:
  assumes "heap_inv E h" "is_block (arenas h) i b"
  shows "allocated_size h b = Some (of_nat (bsize i))"
proof -
  obtain r k where b: "arenas h (pg_round_down b) = Some r" "arena_desc r = Some i" "k < bpa i"
    "b = blk (pg_round_down b) i k" "i < 7" "pg_ofs (pg_round_down b) = 0" by (rule is_blockE [OF assms])
  note d = desc_of_ok [OF heap_invD(2) [OF assms(1)] b(5)]
  have "block_to_arena h b = Some (pg_round_down b, r)"
    using block_to_arena_blk [OF b(1) _ b(6) arena_nonzero [OF assms(1) b(1)] b(2,5) heap_invD(2) [OF assms(1)] b(3)]
      arena_okD(1) [OF heap_invD(4) [OF assms(1) b(1)]] b(4) by simp
  then show ?thesis using b(2) d by (simp add: allocated_size_def desc_ok_def)
qed

lemma allocated_size_big:
  assumes "heap_inv E h" "arenas h a = Some r" "arena_desc r = None"
  shows "allocated_size h (a + 12) = Some (PGSIZE * free_cnt r - 12)" and "block_to_arena h (a + 12) = Some (a, r)"
proof -
  note ok = arena_okD [OF heap_invD(4) [OF assms(1,2)]]
  show *: "block_to_arena h (a + 12) = Some (a, r)"
    using block_to_arena_big [OF assms(2) ok(1,2) arena_nonzero [OF assms(1,2)] assms(3)] .
  have "pg_ofs (a + 12) = 12" using in_page(3) [OF ok(2), of 12] by (simp add: u32_eq_iff)
  then show "allocated_size h (a + 12) = Some (PGSIZE * free_cnt r - 12)"
    using * assms(3) by (simp add: allocated_size_def)
qed


subsection \<open>Allocation\<close>

lemma pop_block_ok:
  assumes inv: "heap_inv E h" and i: "i < 7" and fl: "free_list (descs h ! i) = b # bs" and E: "E \<subseteq> {pg_round_down b}"
  obtains h' where "pop_block i h = Some (b, h')" "heap_inv {} h'" "live h' = insert b (live h)" "b \<notin> live h"
    "pal h' = pal h" "arena_kind (arenas h') = arena_kind (arenas h)"
    "\<forall>a r. arenas h a = Some r \<longrightarrow> arena_desc r = None \<longrightarrow> arenas h' a = Some r"
proof -
  have blk: "is_block (arenas h) i b" using lists_okD(2) [OF inv i] fl by simp
  then obtain r k where b: "arenas h (pg_round_down b) = Some r" "arena_desc r = Some i" "k < bpa i"
    "b = blk (pg_round_down b) i k" "pg_ofs (pg_round_down b) = 0" by (rule is_blockE [OF inv])
  let ?a = "pg_round_down b" and ?d = "(descs h ! i)\<lparr>free_list := bs\<rparr>"
  note ok = arena_okD [OF heap_invD(4) [OF inv b(1)]]
  note d = desc_of_ok [OF heap_invD(2) [OF inv] i]
  have dok: "descs_ok (descs (set_desc i ?d h))"
    using descs_ok_update [OF heap_invD(2) [OF inv], of i ?d] d by (simp add: desc_ok_def)
  have "block_to_arena (set_desc i ?d h) b = Some (?a, r)"
    using block_to_arena_blk [of "set_desc i ?d h", OF _ ok(1) b(5) arena_nonzero [OF inv b(1)] b(2) i dok b(3)] b(1,4) by simp
  moreover define h' where "h' = set_desc i ?d (h\<lparr>arenas := (arenas h)(?a \<mapsto> r\<lparr>free_cnt := free_cnt r - 1\<rparr>)\<rparr>)"
  ultimately have eq: "pop_block i h = Some (b, h')"
    using d fl by (simp add: pop_block_def Let_def set_desc_def)
  have cnt: "unat (free_cnt r) = Suc (length (in_arena ?a bs))" using ok(7) [OF b(2)] fl by (simp add: in_arena_Cons)
  then have n: "unat (free_cnt r - 1) = length (in_arena ?a bs)" by (simp add: unat_sub_u32 word_le_nat_alt)
  have lt: "unat (free_cnt r - 1) < bpa i" using n cnt ok(8) [OF b(2)] by simp
  have db: "distinct (b # bs)" using lists_okD(1) [OF inv i] fl by simp
  have "heap_inv (E - {?a}) h'"
    using heap_inv_relist [OF inv b(1,2) h'_def _ _ _ n] lt db lists_okD(2) [OF inv i] fl by (simp add: in_arena_Cons)
  moreover have "E - {?a} = {}" using E by auto
  ultimately have inv': "heap_inv {} h'" by simp
  have l: "length (descs h) = 7" using heap_invD(2) [OF inv] by (simp add: descs_ok_def)
  have "b \<notin> (\<Union>j \<in> {..<7} - {i}. set (free_list (descs h ! j)))" using not_other_list [OF inv blk] by blast
  then have fs: "free_set (descs h') = free_set (descs h) - {b}" "b \<in> free_set (descs h)"
    using free_set_update [OF l i, of ?d] free_set_split [OF i, of "descs h"] fl db by (auto simp: h'_def)
  have bo: "blocks_of (arenas h') = blocks_of (arenas h)" using blocks_of_free_cnt [of "arenas h", OF b(1)] by (simp add: h'_def)
  have "b \<in> blocks_of (arenas h)" using blk by (auto simp: blocks_of_def)
  then have "live h' = insert b (live h)" "b \<notin> live h" using fs bo by (auto simp: live_def)
  moreover have "arena_kind (arenas h') = arena_kind (arenas h)" using kind_free_cnt [of "arenas h", OF b(1)] by (simp add: h'_def)
  moreover have "arenas h' a = Some s" if "arenas h a = Some s" "arena_desc s = None" for a s
    using that b(1,2) by (auto simp: h'_def)
  ultimately show ?thesis using that [OF eq inv'] by (simp add: h'_def)
qed

lemma heap_inv_palloc:
  assumes inv: "heap_inv E h" and "palloc_ok ps" "kused (pal h) \<subseteq> kused ps"
  shows "heap_inv E (h\<lparr>pal := ps\<rparr>)"
proof -
  have "arena_ok (kused ps) (descs h) a r" if "arenas h a = Some r" for a r
    using heap_invD(4) [OF inv that] assms(3) by (auto simp: arena_ok_def)
  then show ?thesis using assms(2) inv unfolding heap_inv_def by simp
qed

lemma heap_inv_new_arena:
  assumes inv: "heap_inv {} h" and r: "pg_ofs a = 0" "a \<noteq> 0" "magic r = ARENA_MAGIC" "0 < span r"
    and ps: "palloc_ok ps" "pages a (span r) \<inter> kused (pal h) = {}" "kused ps = kused (pal h) \<union> pages a (span r)"
    and fl: "case arena_desc r of None \<Rightarrow> ds = descs h
      | Some i \<Rightarrow> i < 7 \<and> free_list (descs h ! i) = [] \<and> unat (free_cnt r) = bpa i \<and>
          ds = (descs h)[i := (descs h ! i)\<lparr>free_list := map (blk a i) [0..<bpa i]\<rparr>]"
  shows "heap_inv {a} (h\<lparr>pal := ps, arenas := (arenas h)(a \<mapsto> r), descs := ds\<rparr>)" and "arenas h a = None"
proof -
  note iD = heap_invD [OF inv]
  have fresh: "pages b (span s) \<inter> pages a (span r) = {}" if "arenas h b = Some s" for b s
    using arena_okD(3) [OF iD(4) [OF that]] ps(2) by blast
  show none: "arenas h a = None"
  proof (rule ccontr)
    assume "arenas h a \<noteq> None"
    then obtain s where s: "arenas h a = Some s" by blast
    have "unat a div 4096 \<in> pages a (span s) \<inter> pages a (span r)"
      using arena_okD(4) [OF iD(4) [OF s]] r(4) by (simp add: pages_def)
    then show False using fresh [OF s] by blast
  qed
  let ?h = "h\<lparr>pal := ps, arenas := (arenas h)(a \<mapsto> r), descs := ds\<rparr>"
  have l: "length (descs h) = 7" using iD(2) by (simp add: descs_ok_def)
  have dj: "free_list (ds ! j) = (if arena_desc r = Some j then map (blk a j) [0..<bpa j] else free_list (descs h ! j))" if "j < 7" for j
    using fl that l by (cases "arena_desc r") (auto simp: nth_list_update)
  have ds: "descs_ok ds"
    using fl iD(2) descs_ok_update [OF iD(2)] desc_of_ok [OF iD(2)] by (auto simp: desc_ok_def split: option.splits)
  have mono: "is_block ((arenas h)(a \<mapsto> r)) j b" if "is_block (arenas h) j b" for j b
    using that none unfolding is_block_def by (metis fun_upd_apply option.distinct(1))
  have new: "is_block ((arenas h)(a \<mapsto> r)) j b" if "arena_desc r = Some j" "b \<in> set (map (blk a j) [0..<bpa j])" for j b
    using that unfolding is_block_def by (intro exI [of _ a] exI [of _ r]) auto
  have ls: "lists_ok ds ((arenas h)(a \<mapsto> r))"
    unfolding lists_ok_def
  proof (intro allI impI conjI ballI)
    fix j :: nat assume j: "j < 7"
    have "inj_on (blk a j) (set [0..<bpa j])" using inj_blk [OF r(1), of j] by (simp add: atLeast0LessThan)
    then show "distinct (free_list (ds ! j))"
      using lists_okD(1) [OF inv j] by (simp add: dj [OF j] distinct_map)
    fix b assume "b \<in> set (free_list (ds ! j))"
    then show "is_block ((arenas h)(a \<mapsto> r)) j b"
      using lists_okD(2) [OF inv j, of b] mono new by (auto simp: dj [OF j] split: if_splits)
  qed
  have in_new: "in_arena a (map (blk a j) [0..<bpa j]) = map (blk a j) [0..<bpa j]"
    and in_old: "b \<noteq> a \<Longrightarrow> in_arena b (map (blk a j) [0..<bpa j]) = []" for j b
    using blk_addr(2) [OF r(1)] by (auto simp: in_arena_def filter_empty_conv)
  have aok: "arena_ok (kused ps) ds b s" if "((arenas h)(a \<mapsto> r)) b = Some s" for b s
  proof (cases "b = a")
    case True
    then have "s = r" using that by simp
    then show ?thesis using r ps(3) fl True l
      by (cases "arena_desc r") (auto simp: arena_ok_def dj in_new span_def unat_gt_0)
  next
    case False
    then have s: "arenas h b = Some s" using that by simp
    have "in_arena b (free_list (ds ! j)) = in_arena b (free_list (descs h ! j))" if "j < 7" for j
      using dj [OF that] in_old [OF False] fl that by (auto simp: in_arena_def)
    then show ?thesis using iD(4) [OF s] ps(3) by (auto simp: arena_ok_def split: option.splits)
  qed
  show "heap_inv {a} ?h"
    unfolding heap_inv_def using ps(1) ds ls aok iD(5,6) fresh by (auto split: if_splits) blast+
qed


lemma blocks_ofE:
  assumes "heap_inv E h" "b \<in> blocks_of (arenas h)"
  obtains (big) r where "arenas h (pg_round_down b) = Some r" "arena_desc r = None" "b = pg_round_down b + 12"
  | (small) i r k where "is_block (arenas h) i b" "arenas h (pg_round_down b) = Some r" "arena_desc r = Some i" "i < 7"
      "k < bpa i" "b = blk (pg_round_down b) i k"
proof -
  consider (1) a r where "arenas h a = Some r" "arena_desc r = None" "b = a + 12" | (2) i where "is_block (arenas h) i b"
    using assms(2) by (auto simp: blocks_of_def)
  then show thesis
  proof cases
    case 1
    have "pg_round_down b = a" using in_page(2) [OF arena_okD(2) [OF heap_invD(4) [OF assms(1) 1(1)]], of 12] 1(3) by simp
    then show thesis using big 1 by simp
  next
    case 2
    then show thesis using is_blockE [OF assms(1) 2] small by metis
  qed
qed

lemma free_set_blocks: "heap_inv E h \<Longrightarrow> free_set (descs h) \<subseteq> blocks_of (arenas h)"
  using lists_okD(2) [of E h] unfolding free_set_def blocks_of_def by blast

lemma sizes_keptI:
  assumes inv: "heap_inv E h" "heap_inv E' h'"
    and "\<And>a r s. arenas h a = Some r \<Longrightarrow> arenas h' a = Some s \<Longrightarrow>
      arena_desc s = arena_desc r \<and> (arena_desc r = None \<longrightarrow> free_cnt s = free_cnt r)"
  shows "sizes_kept h h'"
  unfolding sizes_kept_def
proof
  fix c assume "c \<in> live h \<inter> live h'"
  then have c: "c \<in> blocks_of (arenas h)" "c \<in> blocks_of (arenas h')" by (simp_all add: live_def)
  obtain s where s: "arenas h' (pg_round_down c) = Some s" using blocks_ofE [OF inv(2) c(2)] by metis
  show "allocated_size h' c = allocated_size h c"
  proof (rule blocks_ofE [OF inv(1) c(1)])
    fix r assume r: "arenas h (pg_round_down c) = Some r" "arena_desc r = None" "c = pg_round_down c + 12"
    show ?thesis using allocated_size_big(1) [OF inv(1) r(1,2)] allocated_size_big(1) [OF inv(2) s] assms(3) [OF r(1) s] r(2,3)
      by simp
  next
    fix i r k assume r: "is_block (arenas h) i c" "arenas h (pg_round_down c) = Some r" "arena_desc r = Some i" "k < bpa i"
      "c = blk (pg_round_down c) i k"
    have "is_block (arenas h') i c" using assms(3) [OF r(2) s] s r(3-5) unfolding is_block_def by metis
    then show ?thesis using allocated_size_small [OF inv(1) r(1)] allocated_size_small [OF inv(2)] by simp
  qed
qed

definition own_blocks :: "ptr \<Rightarrow> arena \<Rightarrow> ptr set" where
  "own_blocks a r = (case arena_desc r of None \<Rightarrow> {a + 12} | Some i \<Rightarrow> blk a i ` {..<bpa i})"

lemma blocks_of_own: "blocks_of ars = {b. \<exists>a r. ars a = Some r \<and> b \<in> own_blocks a r}"
proof -
  have "b \<in> own_blocks a r \<longleftrightarrow> (arena_desc r = None \<and> b = a + 12) \<or> (\<exists>i k. arena_desc r = Some i \<and> k < bpa i \<and> b = blk a i k)" for a b r
    by (cases "arena_desc r") (auto simp: own_blocks_def)
  then show ?thesis unfolding blocks_of_def is_block_def by blast
qed

lemma blocks_of_new: "ars a = None \<Longrightarrow> blocks_of (ars(a \<mapsto> r)) = blocks_of ars \<union> own_blocks a r"
  unfolding blocks_of_own by (auto split: if_splits) (metis option.distinct(1))

lemma find_desc_ok:
  "\<exists>k \<le> length ds. find_desc sz i ds = i + k \<and> (k < length ds \<longrightarrow> sz \<le> block_size (ds ! k)) \<and> (\<forall>j < k. block_size (ds ! j) < sz)"
proof (induction sz i ds rule: find_desc.induct)
  case (2 sz i d ds)
  show ?case
  proof (cases "sz \<le> block_size d")
    case False
    then obtain k where "k \<le> length ds" "find_desc sz (i + 1) ds = i + 1 + k" "k < length ds \<longrightarrow> sz \<le> block_size (ds ! k)"
      "\<forall>j < k. block_size (ds ! j) < sz" using 2 by blast
    then show ?thesis using False by (intro exI [of _ "Suc k"]) (auto simp: less_Suc_eq_0_disj not_le)
  qed (auto intro!: exI [of _ 0])
qed simp

lemma get_keeps_memory: "palloc_get_multiple ps 0 n = Some (p, ps') \<Longrightarrow> pmem ps' = pmem ps"
  by (auto simp: palloc_get_multiple_def get_pool_def set_pool_def Let_def split: if_splits bind_splits)


definition malloc_result :: "heap \<Rightarrow> nat \<Rightarrow> ptr \<Rightarrow> heap \<Rightarrow> bool" where
  "malloc_result h n p h' \<longleftrightarrow> heap_inv {} h' \<and> sizes_kept h h' \<and> pmem (pal h') = pmem (pal h) \<and>
     (if p = 0 then live h' = live h
      else p \<notin> live h \<and> live h' = insert p (live h) \<and> (\<exists>m. allocated_size h' p = Some m \<and> n \<le> unat m))"

lemma own_blocks_page: "pg_ofs a = 0 \<Longrightarrow> b \<in> own_blocks a r \<Longrightarrow> pg_round_down b = a"
  using in_page(2) [of a 12] blk_addr(2) by (auto simp: own_blocks_def split: option.splits)

lemma own_blocks_fresh:
  assumes "heap_inv E h" "arenas h a = None" "pg_ofs a = 0"
  shows "own_blocks a r \<inter> blocks_of (arenas h) = {}"
proof -
  have "arenas h (pg_round_down b) \<noteq> None" if "b \<in> blocks_of (arenas h)" for b
    using blocks_ofE [OF assms(1) that] by (metis option.distinct(1))
  then show ?thesis using own_blocks_page [OF assms(3)] assms(2) by blast
qed

lemma heap_inv_mono: "heap_inv E h \<Longrightarrow> E \<subseteq> E' \<Longrightarrow> heap_inv E' h"
  unfolding heap_inv_def by blast

lemma malloc_big_ok:
  assumes inv: "heap_inv {} h" and sz: "sz \<noteq> 0" "unat sz + 12 + 4095 < 2 ^ 32"
    and i: "find_desc sz 0 (descs h) = length (descs h)"
  shows "\<exists>p h'. malloc h sz = Some (p, h') \<and> malloc_result h (unat sz) p h'"
proof -
  let ?n = "DIV_ROUND_UP (sz + sizeof_arena) PGSIZE"
  have un: "unat ?n = (unat sz + 12 + 4095) div 4096"
    using sz(2) by (simp add: DIV_ROUND_UP_def PGSIZE_def sizeof_arena_def unat_div unat_add_u32)
  have "0 < unat ?n" unfolding un by (simp add: div_greater_zero_iff)
  then have n0: "?n \<noteq> 0" by (simp add: unat_gt_0)
  obtain a ps where g: "palloc_get_multiple (pal h) 0 ?n = Some (a, ps)" "palloc_ok ps"
    "if a = 0 then ps = pal h else pg_ofs a = 0 \<and> in_space a (4096 * unat ?n) \<and>
       pages a (unat ?n) \<inter> kused (pal h) = {} \<and> kused ps = kused (pal h) \<union> pages a (unat ?n)"
    using kp.get_law [OF heap_invD(1) [OF inv] n0] unfolding kused_def by blast
  show ?thesis
  proof (cases "a = 0")
    case True
    then have "malloc h sz = Some (0, h)" using sz(1) i g by (simp add: malloc_def)
    then show ?thesis using inv by (auto simp: malloc_result_def sizes_kept_def)
  next
    case False
    let ?r = "\<lparr>magic = ARENA_MAGIC, arena_desc = None, free_cnt = ?n\<rparr>"
    let ?h = "h\<lparr>pal := ps, arenas := (arenas h)(a \<mapsto> ?r)\<rparr>"
    have sp: "span ?r = unat ?n" by (simp add: span_def)
    have g': "pg_ofs a = 0" "in_space a (4096 * unat ?n)" "pages a (span ?r) \<inter> kused (pal h) = {}"
      "kused ps = kused (pal h) \<union> pages a (span ?r)" using g(3) False sp by simp_all
    have eq: "malloc h sz = Some (a + 12, ?h)" using sz(1) i g(1) False by (simp add: malloc_def Let_def sizeof_arena_def)
    have "0 < span ?r" using n0 sp by (simp add: unat_gt_0)
    from heap_inv_new_arena [OF inv g'(1) False _ this g(2) g'(3,4), of "descs h"]
    have inv': "heap_inv {a} ?h" and none: "arenas h a = None" by simp_all
    have inv'': "heap_inv {} ?h" using inv' heap_invD(5) [OF inv] unfolding heap_inv_def by (auto split: if_splits)
    have own: "own_blocks a ?r = {a + 12}" by (simp add: own_blocks_def)
    have fresh: "a + 12 \<notin> blocks_of (arenas h)" using own_blocks_fresh [OF inv none g'(1), of ?r] own by simp
    then have lv: "a + 12 \<notin> live h" "live ?h = insert (a + 12) (live h)"
      using free_set_blocks [OF inv] blocks_of_new [of "arenas h", OF none] own by (auto simp: live_def)
    have ge: "4096 * unat ?n \<ge> unat sz + 12" unfolding un by linarith
    have u: "unat (PGSIZE * ?n - 12) = 4096 * unat ?n - 12"
    proof -
      have "4096 * unat ?n < 2 ^ 32" using g'(2) in_space_length by blast
      then have "unat (PGSIZE * ?n) = 4096 * unat ?n" by (simp add: unat_mult_u32 PGSIZE_def)
      then show ?thesis using ge by (simp add: unat_sub_u32 word_le_nat_alt)
    qed
    have "allocated_size ?h (a + 12) = Some (PGSIZE * ?n - 12)" using allocated_size_big(1) [OF inv'', of a ?r] by simp
    moreover have "a + 12 \<noteq> 0"
    proof
      assume "a + 12 = 0"
      then show False using in_page(1) [OF g'(1), of 12] by simp
    qed
    moreover have "sizes_kept h ?h" using none by (intro sizes_keptI [OF inv inv'']) (auto split: if_splits)
    ultimately have "malloc_result h (unat sz) (a + 12) ?h"
      using inv'' lv u ge get_keeps_memory [OF g(1)] by (simp add: malloc_result_def)
    then show ?thesis using eq by blast
  qed
qed


lemma new_arena_ok:
  assumes inv: "heap_inv {} h" and i: "i < 7" and nil: "free_list (descs h ! i) = []"
  obtains "new_arena i h = Some (False, h)"
  | h' b bs where "new_arena i h = Some (True, h')" "free_list (descs h' ! i) = b # bs" "heap_inv {pg_round_down b} h'"
      "live h' = live h" "sizes_kept h h'" "pmem (pal h') = pmem (pal h)"
proof -
  note d = desc_of_ok [OF heap_invD(2) [OF inv] i]
  have l: "length (descs h) = 7" using heap_invD(2) [OF inv] by (simp add: descs_ok_def)
  have ub: "unat (blocks_per_arena (descs h ! i)) = bpa i" using d desc_okD(2) i by blast
  obtain a ps where g: "palloc_get_multiple (pal h) 0 1 = Some (a, ps)" "palloc_ok ps"
    "if a = 0 then ps = pal h else pg_ofs a = 0 \<and> in_space a (4096 * unat (1 :: size_t)) \<and>
       pages a (unat (1 :: size_t)) \<inter> kused (pal h) = {} \<and> kused ps = kused (pal h) \<union> pages a (unat (1 :: size_t))"
    using kp.get_law [OF heap_invD(1) [OF inv], of 1] unfolding kused_def by auto
  show thesis
  proof (cases "a = 0")
    case True
    then show thesis using that(1) d g by (simp add: new_arena_def palloc_get_page_def)
  next
    case False
    let ?r = "\<lparr>magic = ARENA_MAGIC, arena_desc = Some i, free_cnt = blocks_per_arena (descs h ! i)\<rparr>"
    let ?d = "(descs h ! i)\<lparr>free_list := map (blk a i) [0..<bpa i]\<rparr>"
    let ?h = "h\<lparr>pal := ps, arenas := (arenas h)(a \<mapsto> ?r), descs := (descs h)[i := ?d]\<rparr>"
    have g': "pg_ofs a = 0" "pages a (span ?r) \<inter> kused (pal h) = {}" "kused ps = kused (pal h) \<union> pages a (span ?r)" "0 < span ?r"
      using g(3) False by (simp_all add: span_def)
    have "push_blocks i a [0..<bpa i] (h\<lparr>pal := ps, arenas := (arenas h)(a \<mapsto> ?r)\<rparr>) = Some ?h"
      using push_blocks_ok [of "h\<lparr>pal := ps, arenas := (arenas h)(a \<mapsto> ?r)\<rparr>" a ?r i "[0..<bpa i]"] False i nil heap_invD(2) [OF inv]
      by (simp add: set_desc_def)
    then have eq: "new_arena i h = Some (True, ?h)"
      using d g(1) False ub by (simp add: new_arena_def palloc_get_page_def Let_def)
    from heap_inv_new_arena [OF inv g'(1) False _ g'(4) g(2) g'(2,3)]
    have inv': "heap_inv {a} ?h" and none: "arenas h a = None" using i nil ub by simp_all
    have own: "own_blocks a ?r = set (map (blk a i) [0..<bpa i])" by (simp add: own_blocks_def atLeast0LessThan)
    have fs: "free_set (descs ?h) = free_set (descs h) \<union> own_blocks a ?r"
      using free_set_update [OF l i, of ?d] free_set_split [OF i, of "descs h"] nil own by simp
    have "blocks_of (arenas ?h) = blocks_of (arenas h) \<union> own_blocks a ?r" using blocks_of_new [of "arenas h", OF none] by simp
    then have lv: "live ?h = live h" using fs own_blocks_fresh [OF inv none g'(1), of ?r] unfolding live_def by blast
    have "sizes_kept h ?h" using none by (intro sizes_keptI [OF inv inv']) (auto split: if_splits)
    moreover have "free_list (descs ?h ! i) = blk a i 0 # map (blk a i) [1..<bpa i]"
      using l i bpa_pos [OF i] by (simp add: upt_conv_Cons)
    moreover have "pg_round_down (blk a i 0) = a" using blk_addr(2) [OF g'(1) bpa_pos [OF i]] .
    ultimately show thesis using that(2) [OF eq] inv' lv get_keeps_memory [OF g(1)] by simp
  qed
qed

lemma live_blocks: "live h \<subseteq> blocks_of (arenas h)"
  by (auto simp: live_def)

lemma sizes_kept_trans:
  assumes "sizes_kept h h'" "sizes_kept h' h''" "live h \<inter> live h'' \<subseteq> live h'"
  shows "sizes_kept h h''"
  using assms unfolding sizes_kept_def by (metis IntD1 IntD2 IntI subsetD)

lemma malloc_small_ok:
  assumes inv: "heap_inv {} h" and sz: "sz \<noteq> 0" and i: "find_desc sz 0 (descs h) = i" "i < 7" "sz \<le> block_size (descs h ! i)"
  shows "\<exists>p h'. malloc h sz = Some (p, h') \<and> malloc_result h (unat sz) p h'"
proof -
  note d = desc_of_ok [OF heap_invD(2) [OF inv] i(2)]
  have l: "length (descs h) = 7" using heap_invD(2) [OF inv] by (simp add: descs_ok_def)
  have le: "unat sz \<le> bsize i" using i(3) d desc_okD(1) i(2) by (metis word_le_nat_alt)
  have unf: "malloc h sz = do { (ok, h) \<leftarrow> (if free_list (descs h ! i) = [] then new_arena i h else Some (True, h));
     if \<not> ok then Some (0, h) else pop_block i h }"
    using sz i d l by (simp add: malloc_def)
  have pop: "\<exists>p h''. pop_block i h' = Some (p, h'') \<and> malloc_result h (unat sz) p h''"
    if h': "free_list (descs h' ! i) = b # bs" "heap_inv E h'" "E \<subseteq> {pg_round_down b}" "live h' = live h" "sizes_kept h h'"
      "pmem (pal h') = pmem (pal h)" for h' b bs E
  proof -
    obtain h'' where p: "pop_block i h' = Some (b, h'')" "heap_inv {} h''" "live h'' = insert b (live h')" "b \<notin> live h'"
      "pal h'' = pal h'" "arena_kind (arenas h'') = arena_kind (arenas h')"
      "\<forall>a r. arenas h' a = Some r \<longrightarrow> arena_desc r = None \<longrightarrow> arenas h'' a = Some r"
      by (rule pop_block_ok [OF h'(2) i(2) h'(1,3)])
    have kind: "arena_desc s = arena_desc r" if "arenas h' a = Some r" "arenas h'' a = Some s" for a r s
      using fun_cong [OF p(6), of a] that by (simp add: arena_kind_def)
    have "sizes_kept h' h''"
    proof (rule sizes_keptI [OF h'(2) p(2)])
      fix a r s assume s: "arenas h' a = Some r" "arenas h'' a = Some s"
      have "arena_desc r = None \<Longrightarrow> s = r" using p(7) s by simp
      then show "arena_desc s = arena_desc r \<and> (arena_desc r = None \<longrightarrow> free_cnt s = free_cnt r)"
        using kind [OF s] by blast
    qed
    then have sk: "sizes_kept h h''" using sizes_kept_trans [OF h'(5)] p(3) h'(4) by blast
    have ib: "is_block (arenas h') i b" using lists_okD(2) [OF h'(2) i(2)] h'(1) by simp
    then have "is_block (arenas h'') i b" using p(6) by (simp add: is_block_kind)
    then have "allocated_size h'' b = Some (of_nat (bsize i))" by (rule allocated_size_small [OF p(2)])
    moreover have "unat (of_nat (bsize i) :: size_t) = bsize i" using bsize_le [OF i(2)] by (simp add: unat_of_nat_u32)
    moreover have "b \<noteq> 0"
    proof -
      obtain r k where "arenas h' (pg_round_down b) = Some r" by (rule is_blockE [OF h'(2) ib])
      then have "pg_round_down b \<noteq> 0" by (rule arena_nonzero [OF h'(2)])
      then show ?thesis by (auto simp: u32_eq_iff unat_pg_round_down)
    qed
    ultimately show ?thesis using p sk h'(4,6) le by (simp add: malloc_result_def)
  qed
  show ?thesis
  proof (cases "free_list (descs h ! i)")
    case (Cons b bs)
    then show ?thesis using pop [OF Cons inv] unf by (simp add: sizes_kept_def)
  next
    case Nil
    show ?thesis
    proof (rule new_arena_ok [OF inv i(2) Nil])
      assume "new_arena i h = Some (False, h)"
      then show ?thesis using unf Nil inv by (simp add: malloc_result_def sizes_kept_def)
    next
      fix h' b bs assume "new_arena i h = Some (True, h')" "free_list (descs h' ! i) = b # bs" "heap_inv {pg_round_down b} h'"
        "live h' = live h" "sizes_kept h h'" "pmem (pal h') = pmem (pal h)"
      then show ?thesis using pop [of h' b bs "{pg_round_down b}"] unf Nil by simp
    qed
  qed
qed

lemma malloc_ok:
  assumes inv: "heap_inv {} h" and sz: "unat sz + 12 + 4095 < 2 ^ 32"
  shows "\<exists>p h'. malloc h sz = Some (p, h') \<and> malloc_result h (unat sz) p h'"
proof (cases "sz = 0")
  case True
  then show ?thesis using inv by (simp add: malloc_def malloc_result_def sizes_kept_def)
next
  case False
  have l: "length (descs h) = 7" using heap_invD(2) [OF inv] by (simp add: descs_ok_def)
  obtain k where k: "k \<le> 7" "find_desc sz 0 (descs h) = k" "k < 7 \<longrightarrow> sz \<le> block_size (descs h ! k)"
    using find_desc_ok [of "descs h" sz 0] l by auto
  show ?thesis
  proof (cases "k < 7")
    case True
    then show ?thesis using malloc_small_ok [OF inv False k(2)] k(3) by simp
  next
    case False
    then show ?thesis using malloc_big_ok [OF inv \<open>sz \<noteq> 0\<close> sz] k l by simp
  qed
qed


subsection \<open>Where blocks lie\<close>

definition extent :: "heap \<Rightarrow> ptr \<Rightarrow> nat set" where
  "extent h b = (case allocated_size h b of None \<Rightarrow> {} | Some n \<Rightarrow> {unat b ..< unat b + unat n})"

definition arena_bytes :: "ptr \<Rightarrow> nat \<Rightarrow> nat set" where
  "arena_bytes a n = {unat a ..< unat a + 4096 * n}"

lemma unat_plus_of_nat: "unat (x :: u32) + n < 2 ^ 32 \<Longrightarrow> unat (x + of_nat n) = unat x + n"
  by (simp add: unat_add_u32 unat_of_nat_u32)

lemma kused_mapped:
  assumes ps: "palloc_ok ps" and a: "pg_ofs a = 0" "0 < n" "pages a n \<subseteq> kused ps"
  shows "mapped (pmem ps) a (4096 * n)" and "unat a + 4096 * n < 2 ^ 32" and "in_space a (4096 * n)"
proof -
  let ?p = "get_pool False ps"
  note pok = get_pool_ok [OF ps, of False]
  note d = pool_okD [OF pok]
  have sub: "pages a n \<subseteq> pool_pages ?p" using a(3) used_pages_subset [of ?p] by (auto simp: kused_def)
  obtain q B where q: "unat a = 4096 * q" "unat (base ?p) = 4096 * B" using aligned_unat [OF a(1)] d(3) by metis
  have "unat a div 4096 \<in> pages a n" "unat a div 4096 + n - 1 \<in> pages a n" using a(2) by (auto simp: pages_def)
  then have r: "B \<le> q" "q + n \<le> B + unat (bit_cnt (used_map ?p))"
    using sub q a(2) by (auto simp: pool_pages_def pages_def)
  have "unat (base ?p + of_nat (4096 * (q - B))) = unat (base ?p) + 4096 * (q - B)"
    using r d(4) q(2) a(2) by (intro unat_plus_of_nat) simp
  then have "unat (base ?p + of_nat (4096 * (q - B))) = unat a" unfolding q using r(1) by simp
  then have "base ?p + of_nat (4096 * (q - B)) = a" by (simp add: u32_eq_iff)
  then show "mapped (pmem ps) a (4096 * n)"
    using mapped_offset [OF d(5), of "4096 * (q - B)" "4096 * n"] r by simp
  show lt: "unat a + 4096 * n < 2 ^ 32" using r d(4) q by simp
  show "in_space a (4096 * n)" using lt kused_nonzero [OF ps a(3,2)] by (simp add: in_space_def)
qed

lemma arena_space:
  assumes "heap_inv E h" "arenas h a = Some r"
  shows "mapped (pmem (pal h)) a (4096 * span r)" and "unat a + 4096 * span r < 2 ^ 32" and "in_space a (4096 * span r)"
  using kused_mapped [OF heap_invD(1) [OF assms(1)]] arena_okD(2-4) [OF heap_invD(4) [OF assms]] by blast+

lemma allocated_in_arena:
  assumes inv: "heap_inv E h" and b: "b \<in> blocks_of (arenas h)"
  obtains r k n where "arenas h (pg_round_down b) = Some r" "allocated_size h b = Some n"
    "b = pg_round_down b + of_nat k" "12 \<le> k" "k + unat n \<le> 4096 * span r" "unat b = unat (pg_round_down b) + k" "0 < unat n"
proof (rule blocks_ofE [OF inv b])
  fix r assume r: "arenas h (pg_round_down b) = Some r" "arena_desc r = None" "b = pg_round_down b + 12"
  note ok = arena_okD [OF heap_invD(4) [OF inv r(1)]]
  note sp = arena_space [OF inv r(1)]
  have s: "span r = unat (free_cnt r)" using r(2) by (simp add: span_def)
  have "unat (PGSIZE * free_cnt r) = 4096 * span r" using sp(2) s by (simp add: unat_mult_u32 PGSIZE_def)
  then have "unat (PGSIZE * free_cnt r - 12) = 4096 * span r - 12" using ok(4) by (simp add: unat_sub_u32 word_le_nat_alt)
  then show thesis
    using that [OF r(1), of "PGSIZE * free_cnt r - 12" 12] allocated_size_big(1) [OF inv r(1,2)] r(3) in_page(1) [OF ok(2), of 12] ok(4)
    by simp
next
  fix i r k assume r: "is_block (arenas h) i b" "arenas h (pg_round_down b) = Some r" "arena_desc r = Some i" "i < 7" "k < bpa i"
    "b = blk (pg_round_down b) i k"
  note ok = arena_okD [OF heap_invD(4) [OF inv r(2)]]
  have "unat (of_nat (bsize i) :: size_t) = bsize i" using bsize_le [OF r(4)] by (simp add: unat_of_nat_u32)
  moreover have "span r = 1" using r(3) by (simp add: span_def)
  ultimately show thesis
    using that [OF r(2) allocated_size_small [OF inv r(1)], of "12 + k * bsize i"] r(6) block_fits [OF r(5)]
      blk_addr(1) [OF ok(2) r(5)] by (simp add: blk_def)
qed

lemma extent_in_arena:
  assumes inv: "heap_inv E h" and b: "b \<in> blocks_of (arenas h)"
  shows "\<exists>r. arenas h (pg_round_down b) = Some r \<and>
    extent h b \<subseteq> {unat (pg_round_down b) + 12 ..< unat (pg_round_down b) + 4096 * span r}"
  by (rule allocated_in_arena [OF assms]) (auto simp: extent_def)

lemma arenas_disjoint:
  assumes inv: "heap_inv E h" and r: "arenas h a = Some r" "arenas h b = Some s" "a \<noteq> b"
  shows "arena_bytes a (span r) \<inter> arena_bytes b (span s) = {}"
proof -
  have "x div 4096 \<in> pages c n" if c: "pg_ofs c = 0" "x \<in> arena_bytes c n" for x c n
  proof -
    obtain q where "unat c = 4096 * q" using aligned_unat [OF c(1)] by blast
    then show ?thesis using c(2) by (auto simp: arena_bytes_def pages_def)
  qed
  then show ?thesis
    using heap_invD(6) [OF inv r] arena_okD(2) [OF heap_invD(4) [OF inv r(1)]] arena_okD(2) [OF heap_invD(4) [OF inv r(2)]] by blast
qed

lemma small_extent:
  assumes "heap_inv E h" "arenas h a = Some r" "arena_desc r = Some i" "k < bpa i"
  shows "extent h (blk a i k) = {unat a + 12 + k * bsize i ..< unat a + 12 + Suc k * bsize i}"
proof -
  note ok = arena_okD [OF heap_invD(4) [OF assms(1,2)]]
  have "is_block (arenas h) i (blk a i k)" using assms(2-4) by (auto simp: is_block_def)
  moreover have "unat (of_nat (bsize i) :: size_t) = bsize i" using bsize_le [OF ok(5) [OF assms(3)]] by (simp add: unat_of_nat_u32)
  ultimately show ?thesis
    using allocated_size_small [OF assms(1)] blk_addr(1) [OF ok(2) assms(4)] by (simp add: extent_def ac_simps)
qed

lemma steps_disjoint:
  fixes k l s c :: nat
  assumes "k \<noteq> l"
  shows "{c + k * s ..< c + Suc k * s} \<inter> {c + l * s ..< c + Suc l * s} = {}"
proof -
  have "Suc k * s \<le> l * s \<or> Suc l * s \<le> k * s" using assms mult_le_mono1 [of "Suc k" l s] mult_le_mono1 [of "Suc l" k s] by linarith
  then show ?thesis by auto
qed

lemma block_owned:
  assumes "heap_inv E h" "b \<in> blocks_of (arenas h)" "arenas h (pg_round_down b) = Some r"
  shows "b \<in> own_blocks (pg_round_down b) r"
proof -
  obtain a s where a: "arenas h a = Some s" "b \<in> own_blocks a s" using assms(2) by (auto simp: blocks_of_own)
  have "pg_round_down b = a" using own_blocks_page [OF arena_okD(2) [OF heap_invD(4) [OF assms(1) a(1)]] a(2)] .
  then show ?thesis using a assms(3) by simp
qed

lemma extents_disjoint:
  assumes inv: "heap_inv E h" and b: "b \<in> blocks_of (arenas h)" "c \<in> blocks_of (arenas h)" "b \<noteq> c"
  shows "extent h b \<inter> extent h c = {}"
proof -
  obtain r where r: "arenas h (pg_round_down b) = Some r"
    "extent h b \<subseteq> {unat (pg_round_down b) + 12 ..< unat (pg_round_down b) + 4096 * span r}"
    using extent_in_arena [OF inv b(1)] by blast
  obtain s where s: "arenas h (pg_round_down c) = Some s"
    "extent h c \<subseteq> {unat (pg_round_down c) + 12 ..< unat (pg_round_down c) + 4096 * span s}"
    using extent_in_arena [OF inv b(2)] by blast
  show ?thesis
  proof (cases "pg_round_down b = pg_round_down c")
    case False
    have "extent h b \<subseteq> arena_bytes (pg_round_down b) (span r)" "extent h c \<subseteq> arena_bytes (pg_round_down c) (span s)"
      using r(2) s(2) by (auto simp: arena_bytes_def)
    then show ?thesis using arenas_disjoint [OF inv r(1) s(1) False] by blast
  next
    case True
    have o: "b \<in> own_blocks (pg_round_down b) r" "c \<in> own_blocks (pg_round_down b) r"
      using block_owned [OF inv b(1) r(1)] block_owned [OF inv b(2), of r] r(1) True by simp_all
    show ?thesis
    proof (cases "arena_desc r")
      case None
      then show ?thesis using o b(3) by (simp add: own_blocks_def)
    next
      case (Some i)
      then obtain k l where kl: "k < bpa i" "b = blk (pg_round_down b) i k" "l < bpa i" "c = blk (pg_round_down b) i l"
        using o by (auto simp: own_blocks_def)
      have "extent h (blk (pg_round_down b) i k) \<inter> extent h (blk (pg_round_down b) i l) = {}"
        unfolding small_extent [OF inv r(1) Some kl(1)] small_extent [OF inv r(1) Some kl(3)]
        using kl(2,4) b(3) by (intro steps_disjoint) auto
      then show ?thesis using kl(2,4) by metis
    qed
  qed
qed

subsection \<open>Release\<close>

definition contents_kept :: "heap \<Rightarrow> heap \<Rightarrow> bool" where
  "contents_kept h h' \<longleftrightarrow> (\<forall>c \<in> live h \<inter> live h'. \<forall>n. allocated_size h c = Some n \<longrightarrow>
     (\<forall>j < unat n. pmem (pal h') (c + of_nat j) = pmem (pal h) (c + of_nat j)))"

lemma put_outside:
  assumes "unat a + length bs < 2 ^ 32" "unat x \<notin> {unat a ..< unat a + length bs}"
  shows "put m a bs x = m x"
proof -
  have "x \<notin> block a (length bs)"
  proof
    assume "x \<in> block a (length bs)"
    then obtain i where i: "i < length bs" "x = a + of_nat i" by (auto simp: block_def)
    then have "unat x = unat a + i" using assms(1) by (simp add: unat_plus_of_nat)
    then show False using i(1) assms(2) by simp
  qed
  then show ?thesis using put_other by blast
qed

lemma extent_address:
  assumes "heap_inv E h" "c \<in> blocks_of (arenas h)" "allocated_size h c = Some n" "j < unat n"
  shows "unat (c + of_nat j) \<in> extent h c"
proof -
  obtain r k m where r: "arenas h (pg_round_down c) = Some r" "allocated_size h c = Some m"
    "k + unat m \<le> 4096 * span r" "unat c = unat (pg_round_down c) + k"
    by (rule allocated_in_arena [OF assms(1,2)])
  then have "unat c + unat n < 2 ^ 32" using arena_space(2) [OF assms(1) r(1)] assms(3) by simp
  then have "unat (c + of_nat j) = unat c + j" using assms(4) by (simp add: unat_plus_of_nat)
  then show ?thesis using assms(3,4) by (simp add: extent_def)
qed

lemma all_free:
  assumes inv: "heap_inv E h" and a: "arenas h a = Some r" "arena_desc r = Some i" and full: "unat (free_cnt r) = bpa i"
  shows "own_blocks a r \<subseteq> set (free_list (descs h ! i))"
proof -
  note ok = arena_okD [OF heap_invD(4) [OF inv a(1)]]
  let ?l = "in_arena a (free_list (descs h ! i))"
  have own: "own_blocks a r = blk a i ` {..<bpa i}" using a(2) by (simp add: own_blocks_def)
  have "set ?l \<subseteq> own_blocks a r"
  proof
    fix b assume "b \<in> set ?l"
    then have b: "is_block (arenas h) i b" "pg_round_down b = a"
      using lists_okD(2) [OF inv ok(5) [OF a(2)]] by (auto simp: in_arena_def)
    then show "b \<in> own_blocks a r" using block_owned [OF inv, of b r] a(1) by (auto simp: blocks_of_def)
  qed
  moreover have "distinct ?l" using lists_okD(1) [OF inv ok(5) [OF a(2)]] by (simp add: in_arena_def)
  then have "card (set ?l) = bpa i" using ok(7) [OF a(2)] full distinct_card by metis
  moreover have "card (own_blocks a r) = bpa i" using card_image [OF inj_blk [OF ok(2), of i]] by (simp add: own)
  ultimately have "set ?l = own_blocks a r" by (intro card_seteq) (simp_all add: own)
  then show ?thesis by (auto simp: in_arena_def)
qed

lemma heap_inv_drop_arena:
  assumes inv: "heap_inv E h" and a: "arenas h a = Some r"
    and ds: "case arena_desc r of None \<Rightarrow> ds = descs h
      | Some i \<Rightarrow> ds = (descs h)[i := (descs h ! i)\<lparr>free_list := filter (\<lambda>b. b \<notin> own_blocks a r) (free_list (descs h ! i))\<rparr>]"
    and ps: "palloc_ok ps" "kused ps = kused (pal h) - pages a (span r)"
  shows "heap_inv (E - {a}) (h\<lparr>pal := ps, arenas := (arenas h)(a := None), descs := ds\<rparr>)"
proof -
  note iD = heap_invD [OF inv]
  note ok = arena_okD [OF iD(4) [OF a]]
  have l: "length (descs h) = 7" using iD(2) by (simp add: descs_ok_def)
  have dj: "free_list (ds ! j) = (if arena_desc r = Some j then filter (\<lambda>b. b \<notin> own_blocks a r) (free_list (descs h ! j)) else free_list (descs h ! j))"
    if "j < 7" for j
    using ds that l by (cases "arena_desc r") (auto simp: nth_list_update)
  have dok: "descs_ok ds"
    using ds iD(2) descs_ok_update [OF iD(2)] desc_of_ok [OF iD(2)] ok(5) by (auto simp: desc_ok_def split: option.splits)
  have gone: "is_block ((arenas h)(a := None)) j b" if b: "j < 7" "b \<in> set (free_list (ds ! j))" for j b
  proof -
    have ib: "is_block (arenas h) j b" using b lists_okD(2) [OF inv b(1)] by (auto simp: dj split: if_splits)
    then obtain s k where s: "arenas h (pg_round_down b) = Some s" "arena_desc s = Some j" "k < bpa j" "b = blk (pg_round_down b) j k"
      by (rule is_blockE [OF inv])
    have "pg_round_down b \<noteq> a"
    proof
      assume "pg_round_down b = a"
      moreover have "b \<in> blocks_of (arenas h)" using ib by (auto simp: blocks_of_def)
      ultimately have "b \<in> own_blocks a r" "arena_desc r = Some j" using block_owned [OF inv, of b r] a s(1,2) by auto
      then show False using b by (simp add: dj)
    qed
    then show ?thesis using s unfolding is_block_def by (metis fun_upd_apply)
  qed
  have ls: "lists_ok ds ((arenas h)(a := None))"
    using gone lists_okD(1) [OF inv] by (auto simp: lists_ok_def dj)
  have aok: "arena_ok (kused ps) ds b s" if b: "((arenas h)(a := None)) b = Some s" for b s
  proof -
    have ne: "b \<noteq> a" and s: "arenas h b = Some s" using b by (auto split: if_splits)
    have "in_arena b (filter (\<lambda>c. c \<notin> own_blocks a r) xs) = in_arena b xs" for xs
      using own_blocks_page [OF ok(2)] ne by (auto simp: in_arena_def intro!: filter_cong)
    then have "in_arena b (free_list (ds ! j)) = in_arena b (free_list (descs h ! j))" if "j < 7" for j
      using dj [OF that] by simp
    moreover have "pages b (span s) \<subseteq> kused ps" using iD(6) [OF s a ne] arena_okD(3) [OF iD(4) [OF s]] ps(2) by blast
    ultimately show ?thesis using iD(4) [OF s] by (auto simp: arena_ok_def split: option.splits)
  qed
  show ?thesis unfolding heap_inv_def using ps(1) dok ls aok iD(5,6) by (auto split: if_splits)
qed

lemma free_pages_ok:
  assumes inv: "heap_inv E h" and a: "arenas h a = Some r" "span r = unat cnt"
  obtains ps where "palloc_free_multiple (pal h) a cnt = Some ps" "palloc_ok ps"
    "kused ps = kused (pal h) - pages a (span r)" "pmem ps = put (pmem (pal h)) a (replicate (4096 * span r) 0xcc)"
proof -
  note ok = arena_okD [OF heap_invD(4) [OF inv a(1)]]
  have sub: "pages a (unat cnt) \<subseteq> used_pages (get_pool False (pal h))" using ok(3) a(2) by (simp add: kused_def)
  then have "pages a (unat cnt) \<subseteq> pool_pages (get_pool False (pal h))" using used_pages_subset by blast
  moreover have "cnt \<noteq> 0" using ok(4) a(2) by (simp add: unat_gt_0)
  ultimately obtain ps where "palloc_free_multiple (pal h) a cnt = Some ps" "freed False (unat cnt) (pal h) a ps"
    using palloc_free_multiple_ok [OF heap_invD(1) [OF inv] arena_nonzero [OF inv a(1)] ok(2)] sub by metis
  then show thesis using that [of ps] a(2) by (simp add: freed_def kused_def)
qed


definition free_result :: "heap \<Rightarrow> ptr \<Rightarrow> heap \<Rightarrow> bool" where
  "free_result h p h' \<longleftrightarrow> heap_inv {} h' \<and> live h' = live h - {p} \<and> sizes_kept h h' \<and> contents_kept h h'"

lemma blocks_of_drop:
  assumes inv: "heap_inv E h" and a: "arenas h a = Some r"
  shows "blocks_of ((arenas h)(a := None)) = blocks_of (arenas h) - own_blocks a r"
proof -
  have pg: "pg_round_down b = c" if "arenas h c = Some s" "b \<in> own_blocks c s" for b c s
    using own_blocks_page [OF arena_okD(2) [OF heap_invD(4) [OF inv that(1)]] that(2)] .
  have "c = d" if "arenas h c = Some s" "b \<in> own_blocks c s" "arenas h d = Some t" "b \<in> own_blocks d t" for b c d s t
    using pg [OF that(1,2)] pg [OF that(3,4)] by simp
  note uniq = this
  have upd: "((arenas h)(a := None)) c = Some s \<longleftrightarrow> c \<noteq> a \<and> arenas h c = Some s" for c s by simp
  show ?thesis
  proof (intro set_eqI iffI)
    fix b assume "b \<in> blocks_of ((arenas h)(a := None))"
    then obtain c s where c: "c \<noteq> a" "arenas h c = Some s" "b \<in> own_blocks c s" unfolding blocks_of_own upd by blast
    then have "b \<notin> own_blocks a r" using uniq [OF a _ c(2,3)] by blast
    then show "b \<in> blocks_of (arenas h) - own_blocks a r" using c unfolding blocks_of_own by blast
  next
    fix b assume b: "b \<in> blocks_of (arenas h) - own_blocks a r"
    then obtain c s where c: "arenas h c = Some s" "b \<in> own_blocks c s" unfolding blocks_of_own by blast
    then have "c \<noteq> a" using a b by auto
    then show "b \<in> blocks_of ((arenas h)(a := None))" using c unfolding blocks_of_own upd by blast
  qed
qed

lemma contents_drop:
  assumes inv: "heap_inv E h" and a: "arenas h a = Some r"
    and m: "pmem (pal h') = put (pmem (pal h)) a (replicate (4096 * span r) v)" and gone: "live h' \<inter> own_blocks a r = {}"
  shows "contents_kept h h'"
  unfolding contents_kept_def
proof (intro ballI allI impI)
  fix c n j assume c: "c \<in> live h \<inter> live h'" "allocated_size h c = Some n" "j < unat n"
  have cb: "c \<in> blocks_of (arenas h)" using c(1) live_blocks by blast
  obtain s where s: "arenas h (pg_round_down c) = Some s"
    "extent h c \<subseteq> {unat (pg_round_down c) + 12 ..< unat (pg_round_down c) + 4096 * span s}"
    using extent_in_arena [OF inv cb] by blast
  have "pg_round_down c \<noteq> a"
  proof
    assume "pg_round_down c = a"
    then have "c \<in> own_blocks a r" using block_owned [OF inv cb, of r] a by simp
    then show False using gone c(1) by blast
  qed
  then have "arena_bytes (pg_round_down c) (span s) \<inter> arena_bytes a (span r) = {}" using arenas_disjoint [OF inv s(1) a] by blast
  moreover have "unat (c + of_nat j) \<in> arena_bytes (pg_round_down c) (span s)"
    using extent_address [OF inv cb c(2,3)] s(2) by (auto simp: arena_bytes_def)
  ultimately have "unat (c + of_nat j) \<notin> arena_bytes a (span r)" by blast
  then show "pmem (pal h') (c + of_nat j) = pmem (pal h) (c + of_nat j)"
    unfolding m using arena_space(2) [OF inv a] by (intro put_outside) (simp_all add: arena_bytes_def)
qed

lemma contents_kept_trans:
  assumes "contents_kept h h'" "contents_kept h' h''" "sizes_kept h h'" "live h'' \<subseteq> live h'"
  shows "contents_kept h h''"
  unfolding contents_kept_def
proof (intro ballI allI impI)
  fix c n j assume c: "c \<in> live h \<inter> live h''" "allocated_size h c = Some n" "j < unat n"
  then have l: "c \<in> live h \<inter> live h'" "c \<in> live h' \<inter> live h''" using assms(4) by auto
  then have "allocated_size h' c = Some n" using assms(3) c(2) by (simp add: sizes_kept_def)
  then show "pmem (pal h'') (c + of_nat j) = pmem (pal h) (c + of_nat j)"
    using assms(1,2) c l unfolding contents_kept_def by simp
qed

lemma free_big_ok:
  assumes inv: "heap_inv {} h" and a: "arenas h a = Some r" "arena_desc r = None"
  shows "\<exists>h'. free h (a + 12) = Some h' \<and> free_result h (a + 12) h'"
proof -
  have sp: "span r = unat (free_cnt r)" using a(2) by (simp add: span_def)
  obtain ps where f: "palloc_free_multiple (pal h) a (free_cnt r) = Some ps" "palloc_ok ps"
    "kused ps = kused (pal h) - pages a (span r)" "pmem ps = put (pmem (pal h)) a (replicate (4096 * span r) 0xcc)"
    by (rule free_pages_ok [OF inv a(1) sp])
  let ?h = "h\<lparr>pal := ps, arenas := (arenas h)(a := None)\<rparr>"
  have "a + 12 \<noteq> 0"
  proof
    assume "a + 12 = 0"
    then show False using in_page(1) [OF arena_okD(2) [OF heap_invD(4) [OF inv a(1)]], of 12] by simp
  qed
  then have eq: "free h (a + 12) = Some ?h" using allocated_size_big(2) [OF inv a] a(2) f(1) by (simp add: free_def free_pages_def)
  have "heap_inv ({} - {a}) (h\<lparr>pal := ps, arenas := (arenas h)(a := None), descs := descs h\<rparr>)"
    using heap_inv_drop_arena [OF inv a(1) _ f(2,3), of "descs h"] a(2) by simp
  then have inv': "heap_inv {} ?h" by simp
  have own: "own_blocks a r = {a + 12}" using a(2) by (simp add: own_blocks_def)
  have lv: "live ?h = live h - {a + 12}" using blocks_of_drop [OF inv a(1)] own by (auto simp: live_def)
  have "sizes_kept h ?h" by (intro sizes_keptI [OF inv inv']) (auto split: if_splits)
  moreover have "contents_kept h ?h"
    using contents_drop [OF inv a(1), of ?h] f(4) lv own by simp
  ultimately show ?thesis using eq inv' lv by (auto simp: free_result_def)
qed


definition pushed :: "heap \<Rightarrow> ptr \<Rightarrow> arena \<Rightarrow> nat \<Rightarrow> ptr \<Rightarrow> heap" where
  "pushed h a r i p = set_desc i ((descs h ! i)\<lparr>free_list := p # free_list (descs h ! i)\<rparr>)
     (h\<lparr>pal := (pal h)\<lparr>pmem := put (pmem (pal h)) p (replicate (bsize i) 0xcc)\<rparr>,
        arenas := (arenas h)(a \<mapsto> r\<lparr>free_cnt := free_cnt r + 1\<rparr>)\<rparr>)"

lemma block_space:
  assumes inv: "heap_inv E h" and b: "b \<in> blocks_of (arenas h)" "allocated_size h b = Some n"
  shows "mapped (pmem (pal h)) b (unat n)" and "in_space b (unat n)" and "unat b + unat n < 2 ^ 32"
proof -
  obtain r k m where r: "arenas h (pg_round_down b) = Some r" "allocated_size h b = Some m"
    "b = pg_round_down b + of_nat k" "k + unat m \<le> 4096 * span r" "unat b = unat (pg_round_down b) + k"
    by (rule allocated_in_arena [OF inv b(1)])
  then have le: "k + unat n \<le> 4096 * span r" using b(2) by simp
  note sp = arena_space [OF inv r(1)]
  show lt: "unat b + unat n < 2 ^ 32" using le sp(2) r(5) by simp
  have "b \<noteq> 0" using r(5) arena_nonzero [OF inv r(1)] by (metis add_is_0 unat_0 unat_eq_0)
  then show "in_space b (unat n)" using lt by (simp add: in_space_def)
  show "mapped (pmem (pal h)) b (unat n)" using mapped_offset [OF sp(1) le] r(3) by simp
qed

lemma block_memset:
  assumes inv: "heap_inv E h" and p: "is_block (arenas h) i p" "i < 7"
  shows "memset (pmem (pal h)) p 0xcc (block_size (descs h ! i)) = Some (p, put (pmem (pal h)) p (replicate (bsize i) 0xcc))"
    and "unat p + bsize i < 2 ^ 32"
proof -
  have pb: "p \<in> blocks_of (arenas h)" using p(1) by (auto simp: blocks_of_def)
  have u: "unat (of_nat (bsize i) :: size_t) = bsize i" using bsize_le [OF p(2)] by (simp add: unat_of_nat_u32)
  note sp = block_space [OF inv pb allocated_size_small [OF inv p(1)], unfolded u]
  show "unat p + bsize i < 2 ^ 32" using sp(3) .
  show "memset (pmem (pal h)) p 0xcc (block_size (descs h ! i)) = Some (p, put (pmem (pal h)) p (replicate (bsize i) 0xcc))"
    using memset_ok [OF sp(1,2), of "0xcc"] desc_of_ok [OF heap_invD(2) [OF inv] p(2)] by (simp add: desc_ok_def)
qed

lemma pushed_ok:
  assumes inv: "heap_inv {} h" and p: "p \<in> live h" "is_block (arenas h) i p" "i < 7" "pg_round_down p = a"
    and a: "arenas h a = Some r" "arena_desc r = Some i"
  shows "heap_inv (if unat (free_cnt r) + 1 < bpa i then {} else {a}) (pushed h a r i p)"
    and "live (pushed h a r i p) = live h - {p}" and "unat (free_cnt r + 1) = unat (free_cnt r) + 1"
    and "sizes_kept h (pushed h a r i p)" and "contents_kept h (pushed h a r i p)"
proof -
  let ?m = "put (pmem (pal h)) p (replicate (bsize i) 0xcc)" and ?fl = "free_list (descs h ! i)"
  let ?h0 = "h\<lparr>pal := (pal h)\<lparr>pmem := ?m\<rparr>\<rparr>" and ?h1 = "pushed h a r i p"
  note ok = arena_okD [OF heap_invD(4) [OF inv a(1)]]
  have lt: "unat (free_cnt r) < bpa i" using heap_invD(5) [OF inv a] by simp
  moreover have "bpa i \<le> 4084" by (simp add: bpa_def)
  ultimately show u: "unat (free_cnt r + 1) = unat (free_cnt r) + 1" by (simp add: unat_add_u32)
  have "palloc_ok ((pal h)\<lparr>pmem := ?m\<rparr>)" using palloc_ok_pmem [OF heap_invD(1) [OF inv]] mapped_put by blast
  then have inv0: "heap_inv {} ?h0" by (intro heap_inv_palloc [OF inv]) (simp_all add: kused_def get_pool_def)
  have pf: "p \<notin> set ?fl" using p(1,3) by (auto simp: live_def free_set_def)
  have h1: "?h1 = set_desc i ((descs ?h0 ! i)\<lparr>free_list := p # ?fl\<rparr>) (?h0\<lparr>arenas := (arenas ?h0)(a \<mapsto> r\<lparr>free_cnt := free_cnt r + 1\<rparr>)\<rparr>)"
    by (simp add: pushed_def)
  have "unat (free_cnt r + 1) = length (in_arena a (p # ?fl))" "unat (free_cnt r + 1) \<le> bpa i"
    using u ok(7) [OF a(2)] p(4) lt by (simp_all add: in_arena_Cons)
  moreover have "distinct (p # ?fl)" using pf lists_okD(1) [OF inv p(3)] by simp
  moreover have "\<And>b. b \<in> set (p # ?fl) \<Longrightarrow> is_block (arenas h) i b" using lists_okD(2) [OF inv p(3)] p(2) by auto
  moreover have "\<And>c. c \<noteq> a \<Longrightarrow> in_arena c (p # ?fl) = in_arena c ?fl" using p(4) by (simp add: in_arena_Cons)
  ultimately have "heap_inv (if unat (free_cnt r + 1) < bpa i then {} - {a} else insert a {}) ?h1"
    using heap_inv_relist [OF inv0 _ a(2) h1] a(1) by simp
  then show inv1: "heap_inv (if unat (free_cnt r) + 1 < bpa i then {} else {a}) ?h1" using u by (simp split: if_splits)
  have l: "length (descs h) = 7" using heap_invD(2) [OF inv] by (simp add: descs_ok_def)
  have "free_set (descs ?h1) = insert p (free_set (descs h))"
    using free_set_update [OF l p(3), of "(descs h ! i)\<lparr>free_list := p # ?fl\<rparr>"] free_set_split [OF p(3), of "descs h"] by (auto simp: pushed_def)
  moreover have "blocks_of (arenas ?h1) = blocks_of (arenas h)" using blocks_of_free_cnt [of "arenas h", OF a(1)] by (simp add: pushed_def)
  ultimately show lv: "live ?h1 = live h - {p}" by (auto simp: live_def)
  show "sizes_kept h ?h1" using a by (intro sizes_keptI [OF inv inv1]) (auto simp: pushed_def split: if_splits)
  show "contents_kept h ?h1"
    unfolding contents_kept_def
  proof (intro ballI allI impI)
    fix c n j assume c: "c \<in> live h \<inter> live ?h1" "allocated_size h c = Some n" "j < unat n"
    have cb: "c \<in> blocks_of (arenas h)" "p \<in> blocks_of (arenas h)" "c \<noteq> p" using c(1) lv p(1) live_blocks by auto
    have "unat (of_nat (bsize i) :: size_t) = bsize i" using bsize_le [OF p(3)] by (simp add: unat_of_nat_u32)
    then have "extent h p = {unat p ..< unat p + bsize i}" using allocated_size_small [OF inv p(2)] by (simp add: extent_def)
    then have "unat (c + of_nat j) \<notin> {unat p ..< unat p + bsize i}"
      using extents_disjoint [OF inv cb] extent_address [OF inv cb(1) c(2,3)] by blast
    then show "pmem (pal ?h1) (c + of_nat j) = pmem (pal h) (c + of_nat j)"
      using put_outside [of p "replicate (bsize i) 0xcc"] block_memset(2) [OF inv p(2,3)] by (simp add: pushed_def)
  qed
qed


lemma free_small_eq:
  assumes inv: "heap_inv {} h" and p: "is_block (arenas h) i p" "i < 7" "pg_round_down p = a"
    and a: "arenas h a = Some r" "arena_desc r = Some i"
  shows "free h p = (if blocks_per_arena (descs h ! i) \<le> free_cnt r + 1
     then do { kassert (free_cnt r + 1 = blocks_per_arena (descs h ! i));
       h \<leftarrow> remove_blocks i a [0..<bpa i] (pushed h a r i p); free_pages a 1 h }
     else Some (pushed h a r i p))"
proof -
  note d = desc_of_ok [OF heap_invD(2) [OF inv] p(2)]
  note ok = arena_okD [OF heap_invD(4) [OF inv a(1)]]
  note bm = block_memset [OF inv p(1,2)]
  obtain k where k: "k < bpa i" "p = blk a i k" using p(1,3) by (metis is_blockE [OF inv])
  have ba: "block_to_arena h p = Some (a, r)"
    unfolding k(2) by (rule block_to_arena_blk [OF a(1) ok(1,2) arena_nonzero [OF inv a(1)] a(2) p(2) heap_invD(2) [OF inv] k(1)])
  have "p \<noteq> 0" using p(3) arena_nonzero [OF inv a(1)] by (auto simp: u32_eq_iff unat_pg_round_down)
  then show ?thesis
    using ba a(2) d bm(1) desc_okD(2) [OF _ p(2)] by (simp add: free_def Let_def pushed_def)
qed

lemma free_small_ok:
  assumes inv: "heap_inv {} h" and p: "p \<in> live h" "is_block (arenas h) i p" "i < 7" "pg_round_down p = a"
    and a: "arenas h a = Some r" "arena_desc r = Some i"
  shows "\<exists>h'. free h p = Some h' \<and> free_result h p h'"
proof -
  let ?h1 = "pushed h a r i p" and ?r1 = "r\<lparr>free_cnt := free_cnt r + 1\<rparr>"
  note d = desc_of_ok [OF heap_invD(2) [OF inv] p(3)]
  note ok = arena_okD [OF heap_invD(4) [OF inv a(1)]]
  note pu = pushed_ok [OF inv p a]
  have ub: "unat (blocks_per_arena (descs h ! i)) = bpa i" using d desc_okD(2) p(3) by blast
  have lt: "unat (free_cnt r) < bpa i" using heap_invD(5) [OF inv a] by simp
  show ?thesis
  proof (cases "unat (free_cnt r) + 1 < bpa i")
    case True
    then have "free h p = Some ?h1"
      using free_small_eq [OF inv p(2-4) a] ub pu(3) by (simp add: word_le_nat_alt)
    then show ?thesis using pu True by (simp add: free_result_def)
  next
    case False
    then have full: "unat (free_cnt r + 1) = bpa i" using lt pu(3) by simp
    have inv1: "heap_inv {a} ?h1" using pu(1) False by simp
    have a1: "arenas ?h1 a = Some ?r1" "arena_desc ?r1 = Some i" using a(2) by (simp_all add: pushed_def)
    have own: "own_blocks a ?r1 = blk a i ` {..<bpa i}" using a(2) by (simp add: own_blocks_def)
    have sub: "own_blocks a ?r1 \<subseteq> set (free_list (descs ?h1 ! i))" using all_free [OF inv1 a1] full by simp
    let ?d2 = "(descs ?h1 ! i)\<lparr>free_list := filter (\<lambda>b. b \<notin> own_blocks a ?r1) (free_list (descs ?h1 ! i))\<rparr>"
    let ?h2 = "set_desc i ?d2 ?h1"
    have rm: "remove_blocks i a [0..<bpa i] ?h1 = Some ?h2"
      using remove_blocks_ok [OF a1(1) _ arena_nonzero [OF inv1 a1(1)] a1(2) p(3) ok(2) heap_invD(2) [OF inv1], of "[0..<bpa i]"]
        sub ok(1) lists_okD(1) [OF inv1 p(3)] own by (simp add: atLeast0LessThan)
    have sp: "span ?r1 = unat (1 :: size_t)" using a(2) by (simp add: span_def)
    obtain ps where f: "palloc_free_multiple (pal ?h1) a 1 = Some ps" "palloc_ok ps"
      "kused ps = kused (pal ?h1) - pages a (span ?r1)" "pmem ps = put (pmem (pal ?h1)) a (replicate (4096 * span ?r1) 0xcc)"
      by (rule free_pages_ok [OF inv1 a1(1) sp])
    let ?h3 = "?h1\<lparr>pal := ps, arenas := (arenas ?h1)(a := None), descs := (descs ?h1)[i := ?d2]\<rparr>"
    have "?h2\<lparr>pal := ps, arenas := (arenas ?h2)(a := None)\<rparr> = ?h3" by (rule heap.equality) simp_all
    then have "free_pages a 1 ?h2 = Some ?h3" using f(1) by (simp add: free_pages_def)
    then have eq: "free h p = Some ?h3"
      using free_small_eq [OF inv p(2-4) a] ub full rm by (simp add: word_le_nat_alt u32_eq_iff)
    have inv3: "heap_inv {} ?h3" using heap_inv_drop_arena [OF inv1 a1(1) _ f(2,3), of "(descs ?h1)[i := ?d2]"] a1(2) by simp
    have l: "length (descs ?h1) = 7" using heap_invD(2) [OF inv1] by (simp add: descs_ok_def)
    have "b \<notin> own_blocks a ?r1" if "j \<in> {..<7} - {i}" "b \<in> set (free_list (descs ?h1 ! j))" for j b
    proof
      assume "b \<in> own_blocks a ?r1"
      then have "is_block (arenas ?h1) i b" unfolding is_block_def using a1 own by (intro exI [of _ a] exI [of _ ?r1]) auto
      then show False using not_other_list [OF inv1] that by blast
    qed
    then have fs: "free_set (descs ?h3) = free_set (descs ?h1) - own_blocks a ?r1"
      using free_set_update [OF l p(3), of ?d2] free_set_split [OF p(3), of "descs ?h1"] by auto
    have "own_blocks a ?r1 \<subseteq> free_set (descs ?h1)" using sub p(3) by (auto simp: free_set_def)
    then have lv: "live ?h3 = live ?h1" "live ?h3 \<inter> own_blocks a ?r1 = {}"
      using blocks_of_drop [OF inv1 a1(1)] fs by (auto simp: live_def)
    have "sizes_kept ?h1 ?h3" by (intro sizes_keptI [OF inv1 inv3]) (auto split: if_splits)
    then have "sizes_kept h ?h3" using sizes_kept_trans [OF pu(4)] lv by blast
    moreover have "contents_kept ?h1 ?h3" using contents_drop [OF inv1 a1(1), of ?h3] f(4) lv(2) by simp
    then have "contents_kept h ?h3" using contents_kept_trans [OF pu(5) _ pu(4)] lv by blast
    ultimately show ?thesis using eq inv3 lv pu(2) by (simp add: free_result_def)
  qed
qed

lemma free_ok:
  assumes inv: "heap_inv {} h" and p: "p \<in> live h"
  shows "\<exists>h'. free h p = Some h' \<and> free_result h p h'"
proof (rule blocks_ofE [OF inv subsetD [OF live_blocks p]])
  fix r assume "arenas h (pg_round_down p) = Some r" "arena_desc r = None" "p = pg_round_down p + 12"
  then show ?thesis using free_big_ok [OF inv, of "pg_round_down p" r] by metis
next
  fix i r k assume "is_block (arenas h) i p" "arenas h (pg_round_down p) = Some r" "arena_desc r = Some i" "i < 7"
  then show ?thesis using free_small_ok [OF inv p] by blast
qed


subsection \<open>Zeroed blocks and resizing\<close>

lemma desc_of_pal: "desc_of (h\<lparr>pal := ps\<rparr>) = desc_of h"
  by (intro ext) (simp add: desc_of_def)

lemma block_to_arena_pal: "block_to_arena (h\<lparr>pal := ps\<rparr>) = block_to_arena h"
  by (intro ext) (unfold block_to_arena_def desc_of_pal, simp)

lemma heap_inv_pmem:
  assumes inv: "heap_inv E h"
  shows "heap_inv E (h\<lparr>pal := (pal h)\<lparr>pmem := put (pmem (pal h)) p bs\<rparr>\<rparr>)"
    and "live (h\<lparr>pal := ps\<rparr>) = live h" and "allocated_size (h\<lparr>pal := ps\<rparr>) = allocated_size h"
proof -
  have "palloc_ok ((pal h)\<lparr>pmem := put (pmem (pal h)) p bs\<rparr>)" using palloc_ok_pmem [OF heap_invD(1) [OF inv]] mapped_put by blast
  then show "heap_inv E (h\<lparr>pal := (pal h)\<lparr>pmem := put (pmem (pal h)) p bs\<rparr>\<rparr>)"
    by (intro heap_inv_palloc [OF inv]) (simp_all add: kused_def get_pool_def)
  show "live (h\<lparr>pal := ps\<rparr>) = live h" by (simp add: live_def)
  show "allocated_size (h\<lparr>pal := ps\<rparr>) = allocated_size h"
    by (intro ext) (unfold allocated_size_def block_to_arena_pal desc_of_pal, simp)
qed

lemma contents_put:
  assumes inv: "heap_inv {} h" and p: "p \<in> live h" "allocated_size h p = Some n" "length bs \<le> unat n"
    and c: "c \<in> live h" "c \<noteq> p" "allocated_size h c = Some m" "j < unat m"
  shows "put (pmem (pal h)) p bs (c + of_nat j) = pmem (pal h) (c + of_nat j)"
proof -
  note b = subsetD [OF live_blocks p(1)] subsetD [OF live_blocks c(1)]
  have "unat (c + of_nat j) \<in> extent h c" using extent_address [OF inv b(2) c(3,4)] .
  then have "unat (c + of_nat j) \<notin> extent h p" using extents_disjoint [OF inv b(2,1)] c(2) by blast
  then show ?thesis using p(2,3) block_space(3) [OF inv b(1) p(2)] by (intro put_outside) (auto simp: extent_def)
qed

lemma live_nonzero: "heap_inv E h \<Longrightarrow> 0 \<notin> live h"
proof
  assume inv: "heap_inv E h" and z: "0 \<in> live h"
  obtain r where "arenas h (pg_round_down 0) = Some r" using extent_in_arena [OF inv subsetD [OF live_blocks z]] by blast
  then have "pg_round_down 0 \<noteq> 0" using arena_nonzero [OF inv] by blast
  then show False by (simp add: u32_eq_iff unat_pg_round_down)
qed

lemma blocks_apart:
  assumes inv: "heap_inv E h" and p: "p \<in> live h" "q \<in> live h" "p \<noteq> q" "allocated_size h p = Some n" "allocated_size h q = Some m"
    and k: "k \<le> unat n" "k \<le> unat m"
  shows "block p k \<inter> block q k = {}"
proof -
  note b = subsetD [OF live_blocks p(1)] subsetD [OF live_blocks p(2)]
  have "unat x \<in> extent h p" if "x \<in> block p k" for x
    using that extent_address [OF inv b(1) p(4)] k(1) by (fastforce simp: block_def)
  moreover have "unat x \<in> extent h q" if "x \<in> block q k" for x
    using that extent_address [OF inv b(2) p(5)] k(2) by (fastforce simp: block_def)
  ultimately show ?thesis using extents_disjoint [OF inv b p(3)] by blast
qed

lemma calloc_ok:
  assumes inv: "heap_inv {} h" and sz: "unat a * unat b + 12 + 4095 < 2 ^ 32"
  shows "\<exists>p h'. calloc h a b = Some (p, h') \<and> heap_inv {} h' \<and> sizes_kept h h' \<and> contents_kept h h' \<and>
    (if p = 0 then live h' = live h
     else p \<notin> live h \<and> live h' = insert p (live h) \<and> (\<exists>m. allocated_size h' p = Some m \<and> unat a * unat b \<le> unat m) \<and>
       (\<forall>j < unat a * unat b. pmem (pal h') (p + of_nat j) = Some 0))"
proof -
  have u: "unat (a * b) = unat a * unat b" using sz by (simp add: unat_mult_u32)
  obtain p h1 where m: "malloc h (a * b) = Some (p, h1)" "malloc_result h (unat a * unat b) p h1"
    using malloc_ok [OF inv, of "a * b"] sz u by auto
  have inv1: "heap_inv {} h1" and sk: "sizes_kept h h1" and pm: "pmem (pal h1) = pmem (pal h)"
    using m(2) by (simp_all add: malloc_result_def)
  consider (none) "a * b < a \<or> a * b < b" | (null) "\<not> (a * b < a \<or> a * b < b)" "p = 0" | (ok) "\<not> (a * b < a \<or> a * b < b)" "p \<noteq> 0"
    by blast
  then show ?thesis
  proof cases
    case none
    then show ?thesis using inv by (auto simp: calloc_def Let_def sizes_kept_def contents_kept_def)
  next
    case null
    then show ?thesis using m inv1 sk pm by (simp add: calloc_def Let_def malloc_result_def contents_kept_def)
  next
    case ok
    have r: "p \<notin> live h" "live h1 = insert p (live h)" using m(2) ok(2) by (simp_all add: malloc_result_def)
    obtain n where n: "allocated_size h1 p = Some n" "unat a * unat b \<le> unat n" using m(2) ok(2) by (auto simp: malloc_result_def)
    have pl: "p \<in> live h1" using r(2) by simp
    note sp = block_space [OF inv1 subsetD [OF live_blocks pl] n(1)]
    let ?bs = "replicate (unat a * unat b) (0 :: u8)"
    let ?h = "h1\<lparr>pal := (pal h1)\<lparr>pmem := put (pmem (pal h1)) p ?bs\<rparr>\<rparr>"
    have "memset (pmem (pal h1)) p 0 (a * b) = Some (p, put (pmem (pal h1)) p ?bs)"
      using memset_ok [OF mapped_mono [OF sp(1) n(2)] in_space_mono [OF sp(2) n(2)], of 0] by simp
    then have eq: "calloc h a b = Some (p, ?h)" using ok m(1) by (simp add: calloc_def Let_def)
    note h = heap_inv_pmem [OF inv1]
    have "contents_kept h ?h"
      unfolding contents_kept_def
    proof (intro ballI allI impI)
      fix c m j assume c: "c \<in> live h \<inter> live ?h" "allocated_size h c = Some m" "j < unat m"
      then have "c \<in> live h1" "c \<noteq> p" "allocated_size h1 c = Some m" using r sk by (auto simp: sizes_kept_def)
      then show "pmem (pal ?h) (c + of_nat j) = pmem (pal h) (c + of_nat j)"
        using contents_put [OF inv1 pl n(1), of ?bs c m j] n(2) c(3) pm by simp
    qed
    moreover have "sizes_kept h ?h" using sk by (simp add: sizes_kept_def h)
    moreover have "pmem (pal ?h) (p + of_nat j) = Some 0" if "j < unat a * unat b" for j
      using put_same [of j ?bs "pmem (pal h1)" p] that sp(3) n(2) by simp
    ultimately show ?thesis using eq ok(2) r n h by auto
  qed
qed


definition moved :: "heap \<Rightarrow> ptr \<Rightarrow> nat \<Rightarrow> ptr \<Rightarrow> heap \<Rightarrow> bool" where
  "moved h p n q h' \<longleftrightarrow> (\<exists>m. allocated_size h p = Some m \<and>
     (\<forall>j < min n (unat m). pmem (pal h') (q + of_nat j) = pmem (pal h) (p + of_nat j)))"

lemma realloc_moves:
  assumes inv: "heap_inv {} h" and p: "p \<in> live h" and n: "n \<noteq> 0"
    and m: "malloc h n = Some (q, h1)" "malloc_result h (unat n) q h1" "q \<noteq> 0"
  shows "\<exists>h'. realloc h p n = Some (q, h') \<and> heap_inv {} h' \<and> sizes_kept h h' \<and> contents_kept h h' \<and>
    q \<notin> live h \<and> live h' = insert q (live h - {p}) \<and> (\<exists>m. allocated_size h' q = Some m \<and> unat n \<le> unat m) \<and> moved h p (unat n) q h'"
proof -
  have inv1: "heap_inv {} h1" and sk: "sizes_kept h h1" and pm: "pmem (pal h1) = pmem (pal h)"
    and r: "q \<notin> live h" "live h1 = insert q (live h)" using m(2,3) by (simp_all add: malloc_result_def)
  obtain k where k: "allocated_size h1 q = Some k" "unat n \<le> unat k" using m(2,3) by (auto simp: malloc_result_def)
  have l: "p \<in> live h1" "q \<in> live h1" "p \<noteq> q" using r p by auto
  obtain s where s: "allocated_size h p = Some s"
    by (rule allocated_in_arena [OF inv subsetD [OF live_blocks p]])
  then have s1: "allocated_size h1 p = Some s" using sk p l(1) by (simp add: sizes_kept_def)
  define t where "t = (if n < s then n else s)"
  have t: "unat t = min (unat n) (unat s)" by (simp add: t_def word_less_nat_alt)
  note sp = block_space [OF inv1 subsetD [OF live_blocks l(1)] s1] and sq = block_space [OF inv1 subsetD [OF live_blocks l(2)] k(1)]
  have tp: "unat t \<le> unat s" "unat t \<le> unat k" using t k(2) by auto
  obtain bs where bs: "length bs = unat t" "bytes_at (pmem (pal h1)) p bs" using mapped_bytes [OF mapped_mono [OF sp(1) tp(1)]] by blast
  let ?h2 = "h1\<lparr>pal := (pal h1)\<lparr>pmem := put (pmem (pal h1)) q bs\<rparr>\<rparr>"
  have "block q (unat t) \<inter> block p (unat t) = {}" using blocks_apart [OF inv1 l(2,1) _ k(1) s1 tp(2,1)] l(3) by simp
  then have cpy: "memcpy (pmem (pal h1)) q p t = Some (q, put (pmem (pal h1)) q bs)"
    using memcpy_ok [OF bs(2), of q] mapped_mono [OF sq(1) tp(2)] in_space_mono [OF sp(2) tp(1)] in_space_mono [OF sq(2) tp(2)] bs(1) by simp
  note h2 = heap_inv_pmem [OF inv1]
  have inv2: "heap_inv {} ?h2" by (rule h2)
  obtain h3 where f: "free ?h2 p = Some h3" "free_result ?h2 p h3" using free_ok [OF inv2, of p] l(1) h2(2) by auto
  have p0: "p \<noteq> 0" using p live_nonzero [OF inv] by auto
  have eq: "realloc h p n = Some (q, h3)"
    using n m(1,3) p0 s1 cpy f(1) by (simp add: realloc_def Let_def t_def)
  have inv3: "heap_inv {} h3" and l3: "live h3 = insert q (live h - {p})" and sk3: "sizes_kept ?h2 h3" and ck3: "contents_kept ?h2 h3"
    using f(2) r(2) l(3) by (auto simp: free_result_def h2)
  have sk2: "sizes_kept h ?h2" using sk by (simp add: sizes_kept_def h2)
  have sk': "sizes_kept h h3" using sizes_kept_trans [OF sk2 sk3] l3 r by (auto simp: h2)
  have ck2: "contents_kept h ?h2"
    unfolding contents_kept_def
  proof (intro ballI allI impI)
    fix c m j assume c: "c \<in> live h \<inter> live ?h2" "allocated_size h c = Some m" "j < unat m"
    then have "c \<in> live h1" "c \<noteq> q" "allocated_size h1 c = Some m" using r sk by (auto simp: sizes_kept_def)
    then show "pmem (pal ?h2) (c + of_nat j) = pmem (pal h) (c + of_nat j)"
      using contents_put [OF inv1 l(2) k(1), of bs c m j] bs(1) tp(2) c(3) pm by simp
  qed
  have ck': "contents_kept h h3" using contents_kept_trans [OF ck2 ck3 sk2] l3 r by (auto simp: h2)
  have q3: "q \<in> live ?h2 \<inter> live h3" "allocated_size ?h2 q = Some k" using l3 r k by (simp_all add: h2)
  have kq: "allocated_size h3 q = Some k" using sk3 q3 by (simp add: sizes_kept_def)
  have "moved h p (unat n) q h3"
    unfolding moved_def
  proof (intro exI conjI allI impI)
    show "allocated_size h p = Some s" by (rule s)
    fix j assume j: "j < min (unat n) (unat s)"
    then have "pmem (pal h3) (q + of_nat j) = pmem (pal ?h2) (q + of_nat j)"
      using ck3 q3 tp(2) t unfolding contents_kept_def by auto
    also have "\<dots> = Some (bs ! j)" using put_same [of j bs] j bs(1) t sq(3) tp(2) by simp
    also have "\<dots> = pmem (pal h) (p + of_nat j)" using bs(2) j bs(1) t pm by (simp add: bytes_at_nth)
    finally show "pmem (pal h3) (q + of_nat j) = pmem (pal h) (p + of_nat j)" .
  qed
  then show ?thesis using eq inv3 sk' ck' r(1) l3 kq k(2) by blast
qed

lemma init_descs: "init_loop 16 [] = Some (map (\<lambda>i. \<lparr>block_size = of_nat (bsize i), blocks_per_arena = of_nat (bpa i), free_list = []\<rparr>) [0..<7])"
  by (simp add: init_loop.simps PGSIZE_def sizeof_arena_def bsize_def bpa_def upt_rec)

lemma malloc_init_ok:
  assumes "palloc_ok ps"
  shows "\<exists>h. malloc_init ps = Some h \<and> heap_inv {} h \<and> live h = {} \<and> pal h = ps"
proof -
  let ?ds = "map (\<lambda>i. \<lparr>block_size = of_nat (bsize i), blocks_per_arena = of_nat (bpa i), free_list = []\<rparr>) [0..<7]"
  let ?h = "\<lparr>descs = ?ds, arenas = \<lambda>_. None, pal = ps\<rparr>"
  have eq: "malloc_init ps = Some ?h" using init_descs by (simp add: malloc_init_def)
  have "?ds ! i = \<lparr>block_size = of_nat (bsize i), blocks_per_arena = of_nat (bpa i), free_list = []\<rparr>" if "i < 7" for i
    using that by (subst nth_map) simp_all
  then have "heap_inv {} ?h" using assms by (simp add: heap_inv_def descs_ok_def desc_ok_def lists_ok_def)
  moreover have "live ?h = {}" by (simp add: live_def blocks_of_def is_block_def)
  ultimately show ?thesis using eq by (intro exI [of _ ?h]) simp
qed


subsection \<open>The interface and the states that operations reach\<close>

text \<open>What a client of the allocator relies on: blocks in use do not overlap, a new block has the room asked
  for, and a block in use can be given back.\<close>

locale block_allocator =
  fixes ok :: "'s \<Rightarrow> bool"
    and blocks :: "'s \<Rightarrow> ptr set"
    and room :: "'s \<Rightarrow> ptr \<Rightarrow> nat set"
    and get :: "'s \<Rightarrow> size_t \<Rightarrow> (ptr \<times> 's) option"
    and give :: "'s \<Rightarrow> ptr \<Rightarrow> 's option"
  assumes room_disjoint: "ok s \<Longrightarrow> b \<in> blocks s \<Longrightarrow> c \<in> blocks s \<Longrightarrow> b \<noteq> c \<Longrightarrow> room s b \<inter> room s c = {}"
    and get_law: "ok s \<Longrightarrow> unat n + 4107 < 2 ^ 32 \<Longrightarrow> \<exists>p s'. get s n = Some (p, s') \<and> ok s' \<and>
      (if p = 0 then blocks s' = blocks s
       else p \<notin> blocks s \<and> blocks s' = insert p (blocks s) \<and> {unat p ..< unat p + unat n} \<subseteq> room s' p)"
    and give_law: "ok s \<Longrightarrow> p \<in> blocks s \<Longrightarrow> \<exists>s'. give s p = Some s' \<and> ok s' \<and> blocks s' = blocks s - {p}"
begin

lemma get_disjoint:
  assumes "ok s" "unat n + 4107 < 2 ^ 32" "get s n = Some (p, s')" "p \<noteq> 0" "b \<in> blocks s"
  shows "{unat p ..< unat p + unat n} \<inter> room s' b = {}"
proof -
  have r: "ok s'" "p \<notin> blocks s" "blocks s' = insert p (blocks s)" "{unat p ..< unat p + unat n} \<subseteq> room s' p"
    using get_law [OF assms(1,2)] assms(3,4) by auto
  then have "room s' p \<inter> room s' b = {}" using room_disjoint [OF r(1), of p b] assms(5) by auto
  then show ?thesis using r(4) by blast
qed

lemma get_give:
  assumes "ok s" "unat n + 4107 < 2 ^ 32" "get s n = Some (p, s')" "p \<noteq> 0"
  shows "\<exists>s''. give s' p = Some s'' \<and> ok s'' \<and> blocks s'' = blocks s"
proof -
  have r: "ok s'" "p \<notin> blocks s" "blocks s' = insert p (blocks s)" using get_law [OF assms(1,2)] assms(3,4) by auto
  then show ?thesis using give_law [OF r(1), of p] by auto
qed

end

interpretation ma: block_allocator "heap_inv {}" live extent malloc free
proof unfold_locales
  show "heap_inv {} s \<Longrightarrow> b \<in> live s \<Longrightarrow> c \<in> live s \<Longrightarrow> b \<noteq> c \<Longrightarrow> extent s b \<inter> extent s c = {}" for s b c
    using extents_disjoint live_blocks by blast
  show "\<exists>p s'. malloc s n = Some (p, s') \<and> heap_inv {} s' \<and> (if p = 0 then live s' = live s
       else p \<notin> live s \<and> live s' = insert p (live s) \<and> {unat p ..< unat p + unat n} \<subseteq> extent s' p)"
    if "heap_inv {} s" "unat n + 4107 < 2 ^ 32" for s n
    using malloc_ok [OF that(1), of n] that(2) by (fastforce simp: malloc_result_def extent_def)
  show "\<exists>s'. free s p = Some s' \<and> heap_inv {} s' \<and> live s' = live s - {p}" if "heap_inv {} s" "p \<in> live s" for s p
    using free_ok [OF that] by (auto simp: free_result_def)
qed

datatype heap_op = Malloc size_t | Calloc size_t size_t | Realloc ptr size_t | Free ptr

fun run_heap_op :: "heap_op \<Rightarrow> heap \<Rightarrow> (ptr \<times> heap) option" where
  "run_heap_op (Malloc n) h = malloc h n"
| "run_heap_op (Calloc a b) h = calloc h a b"
| "run_heap_op (Realloc p n) h = realloc h p n"
| "run_heap_op (Free p) h = do { h \<leftarrow> free h p; Some (0, h) }"

text \<open>The size an operation asks for and the block it gives up. A client may pass only null or a block in
  use, and the size plus the header and the rounding must not wrap around.\<close>

fun asked :: "heap_op \<Rightarrow> nat" where
  "asked (Malloc n) = unat n"
| "asked (Calloc a b) = unat a * unat b"
| "asked (Realloc p n) = unat n"
| "asked (Free p) = 0"

fun given :: "heap_op \<Rightarrow> ptr" where
  "given (Realloc p n) = p"
| "given (Free p) = p"
| "given _ = 0"

definition op_allowed :: "heap \<Rightarrow> heap_op \<Rightarrow> bool" where
  "op_allowed h opn \<longleftrightarrow> (given opn = 0 \<or> given opn \<in> live h) \<and> asked opn + 4107 < 2 ^ 32"

fun op_live :: "heap_op \<Rightarrow> ptr \<Rightarrow> ptr set \<Rightarrow> ptr set" where
  "op_live (Free p) q L = L - {p}"
| "op_live (Realloc p n) q L = (if n = 0 then L - {p} else if q = 0 then L else insert q (L - {p}))"
| "op_live opn q L = (if q = 0 then L else insert q L)"

fun op_content :: "heap_op \<Rightarrow> heap \<Rightarrow> ptr \<Rightarrow> heap \<Rightarrow> bool" where
  "op_content (Calloc a b) h q h' = (\<forall>j < unat a * unat b. pmem (pal h') (q + of_nat j) = Some 0)"
| "op_content (Realloc p n) h q h' = (p = 0 \<or> moved h p (unat n) q h')"
| "op_content _ h q h' = True"

definition op_result :: "heap_op \<Rightarrow> heap \<Rightarrow> ptr \<Rightarrow> heap \<Rightarrow> bool" where
  "op_result opn h q h' \<longleftrightarrow> heap_inv {} h' \<and> live h' = op_live opn q (live h) \<and> sizes_kept h h' \<and> contents_kept h h' \<and>
    (q = 0 \<or> q \<notin> live h \<and> {unat q ..< unat q + asked opn} \<subseteq> extent h' q \<and> op_content opn h q h')"

lemma contents_kept_same: "pmem (pal h') = pmem (pal h) \<Longrightarrow> contents_kept h h'"
  by (simp add: contents_kept_def)

lemma realloc_ok:
  assumes inv: "heap_inv {} h" and p: "p = 0 \<or> p \<in> live h" and n: "unat n + 4107 < 2 ^ 32"
  shows "\<exists>q h'. realloc h p n = Some (q, h') \<and> op_result (Realloc p n) h q h'"
proof (cases "n = 0")
  case True
  show ?thesis
  proof (cases "p = 0")
    case True
    then have "realloc h p n = Some (0, h)" using \<open>n = 0\<close> by (simp add: realloc_def free_def)
    then show ?thesis using True \<open>n = 0\<close> inv live_nonzero [OF inv] by (auto simp: op_result_def sizes_kept_def contents_kept_def)
  next
    case False
    then obtain h' where "free h p = Some h'" "free_result h p h'" using p free_ok [OF inv] by blast
    then show ?thesis using True by (auto simp: realloc_def op_result_def free_result_def)
  qed
next
  case False
  obtain q h1 where m: "malloc h n = Some (q, h1)" "malloc_result h (unat n) q h1" using malloc_ok [OF inv] n by fastforce
  show ?thesis
  proof (cases "p = 0 \<or> q = 0")
    case True
    then have "realloc h p n = Some (q, h1)" using False m(1) by (auto simp: realloc_def)
    moreover have "live h - {0} = live h" using live_nonzero [OF inv] by simp
    ultimately show ?thesis using m(2) False True
      by (auto simp: op_result_def malloc_result_def contents_kept_same extent_def split: if_splits)
  next
    case pq: False
    then have "p \<in> live h" "q \<noteq> 0" using p by auto
    from realloc_moves [OF inv this(1) False m this(2)] show ?thesis using False pq
      by (fastforce simp: op_result_def extent_def)
  qed
qed

lemma run_heap_op_ok:
  assumes inv: "heap_inv {} h" and ok: "op_allowed h opn"
  shows "\<exists>q h'. run_heap_op opn h = Some (q, h') \<and> op_result opn h q h'"
proof (cases opn)
  case (Malloc n)
  then obtain q h' where "malloc h n = Some (q, h')" "malloc_result h (unat n) q h'"
    using malloc_ok [OF inv, of n] ok by (auto simp: op_allowed_def)
  then show ?thesis using Malloc by (auto simp: op_result_def malloc_result_def contents_kept_same extent_def split: if_splits)
next
  case (Calloc a b)
  then show ?thesis using calloc_ok [OF inv, of a b] ok by (fastforce simp: op_allowed_def op_result_def extent_def split: if_splits)
next
  case (Realloc p n)
  then show ?thesis using realloc_ok [OF inv, of p n] ok by (simp add: op_allowed_def)
next
  case (Free p)
  show ?thesis
  proof (cases "p = 0")
    case True
    then show ?thesis using Free inv live_nonzero [OF inv] by (auto simp: free_def op_result_def sizes_kept_def contents_kept_def)
  next
    case False
    then obtain h' where "free h p = Some h'" "free_result h p h'" using free_ok [OF inv, of p] ok Free by (auto simp: op_allowed_def)
    then show ?thesis using Free by (auto simp: op_result_def free_result_def)
  qed
qed


inductive heap_reach :: "palloc \<Rightarrow> heap \<Rightarrow> bool" for ps where
  start: "malloc_init ps = Some h \<Longrightarrow> heap_reach ps h"
| step: "heap_reach ps h \<Longrightarrow> op_allowed h opn \<Longrightarrow> run_heap_op opn h = Some (q, h') \<Longrightarrow> heap_reach ps h'"

lemma heap_reach_inv: "heap_reach ps h \<Longrightarrow> palloc_ok ps \<Longrightarrow> heap_inv {} h"
proof (induction rule: heap_reach.induct)
  case (start h)
  then show ?case using malloc_init_ok by fastforce
next
  case (step h opn q h')
  then show ?case using run_heap_op_ok [of h opn] by (auto simp: op_result_def)
qed

lemma extent_header:
  assumes inv: "heap_inv E h" and b: "b \<in> blocks_of (arenas h)" and a: "arenas h a = Some r"
  shows "extent h b \<inter> {unat a ..< unat a + 12} = {}"
proof -
  obtain s where s: "arenas h (pg_round_down b) = Some s"
    "extent h b \<subseteq> {unat (pg_round_down b) + 12 ..< unat (pg_round_down b) + 4096 * span s}"
    using extent_in_arena [OF inv b] by blast
  have "0 < span r" using arena_okD(4) [OF heap_invD(4) [OF inv a]] .
  then have "{unat a ..< unat a + 12} \<subseteq> arena_bytes a (span r)" by (auto simp: arena_bytes_def)
  moreover have "extent h b \<subseteq> arena_bytes (pg_round_down b) (span s)" using s(2) by (auto simp: arena_bytes_def)
  ultimately show ?thesis using arenas_disjoint [OF inv s(1) a] s(2) by (cases "pg_round_down b = a") fastforce+
qed

text \<open>C9. In every state that is reached from initialisation by calls in which the client passes only null
  or a block in use, and asks for no size that wraps around with the header: two blocks in use never overlap, and none overlaps
  an arena header; every further such call returns without a panic; a block it returns was not
  in use and has room for the size asked for; calloc zeroes it and realloc moves the common prefix
  of the old block to it; the blocks in use change by exactly the block returned and the block given up,
  and all others keep their size and their bytes.\<close>

theorem heap_operations_safe:
  assumes "palloc_ok ps" and "heap_reach ps h" and "op_allowed h opn"
  shows "(\<forall>b \<in> live h. \<forall>c \<in> live h. b \<noteq> c \<longrightarrow> extent h b \<inter> extent h c = {}) \<and>
    (\<forall>b \<in> live h. \<forall>a r. arenas h a = Some r \<longrightarrow> extent h b \<inter> {unat a ..< unat a + 12} = {}) \<and>
    (\<exists>q h'. run_heap_op opn h = Some (q, h') \<and> live h' = op_live opn q (live h) \<and> sizes_kept h h' \<and> contents_kept h h' \<and>
      (q = 0 \<or> q \<notin> live h \<and> {unat q ..< unat q + asked opn} \<subseteq> extent h' q \<and> op_content opn h q h'))"
proof -
  have inv: "heap_inv {} h" using heap_reach_inv assms(1,2) by blast
  show ?thesis
    using ma.room_disjoint [OF inv] extent_header [OF inv subsetD [OF live_blocks]] run_heap_op_ok [OF inv assms(3)]
    unfolding op_result_def by blast
qed

lemma two_pools_ok: "palloc_ok two_pools"
  by (simp add: palloc_ok_def two_pools_def pool_ok_def bitmap_wf_def mapped_def pool_pages_def pages_def
      pg_ofs_def PGMASK_def BITMASK_def PGBITS_def)

theorem heap_operations_safe_witness:
  "\<exists>h q h'. heap_reach two_pools h \<and> op_allowed h (Calloc 3 100) \<and> run_heap_op (Calloc 3 100) h = Some (q, h') \<and>
     live h' = op_live (Calloc 3 100) q (live h) \<and> (q = 0 \<or> op_content (Calloc 3 100) h q h')"
proof -
  obtain h where h: "malloc_init two_pools = Some h" using malloc_init_ok [OF two_pools_ok] by blast
  have r: "heap_reach two_pools h" using h(1) by (rule heap_reach.start)
  have a: "op_allowed h (Calloc 3 100)" by (simp add: op_allowed_def)
  obtain q h' where q: "run_heap_op (Calloc 3 100) h = Some (q, h')" "live h' = op_live (Calloc 3 100) q (live h)"
    "q = 0 \<or> op_content (Calloc 3 100) h q h'"
    using heap_operations_safe [OF two_pools_ok r a, THEN conjunct2, THEN conjunct2]
    by (elim exE conjE) (rule that, assumption, assumption, elim disjE conjE, simp_all)
  show ?thesis using r a q by (intro exI conjI)
qed

lemma malloc_max:
  assumes "heap_inv {} h" "palloc_get_multiple (pal h) 0 1 = Some (a, ps)"
  shows "malloc h 0xffffffff = Some (if a = 0 then (0, h\<lparr>pal := ps\<rparr>)
    else (a + 12, h\<lparr>pal := ps, arenas := (arenas h)(a \<mapsto> \<lparr>magic = ARENA_MAGIC, arena_desc = None, free_cnt = 1\<rparr>)\<rparr>))"
proof -
  have l: "length (descs h) = 7" using heap_invD(2) [OF assms(1)] by (simp add: descs_ok_def)
  obtain k where k: "k \<le> 7" "find_desc 0xffffffff 0 (descs h) = k" "k < 7 \<longrightarrow> 0xffffffff \<le> block_size (descs h ! k)"
    using find_desc_ok [of "descs h" "0xffffffff" 0] l by auto
  have "unat (block_size (descs h ! k)) \<le> 1024" if "k < 7"
    using desc_okD(1) [of k "descs h ! k"] desc_of_ok [OF heap_invD(2) [OF assms(1)]] bsize_le [OF that] that by simp
  then have "find_desc 0xffffffff 0 (descs h) = length (descs h)" using k l by (cases "k < 7") (auto simp: word_le_nat_alt)
  moreover have "DIV_ROUND_UP (0xffffffff + sizeof_arena) PGSIZE = 1" by (simp add: DIV_ROUND_UP_def PGSIZE_def sizeof_arena_def)
  ultimately show ?thesis using assms(2) by (simp add: malloc_def Let_def sizeof_arena_def)
qed

text \<open>C36. Sizes that wrap around are not all refused: a request for \<open>2\<^sup>3\<^sup>2 - 1\<close> bytes that succeeds yields a block
  of one page less the header, and calloc of 65537 elements of 65537 bytes acts like a request
  for 131073 bytes, because the product modulo \<open>2\<^sup>3\<^sup>2\<close> is not smaller than its factors.\<close>

theorem malloc_size_wraps:
  assumes "heap_inv {} h"
  shows "(malloc h 0xffffffff = Some (p, h') \<longrightarrow> p \<noteq> 0 \<longrightarrow> allocated_size h' p = Some 4084) \<and>
    calloc h 0x10001 0x10001 = calloc h 1 0x20001"
proof
  show "malloc h 0xffffffff = Some (p, h') \<longrightarrow> p \<noteq> 0 \<longrightarrow> allocated_size h' p = Some 4084"
  proof (intro impI)
    assume m: "malloc h 0xffffffff = Some (p, h')" "p \<noteq> 0"
    obtain a ps where g: "palloc_get_multiple (pal h) 0 1 = Some (a, ps)" "a = 0 \<or> pg_ofs a = 0"
      using kp.get_law [OF heap_invD(1) [OF assms], of 1] by (auto split: if_splits)
    let ?r = "\<lparr>magic = ARENA_MAGIC, arena_desc = None, free_cnt = 1\<rparr>"
    have h': "a \<noteq> 0" "p = a + 12" "h' = h\<lparr>pal := ps, arenas := (arenas h)(a \<mapsto> ?r)\<rparr>"
      using m malloc_max [OF assms g(1)] by (auto split: if_splits)
    have "pg_ofs (a + 12) = 12" using in_page(3) [of a 12] g(2) h'(1) by (simp add: u32_eq_iff)
    then show "allocated_size h' p = Some 4084"
      using block_to_arena_big [of h' a ?r] h' g(2) by (simp add: allocated_size_def PGSIZE_def)
  qed
  have w: "(0x10001 :: size_t) * 0x10001 = 0x20001" by code_simp
  show "calloc h 0x10001 0x10001 = calloc h 1 0x20001" unfolding calloc_def w by simp
qed

theorem malloc_size_wraps_witness:
  "\<exists>h p h'. heap_inv {} h \<and> malloc h 0xffffffff = Some (p, h') \<and> p \<noteq> 0 \<and> allocated_size h' p = Some 4084"
proof -
  obtain h where h: "heap_inv {} h" "pal h = two_pools" using malloc_init_ok [OF two_pools_ok] by blast
  have "run_at (bitmap_bits \<lparr>bit_cnt = 4, bits = [1]\<rparr>) 1 1 False" by code_simp
  then have "\<not> no_run (get_pool False two_pools) 1" unfolding no_run_def get_pool_def two_pools_def by auto
  then obtain a ps where g: "palloc_get_multiple two_pools 0 1 = Some (a, ps)" "got_pages False 0 1 two_pools a ps"
    using palloc_get_multiple_ok [OF two_pools_ok, of 1 False 0] by auto
  have a: "a \<noteq> 0" "pg_ofs a = 0" using g(2) by (simp_all add: got_pages_def)
  have nz: "a + 12 \<noteq> 0"
  proof
    assume "a + 12 = 0"
    then show False using in_page(1) [OF a(2), of 12] by simp
  qed
  have m: "malloc h 0xffffffff = Some (a + 12, h\<lparr>pal := ps, arenas := (arenas h)(a \<mapsto> \<lparr>magic = ARENA_MAGIC, arena_desc = None, free_cnt = 1\<rparr>)\<rparr>)"
    using malloc_max [OF h(1)] g(1) h(2) a(1) by simp
  show ?thesis using malloc_size_wraps [OF h(1)] h(1) m nz by blast
qed

end
