(* ===== verification/Pagedir.thy ===== *)
theory Pagedir
  imports Palloc
begin

section \<open>Page directories (userprog/pagedir.c)\<close>

text \<open>
  A page directory has 1024 entries, each zero or the address of a page table with its flags; a page
  table has 1024 entries. The state has the tables by the address of their page, the page allocator, the
  control register that holds the active directory, and the CPU's cache of translations, which the code
  has to keep free of stale entries. The theory shows that the operations implement an update of one entry of the function from user
  pages to page table entries, in one directory, and never leave a stale translation in the cache.
\<close>

record mmu =
  tables :: "ptr \<Rightarrow> u32 list option"
  frames :: palloc
  base_page_dir :: ptr
  ram_pages :: u32
  cr3 :: u32
  tlb :: "ptr \<Rightarrow> u32 option"

text \<open>Reading and writing a table entry, in C the dereference of a pointer into the table.\<close>

definition get_entry :: "mmu \<Rightarrow> ptr \<Rightarrow> u32 \<Rightarrow> u32 option" where
  "get_entry m t i = do { es \<leftarrow> tables m t; if unat i < length es then Some (es ! unat i) else None }"

definition set_entry :: "mmu \<Rightarrow> ptr \<Rightarrow> u32 \<Rightarrow> u32 \<Rightarrow> mmu option" where
  "set_entry m t i e = do {
     es \<leftarrow> tables m t;
     if unat i < length es then Some (m\<lparr>tables := (tables m)(t \<mapsto> es[unat i := e])\<rparr>) else None
   }"

definition pagedir_create :: "mmu \<Rightarrow> (ptr \<times> mmu) option" where
  "pagedir_create m = do {
     (pd, fr) \<leftarrow> palloc_get_page (frames m) 0;
     let m = m\<lparr>frames := fr\<rparr>;
     if pd \<noteq> 0 then do {
       es \<leftarrow> tables m (base_page_dir m);
       Some (pd, m\<lparr>tables := (tables m)(pd \<mapsto> es)\<rparr>)
     }
     else Some (pd, m)
   }"

primrec free_ptes :: "ptr \<Rightarrow> nat list \<Rightarrow> mmu \<Rightarrow> mmu option" where
  "free_ptes pt [] m = Some m"
| "free_ptes pt (k # ks) m = do {
     pte \<leftarrow> get_entry m pt (of_nat k);
     if pte AND PTE_P \<noteq> 0 then do {
       page \<leftarrow> pte_get_page pte;
       fr \<leftarrow> palloc_free_page (frames m) page;
       free_ptes pt ks (m\<lparr>frames := fr\<rparr>)
     }
     else free_ptes pt ks m
   }"

definition free_table :: "ptr \<Rightarrow> mmu \<Rightarrow> mmu option" where
  "free_table t m = do {
     fr \<leftarrow> palloc_free_page (frames m) t;
     Some (m\<lparr>frames := fr, tables := (tables m)(t := None)\<rparr>)
   }"

primrec free_pdes :: "ptr \<Rightarrow> nat list \<Rightarrow> mmu \<Rightarrow> mmu option" where
  "free_pdes pd [] m = Some m"
| "free_pdes pd (k # ks) m = do {
     pde \<leftarrow> get_entry m pd (of_nat k);
     if pde AND PTE_P \<noteq> 0 then do {
       pt \<leftarrow> pde_get_pt pde;
       m \<leftarrow> free_ptes pt [0..<unat (PGSIZE div 4)] m;
       m \<leftarrow> free_table pt m;
       free_pdes pd ks m
     }
     else free_pdes pd ks m
   }"

definition pagedir_destroy :: "mmu \<Rightarrow> ptr \<Rightarrow> mmu option" where
  "pagedir_destroy m pd =
    (if pd = 0 then Some m
     else do {
       kassert (pd \<noteq> base_page_dir m);
       m \<leftarrow> free_pdes pd [0..<unat (pd_no PHYS_BASE)] m;
       free_table pd m
     })"

text \<open>The address of an entry is a table and an index.\<close>

definition lookup_page :: "mmu \<Rightarrow> ptr \<Rightarrow> ptr \<Rightarrow> bool \<Rightarrow> ((ptr \<times> u32) option \<times> mmu) option" where
  "lookup_page m pd vaddr create = do {
     kassert (pd \<noteq> 0);
     kassert (\<not> create \<or> is_user_vaddr vaddr);
     pde \<leftarrow> get_entry m pd (pd_no vaddr);
     (found, m) \<leftarrow>
       (if pde = 0
        then if create
          then do {
            (pt, fr) \<leftarrow> palloc_get_page (frames m) PAL_ZERO;
            let m = m\<lparr>frames := fr\<rparr>;
            if pt = 0 then Some (False, m)
            else do {
              pde \<leftarrow> pde_create pt;
              m \<leftarrow> set_entry (m\<lparr>tables := (tables m)(pt \<mapsto> replicate 1024 0)\<rparr>) pd (pd_no vaddr) pde;
              Some (True, m)
            }
          }
          else Some (False, m)
        else Some (True, m));
     if \<not> found then Some (None, m)
     else do {
       pde \<leftarrow> get_entry m pd (pd_no vaddr);
       pt \<leftarrow> pde_get_pt pde;
       Some (Some (pt, pt_no vaddr), m)
     }
   }"

definition pagedir_set_page :: "mmu \<Rightarrow> ptr \<Rightarrow> ptr \<Rightarrow> ptr \<Rightarrow> bool \<Rightarrow> (bool \<times> mmu) option" where
  "pagedir_set_page m pd upage kpage writable = do {
     kassert (pg_ofs upage = 0);
     kassert (pg_ofs kpage = 0);
     kassert (is_user_vaddr upage);
     p \<leftarrow> vtop kpage;
     kassert (drop_bit PTSHIFT p < ram_pages m);
     kassert (pd \<noteq> base_page_dir m);
     (pte, m) \<leftarrow> lookup_page m pd upage True;
     case pte of
       Some (pt, i) \<Rightarrow> do {
         old \<leftarrow> get_entry m pt i;
         kassert (old AND PTE_P = 0);
         e \<leftarrow> pte_create_user kpage writable;
         m \<leftarrow> set_entry m pt i e;
         Some (True, m)
       }
     | None \<Rightarrow> Some (False, m)
   }"

definition pagedir_get_page :: "mmu \<Rightarrow> ptr \<Rightarrow> ptr \<Rightarrow> ptr option" where
  "pagedir_get_page m pd uaddr = do {
     kassert (is_user_vaddr uaddr);
     (pte, m) \<leftarrow> lookup_page m pd uaddr False;
     case pte of
       Some (pt, i) \<Rightarrow> do {
         e \<leftarrow> get_entry m pt i;
         if e AND PTE_P \<noteq> 0 then do { page \<leftarrow> pte_get_page e; Some (page + pg_ofs uaddr) } else Some 0
       }
     | None \<Rightarrow> Some 0
   }"

definition active_pd :: "mmu \<Rightarrow> ptr option" where
  "active_pd m = ptov (cr3 m)"

text \<open>Loading the control register empties the cache of translations.\<close>

definition pagedir_activate :: "mmu \<Rightarrow> ptr \<Rightarrow> mmu option" where
  "pagedir_activate m pd = do {
     let pd = (if pd = 0 then base_page_dir m else pd);
     p \<leftarrow> vtop pd;
     Some (m\<lparr>cr3 := p, tlb := \<lambda>_. None\<rparr>)
   }"

definition invalidate_pagedir :: "mmu \<Rightarrow> ptr \<Rightarrow> mmu option" where
  "invalidate_pagedir m pd = do { a \<leftarrow> active_pd m; if a = pd then pagedir_activate m pd else Some m }"

definition pagedir_clear_page :: "mmu \<Rightarrow> ptr \<Rightarrow> ptr \<Rightarrow> mmu option" where
  "pagedir_clear_page m pd upage = do {
     kassert (pg_ofs upage = 0);
     kassert (is_user_vaddr upage);
     (pte, m) \<leftarrow> lookup_page m pd upage False;
     case pte of
       Some (pt, i) \<Rightarrow> do {
         e \<leftarrow> get_entry m pt i;
         if e AND PTE_P \<noteq> 0
         then do { m \<leftarrow> set_entry m pt i (e AND NOT PTE_P); invalidate_pagedir m pd }
         else Some m
       }
     | None \<Rightarrow> Some m
   }"

text \<open>The tests and updates of the dirty and the accessed bit differ only in the bit.\<close>

definition is_flag :: "u32 \<Rightarrow> mmu \<Rightarrow> ptr \<Rightarrow> ptr \<Rightarrow> bool option" where
  "is_flag f m pd vpage = do {
     (pte, m) \<leftarrow> lookup_page m pd vpage False;
     case pte of
       Some (pt, i) \<Rightarrow> do { e \<leftarrow> get_entry m pt i; Some (e AND f \<noteq> 0) }
     | None \<Rightarrow> Some False
   }"

definition set_flag :: "u32 \<Rightarrow> mmu \<Rightarrow> ptr \<Rightarrow> ptr \<Rightarrow> bool \<Rightarrow> mmu option" where
  "set_flag f m pd vpage v = do {
     (pte, m) \<leftarrow> lookup_page m pd vpage False;
     case pte of
       Some (pt, i) \<Rightarrow> do {
         e \<leftarrow> get_entry m pt i;
         if v then set_entry m pt i (e OR f)
         else do { m \<leftarrow> set_entry m pt i (e AND NOT f); invalidate_pagedir m pd }
       }
     | None \<Rightarrow> Some m
   }"

definition pagedir_is_dirty :: "mmu \<Rightarrow> ptr \<Rightarrow> ptr \<Rightarrow> bool option" where
  "pagedir_is_dirty = is_flag PTE_D"

definition pagedir_set_dirty :: "mmu \<Rightarrow> ptr \<Rightarrow> ptr \<Rightarrow> bool \<Rightarrow> mmu option" where
  "pagedir_set_dirty = set_flag PTE_D"

definition pagedir_is_accessed :: "mmu \<Rightarrow> ptr \<Rightarrow> ptr \<Rightarrow> bool option" where
  "pagedir_is_accessed = is_flag PTE_A"

definition pagedir_set_accessed :: "mmu \<Rightarrow> ptr \<Rightarrow> ptr \<Rightarrow> bool \<Rightarrow> mmu option" where
  "pagedir_set_accessed = set_flag PTE_A"

subsection \<open>The invariant\<close>

definition pt_at :: "mmu \<Rightarrow> ptr \<Rightarrow> nat \<Rightarrow> ptr option" where
  "pt_at m pd i = do { es \<leftarrow> tables m pd; if es ! i = 0 then None else pde_get_pt (es ! i) }"

text \<open>The entry for a user address; zero, which is not present, where there is no page table.\<close>

definition upte :: "mmu \<Rightarrow> ptr \<Rightarrow> ptr \<Rightarrow> u32" where
  "upte m pd va = (case pt_at m pd (unat (pd_no va)) of None \<Rightarrow> 0
     | Some pt \<Rightarrow> (case tables m pt of None \<Rightarrow> 0 | Some ts \<Rightarrow> ts ! unat (pt_no va)))"

definition page_used :: "mmu \<Rightarrow> ptr \<Rightarrow> bool" where
  "page_used m t \<longleftrightarrow> pg_ofs t = 0 \<and> is_kernel_vaddr t \<and> unat t div 4096 \<in> used_pages (get_pool False (frames m))"

definition owned :: "mmu \<Rightarrow> ptr \<Rightarrow> ptr set" where
  "owned m pd = insert pd {pt. \<exists>i < 768. pt_at m pd i = Some pt}"

definition dir_ok :: "mmu \<Rightarrow> ptr \<Rightarrow> bool" where
  "dir_ok m pd \<longleftrightarrow>
    (\<exists>es. tables m pd = Some es \<and> length es = 1024 \<and> (\<forall>i < 768. es ! i \<noteq> 0 \<longrightarrow> pde_get_pt (es ! i) \<noteq> None)) \<and>
    (\<forall>i < 768. \<forall>pt. pt_at m pd i = Some pt \<longrightarrow> pt \<noteq> pd \<and> (\<exists>ts. tables m pt = Some ts \<and> length ts = 1024)) \<and>
    (\<forall>i < 768. \<forall>j < 768. \<forall>pt. pt_at m pd i = Some pt \<longrightarrow> pt_at m pd j = Some pt \<longrightarrow> i = j) \<and>
    (\<forall>t \<in> owned m pd. page_used m t \<and> t \<noteq> base_page_dir m)"

definition base_ok :: "mmu \<Rightarrow> bool" where
  "base_ok m \<longleftrightarrow> page_used m (base_page_dir m) \<and>
    (\<exists>es. tables m (base_page_dir m) = Some es \<and> length es = 1024 \<and> (\<forall>i < 768. es ! i = 0))"

text \<open>\<open>P\<close> is the set of the page directories of the processes.\<close>

definition mmu_ok :: "ptr set \<Rightarrow> mmu \<Rightarrow> bool" where
  "mmu_ok P m \<longleftrightarrow> palloc_ok (frames m) \<and> (\<forall>q \<in> pool_pages (get_pool False (frames m)). 786432 \<le> q) \<and> base_ok m \<and>
    (\<forall>pd \<in> P. dir_ok m pd) \<and> (\<forall>pd \<in> P. \<forall>pd' \<in> P. pd \<noteq> pd' \<longrightarrow> owned m pd \<inter> owned m pd' = {})"

lemma mmu_okD:
  assumes "mmu_ok P m"
  shows "palloc_ok (frames m)" "base_ok m" "\<And>q. q \<in> pool_pages (get_pool False (frames m)) \<Longrightarrow> 786432 \<le> q"
    "\<And>pd. pd \<in> P \<Longrightarrow> dir_ok m pd" "\<And>pd pd'. pd \<in> P \<Longrightarrow> pd' \<in> P \<Longrightarrow> pd \<noteq> pd' \<Longrightarrow> owned m pd \<inter> owned m pd' = {}"
  using assms unfolding mmu_ok_def by blast+

lemma dir_okE:
  assumes "dir_ok m pd"
  obtains es where "tables m pd = Some es" "length es = 1024" "\<forall>i < 768. es ! i \<noteq> 0 \<longrightarrow> pde_get_pt (es ! i) \<noteq> None"
    "\<forall>i. pt_at m pd i = (if es ! i = 0 then None else pde_get_pt (es ! i))"
proof -
  obtain es where es: "tables m pd = Some es" "length es = 1024" "\<forall>i < 768. es ! i \<noteq> 0 \<longrightarrow> pde_get_pt (es ! i) \<noteq> None"
    using assms unfolding dir_ok_def by blast
  have "pt_at m pd i = (if es ! i = 0 then None else pde_get_pt (es ! i))" for i
    by (simp only: pt_at_def es(1) bind.bind_lunit)
  then show thesis using that [OF es] by blast
qed

lemma dir_ok_table:
  assumes "dir_ok m pd" "i < 768" "pt_at m pd i = Some pt"
  obtains ts where "tables m pt = Some ts" "length ts = 1024" "pt \<noteq> pd" "pt \<in> owned m pd"
proof -
  have "\<forall>i < 768. \<forall>pt. pt_at m pd i = Some pt \<longrightarrow> pt \<noteq> pd \<and> (\<exists>ts. tables m pt = Some ts \<and> length ts = 1024)"
    using assms(1) unfolding dir_ok_def by (elim conjE)
  then obtain ts where "tables m pt = Some ts" "length ts = 1024" "pt \<noteq> pd" using assms(2,3) by meson
  moreover have "pt \<in> owned m pd" using assms(2,3) by (auto simp: owned_def)
  ultimately show thesis by (rule that)
qed

lemma page_used_nonzero: "page_used m t \<Longrightarrow> t \<noteq> 0"
  by (auto simp: page_used_def is_kernel_vaddr_def PHYS_BASE_def)

lemma dir_nonzero: "dir_ok m pd \<Longrightarrow> pd \<noteq> 0 \<and> pd \<noteq> base_page_dir m"
  using page_used_nonzero by (auto simp: dir_ok_def owned_def)

lemma pt_at_cong: "tables m' pd = tables m pd \<Longrightarrow> pt_at m' pd = pt_at m pd"
  by (intro ext) (simp add: pt_at_def)

lemma owned_cong: "tables m' pd = tables m pd \<Longrightarrow> owned m' pd = owned m pd"
  using pt_at_cong [of m' pd m] by (simp add: owned_def)

text \<open>A page that is not in use belongs to no directory.\<close>

lemma dir_ok_frame:
  assumes "dir_ok m pd" "\<And>t. t \<in> owned m pd \<Longrightarrow> tables m' t = tables m t"
    and "used_pages (get_pool False (frames m)) \<subseteq> used_pages (get_pool False (frames m'))" "base_page_dir m' = base_page_dir m"
  shows "dir_ok m' pd"
proof -
  have "pd \<in> owned m pd" by (simp add: owned_def)
  then have pt: "pt_at m' pd = pt_at m pd" "owned m' pd = owned m pd" "tables m' pd = tables m pd"
    using pt_at_cong [of m' pd m] owned_cong [of m' pd m] assms(2) by blast+
  have "tables m' t = tables m t" if "i < 768" "pt_at m pd i = Some t" for i t
    using assms(2) that by (auto simp: owned_def)
  then show ?thesis using assms(1,3,4) unfolding dir_ok_def pt page_used_def by (simp add: subset_iff)
qed

subsection \<open>Finding an entry\<close>

lemma user_pd_no: "is_user_vaddr va \<Longrightarrow> unat (pd_no va) < 768"
  using is_user_pd_no by blast

lemma lookup_page_found:
  assumes ok: "dir_ok m pd" and va: "is_user_vaddr va"
  shows "lookup_page m pd va False = Some (map_option (\<lambda>pt. (pt, pt_no va)) (pt_at m pd (unat (pd_no va))), m)"
    and "pt_at m pd (unat (pd_no va)) \<noteq> None \<Longrightarrow>
      lookup_page m pd va create = Some (map_option (\<lambda>pt. (pt, pt_no va)) (pt_at m pd (unat (pd_no va))), m)"
    and "pt_at m pd (unat (pd_no va)) = Some pt \<Longrightarrow> get_entry m pt (pt_no va) = Some (upte m pd va)"
proof -
  note i = user_pd_no [OF va]
  obtain es where es: "tables m pd = Some es" "length es = 1024" "\<forall>i < 768. es ! i \<noteq> 0 \<longrightarrow> pde_get_pt (es ! i) \<noteq> None"
    "\<forall>i. pt_at m pd i = (if es ! i = 0 then None else pde_get_pt (es ! i))" by (rule dir_okE [OF ok])
  have e: "get_entry m pd (pd_no va) = Some (es ! unat (pd_no va))" using es(1,2) i by (simp add: get_entry_def)
  have p: "es ! unat (pd_no va) \<noteq> 0 \<Longrightarrow> \<exists>pt. pde_get_pt (es ! unat (pd_no va)) = Some pt" using es(3) i by blast
  show "lookup_page m pd va False = Some (map_option (\<lambda>pt. (pt, pt_no va)) (pt_at m pd (unat (pd_no va))), m)"
    using e p es(4) dir_nonzero [OF ok] by (auto simp: lookup_page_def)
  show "pt_at m pd (unat (pd_no va)) \<noteq> None \<Longrightarrow>
      lookup_page m pd va create = Some (map_option (\<lambda>pt. (pt, pt_no va)) (pt_at m pd (unat (pd_no va))), m)"
    using e p es(4) dir_nonzero [OF ok] va by (auto simp: lookup_page_def split: if_splits)
  show "pt_at m pd (unat (pd_no va)) = Some pt \<Longrightarrow> get_entry m pt (pt_no va) = Some (upte m pd va)"
    using dir_ok_table [OF ok i] pt_no_bound [of va] by (fastforce simp: get_entry_def upte_def)
qed


subsection \<open>A new page table\<close>

lemma fresh_page:
  assumes ok: "mmu_ok P m" and g: "got_pages False flags 1 (frames m) t fr"
  shows "pg_ofs t = 0" "is_kernel_vaddr t" "unat t div 4096 \<notin> used_pages (get_pool False (frames m))"
    and "used_pages (get_pool False fr) = insert (unat t div 4096) (used_pages (get_pool False (frames m)))"
    and "palloc_ok fr" "pool_pages (get_pool False fr) = pool_pages (get_pool False (frames m))"
proof -
  have pg: "pages t 1 = {unat t div 4096}" by (auto simp: pages_def)
  show "pg_ofs t = 0" "unat t div 4096 \<notin> used_pages (get_pool False (frames m))" "palloc_ok fr"
    "used_pages (get_pool False fr) = insert (unat t div 4096) (used_pages (get_pool False (frames m)))"
    "pool_pages (get_pool False fr) = pool_pages (get_pool False (frames m))"
    using g pg by (auto simp: got_pages_def)
  have "unat t div 4096 \<in> pool_pages (get_pool False (frames m))" using g pg by (auto simp: got_pages_def)
  then have "786432 \<le> unat t div 4096" using mmu_okD(3) [OF ok] by blast
  then have "786432 * 4096 \<le> unat t" by linarith
  then show "is_kernel_vaddr t" by (simp add: is_kernel_vaddr_def PHYS_BASE_def word_le_nat_alt)
qed

lemma fresh_not_owned:
  assumes "mmu_ok P m" "unat t div 4096 \<notin> used_pages (get_pool False (frames m))"
  shows "pd \<in> P \<Longrightarrow> t \<notin> owned m pd" and "t \<noteq> base_page_dir m"
proof -
  show "t \<notin> owned m pd" if "pd \<in> P"
  proof
    assume "t \<in> owned m pd"
    moreover have "\<forall>t \<in> owned m pd. page_used m t \<and> t \<noteq> base_page_dir m"
      using mmu_okD(4) [OF assms(1) that] unfolding dir_ok_def by (elim conjE)
    ultimately show False using assms(2) by (auto simp: page_used_def)
  qed
  show "t \<noteq> base_page_dir m" using mmu_okD(2) [OF assms(1)] assms(2) by (auto simp: base_ok_def page_used_def)
qed

definition with_table :: "mmu \<Rightarrow> palloc \<Rightarrow> ptr \<Rightarrow> nat \<Rightarrow> ptr \<Rightarrow> u32 \<Rightarrow> mmu" where
  "with_table m fr pd k pt e = m\<lparr>frames := fr,
     tables := (tables m)(pt \<mapsto> replicate 1024 0, pd \<mapsto> (the (tables m pd))[k := e])\<rparr>"

lemma with_table_same [simp]:
  "frames (with_table m fr pd k pt e) = fr" "base_page_dir (with_table m fr pd k pt e) = base_page_dir m"
  "cr3 (with_table m fr pd k pt e) = cr3 m" "tlb (with_table m fr pd k pt e) = tlb m" "ram_pages (with_table m fr pd k pt e) = ram_pages m"
  by (simp_all add: with_table_def)

lemma with_table_pt:
  assumes ok: "dir_ok m pd" and k: "k < 768" and pt: "pt \<notin> owned m pd" and e: "e \<noteq> 0" "pde_get_pt e = Some pt"
  shows "pt_at (with_table m fr pd k pt e) pd = (pt_at m pd)(k \<mapsto> pt)"
    and "t \<noteq> pd \<Longrightarrow> t \<noteq> pt \<Longrightarrow> tables (with_table m fr pd k pt e) t = tables m t"
    and "tables (with_table m fr pd k pt e) pt = Some (replicate 1024 0)"
    and "\<exists>es. tables m pd = Some es \<and> length es = 1024 \<and> tables (with_table m fr pd k pt e) pd = Some (es[k := e])"
proof -
  obtain es where es: "tables m pd = Some es" "length es = 1024"
    "\<forall>i. pt_at m pd i = (if es ! i = 0 then None else pde_get_pt (es ! i))" by (rule dir_okE [OF ok])
  have ne: "pt \<noteq> pd" using pt by (auto simp: owned_def)
  show t: "\<exists>es. tables m pd = Some es \<and> length es = 1024 \<and> tables (with_table m fr pd k pt e) pd = Some (es[k := e])"
    using es(1,2) by (simp add: with_table_def)
  show "tables (with_table m fr pd k pt e) pt = Some (replicate 1024 0)" using ne by (simp add: with_table_def)
  show "t \<noteq> pd \<Longrightarrow> t \<noteq> pt \<Longrightarrow> tables (with_table m fr pd k pt e) t = tables m t" by (simp add: with_table_def)
  have kl: "k < length es" using k es(2) by simp
  show "pt_at (with_table m fr pd k pt e) pd = (pt_at m pd)(k \<mapsto> pt)"
  proof
    fix i show "pt_at (with_table m fr pd k pt e) pd i = ((pt_at m pd)(k \<mapsto> pt)) i"
      using es kl e by (cases "i = k") (simp_all add: pt_at_def with_table_def)
  qed
qed

lemma range_upd_fresh:
  assumes "f k = None" "k < (n :: nat)"
  shows "{y. \<exists>i < n. (f(k \<mapsto> z)) i = Some y} = insert z {y. \<exists>i < n. f i = Some y}"
proof (intro set_eqI iffI)
  fix y assume "y \<in> insert z {y. \<exists>i < n. f i = Some y}"
  then consider "y = z" | i where "i < n" "f i = Some y" by auto
  then show "y \<in> {y. \<exists>i < n. (f(k \<mapsto> z)) i = Some y}"
  proof cases
    case 2
    then have "i \<noteq> k" using assms(1) by auto
    then show ?thesis using 2 by auto
  qed (use assms(2) in auto)
qed (auto split: if_splits)

lemma with_table_ok:
  assumes ok: "mmu_ok P m" and pd: "pd \<in> P" and k: "k < 768" "pt_at m pd k = None"
    and g: "got_pages False flags 1 (frames m) pt fr" and e: "e \<noteq> 0" "pde_get_pt e = Some pt"
  shows "mmu_ok P (with_table m fr pd k pt e)"
    and "pd' \<in> P \<Longrightarrow> is_user_vaddr va \<Longrightarrow> upte (with_table m fr pd k pt e) pd' va = upte m pd' va"
proof -
  let ?m = "with_table m fr pd k pt e"
  note fp = fresh_page [OF ok g]
  have no: "pt \<notin> owned m q" if "q \<in> P" for q using fresh_not_owned(1) [OF ok fp(3) that] .
  have nb: "pt \<noteq> base_page_dir m" using fresh_not_owned(2) [OF ok fp(3)] .
  note dok = mmu_okD(4) [OF ok pd]
  note wt = with_table_pt [OF dok k(1) no [OF pd] e, where fr = fr]
  have sub: "used_pages (get_pool False (frames m)) \<subseteq> used_pages (get_pool False (frames ?m))" using fp(4) by auto
  have own: "owned ?m pd = insert pt (owned m pd)" using range_upd_fresh [of "pt_at m pd", OF k(2,1)] by (auto simp: owned_def wt(1))
  have other: "tables ?m t = tables m t" if "q \<in> P" "q \<noteq> pd" "t \<in> owned m q" for q t
  proof -
    have "t \<noteq> pd" using mmu_okD(5) [OF ok that(1) pd that(2)] that(3) by (auto simp: owned_def)
    moreover have "t \<noteq> pt" using no [OF that(1)] that(3) by blast
    ultimately show ?thesis by (rule wt(2))
  qed
  have self: "q \<in> owned m q" for q by (simp add: owned_def)
  have oq: "owned ?m q = owned m q" if "q \<in> P" "q \<noteq> pd" for q using owned_cong [OF other [OF that self]] .
  have used: "page_used m t \<Longrightarrow> page_used ?m t" for t using sub by (auto simp: page_used_def)
  have dir_pd: "dir_ok ?m pd"
    unfolding dir_ok_def
  proof (intro conjI)
    obtain es where es: "tables m pd = Some es" "length es = 1024" "\<forall>i < 768. es ! i \<noteq> 0 \<longrightarrow> pde_get_pt (es ! i) \<noteq> None"
      "\<forall>i. pt_at m pd i = (if es ! i = 0 then None else pde_get_pt (es ! i))" by (rule dir_okE [OF dok])
    have "\<forall>i < 768. es[k := e] ! i \<noteq> 0 \<longrightarrow> pde_get_pt (es[k := e] ! i) \<noteq> None"
      using es(2,3) e k(1) by (simp add: nth_list_update)
    then show "\<exists>es. tables ?m pd = Some es \<and> length es = 1024 \<and> (\<forall>i < 768. es ! i \<noteq> 0 \<longrightarrow> pde_get_pt (es ! i) \<noteq> None)"
      using wt(4) es(1,2) by (intro exI [of _ "es[k := e]"]) auto
    show "\<forall>i < 768. \<forall>q. pt_at ?m pd i = Some q \<longrightarrow> q \<noteq> pd \<and> (\<exists>ts. tables ?m q = Some ts \<and> length ts = 1024)"
    proof (intro allI impI)
      fix i q assume i: "i < 768" "pt_at ?m pd i = Some q"
      show "q \<noteq> pd \<and> (\<exists>ts. tables ?m q = Some ts \<and> length ts = 1024)"
      proof (cases "i = k")
        case True
        then have "q = pt" using i(2) wt(1) by simp
        then show ?thesis using wt(3) no [OF pd] self by auto
      next
        case False
        then have "pt_at m pd i = Some q" using i(2) wt(1) by simp
        then obtain ts where "tables m q = Some ts" "length ts = 1024" "q \<noteq> pd" "q \<in> owned m pd" by (rule dir_ok_table [OF dok i(1)])
        then show ?thesis using wt(2) no [OF pd] by metis
      qed
    qed
    have inj: "\<forall>i < 768. \<forall>j < 768. \<forall>q. pt_at m pd i = Some q \<longrightarrow> pt_at m pd j = Some q \<longrightarrow> i = j"
      using dok unfolding dir_ok_def by (elim conjE)
    have new: "pt_at m pd i \<noteq> Some pt" if "i < 768" for i using no [OF pd] that by (auto simp: owned_def)
    show "\<forall>i < 768. \<forall>j < 768. \<forall>q. pt_at ?m pd i = Some q \<longrightarrow> pt_at ?m pd j = Some q \<longrightarrow> i = j"
    proof (intro allI impI)
      fix i j q assume "i < 768" "j < 768" "pt_at ?m pd i = Some q" "pt_at ?m pd j = Some q"
      then have "i < 768" "j < 768" "((pt_at m pd)(k \<mapsto> pt)) i = Some q" "((pt_at m pd)(k \<mapsto> pt)) j = Some q"
        unfolding wt(1) by simp_all
      then show "i = j" using inj new by (cases "i = k"; cases "j = k") auto
    qed
    have "\<forall>t \<in> owned m pd. page_used m t \<and> t \<noteq> base_page_dir m" using dok unfolding dir_ok_def by (elim conjE)
    then show "\<forall>t \<in> owned ?m pd. page_used ?m t \<and> t \<noteq> base_page_dir ?m"
      using used nb fp(1,2,4) by (auto simp: own page_used_def)
  qed
  have dirs: "dir_ok ?m q" if "q \<in> P" for q
    using dir_pd dir_ok_frame [OF mmu_okD(4) [OF ok that] other [OF that] sub] by (cases "q = pd") auto
  have "base_page_dir m \<noteq> pd" using dir_nonzero [OF dok] by auto
  then have bt: "tables ?m (base_page_dir m) = tables m (base_page_dir m)" using wt(2) nb by auto
  have "base_ok ?m" using mmu_okD(2) [OF ok] used bt by (auto simp: base_ok_def)
  moreover have "owned ?m p \<inter> owned ?m q = {}" if "p \<in> P" "q \<in> P" "p \<noteq> q" for p q
    using mmu_okD(5) [OF ok that] oq [of p] oq [of q] own no that by (cases "p = pd"; cases "q = pd") auto
  ultimately show "mmu_ok P ?m" using dirs fp(5,6) mmu_okD(3) [OF ok] unfolding mmu_ok_def by simp
  show "upte ?m pd' va = upte m pd' va" if "pd' \<in> P" "is_user_vaddr va"
  proof (cases "pd' = pd")
    case False
    have eq: "pt_at ?m pd' = pt_at m pd'" using pt_at_cong [OF other [OF that(1) False self]] .
    have "tables ?m t = tables m t" if "pt_at m pd' (unat (pd_no va)) = Some t" for t
      using other [OF \<open>pd' \<in> P\<close> False] that user_pd_no [OF \<open>is_user_vaddr va\<close>] by (auto simp: owned_def)
    then show ?thesis by (simp add: upte_def eq split: option.split)
  next
    case True
    show ?thesis
    proof (cases "unat (pd_no va) = k")
      case True
      then show ?thesis using k(2) wt(1,3) pt_no_bound [of va] \<open>pd' = pd\<close> by (simp add: upte_def)
    next
      case False
      have "tables ?m t = tables m t" if "pt_at m pd (unat (pd_no va)) = Some t" for t
      proof -
        have "t \<noteq> pd \<and> t \<in> owned m pd" using dir_ok_table [OF dok user_pd_no [OF \<open>is_user_vaddr va\<close>] that] by metis
        then show ?thesis using wt(2) no [OF pd] by metis
      qed
      then show ?thesis using False wt(1) \<open>pd' = pd\<close> by (simp add: upte_def split: option.split)
    qed
  qed
qed


definition same_cpu :: "mmu \<Rightarrow> mmu \<Rightarrow> bool" where
  "same_cpu m m' \<longleftrightarrow> base_page_dir m' = base_page_dir m \<and> ram_pages m' = ram_pages m \<and> cr3 m' = cr3 m \<and> tlb m' = tlb m"

definition same_ptes :: "ptr set \<Rightarrow> mmu \<Rightarrow> mmu \<Rightarrow> bool" where
  "same_ptes P m m' \<longleftrightarrow> (\<forall>pd \<in> P. \<forall>va. is_user_vaddr va \<longrightarrow> upte m' pd va = upte m pd va)"

lemma lookup_create:
  assumes ok: "mmu_ok P m" and pd: "pd \<in> P" and va: "is_user_vaddr va"
  obtains "lookup_page m pd va True = Some (None, m)" "no_run (get_pool False (frames m)) 1"
  | pt m' where "lookup_page m pd va True = Some (Some (pt, pt_no va), m')" "mmu_ok P m'" "same_cpu m m'" "same_ptes P m m'"
      "pt_at m' pd (unat (pd_no va)) = Some pt"
proof -
  note dok = mmu_okD(4) [OF ok pd]
  let ?k = "unat (pd_no va)"
  note k = user_pd_no [OF va]
  show thesis
  proof (cases "pt_at m pd ?k")
    case (Some pt)
    show thesis using that(2) [of pt m] lookup_page_found(2) [OF dok va, of True] Some ok
      by (simp add: same_cpu_def same_ptes_def)
  next
    case None
    obtain es where es: "tables m pd = Some es" "length es = 1024" "\<forall>i < 768. es ! i \<noteq> 0 \<longrightarrow> pde_get_pt (es ! i) \<noteq> None"
      "\<forall>i. pt_at m pd i = (if es ! i = 0 then None else pde_get_pt (es ! i))" by (rule dir_okE [OF dok])
    have z: "es ! ?k = 0" using None es(3,4) k by (metis (full_types))
    have e: "get_entry m pd (pd_no va) = Some 0" using es(1,2) k z by (simp add: get_entry_def)
    note pg = palloc_get_multiple_ok [OF mmu_okD(1) [OF ok], of 1 False PAL_ZERO]
    show thesis
    proof (cases "no_run (get_pool False (frames m)) 1")
      case True
      then have "palloc_get_page (frames m) PAL_ZERO = Some (0, frames m)"
        using pg by (simp add: palloc_get_page_def PAL_ZERO_def PAL_USER_def PAL_ASSERT_def)
      then show thesis using that(1) True e dir_nonzero [OF dok] va by (simp add: lookup_page_def)
    next
      case False
      then obtain pt fr where g: "palloc_get_page (frames m) PAL_ZERO = Some (pt, fr)" "got_pages False PAL_ZERO 1 (frames m) pt fr"
        using pg by (auto simp: palloc_get_page_def PAL_ZERO_def PAL_USER_def)
      note fp = fresh_page [OF ok g(2)]
      obtain c where c: "pde_create pt = Some c" "c \<noteq> 0" "pde_get_pt c = Some pt" using pde_roundtrip [OF fp(1,2)] by blast
      let ?m = "with_table m fr pd ?k pt c"
      have ne: "pt \<notin> owned m pd" using fresh_not_owned(1) [OF ok fp(3) pd] .
      then have ne': "pt \<noteq> pd" by (auto simp: owned_def)
      note wt = with_table_pt [OF dok k ne c(2,3), where fr = fr]
      have "pt \<noteq> 0" using g(2) by (simp add: got_pages_def)
      moreover have "set_entry (m\<lparr>frames := fr, tables := (tables m)(pt \<mapsto> replicate 1024 0)\<rparr>) pd (pd_no va) c = Some ?m"
        using es(1,2) k ne' by (simp add: set_entry_def with_table_def)
      moreover have "get_entry ?m pd (pd_no va) = Some c" using wt(4) es(1) k by (auto simp: get_entry_def)
      ultimately have "lookup_page m pd va True = Some (Some (pt, pt_no va), ?m)"
        using g(1) e dir_nonzero [OF dok] va c by (simp add: lookup_page_def Let_def)
      moreover have "same_cpu m ?m" by (simp add: same_cpu_def)
      moreover have "same_ptes P m ?m" using with_table_ok(2) [OF ok pd k None g(2) c(2,3)] by (simp add: same_ptes_def)
      moreover have "pt_at ?m pd ?k = Some pt" by (simp add: wt(1))
      ultimately show thesis using that(2) with_table_ok(1) [OF ok pd k None g(2) c(2,3)] by blast
    qed
  qed
qed

subsection \<open>Changing an entry\<close>

lemma page_pd_no: "pg_no a = pg_no b \<Longrightarrow> pd_no a = pd_no b"
proof -
  have "n div 4194304 = n div 4096 div 1024" for n :: nat by (simp flip: div_mult2_eq)
  then show "pg_no a = pg_no b \<Longrightarrow> pd_no a = pd_no b" by (simp add: u32_eq_iff unat_pg_no unat_pd_no)
qed

lemma dir_ok_tables:
  assumes ok: "dir_ok m q" and q: "tables m' q = tables m q" and len: "\<And>t. map_option length (tables m' t) = map_option length (tables m t)"
    and "frames m' = frames m" "base_page_dir m' = base_page_dir m"
  shows "dir_ok m' q"
proof -
  have "(\<exists>ts. tables m' t = Some ts \<and> length ts = 1024) \<longleftrightarrow> (\<exists>ts. tables m t = Some ts \<and> length ts = 1024)" for t
    using len [of t] by (cases "tables m t"; cases "tables m' t") auto
  then show ?thesis using ok unfolding dir_ok_def page_used_def pt_at_cong [OF q] owned_cong [OF q] q assms(4,5) by simp
qed

lemma set_entry_ok:
  assumes ok: "mmu_ok P m" and pd: "pd \<in> P" and va: "is_user_vaddr va" and pt: "pt_at m pd (unat (pd_no va)) = Some pt"
  obtains m' where "set_entry m pt (pt_no va) e = Some m'" "mmu_ok P m'" "same_cpu m m'"
    "\<forall>q \<in> P. \<forall>v. is_user_vaddr v \<longrightarrow> upte m' q v = (if q = pd \<and> pg_no v = pg_no va then e else upte m q v)"
proof -
  note dok = mmu_okD(4) [OF ok pd]
  note k = user_pd_no [OF va]
  obtain ts where ts: "tables m pt = Some ts" "length ts = 1024" "pt \<noteq> pd" "pt \<in> owned m pd" by (rule dir_ok_table [OF dok k pt])
  let ?m = "m\<lparr>tables := (tables m)(pt \<mapsto> ts[unat (pt_no va) := e])\<rparr>"
  have eq: "set_entry m pt (pt_no va) e = Some ?m" using ts pt_no_bound [of va] by (simp add: set_entry_def)
  have nq: "pt \<noteq> q" if "q \<in> P" for q
    using mmu_okD(5) [OF ok pd that] ts(3,4) by (cases "q = pd") (auto simp: owned_def)
  then have tq: "tables ?m q = tables m q" if "q \<in> P" for q using that by auto
  have dirs: "dir_ok ?m q" if "q \<in> P" for q
    using mmu_okD(4) [OF ok that] tq [OF that] by (rule dir_ok_tables) (use ts in auto)
  have own: "owned ?m q = owned m q" if "q \<in> P" for q using owned_cong [OF tq [OF that]] .
  have "\<forall>t \<in> owned m pd. page_used m t \<and> t \<noteq> base_page_dir m" using dok unfolding dir_ok_def by (elim conjE)
  then have "base_ok ?m" using mmu_okD(2) [OF ok] ts(4) by (auto simp: base_ok_def page_used_def)
  then have ok': "mmu_ok P ?m" using dirs own ok unfolding mmu_ok_def by simp
  have ptq: "pt_at ?m q = pt_at m q" if "q \<in> P" for q using pt_at_cong [OF tq [OF that]] .
  have inj: "\<forall>i < 768. \<forall>j < 768. \<forall>q. pt_at m pd i = Some q \<longrightarrow> pt_at m pd j = Some q \<longrightarrow> i = j"
    using dok unfolding dir_ok_def by (elim conjE)
  have up: "upte ?m q v = (if q = pd \<and> pg_no v = pg_no va then e else upte m q v)" if q: "q \<in> P" "is_user_vaddr v" for q v
  proof (cases "q = pd \<and> pd_no v = pd_no va")
    case True
    then have "upte ?m q v = (ts[unat (pt_no va) := e]) ! unat (pt_no v)" using ptq [OF pd] pt by (simp add: upte_def)
    moreover have "upte m q v = ts ! unat (pt_no v)" using True pt ts(1) by (simp add: upte_def)
    moreover have "pg_no v = pg_no va \<longleftrightarrow> pt_no v = pt_no va"
      using True same_page [of v va] by (auto simp: u32_eq_iff unat_pg_no unat_pt_no)
    moreover have "unat (pt_no va) = unat (pt_no v) \<longleftrightarrow> pt_no v = pt_no va" by (auto simp: u32_eq_iff)
    ultimately show ?thesis using True ts(2) pt_no_bound [of va] by (simp add: nth_list_update)
  next
    case False
    have "pt_at m q (unat (pd_no v)) \<noteq> Some pt"
    proof
      assume a: "pt_at m q (unat (pd_no v)) = Some pt"
      then have "pt \<in> owned m q" using user_pd_no [OF q(2)] by (auto simp: owned_def)
      then have "q = pd" using mmu_okD(5) [OF ok pd q(1)] ts(4) by blast
      then have "unat (pd_no v) = unat (pd_no va)" using inj a pt k user_pd_no [OF q(2)] by blast
      then show False using False \<open>q = pd\<close> by (simp add: u32_eq_iff)
    qed
    then have "upte ?m q v = upte m q v" using ptq [OF q(1)] by (simp add: upte_def split: option.split)
    moreover have "\<not> (q = pd \<and> pg_no v = pg_no va)" using False page_pd_no by blast
    ultimately show ?thesis by auto
  qed
  show thesis by (rule that [OF eq ok']) (use up in \<open>auto simp: same_cpu_def\<close>)
qed


subsection \<open>The cache of translations\<close>

text \<open>A cached entry agrees with the one in memory but for the accessed and the dirty bit, which the CPU sets
  in memory before it sets them in the cache.\<close>

definition cached :: "u32 \<Rightarrow> u32 \<Rightarrow> bool" where
  "cached e p \<longleftrightarrow> e AND PTE_P \<noteq> 0 \<and> e AND NOT (PTE_A OR PTE_D) = p AND NOT (PTE_A OR PTE_D) \<and>
     (e AND PTE_A \<noteq> 0 \<longrightarrow> p AND PTE_A \<noteq> 0) \<and> (e AND PTE_D \<noteq> 0 \<longrightarrow> p AND PTE_D \<noteq> 0)"

definition tlb_ok :: "ptr set \<Rightarrow> mmu \<Rightarrow> bool" where
  "tlb_ok P m \<longleftrightarrow> (\<exists>a. active_pd m = Some a \<and> a \<in> insert (base_page_dir m) P \<and>
     (\<forall>v e. is_user_vaddr v \<longrightarrow> tlb m v = Some e \<longrightarrow> cached e (upte m a v)))"

lemma cached_present: "cached e p \<Longrightarrow> p AND PTE_P \<noteq> 0"
proof -
  assume c: "cached e p"
  have "NOT (PTE_A OR PTE_D) AND PTE_P = PTE_P" by (simp add: pte_flag_defs)
  then have k: "(x AND NOT (PTE_A OR PTE_D)) AND PTE_P = x AND PTE_P" for x by (simp only: and.assoc)
  have "e AND NOT (PTE_A OR PTE_D) = p AND NOT (PTE_A OR PTE_D)" using c by (simp add: cached_def)
  then have "e AND PTE_P = p AND PTE_P" using k [of e] k [of p] by (simp only:)
  then show ?thesis using c by (simp add: cached_def)
qed

lemma or_and_zero: "(a OR b) AND c = 0 \<Longrightarrow> a AND c = 0" for a b c :: u32
  by (metis or_eq_0_iff word_ao_dist)

lemma cached_flag:
  assumes "f = PTE_A \<or> f = PTE_D" "cached e p"
  shows "cached e (p OR f)"
proof -
  have "f AND NOT (PTE_A OR PTE_D) = 0" using assms(1) by (auto simp: PTE_A_def PTE_D_def)
  then show ?thesis using assms(2) or_and_zero [of p f PTE_A] or_and_zero [of p f PTE_D] by (auto simp: cached_def word_ao_dist)
qed

lemma upte_base: "base_ok m \<Longrightarrow> is_user_vaddr va \<Longrightarrow> upte m (base_page_dir m) va = 0"
  using user_pd_no [of va] by (auto simp: base_ok_def upte_def pt_at_def)

text \<open>The state after an operation that changed the entry of one page by \<open>f\<close>.\<close>

definition updated :: "ptr set \<Rightarrow> mmu \<Rightarrow> ptr \<Rightarrow> ptr \<Rightarrow> (u32 \<Rightarrow> u32) \<Rightarrow> mmu \<Rightarrow> bool" where
  "updated P m pd va f m' \<longleftrightarrow> mmu_ok P m' \<and> tlb_ok P m' \<and> base_page_dir m' = base_page_dir m \<and> ram_pages m' = ram_pages m \<and>
     cr3 m' = cr3 m \<and>
     (\<forall>q \<in> P. \<forall>v. is_user_vaddr v \<longrightarrow> upte m' q v = (if q = pd \<and> pg_no v = pg_no va then f (upte m q v) else upte m q v))"

lemma upte_page: "pg_no v = pg_no va \<Longrightarrow> upte m pd v = upte m pd va"
proof -
  assume a: "pg_no v = pg_no va"
  then have "unat v div 4096 = unat va div 4096" by (simp add: u32_eq_iff unat_pg_no)
  then have b: "pt_no v = pt_no va" by (simp add: u32_eq_iff unat_pt_no)
  show ?thesis unfolding upte_def page_pd_no [OF a] b ..
qed

lemma update_at_page:
  assumes "\<forall>q \<in> P. \<forall>v. is_user_vaddr v \<longrightarrow> upte m' q v = (if q = pd \<and> pg_no v = pg_no va then f (upte m pd va) else upte m q v)"
  shows "\<forall>q \<in> P. \<forall>v. is_user_vaddr v \<longrightarrow> upte m' q v = (if q = pd \<and> pg_no v = pg_no va then f (upte m q v) else upte m q v)"
proof (intro ballI allI impI)
  fix q v assume q: "q \<in> P" "is_user_vaddr v"
  have "upte m q v = upte m pd va" if "q = pd \<and> pg_no v = pg_no va" using upte_page that by blast
  then show "upte m' q v = (if q = pd \<and> pg_no v = pg_no va then f (upte m q v) else upte m q v)"
    using assms q by simp
qed

lemma active_kept: "same_cpu m m' \<Longrightarrow> active_pd m' = active_pd m"
  by (simp add: same_cpu_def active_pd_def)

text \<open>Without a flush, an update is harmless where no cached entry can contradict it.\<close>

lemma tlb_ok_change:
  assumes ok: "mmu_ok P m" "mmu_ok P m'" and t: "tlb_ok P m" and c: "same_cpu m m'" and pd: "pd \<in> P"
    and up: "\<forall>q \<in> P. \<forall>v. is_user_vaddr v \<longrightarrow> upte m' q v = (if q = pd \<and> pg_no v = pg_no va then f (upte m q v) else upte m q v)"
    and harmless: "active_pd m = Some pd \<Longrightarrow> (\<And>e. cached e (upte m pd va) \<Longrightarrow> cached e (f (upte m pd va)))"
  shows "tlb_ok P m'"
proof -
  obtain a where a: "active_pd m = Some a" "a \<in> insert (base_page_dir m) P"
    "\<And>v e. is_user_vaddr v \<Longrightarrow> tlb m v = Some e \<Longrightarrow> cached e (upte m a v)" using t by (auto simp: tlb_ok_def)
  have b: "base_page_dir m' = base_page_dir m" "tlb m' = tlb m" using c by (simp_all add: same_cpu_def)
  have "cached e (upte m' a v)" if v: "is_user_vaddr v" "tlb m v = Some e" for v e
  proof (cases "a \<in> P")
    case True
    show ?thesis
    proof (cases "a = pd \<and> pg_no v = pg_no va")
      case T: True
      then have "upte m pd v = upte m pd va" using upte_page by blast
      then show ?thesis using harmless a(1) a(3) [OF v] T up True v(1) by auto
    next
      case F: False
      then have "upte m' a v = upte m a v" using up True v(1) by auto
      then show ?thesis using a(3) [OF v] by simp
    qed
  next
    case False
    then have "a = base_page_dir m" using a(2) by simp
    then have "upte m' a v = upte m a v" using upte_base [OF mmu_okD(2) [OF ok(1)] v(1)] upte_base [OF mmu_okD(2) [OF ok(2)] v(1)] b(1) by simp
    then show ?thesis using a(3) [OF v] by simp
  qed
  then show ?thesis using a(1,2) active_kept [OF c] b by (auto simp: tlb_ok_def)
qed

lemma tables_tlb: "tables (m\<lparr>tlb := x\<rparr>) = tables m" "frames (m\<lparr>tlb := x\<rparr>) = frames m" "base_page_dir (m\<lparr>tlb := x\<rparr>) = base_page_dir m"
  by simp_all

lemma upte_tlb: "upte (m\<lparr>tlb := x\<rparr>) = upte m"
  by (intro ext) (simp only: upte_def pt_at_def tables_tlb)

lemma mmu_ok_tlb: "mmu_ok P (m\<lparr>tlb := x\<rparr>) = mmu_ok P m"
  by (simp only: mmu_ok_def dir_ok_def base_ok_def owned_def page_used_def pt_at_def tables_tlb)

lemma invalidate_ok:
  assumes ok: "mmu_ok P m" "mmu_ok P m'" and t: "tlb_ok P m" and c: "same_cpu m m'" and pd: "pd \<in> P"
    and up: "\<forall>q \<in> P. \<forall>v. is_user_vaddr v \<longrightarrow> upte m' q v = (if q = pd \<and> pg_no v = pg_no va then f (upte m q v) else upte m q v)"
  shows "\<exists>m''. invalidate_pagedir m' pd = Some m'' \<and> updated P m pd va f m''"
proof -
  obtain a where a: "active_pd m = Some a" "a \<in> insert (base_page_dir m) P" using t by (auto simp: tlb_ok_def)
  have act: "active_pd m' = Some a" using a(1) active_kept [OF c] by simp
  show ?thesis
  proof (cases "a = pd")
    case False
    then have "invalidate_pagedir m' pd = Some m'" using act by (simp add: invalidate_pagedir_def)
    moreover have "tlb_ok P m'" by (rule tlb_ok_change [OF ok t c pd up]) (use a(1) False in simp)
    ultimately show ?thesis using ok(2) c up by (auto simp: updated_def same_cpu_def)
  next
    case True
    have pd0: "pd \<noteq> 0" using dir_nonzero [OF mmu_okD(4) [OF ok(2) pd]] by simp
    have "page_used m' pd" using mmu_okD(4) [OF ok(2) pd] unfolding dir_ok_def owned_def by auto
    then obtain p where p: "vtop pd = Some p" by (auto simp: page_used_def vtop_def)
    have "ptov (cr3 m') = Some pd" using act True by (simp add: active_pd_def)
    then have "cr3 m' = p" using p by (auto simp: ptov_def vtop_def split: if_splits)
    then have "invalidate_pagedir m' pd = Some (m'\<lparr>tlb := \<lambda>_. None\<rparr>)"
      using act True pd0 p by (simp add: invalidate_pagedir_def pagedir_activate_def Let_def)
    then show ?thesis using act True pd up c ok(2)
      by (auto simp: updated_def same_cpu_def tlb_ok_def active_pd_def upte_tlb mmu_ok_tlb)
  qed
qed


subsection \<open>The operations\<close>

lemma updated_id: "mmu_ok P m \<Longrightarrow> tlb_ok P m \<Longrightarrow> updated P m pd va (\<lambda>e. e) m"
  by (simp add: updated_def)

lemma set_page_ok:
  assumes ok: "mmu_ok P m" "tlb_ok P m" and pd: "pd \<in> P" and va: "pg_ofs upage = 0" "is_user_vaddr upage"
    and k: "pg_ofs kpage = 0" "is_kernel_vaddr kpage" "vtop kpage = Some p" "drop_bit PTSHIFT p < ram_pages m"
  shows "if upte m pd upage AND PTE_P \<noteq> 0 then pagedir_set_page m pd upage kpage w = None
    else pagedir_set_page m pd upage kpage w = Some (False, m) \<and> no_run (get_pool False (frames m)) 1 \<or>
      (\<exists>e m'. pagedir_set_page m pd upage kpage w = Some (True, m') \<and> pte_create_user kpage w = Some e \<and> updated P m pd upage (\<lambda>_. e) m')"
proof -
  note dok = mmu_okD(4) [OF ok(1) pd]
  have unf: "pagedir_set_page m pd upage kpage w = do {
      (pte, m) \<leftarrow> lookup_page m pd upage True;
      case pte of
        Some (pt, i) \<Rightarrow> do {
          old \<leftarrow> get_entry m pt i; kassert (old AND PTE_P = 0); e \<leftarrow> pte_create_user kpage w;
          m \<leftarrow> set_entry m pt i e; Some (True, m) }
      | None \<Rightarrow> Some (False, m) }"
    using va k dir_nonzero [OF dok] by (simp add: pagedir_set_page_def)
  show ?thesis
  proof (rule lookup_create [OF ok(1) pd va(2)])
    assume l: "lookup_page m pd upage True = Some (None, m)" and nr: "no_run (get_pool False (frames m)) 1"
    have "pt_at m pd (unat (pd_no upage)) = None"
    proof (rule ccontr)
      assume n: "pt_at m pd (unat (pd_no upage)) \<noteq> None"
      show False using lookup_page_found(2) [OF dok va(2) n, of True] l n by auto
    qed
    then have "upte m pd upage = 0" by (simp add: upte_def)
    then show ?thesis using unf l nr by simp
  next
    fix pt m1 assume l: "lookup_page m pd upage True = Some (Some (pt, pt_no upage), m1)" "mmu_ok P m1" "same_cpu m m1" "same_ptes P m m1"
      "pt_at m1 pd (unat (pd_no upage)) = Some pt"
    have u: "upte m1 pd upage = upte m pd upage" using l(4) pd va(2) by (simp add: same_ptes_def)
    have g: "get_entry m1 pt (pt_no upage) = Some (upte m pd upage)"
      using lookup_page_found(3) [OF mmu_okD(4) [OF l(2) pd] va(2) l(5)] u by simp
    obtain e where e: "pte_create_user kpage w = Some e" using pte_roundtrip [OF k(1,2), of w] by blast
    obtain m2 where s: "set_entry m1 pt (pt_no upage) e = Some m2" "mmu_ok P m2" "same_cpu m1 m2"
      "\<forall>q \<in> P. \<forall>v. is_user_vaddr v \<longrightarrow> upte m2 q v = (if q = pd \<and> pg_no v = pg_no upage then e else upte m1 q v)"
      by (rule set_entry_ok [OF l(2) pd va(2) l(5)])
    have c: "same_cpu m m2" using l(3) s(3) by (simp add: same_cpu_def)
    have up: "\<forall>q \<in> P. \<forall>v. is_user_vaddr v \<longrightarrow> upte m2 q v = (if q = pd \<and> pg_no v = pg_no upage then (\<lambda>_. e) (upte m q v) else upte m q v)"
      using s(4) l(4) by (simp add: same_ptes_def)
    show ?thesis
    proof (cases "upte m pd upage AND PTE_P = 0")
      case True
      have "tlb_ok P m2"
        by (rule tlb_ok_change [OF ok(1) s(2) ok(2) c pd up]) (use True cached_present in blast)
      then have "updated P m pd upage (\<lambda>_. e) m2" using s(2) c up by (simp add: updated_def same_cpu_def)
      then show ?thesis using unf l(1) g True e s(1) by simp
    next
      case False
      then show ?thesis using unf l(1) g by simp
    qed
  qed
qed

lemma get_page_ok:
  assumes ok: "dir_ok m pd" and va: "is_user_vaddr va"
  shows "pagedir_get_page m pd va = (if upte m pd va AND PTE_P \<noteq> 0
    then map_option (\<lambda>page. page + pg_ofs va) (pte_get_page (upte m pd va)) else Some 0)"
proof (cases "pt_at m pd (unat (pd_no va))")
  case None
  then have "upte m pd va = 0" by (simp add: upte_def)
  then show ?thesis using lookup_page_found(1) [OF assms] None va by (simp add: pagedir_get_page_def)
next
  case (Some pt)
  show ?thesis using lookup_page_found(1) [OF assms] lookup_page_found(3) [OF assms Some] Some va
    by (cases "pte_get_page (upte m pd va)") (simp_all add: pagedir_get_page_def)
qed

lemma is_flag_ok:
  assumes ok: "dir_ok m pd" and va: "is_user_vaddr va"
  shows "is_flag f m pd va = Some (upte m pd va AND f \<noteq> 0)"
proof (cases "pt_at m pd (unat (pd_no va))")
  case None
  then have "upte m pd va = 0" by (simp add: upte_def)
  then show ?thesis using lookup_page_found(1) [OF assms] None by (simp add: is_flag_def)
next
  case (Some pt)
  show ?thesis using lookup_page_found(1) [OF assms] lookup_page_found(3) [OF assms Some] Some by (simp add: is_flag_def)
qed

text \<open>Clearing bits of an entry is followed by a flush.\<close>

lemma clear_bits_ok:
  assumes ok: "mmu_ok P m" "tlb_ok P m" and pd: "pd \<in> P" and va: "is_user_vaddr va" and pt: "pt_at m pd (unat (pd_no va)) = Some pt"
  shows "\<exists>m'. do { m \<leftarrow> set_entry m pt (pt_no va) (upte m pd va AND NOT f); invalidate_pagedir m pd } = Some m' \<and>
    updated P m pd va (\<lambda>e. e AND NOT f) m'"
proof -
  obtain m1 where s: "set_entry m pt (pt_no va) (upte m pd va AND NOT f) = Some m1" "mmu_ok P m1" "same_cpu m m1"
    "\<forall>q \<in> P. \<forall>v. is_user_vaddr v \<longrightarrow> upte m1 q v = (if q = pd \<and> pg_no v = pg_no va then upte m pd va AND NOT f else upte m q v)"
    by (rule set_entry_ok [OF ok(1) pd va pt])
  have "\<forall>q \<in> P. \<forall>v. is_user_vaddr v \<longrightarrow>
      upte m1 q v = (if q = pd \<and> pg_no v = pg_no va then (\<lambda>e. e AND NOT f) (upte m q v) else upte m q v)"
    by (rule update_at_page) (rule s(4))
  from invalidate_ok [OF ok(1) s(2) ok(2) s(3) pd this] show ?thesis using s(1) by auto
qed

lemma clear_page_ok:
  assumes ok: "mmu_ok P m" "tlb_ok P m" and pd: "pd \<in> P" and va: "is_user_vaddr upage" "pg_ofs upage = 0"
  shows "\<exists>m'. pagedir_clear_page m pd upage = Some m' \<and> updated P m pd upage (\<lambda>e. e AND NOT PTE_P) m'"
proof (cases "upte m pd upage AND PTE_P = 0")
  case True
  note dok = mmu_okD(4) [OF ok(1) pd]
  have "upte m pd upage = (upte m pd upage AND NOT PTE_P) OR (upte m pd upage AND PTE_P)" by (simp add: bit_eq_iff bit_simps) blast
  then have k: "upte m pd upage AND NOT PTE_P = upte m pd upage" using True by simp
  have "pagedir_clear_page m pd upage = Some m"
    using lookup_page_found(1) [OF dok va(1)] lookup_page_found(3) [OF dok va(1)] True va
    by (cases "pt_at m pd (unat (pd_no upage))") (simp_all add: pagedir_clear_page_def)
  moreover have "\<forall>q \<in> P. \<forall>v. is_user_vaddr v \<longrightarrow>
      upte m q v = (if q = pd \<and> pg_no v = pg_no upage then (\<lambda>e. e AND NOT PTE_P) (upte m q v) else upte m q v)"
  proof (rule update_at_page, intro ballI allI impI)
    fix q v
    have "upte m q v = upte m pd upage" if "q = pd \<and> pg_no v = pg_no upage" using upte_page that by blast
    then show "upte m q v = (if q = pd \<and> pg_no v = pg_no upage then upte m pd upage AND NOT PTE_P else upte m q v)"
      unfolding k by simp
  qed
  then have "updated P m pd upage (\<lambda>e. e AND NOT PTE_P) m" using ok by (simp only: updated_def)
  ultimately show ?thesis by blast
next
  case False
  note dok = mmu_okD(4) [OF ok(1) pd]
  then obtain pt where pt: "pt_at m pd (unat (pd_no upage)) = Some pt" using False by (cases "pt_at m pd (unat (pd_no upage))") (auto simp: upte_def)
  show ?thesis using clear_bits_ok [OF ok pd va(1) pt, of PTE_P] lookup_page_found(1) [OF dok va(1)] lookup_page_found(3) [OF dok va(1) pt] False pt va
    by (simp add: pagedir_clear_page_def)
qed

lemma set_flag_ok:
  assumes ok: "mmu_ok P m" "tlb_ok P m" and pd: "pd \<in> P" and va: "is_user_vaddr va" and f: "f = PTE_A \<or> f = PTE_D"
  shows "\<exists>m'. set_flag f m pd va v = Some m' \<and>
    updated P m pd va (if pt_at m pd (unat (pd_no va)) = None then (\<lambda>e. e) else if v then (\<lambda>e. e OR f) else (\<lambda>e. e AND NOT f)) m'"
proof (cases "pt_at m pd (unat (pd_no va))")
  case None
  then show ?thesis using lookup_page_found(1) [OF mmu_okD(4) [OF ok(1) pd] va] updated_id [OF ok] by (simp add: set_flag_def)
next
  case (Some pt)
  note l = lookup_page_found [OF mmu_okD(4) [OF ok(1) pd] va]
  show ?thesis
  proof (cases v)
    case False
    then show ?thesis using clear_bits_ok [OF ok pd va Some, of f] l(1) l(3) [OF Some] Some by (simp add: set_flag_def)
  next
    case True
    obtain m1 where s: "set_entry m pt (pt_no va) (upte m pd va OR f) = Some m1" "mmu_ok P m1" "same_cpu m m1"
      "\<forall>q \<in> P. \<forall>w. is_user_vaddr w \<longrightarrow> upte m1 q w = (if q = pd \<and> pg_no w = pg_no va then upte m pd va OR f else upte m q w)"
      by (rule set_entry_ok [OF ok(1) pd va Some])
    have up: "\<forall>q \<in> P. \<forall>w. is_user_vaddr w \<longrightarrow> upte m1 q w = (if q = pd \<and> pg_no w = pg_no va then (\<lambda>e. e OR f) (upte m q w) else upte m q w)"
      by (rule update_at_page) (rule s(4))
    have "tlb_ok P m1" by (rule tlb_ok_change [OF ok(1) s(2) ok(2) s(3) pd up]) (use cached_flag [OF f] in blast)
    then have "updated P m pd va (\<lambda>e. e OR f) m1" using s(2,3) up by (simp add: updated_def same_cpu_def)
    then show ?thesis using True l(1) l(3) [OF Some] Some s(1) by (simp add: set_flag_def)
  qed
qed


lemma create_ok:
  assumes ok: "mmu_ok P m" "tlb_ok P m"
  shows "pagedir_create m = Some (0, m) \<or> (\<exists>pd m'. pagedir_create m = Some (pd, m') \<and> pd \<noteq> 0 \<and> pd \<notin> P \<and>
    mmu_ok (insert pd P) m' \<and> tlb_ok (insert pd P) m' \<and> same_ptes P m m' \<and> (\<forall>va. is_user_vaddr va \<longrightarrow> upte m' pd va = 0))"
proof (cases "no_run (get_pool False (frames m)) 1")
  note pg = palloc_get_multiple_ok [OF mmu_okD(1) [OF ok(1)], of 1 False 0]
  case True
  then have "palloc_get_page (frames m) 0 = Some (0, frames m)" using pg by (simp add: palloc_get_page_def)
  then show ?thesis by (simp add: pagedir_create_def)
next
  note pg = palloc_get_multiple_ok [OF mmu_okD(1) [OF ok(1)], of 1 False 0]
  case False
  then obtain pd fr where g: "palloc_get_page (frames m) 0 = Some (pd, fr)" "got_pages False 0 1 (frames m) pd fr"
    using pg by (auto simp: palloc_get_page_def)
  note fp = fresh_page [OF ok(1) g(2)]
  note no = fresh_not_owned [OF ok(1) fp(3)]
  obtain es where es: "tables m (base_page_dir m) = Some es" "length es = 1024" "\<forall>i < 768. es ! i = 0" "page_used m (base_page_dir m)"
    using mmu_okD(2) [OF ok(1)] by (auto simp: base_ok_def)
  let ?m = "m\<lparr>frames := fr, tables := (tables m)(pd \<mapsto> es)\<rparr>"
  have pd0: "pd \<noteq> 0" using g(2) by (simp add: got_pages_def)
  then have eq: "pagedir_create m = Some (pd, ?m)" using g(1) es(1) by (simp add: pagedir_create_def Let_def)
  have self: "q \<in> owned m q" for q by (simp add: owned_def)
  have pdP: "pd \<notin> P" using no(1) self by blast
  have sub: "used_pages (get_pool False (frames m)) \<subseteq> used_pages (get_pool False (frames ?m))" using fp(4) by auto
  have tab: "tables ?m t = tables m t" if "q \<in> P" "t \<in> owned m q" for q t using no(1) that by auto
  have own: "owned ?m q = owned m q" if "q \<in> P" for q using owned_cong [OF tab [OF that self]] .
  have none: "pt_at ?m pd i = None" if "i < 768" for i using es(3) that by (simp add: pt_at_def)
  then have ownpd: "owned ?m pd = {pd}" by (auto simp: owned_def)
  have dirpd: "dir_ok ?m pd"
    unfolding dir_ok_def ownpd using es none fp(1,2,4) no(2) by (auto simp: page_used_def)
  have dirs: "dir_ok ?m q" if "q \<in> P" for q using dir_ok_frame [OF mmu_okD(4) [OF ok(1) that] tab [OF that] sub] by simp
  have "base_ok ?m" using es sub no(2) by (auto simp: base_ok_def page_used_def)
  moreover have "owned ?m p \<inter> owned ?m q = {}" if "p \<in> insert pd P" "q \<in> insert pd P" "p \<noteq> q" for p q
    using mmu_okD(5) [OF ok(1), of p q] own [of p] own [of q] ownpd no(1) that by (cases "p = pd"; cases "q = pd") auto
  ultimately have okm: "mmu_ok (insert pd P) ?m" using dirs dirpd fp(5,6) mmu_okD(3) [OF ok(1)] unfolding mmu_ok_def by auto
  have up: "upte ?m q va = upte m q va" if "q \<in> P" "is_user_vaddr va" for q va
  proof -
    have "pt_at ?m q = pt_at m q" using pt_at_cong [OF tab [OF that(1) self]] .
    moreover have "tables ?m t = tables m t" if "pt_at m q (unat (pd_no va)) = Some t" for t
      by (rule tab [OF \<open>q \<in> P\<close>]) (use that user_pd_no [OF \<open>is_user_vaddr va\<close>] in \<open>auto simp: owned_def\<close>)
    ultimately show ?thesis by (simp add: upte_def split: option.split)
  qed
  obtain a where a: "active_pd m = Some a" "a \<in> insert (base_page_dir m) P"
    "\<And>v e. is_user_vaddr v \<Longrightarrow> tlb m v = Some e \<Longrightarrow> cached e (upte m a v)" using ok(2) by (auto simp: tlb_ok_def)
  have "upte ?m a v = upte m a v" if "is_user_vaddr v" for v
    using a(2) up [of a v] that upte_base [OF mmu_okD(2) [OF ok(1)] that] upte_base [OF \<open>base_ok ?m\<close> that] by auto
  then have "tlb_ok (insert pd P) ?m" using a by (auto simp: tlb_ok_def active_pd_def)
  moreover have "upte ?m pd va = 0" if "is_user_vaddr va" for va using none [OF user_pd_no [OF that]] by (simp add: upte_def)
  ultimately show ?thesis using eq pd0 pdP okm up by (auto simp: same_ptes_def)
qed

datatype pd_op = Set_page ptr ptr bool | Clear_page ptr | Set_dirty ptr bool | Set_accessed ptr bool

fun run_pd_op :: "pd_op \<Rightarrow> ptr \<Rightarrow> mmu \<Rightarrow> (bool \<times> mmu) option" where
  "run_pd_op (Set_page u k w) pd m = pagedir_set_page m pd u k w"
| "run_pd_op (Clear_page u) pd m = map_option (Pair True) (pagedir_clear_page m pd u)"
| "run_pd_op (Set_dirty v b) pd m = map_option (Pair True) (pagedir_set_dirty m pd v b)"
| "run_pd_op (Set_accessed v b) pd m = map_option (Pair True) (pagedir_set_accessed m pd v b)"

fun op_page :: "pd_op \<Rightarrow> ptr" where
  "op_page (Set_page u k w) = u"
| "op_page (Clear_page u) = u"
| "op_page (Set_dirty v b) = v"
| "op_page (Set_accessed v b) = v"

text \<open>What the code asserts, and what its callers see to.\<close>

fun pd_allowed :: "pd_op \<Rightarrow> ptr \<Rightarrow> mmu \<Rightarrow> bool" where
  "pd_allowed (Set_page u k w) pd m = (pg_ofs u = 0 \<and> is_user_vaddr u \<and> upte m pd u AND PTE_P = 0 \<and> pg_ofs k = 0 \<and>
     (case vtop k of None \<Rightarrow> False | Some p \<Rightarrow> drop_bit PTSHIFT p < ram_pages m))"
| "pd_allowed (Clear_page u) pd m = (pg_ofs u = 0 \<and> is_user_vaddr u)"
| "pd_allowed (Set_dirty v b) pd m = is_user_vaddr v"
| "pd_allowed (Set_accessed v b) pd m = is_user_vaddr v"

text \<open>The change of the entry: \<open>has\<close> tells whether there is a page table for it.\<close>

fun pd_effect :: "pd_op \<Rightarrow> bool \<Rightarrow> u32 \<Rightarrow> u32" where
  "pd_effect (Set_page u k w) has e = the (pte_create_user k w)"
| "pd_effect (Clear_page u) has e = e AND NOT PTE_P"
| "pd_effect (Set_dirty v b) has e = (if \<not> has then e else if b then e OR PTE_D else e AND NOT PTE_D)"
| "pd_effect (Set_accessed v b) has e = (if \<not> has then e else if b then e OR PTE_A else e AND NOT PTE_A)"

lemma updated_cong: "updated P m pd va f m' \<Longrightarrow> (\<And>e. f e = g e) \<Longrightarrow> updated P m pd va g m'"
  unfolding updated_def by simp

lemma run_pd_op_ok:
  assumes ok: "mmu_ok P m" "tlb_ok P m" and pd: "pd \<in> P" and al: "pd_allowed opn pd m"
  shows "\<exists>r m'. run_pd_op opn pd m = Some (r, m') \<and>
    (if r then updated P m pd (op_page opn) (pd_effect opn (pt_at m pd (unat (pd_no (op_page opn))) \<noteq> None)) m'
     else m' = m \<and> no_run (get_pool False (frames m)) 1)"
proof (cases opn)
  case (Set_page u k w)
  then obtain p where p: "vtop k = Some p" "drop_bit PTSHIFT p < ram_pages m" "pg_ofs u = 0" "is_user_vaddr u" "pg_ofs k = 0"
    "upte m pd u AND PTE_P = 0" using al by (auto split: option.splits)
  have "is_kernel_vaddr k" using p(1) by (simp add: vtop_def split: if_splits)
  from set_page_ok [OF ok pd p(3,4,5) this p(1,2), of w] p(6)
  consider "pagedir_set_page m pd u k w = Some (False, m)" "no_run (get_pool False (frames m)) 1"
    | e m' where "pagedir_set_page m pd u k w = Some (True, m')" "pte_create_user k w = Some e" "updated P m pd u (\<lambda>_. e) m'"
    by auto
  then show ?thesis
  proof cases
    case 2
    have "updated P m pd u (pd_effect opn (pt_at m pd (unat (pd_no u)) \<noteq> None)) m'"
      by (rule updated_cong [OF 2(3)]) (simp add: Set_page 2(2))
    then show ?thesis using 2(1) Set_page by (intro exI [of _ True] exI [of _ m']) simp
  qed (auto simp: Set_page)
next
  case (Clear_page u)
  obtain m' where c: "pagedir_clear_page m pd u = Some m'" "updated P m pd u (\<lambda>e. e AND NOT PTE_P) m'"
    using clear_page_ok [OF ok pd, of u] al Clear_page by auto
  have "updated P m pd u (pd_effect opn (pt_at m pd (unat (pd_no u)) \<noteq> None)) m'"
    by (rule updated_cong [OF c(2)]) (simp add: Clear_page)
  then show ?thesis using c(1) Clear_page by (intro exI [of _ True] exI [of _ m']) simp
next
  case (Set_dirty v b)
  have u: "is_user_vaddr v" using al Set_dirty by simp
  obtain m' where c: "set_flag PTE_D m pd v b = Some m'" "updated P m pd v (if pt_at m pd (unat (pd_no v)) = None then (\<lambda>e. e)
      else if b then (\<lambda>e. e OR PTE_D) else (\<lambda>e. e AND NOT PTE_D)) m'" using set_flag_ok [OF ok pd u, of PTE_D b] by blast
  have "updated P m pd v (pd_effect opn (pt_at m pd (unat (pd_no v)) \<noteq> None)) m'"
    by (rule updated_cong [OF c(2)]) (simp add: Set_dirty)
  then show ?thesis using c(1) Set_dirty by (intro exI [of _ True] exI [of _ m']) (simp add: pagedir_set_dirty_def)
next
  case (Set_accessed v b)
  have u: "is_user_vaddr v" using al Set_accessed by simp
  obtain m' where c: "set_flag PTE_A m pd v b = Some m'" "updated P m pd v (if pt_at m pd (unat (pd_no v)) = None then (\<lambda>e. e)
      else if b then (\<lambda>e. e OR PTE_A) else (\<lambda>e. e AND NOT PTE_A)) m'" using set_flag_ok [OF ok pd u, of PTE_A b] by blast
  have "updated P m pd v (pd_effect opn (pt_at m pd (unat (pd_no v)) \<noteq> None)) m'"
    by (rule updated_cong [OF c(2)]) (simp add: Set_accessed)
  then show ?thesis using c(1) Set_accessed by (intro exI [of _ True] exI [of _ m']) (simp add: pagedir_set_accessed_def)
qed

text \<open>C11. Each operation on a page directory implements the update of one entry of the function from directories and user pages
  to page table entries: it does not panic; set_page fails only when the kernel pool has no page left for a page table, and then changes nothing; otherwise
  the entry of its page in its directory, and no other entry of any process, changes as the operation says.
  The tables stay well formed and disjoint, and no translation in the CPU's cache contradicts
  the tables, although the cache is flushed only when bits are cleared in the active directory.\<close>

theorem pagedir_refines_map:
  assumes "mmu_ok P m" and "tlb_ok P m" and "pd \<in> P" and "pd_allowed opn pd m"
  shows "\<exists>r m'. run_pd_op opn pd m = Some (r, m') \<and> mmu_ok P m' \<and> tlb_ok P m' \<and> (\<not> r \<longrightarrow> m' = m \<and> no_run (get_pool False (frames m)) 1) \<and>
    (r \<longrightarrow> (\<forall>q \<in> P. \<forall>v. is_user_vaddr v \<longrightarrow> upte m' q v =
      (if q = pd \<and> pg_no v = pg_no (op_page opn)
       then pd_effect opn (pt_at m pd (unat (pd_no (op_page opn))) \<noteq> None) (upte m q v) else upte m q v)))"
proof -
  obtain r m' where r: "run_pd_op opn pd m = Some (r, m')"
    "if r then updated P m pd (op_page opn) (pd_effect opn (pt_at m pd (unat (pd_no (op_page opn))) \<noteq> None)) m'
     else m' = m \<and> no_run (get_pool False (frames m)) 1"
    using run_pd_op_ok [OF assms] by blast
  show ?thesis using r assms(1,2) by (cases r) (auto simp: updated_def)
qed

text \<open>C14. After a page has been mapped, every address in it translates to the frame plus the offset and the
  entry has the permission asked for, with the dirty and accessed bits clear; mapping it again panics; after it
  has been unmapped, its addresses translate to nothing.\<close>

theorem pagedir_set_get:
  assumes ok: "mmu_ok P m" "tlb_ok P m" and pd: "pd \<in> P" and al: "pd_allowed (Set_page u k w) pd m"
    and set: "pagedir_set_page m pd u k w = Some (True, m')" and v: "is_user_vaddr v" "pg_no v = pg_no u"
  shows "pagedir_get_page m' pd v = Some (k + pg_ofs v) \<and> (upte m' pd v AND PTE_W \<noteq> 0 \<longleftrightarrow> w) \<and>
    pagedir_is_dirty m' pd v = Some False \<and> pagedir_is_accessed m' pd v = Some False \<and>
    pagedir_set_page m' pd u k' w' = None \<and>
    (\<exists>m''. pagedir_clear_page m' pd u = Some m'' \<and> pagedir_get_page m'' pd v = Some 0)"
proof -
  obtain p where p: "vtop k = Some p" "pg_ofs u = 0" "is_user_vaddr u" "pg_ofs k = 0" "drop_bit PTSHIFT p < ram_pages m"
    using al by (auto split: option.splits)
  have kv: "is_kernel_vaddr k" using p(1) by (simp add: vtop_def split: if_splits)
  obtain e where e: "pte_create_user k w = Some e" "e AND PTE_P \<noteq> 0" "e AND PTE_W \<noteq> 0 \<longleftrightarrow> w" "e AND PTE_D = 0" "e AND PTE_A = 0"
    "pte_get_page e = Some k" using pte_roundtrip [OF p(4) kv, of w] by blast
  have up: "updated P m pd u (\<lambda>_. e) m'"
    using set_page_ok [OF ok pd p(2,3,4) kv p(1,5), of w] set e(1) al by auto
  then have ok': "mmu_ok P m'" "tlb_ok P m'" by (simp_all add: updated_def)
  note dok = mmu_okD(4) [OF ok'(1) pd]
  have uv: "upte m' pd v = e" "upte m' pd u = e" using up pd v p(3) by (auto simp: updated_def)
  have "pagedir_set_page m' pd u k' w' = None"
  proof (cases "pg_ofs k' = 0 \<and> (\<exists>p'. vtop k' = Some p' \<and> drop_bit PTSHIFT p' < ram_pages m')")
    case True
    then obtain p' where k': "pg_ofs k' = 0" "vtop k' = Some p'" "drop_bit PTSHIFT p' < ram_pages m'" by blast
    have "is_kernel_vaddr k'" using k'(2) by (simp add: vtop_def split: if_splits)
    then show ?thesis using set_page_ok [OF ok' pd p(2,3) k'(1) _ k'(2,3), of w'] uv(2) e(2) by simp
  next
    case False
    then show ?thesis by (cases "vtop k'") (auto simp: pagedir_set_page_def bind_kassert)
  qed
  moreover obtain m'' where c: "pagedir_clear_page m' pd u = Some m''" "updated P m' pd u (\<lambda>e. e AND NOT PTE_P) m''"
    using clear_page_ok [OF ok' pd p(3,2)] by blast
  have "upte m'' pd v AND PTE_P = 0" using c(2) pd v uv by (auto simp: updated_def and.assoc)
  moreover have "dir_ok m'' pd" using c(2) pd mmu_okD(4) by (auto simp: updated_def)
  ultimately show ?thesis
    using get_page_ok [OF dok v(1)] get_page_ok [of m'' pd v] is_flag_ok [OF dok v(1)] uv e c(1) v(1)
    by (simp add: pagedir_is_dirty_def pagedir_is_accessed_def)
qed

definition one_dir :: mmu where
  "one_dir = \<lparr>tables = (\<lambda>t. if t = 0xc0100000 \<or> t = 0xc0101000 then Some (replicate 1024 0) else None),
     frames = \<lparr>kernel_pool = \<lparr>used_map = \<lparr>bit_cnt = 4, bits = [3]\<rparr>, base = 0xc0100000\<rparr>,
       user_pool = \<lparr>used_map = \<lparr>bit_cnt = 4, bits = [1]\<rparr>, base = 0xc0200000\<rparr>, pmem = \<lambda>_. Some 0\<rparr>,
     base_page_dir = 0xc0100000, ram_pages = 1024, cr3 = 0x101000, tlb = \<lambda>_. None\<rparr>"

lemma one_dir_frames:
  "palloc_ok (frames one_dir)" "pool_pages (get_pool False (frames one_dir)) = {786688 ..< 786692}"
  "786688 \<in> used_pages (get_pool False (frames one_dir))" "786689 \<in> used_pages (get_pool False (frames one_dir))"
proof -
  show "palloc_ok (frames one_dir)"
    by (simp add: one_dir_def palloc_ok_def pool_ok_def bitmap_wf_def mapped_def pool_pages_def pages_def
        pg_ofs_def PGMASK_def BITMASK_def PGBITS_def)
  show "pool_pages (get_pool False (frames one_dir)) = {786688 ..< 786692}"
    by (simp add: one_dir_def get_pool_def pool_pages_def pages_def)
  have b: "bitmap_bits \<lparr>bit_cnt = 4, bits = [3]\<rparr> = [True, True, False, False]" by code_simp
  have "used_pages (get_pool False (frames one_dir)) = (+) 786688 ` {i. i < 4 \<and> [True, True, False, False] ! i}"
    by (simp add: one_dir_def get_pool_def used_pages_def b)
  moreover have "(0::nat) \<in> {i. i < 4 \<and> [True, True, False, False] ! i}" "(1::nat) \<in> {i. i < 4 \<and> [True, True, False, False] ! i}" by simp_all
  ultimately show "786688 \<in> used_pages (get_pool False (frames one_dir))" "786689 \<in> used_pages (get_pool False (frames one_dir))"
    by (force intro: rev_image_eqI)+
qed

lemma one_dir_ok: "mmu_ok {0xc0101000} one_dir" "tlb_ok {0xc0101000} one_dir" "\<not> no_run (get_pool False (frames one_dir)) 1"
proof -
  have used: "page_used one_dir 0xc0100000" "page_used one_dir 0xc0101000"
    using one_dir_frames by (simp_all add: page_used_def pg_ofs_def PGMASK_def BITMASK_def PGBITS_def is_kernel_vaddr_def PHYS_BASE_def)
  have t: "tables one_dir 0xc0100000 = Some (replicate 1024 0)" "tables one_dir 0xc0101000 = Some (replicate 1024 0)"
    and b: "base_page_dir one_dir = 0xc0100000" by (simp_all add: one_dir_def)
  have none: "pt_at one_dir 0xc0101000 i = None" if "i < 768" for i using that t by (simp add: pt_at_def)
  then have own: "owned one_dir 0xc0101000 = {0xc0101000}" by (auto simp: owned_def)
  have "dir_ok one_dir 0xc0101000" unfolding dir_ok_def own using none used t b by simp
  moreover have "base_ok one_dir" using used t b by (simp add: base_ok_def)
  ultimately show "mmu_ok {0xc0101000} one_dir" using one_dir_frames by (simp add: mmu_ok_def)
  show "tlb_ok {0xc0101000} one_dir" by (simp add: tlb_ok_def active_pd_def one_dir_def ptov_def PHYS_BASE_def)
  have "run_at (bitmap_bits \<lparr>bit_cnt = 4, bits = [3]\<rparr>) 2 1 False" by code_simp
  then show "\<not> no_run (get_pool False (frames one_dir)) 1" unfolding no_run_def get_pool_def one_dir_def by auto
qed

lemma one_dir_allowed: "pd_allowed (Set_page 0x8048000 0xc0200000 True) 0xc0101000 one_dir"
proof -
  have "unat (pd_no 0x8048000) = 32" by (simp add: unat_pd_no)
  then have "upte one_dir 0xc0101000 0x8048000 = 0" by (simp add: upte_def pt_at_def one_dir_def)
  then show ?thesis
    by (simp add: pg_ofs_def PGMASK_def BITMASK_def PGBITS_def is_user_vaddr_def PHYS_BASE_def vtop_def is_kernel_vaddr_def
        one_dir_def PTSHIFT_def)
qed

theorem pagedir_refines_map_witness:
  "\<exists>m'. run_pd_op (Set_page 0x8048000 0xc0200000 True) 0xc0101000 one_dir = Some (True, m') \<and> mmu_ok {0xc0101000} m' \<and>
     upte m' 0xc0101000 0x8048123 = the (pte_create_user 0xc0200000 True)"
proof -
  obtain r m' where r: "run_pd_op (Set_page 0x8048000 0xc0200000 True) 0xc0101000 one_dir = Some (r, m')" "mmu_ok {0xc0101000} m'"
    "\<not> r \<longrightarrow> m' = one_dir \<and> no_run (get_pool False (frames one_dir)) 1"
    "r \<longrightarrow> (\<forall>q \<in> {0xc0101000}. \<forall>v. is_user_vaddr v \<longrightarrow> upte m' q v = (if q = 0xc0101000 \<and> pg_no v = pg_no 0x8048000
      then the (pte_create_user 0xc0200000 True) else upte one_dir q v))"
    using pagedir_refines_map [OF one_dir_ok(1,2) _ one_dir_allowed, unfolded op_page.simps pd_effect.simps] by blast
  have "r" using r(3) one_dir_ok(3) by blast
  moreover have "is_user_vaddr 0x8048123" "pg_no 0x8048123 = pg_no 0x8048000"
    by (simp_all add: is_user_vaddr_def PHYS_BASE_def pg_no_def PGBITS_def)
  ultimately show ?thesis using r by auto
qed

theorem pagedir_set_get_witness:
  "\<exists>m'. pagedir_set_page one_dir 0xc0101000 0x8048000 0xc0200000 True = Some (True, m') \<and>
     pagedir_get_page m' 0xc0101000 0x8048123 = Some 0xc0200123"
proof -
  obtain r m' where r: "run_pd_op (Set_page 0x8048000 0xc0200000 True) 0xc0101000 one_dir = Some (r, m')"
    "\<not> r \<longrightarrow> no_run (get_pool False (frames one_dir)) 1"
    using run_pd_op_ok [OF one_dir_ok(1,2) _ one_dir_allowed] by (auto split: if_splits)
  then have s: "pagedir_set_page one_dir 0xc0101000 0x8048000 0xc0200000 True = Some (True, m')" using one_dir_ok(3) by auto
  have v: "is_user_vaddr 0x8048123" "pg_no 0x8048123 = pg_no 0x8048000" "pg_ofs 0x8048123 = 0x123"
    by (simp_all add: is_user_vaddr_def PHYS_BASE_def pg_no_def pg_ofs_def PGMASK_def BITMASK_def PGBITS_def)
  show ?thesis using pagedir_set_get [OF one_dir_ok(1,2) _ one_dir_allowed s v(1,2)] s v(3) by simp
qed


end
