(* ===== verification/Stdio.thy ===== *)
theory Stdio
  imports Stdlib
begin

section \<open>Formatted output (lib/stdio.c)\<close>

text \<open>
  A format string is the list of its characters before the terminator; stepping over the terminator leaves
  the object and is \<^term>\<open>None\<close>. The variable arguments are the words on the stack, as the calling convention of the
  machine has them, a 64-bit argument in two words. The functions return the list of the characters they pass to
  \<^verbatim>\<open>output\<close>, in order. Signed overflow, which C leaves undefined, is \<^term>\<open>None\<close>. Characters are written as their
  ASCII codes. The theory shows that integers are printed
  as numerals of their value without leaving the 64-byte buffer, that \<^verbatim>\<open>vsnprintf\<close> stays within its
  buffer and that \<^verbatim>\<open>atoi\<close> reads back what \<^verbatim>\<open>%d\<close> prints.
\<close>

definition MINUS :: u32 where "MINUS = 1"
definition PLUS :: u32 where "PLUS = 2"
definition SPACE :: u32 where "SPACE = 4"
definition POUND :: u32 where "POUND = 8"
definition ZERO :: u32 where "ZERO = 16"
definition GROUP :: u32 where "GROUP = 32"

datatype conversion_type = CHAR_T | SHORT | INT_T | INTMAX | LONG | LONGLONG | PTRDIFFT | SIZET

record printf_conversion =
  flags :: u32
  width :: int
  precision :: int
  conv_type :: conversion_type

record integer_base =
  radix :: nat
  digit_chars :: "u8 list"
  x_char :: u8
  group :: nat

definition base_d :: integer_base where
  "base_d = \<lparr>radix = 10, digit_chars = [48, 49, 50, 51, 52, 53, 54, 55, 56, 57], x_char = 0, group = 3\<rparr>"

definition base_o :: integer_base where
  "base_o = \<lparr>radix = 8, digit_chars = [48, 49, 50, 51, 52, 53, 54, 55], x_char = 0, group = 3\<rparr>"

definition base_x :: integer_base where
  "base_x = \<lparr>radix = 16, digit_chars = [48, 49, 50, 51, 52, 53, 54, 55, 56, 57, 97, 98, 99, 100, 101, 102],
     x_char = 120, group = 4\<rparr>"

definition base_X :: integer_base where
  "base_X = \<lparr>radix = 16, digit_chars = [48, 49, 50, 51, 52, 53, 54, 55, 56, 57, 65, 66, 67, 68, 69, 70],
     x_char = 88, group = 4\<rparr>"

definition cur :: "u8 list \<Rightarrow> u8" where
  "cur format = (case format of [] \<Rightarrow> 0 | c # _ \<Rightarrow> c)"

definition adv :: "u8 list \<Rightarrow> u8 list option" where
  "adv format = (case format of [] \<Rightarrow> None | _ # r \<Rightarrow> Some r)"

definition va_word :: "u32 list \<Rightarrow> (u32 \<times> u32 list) option" where
  "va_word args = (case args of a # r \<Rightarrow> Some (a, r) | [] \<Rightarrow> None)"

definition va_long :: "u32 list \<Rightarrow> (u64 \<times> u32 list) option" where
  "va_long args = (case args of a # b # r \<Rightarrow> Some (ucast a OR push_bit 32 (ucast b), r) | _ \<Rightarrow> None)"

subsection \<open>Parsing a conversion\<close>

fun parse_flags :: "u8 list \<Rightarrow> u32 \<Rightarrow> u32 \<times> u8 list" where
  "parse_flags [] f = (f, [])"
| "parse_flags (ch # format) f =
    (if ch = 45 then parse_flags format (f OR MINUS)
     else if ch = 43 then parse_flags format (f OR PLUS)
     else if ch = 32 then parse_flags format (f OR SPACE)
     else if ch = 35 then parse_flags format (f OR POUND)
     else if ch = 48 then parse_flags format (f OR ZERO)
     else if ch = 39 then parse_flags format (f OR GROUP)
     else (f, ch # format))"

fun parse_number :: "u8 list \<Rightarrow> int \<Rightarrow> (int \<times> u8 list) option" where
  "parse_number [] n = Some (n, [])"
| "parse_number (ch # format) n =
    (if isdigit (char_int ch)
     then do { kassert (int_fits (n * 10 + char_int ch)); parse_number format (n * 10 + char_int ch - 48) }
     else Some (n, ch # format))"

definition parse_width :: "u8 list \<Rightarrow> u32 list \<Rightarrow> u32 \<Rightarrow> (int \<times> u32 \<times> u8 list \<times> u32 list) option" where
  "parse_width format args f = do {
     (w, format, args) \<leftarrow>
       (if cur format = 42
        then do { format \<leftarrow> adv format; (a, args) \<leftarrow> va_word args; Some (sint a, format, args) }
        else do { (w, format) \<leftarrow> parse_number format 0; Some (w, format, args) });
     if w < 0 then do { kassert (int_fits (- w)); Some (- w, f OR MINUS, format, args) }
     else Some (w, f, format, args)
   }"

definition parse_precision :: "u8 list \<Rightarrow> u32 list \<Rightarrow> (int \<times> u8 list \<times> u32 list) option" where
  "parse_precision format args =
    (if cur format = 46
     then do {
       format \<leftarrow> adv format;
       (p, format, args) \<leftarrow>
         (if cur format = 42
          then do { format \<leftarrow> adv format; (a, args) \<leftarrow> va_word args; Some (sint a, format, args) }
          else do { (p, format) \<leftarrow> parse_number format 0; Some (p, format, args) });
       Some (if p < 0 then - 1 else p, format, args)
     }
     else Some (- 1, format, args))"

definition parse_type :: "u8 list \<Rightarrow> conversion_type \<times> u8 list" where
  "parse_type format = (case format of
      [] \<Rightarrow> (INT_T, format)
    | ch # r \<Rightarrow>
        if ch = 104 then (if cur r = 104 then (CHAR_T, tl r) else (SHORT, r))
        else if ch = 106 then (INTMAX, r)
        else if ch = 108 then (if cur r = 108 then (LONGLONG, tl r) else (LONG, r))
        else if ch = 116 then (PTRDIFFT, r)
        else if ch = 122 then (SIZET, r)
        else (INT_T, format))"

definition parse_conversion :: "u8 list \<Rightarrow> u32 list \<Rightarrow> (printf_conversion \<times> u8 list \<times> u32 list) option" where
  "parse_conversion format args = do {
     let (f, format) = parse_flags format 0;
     let f = (if f AND MINUS \<noteq> 0 then f AND NOT ZERO else f);
     let f = (if f AND PLUS \<noteq> 0 then f AND NOT SPACE else f);
     (w, f, format, args) \<leftarrow> parse_width format args f;
     (p, format, args) \<leftarrow> parse_precision format args;
     let f = (if p \<ge> 0 then f AND NOT ZERO else f);
     let (ty, format) = parse_type format;
     Some (\<lparr>flags = f, width = w, precision = p, conv_type = ty\<rparr>, format, args)
   }"

subsection \<open>Converting\<close>

primrec output_dup :: "u8 \<Rightarrow> nat \<Rightarrow> u8 list" where
  "output_dup ch 0 = []"
| "output_dup ch (Suc cnt) = ch # output_dup ch cnt"

text \<open>The buffer of \<^verbatim>\<open>format_integer\<close> has 64 bytes; the list has the bytes before \<^verbatim>\<open>cp\<close>.\<close>

definition buf_put :: "u8 list \<Rightarrow> u8 \<Rightarrow> u8 list option" where
  "buf_put buf ch = (if length buf < 64 then Some (buf @ [ch]) else None)"

partial_function (option) digit_loop :: "u32 \<Rightarrow> integer_base \<Rightarrow> u64 \<Rightarrow> nat \<Rightarrow> u8 list \<Rightarrow> u8 list option" where
  "digit_loop f b v digit_cnt buf =
    (if v > 0 then do {
       buf \<leftarrow> (if f AND GROUP \<noteq> 0 \<and> digit_cnt > 0 \<and> digit_cnt mod group b = 0 then buf_put buf 44 else Some buf);
       buf \<leftarrow> buf_put buf (digit_chars b ! (unat v mod radix b));
       digit_loop f b (of_nat (unat v div radix b)) (digit_cnt + 1) buf
     }
     else Some buf)"

function zero_loop :: "int \<Rightarrow> u8 list \<Rightarrow> u8 list" where
  "zero_loop p buf = (if int (length buf) < p \<and> length buf < 63 then zero_loop p (buf @ [48]) else buf)"
  by auto
termination by (relation "measure (\<lambda>(p, buf). 63 - length buf)") auto

declare zero_loop.simps [simp del]

definition format_integer :: "u64 \<Rightarrow> bool \<Rightarrow> bool \<Rightarrow> integer_base \<Rightarrow> printf_conversion \<Rightarrow> u8 list option" where
  "format_integer v is_signed negative b c = do {
     let sign = (if is_signed
       then if flags c AND PLUS \<noteq> 0 then (if negative then 45 else 43)
         else if flags c AND SPACE \<noteq> 0 then (if negative then 45 else 32)
         else if negative then 45 else 0
       else 0);
     let x = (if flags c AND POUND \<noteq> 0 \<and> v \<noteq> 0 then x_char b else 0);
     buf \<leftarrow> digit_loop (flags c) b v 0 [];
     let p = (if precision c < 0 then 1 else precision c);
     let buf = zero_loop p buf;
     buf \<leftarrow> (if flags c AND POUND \<noteq> 0 \<and> radix b = 8 \<and> (buf = [] \<or> last buf \<noteq> 48) then buf_put buf 48 else Some buf);
     let pad_cnt = width c - int (length buf) - (if x \<noteq> 0 then 2 else 0) - (if sign \<noteq> 0 then 1 else 0);
     let pad_cnt = nat (if pad_cnt < 0 then 0 else pad_cnt);
     Some ((if flags c AND (MINUS OR ZERO) = 0 then output_dup 32 pad_cnt else []) @
       (if sign \<noteq> 0 then [sign] else []) @
       (if x \<noteq> 0 then [48, x] else []) @
       (if flags c AND ZERO \<noteq> 0 then output_dup 48 pad_cnt else []) @
       rev buf @
       (if flags c AND MINUS \<noteq> 0 then output_dup 32 pad_cnt else []))
   }"

definition format_string :: "u8 list \<Rightarrow> int \<Rightarrow> printf_conversion \<Rightarrow> u8 list option" where
  "format_string str len c = do {
     kassert (nat len \<le> length str);
     let left = (if width c > len \<and> flags c AND MINUS = 0 then output_dup 32 (nat (width c - len)) else []);
     let right = (if width c > len \<and> flags c AND MINUS \<noteq> 0 then output_dup 32 (nat (width c - len)) else []);
     Some (left @ take (nat len) str @ right)
   }"

definition signed_arg :: "conversion_type \<Rightarrow> u32 list \<Rightarrow> (int \<times> u32 list) option" where
  "signed_arg ty args = (case ty of
      CHAR_T \<Rightarrow> do { (a, args) \<leftarrow> va_word args; Some (sint (ucast a :: u8), args) }
    | SHORT \<Rightarrow> do { (a, args) \<leftarrow> va_word args; Some (sint (ucast a :: u16), args) }
    | INT_T \<Rightarrow> do { (a, args) \<leftarrow> va_word args; Some (sint a, args) }
    | INTMAX \<Rightarrow> do { (a, args) \<leftarrow> va_long args; Some (sint a, args) }
    | LONG \<Rightarrow> do { (a, args) \<leftarrow> va_word args; Some (sint a, args) }
    | LONGLONG \<Rightarrow> do { (a, args) \<leftarrow> va_long args; Some (sint a, args) }
    | PTRDIFFT \<Rightarrow> do { (a, args) \<leftarrow> va_word args; Some (sint a, args) }
    | SIZET \<Rightarrow> do {
        (a, args) \<leftarrow> va_word args;
        let v = uint a;
        Some (if v > (2 ^ 32 - 1) div 2 then v - (2 ^ 32 - 1) - 1 else v, args)
      })"

definition unsigned_arg :: "conversion_type \<Rightarrow> u32 list \<Rightarrow> (u64 \<times> u32 list) option" where
  "unsigned_arg ty args = (case ty of
      CHAR_T \<Rightarrow> do { (a, args) \<leftarrow> va_word args; Some (ucast (ucast a :: u8), args) }
    | SHORT \<Rightarrow> do { (a, args) \<leftarrow> va_word args; Some (ucast (ucast a :: u16), args) }
    | INT_T \<Rightarrow> do { (a, args) \<leftarrow> va_word args; Some (ucast a, args) }
    | INTMAX \<Rightarrow> va_long args
    | LONG \<Rightarrow> do { (a, args) \<leftarrow> va_word args; Some (ucast a, args) }
    | LONGLONG \<Rightarrow> va_long args
    | PTRDIFFT \<Rightarrow> do { (a, args) \<leftarrow> va_word args; Some (scast a AND 0xffffffff, args) }
    | SIZET \<Rightarrow> do { (a, args) \<leftarrow> va_word args; Some (ucast a, args) })"

text \<open>The characters of a string in memory, as \<^verbatim>\<open>format_string\<close> reads them.\<close>

primrec load_chars :: "mem \<Rightarrow> ptr \<Rightarrow> nat \<Rightarrow> u8 list option" where
  "load_chars m s 0 = Some []"
| "load_chars m s (Suc n) = do { ch \<leftarrow> m s; r \<leftarrow> load_chars m (s + 1) n; Some (ch # r) }"

text \<open>The text for a conversion that is not supported; in the code it is printed by a call of \<^verbatim>\<open>__printf\<close>.\<close>

definition no_in_kernel :: "u8 \<Rightarrow> u8 list" where
  "no_in_kernel ch = [60, 60, 110, 111, 32, 37] @ [ch] @ [32, 105, 110, 32, 107, 101, 114, 110, 101, 108, 62, 62]"

definition no_conversion :: "u8 \<Rightarrow> u8 list" where
  "no_conversion ch = [60, 60, 110, 111, 32, 37] @ [ch] @
     [32, 99, 111, 110, 118, 101, 114, 115, 105, 111, 110, 62, 62]"

text \<open>The negation of the smallest 64-bit integer, undefined in C, wraps around.\<close>

definition convert :: "mem \<Rightarrow> printf_conversion \<Rightarrow> u8 \<Rightarrow> u32 list \<Rightarrow> (u8 list \<times> u32 list) option" where
  "convert m c ch args =
    (if ch = 100 \<or> ch = 105 then do {
       (v, args) \<leftarrow> signed_arg (conv_type c) args;
       out \<leftarrow> format_integer (of_int (if v < 0 then - v else v)) True (v < 0) base_d c;
       Some (out, args)
     }
     else if ch = 111 \<or> ch = 117 \<or> ch = 120 \<or> ch = 88 then do {
       (v, args) \<leftarrow> unsigned_arg (conv_type c) args;
       let b = (if ch = 111 then base_o else if ch = 117 then base_d else if ch = 120 then base_x else base_X);
       out \<leftarrow> format_integer v False False b c;
       Some (out, args)
     }
     else if ch = 99 then do {
       (a, args) \<leftarrow> va_word args;
       out \<leftarrow> format_string [ucast a] 1 c;
       Some (out, args)
     }
     else if ch = 115 then do {
       (s, args) \<leftarrow> va_word args;
       out \<leftarrow> (if s = 0
         then format_string [40, 110, 117, 108, 108, 41] (int (min 6 (unat (of_int (precision c) :: size_t)))) c
         else do {
           n \<leftarrow> strnlen m s (of_int (precision c));
           str \<leftarrow> load_chars m s (nat (sint n));
           format_string str (sint n) c
         });
       Some (out, args)
     }
     else if ch = 112 then do {
       (p, args) \<leftarrow> va_word args;
       out \<leftarrow> format_integer (ucast p) False False base_x (c\<lparr>flags := POUND\<rparr>);
       Some (out, args)
     }
     else if ch \<in> {102, 101, 69, 103, 71, 110} then Some (no_in_kernel ch, args)
     else Some (no_conversion ch, args))"

lemma length_parse_flags: "length (snd (parse_flags format f)) \<le> length format"
  by (induction format f rule: parse_flags.induct) (auto simp: le_SucI)

lemma length_parse_number: "parse_number format n = Some (k, r) \<Longrightarrow> length r \<le> length format"
  by (induction format n rule: parse_number.induct) (auto simp: le_SucI split: if_splits bind_splits)

lemma length_adv: "adv format = Some r \<Longrightarrow> length r < length format"
  by (cases format) (auto simp: adv_def)

lemma length_parse_width: "parse_width format args f = Some (w, f', r, args') \<Longrightarrow> length r \<le> length format"
  unfolding parse_width_def
  by (auto split: if_splits bind_splits dest!: length_parse_number length_adv)

lemma length_parse_precision: "parse_precision format args = Some (p, r, args') \<Longrightarrow> length r \<le> length format"
  unfolding parse_precision_def
  by (auto split: if_splits bind_splits dest!: length_parse_number length_adv)

lemma length_parse_type: "length (snd (parse_type format)) \<le> length format"
  by (auto simp: parse_type_def split: list.split)

lemma length_parse_conversion:
  assumes "parse_conversion format args = Some (c, r, args')"
  shows "length r \<le> length format"
proof -
  obtain f r1 where 1: "parse_flags format 0 = (f, r1)" by fastforce
  obtain f2 w f3 r2 a2 p r3 a3 where 2: "parse_width r1 args f2 = Some (w, f3, r2, a2)"
    and 3: "parse_precision r2 a2 = Some (p, r3, a3)" "r = snd (parse_type r3)"
    using assms 1 unfolding parse_conversion_def Let_def by (force split: bind_splits prod.splits)
  show ?thesis
    using length_parse_flags [of format 0] 1 length_parse_width [OF 2] length_parse_precision [OF 3(1)] length_parse_type [of r3] 3(2)
    by simp
qed

text \<open>The main loop over the format.\<close>

function vprintf :: "mem \<Rightarrow> u8 list \<Rightarrow> u32 list \<Rightarrow> u8 list option" where
  "vprintf m [] args = Some []"
| "vprintf m (ch # format) args =
    (if ch \<noteq> 37 then do { out \<leftarrow> vprintf m format args; Some (ch # out) }
     else if cur format = 37 then do { out \<leftarrow> vprintf m (tl format) args; Some (37 # out) }
     else do {
       (c, format, args) \<leftarrow> parse_conversion format args;
       (text, args) \<leftarrow> convert m c (cur format) args;
       format \<leftarrow> adv format;
       out \<leftarrow> vprintf m format args;
       Some (text @ out)
     })"
  by pat_completeness auto
termination
  by (relation "measure (\<lambda>(m, format, args). length format)")
    (auto dest!: length_parse_conversion length_adv)

subsection \<open>Printing into a buffer\<close>

record vsnprintf_aux =
  aux_p :: ptr
  aux_length :: int
  max_length :: int

definition vsnprintf_helper :: "u8 \<Rightarrow> vsnprintf_aux \<times> mem \<Rightarrow> (vsnprintf_aux \<times> mem) option" where
  "vsnprintf_helper ch s = (case s of (aux, m) \<Rightarrow> do {
     kassert (int_fits (aux_length aux + 1));
     if aux_length aux < max_length aux
     then do { m \<leftarrow> store8 m (aux_p aux) ch; Some (aux\<lparr>aux_length := aux_length aux + 1, aux_p := aux_p aux + 1\<rparr>, m) }
     else Some (aux\<lparr>aux_length := aux_length aux + 1\<rparr>, m)
   })"

primrec vsnprintf_out :: "u8 list \<Rightarrow> vsnprintf_aux \<times> mem \<Rightarrow> (vsnprintf_aux \<times> mem) option" where
  "vsnprintf_out [] s = Some s"
| "vsnprintf_out (ch # out) s = do { s \<leftarrow> vsnprintf_helper ch s; vsnprintf_out out s }"

definition vsnprintf :: "mem \<Rightarrow> ptr \<Rightarrow> size_t \<Rightarrow> u8 list \<Rightarrow> u32 list \<Rightarrow> (int \<times> mem) option" where
  "vsnprintf m buffer buf_size format args = do {
     let aux = \<lparr>aux_p = buffer, aux_length = 0, max_length = (if buf_size > 0 then sint (buf_size - 1) else 0)\<rparr>;
     out \<leftarrow> vprintf m format args;
     (aux, m) \<leftarrow> vsnprintf_out out (aux, m);
     m \<leftarrow> (if buf_size > 0 then store8 m (aux_p aux) 0 else Some m);
     Some (aux_length aux, m)
   }"

definition snprintf :: "mem \<Rightarrow> ptr \<Rightarrow> size_t \<Rightarrow> u8 list \<Rightarrow> u32 list \<Rightarrow> (int \<times> mem) option" where
  "snprintf m buffer buf_size format args = vsnprintf m buffer buf_size format args"

subsection \<open>Hexadecimal dumps\<close>

text \<open>The text that \<^verbatim>\<open>printf\<close> sends to the console for a line, in the order of the calls.\<close>

primrec dump_hex :: "mem \<Rightarrow> ptr \<Rightarrow> nat \<Rightarrow> nat \<Rightarrow> u8 list option" where
  "dump_hex m p i 0 = Some []"
| "dump_hex m p i (Suc n) = do {
     b \<leftarrow> m p;
     t \<leftarrow> vprintf m [37, 48, 50, 104, 104, 120, 37, 99] [ucast b, if i = 7 then 45 else 32];
     r \<leftarrow> dump_hex m (p + 1) (i + 1) n;
     Some (t @ r)
   }"

primrec dump_ascii :: "mem \<Rightarrow> ptr \<Rightarrow> nat \<Rightarrow> u8 list option" where
  "dump_ascii m p 0 = Some []"
| "dump_ascii m p (Suc n) = do {
     b \<leftarrow> m p;
     t \<leftarrow> vprintf m [37, 99] [if isprint (uint b) then ucast b else 46];
     r \<leftarrow> dump_ascii m (p + 1) n;
     Some (t @ r)
   }"

definition hex_dump_line :: "mem \<Rightarrow> u32 \<Rightarrow> ptr \<Rightarrow> nat \<Rightarrow> nat \<Rightarrow> bool \<Rightarrow> u8 list option" where
  "hex_dump_line m ofs buf start stop ascii = do {
     head \<leftarrow> vprintf m [37, 48, 56, 106, 120, 32, 32] [ofs div 16 * 16, 0];
     hex \<leftarrow> dump_hex m buf start (stop - start);
     tail \<leftarrow> (if ascii
       then do {
         asc \<leftarrow> dump_ascii m buf (stop - start);
         Some (concat (replicate (16 - stop) [32, 32, 32]) @ [124] @ replicate start 32 @ asc @ replicate (16 - stop) 32 @ [124])
       }
       else Some []);
     Some (head @ concat (replicate start [32, 32, 32]) @ hex @ tail @ [10])
   }"

partial_function (option) hex_dump :: "mem \<Rightarrow> u32 \<Rightarrow> ptr \<Rightarrow> size_t \<Rightarrow> bool \<Rightarrow> u8 list option" where
  "hex_dump m ofs buf sz ascii =
    (if sz > 0 then do {
       let start = ofs mod 16;
       let stop = (if 16 - start > sz then start + sz else 16);
       let n = stop - start;
       line \<leftarrow> hex_dump_line m ofs buf (unat start) (unat stop) ascii;
       r \<leftarrow> hex_dump m (ofs + n) (buf + n) (sz - n) ascii;
       Some (line @ r)
     }
     else Some [])"


subsection \<open>Numerals\<close>

definition base_ok :: "integer_base \<Rightarrow> bool" where
  "base_ok b \<longleftrightarrow> b \<in> {base_d, base_o, base_x, base_X}"

definition digit_index :: "integer_base \<Rightarrow> u8 \<Rightarrow> nat" where
  "digit_index b ch = length (takeWhile (\<lambda>d. d \<noteq> ch) (digit_chars b))"

text \<open>The value of a numeral whose digits may be grouped by commas.\<close>

fun num_value :: "integer_base \<Rightarrow> nat \<Rightarrow> u8 list \<Rightarrow> nat" where
  "num_value b acc [] = acc"
| "num_value b acc (ch # cs) = num_value b (if ch = 44 then acc else acc * radix b + digit_index b ch) cs"

fun lsd_value :: "integer_base \<Rightarrow> u8 list \<Rightarrow> nat" where
  "lsd_value b [] = 0"
| "lsd_value b (ch # cs) = (if ch = 44 then lsd_value b cs else digit_index b ch + radix b * lsd_value b cs)"

lemma num_value_append: "num_value b acc (xs @ ys) = num_value b (num_value b acc xs) ys"
  by (induction xs arbitrary: acc) simp_all

lemma num_value_rev: "num_value b 0 (rev ds) = lsd_value b ds"
  by (induction ds) (simp_all add: num_value_append)

lemma base_facts:
  assumes "base_ok b"
  shows "8 \<le> radix b" "radix b \<le> 16" "length (digit_chars b) = radix b" "distinct (digit_chars b)" "44 \<notin> set (digit_chars b)"
    "digit_chars b ! 0 = 48" "digit_index b 48 = 0" "0 < group b"
  using assms by (auto simp: base_ok_def base_d_def base_o_def base_x_def base_X_def digit_index_def)

lemma digit_index_nth:
  assumes "base_ok b" "i < radix b"
  shows "digit_index b (digit_chars b ! i) = i"
proof -
  note f = base_facts [OF assms(1)]
  have "takeWhile (\<lambda>d. d \<noteq> digit_chars b ! i) (digit_chars b) = take i (digit_chars b)"
    using assms(2) f(3,4) by (intro takeWhile_eq_take_P_nth) (auto simp: nth_eq_iff_index_eq)
  then show ?thesis using assms(2) f(3) by (simp add: digit_index_def)
qed

lemma digit_loop_ok:
  assumes b: "base_ok b" and v: "unat v < radix b ^ n" and l: "length buf + 2 * n \<le> 64"
  shows "\<exists>ds. digit_loop f b v k buf = Some (buf @ ds) \<and> lsd_value b ds = unat v \<and> length ds \<le> 2 * n \<and>
    set ds \<subseteq> insert 44 (set (digit_chars b)) \<and> (f AND GROUP = 0 \<longrightarrow> 44 \<notin> set ds) \<and> (v \<noteq> 0 \<longrightarrow> ds \<noteq> [] \<and> last ds \<noteq> 48)"
  using v l
proof (induction n arbitrary: v k buf)
  case 0
  then have "v = 0" by (simp add: unat_eq_0)
  then show ?case by (subst digit_loop.simps) simp
next
  case (Suc n)
  note bf = base_facts [OF b]
  show ?case
  proof (cases "v = 0")
    case True
    then show ?thesis by (subst digit_loop.simps) simp
  next
    case False
    let ?c = "f AND GROUP \<noteq> 0 \<and> k > 0 \<and> k mod group b = 0"
    let ?d = "digit_chars b ! (unat v mod radix b)"
    define pre where "pre = (if ?c then [44] else []) @ [?d]"
    let ?v = "of_nat (unat v div radix b) :: u64"
    have uv: "unat ?v = unat v div radix b"
    proof -
      have "unat v div radix b \<le> unat v" by simp
      also have "\<dots> < 2 ^ LENGTH(64)" by (rule unsigned_less)
      finally show ?thesis by (simp add: unat_of_nat)
    qed
    have lt: "unat ?v < radix b ^ n" using Suc.prems(1) bf(1) unfolding uv by (simp add: less_mult_imp_div_less mult.commute)
    have lp: "length (buf @ pre) + 2 * n \<le> 64" using Suc.prems(2) by (simp add: pre_def)
    obtain ds where ds: "digit_loop f b ?v (k + 1) (buf @ pre) = Some ((buf @ pre) @ ds)" "lsd_value b ds = unat ?v" "length ds \<le> 2 * n"
      "set ds \<subseteq> insert 44 (set (digit_chars b))" "f AND GROUP = 0 \<longrightarrow> 44 \<notin> set ds" "?v \<noteq> 0 \<longrightarrow> ds \<noteq> [] \<and> last ds \<noteq> 48"
      using Suc.IH [OF lt lp, of "k + 1"] by blast
    have rm: "unat v mod radix b < radix b" using bf(1) by simp
    have dm: "?d \<in> set (digit_chars b)" using rm bf(3) by simp
    have d44: "?d \<noteq> 44" using dm bf(5) by metis
    have "digit_loop f b v k buf = Some (buf @ pre @ ds)"
    proof (cases ?c)
      case True
      then show ?thesis using ds(1) Suc.prems(2) False by (subst digit_loop.simps) (simp add: word_gt_0 buf_put_def pre_def)
    next
      case c: False
      have "pre = [?d]" using c by (auto simp: pre_def)
      then show ?thesis using ds(1) Suc.prems(2) False c
        by (subst digit_loop.simps) (simp only: word_gt_0 buf_put_def if_False if_True, simp)
    qed
    moreover have "lsd_value b (pre @ ds) = unat v"
      using d44 digit_index_nth [OF b rm] ds(2) uv by (simp add: pre_def)
    moreover have "last (pre @ ds) \<noteq> 48"
    proof (cases "?v = 0")
      case True
      then have "unat v div radix b = 0" using uv by simp
      then have "unat v mod radix b = unat v" "unat v < radix b" using bf(1) by (auto simp: div_eq_0_iff)
      moreover have "unat v \<noteq> 0" using False by (simp add: unat_eq_0)
      ultimately have "?d \<noteq> digit_chars b ! 0" using bf(3,4) by (simp add: nth_eq_iff_index_eq)
      moreover have "ds = []"
      proof -
        have "lsd_value b ds = 0" using ds(2) True by simp
        then show ?thesis using ds(1) True by (subst (asm) digit_loop.simps) simp
      qed
      ultimately show ?thesis using bf(6) by (simp add: pre_def)
    next
      case False
      then show ?thesis using ds(6) by simp
    qed
    moreover have "44 \<notin> set (pre @ ds)" if "f AND GROUP = 0" using that ds(5) d44 by (simp add: pre_def)
    ultimately show ?thesis using ds(3,4) dm False by (intro exI [of _ "pre @ ds"]) (auto simp: pre_def)
  qed
qed


lemma zero_loop_ok:
  "\<exists>z. zero_loop p buf = buf @ replicate z 48 \<and> length (zero_loop p buf) \<le> max 63 (length buf) \<and>
    min p 63 \<le> int (length (zero_loop p buf))"
proof (induction p buf rule: zero_loop.induct)
  case (1 p buf)
  show ?case
  proof (cases "int (length buf) < p \<and> length buf < 63")
    case True
    then obtain z where "zero_loop p (buf @ [48]) = (buf @ [48]) @ replicate z 48" "length (zero_loop p (buf @ [48])) \<le> max 63 (length (buf @ [48]))"
      "min p 63 \<le> int (length (zero_loop p (buf @ [48])))"
      using "1.IH" by blast
    then show ?thesis using True by (subst (1 2 3) zero_loop.simps) (intro exI [of _ "Suc z"], auto)
  next
    case False
    then show ?thesis by (subst (1 2 3) zero_loop.simps) (intro exI [of _ 0], auto)
  qed
qed

lemma lsd_value_zeros: "base_ok b \<Longrightarrow> lsd_value b (ds @ replicate z 48) = lsd_value b ds"
proof (induction ds)
  case Nil
  then show ?case using base_facts(7) [of b] by (induction z) simp_all
qed simp

lemma output_dup_replicate: "output_dup ch n = replicate n ch"
  by (induction n) simp_all

lemma num_value_zeros: "base_ok b \<Longrightarrow> num_value b 0 (replicate z 48 @ cs) = num_value b 0 cs"
  using base_facts(7) [of b] by (induction z) simp_all

definition sign_text :: "bool \<Rightarrow> bool \<Rightarrow> u32 \<Rightarrow> u8 list" where
  "sign_text is_signed negative f =
    (if \<not> is_signed then [] else if negative then [45]
     else if f AND PLUS \<noteq> 0 then [43] else if f AND SPACE \<noteq> 0 then [32] else [])"

lemma format_integer_ok:
  assumes b: "base_ok b"
  shows "\<exists>left pfx zs ds right. format_integer v is_signed negative b c =
      Some (left @ sign_text is_signed negative (flags c) @ pfx @ replicate zs 48 @ rev ds @ right) \<and>
    set left \<subseteq> {32} \<and> set right \<subseteq> {32} \<and> (pfx = [] \<or> pfx = [48, x_char b] \<and> v \<noteq> 0 \<and> flags c AND POUND \<noteq> 0) \<and>
    lsd_value b ds = unat v \<and> set ds \<subseteq> insert 44 (set (digit_chars b)) \<and> (flags c AND GROUP = 0 \<longrightarrow> 44 \<notin> set ds) \<and>
    length ds \<le> 64 \<and> min (precision c) 63 \<le> int (length ds) \<and> (precision c \<noteq> 0 \<longrightarrow> ds \<noteq> []) \<and>
    width c \<le> int (length (left @ sign_text is_signed negative (flags c) @ pfx @ replicate zs 48 @ rev ds @ right)) \<and>
    (width c = 0 \<longrightarrow> left = [] \<and> right = [] \<and> zs = 0)"
proof -
  note bf = base_facts [OF b]
  have "unat v < 2 ^ LENGTH(64)" by (rule unsigned_less)
  also have "\<dots> < 8 ^ 22" by simp
  also have "\<dots> \<le> radix b ^ 22" using bf(1) by (intro power_mono) simp_all
  finally obtain ds where ds: "digit_loop (flags c) b v 0 [] = Some ds" "lsd_value b ds = unat v" "length ds \<le> 44"
    "set ds \<subseteq> insert 44 (set (digit_chars b))" "flags c AND GROUP = 0 \<longrightarrow> 44 \<notin> set ds"
    using digit_loop_ok [OF b, of v 22 "[]" "flags c" 0] by auto
  define p where "p = (if precision c < 0 then 1 else precision c)"
  obtain z where z: "zero_loop p ds = ds @ replicate z 48" "length (zero_loop p ds) \<le> max 63 (length ds)"
    "min p 63 \<le> int (length (zero_loop p ds))" using zero_loop_ok by blast
  define o8 where "o8 \<longleftrightarrow> flags c AND POUND \<noteq> 0 \<and> radix b = 8 \<and> (zero_loop p ds = [] \<or> last (zero_loop p ds) \<noteq> 48)"
  define ds' where "ds' = ds @ replicate (z + (if o8 then 1 else 0)) 48"
  have put: "(if o8 then buf_put (zero_loop p ds) 48 else Some (zero_loop p ds)) = Some ds'"
    using z ds(3) by (simp add: buf_put_def ds'_def replicate_append_same)
  have len: "length ds' \<le> 64" using z(1,2) ds(3) by (auto simp: ds'_def)
  have c48: "48 \<in> set (digit_chars b)" using bf(1,3,6) by (metis nth_mem less_le_trans zero_less_numeral)
  have ds': "lsd_value b ds' = unat v" "set ds' \<subseteq> insert 44 (set (digit_chars b))" "flags c AND GROUP = 0 \<longrightarrow> 44 \<notin> set ds'"
    "min (precision c) 63 \<le> int (length ds')" "precision c \<noteq> 0 \<longrightarrow> ds' \<noteq> []"
    using lsd_value_zeros [OF b] ds c48 z by (auto simp: ds'_def p_def split: if_splits)
  define sg where "sg = sign_text is_signed negative (flags c)"
  define x where "x = (if flags c AND POUND \<noteq> 0 \<and> v \<noteq> 0 then x_char b else 0)"
  define pfx where "pfx = (if x \<noteq> 0 then [48, x] else [])"
  define pad where "pad = nat (width c - int (length ds') - int (length pfx) - int (length sg))"
  define left where "left = (if flags c AND (MINUS OR ZERO) = 0 then replicate pad 32 else [] :: u8 list)"
  define right where "right = (if flags c AND MINUS \<noteq> 0 then replicate pad 32 else [] :: u8 list)"
  define zs where "zs = (if flags c AND ZERO \<noteq> 0 then pad else 0)"
  define sc where "sc = (case sg of [] \<Rightarrow> 0 | s # _ \<Rightarrow> s)"
  have sgn: "(if is_signed then if flags c AND PLUS \<noteq> 0 then if negative then 45 else 43
       else if flags c AND SPACE \<noteq> 0 then if negative then 45 else 32 else if negative then 45 else 0 else 0) = sc"
    "(if sc \<noteq> 0 then [sc] else []) = sg" "(if sc \<noteq> 0 then 1 else 0) = int (length sg)"
    by (simp_all add: sc_def sg_def sign_text_def)
  have pf: "(if x \<noteq> 0 then 2 else 0) = int (length pfx)" by (simp add: pfx_def)
  have nt: "nat (if n < 0 then 0 else n) = nat n" for n :: int by simp
  have eq: "format_integer v is_signed negative b c = Some (left @ sg @ pfx @ replicate zs 48 @ rev ds' @ right)"
    unfolding format_integer_def Let_def sgn(1) x_def [symmetric] ds(1) p_def [symmetric] bind.bind_lunit o8_def [symmetric] put
      sgn(2,3) pf nt output_dup_replicate pad_def [symmetric] left_def [symmetric] right_def [symmetric] pfx_def [symmetric]
    by (simp add: zs_def)
  have "flags c AND (MINUS OR ZERO) = 0 \<longleftrightarrow> flags c AND MINUS = 0 \<and> flags c AND ZERO = 0"
    by (simp add: word_ao_dist2 or_eq_0_iff)
  then have w: "width c \<le> int (length (left @ sg @ pfx @ replicate zs 48 @ rev ds' @ right))"
    by (auto simp: left_def right_def zs_def pad_def)
  have w0: "width c = 0 \<longrightarrow> left = [] \<and> right = [] \<and> zs = 0" by (auto simp: left_def right_def zs_def pad_def)
  have "pfx = [] \<or> pfx = [48, x_char b] \<and> v \<noteq> 0 \<and> flags c AND POUND \<noteq> 0" by (simp add: pfx_def x_def)
  moreover have "set left \<subseteq> {32}" "set right \<subseteq> {32}" by (auto simp: left_def right_def)
  ultimately show ?thesis
    using eq w w0 ds' len unfolding sg_def
    by (intro exI [of _ left] exI [of _ pfx] exI [of _ zs] exI [of _ ds'] exI [of _ right] conjI)
qed


subsection \<open>The buffer of snprintf\<close>

lemma vsnprintf_out_ok:
  assumes "mapped m p (nat (mx - k))" and "0 \<le> k" and "k + int (length out) < 2 ^ 31"
  shows "vsnprintf_out out (\<lparr>aux_p = p, aux_length = k, max_length = mx\<rparr>, m) =
    Some (\<lparr>aux_p = p + of_nat (min (length out) (nat (mx - k))), aux_length = k + int (length out), max_length = mx\<rparr>,
      put m p (take (nat (mx - k)) out))"
  using assms
proof (induction out arbitrary: p k m)
  case Nil
  then show ?case by simp
next
  case (Cons ch out)
  have f: "int_fits (k + 1)" using Cons.prems(2,3) by (simp add: int_fits_def)
  show ?case
  proof (cases "k < mx")
    case True
    then obtain j where j: "nat (mx - k) = Suc j" "nat (mx - (k + 1)) = j" by (cases "nat (mx - k)") auto
    have mp: "m p \<noteq> None" "mapped (m(p \<mapsto> ch)) (p + 1) j" using Cons.prems(1) j(1) by (simp_all add: mapped_Suc mapped_upd)
    have "vsnprintf_out out (\<lparr>aux_p = p + 1, aux_length = k + 1, max_length = mx\<rparr>, m(p \<mapsto> ch)) =
      Some (\<lparr>aux_p = p + 1 + of_nat (min (length out) (nat (mx - (k + 1)))), aux_length = k + 1 + int (length out), max_length = mx\<rparr>,
        put (m(p \<mapsto> ch)) (p + 1) (take (nat (mx - (k + 1))) out))"
    proof (rule Cons.IH)
      show "mapped (m(p \<mapsto> ch)) (p + 1) (nat (mx - (k + 1)))" unfolding j(2) by (rule mp(2))
    qed (use Cons.prems in simp_all)
    moreover have "length (take j out) < 2 ^ 32" using Cons.prems(2,3) by simp
    ultimately show ?thesis using True f mp(1) j by (simp add: vsnprintf_helper_def store8_def put_Cons)
  next
    case False
    then have "vsnprintf_out out (\<lparr>aux_p = p, aux_length = k + 1, max_length = mx\<rparr>, m) =
      Some (\<lparr>aux_p = p + of_nat (min (length out) (nat (mx - (k + 1)))), aux_length = k + 1 + int (length out), max_length = mx\<rparr>,
        put m p (take (nat (mx - (k + 1))) out))"
      by (intro Cons.IH) (use Cons.prems in simp_all)
    then show ?thesis using False f by (simp add: vsnprintf_helper_def)
  qed
qed

lemma vsnprintf_ok:
  assumes "vprintf m format args = Some out" "length out < 2 ^ 31" and sz: "n < 2 ^ 31" "mapped m buffer (Suc n)"
  shows "vsnprintf m buffer (of_nat (Suc n)) format args = Some (int (length out), put m buffer (take n out @ [0]))"
proof -
  have sn: "sint (of_nat (Suc n) - 1 :: size_t) = int n" using sz(1) by (simp add: signed_of_nat signed_take_bit_int_eq_self)
  have "unat (of_nat (Suc n) :: size_t) = Suc n" using sz(1) by (intro unat_of_nat_u32) simp
  then have pos: "0 < (of_nat (Suc n) :: size_t)" by (metis unat_gt_0 word_gt_0 zero_less_Suc)
  let ?j = "min (length out) n"
  have o: "vsnprintf_out out (\<lparr>aux_p = buffer, aux_length = 0, max_length = int n\<rparr>, m) =
    Some (\<lparr>aux_p = buffer + of_nat ?j, aux_length = int (length out), max_length = int n\<rparr>, put m buffer (take n out))"
    using vsnprintf_out_ok [of m buffer "int n" 0 out] assms(2) mapped_mono [OF sz(2), of n] by simp
  have len: "length (take n out) = ?j" "?j < 2 ^ 32" using assms(2) by auto
  have "m (buffer + of_nat ?j) \<noteq> None" using sz(2) by (simp add: mapped_def)
  then have "put m buffer (take n out) (buffer + of_nat ?j) \<noteq> None" by (simp add: put_def)
  moreover have "(put m buffer (take n out))(buffer + of_nat ?j \<mapsto> 0) = put m buffer (take n out @ [0])"
    using put_snoc [of "take n out" m buffer 0] len by simp
  ultimately show ?thesis using assms(1) o pos sn by (simp add: vsnprintf_def store8_def del: of_nat_Suc)
qed

lemma vsnprintf_0:
  assumes "vprintf m format args = Some out" "length out < 2 ^ 31"
  shows "vsnprintf m buffer 0 format args = Some (int (length out), m)"
  using vsnprintf_out_ok [of m buffer 0 0 out] assms by (simp add: vsnprintf_def put_def)

subsection \<open>Decimal numbers\<close>

lemma num_value_decimal:
  "list_all digit ds \<Longrightarrow> int (num_value base_d acc ds) = decimal (int acc) ds"
proof (induction ds arbitrary: acc)
  case (Cons d ds)
  have d: "48 \<le> d" "d \<le> 57" using Cons.prems by (simp_all add: digit_def)
  then have "d \<in> {48, 49, 50, 51, 52, 53, 54, 55, 56, 57}"
  proof -
    have "unat d \<in> {48, 49, 50, 51, 52, 53, 54, 55, 56, 57}" using d by (simp add: word_le_nat_alt) arith
    then show ?thesis by (auto simp: word_unat_eq_iff)
  qed
  then have "digit_index base_d d = unat d - 48" "d \<noteq> 44" by (auto simp: digit_index_def base_d_def)
  moreover have "radix base_d = 10" by (simp add: base_d_def)
  ultimately have 1: "num_value base_d acc (d # ds) = num_value base_d (acc * 10 + (unat d - 48)) ds" by simp
  have 2: "int (acc * 10 + (unat d - 48)) = int acc * 10 + (uint d - 48)"
    using d(1) by (simp add: word_le_nat_alt of_nat_diff)
  have "int (num_value base_d (acc * 10 + (unat d - 48)) ds) = decimal (int (acc * 10 + (unat d - 48))) ds"
    using Cons.prems by (intro Cons.IH) simp
  then show ?case unfolding 1 2 by simp
qed simp

lemma format_decimal:
  assumes "flags c = 0" "width c = 0" "precision c = - 1"
  shows "\<exists>ds. format_integer v True ng base_d c = Some ((if ng then [45] else []) @ ds) \<and> list_all digit ds \<and> ds \<noteq> [] \<and>
    decimal 0 ds = int (unat v) \<and> length ds \<le> 64"
proof -
  have b: "base_ok base_d" by (simp add: base_ok_def)
  obtain left pfx zs ds right where f: "format_integer v True ng base_d c =
      Some (left @ sign_text True ng (flags c) @ pfx @ replicate zs 48 @ rev ds @ right)"
    "pfx = [] \<or> pfx = [48, x_char base_d] \<and> v \<noteq> 0 \<and> flags c AND POUND \<noteq> 0" "lsd_value base_d ds = unat v"
    "set ds \<subseteq> insert 44 (set (digit_chars base_d))" "flags c AND GROUP = 0 \<longrightarrow> 44 \<notin> set ds" "length ds \<le> 64"
    "precision c \<noteq> 0 \<longrightarrow> ds \<noteq> []" "width c = 0 \<longrightarrow> left = [] \<and> right = [] \<and> zs = 0"
    using format_integer_ok [OF b, of v True ng c] by (elim exE conjE)
  have eq: "format_integer v True ng base_d c = Some ((if ng then [45] else []) @ rev ds)"
    using f(1,2,8) assms by (simp add: sign_text_def)
  have "set ds \<subseteq> set (digit_chars base_d)" using f(4,5) assms by auto
  then have dg: "list_all digit (rev ds)" unfolding base_d_def by (auto simp: list_all_iff digit_def)
  then have "decimal 0 (rev ds) = int (unat v)" using num_value_decimal [OF dg, of 0] f(3) by (simp add: num_value_rev)
  then show ?thesis using eq dg f(6,7) assms by auto
qed

lemma unat_abs_sint: "int (unat (of_int (if sint a < 0 then - sint a else sint a) :: u64)) = \<bar>sint a\<bar>" for a :: u32
proof -
  have "- (2 ^ 31) \<le> sint a" "sint a < 2 ^ 31" using sint_ge [of a] sint_lt [of a] by simp_all
  then have "0 \<le> \<bar>sint a\<bar>" "\<bar>sint a\<bar> < 2 ^ 64" by simp_all
  then have "uint (of_int \<bar>sint a\<bar> :: u64) = \<bar>sint a\<bar>" by (simp add: unsigned_of_int take_bit_int_eq_self)
  then show ?thesis by (simp add: abs_if)
qed

lemma vprintf_d:
  "\<exists>ds. vprintf m [37, 100] [a] = Some ((if sint a < 0 then [45] else []) @ ds) \<and> list_all digit ds \<and> ds \<noteq> [] \<and>
    decimal 0 ds = \<bar>sint a\<bar> \<and> length ds \<le> 64"
proof -
  let ?c = "\<lparr>flags = 0, width = 0, precision = - 1, conv_type = INT_T\<rparr>"
  have p: "parse_conversion [100] [a] = Some (?c, [100], [a])"
    by (simp add: parse_conversion_def parse_width_def parse_precision_def parse_type_def cur_def isdigit_def char_int_def)
  obtain ds where ds: "format_integer (of_int (if sint a < 0 then - sint a else sint a)) True (sint a < 0) base_d ?c =
      Some ((if sint a < 0 then [45] else []) @ ds)" "list_all digit ds" "ds \<noteq> []" "length ds \<le> 64"
    "decimal 0 ds = int (unat (of_int (if sint a < 0 then - sint a else sint a) :: u64))"
    using format_decimal [of ?c] by auto
  have "convert m ?c 100 [a] = Some ((if sint a < 0 then [45] else []) @ ds, [])"
    using ds(1) by (simp add: convert_def signed_arg_def va_word_def)
  then have "vprintf m [37, 100] [a] = Some ((if sint a < 0 then [45] else []) @ ds)"
    using p by (simp add: cur_def adv_def)
  then show ?thesis using ds(2-5) unfolding unat_abs_sint by blast
qed

subsection \<open>Dumps\<close>

lemma vprintf_hh: "\<exists>t. vprintf m [37, 48, 50, 104, 104, 120, 37, 99] [a, b] = Some t"
proof -
  let ?c = "\<lparr>flags = ZERO, width = 2, precision = - 1, conv_type = CHAR_T\<rparr>"
  let ?d = "\<lparr>flags = 0, width = 0, precision = - 1, conv_type = INT_T\<rparr>"
  have p: "parse_conversion [48, 50, 104, 104, 120, 37, 99] [a, b] = Some (?c, [120, 37, 99], [a, b])"
    "parse_conversion [99] [b] = Some (?d, [99], [b])"
    by (simp_all add: parse_conversion_def parse_width_def parse_precision_def parse_type_def cur_def isdigit_def char_int_def
        int_fits_def MINUS_def PLUS_def ZERO_def)
  obtain t where "format_integer (ucast (ucast a :: u8)) False False base_x ?c = Some t"
    using format_integer_ok [of base_x] by (fastforce simp: base_ok_def)
  then have "convert m ?c 120 [a, b] = Some (t, [b])" by (simp add: convert_def unsigned_arg_def va_word_def)
  moreover have "convert m ?d 99 [b] = Some ([ucast b], [])" by (simp add: convert_def va_word_def format_string_def)
  ultimately show ?thesis using p by (simp add: cur_def adv_def)
qed

lemma vprintf_c: "vprintf m [37, 99] [b] = Some [ucast b]"
proof -
  let ?d = "\<lparr>flags = 0, width = 0, precision = - 1, conv_type = INT_T\<rparr>"
  have "parse_conversion [99] [b] = Some (?d, [99], [b])"
    by (simp_all add: parse_conversion_def parse_width_def parse_precision_def parse_type_def cur_def isdigit_def char_int_def)
  then show ?thesis by (simp add: cur_def adv_def convert_def va_word_def format_string_def)
qed

lemma vprintf_j: "\<exists>t. vprintf m [37, 48, 56, 106, 120, 32, 32] [a, b] = Some t"
proof -
  let ?c = "\<lparr>flags = ZERO, width = 8, precision = - 1, conv_type = INTMAX\<rparr>"
  have p: "parse_conversion [48, 56, 106, 120, 32, 32] [a, b] = Some (?c, [120, 32, 32], [a, b])"
    by (simp_all add: parse_conversion_def parse_width_def parse_precision_def parse_type_def cur_def isdigit_def char_int_def
        int_fits_def MINUS_def PLUS_def ZERO_def)
  obtain t where "format_integer (ucast a OR push_bit 32 (ucast b)) False False base_x ?c = Some t"
    using format_integer_ok [of base_x] by (fastforce simp: base_ok_def)
  then have "convert m ?c 120 [a, b] = Some (t, [])" by (simp add: convert_def unsigned_arg_def va_long_def)
  then show ?thesis using p by (simp add: cur_def adv_def)
qed

lemma unsupported_texts:
  "vprintf m [60, 60, 110, 111, 32, 37, 37, 37, 99, 32, 105, 110, 32, 107, 101, 114, 110, 101, 108, 62, 62] [ucast ch] =
    Some (no_in_kernel ch)"
  "vprintf m [60, 60, 110, 111, 32, 37, 37, 37, 99, 32, 99, 111, 110, 118, 101, 114, 115, 105, 111, 110, 62, 62] [ucast ch] =
    Some (no_conversion ch)"
proof -
  have "ucast (ucast ch :: u32) = ch" by (rule bit_word_eqI) (auto simp: bit_simps dest: bit_imp_le_length)
  moreover have "parse_conversion (99 # 32 # r) [ucast ch] =
      Some (\<lparr>flags = 0, width = 0, precision = - 1, conv_type = INT_T\<rparr>, 99 # 32 # r, [ucast ch])" for r
    by (simp add: parse_conversion_def parse_width_def parse_precision_def parse_type_def cur_def isdigit_def char_int_def)
  ultimately show
    "vprintf m [60, 60, 110, 111, 32, 37, 37, 37, 99, 32, 105, 110, 32, 107, 101, 114, 110, 101, 108, 62, 62] [ucast ch] =
      Some (no_in_kernel ch)"
    "vprintf m [60, 60, 110, 111, 32, 37, 37, 37, 99, 32, 99, 111, 110, 118, 101, 114, 115, 105, 111, 110, 62, 62] [ucast ch] =
      Some (no_conversion ch)"
    by (simp_all add: cur_def adv_def convert_def va_word_def format_string_def no_in_kernel_def no_conversion_def)
qed

declare vprintf.simps [simp del]

lemma dump_hex_ok: "mapped m p n \<Longrightarrow> \<exists>t. dump_hex m p i n = Some t"
proof (induction n arbitrary: p i)
  case (Suc n)
  then obtain b t where "m p = Some b" "dump_hex m (p + 1) (i + 1) n = Some t" by (fastforce simp: mapped_Suc)
  then show ?case using vprintf_hh [of m "ucast b" "if i = 7 then 45 else 32"] by auto
qed simp

lemma ucast_u8_u32 [simp]: "ucast (ucast b :: u32) = b" for b :: u8
  by (rule bit_word_eqI) (auto simp: bit_simps dest: bit_imp_le_length)

lemma dump_ascii_ok:
  "bytes_at m p bs \<Longrightarrow> dump_ascii m p (length bs) = Some (map (\<lambda>b. if isprint (uint b) then b else 46) bs)"
  by (induction bs arbitrary: p) (auto simp: vprintf_c)

lemma hex_dump_line_ok:
  assumes "mapped m p (stop - start)" shows "\<exists>t. hex_dump_line m ofs p start stop ascii = Some t"
proof -
  obtain bs where bs: "length bs = stop - start" "bytes_at m p bs" using assms by (rule mapped_bytes)
  have "\<exists>t. dump_ascii m p (stop - start) = Some t" using dump_ascii_ok [OF bs(2)] unfolding bs(1) by simp
  then show ?thesis
    using vprintf_j [of m "ofs div 16 * 16" 0] dump_hex_ok [OF assms, of start] by (auto simp: hex_dump_line_def)
qed

lemma mapped_add: "mapped m p (k + n) \<Longrightarrow> mapped m (p + of_nat k) n"
  unfolding mapped_def by (metis add.assoc nat_add_left_cancel_less of_nat_add)

lemma hex_dump_step:
  fixes ofs sz :: u32
  assumes "0 < sz"
  defines "start \<equiv> ofs mod 16" defines "stop \<equiv> (if 16 - start > sz then start + sz else 16)"
  shows "unat stop - unat start = unat (stop - start)" "0 < unat (stop - start)" "unat (stop - start) \<le> unat sz"
proof -
  have st: "unat start < 16" unfolding start_def by (simp add: unat_mod)
  have d: "unat (16 - start) = 16 - unat start" using st by (subst unat_sub_u32) (simp_all add: word_le_nat_alt)
  have sz: "0 < unat sz" using assms(1) by (simp add: unat_gt_0 word_neq_0_conv [symmetric])
  have "unat start \<le> unat stop \<and> 0 < unat stop - unat start \<and> unat stop - unat start \<le> unat sz"
  proof (cases "16 - start > sz")
    case True
    then have "unat sz < 16 - unat start" using d by (simp add: word_less_nat_alt)
    moreover then have "unat (start + sz) = unat start + unat sz" by (subst unat_add_u32) simp_all
    ultimately show ?thesis using True sz by (simp add: stop_def)
  next
    case False
    then have "16 - unat start \<le> unat sz" using d by (simp add: word_less_nat_alt)
    then show ?thesis using False st by (simp add: stop_def)
  qed
  then show "unat stop - unat start = unat (stop - start)" "0 < unat (stop - start)" "unat (stop - start) \<le> unat sz"
    by (auto simp: unat_sub_u32 word_le_nat_alt)
qed

lemma hex_dump_ok: "mapped m buf (unat sz) \<Longrightarrow> \<exists>t. hex_dump m ofs buf sz ascii = Some t"
proof (induction "unat sz" arbitrary: ofs buf sz rule: less_induct)
  case less
  show ?case
  proof (cases "0 < sz")
    case True
    define start where "start = ofs mod 16"
    define stop where "stop = (if 16 - start > sz then start + sz else 16)"
    note st = hex_dump_step [OF True, of ofs, folded start_def, folded stop_def]
    have u: "unat (sz - (stop - start)) = unat sz - unat (stop - start)"
      using st(3) by (simp add: unat_sub_u32 word_le_nat_alt)
    have mp: "mapped m buf (unat stop - unat start)" using less.prems st by (auto intro: mapped_mono)
    have "mapped m (buf + of_nat (unat (stop - start))) (unat (sz - (stop - start)))"
      using less.prems st(3) u by (intro mapped_add) simp
    then obtain t where t: "hex_dump m (ofs + (stop - start)) (buf + (stop - start)) (sz - (stop - start)) ascii = Some t"
      using less.hyps [of "sz - (stop - start)" "buf + (stop - start)"] u st(2,3) by auto
    show ?thesis
      using hex_dump_line_ok [OF mp, of ofs ascii] t True
      by (subst hex_dump.simps) (auto simp: Let_def start_def [symmetric] stop_def [symmetric])
  qed (simp add: hex_dump.simps)
qed

subsection \<open>Properties\<close>





text \<open>C22. Printing and reading decimal numbers is the identity: \<^verbatim>\<open>snprintf\<close> with the format \<^verbatim>\<open>%d\<close> into a buffer that is
  large enough, then \<^verbatim>\<open>atoi\<close> on the buffer, gives back every \<^verbatim>\<open>int\<close>, the smallest one included.\<close>
theorem snprintf_atoi:
  assumes "66 \<le> n" "n < 2 ^ 31" "mapped m buffer (Suc n)" "buffer \<noteq> 0"
  shows "\<exists>k m'. snprintf m buffer (of_nat (Suc n)) [37, 100] [a] = Some (k, m') \<and> atoi m' buffer = Some a"
proof -
  let ?sg = "if sint a < 0 then [45] else [] :: u8 list"
  obtain ds where ds: "vprintf m [37, 100] [a] = Some (?sg @ ds)" "list_all digit ds" "ds \<noteq> []"
    "decimal 0 ds = \<bar>sint a\<bar>" "length ds \<le> 64"
    using vprintf_d [of m a] by (elim exE conjE)
  have len: "length (?sg @ ds) \<le> 65" using ds(5) by simp
  have s: "snprintf m buffer (of_nat (Suc n)) [37, 100] [a] =
      Some (int (length (?sg @ ds)), put m buffer (take n (?sg @ ds) @ [0]))"
    unfolding snprintf_def by (rule vsnprintf_ok [OF ds(1) _ assms(2,3)]) (use len in simp)
  have "take n (?sg @ ds) @ [0] = [] @ ?sg @ ds @ [0]" using len assms(1) by simp
  moreover have "bytes_at (put m buffer ([] @ ?sg @ ds @ [0])) buffer ([] @ ?sg @ ds @ [0])"
    using len by (intro bytes_at_put) simp
  ultimately have "atoi (put m buffer (take n (?sg @ ds) @ [0])) buffer =
      Some (of_int (if ?sg = [45] then - decimal 0 ds else decimal 0 ds))"
    using atoi_ok [of _ buffer "[]" ?sg ds 0] assms(4) ds(2,3) by (auto simp: digit_def)
  also have "(if ?sg = [45] then - decimal 0 ds else decimal 0 ds) = sint a" using ds(4) by simp
  finally show ?thesis using s by simp
qed

theorem snprintf_atoi_witness:
  "\<exists>k m'. snprintf (\<lambda>_. Some 9) 4096 67 [37, 100] [0x80000000] = Some (k, m') \<and> atoi m' 4096 = Some 0x80000000"
  using snprintf_atoi [of 66 "\<lambda>_. Some 9" 4096 "0x80000000"] by (simp add: mapped_def)

text \<open>C31. \<^verbatim>\<open>hex_dump\<close> finishes on every memory range it may read, whatever the offset and the size, also where the
  offset wraps around.\<close>
theorem hex_dump_terminates:
  assumes "mapped m buf (unat sz)"
  shows "\<exists>t. hex_dump m ofs buf sz ascii = Some t"
  using assms by (rule hex_dump_ok)

theorem hex_dump_terminates_witness: "\<exists>t. hex_dump (\<lambda>_. Some 9) 0xfffffffe 4096 40 True = Some t"
  using hex_dump_terminates [of "\<lambda>_. Some 9" 4096 40 "0xfffffffe" True] by (simp add: mapped_def)

end
