(* ===== verification/Buf_Cache.thy ===== *)
theory Buf_Cache
  imports Bitmap "HOL-Library.Signed_Division"
begin

section \<open>The disk and the buffer cache\<close>

text \<open>
  The state of the file system: the disk, the in-memory inodes, the cache of disk sectors and the free map. An
  object in memory is found by its address, and an access to an address that holds no such object is \<^term>\<open>None\<close>.
  The addresses that \<^verbatim>\<open>malloc\<close> returns are an input of the model, the list \<open>mallocs\<close>; the null pointer, or the end of the list,
  is a failed allocation. A file operation runs without an interruption by another one: the locks
  of the cache and of its entries are then always free, and taking and releasing them changes nothing.
  A byte buffer passed to an operation is the list of its bytes.

  The disk is what the driver makes of the hardware, a store of sectors of 512 bytes; the exchange of commands and
  data with the controller is not part of the model.
\<close>

subsection \<open>State\<close>

definition DISK_SECTOR_SIZE :: int where "DISK_SECTOR_SIZE = 512"

record disk =
  capacity :: u32
  read_cnt :: u64
  write_cnt :: u64
  sectors :: "u32 \<Rightarrow> u8 list"

record inode_disk =
  id_start :: u32
  id_length :: int
  id_magic :: u32

record inode =
  nd_sector :: u32
  open_cnt :: int
  removed :: bool
  deny_write_cnt :: int
  nd_data :: inode_disk

record bfc_entry =
  bfc_inode :: ptr
  bfc_offset :: int
  bfc_data :: "u8 list"
  num_of_accessor :: u32
  bfc_dirty :: bool
  bfc_accessed :: bool
  bfc_evictable :: bool

record file_t =
  f_inode :: ptr
  f_pos :: int
  f_deny_write :: bool

record dir =
  d_inode :: ptr
  d_pos :: int

record fs =
  filesys_disk :: disk
  inodes :: "ptr \<Rightarrow> inode option"
  open_inodes :: "ptr list"
  buffer_cache :: "ptr list"
  bfces :: "ptr \<Rightarrow> bfc_entry option"
  entries :: u32
  cur_victim :: ptr
  bfc_tick :: u64
  free_map :: bitmap
  free_map_file :: ptr
  files :: "ptr \<Rightarrow> file_t option"
  dirs :: "ptr \<Rightarrow> dir option"
  mallocs :: "ptr list"

text \<open>The result of a function that may end the calling thread.\<close>

datatype 'a ret = Ret 'a | Exits

definition fs_malloc :: "fs \<Rightarrow> ptr \<times> fs" where
  "fs_malloc s = (case mallocs s of [] \<Rightarrow> (0, s) | p # ps \<Rightarrow> (p, s\<lparr>mallocs := ps\<rparr>))"

definition upd_bfce :: "fs \<Rightarrow> ptr \<Rightarrow> (bfc_entry \<Rightarrow> bfc_entry) \<Rightarrow> fs option" where
  "upd_bfce s e f = do { b \<leftarrow> bfces s e; Some (s\<lparr>bfces := (bfces s)(e \<mapsto> f b)\<rparr>) }"

subsection \<open>The disk\<close>

definition disk_size :: "disk \<Rightarrow> u32" where
  "disk_size d = capacity d"

definition select_sector :: "disk \<Rightarrow> u32 \<Rightarrow> unit option" where
  "select_sector d sec_no = do {
     kassert (sec_no < capacity d);
     kassert (sec_no < 2 ^ 28)
   }"

definition disk_read :: "fs \<Rightarrow> u32 \<Rightarrow> (u8 list \<times> fs) option" where
  "disk_read s sec_no = do {
     let d = filesys_disk s;
     select_sector d sec_no;
     Some (sectors d sec_no, s\<lparr>filesys_disk := d\<lparr>read_cnt := read_cnt d + 1\<rparr>\<rparr>)
   }"

definition disk_write :: "fs \<Rightarrow> u32 \<Rightarrow> u8 list \<Rightarrow> fs option" where
  "disk_write s sec_no buffer = do {
     let d = filesys_disk s;
     select_sector d sec_no;
     Some (s\<lparr>filesys_disk := d\<lparr>sectors := (sectors d)(sec_no := buffer), write_cnt := write_cnt d + 1\<rparr>\<rparr>)
   }"

subsection \<open>From file offsets to sectors\<close>

text \<open>For sizes near the end of the range the sum in \<^verbatim>\<open>DIV_ROUND_UP\<close> wraps around.\<close>

definition bytes_to_sectors :: "int \<Rightarrow> u32" where
  "bytes_to_sectors sz = of_int (sint (of_int (sz + DISK_SECTOR_SIZE - 1) :: u32) sdiv DISK_SECTOR_SIZE)"

definition byte_to_sector :: "fs \<Rightarrow> ptr \<Rightarrow> int \<Rightarrow> u32 option" where
  "byte_to_sector s i pos = do {
     kassert (i \<noteq> 0);
     nd \<leftarrow> inodes s i;
     Some (if pos < id_length (nd_data nd)
           then id_start (nd_data nd) + of_int (pos sdiv DISK_SECTOR_SIZE)
           else - 1)
   }"

definition inode_length :: "fs \<Rightarrow> ptr \<Rightarrow> int option" where
  "inode_length s i = map_option (\<lambda>nd. id_length (nd_data nd)) (inodes s i)"

subsection \<open>The buffer cache\<close>

definition BUF_CACHE_SIZE :: u32 where "BUF_CACHE_SIZE = 64"
definition BFC_TICK_FEQ :: u64 where "BFC_TICK_FEQ = 20"

definition init_buffer_cache :: "fs \<Rightarrow> fs" where
  "init_buffer_cache s = s\<lparr>buffer_cache := [], entries := 0, cur_victim := 0, bfc_tick := 0\<rparr>"

text \<open>The element after \<open>e\<close>, the first one after the last.\<close>

definition clock_next :: "ptr list \<Rightarrow> ptr \<Rightarrow> ptr option" where
  "clock_next xs e = (case dropWhile (\<lambda>x. x \<noteq> e) xs of
      [] \<Rightarrow> None
    | [_] \<Rightarrow> Some (hd xs)
    | _ # n # _ \<Rightarrow> Some n)"

partial_function (option) select_victim :: "fs \<Rightarrow> (ptr \<times> fs) option" where
  "select_victim s = do {
     cv \<leftarrow> (if cur_victim s = 0 then (case buffer_cache s of [] \<Rightarrow> None | e # _ \<Rightarrow> Some e) else Some (cur_victim s));
     let s = s\<lparr>cur_victim := cv\<rparr>;
     cur \<leftarrow> bfces s cv;
     let cond = (num_of_accessor cur = 0 \<and> bfc_evictable cur);
     if cond \<and> \<not> bfc_accessed cur then Some (cv, s)
     else do {
       let s = (if cond then s\<lparr>bfces := (bfces s)(cv \<mapsto> cur\<lparr>bfc_accessed := False\<rparr>)\<rparr> else s);
       n \<leftarrow> clock_next (buffer_cache s) cv;
       select_victim (s\<lparr>cur_victim := n\<rparr>)
     }
   }"

definition buffer_cache_write_behind :: "fs \<Rightarrow> ptr \<Rightarrow> fs option" where
  "buffer_cache_write_behind s e = do {
     b \<leftarrow> bfces s e;
     sector_idx \<leftarrow> byte_to_sector s (bfc_inode b) (bfc_offset b);
     s \<leftarrow> disk_write s sector_idx (bfc_data b);
     upd_bfce s e (\<lambda>b. b\<lparr>bfc_dirty := False, bfc_accessed := False\<rparr>)
   }"

text \<open>The second allocation, of the data, is not checked; \<^verbatim>\<open>disk_read\<close> then asserts that its buffer is not null.\<close>

definition buffer_cache_get_entry :: "fs \<Rightarrow> ptr \<Rightarrow> int \<Rightarrow> (ptr \<times> fs) option" where
  "buffer_cache_get_entry s i offset = do {
     sector_idx \<leftarrow> byte_to_sector s i offset;
     if sint sector_idx = - 1 then Some (0, s)
     else if entries s < BUF_CACHE_SIZE
     then do {
       let (e, s) = fs_malloc s;
       if e = 0 then Some (0, s)
       else do {
         let s = s\<lparr>entries := entries s + 1, buffer_cache := e # buffer_cache s\<rparr>;
         let (a, s) = fs_malloc s;
         kassert (a \<noteq> 0);
         (bs, s) \<leftarrow> disk_read s sector_idx;
         Some (e, s\<lparr>bfces := (bfces s)(e \<mapsto> \<lparr>bfc_inode = i, bfc_offset = offset, bfc_data = bs,
           num_of_accessor = 0, bfc_dirty = False, bfc_accessed = False, bfc_evictable = True\<rparr>)\<rparr>)
       }
     }
     else do {
       (e, s) \<leftarrow> select_victim s;
       b \<leftarrow> bfces s e;
       s \<leftarrow> (if bfc_dirty b then buffer_cache_write_behind s e else Some s);
       (bs, s) \<leftarrow> disk_read s sector_idx;
       s \<leftarrow> upd_bfce s e (\<lambda>b. b\<lparr>bfc_data := bs, bfc_inode := i, bfc_offset := offset, num_of_accessor := 0,
         bfc_dirty := False, bfc_accessed := False\<rparr>);
       Some (e, s)
     }
   }"

primrec look_up_loop :: "(ptr \<Rightarrow> bfc_entry option) \<Rightarrow> ptr \<Rightarrow> int \<Rightarrow> ptr list \<Rightarrow> ptr option" where
  "look_up_loop m i offset [] = Some 0"
| "look_up_loop m i offset (e # es) = do {
     cur \<leftarrow> m e;
     if bfc_inode cur = i \<and> bfc_offset cur = offset then Some e else look_up_loop m i offset es
   }"

definition buffer_cache_look_up :: "fs \<Rightarrow> ptr \<Rightarrow> int \<Rightarrow> ptr option" where
  "buffer_cache_look_up s i offset = look_up_loop (bfces s) i offset (buffer_cache s)"

primrec write_behind_loop :: "ptr list \<Rightarrow> fs \<Rightarrow> fs option" where
  "write_behind_loop [] s = Some s"
| "write_behind_loop (e # es) s = do {
     s \<leftarrow> upd_bfce s e (\<lambda>b. b\<lparr>bfc_accessed := False\<rparr>);
     cur \<leftarrow> bfces s e;
     s \<leftarrow> (if bfc_dirty cur then buffer_cache_write_behind s e else Some s);
     write_behind_loop es s
   }"

definition buffer_cache_write_behind_all :: "fs \<Rightarrow> fs option" where
  "buffer_cache_write_behind_all s = write_behind_loop (buffer_cache s) s"

primrec write_behind_inode_loop :: "ptr \<Rightarrow> ptr list \<Rightarrow> fs \<Rightarrow> fs option" where
  "write_behind_inode_loop i [] s = Some s"
| "write_behind_inode_loop i (e # es) s = do {
     cur \<leftarrow> bfces s e;
     s \<leftarrow> (if bfc_inode cur = i \<and> bfc_dirty cur
       then do { s \<leftarrow> upd_bfce s e (\<lambda>b. b\<lparr>bfc_accessed := False\<rparr>); buffer_cache_write_behind s e }
       else Some s);
     write_behind_inode_loop i es s
   }"

definition buffer_cache_write_behind_inode :: "fs \<Rightarrow> ptr \<Rightarrow> fs option" where
  "buffer_cache_write_behind_inode s i = write_behind_inode_loop i (buffer_cache s) s"

definition check_buffer_cache :: "fs \<Rightarrow> fs option" where
  "check_buffer_cache s = do {
     let s = s\<lparr>bfc_tick := bfc_tick s + 1\<rparr>;
     if bfc_tick s = BFC_TICK_FEQ
     then map_option (\<lambda>s. s\<lparr>bfc_tick := 0\<rparr>) (buffer_cache_write_behind_all s)
     else Some s
   }"

text \<open>The flush frees the entries; it does not reset \<open>entries\<close> and \<open>cur_victim\<close>.\<close>

primrec flush_loop :: "ptr list \<Rightarrow> fs \<Rightarrow> fs option" where
  "flush_loop [] s = Some (s\<lparr>buffer_cache := []\<rparr>)"
| "flush_loop (e # es) s = do {
     cur \<leftarrow> bfces s e;
     flush_loop es (s\<lparr>buffer_cache := es, bfces := (bfces s)(e := None)\<rparr>)
   }"

definition buffer_cache_flush :: "fs \<Rightarrow> fs option" where
  "buffer_cache_flush s = flush_loop (buffer_cache s) s"

text \<open>\<^verbatim>\<open>memcpy\<close> to and from the 512 bytes of an entry.\<close>

definition copy_in :: "u8 list \<Rightarrow> int \<Rightarrow> u8 list \<Rightarrow> u8 list option" where
  "copy_in dat ofs bs = do {
     kassert (0 \<le> ofs \<and> nat ofs + length bs \<le> length dat);
     Some (take (nat ofs) dat @ bs @ drop (nat ofs + length bs) dat)
   }"

definition copy_out :: "u8 list \<Rightarrow> int \<Rightarrow> nat \<Rightarrow> u8 list option" where
  "copy_out dat ofs n = do {
     kassert (0 \<le> ofs \<and> nat ofs + n \<le> length dat);
     Some (take n (drop (nat ofs) dat))
   }"

definition find_entry :: "fs \<Rightarrow> ptr \<Rightarrow> int \<Rightarrow> (ptr \<times> fs) option" where
  "find_entry s i offset = do {
     e \<leftarrow> buffer_cache_look_up s i offset;
     if e = 0 then buffer_cache_get_entry s i offset else Some (e, s)
   }"

definition buffer_cache_write :: "fs \<Rightarrow> ptr \<Rightarrow> int \<Rightarrow> u8 list \<Rightarrow> (int ret \<times> fs) option" where
  "buffer_cache_write s i offset bs = do {
     let sector_ofs = offset smod DISK_SECTOR_SIZE;
     (e, s) \<leftarrow> find_entry s i offset;
     if e = 0 then Some (Exits, s)
     else do {
       b \<leftarrow> bfces s e;
       dat \<leftarrow> copy_in (bfc_data b) sector_ofs bs;
       s \<leftarrow> upd_bfce s e (\<lambda>b. b\<lparr>bfc_data := dat, bfc_dirty := True, bfc_accessed := True\<rparr>);
       Some (Ret (int (length bs)), s)
     }
   }"

definition buffer_cache_read :: "fs \<Rightarrow> ptr \<Rightarrow> int \<Rightarrow> int \<Rightarrow> (u8 list ret \<times> fs) option" where
  "buffer_cache_read s i offset sz = do {
     let sector_ofs = offset smod DISK_SECTOR_SIZE;
     (e, s) \<leftarrow> find_entry s i offset;
     if e = 0 then Some (Exits, s)
     else do {
       b \<leftarrow> bfces s e;
       bs \<leftarrow> copy_out (bfc_data b) sector_ofs (nat sz);
       s \<leftarrow> upd_bfce s e (\<lambda>b. b\<lparr>bfc_accessed := True\<rparr>);
       kassert (int_fits (offset + DISK_SECTOR_SIZE));
       (_, s) \<leftarrow> find_entry s i (offset + DISK_SECTOR_SIZE);
       Some (Ret bs, s)
     }
   }"

subsection \<open>The files behind the cache\<close>

text \<open>
  The number of sectors of a file, and the content of one of them: the cached copy if there is one for the offset of the
  sector, otherwise what is on the disk.
\<close>

definition nsect :: "inode \<Rightarrow> nat" where
  "nsect nd = nat ((id_length (nd_data nd) + 511) div 512)"

definition sector_no :: "inode \<Rightarrow> nat \<Rightarrow> u32" where
  "sector_no nd n = id_start (nd_data nd) + of_nat n"

definition on_disk :: "fs \<Rightarrow> ptr \<Rightarrow> nat \<Rightarrow> u8 list" where
  "on_disk s i n = (case inodes s i of Some nd \<Rightarrow> sectors (filesys_disk s) (sector_no nd n) | None \<Rightarrow> [])"

definition sector_view :: "fs \<Rightarrow> ptr \<Rightarrow> nat \<Rightarrow> u8 list" where
  "sector_view s i n = (case buffer_cache_look_up s i (512 * int n) of
      None \<Rightarrow> []
    | Some e \<Rightarrow> if e = 0 then on_disk s i n else (case bfces s e of Some b \<Rightarrow> bfc_data b | None \<Rightarrow> []))"

definition file_bytes :: "fs \<Rightarrow> ptr \<Rightarrow> u8 list" where
  "file_bytes s i = (case inodes s i of
      Some nd \<Rightarrow> take (nat (id_length (nd_data nd))) (concat (map (sector_view s i) [0..<nsect nd]))
    | None \<Rightarrow> [])"

text \<open>
  The files have disjoint extents inside the disk. A file ends 1 kB before the end of the range of \<^verbatim>\<open>off_t\<close> at the
  latest, so that the offset of the sector to read ahead does not overflow.
\<close>

definition inode_ok :: "disk \<Rightarrow> inode \<Rightarrow> bool" where
  "inode_ok d nd \<longleftrightarrow> 0 \<le> id_length (nd_data nd) \<and> id_length (nd_data nd) \<le> 2 ^ 31 - 1024 \<and>
     unat (id_start (nd_data nd)) + nsect nd \<le> unat (capacity d) \<and> unat (id_start (nd_data nd)) + nsect nd \<le> 2 ^ 28"

definition inodes_ok :: "fs \<Rightarrow> bool" where
  "inodes_ok s \<longleftrightarrow> (\<forall>i nd. inodes s i = Some nd \<longrightarrow> i \<noteq> 0 \<and> inode_ok (filesys_disk s) nd) \<and>
     (\<forall>i j nd nd' n k. inodes s i = Some nd \<longrightarrow> inodes s j = Some nd' \<longrightarrow> n < nsect nd \<longrightarrow> k < nsect nd' \<longrightarrow>
        sector_no nd n = sector_no nd' k \<longrightarrow> i = j \<and> n = k)"

definition entry_ok :: "fs \<Rightarrow> bfc_entry \<Rightarrow> bool" where
  "entry_ok s b \<longleftrightarrow> length (bfc_data b) = 512 \<and> num_of_accessor b = 0 \<and> bfc_evictable b \<and>
     (case inodes s (bfc_inode b) of
        None \<Rightarrow> \<not> bfc_dirty b
      | Some nd \<Rightarrow> \<exists>n < nsect nd. bfc_offset b = 512 * int n \<and> (\<not> bfc_dirty b \<longrightarrow> bfc_data b = on_disk s (bfc_inode b) n))"

definition bfc_key :: "bfc_entry \<Rightarrow> ptr \<times> int" where
  "bfc_key b = (bfc_inode b, bfc_offset b)"

definition cache_ok :: "fs \<Rightarrow> bool" where
  "cache_ok s \<longleftrightarrow> inodes_ok s \<and> (\<forall>n. length (sectors (filesys_disk s) n) = 512) \<and>
     distinct (buffer_cache s) \<and> 0 \<notin> set (buffer_cache s) \<and> unat (entries s) = length (buffer_cache s) \<and>
     length (buffer_cache s) \<le> 64 \<and> (cur_victim s = 0 \<or> cur_victim s \<in> set (buffer_cache s)) \<and>
     (\<forall>e \<in> set (buffer_cache s). \<exists>b. bfces s e = Some b \<and> entry_ok s b) \<and>
     (\<forall>e \<in> set (buffer_cache s). \<forall>f \<in> set (buffer_cache s). map_option bfc_key (bfces s e) = map_option bfc_key (bfces s f) \<longrightarrow> e = f) \<and>
     distinct (mallocs s) \<and> 0 \<notin> set (mallocs s) \<and> set (mallocs s) \<inter> set (buffer_cache s) = {} \<and>
     2 * (64 - length (buffer_cache s)) \<le> length (mallocs s)"

text \<open>The entry that holds a sector of a file.\<close>

definition holds :: "fs \<Rightarrow> ptr \<Rightarrow> ptr \<Rightarrow> nat \<Rightarrow> bfc_entry \<Rightarrow> bool" where
  "holds s e i n b \<longleftrightarrow> e \<in> set (buffer_cache s) \<and> bfces s e = Some b \<and> bfc_key b = (i, 512 * int n)"

definition same_files :: "fs \<Rightarrow> fs \<Rightarrow> bool" where
  "same_files s s' \<longleftrightarrow> inodes s' = inodes s \<and>
     (\<forall>i nd n. inodes s i = Some nd \<longrightarrow> n < nsect nd \<longrightarrow> sector_view s' i n = sector_view s i n)"

lemma same_files_refl [simp]: "same_files s s"
  by (simp add: same_files_def)

lemma same_files_trans: "same_files s t \<Longrightarrow> same_files t u \<Longrightarrow> same_files s u"
  by (simp add: same_files_def)

lemma same_files_bytes: "same_files s s' \<Longrightarrow> file_bytes s' i = file_bytes s i"
  unfolding same_files_def file_bytes_def by (cases "inodes s i") (auto intro!: arg_cong [of _ _ concat] arg_cong [of _ _ "take _"])

lemma look_up_loop_cases:
  assumes "\<forall>e \<in> set es. m e \<noteq> None" "0 \<notin> set es"
  shows "look_up_loop m i k es = Some 0 \<and> (\<forall>e \<in> set es. \<forall>b. m e = Some b \<longrightarrow> bfc_key b \<noteq> (i, k)) \<or>
    (\<exists>e b. look_up_loop m i k es = Some e \<and> e \<in> set es \<and> m e = Some b \<and> bfc_key b = (i, k))"
  using assms
proof (induction es)
  case (Cons a es)
  then obtain y where y: "m a = Some y" by auto
  show ?case
  proof (cases "bfc_key y = (i, k)")
    case True
    then have "look_up_loop m i k (a # es) = Some a" using y by (simp add: bfc_key_def)
    then show ?thesis using True y by auto
  next
    case False
    then have "look_up_loop m i k (a # es) = look_up_loop m i k es" using y by (auto simp: bfc_key_def)
    then show ?thesis using Cons False y by auto
  qed
qed simp

lemma cache_okD:
  assumes "cache_ok s"
  shows "inodes_ok s" "length (sectors (filesys_disk s) n) = 512" "distinct (buffer_cache s)" "0 \<notin> set (buffer_cache s)"
    "unat (entries s) = length (buffer_cache s)" "length (buffer_cache s) \<le> 64"
    "cur_victim s = 0 \<or> cur_victim s \<in> set (buffer_cache s)"
    "e \<in> set (buffer_cache s) \<Longrightarrow> \<exists>b. bfces s e = Some b \<and> entry_ok s b"
    "e \<in> set (buffer_cache s) \<Longrightarrow> f \<in> set (buffer_cache s) \<Longrightarrow>
      map_option bfc_key (bfces s e) = map_option bfc_key (bfces s f) \<Longrightarrow> e = f"
    "distinct (mallocs s)" "0 \<notin> set (mallocs s)" "set (mallocs s) \<inter> set (buffer_cache s) = {}"
    "2 * (64 - length (buffer_cache s)) \<le> length (mallocs s)"
  using assms unfolding cache_ok_def by (elim conjE; blast)+

lemma holds_unique: "cache_ok s \<Longrightarrow> holds s e i n b \<Longrightarrow> holds s f i n c \<Longrightarrow> e = f \<and> b = c"
  using cache_okD(9) [of s e f] by (auto simp: holds_def)

lemma look_up_cases:
  assumes "cache_ok s"
  obtains "buffer_cache_look_up s i (512 * int n) = Some 0" "\<nexists>e b. holds s e i n b"
  | e b where "buffer_cache_look_up s i (512 * int n) = Some e" "e \<noteq> 0" "holds s e i n b"
proof -
  have "\<forall>e \<in> set (buffer_cache s). bfces s e \<noteq> None" using cache_okD(8) [OF assms] by blast
  from look_up_loop_cases [OF this cache_okD(4) [OF assms], of i "512 * int n"]
  show thesis
  proof (elim disjE conjE exE)
    assume "look_up_loop (bfces s) i (512 * int n) (buffer_cache s) = Some 0"
      "\<forall>e \<in> set (buffer_cache s). \<forall>b. bfces s e = Some b \<longrightarrow> bfc_key b \<noteq> (i, 512 * int n)"
    then show thesis by (intro that(1)) (auto simp: buffer_cache_look_up_def holds_def)
  next
    fix e b
    assume e: "look_up_loop (bfces s) i (512 * int n) (buffer_cache s) = Some e" "e \<in> set (buffer_cache s)"
      "bfces s e = Some b" "bfc_key b = (i, 512 * int n)"
    then have "e \<noteq> 0" using cache_okD(4) [OF assms] by metis
    with e show thesis by (intro that(2)) (auto simp: buffer_cache_look_up_def holds_def)
  qed
qed

lemma look_up_holds:
  assumes "cache_ok s" "holds s e i n b"
  shows "buffer_cache_look_up s i (512 * int n) = Some e"
  using assms(1) by (rule look_up_cases [of s i n]) (use assms holds_unique in blast)+

lemma holds_nonnull: "cache_ok s \<Longrightarrow> holds s e i n b \<Longrightarrow> e \<noteq> 0"
  using cache_okD(4) by (auto simp: holds_def)

lemma view_holds: "cache_ok s \<Longrightarrow> holds s e i n b \<Longrightarrow> sector_view s i n = bfc_data b"
  using look_up_holds [of s e i n b] holds_nonnull [of s e i n b] by (simp add: sector_view_def holds_def)

lemma view_disk:
  assumes "cache_ok s" "\<nexists>e b. holds s e i n b"
  shows "sector_view s i n = on_disk s i n"
  using assms(1) by (rule look_up_cases [of s i n]) (use assms(2) in \<open>auto simp: sector_view_def\<close>)

text \<open>Two states with the same files: it is enough to compare the entries and the sectors that are not cached.\<close>

lemma same_filesI:
  assumes ok: "cache_ok s" "cache_ok s'" and inodes: "inodes s' = inodes s"
    and view: "\<And>i nd n. inodes s i = Some nd \<Longrightarrow> n < nsect nd \<Longrightarrow>
      (\<exists>e b e' b'. holds s e i n b \<and> holds s' e' i n b' \<and> bfc_data b' = bfc_data b) \<or>
      (\<nexists>e b. holds s e i n b) \<and> (\<nexists>e b. holds s' e i n b) \<and> on_disk s' i n = on_disk s i n \<or>
      (\<exists>e b. holds s e i n b \<and> bfc_data b = on_disk s' i n) \<and> (\<nexists>e b. holds s' e i n b) \<or>
      (\<exists>e b. holds s' e i n b \<and> bfc_data b = on_disk s i n) \<and> (\<nexists>e b. holds s e i n b)"
  shows "same_files s s'"
  unfolding same_files_def
proof (intro conjI allI impI)
  fix i nd n assume "inodes s i = Some nd" "n < nsect nd"
  from view [OF this] show "sector_view s' i n = sector_view s i n"
    by (elim disjE exE conjE) (simp_all add: view_holds [OF ok(1)] view_holds [OF ok(2)] view_disk [OF ok(1)] view_disk [OF ok(2)])
qed (rule inodes)

subsection \<open>Sector numbers\<close>

lemma sdiv_smod_512: "0 \<le> x \<Longrightarrow> x sdiv 512 = x div 512" "0 \<le> x \<Longrightarrow> x smod 512 = x mod (512 :: int)"
  by (cases "x = 0"; simp add: signed_divide_int_def signed_modulo_int_def)+

lemma less_nsect: "0 \<le> id_length (nd_data nd) \<Longrightarrow> n < nsect nd \<longleftrightarrow> 512 * int n < id_length (nd_data nd)"
  unfolding nsect_def by (simp add: zless_nat_eq_int_zless) linarith

lemma unat_sector_no: "inode_ok d nd \<Longrightarrow> n < nsect nd \<Longrightarrow> unat (sector_no nd n) = unat (id_start (nd_data nd)) + n"
  unfolding sector_no_def inode_ok_def by (subst unat_add_u32) (simp_all add: unat_of_nat_u32)

lemma inodes_okD:
  assumes "inodes_ok s" "inodes s i = Some nd"
  shows "i \<noteq> 0" "inode_ok (filesys_disk s) nd"
    "inodes s j = Some nd' \<Longrightarrow> n < nsect nd \<Longrightarrow> k < nsect nd' \<Longrightarrow> sector_no nd n = sector_no nd' k \<Longrightarrow> i = j \<and> n = k"
  using assms unfolding inodes_ok_def by blast+

lemma select_sector_ok: "inode_ok d nd \<Longrightarrow> n < nsect nd \<Longrightarrow> select_sector d (sector_no nd n) = Some ()"
  using unat_sector_no [of d nd n] by (simp add: select_sector_def inode_ok_def word_less_nat_alt)

lemma byte_to_sector_ok:
  assumes "inodes_ok s" "inodes s i = Some nd"
  shows "byte_to_sector s i (512 * int n) = Some (if n < nsect nd then sector_no nd n else - 1)"
    and "n < nsect nd \<Longrightarrow> sint (sector_no nd n) \<noteq> - 1"
proof -
  have ok: "inode_ok (filesys_disk s) nd" "i \<noteq> 0" using inodes_okD [OF assms] by blast+
  then show "byte_to_sector s i (512 * int n) = Some (if n < nsect nd then sector_no nd n else - 1)"
    using assms(2) by (simp add: byte_to_sector_def DISK_SECTOR_SIZE_def sdiv_smod_512 less_nsect inode_ok_def sector_no_def)
  assume n: "n < nsect nd"
  then have "unat (sector_no nd n) < 2 ^ 28" using unat_sector_no [OF ok(1) n] ok(1) by (simp add: inode_ok_def)
  moreover have "unat (- 1 :: u32) = 2 ^ 32 - 1" by (simp add: unsigned_minus_1_eq_mask mask_eq_exp_minus_1)
  ultimately have "sector_no nd n \<noteq> - 1" by auto
  then show "sint (sector_no nd n) \<noteq> - 1" by (metis signed_minus_1 signed_word_eqI)
qed

subsection \<open>Changing one entry\<close>

lemma inodes_ok_cong:
  "inodes s' = inodes s \<Longrightarrow> capacity (filesys_disk s') = capacity (filesys_disk s) \<Longrightarrow> inodes_ok s' = inodes_ok s"
  by (simp add: inodes_ok_def inode_ok_def)

lemma on_disk_cong:
  "inodes s' = inodes s \<Longrightarrow> sectors (filesys_disk s') = sectors (filesys_disk s) \<Longrightarrow> on_disk s' = on_disk s"
  by (intro ext) (simp add: on_disk_def split: option.split)

lemma entry_ok_cong:
  assumes "inodes s' = inodes s" "sectors (filesys_disk s') = sectors (filesys_disk s)"
  shows "entry_ok s' b = entry_ok s b"
  unfolding entry_ok_def assms(1) on_disk_cong [OF assms] ..

lemma on_disk_length: "cache_ok s \<Longrightarrow> inodes s i = Some nd \<Longrightarrow> length (on_disk s i n) = 512"
  using cache_okD(2) by (simp add: on_disk_def)

lemma cache_ok_entry:
  assumes ok: "cache_ok s" and e: "e \<in> set (buffer_cache s)"
    and s': "s' = s\<lparr>filesys_disk := d, bfces := (bfces s)(e \<mapsto> b)\<rparr>"
    and d: "capacity d = capacity (filesys_disk s)" "\<And>n. length (sectors d n) = 512"
    and b: "entry_ok s' b" "\<And>f c. f \<in> set (buffer_cache s) \<Longrightarrow> f \<noteq> e \<Longrightarrow> bfces s f = Some c \<Longrightarrow> bfc_key c \<noteq> bfc_key b"
    and others: "\<And>f c. f \<in> set (buffer_cache s) \<Longrightarrow> f \<noteq> e \<Longrightarrow> bfces s f = Some c \<Longrightarrow> entry_ok s' c"
  shows "cache_ok s'"
proof -
  have "\<exists>c. bfces s' f = Some c \<and> entry_ok s' c" if "f \<in> set (buffer_cache s)" for f
    using that b(1) others [of f] cache_okD(8) [OF ok, of f] by (cases "f = e") (auto simp: s')
  moreover have "f = g" if fg: "f \<in> set (buffer_cache s)" "g \<in> set (buffer_cache s)"
      "map_option bfc_key (bfces s' f) = map_option bfc_key (bfces s' g)" for f g
  proof (rule ccontr)
    assume ne: "f \<noteq> g"
    obtain c c' where c: "bfces s f = Some c" "bfces s g = Some c'"
      using cache_okD(8) [OF ok, of f] cache_okD(8) [OF ok, of g] fg(1,2) by blast
    show False
      using fg ne c b(2) [of f c] b(2) [of g c'] cache_okD(9) [OF ok fg(1,2)] by (auto simp: s' split: if_splits)
  qed
  ultimately show ?thesis
    unfolding cache_ok_def using cache_okD(1,3-7,10-13) [OF ok] d inodes_ok_cong [of s' s] by (auto simp: s')
qed

text \<open>Changes of the access flags and of the clock hand do not matter.\<close>

definition forget :: "bfc_entry \<Rightarrow> bfc_entry" where
  "forget b = b\<lparr>bfc_accessed := False\<rparr>"

definition flags_only :: "fs \<Rightarrow> fs \<Rightarrow> bool" where
  "flags_only s s' \<longleftrightarrow> (\<exists>f cv. s' = s\<lparr>cur_victim := cv, bfces := f\<rparr> \<and> (cv = 0 \<or> cv \<in> set (buffer_cache s)) \<and>
     (\<forall>x. map_option forget (f x) = map_option forget (bfces s x)))"

lemma forget_eqD:
  assumes "forget b = forget c"
  shows "bfc_inode b = bfc_inode c" "bfc_offset b = bfc_offset c" "bfc_data b = bfc_data c" "num_of_accessor b = num_of_accessor c"
    "bfc_dirty b = bfc_dirty c" "bfc_evictable b = bfc_evictable c" "bfc_key b = bfc_key c" "entry_ok s b = entry_ok s c"
proof -
  note a = arg_cong [OF assms]
  show e: "bfc_inode b = bfc_inode c" "bfc_offset b = bfc_offset c" "bfc_data b = bfc_data c" "num_of_accessor b = num_of_accessor c"
    "bfc_dirty b = bfc_dirty c" "bfc_evictable b = bfc_evictable c"
    using a [of bfc_inode] a [of bfc_offset] a [of bfc_data] a [of num_of_accessor] a [of bfc_dirty] a [of bfc_evictable]
    by (simp_all add: forget_def)
  show "bfc_key b = bfc_key c" "entry_ok s b = entry_ok s c" unfolding bfc_key_def entry_ok_def e by (rule refl)+
qed

lemma flags_only_entry:
  assumes "flags_only s s'"
  shows "bfces s x = Some b \<Longrightarrow> \<exists>c. bfces s' x = Some c \<and> forget c = forget b"
    and "bfces s' x = Some c \<Longrightarrow> \<exists>b. bfces s x = Some b \<and> forget c = forget b"
    and "map_option bfc_key (bfces s' x) = map_option bfc_key (bfces s x)"
proof -
  have m: "map_option forget (bfces s' x) = map_option forget (bfces s x)" using assms by (auto simp: flags_only_def)
  show "bfces s x = Some b \<Longrightarrow> \<exists>c. bfces s' x = Some c \<and> forget c = forget b"
    and "bfces s' x = Some c \<Longrightarrow> \<exists>b. bfces s x = Some b \<and> forget c = forget b"
    using m by (cases "bfces s x"; cases "bfces s' x"; simp)+
  show "map_option bfc_key (bfces s' x) = map_option bfc_key (bfces s x)"
    using m by (cases "bfces s x"; cases "bfces s' x") (auto dest: forget_eqD(7))
qed

lemma flags_only_same:
  assumes "flags_only s s'"
  shows "inodes s' = inodes s" "buffer_cache s' = buffer_cache s" "filesys_disk s' = filesys_disk s" "entries s' = entries s"
    "mallocs s' = mallocs s"
  using assms by (auto simp: flags_only_def)

lemma flags_only_holds:
  "flags_only s s' \<Longrightarrow> holds s e i n b \<Longrightarrow> \<exists>c. holds s' e i n c \<and> forget c = forget b"
  "flags_only s s' \<Longrightarrow> holds s' e i n c \<Longrightarrow> \<exists>b. holds s e i n b \<and> forget c = forget b"
  unfolding holds_def using flags_only_same(2) [of s s'] flags_only_entry(1,2) [of s s' e] forget_eqD(7) by metis+

lemma flags_only_ok:
  assumes ok: "cache_ok s" and f: "flags_only s s'"
  shows "cache_ok s'" "same_files s s'"
proof -
  have cv: "cur_victim s' = 0 \<or> cur_victim s' \<in> set (buffer_cache s)" using f by (auto simp: flags_only_def)
  have "\<exists>c. bfces s' e = Some c \<and> entry_ok s' c" if "e \<in> set (buffer_cache s)" for e
    using cache_okD(8) [OF ok that] flags_only_entry(1) [OF f, of e] forget_eqD(8)
    by (metis entry_ok_cong f flags_only_same(1,3))
  then show ok': "cache_ok s'"
    using cache_okD [OF ok] cv inodes_ok_cong [of s' s] unfolding cache_ok_def flags_only_same [OF f] flags_only_entry(3) [OF f]
    by blast
  have d: "on_disk s' i n = on_disk s i n" for i n
    using on_disk_cong [of s' s] flags_only_same [OF f] by simp
  show "same_files s s'"
  proof (rule same_filesI [OF ok ok'])
    fix i nd n
    show "(\<exists>e b e' b'. holds s e i n b \<and> holds s' e' i n b' \<and> bfc_data b' = bfc_data b) \<or>
      (\<nexists>e b. holds s e i n b) \<and> (\<nexists>e b. holds s' e i n b) \<and> on_disk s' i n = on_disk s i n \<or>
      (\<exists>e b. holds s e i n b \<and> bfc_data b = on_disk s' i n) \<and> (\<nexists>e b. holds s' e i n b) \<or>
      (\<exists>e b. holds s' e i n b \<and> bfc_data b = on_disk s i n) \<and> (\<nexists>e b. holds s e i n b)"
      using flags_only_holds [OF f, of _ i n] d forget_eqD(3) by metis
  qed (rule flags_only_same(1) [OF f])
qed

lemma flags_only_refl: "cache_ok s \<Longrightarrow> flags_only s s"
  unfolding flags_only_def using cache_okD(7) [of s] by (intro exI [of _ "bfces s"] exI [of _ "cur_victim s"]) simp

lemma flags_only_trans:
  assumes "flags_only s t" "flags_only t u"
  shows "flags_only s u"
proof -
  obtain f cv where f: "t = s\<lparr>cur_victim := cv, bfces := f\<rparr>" "\<And>x. map_option forget (f x) = map_option forget (bfces s x)"
    using assms(1) unfolding flags_only_def by blast
  obtain g cw where g: "u = t\<lparr>cur_victim := cw, bfces := g\<rparr>" "cw = 0 \<or> cw \<in> set (buffer_cache t)"
    "\<And>x. map_option forget (g x) = map_option forget (bfces t x)"
    using assms(2) unfolding flags_only_def by blast
  show ?thesis unfolding flags_only_def
    by (intro exI [of _ g] exI [of _ cw]) (use f g in simp)
qed

subsection \<open>The clock algorithm\<close>

lemma clock_next_in:
  assumes "e \<in> set xs" shows "\<exists>n. clock_next xs e = Some n \<and> n \<in> set xs"
proof -
  obtain ys zs where xs: "xs = ys @ e # zs" "e \<notin> set ys" using split_list_first [OF assms] by blast
  then have "dropWhile (\<lambda>x. x \<noteq> e) xs = e # zs" by (subst xs(1), subst dropWhile_append2) auto
  then show ?thesis using xs(1) by (cases zs; cases ys) (simp_all add: clock_next_def)
qed

definition accessed_set :: "fs \<Rightarrow> ptr set" where
  "accessed_set s = {e \<in> set (buffer_cache s). \<exists>b. bfces s e = Some b \<and> bfc_accessed b}"

text \<open>Every entry can be evicted, so each step of the clock hand stops or clears an access flag.\<close>

lemma select_victim_ok:
  "cache_ok s \<Longrightarrow> buffer_cache s \<noteq> [] \<Longrightarrow>
    \<exists>e s'. select_victim s = Some (e, s') \<and> e \<in> set (buffer_cache s) \<and> flags_only s s'"
proof (induction "card (accessed_set s)" arbitrary: s rule: less_induct)
  case less
  define cv where "cv = (if cur_victim s = 0 then hd (buffer_cache s) else cur_victim s)"
  have cv: "cv \<in> set (buffer_cache s)" "cv \<noteq> 0"
    using cache_okD(4,7) [OF less.prems(1)] less.prems(2) by (cases "buffer_cache s"; auto simp: cv_def)+
  have first: "(if cur_victim s = 0 then (case buffer_cache s of [] \<Rightarrow> None | e # _ \<Rightarrow> Some e) else Some (cur_victim s)) = Some cv"
    using less.prems(2) by (auto simp: cv_def split: list.split)
  obtain b where b: "bfces s cv = Some b" "entry_ok s b" using cache_okD(8) [OF less.prems(1) cv(1)] by blast
  have cond: "num_of_accessor b = 0" "bfc_evictable b" using b(2) by (simp_all add: entry_ok_def)
  show ?case
  proof (cases "bfc_accessed b")
    case False
    have "select_victim s = Some (cv, s\<lparr>cur_victim := cv\<rparr>)"
      using first b(1) cond False by (subst select_victim.simps) simp
    moreover have "flags_only s (s\<lparr>cur_victim := cv\<rparr>)"
      unfolding flags_only_def using cv(1) by (intro exI [of _ "bfces s"] exI [of _ cv]) simp
    ultimately show ?thesis using cv(1) by blast
  next
    case True
    obtain n where n: "clock_next (buffer_cache s) cv = Some n" "n \<in> set (buffer_cache s)" using clock_next_in [OF cv(1)] by blast
    define t where "t = s\<lparr>bfces := (bfces s)(cv \<mapsto> b\<lparr>bfc_accessed := False\<rparr>), cur_victim := n\<rparr>"
    have step: "select_victim s = select_victim t"
      using first b(1) cond True n(1) by (subst select_victim.simps) (simp add: t_def)
    have f: "flags_only s t"
      unfolding flags_only_def t_def using n(2) b(1)
      by (intro exI [of _ "(bfces s)(cv \<mapsto> b\<lparr>bfc_accessed := False\<rparr>)"] exI [of _ n]) (simp add: forget_def)
    have "accessed_set t = accessed_set s - {cv}" by (auto simp: accessed_set_def t_def)
    moreover have "cv \<in> accessed_set s" using cv(1) b(1) True by (simp add: accessed_set_def)
    moreover have "finite (accessed_set s)" by (simp add: accessed_set_def)
    ultimately have "card (accessed_set t) < card (accessed_set s)" by (metis card_Diff1_less)
    from less.hyps [OF this flags_only_ok(1) [OF less.prems(1) f]] less.prems(2)
    show ?thesis unfolding step flags_only_same(2) [OF f] using flags_only_trans [OF f] by blast
  qed
qed

subsection \<open>Writing behind\<close>

lemma same_data_files:
  assumes ok: "cache_ok s" "cache_ok s'" and same: "inodes s' = inodes s" "buffer_cache s' = buffer_cache s"
    and e: "\<And>f. f \<in> set (buffer_cache s) \<Longrightarrow>
      map_option (\<lambda>b. (bfc_key b, bfc_data b)) (bfces s' f) = map_option (\<lambda>b. (bfc_key b, bfc_data b)) (bfces s f)"
    and d: "\<And>i nd n. inodes s i = Some nd \<Longrightarrow> n < nsect nd \<Longrightarrow> \<nexists>e b. holds s e i n b \<Longrightarrow> on_disk s' i n = on_disk s i n"
  shows "same_files s s'"
proof (rule same_filesI [OF ok same(1)])
  fix i nd n assume i: "inodes s i = Some nd" "n < nsect nd"
  have h: "(\<exists>b'. holds s' f i n b' \<and> bfc_data b' = x) \<longleftrightarrow> (\<exists>b. holds s f i n b \<and> bfc_data b = x)" for f x
    using e [of f] unfolding holds_def same(2) by (cases "bfces s f"; cases "bfces s' f") auto
  show "(\<exists>e b e' b'. holds s e i n b \<and> holds s' e' i n b' \<and> bfc_data b' = bfc_data b) \<or>
      (\<nexists>e b. holds s e i n b) \<and> (\<nexists>e b. holds s' e i n b) \<and> on_disk s' i n = on_disk s i n \<or>
      (\<exists>e b. holds s e i n b \<and> bfc_data b = on_disk s' i n) \<and> (\<nexists>e b. holds s' e i n b) \<or>
      (\<exists>e b. holds s' e i n b \<and> bfc_data b = on_disk s i n) \<and> (\<nexists>e b. holds s e i n b)"
    using h d [OF i] by metis
qed

lemma entry_live:
  assumes "entry_ok s b" "bfc_dirty b"
  obtains nd n where "inodes s (bfc_inode b) = Some nd" "n < nsect nd" "bfc_offset b = 512 * int n"
  using assms unfolding entry_ok_def by (cases "inodes s (bfc_inode b)") auto

lemma write_behind_ok:
  assumes ok: "cache_ok s" and e: "e \<in> set (buffer_cache s)" "bfces s e = Some b" "bfc_dirty b"
  shows "\<exists>d. buffer_cache_write_behind s e =
      Some (s\<lparr>filesys_disk := d, bfces := (bfces s)(e \<mapsto> b\<lparr>bfc_dirty := False, bfc_accessed := False\<rparr>)\<rparr>) \<and>
    cache_ok (s\<lparr>filesys_disk := d, bfces := (bfces s)(e \<mapsto> b\<lparr>bfc_dirty := False, bfc_accessed := False\<rparr>)\<rparr>) \<and>
    same_files s (s\<lparr>filesys_disk := d, bfces := (bfces s)(e \<mapsto> b\<lparr>bfc_dirty := False, bfc_accessed := False\<rparr>)\<rparr>)"
proof -
  let ?b = "b\<lparr>bfc_dirty := False, bfc_accessed := False\<rparr>" and ?i = "bfc_inode b" and ?D = "filesys_disk s"
  have eo: "entry_ok s b" using cache_okD(8) [OF ok e(1)] e(2) by auto
  obtain nd n where nd: "inodes s ?i = Some nd" "n < nsect nd" "bfc_offset b = 512 * int n" using entry_live [OF eo e(3)] .
  note io = cache_okD(1) [OF ok]
  define d where "d = ?D\<lparr>sectors := (sectors ?D)(sector_no nd n := bfc_data b), write_cnt := write_cnt ?D + 1\<rparr>"
  define s' where "s' = s\<lparr>filesys_disk := d, bfces := (bfces s)(e \<mapsto> ?b)\<rparr>"
  have "byte_to_sector s ?i (bfc_offset b) = Some (sector_no nd n)" using byte_to_sector_ok(1) [OF io nd(1)] nd(2,3) by simp
  then have run: "buffer_cache_write_behind s e = Some s'"
    using e(2) select_sector_ok [OF inodes_okD(2) [OF io nd(1)] nd(2)]
    by (simp add: buffer_cache_write_behind_def disk_write_def upd_bfce_def d_def s'_def Let_def)
  have disk: "on_disk s' j k = (if j = ?i \<and> k = n then bfc_data b else on_disk s j k)"
    if "inodes s j = Some nd'" "k < nsect nd'" for j nd' k
    using that inodes_okD(3) [OF io nd(1) that(1) nd(2) that(2)] nd(1) by (auto simp: on_disk_def s'_def d_def)
  have key: "bfc_key c \<noteq> bfc_key b" if "f \<in> set (buffer_cache s)" "f \<noteq> e" "bfces s f = Some c" for f c
    using cache_okD(9) [OF ok that(1) e(1)] that e(2) by auto
  have others: "entry_ok s' c" if f: "f \<in> set (buffer_cache s)" "f \<noteq> e" "bfces s f = Some c" for f c
  proof (cases "inodes s (bfc_inode c)")
    case None
    then show ?thesis using cache_okD(8) [OF ok f(1)] f(3) by (auto simp: entry_ok_def s'_def)
  next
    case (Some nd')
    then obtain k where k: "k < nsect nd'" "bfc_offset c = 512 * int k" "\<not> bfc_dirty c \<longrightarrow> bfc_data c = on_disk s (bfc_inode c) k"
      "length (bfc_data c) = 512" "num_of_accessor c = 0" "bfc_evictable c"
      using cache_okD(8) [OF ok f(1)] f(3) by (auto simp: entry_ok_def)
    moreover have "\<not> (bfc_inode c = ?i \<and> k = n)" using key [OF f] k(2) nd(3) by (auto simp: bfc_key_def)
    ultimately show ?thesis using Some disk [OF Some k(1)] by (auto simp: entry_ok_def s'_def)
  qed
  have "on_disk s' ?i n = bfc_data b" using disk [OF nd(1,2)] by simp
  then have "entry_ok s' ?b" using eo nd by (auto simp: entry_ok_def s'_def)
  then have ok': "cache_ok s'"
    by (rule cache_ok_entry [OF ok e(1) s'_def, rotated 2])
      (use key others cache_okD(2) [OF ok] eo in \<open>auto simp: d_def entry_ok_def bfc_key_def\<close>)
  have "same_files s s'"
  proof (rule same_data_files [OF ok ok'])
    fix j nd' k assume "inodes s j = Some nd'" "k < nsect nd'" "\<nexists>e b. holds s e j k b"
    moreover have "holds s e ?i n b" using e nd(3) by (simp add: holds_def bfc_key_def)
    ultimately show "on_disk s' j k = on_disk s j k" using disk [of j nd' k] by auto
  qed (use e(2) in \<open>auto simp: s'_def bfc_key_def\<close>)
  then show ?thesis using run ok' unfolding s'_def by blast
qed

subsection \<open>Bringing a sector into the cache\<close>

lemma held_cong:
  assumes "buffer_cache s' = buffer_cache s"
    and "\<And>x. x \<in> set (buffer_cache s) \<Longrightarrow> map_option bfc_key (bfces s' x) = map_option bfc_key (bfces s x)"
  shows "(\<exists>e b. holds s' e i n b) \<longleftrightarrow> (\<exists>e b. holds s e i n b)"
proof -
  have "(\<exists>b. holds s' e i n b) \<longleftrightarrow> (\<exists>b. holds s e i n b)" for e
    using assms(2) [of e] unfolding holds_def assms(1) by (cases "bfces s e"; cases "bfces s' e") auto
  then show ?thesis by blast
qed

definition fresh_entry :: "fs \<Rightarrow> ptr \<Rightarrow> nat \<Rightarrow> bfc_entry \<Rightarrow> bool" where
  "fresh_entry s i n b \<longleftrightarrow> bfc_key b = (i, 512 * int n) \<and> bfc_data b = on_disk s i n \<and> \<not> bfc_dirty b \<and>
     num_of_accessor b = 0 \<and> bfc_evictable b"

lemma fresh_entry_ok:
  assumes "cache_ok s" "inodes s i = Some nd" "n < nsect nd" "fresh_entry s i n b"
  shows "entry_ok s b"
  using assms on_disk_length [OF assms(1,2), of n] by (auto simp: entry_ok_def fresh_entry_def bfc_key_def)

lemma fill_entry_ok:
  assumes ok: "cache_ok s" and i: "inodes s i = Some nd" "n < nsect nd" "\<nexists>e b. holds s e i n b"
    and e: "e \<in> set (buffer_cache s)" "bfces s e = Some b" "\<not> bfc_dirty b" and b': "fresh_entry s i n b'"
    and s': "s' = s\<lparr>filesys_disk := (filesys_disk s)\<lparr>read_cnt := r\<rparr>, bfces := (bfces s)(e \<mapsto> b')\<rparr>"
  shows "cache_ok s'" "same_files s s'" "holds s' e i n b'"
proof -
  have cong: "entry_ok s' c = entry_ok s c" for c by (rule entry_ok_cong) (simp_all add: s')
  have disk: "on_disk s' = on_disk s" by (rule on_disk_cong) (simp_all add: s')
  have k: "bfc_key b' = (i, 512 * int n)" "bfc_data b' = on_disk s i n" using b' by (simp_all add: fresh_entry_def)
  show ok': "cache_ok s'"
  proof (rule cache_ok_entry [OF ok e(1) s'])
    show "entry_ok s' b'" unfolding cong by (rule fresh_entry_ok [OF ok i(1,2) b'])
    show "entry_ok s' c" if "f \<in> set (buffer_cache s)" "f \<noteq> e" "bfces s f = Some c" for f c
      unfolding cong using cache_okD(8) [OF ok that(1)] that(3) by auto
  qed (use i(3) k cache_okD(2) [OF ok] in \<open>auto simp: holds_def\<close>)
  show h: "holds s' e i n b'" using e(1) k by (simp add: holds_def s')
  have eo: "entry_ok s b" using cache_okD(8) [OF ok e(1)] e(2) by auto
  have other: "holds s' f j m c \<longleftrightarrow> holds s f j m c" if "f \<noteq> e" for f j m c using that by (simp add: holds_def s')
  show "same_files s s'"
  proof (rule same_filesI [OF ok ok'])
    fix j nd' m assume j: "inodes s j = Some nd'" "m < nsect nd'"
    consider (new) "(j, m) = (i, n)" | (old) "(j, m) \<noteq> (i, n)" "holds s e j m b" | (rest) "(j, m) \<noteq> (i, n)" "\<not> holds s e j m b"
      by blast
    then show "(\<exists>e b e' b'. holds s e j m b \<and> holds s' e' j m b' \<and> bfc_data b' = bfc_data b) \<or>
      (\<nexists>e b. holds s e j m b) \<and> (\<nexists>e b. holds s' e j m b) \<and> on_disk s' j m = on_disk s j m \<or>
      (\<exists>e b. holds s e j m b \<and> bfc_data b = on_disk s' j m) \<and> (\<nexists>e b. holds s' e j m b) \<or>
      (\<exists>e b. holds s' e j m b \<and> bfc_data b = on_disk s j m) \<and> (\<nexists>e b. holds s e j m b)"
    proof cases
      case new
      then show ?thesis using h k(2) i(3) by blast
    next
      case old
      then have "bfc_data b = on_disk s j m" using eo e(3) j(1) by (auto simp: entry_ok_def holds_def bfc_key_def)
      moreover have "\<not> holds s' f j m c" for f c
      proof (cases "f = e")
        case True
        then show ?thesis using old(1) k(1) by (auto simp: holds_def s')
      next
        case False
        then show ?thesis using holds_unique [OF ok old(2), of f c] by (auto simp: other)
      qed
      ultimately show ?thesis using old disk by metis
    next
      case rest
      then have "\<not> holds s' e j m c" "\<not> holds s e j m c" for c using k e(2) by (auto simp: holds_def s')
      then have "holds s' f j m c \<longleftrightarrow> holds s f j m c" for f c by (cases "f = e") (simp_all add: other)
      then show ?thesis using disk by metis
    qed
  qed (simp add: s')
qed

lemma add_entry_ok:
  assumes ok: "cache_ok s" and i: "inodes s i = Some nd" "n < nsect nd" "\<nexists>e b. holds s e i n b"
    and room: "length (buffer_cache s) < 64" "mallocs s = e # a # ps" and b: "fresh_entry s i n b"
    and s': "s' = s\<lparr>filesys_disk := (filesys_disk s)\<lparr>read_cnt := r\<rparr>, entries := entries s + 1, buffer_cache := e # buffer_cache s,
      mallocs := ps, bfces := (bfces s)(e \<mapsto> b)\<rparr>"
  shows "cache_ok s'" "same_files s s'" "holds s' e i n b" "e \<noteq> 0" "a \<noteq> 0"
proof -
  have cong: "entry_ok s' c = entry_ok s c" for c by (rule entry_ok_cong) (simp_all add: s')
  have disk: "on_disk s' = on_disk s" by (rule on_disk_cong) (simp_all add: s')
  have k: "bfc_key b = (i, 512 * int n)" "bfc_data b = on_disk s i n" using b by (simp_all add: fresh_entry_def)
  have e: "e \<notin> set (buffer_cache s)" "e \<notin> set ps" and ea: "e \<noteq> 0" "a \<noteq> 0" using cache_okD(10-12) [OF ok] room(2) by auto
  have cnt: "unat (entries s + 1) = Suc (length (buffer_cache s))"
    using cache_okD(5) [OF ok] room(1) by (subst unat_add_u32) simp_all
  have ent: "\<exists>c. bfces s' f = Some c \<and> entry_ok s' c" if "f \<in> set (e # buffer_cache s)" for f
    using that fresh_entry_ok [OF ok i(1,2) b] cache_okD(8) [OF ok, of f] unfolding cong by (auto simp: s')
  have key_inj: "f = g" if "f \<in> set (e # buffer_cache s)" "g \<in> set (e # buffer_cache s)"
      "map_option bfc_key (bfces s' f) = map_option bfc_key (bfces s' g)" for f g
  proof -
    have new: "map_option bfc_key (bfces s f) \<noteq> Some (i, 512 * int n)" if "f \<in> set (buffer_cache s)" for f
      using that i(3) by (auto simp: holds_def)
    have key: "map_option bfc_key (bfces s' f) = (if f = e then Some (i, 512 * int n) else map_option bfc_key (bfces s f))" for f
      using k(1) by (simp add: s')
    show ?thesis
      using that(1,2) that(3) [unfolded key] cache_okD(9) [OF ok, of f g] new [of f] new [of g]
      by (metis set_ConsD)
  qed
  have cache: "buffer_cache s' = e # buffer_cache s" by (simp add: s')
  show ok': "cache_ok s'"
    unfolding cache_ok_def cache
  proof (intro conjI)
    show "inodes_ok s'" using cache_okD(1) [OF ok] inodes_ok_cong [of s' s] by (simp add: s')
    show "distinct (e # buffer_cache s)" "0 \<notin> set (e # buffer_cache s)" using cache_okD(3,4) [OF ok] e ea by auto
    show "cur_victim s' = 0 \<or> cur_victim s' \<in> set (e # buffer_cache s)" using cache_okD(7) [OF ok] by (auto simp: s')
    show "unat (entries s') = length (e # buffer_cache s)" using cnt by (simp add: s')
    show "\<forall>f \<in> set (e # buffer_cache s). \<exists>c. bfces s' f = Some c \<and> entry_ok s' c" using ent by blast
    show "\<forall>f \<in> set (e # buffer_cache s). \<forall>g \<in> set (e # buffer_cache s).
      map_option bfc_key (bfces s' f) = map_option bfc_key (bfces s' g) \<longrightarrow> f = g" using key_inj by blast
  qed (use cache_okD(2,6,10-13) [OF ok] e room in \<open>auto simp: s'\<close>)
  show h: "holds s' e i n b" using k by (simp add: holds_def s')
  have other: "holds s' f j m c \<longleftrightarrow> holds s f j m c" if "f \<noteq> e" for f j m c using that by (simp add: holds_def s')
  show "same_files s s'"
  proof (rule same_filesI [OF ok ok'])
    fix j nd' m
    show "(\<exists>e b e' b'. holds s e j m b \<and> holds s' e' j m b' \<and> bfc_data b' = bfc_data b) \<or>
      (\<nexists>e b. holds s e j m b) \<and> (\<nexists>e b. holds s' e j m b) \<and> on_disk s' j m = on_disk s j m \<or>
      (\<exists>e b. holds s e j m b \<and> bfc_data b = on_disk s' j m) \<and> (\<nexists>e b. holds s' e j m b) \<or>
      (\<exists>e b. holds s' e j m b \<and> bfc_data b = on_disk s j m) \<and> (\<nexists>e b. holds s e j m b)"
    proof (cases "(j, m) = (i, n)")
      case True
      then show ?thesis using h k(2) i(3) by blast
    next
      case False
      then have "\<not> holds s' e j m c" "\<not> holds s e j m c" for c using k(1) e(1) by (auto simp: holds_def s')
      then have "holds s' f j m c \<longleftrightarrow> holds s f j m c" for f c by (cases "f = e") (simp_all add: other)
      then show ?thesis using disk by metis
    qed
  qed (simp add: s')
qed (use cache_okD(11) [OF ok] room(2) in auto)

lemma disk_read_ok:
  "inodes_ok s \<Longrightarrow> inodes s i = Some nd \<Longrightarrow> n < nsect nd \<Longrightarrow>
    disk_read s (sector_no nd n) = Some (on_disk s i n, s\<lparr>filesys_disk := (filesys_disk s)\<lparr>read_cnt := read_cnt (filesys_disk s) + 1\<rparr>\<rparr>)"
  using select_sector_ok [OF inodes_okD(2)] by (simp add: disk_read_def on_disk_def Let_def)

lemma evict_ok:
  assumes ok: "cache_ok s" and ne: "buffer_cache s \<noteq> []"
  shows "\<exists>e s1 b s2 b2. select_victim s = Some (e, s1) \<and> bfces s1 e = Some b \<and>
    (if bfc_dirty b then buffer_cache_write_behind s1 e else Some s1) = Some s2 \<and> cache_ok s2 \<and> same_files s s2 \<and>
    e \<in> set (buffer_cache s2) \<and> bfces s2 e = Some b2 \<and> \<not> bfc_dirty b2 \<and> bfc_evictable b2 \<and>
    (\<forall>i n. (\<exists>f c. holds s2 f i n c) \<longleftrightarrow> (\<exists>f c. holds s f i n c))"
proof -
  obtain e s1 where v: "select_victim s = Some (e, s1)" "e \<in> set (buffer_cache s)" "flags_only s s1"
    using select_victim_ok [OF ok ne] by blast
  note ok1 = flags_only_ok(1) [OF ok v(3)] and same1 = flags_only_ok(2) [OF ok v(3)]
  have e1: "e \<in> set (buffer_cache s1)" using v(2) flags_only_same(2) [OF v(3)] by simp
  then obtain b where b: "bfces s1 e = Some b" "entry_ok s1 b" using cache_okD(8) [OF ok1] by blast
  have held1: "(\<exists>f c. holds s1 f i n c) \<longleftrightarrow> (\<exists>f c. holds s f i n c)" for i n
    by (rule held_cong) (simp_all add: flags_only_same(2) [OF v(3)] flags_only_entry(3) [OF v(3)])
  show ?thesis
  proof (cases "bfc_dirty b")
    case False
    then show ?thesis using v(1) b ok1 same1 e1 held1 by (auto simp: entry_ok_def)
  next
    case True
    let ?b = "b\<lparr>bfc_dirty := False, bfc_accessed := False\<rparr>"
    obtain d where w: "buffer_cache_write_behind s1 e = Some (s1\<lparr>filesys_disk := d, bfces := (bfces s1)(e \<mapsto> ?b)\<rparr>)"
      "cache_ok (s1\<lparr>filesys_disk := d, bfces := (bfces s1)(e \<mapsto> ?b)\<rparr>)"
      "same_files s1 (s1\<lparr>filesys_disk := d, bfces := (bfces s1)(e \<mapsto> ?b)\<rparr>)"
      using write_behind_ok [OF ok1 e1 b(1) True] by blast
    define s2 where "s2 = s1\<lparr>filesys_disk := d, bfces := (bfces s1)(e \<mapsto> ?b)\<rparr>"
    have "(\<exists>f c. holds s2 f i n c) \<longleftrightarrow> (\<exists>f c. holds s1 f i n c)" for i n
      by (rule held_cong) (use b(1) in \<open>auto simp: s2_def bfc_key_def\<close>)
    moreover have "bfces s2 e = Some ?b" "e \<in> set (buffer_cache s2)" using e1 by (simp_all add: s2_def)
    moreover have "bfc_evictable ?b" using b(2) by (simp add: entry_ok_def)
    moreover have "same_files s s2" using same_files_trans [OF same1] w(3) unfolding s2_def by blast
    ultimately show ?thesis using v(1) b(1) w(1,2) True held1 unfolding s2_def [symmetric]
      by (intro exI [of _ e] exI [of _ s1] exI [of _ b] exI [of _ s2] exI [of _ ?b]) simp
  qed
qed

lemma get_entry_ok:
  assumes ok: "cache_ok s" and i: "inodes s i = Some nd" "n < nsect nd" "\<nexists>e b. holds s e i n b"
  shows "\<exists>e s' b. buffer_cache_get_entry s i (512 * int n) = Some (e, s') \<and> e \<noteq> 0 \<and> cache_ok s' \<and> same_files s s' \<and> holds s' e i n b"
proof -
  note io = cache_okD(1) [OF ok]
  have sec: "byte_to_sector s i (512 * int n) = Some (sector_no nd n)" "sint (sector_no nd n) \<noteq> - 1"
    using byte_to_sector_ok [OF io i(1), of n] i(2) by simp_all
  have full: "entries s < BUF_CACHE_SIZE \<longleftrightarrow> length (buffer_cache s) < 64"
    using cache_okD(5) [OF ok] by (simp add: word_less_nat_alt BUF_CACHE_SIZE_def)
  show ?thesis
  proof (cases "length (buffer_cache s) < 64")
    case True
    then have "2 \<le> length (mallocs s)" using cache_okD(13) [OF ok] by simp
    then obtain e a ps where m: "mallocs s = e # a # ps" by (cases "mallocs s"; cases "tl (mallocs s)") auto
    define b where "b = \<lparr>bfc_inode = i, bfc_offset = 512 * int n, bfc_data = on_disk s i n,
      num_of_accessor = 0, bfc_dirty = False, bfc_accessed = False, bfc_evictable = True\<rparr>"
    define s' where "s' = s\<lparr>filesys_disk := (filesys_disk s)\<lparr>read_cnt := read_cnt (filesys_disk s) + 1\<rparr>, entries := entries s + 1,
      buffer_cache := e # buffer_cache s, mallocs := ps, bfces := (bfces s)(e \<mapsto> b)\<rparr>"
    have "fresh_entry s i n b" by (simp add: fresh_entry_def bfc_key_def b_def)
    note add = add_entry_ok [OF ok i True m this s'_def]
    define t where "t = s\<lparr>entries := entries s + 1, buffer_cache := e # buffer_cache s, mallocs := ps\<rparr>"
    have "disk_read t (sector_no nd n) = Some (on_disk t i n, t\<lparr>filesys_disk := (filesys_disk t)\<lparr>read_cnt := read_cnt (filesys_disk t) + 1\<rparr>\<rparr>)"
      by (rule disk_read_ok) (use io i inodes_ok_cong [of t s] in \<open>simp_all add: t_def\<close>)
    moreover have "on_disk t i n = on_disk s i n" by (simp add: on_disk_def t_def split: option.split)
    ultimately have "buffer_cache_get_entry s i (512 * int n) = Some (e, s')"
      using sec full True m add(4,5) by (simp add: buffer_cache_get_entry_def fs_malloc_def t_def s'_def b_def Let_def)
    then show ?thesis using add by blast
  next
    case False
    then have "buffer_cache s \<noteq> []" by auto
    from evict_ok [OF ok this] obtain e s1 b s2 b2 where v: "select_victim s = Some (e, s1)" "bfces s1 e = Some b"
      "(if bfc_dirty b then buffer_cache_write_behind s1 e else Some s1) = Some s2" "cache_ok s2" "same_files s s2"
      "e \<in> set (buffer_cache s2)" "bfces s2 e = Some b2" "\<not> bfc_dirty b2" "bfc_evictable b2"
      "\<forall>i n. (\<exists>f c. holds s2 f i n c) \<longleftrightarrow> (\<exists>f c. holds s f i n c)" by metis
    define b' where "b' = b2\<lparr>bfc_data := on_disk s2 i n, bfc_inode := i, bfc_offset := 512 * int n, num_of_accessor := 0,
      bfc_dirty := False, bfc_accessed := False\<rparr>"
    define s' where "s' = s2\<lparr>filesys_disk := (filesys_disk s2)\<lparr>read_cnt := read_cnt (filesys_disk s2) + 1\<rparr>, bfces := (bfces s2)(e \<mapsto> b')\<rparr>"
    have i2: "inodes s2 i = Some nd" using v(5) i(1) by (simp add: same_files_def)
    have "fresh_entry s2 i n b'" using v(9) by (simp add: fresh_entry_def bfc_key_def b'_def)
    note fill = fill_entry_ok [OF v(4) i2 i(2) _ v(6,7,8) this s'_def]
    have "disk_read s2 (sector_no nd n) = Some (on_disk s2 i n, s2\<lparr>filesys_disk := (filesys_disk s2)\<lparr>read_cnt := read_cnt (filesys_disk s2) + 1\<rparr>\<rparr>)"
      by (rule disk_read_ok [OF cache_okD(1) [OF v(4)] i2 i(2)])
    then have "buffer_cache_get_entry s i (512 * int n) = Some (e, s')"
      using sec full False v(1,2,3,7) by (simp add: buffer_cache_get_entry_def upd_bfce_def s'_def b'_def Let_def)
    moreover have "e \<noteq> 0" using v(6) cache_okD(4) [OF v(4)] by metis
    moreover have "\<nexists>f c. holds s2 f i n c" using v(10) i(3) by blast
    ultimately show ?thesis using fill same_files_trans [OF v(5)] by blast
  qed
qed

lemma find_entry_ok:
  assumes ok: "cache_ok s" and i: "inodes s i = Some nd" "n < nsect nd"
  shows "\<exists>e s' b. find_entry s i (512 * int n) = Some (e, s') \<and> e \<noteq> 0 \<and> cache_ok s' \<and> same_files s s' \<and> holds s' e i n b"
  using ok
proof (rule look_up_cases [of s i n])
  assume "buffer_cache_look_up s i (512 * int n) = Some 0" "\<nexists>e b. holds s e i n b"
  then show ?thesis using get_entry_ok [OF ok i] by (simp add: find_entry_def)
next
  fix e b assume "buffer_cache_look_up s i (512 * int n) = Some e" "e \<noteq> 0" "holds s e i n b"
  then show ?thesis using ok by (auto simp: find_entry_def)
qed

text \<open>The read-ahead past the end of the file does nothing.\<close>

lemma find_entry_past_end:
  assumes ok: "cache_ok s" and i: "inodes s i = Some nd" "nsect nd \<le> n"
  shows "find_entry s i (512 * int n) = Some (0, s)"
  using ok
proof (rule look_up_cases [of s i n])
  assume "buffer_cache_look_up s i (512 * int n) = Some 0"
  then show ?thesis
    using byte_to_sector_ok(1) [OF cache_okD(1) [OF ok] i(1), of n] i(2) by (simp add: find_entry_def buffer_cache_get_entry_def)
next
  fix e b assume "holds s e i n b"
  then have "entry_ok s b" "bfc_inode b = i" "bfc_offset b = 512 * int n"
    using cache_okD(8) [OF ok, of e] by (auto simp: holds_def bfc_key_def)
  then show ?thesis using i by (auto simp: entry_ok_def)
qed

subsection \<open>Reading and writing through the cache\<close>

lemma view_length: "cache_ok s \<Longrightarrow> inodes s i = Some nd \<Longrightarrow> length (sector_view s i n) = 512"
proof (rule look_up_cases [of s i n])
  fix e b assume "cache_ok s" "holds s e i n b"
  then show ?thesis using view_holds [of s e i n b] cache_okD(8) [of s e] by (auto simp: holds_def entry_ok_def)
qed (auto simp: view_disk on_disk_length)

lemma aligned_ofs: "512 * int n smod DISK_SECTOR_SIZE = 0"
  by (simp add: DISK_SECTOR_SIZE_def sdiv_smod_512)

lemma touch_ok:
  assumes "cache_ok s" "e \<in> set (buffer_cache s)" "bfces s e = Some b"
  shows "flags_only s (s\<lparr>bfces := (bfces s)(e \<mapsto> b\<lparr>bfc_accessed := True\<rparr>)\<rparr>)"
  unfolding flags_only_def using cache_okD(7) [OF assms(1)] assms(3)
  by (intro exI [of _ "(bfces s)(e \<mapsto> b\<lparr>bfc_accessed := True\<rparr>)"] exI [of _ "cur_victim s"]) (simp add: forget_def)

lemma buffer_cache_read_ok:
  assumes ok: "cache_ok s" and i: "inodes s i = Some nd" "n < nsect nd" and sz: "sz \<le> 512"
  shows "\<exists>s'. buffer_cache_read s i (512 * int n) sz = Some (Ret (take (nat sz) (sector_view s i n)), s') \<and> cache_ok s' \<and> same_files s s'"
proof -
  obtain e s1 b where e: "find_entry s i (512 * int n) = Some (e, s1)" "e \<noteq> 0" "cache_ok s1" "same_files s s1" "holds s1 e i n b"
    using find_entry_ok [OF ok i] by blast
  have b: "e \<in> set (buffer_cache s1)" "bfces s1 e = Some b" using e(5) by (simp_all add: holds_def)
  have i1: "inodes s1 i = Some nd" using e(4) i(1) by (simp add: same_files_def)
  have v: "bfc_data b = sector_view s i n" using view_holds [OF e(3,5)] e(4) i by (simp add: same_files_def)
  have len: "length (sector_view s i n) = 512" by (rule view_length [OF ok i(1)])
  define s2 where "s2 = s1\<lparr>bfces := (bfces s1)(e \<mapsto> b\<lparr>bfc_accessed := True\<rparr>)\<rparr>"
  have f: "flags_only s1 s2" unfolding s2_def by (rule touch_ok [OF e(3) b])
  note ok2 = flags_only_ok [OF e(3) f]
  have i2: "inodes s2 i = Some nd" using i1 by (simp add: s2_def)
  have next_ofs: "512 * int n + DISK_SECTOR_SIZE = 512 * int (Suc n)" by (simp add: DISK_SECTOR_SIZE_def)
  have fits: "int_fits (512 * int (Suc n))"
    using inodes_okD(2) [OF cache_okD(1) [OF ok] i(1)] i(2) less_nsect [of nd n] by (simp add: inode_ok_def int_fits_def)
  obtain e' s' where s': "find_entry s2 i (512 * int (Suc n)) = Some (e', s')" "cache_ok s'" "same_files s2 s'"
  proof (cases "Suc n < nsect nd")
    case True
    then show ?thesis using find_entry_ok [OF ok2(1) i2 True] that by blast
  next
    case False
    then show ?thesis using find_entry_past_end [OF ok2(1) i2, of "Suc n"] ok2(1) that [of 0 s2] by simp
  qed
  have "copy_out (bfc_data b) 0 (nat sz) = Some (take (nat sz) (sector_view s i n))"
    using sz len v by (simp add: copy_out_def)
  then have "buffer_cache_read s i (512 * int n) sz = Some (Ret (take (nat sz) (sector_view s i n)), s')"
    using e(1,2) b(2) s'(1) fits by (simp add: buffer_cache_read_def aligned_ofs upd_bfce_def s2_def [symmetric] next_ofs Let_def del: of_nat_Suc)
  then show ?thesis using s'(2,3) e(4) ok2(2) same_files_trans by blast
qed

definition wrote :: "fs \<Rightarrow> fs \<Rightarrow> ptr \<Rightarrow> nat \<Rightarrow> u8 list \<Rightarrow> bool" where
  "wrote s s' i n v \<longleftrightarrow> inodes s' = inodes s \<and>
     (\<forall>j nd m. inodes s j = Some nd \<longrightarrow> m < nsect nd \<longrightarrow> sector_view s' j m = (if j = i \<and> m = n then v else sector_view s j m))"

lemma write_entry_ok:
  assumes ok: "cache_ok s" and i: "inodes s i = Some nd" "n < nsect nd" and h: "holds s e i n b" and dat: "length dat = 512"
    and s': "s' = s\<lparr>bfces := (bfces s)(e \<mapsto> b\<lparr>bfc_data := dat, bfc_dirty := True, bfc_accessed := True\<rparr>)\<rparr>"
  shows "cache_ok s'" "wrote s s' i n dat"
proof -
  let ?b = "b\<lparr>bfc_data := dat, bfc_dirty := True, bfc_accessed := True\<rparr>"
  have e: "e \<in> set (buffer_cache s)" "bfces s e = Some b" "bfc_key b = (i, 512 * int n)" using h by (simp_all add: holds_def)
  have eo: "entry_ok s b" using cache_okD(8) [OF ok e(1)] e(2) by auto
  have cong: "entry_ok s' c = entry_ok s c" for c by (rule entry_ok_cong) (simp_all add: s')
  have disk: "on_disk s' = on_disk s" by (rule on_disk_cong) (simp_all add: s')
  show ok': "cache_ok s'"
  proof (rule cache_ok_entry [OF ok e(1), where d = "filesys_disk s" and b = ?b])
    show "entry_ok s' ?b" unfolding cong using eo dat i e(3) by (auto simp: entry_ok_def bfc_key_def)
    show "entry_ok s' c" if "f \<in> set (buffer_cache s)" "f \<noteq> e" "bfces s f = Some c" for f c
      unfolding cong using cache_okD(8) [OF ok that(1)] that(3) by auto
    show "bfc_key c \<noteq> bfc_key ?b" if "f \<in> set (buffer_cache s)" "f \<noteq> e" "bfces s f = Some c" for f c
      using cache_okD(9) [OF ok that(1) e(1)] that e(2) by (auto simp: bfc_key_def)
  qed (use cache_okD(2) [OF ok] in \<open>simp_all add: s'\<close>)
  have h': "holds s' e i n ?b" using e by (simp add: holds_def s' bfc_key_def)
  have other: "holds s' f j m c \<longleftrightarrow> holds s f j m c" if "f \<noteq> e" for f j m c using that by (simp add: holds_def s')
  show "wrote s s' i n dat"
    unfolding wrote_def
  proof (intro conjI allI impI)
    fix j nd' m
    show "sector_view s' j m = (if j = i \<and> m = n then dat else sector_view s j m)"
    proof (cases "j = i \<and> m = n")
      case True
      then show ?thesis using view_holds [OF ok' h'] by simp
    next
      case False
      then have "\<not> holds s' e j m c" "\<not> holds s e j m c" for c using e(2,3) by (auto simp: holds_def s' bfc_key_def)
      then have eq: "holds s' f j m c \<longleftrightarrow> holds s f j m c" for f c by (cases "f = e") (simp_all add: other)
      show ?thesis
      proof (cases "\<exists>f c. holds s f j m c")
        case True
        then obtain f c where "holds s f j m c" by blast
        then show ?thesis using False view_holds [OF ok] view_holds [OF ok'] eq by auto
      qed (use False view_disk [OF ok, of j m] view_disk [OF ok', of j m] eq disk in auto)
    qed
  qed (simp add: s')
qed

lemma wrote_after_same: "same_files s t \<Longrightarrow> wrote t u i n v \<Longrightarrow> wrote s u i n v"
  by (simp add: same_files_def wrote_def)

lemma buffer_cache_write_ok:
  assumes ok: "cache_ok s" and i: "inodes s i = Some nd" "n < nsect nd" and bs: "length bs \<le> 512"
  shows "\<exists>s'. buffer_cache_write s i (512 * int n) bs = Some (Ret (int (length bs)), s') \<and> cache_ok s' \<and>
    wrote s s' i n (bs @ drop (length bs) (sector_view s i n))"
proof -
  obtain e s1 b where e: "find_entry s i (512 * int n) = Some (e, s1)" "e \<noteq> 0" "cache_ok s1" "same_files s s1" "holds s1 e i n b"
    using find_entry_ok [OF ok i] by blast
  have b: "bfces s1 e = Some b" using e(5) by (simp_all add: holds_def)
  have i1: "inodes s1 i = Some nd" using e(4) i(1) by (simp add: same_files_def)
  have v: "bfc_data b = sector_view s i n" using view_holds [OF e(3,5)] e(4) i by (simp add: same_files_def)
  have len: "length (sector_view s i n) = 512" by (rule view_length [OF ok i(1)])
  let ?dat = "bs @ drop (length bs) (sector_view s i n)"
  define s2 where "s2 = s1\<lparr>bfces := (bfces s1)(e \<mapsto> b\<lparr>bfc_data := ?dat, bfc_dirty := True, bfc_accessed := True\<rparr>)\<rparr>"
  have "length ?dat = 512" using len bs by simp
  note w = write_entry_ok [OF e(3) i1 i(2) e(5) this s2_def]
  have "copy_in (bfc_data b) 0 bs = Some ?dat" using bs len v by (simp add: copy_in_def)
  then have "buffer_cache_write s i (512 * int n) bs = Some (Ret (int (length bs)), s2)"
    using e(1,2) b by (simp add: buffer_cache_write_def aligned_ofs upd_bfce_def s2_def Let_def)
  then show ?thesis using w wrote_after_same [OF e(4)] by blast
qed

end
