(* ===== verification/Inode.thy ===== *)
theory Inode
  imports Buf_Cache
begin

section \<open>Inodes and the free map\<close>

text \<open>
  Reading and writing inodes through the buffer cache, the life cycle of inodes, and the free map, which is itself
  kept in a file. A function through which the calling thread may end returns a value of type \<^typ>\<open>'a ret\<close>.
  The theory shows that aligned accesses see every file as an array of bytes.
\<close>

subsection \<open>Reading and writing\<close>

definition and_then :: "('a ret \<times> 's) option \<Rightarrow> ('a \<Rightarrow> 's \<Rightarrow> ('b ret \<times> 's) option) \<Rightarrow> ('b ret \<times> 's) option" where
  "and_then r f = do { (x, s) \<leftarrow> r; case x of Ret a \<Rightarrow> f a s | Exits \<Rightarrow> Some (Exits, s) }"

lemma and_then_simps [simp]:
  "and_then (Some (Ret a, s)) f = f a s" "and_then (Some (Exits, s)) f = Some (Exits, s)" "and_then None f = None"
  by (simp_all add: and_then_def)

text \<open>The bytes to copy in one step of the loops of \<^verbatim>\<open>inode_read_at\<close> and \<^verbatim>\<open>inode_write_at\<close>.\<close>

definition chunk_size :: "fs \<Rightarrow> ptr \<Rightarrow> int \<Rightarrow> int \<Rightarrow> int option" where
  "chunk_size s i sz offset = do {
     _ \<leftarrow> byte_to_sector s i offset;
     let sector_ofs = offset smod DISK_SECTOR_SIZE;
     len \<leftarrow> inode_length s i;
     kassert (int_fits (len - offset));
     let inode_left = len - offset;
     let sector_left = DISK_SECTOR_SIZE - sector_ofs;
     let min_left = (if inode_left < sector_left then inode_left else sector_left);
     Some (if sz < min_left then sz else min_left)
   }"

function inode_read_loop :: "ptr \<Rightarrow> int \<Rightarrow> int \<Rightarrow> fs \<Rightarrow> (u8 list ret \<times> fs) option" where
  "inode_read_loop i sz offset s =
    (if sz > 0 then do {
       chunk \<leftarrow> chunk_size s i sz offset;
       if chunk \<le> 0 then Some (Ret [], s)
       else and_then (buffer_cache_read s i offset chunk) (\<lambda>bs s. do {
         kassert (int_fits (offset + chunk));
         and_then (inode_read_loop i (sz - chunk) (offset + chunk) s) (\<lambda>r s. Some (Ret (bs @ r), s))
       })
     }
     else Some (Ret [], s))"
  by pat_completeness auto
termination by (relation "measure (\<lambda>(i, sz, offset, s). nat sz)") auto

declare inode_read_loop.simps [simp del]

definition inode_read_at :: "fs \<Rightarrow> ptr \<Rightarrow> int \<Rightarrow> int \<Rightarrow> (u8 list ret \<times> fs) option" where
  "inode_read_at s i sz offset = inode_read_loop i sz offset s"

text \<open>The result is the number of bytes written.\<close>

function inode_write_loop :: "ptr \<Rightarrow> u8 list \<Rightarrow> int \<Rightarrow> fs \<Rightarrow> (int ret \<times> fs) option" where
  "inode_write_loop i bs offset s =
    (if bs \<noteq> [] then do {
       chunk \<leftarrow> chunk_size s i (int (length bs)) offset;
       if chunk \<le> 0 then Some (Ret 0, s)
       else and_then (buffer_cache_write s i offset (take (nat chunk) bs)) (\<lambda>_ s. do {
         kassert (int_fits (offset + chunk));
         and_then (inode_write_loop i (drop (nat chunk) bs) (offset + chunk) s) (\<lambda>k s. Some (Ret (chunk + k), s))
       })
     }
     else Some (Ret 0, s))"
  by pat_completeness auto
termination by (relation "measure (\<lambda>(i, bs, offset, s). length bs)") auto

declare inode_write_loop.simps [simp del]

definition inode_write_at :: "fs \<Rightarrow> ptr \<Rightarrow> u8 list \<Rightarrow> int \<Rightarrow> (int ret \<times> fs) option" where
  "inode_write_at s i bs offset = do {
     nd \<leftarrow> inodes s i;
     if deny_write_cnt nd \<noteq> 0 then Some (Ret 0, s) else inode_write_loop i bs offset s
   }"

subsection \<open>The free map\<close>

definition file_read_at :: "fs \<Rightarrow> ptr \<Rightarrow> int \<Rightarrow> int \<Rightarrow> (u8 list ret \<times> fs) option" where
  "file_read_at s f sz file_ofs = do { fl \<leftarrow> files s f; inode_read_at s (f_inode fl) sz file_ofs }"

definition file_write_at :: "fs \<Rightarrow> ptr \<Rightarrow> u8 list \<Rightarrow> int \<Rightarrow> (int ret \<times> fs) option" where
  "file_write_at s f bs file_ofs = do { fl \<leftarrow> files s f; inode_write_at s (f_inode fl) bs file_ofs }"

text \<open>The bytes of a 32-bit word in memory, the least significant first.\<close>

definition word_bytes :: "u32 \<Rightarrow> u8 list" where
  "word_bytes w = [ucast w, ucast (drop_bit 8 w), ucast (drop_bit 16 w), ucast (drop_bit 24 w)]"

definition word_of :: "u8 list \<Rightarrow> u32" where
  "word_of bs = ucast (bs ! 0) OR push_bit 8 (ucast (bs ! 1)) OR push_bit 16 (ucast (bs ! 2)) OR push_bit 24 (ucast (bs ! 3))"

definition bitmap_file_size :: "bitmap \<Rightarrow> size_t" where
  "bitmap_file_size b = byte_cnt (bit_cnt b)"

definition bitmap_bytes :: "bitmap \<Rightarrow> u8 list" where
  "bitmap_bytes b = concat (map word_bytes (take (unat (elem_cnt (bit_cnt b))) (bits b)))"

primrec words_of :: "nat \<Rightarrow> u8 list \<Rightarrow> u32 list" where
  "words_of 0 bs = []"
| "words_of (Suc n) bs = word_of bs # words_of n (drop 4 bs)"

text \<open>
  A short read leaves the rest of the elements as they are. The last element is masked in any case.
\<close>

definition bitmap_read :: "bitmap \<Rightarrow> fs \<Rightarrow> ptr \<Rightarrow> ((bool \<times> bitmap) ret \<times> fs) option" where
  "bitmap_read b s f =
    (if bit_cnt b > 0
     then and_then (file_read_at s f (sint (byte_cnt (bit_cnt b))) 0) (\<lambda>bs s. do {
       let success = (int (length bs) = sint (byte_cnt (bit_cnt b)));
       let b = b\<lparr>bits := words_of (unat (elem_cnt (bit_cnt b))) (bs @ drop (length bs) (bitmap_bytes b))\<rparr>;
       b \<leftarrow> upd_elem b (elem_cnt (bit_cnt b) - 1) (\<lambda>e. e AND last_mask b);
       Some (Ret (success, b), s)
     })
     else Some (Ret (True, b), s))"

definition bitmap_write :: "bitmap \<Rightarrow> fs \<Rightarrow> ptr \<Rightarrow> (bool ret \<times> fs) option" where
  "bitmap_write b s f =
    and_then (file_write_at s f (bitmap_bytes b) 0) (\<lambda>k s. Some (Ret (k = sint (byte_cnt (bit_cnt b))), s))"

definition free_map_allocate :: "fs \<Rightarrow> size_t \<Rightarrow> (u32 option ret \<times> fs) option" where
  "free_map_allocate s cnt = do {
     (sector, fm) \<leftarrow> bitmap_scan_and_flip (free_map s) 0 cnt False;
     let s = s\<lparr>free_map := fm\<rparr>;
     if sector = BITMAP_ERROR then Some (Ret None, s)
     else if free_map_file s = 0 then Some (Ret (Some sector), s)
     else and_then (bitmap_write fm s (free_map_file s)) (\<lambda>ok s.
       if ok then Some (Ret (Some sector), s)
       else do {
         fm \<leftarrow> bitmap_set_multiple (free_map s) sector cnt False;
         Some (Ret None, s\<lparr>free_map := fm\<rparr>)
       })
   }"

definition free_map_release :: "fs \<Rightarrow> u32 \<Rightarrow> size_t \<Rightarrow> (unit ret \<times> fs) option" where
  "free_map_release s sector cnt = do {
     a \<leftarrow> bitmap_all (free_map s) sector cnt;
     kassert a;
     fm \<leftarrow> bitmap_set_multiple (free_map s) sector cnt False;
     let s = s\<lparr>free_map := fm\<rparr>;
     and_then (bitmap_write fm s (free_map_file s)) (\<lambda>_ s. Some (Ret (), s))
   }"

subsection \<open>The life of an inode\<close>

definition INODE_MAGIC :: u32 where "INODE_MAGIC = 0x494e4f44"

text \<open>The on-disk inode fills a sector; the part that is not used is zero.\<close>

definition inode_disk_bytes :: "inode_disk \<Rightarrow> u8 list" where
  "inode_disk_bytes d = word_bytes (id_start d) @ word_bytes (of_int (id_length d)) @ word_bytes (id_magic d) @ replicate 500 0"

definition inode_disk_of :: "u8 list \<Rightarrow> inode_disk" where
  "inode_disk_of bs = \<lparr>id_start = word_of bs, id_length = sint (word_of (drop 4 bs)), id_magic = word_of (drop 8 bs)\<rparr>"

definition upd_inode :: "fs \<Rightarrow> ptr \<Rightarrow> (inode \<Rightarrow> inode) \<Rightarrow> fs option" where
  "upd_inode s i f = do { nd \<leftarrow> inodes s i; Some (s\<lparr>inodes := (inodes s)(i \<mapsto> f nd)\<rparr>) }"

definition inode_init :: "fs \<Rightarrow> fs" where
  "inode_init s = s\<lparr>open_inodes := []\<rparr>"

primrec zero_sectors :: "u32 \<Rightarrow> nat \<Rightarrow> fs \<Rightarrow> fs option" where
  "zero_sectors sec 0 s = Some s"
| "zero_sectors sec (Suc n) s = do { s \<leftarrow> disk_write s sec (replicate 512 0); zero_sectors (sec + 1) n s }"

definition inode_create :: "fs \<Rightarrow> u32 \<Rightarrow> int \<Rightarrow> (bool ret \<times> fs) option" where
  "inode_create s sector len = do {
     kassert (len \<ge> 0);
     let (p, s) = fs_malloc s;
     if p = 0 then Some (Ret False, s)
     else do {
       let sectors = bytes_to_sectors len;
       and_then (free_map_allocate s sectors) (\<lambda>r s. case r of
           None \<Rightarrow> Some (Ret False, s)
         | Some start \<Rightarrow> do {
             s \<leftarrow> disk_write s sector (inode_disk_bytes \<lparr>id_start = start, id_length = len, id_magic = INODE_MAGIC\<rparr>);
             s \<leftarrow> zero_sectors start (unat sectors) s;
             Some (Ret True, s)
           })
     }
   }"

definition inode_reopen :: "fs \<Rightarrow> ptr \<Rightarrow> (ptr \<times> fs) option" where
  "inode_reopen s i =
    (if i \<noteq> 0 then map_option (\<lambda>s. (i, s)) (upd_inode s i (\<lambda>nd. nd\<lparr>open_cnt := open_cnt nd + 1\<rparr>)) else Some (i, s))"

primrec find_open :: "(ptr \<Rightarrow> inode option) \<Rightarrow> u32 \<Rightarrow> ptr list \<Rightarrow> ptr option option" where
  "find_open m sector [] = Some None"
| "find_open m sector (i # is) = do {
     nd \<leftarrow> m i;
     if nd_sector nd = sector then Some (Some i) else find_open m sector is
   }"

definition inode_open :: "fs \<Rightarrow> u32 \<Rightarrow> (ptr \<times> fs) option" where
  "inode_open s sector = do {
     r \<leftarrow> find_open (inodes s) sector (open_inodes s);
     case r of
       Some i \<Rightarrow> inode_reopen s i
     | None \<Rightarrow> do {
         let (i, s) = fs_malloc s;
         if i = 0 then Some (0, s)
         else do {
           let s = s\<lparr>open_inodes := i # open_inodes s\<rparr>;
           (bs, s) \<leftarrow> disk_read s sector;
           Some (i, s\<lparr>inodes := (inodes s)(i \<mapsto> \<lparr>nd_sector = sector, open_cnt = 1, removed = False, deny_write_cnt = 0,
             nd_data = inode_disk_of bs\<rparr>)\<rparr>)
         }
       }
   }"

definition inode_get_inumber :: "fs \<Rightarrow> ptr \<Rightarrow> u32 option" where
  "inode_get_inumber s i = map_option nd_sector (inodes s i)"

definition inode_close :: "fs \<Rightarrow> ptr \<Rightarrow> (unit ret \<times> fs) option" where
  "inode_close s i =
    (if i = 0 then Some (Ret (), s)
     else do {
       s \<leftarrow> upd_inode s i (\<lambda>nd. nd\<lparr>open_cnt := open_cnt nd - 1\<rparr>);
       nd \<leftarrow> inodes s i;
       if open_cnt nd \<noteq> 0 then Some (Ret (), s)
       else do {
         s \<leftarrow> buffer_cache_write_behind_inode s i;
         let s = s\<lparr>open_inodes := remove1 i (open_inodes s)\<rparr>;
         and_then
           (if removed nd
            then and_then (free_map_release s (nd_sector nd) 1) (\<lambda>_ s.
              free_map_release s (id_start (nd_data nd)) (bytes_to_sectors (id_length (nd_data nd))))
            else Some (Ret (), s))
           (\<lambda>_ s. Some (Ret (), s\<lparr>inodes := (inodes s)(i := None)\<rparr>))
       }
     })"

definition inode_remove :: "fs \<Rightarrow> ptr \<Rightarrow> fs option" where
  "inode_remove s i = do { kassert (i \<noteq> 0); upd_inode s i (\<lambda>nd. nd\<lparr>removed := True\<rparr>) }"

definition inode_deny_write :: "fs \<Rightarrow> ptr \<Rightarrow> fs option" where
  "inode_deny_write s i = do {
     s \<leftarrow> upd_inode s i (\<lambda>nd. nd\<lparr>deny_write_cnt := deny_write_cnt nd + 1\<rparr>);
     nd \<leftarrow> inodes s i;
     kassert (deny_write_cnt nd \<le> open_cnt nd);
     Some s
   }"

definition inode_allow_write :: "fs \<Rightarrow> ptr \<Rightarrow> fs option" where
  "inode_allow_write s i = do {
     nd \<leftarrow> inodes s i;
     kassert (deny_write_cnt nd > 0);
     kassert (deny_write_cnt nd \<le> open_cnt nd);
     upd_inode s i (\<lambda>nd. nd\<lparr>deny_write_cnt := deny_write_cnt nd - 1\<rparr>)
   }"

lemma word_of_bytes: "word_of (word_bytes w @ bs) = w"
proof (rule bit_word_eqI)
  fix n assume n: "n < LENGTH(32)"
  consider "n < 8" | "8 \<le> n" "n < 16" | "16 \<le> n" "n < 24" | "24 \<le> n" by linarith
  then show "bit (word_of (word_bytes w @ bs)) n \<longleftrightarrow> bit w n"
    by cases (use n in \<open>auto simp: word_of_def word_bytes_def bit_simps\<close>)
qed

lemma length_word_bytes [simp]: "length (word_bytes w) = 4"
  by (simp add: word_bytes_def)

lemma sint_of_int_fits: "int_fits i \<Longrightarrow> sint (of_int i :: u32) = i"
  by (simp add: int_fits_def signed_of_int signed_take_bit_int_eq_self)

subsection \<open>Files as arrays of bytes\<close>

lemma length_concat_512: "(\<And>k. k \<in> set ks \<Longrightarrow> length (f k) = 512) \<Longrightarrow> length (concat (map f ks)) = 512 * length ks"
  by (induction ks) simp_all

lemma drop_concat_512:
  assumes "n < k" "\<And>m. m < k \<Longrightarrow> length (f m) = 512"
  shows "drop (512 * n) (concat (map f [0..<k])) = f n @ drop (512 * Suc n) (concat (map f [0..<k]))"
proof -
  have "[0..<k] = [0..<n] @ n # [Suc n..<k]" using assms(1) upt_add_eq_append [of 0 n "k - n"] upt_conv_Cons [of n k] by simp
  then have "concat (map f [0..<k]) = concat (map f [0..<n]) @ f n @ concat (map f [Suc n..<k])" by simp
  moreover have "length (concat (map f [0..<n])) = 512 * n" "length (f n) = 512"
    using length_concat_512 [of "[0..<n]" f] assms by simp_all
  ultimately show ?thesis by simp
qed

lemma concat_upd_512:
  assumes "n < k" "\<And>m. m < k \<Longrightarrow> length (f m) = 512" "length v = 512"
  shows "concat (map (\<lambda>m. if m = n then v else f m) [0..<k]) =
    take (512 * n) (concat (map f [0..<k])) @ v @ drop (512 * Suc n) (concat (map f [0..<k]))"
proof -
  have eq: "[0..<k] = [0..<n] @ n # [Suc n..<k]" using assms(1) upt_add_eq_append [of 0 n "k - n"] upt_conv_Cons [of n k] by simp
  have "length (concat (map f [0..<n])) = 512 * n" "length (f n) = 512"
    using length_concat_512 [of "[0..<n]" f] assms by simp_all
  moreover have same: "map (\<lambda>m. if m = n then v else f m) [0..<n] = map f [0..<n]"
    "map (\<lambda>m. if m = n then v else f m) [Suc n..<k] = map f [Suc n..<k]" by simp_all
  ultimately show ?thesis unfolding eq by (simp add: same del: map_eq_conv)
qed

definition spec_read :: "u8 list \<Rightarrow> int \<Rightarrow> int \<Rightarrow> u8 list" where
  "spec_read c sz ofs = take (nat sz) (drop (nat ofs) c)"

definition spec_write :: "u8 list \<Rightarrow> u8 list \<Rightarrow> int \<Rightarrow> u8 list" where
  "spec_write c bs ofs = take (nat ofs) c @ take (length c - nat ofs) bs @ drop (nat ofs + length bs) c"

lemma length_spec_write [simp]: "length (spec_write c bs ofs) = length c"
  by (auto simp: spec_write_def)

lemma spec_write_append:
  assumes "nat ofs + length bs \<le> length c" "0 \<le> ofs"
  shows "spec_write (spec_write c bs ofs) bs' (ofs + int (length bs)) = spec_write c (bs @ bs') ofs"
proof -
  have "nat (ofs + int (length bs)) = nat ofs + length bs" using assms(2) by (simp add: nat_add_distrib)
  then show ?thesis using assms by (simp add: spec_write_def add_ac)
qed

lemma length_views: "cache_ok s \<Longrightarrow> inodes s i = Some nd \<Longrightarrow> length (concat (map (sector_view s i) [0..<nsect nd])) = 512 * nsect nd"
  using length_concat_512 [of "[0..<nsect nd]" "sector_view s i"] view_length by simp

lemma nsect_covers: "0 \<le> id_length (nd_data nd) \<Longrightarrow> nat (id_length (nd_data nd)) \<le> 512 * nsect nd"
  unfolding nsect_def by linarith

lemma length_file_bytes: "cache_ok s \<Longrightarrow> inodes s i = Some nd \<Longrightarrow> length (file_bytes s i) = nat (id_length (nd_data nd))"
  using length_views [of s i nd] nsect_covers [of nd] inodes_okD(2) [OF cache_okD(1), of s i nd]
  by (simp add: file_bytes_def inode_ok_def)

lemma inode_len:
  assumes "cache_ok s" "inodes s i = Some nd"
  shows "0 \<le> id_length (nd_data nd)" "id_length (nd_data nd) \<le> 2 ^ 31 - 1024"
  using inodes_okD(2) [OF cache_okD(1) [OF assms(1)] assms(2)] by (simp_all add: inode_ok_def)

lemma chunk_size_ok:
  assumes ok: "cache_ok s" and i: "inodes s i = Some nd" and ofs: "0 \<le> ofs" "ofs < 2 ^ 31"
  shows "chunk_size s i sz ofs = Some (min sz (min (id_length (nd_data nd) - ofs) (512 - ofs mod 512)))"
proof -
  have "byte_to_sector s i ofs \<noteq> None" using i inodes_okD(1) [OF cache_okD(1) [OF ok] i] by (simp add: byte_to_sector_def)
  then obtain w where "byte_to_sector s i ofs = Some w" by blast
  then show ?thesis
    using i ofs inode_len [OF ok i]
    by (simp add: chunk_size_def inode_length_def DISK_SECTOR_SIZE_def sdiv_smod_512 int_fits_def Let_def min_def)
qed

text \<open>The bytes of a file from the start of a sector.\<close>

lemma file_bytes_sector:
  assumes ok: "cache_ok s" and i: "inodes s i = Some nd" "n < nsect nd"
  shows "take k (drop (512 * n) (file_bytes s i)) =
    take (min k (nat (id_length (nd_data nd)) - 512 * n)) (sector_view s i n) @ take (k - 512) (drop (512 * Suc n) (file_bytes s i))"
proof -
  let ?V = "concat (map (sector_view s i) [0..<nsect nd])" and ?len = "nat (id_length (nd_data nd))"
  have d: "drop (512 * n) ?V = sector_view s i n @ drop (512 * Suc n) ?V"
    using drop_concat_512 [OF i(2), of "sector_view s i"] view_length [OF ok i(1)] by blast
  have l: "length (sector_view s i n) = 512" by (rule view_length [OF ok i(1)])
  have a: "min k (?len - 512 * n) - 512 = min (k - 512) (?len - 512 * Suc n)" by (simp add: min_def) arith
  have "take k (drop (512 * n) (take ?len ?V)) = take (min k (?len - 512 * n)) (sector_view s i n @ drop (512 * Suc n) ?V)"
    unfolding drop_take d take_take ..
  also have "\<dots> = take (min k (?len - 512 * n)) (sector_view s i n) @ take (min (k - 512) (?len - 512 * Suc n)) (drop (512 * Suc n) ?V)"
    unfolding take_append l a ..
  also have "take (min (k - 512) (?len - 512 * Suc n)) (drop (512 * Suc n) ?V) = take (k - 512) (drop (512 * Suc n) (take ?len ?V))"
    unfolding drop_take take_take ..
  finally show ?thesis using i(1) by (simp add: file_bytes_def)
qed

lemma read_nothing: "sz \<le> 0 \<Longrightarrow> inode_read_loop i sz ofs s = Some (Ret [], s)"
  by (simp add: inode_read_loop.simps)

lemma read_past_end:
  assumes "cache_ok s" "inodes s i = Some nd" "0 \<le> ofs" "ofs < 2 ^ 31" "id_length (nd_data nd) \<le> ofs"
  shows "inode_read_loop i sz ofs s = Some (Ret [], s)"
  using chunk_size_ok [OF assms(1-4), of sz] assms(5) by (subst inode_read_loop.simps) simp

lemma inode_read_loop_ok:
  "cache_ok s \<Longrightarrow> inodes s i = Some nd \<Longrightarrow> sz < 2 ^ 31 \<Longrightarrow> 512 * int n < 2 ^ 31 \<Longrightarrow>
    \<exists>s'. inode_read_loop i sz (512 * int n) s = Some (Ret (spec_read (file_bytes s i) sz (512 * int n)), s') \<and> cache_ok s' \<and> same_files s s'"
proof (induction "nat sz" arbitrary: sz n s rule: less_induct)
  case less
  note ok = less.prems(1) and i = less.prems(2)
  let ?len = "id_length (nd_data nd)"
  have len: "0 \<le> ?len" "?len \<le> 2 ^ 31 - 1024" by (rule inode_len [OF ok i])+
  have sr: "spec_read c sz (512 * int n) = take (nat sz) (drop (512 * n) c)" for c
    by (simp add: spec_read_def nat_mult_distrib)
  consider "sz \<le> 0" | "?len \<le> 512 * int n" | (step) "0 < sz" "512 * int n < ?len" by linarith
  then show ?case
  proof cases
    case 1
    then show ?thesis using ok by (simp add: read_nothing spec_read_def)
  next
    case 2
    then show ?thesis using read_past_end [OF ok i _ less.prems(4) 2] ok length_file_bytes [OF ok i] unfolding sr by simp
  next
    case step
    define chunk where "chunk = min sz (min (?len - 512 * int n) 512)"
    have c: "0 < chunk" "chunk \<le> 512" "chunk \<le> sz" "chunk \<le> ?len - 512 * int n" using step by (auto simp: chunk_def)
    have cs: "chunk_size s i sz (512 * int n) = Some chunk"
      using chunk_size_ok [OF ok i _ less.prems(4), of sz] by (simp add: chunk_def)
    have n: "n < nsect nd" using less_nsect [OF len(1)] step(2) by simp
    obtain s1 where r: "buffer_cache_read s i (512 * int n) chunk = Some (Ret (take (nat chunk) (sector_view s i n)), s1)"
      "cache_ok s1" "same_files s s1"
      using buffer_cache_read_ok [OF ok i n c(2)] by blast
    have i1: "inodes s1 i = Some nd" using r(3) i by (simp add: same_files_def)
    have fits: "int_fits (512 * int n + chunk)" "512 * int n + chunk < 2 ^ 31" using c(1,4) len by (simp_all add: int_fits_def)
    have bytes: "file_bytes s1 i = file_bytes s i" by (rule same_files_bytes [OF r(3)])
    have "\<exists>s2. inode_read_loop i (sz - chunk) (512 * int n + chunk) s1 =
        Some (Ret (take (nat sz - 512) (drop (512 * Suc n) (file_bytes s i))), s2) \<and> cache_ok s2 \<and> same_files s1 s2"
    proof (cases "chunk = 512")
      case True
      have "\<exists>s2. inode_read_loop i (sz - chunk) (512 * int (Suc n)) s1 =
          Some (Ret (spec_read (file_bytes s1 i) (sz - chunk) (512 * int (Suc n))), s2) \<and> cache_ok s2 \<and> same_files s1 s2"
        by (rule less.hyps) (use c less.prems(3) r(2) i1 fits(2) True in \<open>simp_all\<close>)
      moreover have "512 * int n + chunk = 512 * int (Suc n)" "nat (sz - chunk) = nat sz - 512" using True c(3) by simp_all
      moreover have "nat (512 * int (Suc n)) = 512 * Suc n" by (simp add: nat_mult_distrib del: of_nat_Suc)
      ultimately show ?thesis by (simp only: spec_read_def bytes)
    next
      case False
      then have l: "chunk < 512" "chunk = sz \<or> 512 * int n + chunk = ?len" using c(2) by (auto simp: chunk_def min_def split: if_splits)
      then have "inode_read_loop i (sz - chunk) (512 * int n + chunk) s1 = Some (Ret [], s1)"
        using read_nothing [of "sz - chunk"] read_past_end [OF r(2) i1 _ fits(2)] c(1) by auto
      moreover have "take (nat sz - 512) (drop (512 * Suc n) (file_bytes s i)) = []"
        using l len(1) length_file_bytes [OF ok i] by auto
      ultimately show ?thesis using r(2) by auto
    qed
    then obtain s2 where s2: "inode_read_loop i (sz - chunk) (512 * int n + chunk) s1 =
        Some (Ret (take (nat sz - 512) (drop (512 * Suc n) (file_bytes s i))), s2)" "cache_ok s2" "same_files s1 s2" by blast
    have "take (nat chunk) (sector_view s i n) = take (min (nat sz) (nat ?len - 512 * n)) (sector_view s i n)"
      using view_length [OF ok i, of n] step by (auto simp: chunk_def min_def nat_diff_distrib nat_mult_distrib)
    then have "inode_read_loop i sz (512 * int n) s = Some (Ret (spec_read (file_bytes s i) sz (512 * int n)), s2)"
      using cs c(1) step(1) r(1) s2(1) fits(1) file_bytes_sector [OF ok i n, of "nat sz"]
      by (subst inode_read_loop.simps) (simp add: sr)
    then show ?thesis using s2(2,3) r(3) same_files_trans by blast
  qed
qed

lemma wrote_bytes:
  assumes ok: "cache_ok s" "cache_ok s'" and i: "inodes s i = Some nd" "n < nsect nd"
    and bs: "length bs \<le> 512" "512 * int n + int (length bs) \<le> id_length (nd_data nd)"
    and w: "wrote s s' i n (bs @ drop (length bs) (sector_view s i n))"
  shows "file_bytes s' i = spec_write (file_bytes s i) bs (512 * int n)" "j \<noteq> i \<Longrightarrow> file_bytes s' j = file_bytes s j"
proof -
  let ?V = "concat (map (sector_view s i) [0..<nsect nd])" and ?len = "nat (id_length (nd_data nd))"
    and ?v = "bs @ drop (length bs) (sector_view s i n)"
  have l: "length (sector_view s i m) = 512" for m by (rule view_length [OF ok(1) i(1)])
  have V: "?len \<le> length ?V" using length_views [OF ok(1) i(1)] nsect_covers inode_len [OF ok(1) i(1)] by simp
  have pos: "512 * n + length bs \<le> ?len" using bs(2) by simp
  have m: "map (sector_view s' i) [0..<nsect nd] = map (\<lambda>m. if m = n then ?v else sector_view s i m) [0..<nsect nd]"
    using w i(1) by (simp add: wrote_def)
  have "concat (map (sector_view s' i) [0..<nsect nd]) = take (512 * n) ?V @ ?v @ drop (512 * Suc n) ?V"
    unfolding m by (rule concat_upd_512 [OF i(2)]) (use l bs(1) in simp_all)
  also have "\<dots> = take (512 * n) ?V @ bs @ drop (length bs) (drop (512 * n) ?V)"
    unfolding drop_concat_512 [OF i(2), of "sector_view s i", OF l] using l bs(1) by simp
  finally have "concat (map (sector_view s' i) [0..<nsect nd]) = take (512 * n) ?V @ bs @ drop (512 * n + length bs) ?V"
    by (simp add: add.commute)
  moreover have "inodes s' i = Some nd" using w i(1) by (simp add: wrote_def)
  moreover have "nat (512 * int n) = 512 * n" by simp
  ultimately show "file_bytes s' i = spec_write (file_bytes s i) bs (512 * int n)"
    using i(1) pos V by (simp add: file_bytes_def spec_write_def drop_take)
  assume "j \<noteq> i"
  moreover have "inodes s' = inodes s" using w by (simp add: wrote_def)
  ultimately show "file_bytes s' j = file_bytes s j"
    using w by (cases "inodes s j") (auto simp: file_bytes_def wrote_def intro!: arg_cong [of _ _ concat] arg_cong [of _ _ "take _"])
qed

lemma write_nothing: "inode_write_loop i [] ofs s = Some (Ret 0, s)"
  by (simp add: inode_write_loop.simps)

lemma write_past_end:
  assumes "cache_ok s" "inodes s i = Some nd" "0 \<le> ofs" "ofs < 2 ^ 31" "id_length (nd_data nd) \<le> ofs"
  shows "inode_write_loop i bs ofs s = Some (Ret 0, s)"
  using chunk_size_ok [OF assms(1-4), of "int (length bs)"] assms(5) by (subst inode_write_loop.simps) simp

definition other_files :: "fs \<Rightarrow> fs \<Rightarrow> ptr \<Rightarrow> bool" where
  "other_files s s' i \<longleftrightarrow> inodes s' = inodes s \<and> (\<forall>j. j \<noteq> i \<longrightarrow> file_bytes s' j = file_bytes s j)"

lemma other_files_trans: "other_files s t i \<Longrightarrow> other_files t u i \<Longrightarrow> other_files s u i"
  by (simp add: other_files_def)

lemma inode_write_loop_ok:
  "cache_ok s \<Longrightarrow> inodes s i = Some nd \<Longrightarrow> length bs < 2 ^ 31 \<Longrightarrow> 512 * int n < 2 ^ 31 \<Longrightarrow>
    \<exists>s'. inode_write_loop i bs (512 * int n) s =
        Some (Ret (min (int (length bs)) (max 0 (id_length (nd_data nd) - 512 * int n))), s') \<and> cache_ok s' \<and>
      file_bytes s' i = spec_write (file_bytes s i) bs (512 * int n) \<and> other_files s s' i"
proof (induction "length bs" arbitrary: bs n s rule: less_induct)
  case less
  note ok = less.prems(1) and i = less.prems(2)
  let ?len = "id_length (nd_data nd)"
  have len: "0 \<le> ?len" "?len \<le> 2 ^ 31 - 1024" by (rule inode_len [OF ok i])+
  have lb: "length (file_bytes s i) = nat ?len" by (rule length_file_bytes [OF ok i])
  consider "bs = []" | "?len \<le> 512 * int n" | (step) "bs \<noteq> []" "512 * int n < ?len" by linarith
  then show ?case
  proof cases
    case 1
    then show ?thesis using ok by (simp add: write_nothing spec_write_def other_files_def)
  next
    case 2
    then show ?thesis using write_past_end [OF ok i _ less.prems(4) 2] ok lb by (simp add: spec_write_def other_files_def)
  next
    case step
    define chunk where "chunk = min (int (length bs)) (min (?len - 512 * int n) 512)"
    define cbs where "cbs = take (nat chunk) bs"
    have c: "0 < chunk" "chunk \<le> 512" "chunk \<le> int (length bs)" "chunk \<le> ?len - 512 * int n" using step by (auto simp: chunk_def)
    have lc: "int (length cbs) = chunk" "nat chunk = length cbs" using c by (simp_all add: cbs_def)
    have cs: "chunk_size s i (int (length bs)) (512 * int n) = Some chunk"
      using chunk_size_ok [OF ok i _ less.prems(4), of "int (length bs)"] by (simp add: chunk_def)
    have n: "n < nsect nd" using less_nsect [OF len(1)] step(2) by simp
    obtain s1 where r: "buffer_cache_write s i (512 * int n) cbs = Some (Ret (int (length cbs)), s1)" "cache_ok s1"
      "wrote s s1 i n (cbs @ drop (length cbs) (sector_view s i n))"
      using buffer_cache_write_ok [OF ok i n, of cbs] c(2) lc by auto
    have b1: "file_bytes s1 i = spec_write (file_bytes s i) cbs (512 * int n)" "other_files s s1 i"
      using wrote_bytes [OF ok r(2) i n _ _ r(3)] c(2,4) lc r(3) by (auto simp: other_files_def wrote_def)
    have i1: "inodes s1 i = Some nd" using b1(2) i by (simp add: other_files_def)
    have fits: "int_fits (512 * int n + chunk)" "512 * int n + chunk < 2 ^ 31" using c(1,4) len by (simp_all add: int_fits_def)
    have app: "spec_write (spec_write (file_bytes s i) cbs (512 * int n)) (drop (nat chunk) bs) (512 * int n + chunk) =
        spec_write (file_bytes s i) bs (512 * int n)"
      using spec_write_append [of "512 * int n" cbs "file_bytes s i" "drop (nat chunk) bs"] lb c(4) lc(1) by (simp add: cbs_def)
    define k where "k = min (int (length bs) - chunk) (max 0 (?len - (512 * int n + chunk)))"
    have "\<exists>s2. inode_write_loop i (drop (nat chunk) bs) (512 * int n + chunk) s1 = Some (Ret k, s2) \<and> cache_ok s2 \<and>
        file_bytes s2 i = spec_write (file_bytes s1 i) (drop (nat chunk) bs) (512 * int n + chunk) \<and> other_files s1 s2 i"
    proof (cases "chunk = 512")
      case True
      have "\<exists>s2. inode_write_loop i (drop (nat chunk) bs) (512 * int (Suc n)) s1 =
          Some (Ret (min (int (length (drop (nat chunk) bs))) (max 0 (?len - 512 * int (Suc n)))), s2) \<and> cache_ok s2 \<and>
          file_bytes s2 i = spec_write (file_bytes s1 i) (drop (nat chunk) bs) (512 * int (Suc n)) \<and> other_files s1 s2 i"
        by (rule less.hyps) (use c less.prems(3) r(2) i1 fits(2) True in \<open>simp_all\<close>)
      moreover have "512 * int n + chunk = 512 * int (Suc n)" "int (length (drop (nat chunk) bs)) = int (length bs) - chunk"
        using True c(3) by simp_all
      ultimately show ?thesis unfolding k_def by (simp only:)
    next
      case False
      then have l: "chunk = int (length bs) \<or> 512 * int n + chunk = ?len" using c(2) by (auto simp: chunk_def min_def split: if_splits)
      then have "inode_write_loop i (drop (nat chunk) bs) (512 * int n + chunk) s1 = Some (Ret k, s1)"
        using write_nothing write_past_end [OF r(2) i1 _ fits(2)] c(1,3) by (auto simp: k_def)
      moreover have "spec_write c (drop (nat chunk) bs) (512 * int n + chunk) = c" if "length c = nat ?len" for c
        using l that by (auto simp: spec_write_def)
      ultimately show ?thesis using r(2) length_file_bytes [OF r(2) i1] by (auto simp: other_files_def)
    qed
    then obtain s2 where s2: "inode_write_loop i (drop (nat chunk) bs) (512 * int n + chunk) s1 = Some (Ret k, s2)" "cache_ok s2"
      "file_bytes s2 i = spec_write (file_bytes s1 i) (drop (nat chunk) bs) (512 * int n + chunk)" "other_files s1 s2 i" by blast
    have "chunk + k = min (int (length bs)) (max 0 (?len - 512 * int n))" using c(1,3,4) by (simp add: k_def min_def max_def)
    then have "inode_write_loop i bs (512 * int n) s = Some (Ret (min (int (length bs)) (max 0 (?len - 512 * int n))), s2)"
      using cs c(1) step(1) r(1) s2(1) fits(1) by (subst inode_write_loop.simps) (simp add: cbs_def [symmetric])
    moreover have "file_bytes s2 i = spec_write (file_bytes s i) bs (512 * int n)" using s2(3) unfolding b1(1) app .
    ultimately show ?thesis using s2(2) other_files_trans [OF b1(2) s2(4)] by blast
  qed
qed

subsection \<open>The interface to files\<close>

datatype 'i access = Read_At 'i int int | Write_At 'i "u8 list" int
datatype access_result = Got "u8 list" | Put int

definition run_access :: "('s \<Rightarrow> 'i \<Rightarrow> int \<Rightarrow> int \<Rightarrow> (u8 list ret \<times> 's) option) \<Rightarrow>
    ('s \<Rightarrow> 'i \<Rightarrow> u8 list \<Rightarrow> int \<Rightarrow> (int ret \<times> 's) option) \<Rightarrow> 'i access \<Rightarrow> 's \<Rightarrow> (access_result ret \<times> 's) option" where
  "run_access rd wr a s = (case a of
      Read_At i sz ofs \<Rightarrow> and_then (rd s i sz ofs) (\<lambda>bs s. Some (Ret (Got bs), s))
    | Write_At i bs ofs \<Rightarrow> and_then (wr s i bs ofs) (\<lambda>k s. Some (Ret (Put k), s)))"

fun run_accesses :: "('s \<Rightarrow> 'i \<Rightarrow> int \<Rightarrow> int \<Rightarrow> (u8 list ret \<times> 's) option) \<Rightarrow>
    ('s \<Rightarrow> 'i \<Rightarrow> u8 list \<Rightarrow> int \<Rightarrow> (int ret \<times> 's) option) \<Rightarrow> 'i access list \<Rightarrow> 's \<Rightarrow> (access_result list ret \<times> 's) option" where
  "run_accesses rd wr [] s = Some (Ret [], s)"
| "run_accesses rd wr (a # ops) s =
    and_then (run_access rd wr a s) (\<lambda>r s. and_then (run_accesses rd wr ops s) (\<lambda>rs s. Some (Ret (r # rs), s)))"

text \<open>What the accesses mean for arrays of bytes; \<open>w\<close> says which files may be written.\<close>

definition spec_access :: "('i \<Rightarrow> bool) \<Rightarrow> 'i access \<Rightarrow> ('i \<Rightarrow> u8 list) \<Rightarrow> access_result \<times> ('i \<Rightarrow> u8 list)" where
  "spec_access w a c = (case a of
      Read_At i sz ofs \<Rightarrow> (Got (spec_read (c i) sz ofs), c)
    | Write_At i bs ofs \<Rightarrow>
        if w i then (Put (min (int (length bs)) (max 0 (int (length (c i)) - ofs))), c(i := spec_write (c i) bs ofs))
        else (Put 0, c))"

fun spec_accesses :: "('i \<Rightarrow> bool) \<Rightarrow> 'i access list \<Rightarrow> ('i \<Rightarrow> u8 list) \<Rightarrow> access_result list \<times> ('i \<Rightarrow> u8 list)" where
  "spec_accesses w [] c = ([], c)"
| "spec_accesses w (a # ops) c =
    (let (r, c) = spec_access w a c; (rs, c) = spec_accesses w ops c in (r # rs, c))"

definition aligned :: "int \<Rightarrow> bool" where
  "aligned ofs \<longleftrightarrow> 0 \<le> ofs \<and> ofs < 2 ^ 31 \<and> ofs mod 512 = 0"

definition access_ok :: "('i \<Rightarrow> bool) \<Rightarrow> 'i access \<Rightarrow> bool" where
  "access_ok opened a = (case a of
      Read_At i sz ofs \<Rightarrow> opened i \<and> sz < 2 ^ 31 \<and> aligned ofs
    | Write_At i bs ofs \<Rightarrow> opened i \<and> length bs < 2 ^ 31 \<and> aligned ofs)"

locale byte_files =
  fixes inv :: "'s \<Rightarrow> bool"
    and opened :: "'s \<Rightarrow> 'i \<Rightarrow> bool"
    and writable :: "'s \<Rightarrow> 'i \<Rightarrow> bool"
    and bytes :: "'s \<Rightarrow> 'i \<Rightarrow> u8 list"
    and rd :: "'s \<Rightarrow> 'i \<Rightarrow> int \<Rightarrow> int \<Rightarrow> (u8 list ret \<times> 's) option"
    and wr :: "'s \<Rightarrow> 'i \<Rightarrow> u8 list \<Rightarrow> int \<Rightarrow> (int ret \<times> 's) option"
  assumes rd_law: "inv s \<Longrightarrow> opened s i \<Longrightarrow> sz < 2 ^ 31 \<Longrightarrow> aligned ofs \<Longrightarrow>
      \<exists>s'. rd s i sz ofs = Some (Ret (spec_read (bytes s i) sz ofs), s') \<and> inv s' \<and>
        bytes s' = bytes s \<and> opened s' = opened s \<and> writable s' = writable s"
    and wr_law: "inv s \<Longrightarrow> opened s i \<Longrightarrow> length bs < 2 ^ 31 \<Longrightarrow> aligned ofs \<Longrightarrow>
      \<exists>s'. wr s i bs ofs =
          Some (Ret (if writable s i then min (int (length bs)) (max 0 (int (length (bytes s i)) - ofs)) else 0), s') \<and> inv s' \<and>
        bytes s' = (if writable s i then (bytes s)(i := spec_write (bytes s i) bs ofs) else bytes s) \<and>
        opened s' = opened s \<and> writable s' = writable s"
begin

lemma access_refines:
  assumes "inv s" "access_ok (opened s) a"
  shows "\<exists>s'. run_access rd wr a s = Some (Ret (fst (spec_access (writable s) a (bytes s))), s') \<and> inv s' \<and>
    bytes s' = snd (spec_access (writable s) a (bytes s)) \<and> opened s' = opened s \<and> writable s' = writable s"
proof (cases a)
  case (Read_At i sz ofs)
  then show ?thesis using rd_law [OF assms(1), of i sz ofs] assms(2) by (auto simp: access_ok_def run_access_def spec_access_def)
next
  case (Write_At i bs ofs)
  then obtain s' where "wr s i bs ofs =
      Some (Ret (if writable s i then min (int (length bs)) (max 0 (int (length (bytes s i)) - ofs)) else 0), s')" "inv s'"
      "bytes s' = (if writable s i then (bytes s)(i := spec_write (bytes s i) bs ofs) else bytes s)"
      "opened s' = opened s" "writable s' = writable s"
    using wr_law [OF assms(1), of i bs ofs] assms(2) by (auto simp: access_ok_def)
  then show ?thesis using Write_At by (simp add: run_access_def spec_access_def)
qed

lemma accesses_refine:
  "inv s \<Longrightarrow> list_all (access_ok (opened s)) ops \<Longrightarrow>
    \<exists>s'. run_accesses rd wr ops s = Some (Ret (fst (spec_accesses (writable s) ops (bytes s))), s') \<and> inv s' \<and>
      bytes s' = snd (spec_accesses (writable s) ops (bytes s)) \<and> opened s' = opened s \<and> writable s' = writable s"
proof (induction ops arbitrary: s)
  case (Cons a ops)
  obtain s1 where s1: "run_access rd wr a s = Some (Ret (fst (spec_access (writable s) a (bytes s))), s1)" "inv s1"
    "bytes s1 = snd (spec_access (writable s) a (bytes s))" "opened s1 = opened s" "writable s1 = writable s"
    using access_refines [of s a] Cons.prems by auto
  then show ?case using Cons.IH [of s1] Cons.prems(2) by (auto simp: split_beta)
qed simp

end

definition may_write :: "fs \<Rightarrow> ptr \<Rightarrow> bool" where
  "may_write s i \<longleftrightarrow> (case inodes s i of Some nd \<Rightarrow> deny_write_cnt nd = 0 | None \<Rightarrow> False)"

definition is_open :: "fs \<Rightarrow> ptr \<Rightarrow> bool" where
  "is_open s i \<longleftrightarrow> inodes s i \<noteq> None"

lemma aligned_sector:
  assumes "aligned ofs" obtains n where "ofs = 512 * int n" "512 * int n < 2 ^ 31"
proof -
  have "ofs mod 512 = 0" "0 \<le> ofs" "ofs < 2 ^ 31" using assms by (simp_all add: aligned_def)
  then obtain k where k: "ofs = 512 * k" by (metis mod_0_imp_dvd dvdE)
  show thesis by (rule that [of "nat k"]) (use k \<open>0 \<le> ofs\<close> \<open>ofs < 2 ^ 31\<close> in simp_all)
qed

interpretation io: byte_files cache_ok is_open may_write file_bytes inode_read_at inode_write_at
proof
  fix s i and sz ofs :: int assume ok: "cache_ok s" and "is_open s i" and sz: "sz < 2 ^ 31" and a: "aligned ofs"
  then obtain nd where nd: "inodes s i = Some nd" by (auto simp: is_open_def)
  obtain n where n: "ofs = 512 * int n" "512 * int n < 2 ^ 31" using aligned_sector [OF a] .
  obtain s' where s': "inode_read_loop i sz ofs s = Some (Ret (spec_read (file_bytes s i) sz ofs), s')" "cache_ok s'" "same_files s s'"
    using inode_read_loop_ok [OF ok nd sz n(2)] unfolding n(1) by blast
  then have "file_bytes s' = file_bytes s" "is_open s' = is_open s" "may_write s' = may_write s"
    using same_files_bytes [OF s'(3)] by (auto simp: is_open_def may_write_def same_files_def)
  then show "\<exists>s'. inode_read_at s i sz ofs = Some (Ret (spec_read (file_bytes s i) sz ofs), s') \<and> cache_ok s' \<and>
      file_bytes s' = file_bytes s \<and> is_open s' = is_open s \<and> may_write s' = may_write s"
    using s' by (simp add: inode_read_at_def)
next
  fix s i and ofs :: int and bs :: "u8 list" assume ok: "cache_ok s" and "is_open s i" and sz: "length bs < 2 ^ 31" and a: "aligned ofs"
  then obtain nd where nd: "inodes s i = Some nd" by (auto simp: is_open_def)
  obtain n where n: "ofs = 512 * int n" "512 * int n < 2 ^ 31" using aligned_sector [OF a] .
  show "\<exists>s'. inode_write_at s i bs ofs =
          Some (Ret (if may_write s i then min (int (length bs)) (max 0 (int (length (file_bytes s i)) - ofs)) else 0), s') \<and>
        cache_ok s' \<and> file_bytes s' = (if may_write s i then (file_bytes s)(i := spec_write (file_bytes s i) bs ofs) else file_bytes s) \<and>
        is_open s' = is_open s \<and> may_write s' = may_write s"
  proof (cases "deny_write_cnt nd = 0")
    case True
    obtain s' where s': "inode_write_loop i bs ofs s = Some (Ret (min (int (length bs)) (max 0 (id_length (nd_data nd) - ofs))), s')"
      "cache_ok s'" "file_bytes s' i = spec_write (file_bytes s i) bs ofs" "other_files s s' i"
      using inode_write_loop_ok [OF ok nd sz n(2)] unfolding n(1) by blast
    have "file_bytes s' = (file_bytes s)(i := spec_write (file_bytes s i) bs ofs)" using s'(3,4) by (auto simp: other_files_def)
    moreover have "is_open s' = is_open s" "may_write s' = may_write s"
      using s'(4) by (auto simp: is_open_def may_write_def other_files_def)
    moreover have "int (length (file_bytes s i)) = id_length (nd_data nd)"
      using length_file_bytes [OF ok nd] inode_len [OF ok nd] by simp
    ultimately show ?thesis using s'(1,2) nd True by (simp add: inode_write_at_def may_write_def)
  next
    case False
    then show ?thesis using nd ok by (simp add: inode_write_at_def may_write_def)
  qed
qed

subsection \<open>Accesses that are not aligned\<close>

lemma look_up_loop_cong:
  "(\<And>e. e \<in> set es \<Longrightarrow> map_option bfc_key (m' e) = map_option bfc_key (m e)) \<Longrightarrow> look_up_loop m' i k es = look_up_loop m i k es"
proof (induction es)
  case (Cons e es)
  then show ?case using Cons.prems [of e] by (cases "m e"; cases "m' e") (auto simp: bfc_key_def)
qed simp

lemma chunk_size_cong: "inodes s' = inodes s \<Longrightarrow> chunk_size s' i sz ofs = chunk_size s i sz ofs"
  by (simp add: chunk_size_def byte_to_sector_def inode_length_def)

lemma unaligned_key:
  assumes ok: "cache_ok s" and i: "inodes s i = Some nd" and ofs: "ofs mod 512 \<noteq> 0"
  shows "buffer_cache_look_up s i ofs = Some 0"
proof -
  have "bfc_key b \<noteq> (i, ofs)" if "e \<in> set (buffer_cache s)" "bfces s e = Some b" for e b
    using cache_okD(8) [OF ok that(1)] that(2) i ofs by (auto simp: entry_ok_def bfc_key_def)
  moreover have "\<forall>e \<in> set (buffer_cache s). bfces s e \<noteq> None" using cache_okD(8) [OF ok] by blast
  ultimately show ?thesis
    using look_up_loop_cases [OF _ cache_okD(4) [OF ok], of "bfces s" i ofs] by (auto simp: buffer_cache_look_up_def)
qed

lemma byte_to_sector_inside:
  assumes "inodes_ok s" "inodes s i = Some nd" "k < 512" "512 * int n + int k < id_length (nd_data nd)"
  shows "byte_to_sector s i (512 * int n + int k) = Some (sector_no nd n)"
proof -
  have "(512 * int n + int k) div 512 = int n" using assms(3) by simp
  then show ?thesis
    using assms inodes_okD(1) [OF assms(1,2)] by (simp add: byte_to_sector_def DISK_SECTOR_SIZE_def sdiv_smod_512 sector_no_def)
qed

text \<open>A write inside a sector goes to a cached copy of the sector of its own.\<close>

lemma unaligned_write:
  assumes ok: "cache_ok s" and i: "inodes s i = Some nd" "deny_write_cnt nd = 0" and room: "length (buffer_cache s) < 64"
    and k: "0 < k" "k < 512" "512 * int n + int k < id_length (nd_data nd)"
  shows "\<exists>e b d ps. inode_write_at s i [x] (512 * int n + int k) =
      Some (Ret 1, s\<lparr>filesys_disk := d, entries := entries s + 1, buffer_cache := e # buffer_cache s,
        mallocs := ps, bfces := (bfces s)(e \<mapsto> b)\<rparr>) \<and> e \<notin> set (buffer_cache s) \<and> bfc_key b = (i, 512 * int n + int k)"
proof -
  let ?ofs = "512 * int n + int k"
  note io = cache_okD(1) [OF ok]
  have len: "0 \<le> id_length (nd_data nd)" "id_length (nd_data nd) \<le> 2 ^ 31 - 1024" by (rule inode_len [OF ok i(1)])+
  have n: "n < nsect nd" using less_nsect [OF len(1), of n] k(3) by simp
  have m: "?ofs mod 512 = int k" using k(2) by simp
  have look: "buffer_cache_look_up s i ?ofs = Some 0" by (rule unaligned_key [OF ok i(1)]) (use m k(1) in simp)
  have sec: "byte_to_sector s i ?ofs = Some (sector_no nd n)" "sint (sector_no nd n) \<noteq> - 1"
    using byte_to_sector_inside [OF io i(1) k(2,3)] byte_to_sector_ok(2) [OF io i(1) n] by auto
  have "2 \<le> length (mallocs s)" using cache_okD(13) [OF ok] room by simp
  then obtain e a ps where ma: "mallocs s = e # a # ps" by (cases "mallocs s"; cases "tl (mallocs s)") auto
  have ea: "e \<noteq> 0" "a \<noteq> 0" "e \<notin> set (buffer_cache s)" using cache_okD(11,12) [OF ok] ma by auto
  define t where "t = s\<lparr>entries := entries s + 1, buffer_cache := e # buffer_cache s, mallocs := ps\<rparr>"
  define d where "d = (filesys_disk s)\<lparr>read_cnt := read_cnt (filesys_disk s) + 1\<rparr>"
  define b where "b = \<lparr>bfc_inode = i, bfc_offset = ?ofs, bfc_data = on_disk s i n, num_of_accessor = 0, bfc_dirty = False,
    bfc_accessed = False, bfc_evictable = True\<rparr>"
  have rd: "disk_read t (sector_no nd n) = Some (on_disk s i n, t\<lparr>filesys_disk := d\<rparr>)"
    using disk_read_ok [OF _ _ n, of t i] io i(1) inodes_ok_cong [of t s]
    by (simp add: t_def d_def on_disk_def)
  have full: "entries s < BUF_CACHE_SIZE" using cache_okD(5) [OF ok] room by (simp add: word_less_nat_alt BUF_CACHE_SIZE_def)
  have "find_entry s i ?ofs = Some (e, t\<lparr>filesys_disk := d, bfces := (bfces s)(e \<mapsto> b)\<rparr>)"
    using look sec full ma ea rd by (simp add: find_entry_def buffer_cache_get_entry_def fs_malloc_def t_def b_def Let_def)
  moreover have "length (on_disk s i n) = 512" by (rule on_disk_length [OF ok i(1)])
  then obtain dat where "copy_in (on_disk s i n) (int k) [x] = Some dat" using k(2) by (simp add: copy_in_def)
  moreover have "?ofs smod DISK_SECTOR_SIZE = int k" using m by (simp add: DISK_SECTOR_SIZE_def sdiv_smod_512)
  ultimately have w: "buffer_cache_write s i ?ofs [x] = Some (Ret 1, t\<lparr>filesys_disk := d,
      bfces := (bfces s)(e \<mapsto> b\<lparr>bfc_data := dat, bfc_dirty := True, bfc_accessed := True\<rparr>)\<rparr>)"
    using ea(1) by (simp add: buffer_cache_write_def upd_bfce_def b_def Let_def)
  have "chunk_size s i 1 ?ofs = Some 1" using chunk_size_ok [OF ok i(1), of ?ofs 1] k len m by simp
  moreover have "int_fits (?ofs + 1)" using k(3) len by (simp add: int_fits_def)
  ultimately have "inode_write_at s i [x] ?ofs = Some (Ret 1, t\<lparr>filesys_disk := d,
      bfces := (bfces s)(e \<mapsto> b\<lparr>bfc_data := dat, bfc_dirty := True, bfc_accessed := True\<rparr>)\<rparr>)"
    using i w by (simp add: inode_write_at_def inode_write_loop.simps)
  then show ?thesis using ea(3)
    by (intro exI [of _ e] exI [of _ "b\<lparr>bfc_data := dat, bfc_dirty := True, bfc_accessed := True\<rparr>"] exI [of _ d] exI [of _ ps])
      (simp add: t_def b_def bfc_key_def)
qed

text \<open>A read from the start of the sector goes to the copy that was there before.\<close>

lemma read_ignores_copy:
  assumes ok: "cache_ok s" and i: "inodes s i = Some nd" and h: "holds s f i n c"
    and ahead: "Suc n < nsect nd \<longrightarrow> (\<exists>g c. holds s g i (Suc n) c)"
    and sz: "0 < sz" "sz \<le> 512" "512 * int n + sz \<le> id_length (nd_data nd)"
    and s': "s' = s\<lparr>filesys_disk := d, entries := en, buffer_cache := e # buffer_cache s, mallocs := ps, bfces := (bfces s)(e \<mapsto> b)\<rparr>"
    and e: "e \<notin> set (buffer_cache s)" "bfc_key b = (i, ofs)" "ofs mod 512 \<noteq> 0"
  shows "\<exists>s''. inode_read_at s' i sz (512 * int n) = Some (Ret (take (nat sz) (sector_view s i n)), s'')"
proof -
  have len: "0 \<le> id_length (nd_data nd)" "id_length (nd_data nd) \<le> 2 ^ 31 - 1024" by (rule inode_len [OF ok i])+
  have f: "f \<noteq> 0" "f \<in> set (buffer_cache s)" "bfces s f = Some c" "f \<noteq> e"
    using h holds_nonnull [OF ok h] e(1) by (auto simp: holds_def)
  have "bfc_key b \<noteq> (i, 512 * int m)" for m using e(2,3) by auto
  then have look: "buffer_cache_look_up (s'\<lparr>bfces := g\<rparr>) i (512 * int m) = buffer_cache_look_up s i (512 * int m)"
    if "\<And>x. x \<in> set (buffer_cache s) \<Longrightarrow> map_option bfc_key (g x) = map_option bfc_key (bfces s x)" "g e = Some b" for g m
    using look_up_loop_cong [of "buffer_cache s" g "bfces s" i "512 * int m"] that
    by (auto simp: buffer_cache_look_up_def s' bfc_key_def)
  have "buffer_cache_look_up (s'\<lparr>bfces := bfces s'\<rparr>) i (512 * int n) = Some f"
    unfolding look_up_holds [OF ok h, symmetric] by (rule look) (use e(1) in \<open>auto simp: s'\<close>)
  then have first: "find_entry s' i (512 * int n) = Some (f, s')" using f(1) by (simp add: find_entry_def)
  define s2 where "s2 = s'\<lparr>bfces := (bfces s')(f \<mapsto> c\<lparr>bfc_accessed := True\<rparr>)\<rparr>"
  have look2: "buffer_cache_look_up s2 i (512 * int (Suc n)) = buffer_cache_look_up s i (512 * int (Suc n))"
    unfolding s2_def by (rule look) (use f e(1) in \<open>auto simp: s' bfc_key_def\<close>)
  have "\<exists>x. find_entry s2 i (512 * int (Suc n)) = Some (x, s2)"
  proof (cases "Suc n < nsect nd")
    case True
    then obtain g c' where g: "holds s g i (Suc n) c'" using ahead by blast
    then show ?thesis
      using look_up_holds [OF ok g] holds_nonnull [OF ok g] look2 by (simp add: find_entry_def)
  next
    case False
    have "byte_to_sector s2 i (512 * int (Suc n)) = Some (- 1)"
      using byte_to_sector_ok(1) [OF cache_okD(1) [OF ok] i, of "Suc n"] False by (simp add: byte_to_sector_def s2_def s')
    moreover have "buffer_cache_look_up s i (512 * int (Suc n)) = Some 0"
    proof (rule look_up_cases [OF ok, of i "Suc n"])
      fix g c' assume g: "holds s g i (Suc n) c'"
      then have "find_entry s i (512 * int (Suc n)) = Some (g, s)" "g \<noteq> 0"
        using look_up_holds [OF ok g] holds_nonnull [OF ok g] by (simp_all add: find_entry_def)
      then show ?thesis using find_entry_past_end [OF ok i, of "Suc n"] False by simp
    qed
    ultimately show ?thesis using look2 by (simp add: find_entry_def buffer_cache_get_entry_def)
  qed
  then obtain x where x: "find_entry s2 i (512 * int (Suc n)) = Some (x, s2)" ..
  have fits: "int_fits (512 * int (Suc n))" using sz len by (simp add: int_fits_def)
  have out: "copy_out (bfc_data c) 0 (nat sz) = Some (take (nat sz) (sector_view s i n))"
    using view_holds [OF ok h] view_length [OF ok i, of n] sz(2) by (simp add: copy_out_def)
  have next_ofs: "512 * int n + DISK_SECTOR_SIZE = 512 * int (Suc n)" by (simp add: DISK_SECTOR_SIZE_def)
  have "bfces s' f = Some c" using f by (simp add: s')
  then have "buffer_cache_read s' i (512 * int n) sz = Some (Ret (take (nat sz) (sector_view s i n)), s2)"
    using f(1) first x fits out
    by (simp add: buffer_cache_read_def aligned_ofs upd_bfce_def s2_def [symmetric] next_ofs Let_def del: of_nat_Suc)
  moreover have "chunk_size s' i sz (512 * int n) = Some sz"
    using chunk_size_ok [OF ok i, of "512 * int n" sz] sz len chunk_size_cong [of s' s] by (simp add: s')
  moreover have "int_fits (512 * int n + sz)" using sz len by (simp add: int_fits_def)
  ultimately show ?thesis
    using sz(1) unfolding inode_read_at_def by (subst inode_read_loop.simps) (auto simp: read_nothing)
qed

subsection \<open>Properties\<close>

text \<open>C10. Files accessed at sector boundaries behave as arrays of bytes: any sequence of reads and writes at aligned offsets, on any open
  inodes, of any sizes, gives the results of the same sequence on arrays and ends with the contents of the arrays, whatever
  the buffer cache evicts, writes behind and reads ahead in between. A read or write ends at the end of the file, and a file
  whose writes are denied does not change.\<close>
theorem aligned_files_refine:
  assumes "cache_ok s" "list_all (access_ok (is_open s)) ops"
  shows "\<exists>s'. run_accesses inode_read_at inode_write_at ops s = Some (Ret (fst (spec_accesses (may_write s) ops (file_bytes s))), s') \<and>
    cache_ok s' \<and> file_bytes s' = snd (spec_accesses (may_write s) ops (file_bytes s))"
  using io.accesses_refine [OF assms] by blast

definition fresh_ptrs :: "nat \<Rightarrow> ptr list" where
  "fresh_ptrs n = map (\<lambda>k. of_nat (4096 + k)) [0..<n]"

lemma fresh_ptrs: "n < 1000 \<Longrightarrow> distinct (fresh_ptrs n)" "p < 4096 \<Longrightarrow> n < 1000 \<Longrightarrow> p \<notin> set (fresh_ptrs n)" "length (fresh_ptrs n) = n"
proof -
  have u: "unat (of_nat (4096 + k) :: ptr) = 4096 + k" if "k < 1000" for k using that by (intro unat_of_nat_u32) simp
  show "distinct (fresh_ptrs n)" if "n < 1000"
    unfolding fresh_ptrs_def distinct_map
  proof (intro conjI inj_onI)
    fix x y assume "x \<in> set [0..<n]" "y \<in> set [0..<n]" "of_nat (4096 + x) = (of_nat (4096 + y) :: ptr)"
    then show "x = y" using u [of x] u [of y] that by simp
  qed simp
  show "p < 4096 \<Longrightarrow> n < 1000 \<Longrightarrow> p \<notin> set (fresh_ptrs n)"
    using u by (auto simp: fresh_ptrs_def word_less_nat_alt simp del: of_nat_add)
qed (simp add: fresh_ptrs_def)

definition example_fs :: fs where
  "example_fs = \<lparr>filesys_disk = \<lparr>capacity = 100, read_cnt = 0, write_cnt = 0, sectors = (\<lambda>_. replicate 512 0)\<rparr>,
     inodes = [8 \<mapsto> \<lparr>nd_sector = 2, open_cnt = 1, removed = False, deny_write_cnt = 0,
       nd_data = \<lparr>id_start = 10, id_length = 1000, id_magic = INODE_MAGIC\<rparr>\<rparr>],
     open_inodes = [8], buffer_cache = [], bfces = Map.empty, entries = 0, cur_victim = 0, bfc_tick = 0,
     free_map = \<lparr>bit_cnt = 0, bits = []\<rparr>, free_map_file = 0, files = Map.empty, dirs = Map.empty, mallocs = fresh_ptrs 128\<rparr>"

lemma example_fs_ok: "cache_ok example_fs"
proof -
  have "inodes_ok example_fs"
    by (auto simp: inodes_ok_def inode_ok_def nsect_def sector_no_def example_fs_def word_unat_eq_iff unat_of_nat less_2_cases_iff
        split: if_splits)
  then show ?thesis using fresh_ptrs [of 128] fresh_ptrs(2) [of 0 128] by (simp add: cache_ok_def example_fs_def)
qed

lemma example_fs_bytes: "file_bytes example_fs 8 = replicate 1000 0"
proof -
  have "sector_view example_fs 8 n = replicate 512 0" for n
    by (simp add: sector_view_def buffer_cache_look_up_def on_disk_def example_fs_def)
  moreover have "nsect \<lparr>nd_sector = 2, open_cnt = 1, removed = False, deny_write_cnt = 0,
       nd_data = \<lparr>id_start = 10, id_length = 1000, id_magic = INODE_MAGIC\<rparr>\<rparr> = Suc (Suc 0)" by (simp add: nsect_def)
  ultimately show ?thesis by (simp add: file_bytes_def example_fs_def min_def flip: replicate_add)
qed


text \<open>The witness writes three bytes at the start of the second sector and reads four.\<close>

theorem aligned_files_refine_witness:
  "\<exists>s'. run_accesses inode_read_at inode_write_at [Write_At 8 [1, 2, 3] 512, Read_At 8 4 512, Read_At 8 10 1024] example_fs =
    Some (Ret [Put 3, Got [1, 2, 3, 0], Got []], s')"
proof -
  have "list_all (access_ok (is_open example_fs)) [Write_At 8 [1, 2, 3] 512, Read_At 8 4 512, Read_At 8 10 1024]"
    by (simp add: access_ok_def is_open_def aligned_def example_fs_def)
  moreover have "may_write example_fs 8" by (simp add: may_write_def example_fs_def)
  ultimately show ?thesis
    using aligned_files_refine [OF example_fs_ok, of "[Write_At 8 [1, 2, 3] 512, Read_At 8 4 512, Read_At 8 10 1024]"]
    by (auto simp: spec_access_def spec_read_def spec_write_def example_fs_bytes)
qed


text \<open>In the witness both sectors of a file of zeros are in the cache; byte 1 becomes 7, but a read of the first two bytes
  returns zeros.\<close>

definition zero_entry :: "int \<Rightarrow> bfc_entry" where
  "zero_entry ofs = \<lparr>bfc_inode = 8, bfc_offset = ofs, bfc_data = replicate 512 0, num_of_accessor = 0, bfc_dirty = False,
     bfc_accessed = False, bfc_evictable = True\<rparr>"

definition cached_fs :: fs where
  "cached_fs = example_fs\<lparr>buffer_cache := [16, 24], bfces := [16 \<mapsto> zero_entry 0, 24 \<mapsto> zero_entry 512], entries := 2\<rparr>"

lemma cached_fs_ok: "cache_ok cached_fs"
proof -
  have "inodes_ok cached_fs" using cache_okD(1) [OF example_fs_ok] inodes_ok_cong [of cached_fs example_fs] by (simp add: cached_fs_def)
  moreover have "entry_ok cached_fs (zero_entry 0)" "entry_ok cached_fs (zero_entry 512)"
    by (auto simp: entry_ok_def zero_entry_def cached_fs_def example_fs_def nsect_def on_disk_def intro: exI [of _ 0] exI [of _ 1])
  moreover have "bfc_key (zero_entry 0) \<noteq> bfc_key (zero_entry 512)" by (simp add: bfc_key_def zero_entry_def)
  ultimately show ?thesis
    using fresh_ptrs [of 128] fresh_ptrs(2) [of _ 128] by (auto simp: cache_ok_def cached_fs_def example_fs_def)
qed





end
