(* ===== verification/Filesys.thy ===== *)
theory Filesys
  imports Inode
begin

section \<open>Files, directories and the file system\<close>

text \<open>
  The open files of \<^verbatim>\<open>file.c\<close>, the flat root directory of \<^verbatim>\<open>directory.c\<close> and the operations of \<^verbatim>\<open>filesys.c\<close>. A name is the
  list of its characters without the terminator. A directory entry is 20 bytes: the sector of the inode, 15 bytes for the
  name and a flag.
\<close>

subsection \<open>Open files\<close>

text \<open>A failed allocation of the file closes the inode.\<close>

definition file_open :: "fs \<Rightarrow> ptr \<Rightarrow> (ptr ret \<times> fs) option" where
  "file_open s i = do {
     let (f, s) = fs_malloc s;
     if i \<noteq> 0 \<and> f \<noteq> 0
     then Some (Ret f, s\<lparr>files := (files s)(f \<mapsto> \<lparr>f_inode = i, f_pos = 0, f_deny_write = False\<rparr>)\<rparr>)
     else and_then (inode_close s i) (\<lambda>_ s. Some (Ret 0, s))
   }"

definition file_reopen :: "fs \<Rightarrow> ptr \<Rightarrow> (ptr ret \<times> fs) option" where
  "file_reopen s f = do { fl \<leftarrow> files s f; (i, s) \<leftarrow> inode_reopen s (f_inode fl); file_open s i }"

definition upd_file :: "fs \<Rightarrow> ptr \<Rightarrow> (file_t \<Rightarrow> file_t) \<Rightarrow> fs option" where
  "upd_file s f g = do { fl \<leftarrow> files s f; Some (s\<lparr>files := (files s)(f \<mapsto> g fl)\<rparr>) }"

definition file_deny_write :: "fs \<Rightarrow> ptr \<Rightarrow> fs option" where
  "file_deny_write s f = do {
     kassert (f \<noteq> 0);
     fl \<leftarrow> files s f;
     if \<not> f_deny_write fl
     then do { s \<leftarrow> upd_file s f (\<lambda>fl. fl\<lparr>f_deny_write := True\<rparr>); inode_deny_write s (f_inode fl) }
     else Some s
   }"

definition file_allow_write :: "fs \<Rightarrow> ptr \<Rightarrow> fs option" where
  "file_allow_write s f = do {
     kassert (f \<noteq> 0);
     fl \<leftarrow> files s f;
     if f_deny_write fl
     then do { s \<leftarrow> upd_file s f (\<lambda>fl. fl\<lparr>f_deny_write := False\<rparr>); inode_allow_write s (f_inode fl) }
     else Some s
   }"

definition file_close :: "fs \<Rightarrow> ptr \<Rightarrow> (unit ret \<times> fs) option" where
  "file_close s f =
    (if f \<noteq> 0
     then do {
       s \<leftarrow> file_allow_write s f;
       fl \<leftarrow> files s f;
       and_then (inode_close s (f_inode fl)) (\<lambda>_ s. Some (Ret (), s\<lparr>files := (files s)(f := None)\<rparr>))
     }
     else Some (Ret (), s))"

definition file_get_inode :: "fs \<Rightarrow> ptr \<Rightarrow> ptr option" where
  "file_get_inode s f = map_option f_inode (files s f)"

definition file_read :: "fs \<Rightarrow> ptr \<Rightarrow> int \<Rightarrow> (u8 list ret \<times> fs) option" where
  "file_read s f sz = do {
     fl \<leftarrow> files s f;
     and_then (inode_read_at s (f_inode fl) sz (f_pos fl)) (\<lambda>bs s. do {
       s \<leftarrow> upd_file s f (\<lambda>fl. fl\<lparr>f_pos := f_pos fl + int (length bs)\<rparr>);
       Some (Ret bs, s)
     })
   }"

definition file_write :: "fs \<Rightarrow> ptr \<Rightarrow> u8 list \<Rightarrow> (int ret \<times> fs) option" where
  "file_write s f bs = do {
     fl \<leftarrow> files s f;
     and_then (inode_write_at s (f_inode fl) bs (f_pos fl)) (\<lambda>k s. do {
       s \<leftarrow> upd_file s f (\<lambda>fl. fl\<lparr>f_pos := f_pos fl + k\<rparr>);
       Some (Ret k, s)
     })
   }"

definition file_length :: "fs \<Rightarrow> ptr \<Rightarrow> int option" where
  "file_length s f = do { kassert (f \<noteq> 0); fl \<leftarrow> files s f; inode_length s (f_inode fl) }"

definition file_seek :: "fs \<Rightarrow> ptr \<Rightarrow> int \<Rightarrow> fs option" where
  "file_seek s f new_pos = do { kassert (f \<noteq> 0); kassert (new_pos \<ge> 0); upd_file s f (\<lambda>fl. fl\<lparr>f_pos := new_pos\<rparr>) }"

definition file_tell :: "fs \<Rightarrow> ptr \<Rightarrow> int option" where
  "file_tell s f = do { kassert (f \<noteq> 0); fl \<leftarrow> files s f; Some (f_pos fl) }"

subsection \<open>The free map file\<close>

definition FREE_MAP_SECTOR :: u32 where "FREE_MAP_SECTOR = 0"
definition ROOT_DIR_SECTOR :: u32 where "ROOT_DIR_SECTOR = 1"

text \<open>\<open>buf\<close> is the memory \<^verbatim>\<open>bitmap_create\<close> gets from \<^verbatim>\<open>malloc\<close>.\<close>

definition free_map_init :: "fs \<Rightarrow> bool \<Rightarrow> u32 list option \<Rightarrow> fs option" where
  "free_map_init s header buf = do {
     r \<leftarrow> bitmap_create (disk_size (filesys_disk s)) header buf;
     fm \<leftarrow> r;
     fm \<leftarrow> bitmap_mark fm FREE_MAP_SECTOR;
     fm \<leftarrow> bitmap_mark fm ROOT_DIR_SECTOR;
     Some (s\<lparr>free_map := fm\<rparr>)
   }"

definition free_map_open :: "fs \<Rightarrow> (unit ret \<times> fs) option" where
  "free_map_open s = do {
     (i, s) \<leftarrow> inode_open s FREE_MAP_SECTOR;
     and_then (file_open s i) (\<lambda>f s. do {
       let s = s\<lparr>free_map_file := f\<rparr>;
       kassert (f \<noteq> 0);
       and_then (bitmap_read (free_map s) s f) (\<lambda>(ok, fm) s. do { kassert ok; Some (Ret (), s\<lparr>free_map := fm\<rparr>) })
     })
   }"

definition free_map_close :: "fs \<Rightarrow> (unit ret \<times> fs) option" where
  "free_map_close s = file_close s (free_map_file s)"

definition free_map_create :: "fs \<Rightarrow> (unit ret \<times> fs) option" where
  "free_map_create s =
    and_then (inode_create s FREE_MAP_SECTOR (sint (bitmap_file_size (free_map s)))) (\<lambda>ok s. do {
      kassert ok;
      (i, s) \<leftarrow> inode_open s FREE_MAP_SECTOR;
      and_then (file_open s i) (\<lambda>f s. do {
        let s = s\<lparr>free_map_file := f\<rparr>;
        kassert (f \<noteq> 0);
        and_then (bitmap_write (free_map s) s f) (\<lambda>ok s. do { kassert ok; Some (Ret (), s) })
      })
    })"

subsection \<open>Directories\<close>

definition NAME_MAX :: nat where "NAME_MAX = 14"
definition DIR_ENTRY_SIZE :: int where "DIR_ENTRY_SIZE = 20"

definition de_sector :: "u8 list \<Rightarrow> u32" where
  "de_sector e = word_of e"

definition de_in_use :: "u8 list \<Rightarrow> bool" where
  "de_in_use e \<longleftrightarrow> e ! 19 \<noteq> 0"

text \<open>The name in an entry; one without a terminator would be read past its end.\<close>

definition de_name :: "u8 list \<Rightarrow> u8 list option" where
  "de_name e = (let raw = take 15 (drop 4 e) in if 0 \<in> set raw then Some (takeWhile (\<lambda>c. c \<noteq> 0) raw) else None)"

definition dir_create :: "fs \<Rightarrow> u32 \<Rightarrow> size_t \<Rightarrow> (bool ret \<times> fs) option" where
  "dir_create s sector entry_cnt = inode_create s sector (sint (entry_cnt * 20))"

definition dir_open :: "fs \<Rightarrow> ptr \<Rightarrow> (ptr ret \<times> fs) option" where
  "dir_open s i = do {
     let (d, s) = fs_malloc s;
     if i \<noteq> 0 \<and> d \<noteq> 0 then Some (Ret d, s\<lparr>dirs := (dirs s)(d \<mapsto> \<lparr>d_inode = i, d_pos = 0\<rparr>)\<rparr>)
     else and_then (inode_close s i) (\<lambda>_ s. Some (Ret 0, s))
   }"

definition dir_open_root :: "fs \<Rightarrow> (ptr ret \<times> fs) option" where
  "dir_open_root s = do { (i, s) \<leftarrow> inode_open s ROOT_DIR_SECTOR; dir_open s i }"

definition dir_reopen :: "fs \<Rightarrow> ptr \<Rightarrow> (ptr ret \<times> fs) option" where
  "dir_reopen s d = do { dr \<leftarrow> dirs s d; (i, s) \<leftarrow> inode_reopen s (d_inode dr); dir_open s i }"

definition dir_close :: "fs \<Rightarrow> ptr \<Rightarrow> (unit ret \<times> fs) option" where
  "dir_close s d =
    (if d \<noteq> 0
     then do {
       dr \<leftarrow> dirs s d;
       and_then (inode_close s (d_inode dr)) (\<lambda>_ s. Some (Ret (), s\<lparr>dirs := (dirs s)(d := None)\<rparr>))
     }
     else Some (Ret (), s))"

definition dir_get_inode :: "fs \<Rightarrow> ptr \<Rightarrow> ptr option" where
  "dir_get_inode s d = map_option d_inode (dirs s d)"

text \<open>The result is the entry with its offset.\<close>

partial_function (option) lookup_loop :: "ptr \<Rightarrow> u8 list \<Rightarrow> int \<Rightarrow> fs \<Rightarrow> ((u8 list \<times> int) option ret \<times> fs) option" where
  "lookup_loop i nm ofs s = do {
     (r, s) \<leftarrow> inode_read_at s i DIR_ENTRY_SIZE ofs;
     case r of
       Exits \<Rightarrow> Some (Exits, s)
     | Ret e \<Rightarrow>
         if int (length e) \<noteq> DIR_ENTRY_SIZE then Some (Ret None, s)
         else do {
           same \<leftarrow> (if de_in_use e then map_option (\<lambda>n. n = nm) (de_name e) else Some False);
           if same then Some (Ret (Some (e, ofs)), s) else lookup_loop i nm (ofs + DIR_ENTRY_SIZE) s
         }
   }"

definition lookup :: "fs \<Rightarrow> ptr \<Rightarrow> u8 list \<Rightarrow> ((u8 list \<times> int) option ret \<times> fs) option" where
  "lookup s d nm = do { kassert (d \<noteq> 0); dr \<leftarrow> dirs s d; lookup_loop (d_inode dr) nm 0 s }"

text \<open>The result is the inode, null if there is none.\<close>

definition dir_lookup :: "fs \<Rightarrow> ptr \<Rightarrow> u8 list \<Rightarrow> (ptr ret \<times> fs) option" where
  "dir_lookup s d nm =
    and_then (lookup s d nm) (\<lambda>r s. case r of
        None \<Rightarrow> Some (Ret 0, s)
      | Some (e, _) \<Rightarrow> do { (i, s) \<leftarrow> inode_open s (de_sector e); Some (Ret i, s) })"

text \<open>
  The search for a free slot; \<open>e\<close> is the content of the local variable, of which a read replaces the bytes it gets.
\<close>

partial_function (option) free_slot :: "ptr \<Rightarrow> int \<Rightarrow> u8 list \<Rightarrow> fs \<Rightarrow> ((u8 list \<times> int) ret \<times> fs) option" where
  "free_slot i ofs e s = do {
     (r, s) \<leftarrow> inode_read_at s i DIR_ENTRY_SIZE ofs;
     case r of
       Exits \<Rightarrow> Some (Exits, s)
     | Ret bs \<Rightarrow> do {
         let e = bs @ drop (length bs) e;
         if int (length bs) \<noteq> DIR_ENTRY_SIZE \<or> \<not> de_in_use e then Some (Ret (e, ofs), s)
         else free_slot i (ofs + DIR_ENTRY_SIZE) e s
       }
   }"

text \<open>The bytes of the entry after \<^verbatim>\<open>strlcpy\<close> has replaced the name up to its terminator.\<close>

definition new_entry :: "u8 list \<Rightarrow> u8 list \<Rightarrow> u32 \<Rightarrow> u8 list" where
  "new_entry e nm sector = word_bytes sector @ nm @ [0] @ drop (Suc (length nm)) (take 15 (drop 4 e)) @ [1]"

definition dir_add :: "fs \<Rightarrow> ptr \<Rightarrow> u8 list \<Rightarrow> u32 \<Rightarrow> u8 list \<Rightarrow> (bool ret \<times> fs) option" where
  "dir_add s d nm inode_sector garbage = do {
     kassert (d \<noteq> 0);
     if nm = [] \<or> length nm > NAME_MAX then Some (Ret False, s)
     else and_then (lookup s d nm) (\<lambda>r s.
       if r \<noteq> None then Some (Ret False, s)
       else do {
         dr \<leftarrow> dirs s d;
         and_then (free_slot (d_inode dr) 0 garbage s) (\<lambda>(e, ofs) s.
           and_then (inode_write_at s (d_inode dr) (new_entry e nm inode_sector) ofs) (\<lambda>k s. Some (Ret (k = DIR_ENTRY_SIZE), s)))
       })
   }"

definition dir_remove :: "fs \<Rightarrow> ptr \<Rightarrow> u8 list \<Rightarrow> (bool ret \<times> fs) option" where
  "dir_remove s d nm =
    and_then (lookup s d nm) (\<lambda>r s. case r of
        None \<Rightarrow> Some (Ret False, s)
      | Some (e, ofs) \<Rightarrow> do {
          (i, s) \<leftarrow> inode_open s (de_sector e);
          if i = 0 then Some (Ret False, s)
          else do {
            dr \<leftarrow> dirs s d;
            and_then (inode_write_at s (d_inode dr) (take 19 e @ [0]) ofs) (\<lambda>k s. do {
              s \<leftarrow> (if k = DIR_ENTRY_SIZE then inode_remove s i else Some s);
              and_then (inode_close s i) (\<lambda>_ s. Some (Ret (k = DIR_ENTRY_SIZE), s))
            })
          }
        })"

definition upd_dir :: "fs \<Rightarrow> ptr \<Rightarrow> (dir \<Rightarrow> dir) \<Rightarrow> fs option" where
  "upd_dir s d g = do { dr \<leftarrow> dirs s d; Some (s\<lparr>dirs := (dirs s)(d \<mapsto> g dr)\<rparr>) }"

partial_function (option) dir_readdir :: "fs \<Rightarrow> ptr \<Rightarrow> (u8 list option ret \<times> fs) option" where
  "dir_readdir s d = do {
     dr \<leftarrow> dirs s d;
     (r, s) \<leftarrow> inode_read_at s (d_inode dr) DIR_ENTRY_SIZE (d_pos dr);
     case r of
       Exits \<Rightarrow> Some (Exits, s)
     | Ret e \<Rightarrow>
         if int (length e) \<noteq> DIR_ENTRY_SIZE then Some (Ret None, s)
         else do {
           s \<leftarrow> upd_dir s d (\<lambda>dr. dr\<lparr>d_pos := d_pos dr + DIR_ENTRY_SIZE\<rparr>);
           if de_in_use e then do { nm \<leftarrow> de_name e; Some (Ret (Some (take NAME_MAX nm)), s) } else dir_readdir s d
         }
   }"

subsection \<open>The file system\<close>

definition do_format :: "fs \<Rightarrow> (unit ret \<times> fs) option" where
  "do_format s =
    and_then (free_map_create s) (\<lambda>_ s.
      and_then (dir_create s ROOT_DIR_SECTOR 16) (\<lambda>ok s. do { kassert ok; free_map_close s }))"

definition filesys_init :: "fs \<Rightarrow> bool \<Rightarrow> bool \<Rightarrow> u32 list option \<Rightarrow> (unit ret \<times> fs) option" where
  "filesys_init s format header buf = do {
     let s = inode_init s;
     s \<leftarrow> free_map_init s header buf;
     and_then (if format then do_format s else Some (Ret (), s)) (\<lambda>_ s. free_map_open s)
   }"

definition filesys_done :: "fs \<Rightarrow> (unit ret \<times> fs) option" where
  "filesys_done s =
    and_then (free_map_close s) (\<lambda>_ s. do {
      s \<leftarrow> buffer_cache_write_behind_all s;
      s \<leftarrow> buffer_cache_flush s;
      Some (Ret (), s)
    })"

definition filesys_create :: "fs \<Rightarrow> u8 list \<Rightarrow> int \<Rightarrow> u8 list \<Rightarrow> (bool ret \<times> fs) option" where
  "filesys_create s nm initial_size garbage =
    and_then (dir_open_root s) (\<lambda>d s.
      and_then (if d = 0 then Some (Ret None, s) else free_map_allocate s 1) (\<lambda>sec s.
        and_then (case sec of
            None \<Rightarrow> Some (Ret False, s)
          | Some sector \<Rightarrow> and_then (inode_create s sector initial_size) (\<lambda>ok s.
              if ok then dir_add s d nm sector garbage else Some (Ret False, s))) (\<lambda>success s.
          and_then (case sec of
              Some sector \<Rightarrow> if \<not> success \<and> sector \<noteq> 0 then free_map_release s sector 1 else Some (Ret (), s)
            | None \<Rightarrow> Some (Ret (), s)) (\<lambda>_ s.
            and_then (dir_close s d) (\<lambda>_ s. Some (Ret success, s))))))"

definition filesys_open :: "fs \<Rightarrow> u8 list \<Rightarrow> (ptr ret \<times> fs) option" where
  "filesys_open s nm =
    and_then (dir_open_root s) (\<lambda>d s.
      and_then (if d \<noteq> 0 then dir_lookup s d nm else Some (Ret 0, s)) (\<lambda>i s.
        and_then (dir_close s d) (\<lambda>_ s. file_open s i)))"

definition filesys_remove :: "fs \<Rightarrow> u8 list \<Rightarrow> (bool ret \<times> fs) option" where
  "filesys_remove s nm =
    and_then (dir_open_root s) (\<lambda>d s.
      and_then (if d \<noteq> 0 then dir_remove s d nm else Some (Ret False, s)) (\<lambda>success s.
        and_then (dir_close s d) (\<lambda>_ s. Some (Ret success, s))))"

subsection \<open>A directory in the cache\<close>

text \<open>
  The entries of a directory are read and written at their own offsets, so each has its own copy of the sector in the cache.
  As long as a directory of one sector stays in the cache, the slots behave as an array. \<open>slot\<close> is the content of one as an
  access to it sees it, and \<open>dir_ok\<close> says that there is room in the cache for the slots not cached yet.
\<close>

definition slot_ofs :: "nat \<Rightarrow> int" where
  "slot_ofs k = DIR_ENTRY_SIZE * int k"

definition copy_at :: "fs \<Rightarrow> ptr \<Rightarrow> nat \<Rightarrow> u8 list" where
  "copy_at s i k = (case buffer_cache_look_up s i (slot_ofs k) of
      None \<Rightarrow> []
    | Some e \<Rightarrow>
        if e = 0 then (case inodes s i of Some nd \<Rightarrow> sectors (filesys_disk s) (id_start (nd_data nd)) | None \<Rightarrow> [])
        else (case bfces s e of Some b \<Rightarrow> bfc_data b | None \<Rightarrow> []))"

definition slot :: "fs \<Rightarrow> ptr \<Rightarrow> nat \<Rightarrow> u8 list" where
  "slot s i k = take 20 (drop (20 * k) (copy_at s i k))"

definition dir_inode_ok :: "fs \<Rightarrow> ptr \<Rightarrow> nat \<Rightarrow> inode \<Rightarrow> bool" where
  "dir_inode_ok s i m nd \<longleftrightarrow> inodes s i = Some nd \<and> i \<noteq> 0 \<and> deny_write_cnt nd = 0 \<and> id_length (nd_data nd) = 20 * int m \<and> m \<le> 25 \<and>
     id_start (nd_data nd) < capacity (filesys_disk s) \<and> id_start (nd_data nd) < 2 ^ 28 \<and>
     length (sectors (filesys_disk s) (id_start (nd_data nd))) = 512"

definition uncached :: "fs \<Rightarrow> ptr \<Rightarrow> nat \<Rightarrow> nat set" where
  "uncached s i m = {k. k < m \<and> buffer_cache_look_up s i (slot_ofs k) = Some 0}"

definition dir_ok :: "fs \<Rightarrow> ptr \<Rightarrow> nat \<Rightarrow> bool" where
  "dir_ok s i m \<longleftrightarrow> (\<exists>nd. dir_inode_ok s i m nd) \<and> 0 \<notin> set (buffer_cache s) \<and> unat (entries s) = length (buffer_cache s) \<and>
     (\<forall>e \<in> set (buffer_cache s). \<exists>b. bfces s e = Some b \<and>
        (bfc_inode b = i \<longrightarrow> bfc_offset b < 20 * int m \<and> length (bfc_data b) = 512)) \<and>
     0 \<notin> set (mallocs s) \<and> distinct (mallocs s) \<and> set (mallocs s) \<inter> set (buffer_cache s) = {} \<and>
     2 * (64 - length (buffer_cache s)) \<le> length (mallocs s) \<and> length (buffer_cache s) + card (uncached s i m) \<le> 64"

lemma dir_okD:
  assumes "dir_ok s i m"
  shows "\<exists>nd. dir_inode_ok s i m nd" "0 \<notin> set (buffer_cache s)" "unat (entries s) = length (buffer_cache s)"
    "e \<in> set (buffer_cache s) \<Longrightarrow> \<exists>b. bfces s e = Some b \<and> (bfc_inode b = i \<longrightarrow> bfc_offset b < 20 * int m \<and> length (bfc_data b) = 512)"
    "0 \<notin> set (mallocs s)" "distinct (mallocs s)" "set (mallocs s) \<inter> set (buffer_cache s) = {}"
    "2 * (64 - length (buffer_cache s)) \<le> length (mallocs s)" "length (buffer_cache s) + card (uncached s i m) \<le> 64"
  using assms unfolding dir_ok_def by blast+

lemma slot_look_up_cases:
  assumes "dir_ok s i m"
  obtains "buffer_cache_look_up s i ofs = Some 0" "\<And>e b. e \<in> set (buffer_cache s) \<Longrightarrow> bfces s e = Some b \<Longrightarrow> bfc_key b \<noteq> (i, ofs)"
  | e b where "buffer_cache_look_up s i ofs = Some e" "e \<noteq> 0" "e \<in> set (buffer_cache s)" "bfces s e = Some b" "bfc_key b = (i, ofs)"
proof -
  have "\<forall>e \<in> set (buffer_cache s). bfces s e \<noteq> None" using dir_okD(4) [OF assms] by blast
  from look_up_loop_cases [OF this dir_okD(2) [OF assms], of i ofs] show thesis
  proof (elim disjE conjE exE)
    assume "look_up_loop (bfces s) i ofs (buffer_cache s) = Some 0"
      "\<forall>e \<in> set (buffer_cache s). \<forall>b. bfces s e = Some b \<longrightarrow> bfc_key b \<noteq> (i, ofs)"
    then show thesis by (intro that(1)) (auto simp: buffer_cache_look_up_def)
  next
    fix e b
    assume e: "look_up_loop (bfces s) i ofs (buffer_cache s) = Some e" "e \<in> set (buffer_cache s)" "bfces s e = Some b" "bfc_key b = (i, ofs)"
    then have "e \<noteq> 0" using dir_okD(2) [OF assms] by metis
    with e show thesis by (intro that(2)) (auto simp: buffer_cache_look_up_def)
  qed
qed

lemma dir_sector:
  assumes "dir_inode_ok s i m nd" "k < m"
  shows "byte_to_sector s i (slot_ofs k) = Some (id_start (nd_data nd))" "sint (id_start (nd_data nd)) \<noteq> - 1"
    "select_sector (filesys_disk s) (id_start (nd_data nd)) = Some ()"
proof -
  have k: "slot_ofs k div 512 = 0" "0 \<le> slot_ofs k" "slot_ofs k < 20 * int m"
    using assms by (simp_all add: slot_ofs_def DIR_ENTRY_SIZE_def dir_inode_ok_def)
  then show "byte_to_sector s i (slot_ofs k) = Some (id_start (nd_data nd))"
    using assms(1) by (simp add: byte_to_sector_def dir_inode_ok_def DISK_SECTOR_SIZE_def sdiv_smod_512)
  have "id_start (nd_data nd) < 2 ^ 28" using assms(1) by (simp add: dir_inode_ok_def)
  then have "id_start (nd_data nd) \<noteq> - 1" by auto
  then show "sint (id_start (nd_data nd)) \<noteq> - 1" by (metis signed_minus_1 signed_word_eqI)
  show "select_sector (filesys_disk s) (id_start (nd_data nd)) = Some ()"
    using assms(1) by (simp add: select_sector_def dir_inode_ok_def)
qed

text \<open>What an access to a slot leaves unchanged.\<close>

definition dir_frame :: "fs \<Rightarrow> fs \<Rightarrow> bool" where
  "dir_frame s s' \<longleftrightarrow> inodes s' = inodes s \<and> dirs s' = dirs s \<and> files s' = files s \<and> open_inodes s' = open_inodes s \<and>
     sectors (filesys_disk s') = sectors (filesys_disk s) \<and> capacity (filesys_disk s') = capacity (filesys_disk s)"

lemma dir_frame_refl [simp]: "dir_frame s s"
  by (simp add: dir_frame_def)

lemma dir_frame_trans: "dir_frame s t \<Longrightarrow> dir_frame t u \<Longrightarrow> dir_frame s u"
  by (simp add: dir_frame_def)

lemma dir_inode_frame: "dir_frame s s' \<Longrightarrow> dir_inode_ok s' i m nd = dir_inode_ok s i m nd"
  by (simp add: dir_frame_def dir_inode_ok_def)

lemma slot_ofs_inj [simp]: "slot_ofs k = slot_ofs j \<longleftrightarrow> k = j"
  by (simp add: slot_ofs_def DIR_ENTRY_SIZE_def)

lemma new_slot_entry:
  assumes ok: "dir_ok s i m" and nd: "dir_inode_ok s i m nd" and k: "k < m" "buffer_cache_look_up s i (slot_ofs k) = Some 0"
  shows "\<exists>e s' b. buffer_cache_get_entry s i (slot_ofs k) = Some (e, s') \<and> e \<noteq> 0 \<and> dir_ok s' i m \<and> dir_frame s s' \<and>
    buffer_cache_look_up s' i (slot_ofs k) = Some e \<and> bfces s' e = Some b \<and> bfc_data b = copy_at s i k \<and>
    (\<forall>j. copy_at s' i j = copy_at s i j)"
proof -
  have fin: "finite (uncached s i m)" by (simp add: uncached_def)
  have "k \<in> uncached s i m" using k by (simp add: uncached_def)
  then have "0 < card (uncached s i m)" using fin card_gt_0_iff by blast
  then have room: "length (buffer_cache s) < 64" using dir_okD(9) [OF ok] by simp
  then have "2 \<le> length (mallocs s)" using dir_okD(8) [OF ok] by simp
  then obtain e a ps where ma: "mallocs s = e # a # ps" by (cases "mallocs s"; cases "tl (mallocs s)") auto
  have ea: "e \<noteq> 0" "a \<noteq> 0" "e \<notin> set (buffer_cache s)" "e \<notin> set ps" using dir_okD(5-7) [OF ok] ma by auto
  let ?dat = "sectors (filesys_disk s) (id_start (nd_data nd))"
  define b where "b = \<lparr>bfc_inode = i, bfc_offset = slot_ofs k, bfc_data = ?dat, num_of_accessor = 0, bfc_dirty = False,
    bfc_accessed = False, bfc_evictable = True\<rparr>"
  define s' where "s' = s\<lparr>filesys_disk := (filesys_disk s)\<lparr>read_cnt := read_cnt (filesys_disk s) + 1\<rparr>, entries := entries s + 1,
      buffer_cache := e # buffer_cache s, mallocs := ps, bfces := (bfces s)(e \<mapsto> b)\<rparr>"
  have full: "entries s < BUF_CACHE_SIZE" using dir_okD(3) [OF ok] room by (simp add: word_less_nat_alt BUF_CACHE_SIZE_def)
  have run: "buffer_cache_get_entry s i (slot_ofs k) = Some (e, s')"
    using dir_sector [OF nd k(1)] full ma ea by (simp add: buffer_cache_get_entry_def fs_malloc_def disk_read_def s'_def b_def Let_def)
  have frame: "dir_frame s s'" by (simp add: dir_frame_def s'_def)
  have look: "buffer_cache_look_up s' i ofs = (if ofs = slot_ofs k then Some e else buffer_cache_look_up s i ofs)" for ofs
  proof -
    have "look_up_loop ((bfces s)(e \<mapsto> b)) i ofs (buffer_cache s) = look_up_loop (bfces s) i ofs (buffer_cache s)"
      by (rule look_up_loop_cong) (use ea(3) in auto)
    moreover have "bfc_inode b = i" "bfc_offset b = slot_ofs k" by (simp_all add: b_def)
    ultimately show ?thesis by (simp add: buffer_cache_look_up_def s'_def)
  qed
  have "copy_at s i k = ?dat" using k(2) nd by (simp add: copy_at_def dir_inode_ok_def)
  moreover have "copy_at s' i j = copy_at s i j" for j
  proof (cases "j = k")
    case True
    then show ?thesis using look ea(1) calculation by (simp add: copy_at_def s'_def b_def)
  next
    case False
    have "copy_at s' i j = copy_at s i j"
      using ok
    proof (rule slot_look_up_cases [of s i m "slot_ofs j"])
      fix f c assume "buffer_cache_look_up s i (slot_ofs j) = Some f" "f \<in> set (buffer_cache s)" "f \<noteq> 0"
      then show ?thesis using False look ea(3) by (auto simp: copy_at_def s'_def)
    qed (use False look in \<open>simp add: copy_at_def s'_def split: option.split\<close>)
    then show ?thesis .
  qed
  moreover have "dir_ok s' i m"
  proof -
    have "uncached s' i m = uncached s i m - {k}" using look ea(1) by (auto simp: uncached_def)
    then have "card (uncached s' i m) = card (uncached s i m) - 1" using \<open>k \<in> uncached s i m\<close> by simp
    then have "length (buffer_cache s') + card (uncached s' i m) \<le> 64"
      using dir_okD(9) [OF ok] \<open>0 < card (uncached s i m)\<close> by (simp add: s'_def)
    moreover have "unat (entries s + 1) = Suc (length (buffer_cache s))"
      using dir_okD(3) [OF ok] room by (subst unat_add_u32) simp_all
    moreover have "slot_ofs k < 20 * int m" using k(1) by (simp add: slot_ofs_def DIR_ENTRY_SIZE_def)
    moreover have "length ?dat = 512" using nd by (simp add: dir_inode_ok_def)
    moreover have "dir_inode_ok s' i m nd" using nd dir_inode_frame [OF frame] by simp
    ultimately show ?thesis
      unfolding dir_ok_def using dir_okD(2,4-8) [OF ok] ea ma
      by (auto simp: s'_def b_def)
  qed
  moreover have "bfces s' e = Some b" by (simp add: s'_def)
  moreover have "bfc_data b = ?dat" by (simp add: b_def)
  ultimately show ?thesis using run ea(1) frame look [of "slot_ofs k"] by (auto intro!: exI [of _ e] exI [of _ s'] exI [of _ b])
qed

lemma slot_entry:
  assumes ok: "dir_ok s i m" and k: "k < m"
  shows "\<exists>e s' b. find_entry s i (slot_ofs k) = Some (e, s') \<and> e \<noteq> 0 \<and> dir_ok s' i m \<and> dir_frame s s' \<and>
    buffer_cache_look_up s' i (slot_ofs k) = Some e \<and> bfces s' e = Some b \<and> bfc_data b = copy_at s i k \<and>
    (\<forall>j. copy_at s' i j = copy_at s i j)"
  using ok
proof (rule slot_look_up_cases [of s i m "slot_ofs k"])
  assume "buffer_cache_look_up s i (slot_ofs k) = Some 0"
  then show ?thesis using new_slot_entry [OF ok _ k] dir_okD(1) [OF ok] by (auto simp: find_entry_def)
next
  fix e b assume "buffer_cache_look_up s i (slot_ofs k) = Some e" "e \<noteq> 0" "bfces s e = Some b"
  then show ?thesis using ok by (auto simp: find_entry_def copy_at_def intro!: exI [of _ e] exI [of _ s] exI [of _ b])
qed

lemma slot_key:
  assumes "dir_ok s i m" "buffer_cache_look_up s i ofs = Some e" "e \<noteq> 0" "bfces s e = Some b"
  shows "e \<in> set (buffer_cache s)" "bfc_inode b = i" "bfc_offset b = ofs"
  using assms(1) by (rule slot_look_up_cases [of s i m ofs]; use assms(2-4) in \<open>simp add: bfc_key_def\<close>)+

lemma slot_update:
  assumes ok: "dir_ok s i m" and e: "buffer_cache_look_up s i (slot_ofs k) = Some e" "e \<noteq> 0" "bfces s e = Some b"
    and dat: "length (bfc_data b') = 512" "bfc_key b' = bfc_key b" and s': "s' = s\<lparr>bfces := (bfces s)(e \<mapsto> b')\<rparr>"
  shows "dir_ok s' i m" "dir_frame s s'" "copy_at s' i j = (if j = k then bfc_data b' else copy_at s i j)"
    "buffer_cache_look_up s' i ofs = buffer_cache_look_up s i ofs"
proof -
  note key = slot_key [OF ok e]
  have k': "bfc_inode b' = i" "bfc_offset b' = slot_ofs k" using key dat(2) by (simp_all add: bfc_key_def)
  have look: "buffer_cache_look_up s' i ofs = buffer_cache_look_up s i ofs" for ofs
    unfolding buffer_cache_look_up_def s'
    using look_up_loop_cong [of "buffer_cache s" "(bfces s)(e \<mapsto> b')" "bfces s" i ofs] e(3) dat(2) by simp
  then show "buffer_cache_look_up s' i ofs = buffer_cache_look_up s i ofs" .
  show frame: "dir_frame s s'" by (simp add: dir_frame_def s')
  have "bfc_offset b < 20 * int m" using dir_okD(4) [OF ok key(1)] e(3) key(2) by auto
  then have "\<exists>c. bfces s' f = Some c \<and> (bfc_inode c = i \<longrightarrow> bfc_offset c < 20 * int m \<and> length (bfc_data c) = 512)"
    if "f \<in> set (buffer_cache s)" for f
    using dir_okD(4) [OF ok that] dat k' key(3) by (cases "f = e") (auto simp: s')
  moreover have "uncached s' i m = uncached s i m" by (simp add: uncached_def look)
  moreover obtain nd where "dir_inode_ok s' i m nd" using dir_okD(1) [OF ok] dir_inode_frame [OF frame] by blast
  moreover have "buffer_cache s' = buffer_cache s" "entries s' = entries s" "mallocs s' = mallocs s" by (simp_all add: s')
  ultimately show "dir_ok s' i m" unfolding dir_ok_def using dir_okD(2,3,5-9) [OF ok] by auto
  show "copy_at s' i j = (if j = k then bfc_data b' else copy_at s i j)"
  proof (cases "j = k")
    case True
    moreover have "bfces s' e = Some b'" by (simp add: s')
    ultimately show ?thesis using e unfolding copy_at_def look by simp
  next
    case False
    have "f \<noteq> e" if "buffer_cache_look_up s i (slot_ofs j) = Some f" "f \<noteq> 0" for f
      using slot_key(3) [OF ok that, of b] e(3) key(3) False by auto
    moreover have "inodes s' = inodes s" "filesys_disk s' = filesys_disk s" "bfces s' = (bfces s)(e \<mapsto> b')" by (simp_all add: s')
    ultimately show ?thesis
      using False unfolding copy_at_def look by (cases "buffer_cache_look_up s i (slot_ofs j)"; cases "inodes s i") auto
  qed
qed

lemma copy_length:
  assumes ok: "dir_ok s i m" and k: "k < m" shows "length (copy_at s i k) = 512"
  using ok
proof (rule slot_look_up_cases [of s i m "slot_ofs k"])
  assume "buffer_cache_look_up s i (slot_ofs k) = Some 0"
  moreover obtain nd where "dir_inode_ok s i m nd" using dir_okD(1) [OF ok] by blast
  ultimately show ?thesis by (simp add: copy_at_def dir_inode_ok_def)
next
  fix e b assume "buffer_cache_look_up s i (slot_ofs k) = Some e" "e \<noteq> 0" "e \<in> set (buffer_cache s)" "bfces s e = Some b"
    "bfc_key b = (i, slot_ofs k)"
  then show ?thesis using dir_okD(4) [OF ok, of e] by (auto simp: copy_at_def bfc_key_def)
qed

text \<open>The read-ahead of a slot is past the end of the directory.\<close>

lemma slot_ahead:
  assumes ok: "dir_ok s i m" shows "find_entry s i (slot_ofs k + DISK_SECTOR_SIZE) = Some (0, s)"
  using ok
proof (rule slot_look_up_cases [of s i m "slot_ofs k + DISK_SECTOR_SIZE"])
  obtain nd where nd: "dir_inode_ok s i m nd" using dir_okD(1) [OF ok] by blast
  then have "byte_to_sector s i (slot_ofs k + DISK_SECTOR_SIZE) = Some (- 1)"
    by (simp add: byte_to_sector_def dir_inode_ok_def slot_ofs_def DIR_ENTRY_SIZE_def DISK_SECTOR_SIZE_def)
  moreover assume "buffer_cache_look_up s i (slot_ofs k + DISK_SECTOR_SIZE) = Some 0"
  ultimately show ?thesis by (simp add: find_entry_def buffer_cache_get_entry_def)
next
  obtain nd where nd: "dir_inode_ok s i m nd" using dir_okD(1) [OF ok] by blast
  fix e b assume "e \<in> set (buffer_cache s)" "bfces s e = Some b" "bfc_key b = (i, slot_ofs k + DISK_SECTOR_SIZE)"
  then have "slot_ofs k + DISK_SECTOR_SIZE < 20 * int m" using dir_okD(4) [OF ok, of e] by (auto simp: bfc_key_def)
  then show ?thesis using nd by (simp add: dir_inode_ok_def slot_ofs_def DIR_ENTRY_SIZE_def DISK_SECTOR_SIZE_def)
qed

lemma slot_chunk:
  assumes "dir_inode_ok s i m nd"
  shows "k < m \<Longrightarrow> chunk_size s i 20 (slot_ofs k) = Some 20" "chunk_size s i sz (slot_ofs m) = Some (min sz 0)"
    "k < m \<Longrightarrow> slot_ofs k smod DISK_SECTOR_SIZE = 20 * int k"
proof -
  have m: "0 \<le> slot_ofs j" "slot_ofs j = 20 * int j" for j by (simp_all add: slot_ofs_def DIR_ENTRY_SIZE_def)
  have b: "\<exists>w. byte_to_sector s i ofs = Some w" for ofs using assms by (simp add: byte_to_sector_def dir_inode_ok_def)
  have md: "slot_ofs j smod DISK_SECTOR_SIZE = 20 * int j" if "j \<le> m" for j
    using m [of j] that assms by (simp add: DISK_SECTOR_SIZE_def sdiv_smod_512 dir_inode_ok_def)
  show "chunk_size s i 20 (slot_ofs k) = Some 20" if "k < m"
    using b [of "slot_ofs k"] that assms md [of k]
    by (auto simp: chunk_size_def inode_length_def dir_inode_ok_def DISK_SECTOR_SIZE_def m(2) int_fits_def Let_def)
  show "chunk_size s i sz (slot_ofs m) = Some (min sz 0)"
    using b [of "slot_ofs m"] assms md [of m]
    by (auto simp: chunk_size_def inode_length_def dir_inode_ok_def DISK_SECTOR_SIZE_def m(2) int_fits_def Let_def)
  show "k < m \<Longrightarrow> slot_ofs k smod DISK_SECTOR_SIZE = 20 * int k" using md by simp
qed

lemma nat_20: "nat (20 * int k) = 20 * k"
  by simp

lemma read_slot:
  assumes ok: "dir_ok s i m" and k: "k < m"
  shows "\<exists>s'. inode_read_at s i DIR_ENTRY_SIZE (slot_ofs k) = Some (Ret (slot s i k), s') \<and> dir_ok s' i m \<and> dir_frame s s' \<and>
    (\<forall>j. slot s' i j = slot s i j)" and "length (slot s i k) = 20"
proof -
  obtain nd where nd: "dir_inode_ok s i m nd" using dir_okD(1) [OF ok] by blast
  have m: "m \<le> 25" using nd by (simp add: dir_inode_ok_def)
  show len: "length (slot s i k) = 20" using copy_length [OF ok k] k m by (simp add: slot_def)
  obtain e s1 b where e: "find_entry s i (slot_ofs k) = Some (e, s1)" "e \<noteq> 0" "dir_ok s1 i m" "dir_frame s s1"
    "buffer_cache_look_up s1 i (slot_ofs k) = Some e" "bfces s1 e = Some b" "bfc_data b = copy_at s i k"
    "\<forall>j. copy_at s1 i j = copy_at s i j"
    using slot_entry [OF ok k] by blast
  define s2 where "s2 = s1\<lparr>bfces := (bfces s1)(e \<mapsto> b\<lparr>bfc_accessed := True\<rparr>)\<rparr>"
  have l: "length (bfc_data (b\<lparr>bfc_accessed := True\<rparr>)) = 512" using copy_length [OF ok k] e(7) by simp
  have kk: "bfc_key (b\<lparr>bfc_accessed := True\<rparr>) = bfc_key b" by (simp add: bfc_key_def)
  note u = slot_update [OF e(3,5,2,6) l kk s2_def]
  have "copy_out (bfc_data b) (20 * int k) 20 = Some (slot s i k)"
    using l k m e(7) nat_20 [of k] by (simp add: copy_out_def slot_def)
  moreover have "int_fits (slot_ofs k + DISK_SECTOR_SIZE)" using k m by (simp add: slot_ofs_def DIR_ENTRY_SIZE_def DISK_SECTOR_SIZE_def int_fits_def)
  ultimately have r: "buffer_cache_read s i (slot_ofs k) 20 = Some (Ret (slot s i k), s2)"
    using e(1,2,6) slot_chunk(3) [OF nd k] slot_ahead [OF u(1), of k]
    by (simp add: buffer_cache_read_def upd_bfce_def s2_def Let_def)
  have fits: "int_fits (slot_ofs k + 20)" using k m by (simp add: slot_ofs_def DIR_ENTRY_SIZE_def int_fits_def)
  have "inode_read_at s i DIR_ENTRY_SIZE (slot_ofs k) = Some (Ret (slot s i k), s2)"
    unfolding inode_read_at_def using r slot_chunk(1) [OF nd k] fits
    by (subst inode_read_loop.simps) (simp add: DIR_ENTRY_SIZE_def read_nothing)
  moreover have "slot s2 i j = slot s i j" for j using u(3) [of j] e(7,8) by (simp add: slot_def)
  ultimately show "\<exists>s'. inode_read_at s i DIR_ENTRY_SIZE (slot_ofs k) = Some (Ret (slot s i k), s') \<and> dir_ok s' i m \<and> dir_frame s s' \<and>
      (\<forall>j. slot s' i j = slot s i j)"
    using u(1,2) e(4) dir_frame_trans by blast
qed

lemma read_end: "dir_ok s i m \<Longrightarrow> inode_read_at s i DIR_ENTRY_SIZE (slot_ofs m) = Some (Ret [], s)"
  using dir_okD(1) [of s i m] slot_chunk(2) [of s i m _ 20] unfolding inode_read_at_def
  by (subst inode_read_loop.simps) (auto simp: DIR_ENTRY_SIZE_def)

lemma write_end: "dir_ok s i m \<Longrightarrow> inode_write_at s i bs (slot_ofs m) = Some (Ret 0, s)"
  using dir_okD(1) [of s i m] slot_chunk(2) [of s i m _ "int (length bs)"] unfolding inode_write_at_def
  by (auto simp: dir_inode_ok_def inode_write_loop.simps)

lemma write_slot:
  assumes ok: "dir_ok s i m" and k: "k < m" and bs: "length bs = 20"
  shows "\<exists>s'. inode_write_at s i bs (slot_ofs k) = Some (Ret DIR_ENTRY_SIZE, s') \<and> dir_ok s' i m \<and> dir_frame s s' \<and>
    (\<forall>j. slot s' i j = (if j = k then bs else slot s i j))"
proof -
  obtain nd where nd: "dir_inode_ok s i m nd" using dir_okD(1) [OF ok] by blast
  have m: "m \<le> 25" using nd by (simp add: dir_inode_ok_def)
  obtain e s1 b where e: "find_entry s i (slot_ofs k) = Some (e, s1)" "e \<noteq> 0" "dir_ok s1 i m" "dir_frame s s1"
    "buffer_cache_look_up s1 i (slot_ofs k) = Some e" "bfces s1 e = Some b" "bfc_data b = copy_at s i k"
    "\<forall>j. copy_at s1 i j = copy_at s i j"
    using slot_entry [OF ok k] by blast
  define dat where "dat = take (20 * k) (bfc_data b) @ bs @ drop (20 * k + 20) (bfc_data b)"
  define b' where "b' = b\<lparr>bfc_data := dat, bfc_dirty := True, bfc_accessed := True\<rparr>"
  define s2 where "s2 = s1\<lparr>bfces := (bfces s1)(e \<mapsto> b')\<rparr>"
  have lb: "length (bfc_data b) = 512" using copy_length [OF ok k] e(7) by simp
  then have l: "length (bfc_data b') = 512" using bs k m by (simp add: dat_def b'_def)
  have kk: "bfc_key b' = bfc_key b" by (simp add: bfc_key_def b'_def)
  note u = slot_update [OF e(3,5,2,6) l kk s2_def]
  have "copy_in (bfc_data b) (20 * int k) bs = Some dat"
    using lb k m bs nat_20 [of k] by (simp add: copy_in_def dat_def)
  then have w: "buffer_cache_write s i (slot_ofs k) bs = Some (Ret 20, s2)"
    using e(1,2,6) slot_chunk(3) [OF nd k] bs by (simp add: buffer_cache_write_def upd_bfce_def s2_def b'_def Let_def)
  have fits: "int_fits (slot_ofs k + 20)" using k m by (simp add: slot_ofs_def DIR_ENTRY_SIZE_def int_fits_def)
  have "bs \<noteq> []" using bs by auto
  then have "inode_write_at s i bs (slot_ofs k) = Some (Ret DIR_ENTRY_SIZE, s2)"
    unfolding inode_write_at_def using w slot_chunk(1) [OF nd k] fits bs nd
    by (simp add: DIR_ENTRY_SIZE_def dir_inode_ok_def inode_write_loop.simps)
  moreover have "slot s2 i j = (if j = k then bs else slot s i j)" for j
    using u(3) [of j] e(7,8) lb k m bs by (simp add: slot_def b'_def dat_def)
  ultimately show ?thesis using u(1,2) e(4) dir_frame_trans by blast
qed

subsection \<open>Directories as maps\<close>

definition slot_named :: "u8 list \<Rightarrow> u8 list \<Rightarrow> bool" where
  "slot_named nm e \<longleftrightarrow> de_in_use e \<and> de_name e = Some nm"

definition names_ok :: "fs \<Rightarrow> ptr \<Rightarrow> nat \<Rightarrow> bool" where
  "names_ok s i m \<longleftrightarrow> (\<forall>k < m. de_in_use (slot s i k) \<longrightarrow> de_name (slot s i k) \<noteq> None)"

definition dir_map :: "fs \<Rightarrow> ptr \<Rightarrow> nat \<Rightarrow> u8 list \<Rightarrow> u32 option" where
  "dir_map s i m nm = map_option (\<lambda>k. de_sector (slot s i k)) (find (\<lambda>k. slot_named nm (slot s i k)) [0..<m])"

definition same_slots :: "fs \<Rightarrow> fs \<Rightarrow> ptr \<Rightarrow> bool" where
  "same_slots s s' i \<longleftrightarrow> (\<forall>k. slot s' i k = slot s i k)"

lemma lookup_loop_ok:
  "dir_ok s i m \<Longrightarrow> names_ok s i m \<Longrightarrow> k \<le> m \<Longrightarrow>
    \<exists>s'. lookup_loop i nm (slot_ofs k) s =
        Some (Ret (map_option (\<lambda>j. (slot s i j, slot_ofs j)) (find (\<lambda>j. slot_named nm (slot s i j)) [k..<m])), s') \<and>
      dir_ok s' i m \<and> dir_frame s s' \<and> same_slots s s' i"
proof (induction "m - k" arbitrary: k s)
  case 0
  then show ?case using read_end [OF "0.prems"(1)]
    by (subst lookup_loop.simps) (auto simp: DIR_ENTRY_SIZE_def same_slots_def)
next
  case (Suc d)
  then have k: "k < m" and dk: "d = m - Suc k" by simp_all
  obtain s1 where r: "inode_read_at s i DIR_ENTRY_SIZE (slot_ofs k) = Some (Ret (slot s i k), s1)" "dir_ok s1 i m" "dir_frame s s1"
    "\<And>j. slot s1 i j = slot s i j"
    using read_slot(1) [OF Suc.prems(1) k] by blast
  have len: "int (length (slot s i k)) = DIR_ENTRY_SIZE" using read_slot(2) [OF Suc.prems(1) k] by (simp add: DIR_ENTRY_SIZE_def)
  have upt: "[k..<m] = k # [Suc k..<m]" using k by (rule upt_conv_Cons)
  have nx: "slot_ofs k + DIR_ENTRY_SIZE = slot_ofs (Suc k)" by (simp add: slot_ofs_def DIR_ENTRY_SIZE_def)
  have same: "(if de_in_use (slot s i k) then map_option (\<lambda>n. n = nm) (de_name (slot s i k)) else Some False) =
      Some (slot_named nm (slot s i k))"
    using Suc.prems(2) k by (auto simp: names_ok_def slot_named_def)
  have step: "lookup_loop i nm (slot_ofs k) s =
      (if slot_named nm (slot s i k) then Some (Ret (Some (slot s i k, slot_ofs k)), s1) else lookup_loop i nm (slot_ofs (Suc k)) s1)"
    using r(1) len same nx by (subst lookup_loop.simps) simp
  show ?case
  proof (cases "slot_named nm (slot s i k)")
    case True
    then show ?thesis using r step by (auto simp: upt same_slots_def)
  next
    case False
    have n1: "names_ok s1 i m" using Suc.prems(2) r(4) by (simp add: names_ok_def)
    obtain s2 where "lookup_loop i nm (slot_ofs (Suc k)) s1 =
        Some (Ret (map_option (\<lambda>j. (slot s i j, slot_ofs j)) (find (\<lambda>j. slot_named nm (slot s i j)) [Suc k..<m])), s2)"
      "dir_ok s2 i m" "dir_frame s1 s2" "same_slots s1 s2 i"
      using Suc.hyps(1) [OF dk r(2) n1] k unfolding r(4) by (auto simp: Suc_le_eq)
    then show ?thesis using step False r(3,4) dir_frame_trans [OF r(3)] by (auto simp: upt same_slots_def)
  qed
qed

lemma free_slot_ok:
  "dir_ok s i m \<Longrightarrow> k \<le> m \<Longrightarrow> length g = 20 \<Longrightarrow>
    \<exists>s' e. free_slot i (slot_ofs k) g s =
        Some (Ret (e, case find (\<lambda>j. \<not> de_in_use (slot s i j)) [k..<m] of Some j \<Rightarrow> slot_ofs j | None \<Rightarrow> slot_ofs m), s') \<and>
      length e = 20 \<and> dir_ok s' i m \<and> dir_frame s s' \<and> same_slots s s' i"
proof (induction "m - k" arbitrary: k s g)
  case 0
  then show ?case using read_end [OF "0.prems"(1)]
    by (subst free_slot.simps) (auto simp: DIR_ENTRY_SIZE_def same_slots_def)
next
  case (Suc d)
  then have k: "k < m" and dk: "d = m - Suc k" by simp_all
  obtain s1 where r: "inode_read_at s i DIR_ENTRY_SIZE (slot_ofs k) = Some (Ret (slot s i k), s1)" "dir_ok s1 i m" "dir_frame s s1"
    "\<And>j. slot s1 i j = slot s i j"
    using read_slot(1) [OF Suc.prems(1) k] by blast
  have len: "length (slot s i k) = 20" by (rule read_slot(2) [OF Suc.prems(1) k])
  have upt: "[k..<m] = k # [Suc k..<m]" using k by (rule upt_conv_Cons)
  have nx: "slot_ofs k + DIR_ENTRY_SIZE = slot_ofs (Suc k)" by (simp add: slot_ofs_def DIR_ENTRY_SIZE_def)
  have step: "free_slot i (slot_ofs k) g s =
      (if \<not> de_in_use (slot s i k) then Some (Ret (slot s i k, slot_ofs k), s1) else free_slot i (slot_ofs (Suc k)) (slot s i k) s1)"
    using r(1) len Suc.prems(3) nx by (subst free_slot.simps) (simp add: DIR_ENTRY_SIZE_def Let_def)
  show ?case
  proof (cases "de_in_use (slot s i k)")
    case False
    then show ?thesis using r step len by (auto simp: upt same_slots_def)
  next
    case True
    obtain s2 e where "free_slot i (slot_ofs (Suc k)) (slot s i k) s1 =
        Some (Ret (e, case find (\<lambda>j. \<not> de_in_use (slot s i j)) [Suc k..<m] of Some j \<Rightarrow> slot_ofs j | None \<Rightarrow> slot_ofs m), s2)"
      "length e = 20" "dir_ok s2 i m" "dir_frame s1 s2" "same_slots s1 s2 i"
      using Suc.hyps(1) [OF dk r(2) _ len] k unfolding r(4) by (auto simp: Suc_le_eq)
    then show ?thesis using step True r(3,4) dir_frame_trans [OF r(3)] by (auto simp: upt same_slots_def)
  qed
qed

lemma takeWhile_terminated: "0 \<notin> set nm \<Longrightarrow> takeWhile (\<lambda>c. c \<noteq> 0) (nm @ 0 # r) = nm" for nm :: "u8 list"
  by (induction nm) auto

lemma new_entry_facts:
  assumes "length e = 20" "length nm \<le> NAME_MAX" "0 \<notin> set nm"
  shows "length (new_entry e nm sec) = 20" "slot_named nm (new_entry e nm sec)" "de_sector (new_entry e nm sec) = sec"
proof -
  let ?r = "drop (Suc (length nm)) (take 15 (drop 4 e))"
  have len: "length nm \<le> 14" "length (nm @ 0 # ?r) = 15" using assms(1,2) by (auto simp: NAME_MAX_def)
  show "length (new_entry e nm sec) = 20" using len assms(1) by (simp add: new_entry_def)
  define x where "x = nm @ 0 # ?r"
  have e: "new_entry e nm sec = word_bytes sec @ x @ [1]" and lx: "length x = 15" using len(2) by (simp_all add: new_entry_def x_def)
  have raw: "take 15 (drop 4 (new_entry e nm sec)) = nm @ 0 # ?r" unfolding e using lx by (simp add: x_def [symmetric])
  have "new_entry e nm sec ! 19 = 1" unfolding e using lx by (simp add: nth_append)
  then show "slot_named nm (new_entry e nm sec)"
    using takeWhile_terminated [OF assms(3), of ?r] by (simp add: slot_named_def de_in_use_def de_name_def raw Let_def)
  show "de_sector (new_entry e nm sec) = sec" by (simp add: de_sector_def new_entry_def word_of_bytes)
qed

lemma same_slots_map: "same_slots s s' i \<Longrightarrow> dir_map s' i m = dir_map s i m" "same_slots s s' i \<Longrightarrow> names_ok s' i m = names_ok s i m"
  by (auto simp: same_slots_def dir_map_def names_ok_def)

lemma dir_map_None: "dir_map s i m nm = None \<longleftrightarrow> (\<forall>k < m. \<not> slot_named nm (slot s i k))"
  by (auto simp: dir_map_def find_None_iff)

lemma find_unique:
  assumes "k < m" "\<And>j. j < m \<Longrightarrow> P j \<longleftrightarrow> j = k" shows "find P [0..<m] = Some k"
  unfolding find_Some_iff using assms by (intro exI [of _ k]) auto

lemma dir_map_add:
  assumes k: "k < m" "\<not> de_in_use (slot s i k)" and new: "slot_named nm e" and none: "dir_map s i m nm = None"
    and s': "\<And>j. slot s' i j = (if j = k then e else slot s i j)"
  shows "dir_map s' i m = (dir_map s i m)(nm \<mapsto> de_sector e)"
proof
  fix nm'
  show "dir_map s' i m nm' = ((dir_map s i m)(nm \<mapsto> de_sector e)) nm'"
  proof (cases "nm' = nm")
    case True
    have "find (\<lambda>j. slot_named nm (slot s' i j)) [0..<m] = Some k"
      using none new k(1) by (intro find_unique) (auto simp: s' dir_map_None)
    then show ?thesis using True by (simp add: dir_map_def s')
  next
    case False
    have eq: "slot_named nm' (slot s' i j) \<longleftrightarrow> slot_named nm' (slot s i j)" for j
      using False new k(2) by (auto simp: s' slot_named_def)
    have "de_sector (slot s' i j) = de_sector (slot s i j)" if "find (\<lambda>j. slot_named nm' (slot s i j)) [0..<m] = Some j" for j
    proof -
      have "slot_named nm' (slot s i j)" using that by (auto simp: find_Some_iff)
      then show ?thesis using k(2) by (auto simp: s' slot_named_def)
    qed
    then show ?thesis using False unfolding dir_map_def eq by (cases "find (\<lambda>j. slot_named nm' (slot s i j)) [0..<m]") auto
  qed
qed

lemma slot_ofs_0: "slot_ofs 0 = 0"
  by (simp add: slot_ofs_def)

lemma lookup_ok:
  assumes "dir_ok s i m" "names_ok s i m" "d \<noteq> 0" "dirs s d = Some dr" "d_inode dr = i"
  shows "\<exists>r s'. lookup s d nm = Some (Ret r, s') \<and> map_option (\<lambda>(e, _). de_sector e) r = dir_map s i m nm \<and>
    dir_ok s' i m \<and> dir_frame s s' \<and> same_slots s s' i"
  using lookup_loop_ok [OF assms(1,2), of 0 nm] assms(3-5)
  by (auto simp: lookup_def slot_ofs_0 dir_map_def option.map_comp comp_def)

lemma dir_add_ok:
  assumes ok: "dir_ok s i m" "names_ok s i m" and d: "d \<noteq> 0" "dirs s d = Some dr" "d_inode dr = i"
    and nm: "0 \<notin> set nm" "length garbage = 20"
  shows "\<exists>r s'. dir_add s d nm sec garbage = Some (Ret r, s') \<and> dir_ok s' i m \<and> names_ok s' i m \<and>
    (r \<longleftrightarrow> nm \<noteq> [] \<and> length nm \<le> NAME_MAX \<and> dir_map s i m nm = None \<and> (\<exists>k < m. \<not> de_in_use (slot s i k))) \<and>
    dir_map s' i m = (if r then (dir_map s i m)(nm \<mapsto> sec) else dir_map s i m)"
proof (cases "nm = [] \<or> length nm > NAME_MAX")
  case True
  then show ?thesis using ok d(1) by (auto simp: dir_add_def)
next
  case valid: False
  obtain r s1 where l: "lookup s d nm = Some (Ret r, s1)" "map_option (\<lambda>(e, _). de_sector e) r = dir_map s i m nm" "dir_ok s1 i m"
    "dir_frame s s1" "same_slots s s1 i"
    using lookup_ok [OF ok d] by blast
  have d1: "dirs s1 d = Some dr" using l(4) d(2) by (simp add: dir_frame_def)
  have n1: "names_ok s1 i m" "dir_map s1 i m = dir_map s i m" using same_slots_map [OF l(5)] ok(2) by simp_all
  show ?thesis
  proof (cases r)
    case (Some x)
    then have "dir_map s i m nm \<noteq> None" using l(2) [symmetric] by simp
    then show ?thesis using Some valid l d(1) n1 by (auto simp: dir_add_def)
  next
    case None
    then have none: "dir_map s i m nm = None" using l(2) [symmetric] by simp
    obtain s2 e where f: "free_slot i (slot_ofs 0) garbage s1 =
        Some (Ret (e, case find (\<lambda>j. \<not> de_in_use (slot s1 i j)) [0..<m] of Some j \<Rightarrow> slot_ofs j | None \<Rightarrow> slot_ofs m), s2)"
      "length e = 20" "dir_ok s2 i m" "dir_frame s1 s2" "same_slots s1 s2 i"
      using free_slot_ok [OF l(3), of 0 garbage] nm(2) by blast
    have same: "same_slots s s2 i" using l(5) f(5) by (simp add: same_slots_def)
    have ne: "length (new_entry e nm sec) = 20" "slot_named nm (new_entry e nm sec)" "de_sector (new_entry e nm sec) = sec"
      using new_entry_facts [OF f(2) _ nm(1)] valid by auto
    have step: "dir_add s d nm sec garbage = and_then (inode_write_at s2 i (new_entry e nm sec)
        (case find (\<lambda>j. \<not> de_in_use (slot s i j)) [0..<m] of Some j \<Rightarrow> slot_ofs j | None \<Rightarrow> slot_ofs m))
        (\<lambda>k s. Some (Ret (k = DIR_ENTRY_SIZE), s))"
      using valid l(1) None d(1) d1 d(3) f(1) l(5) by (simp add: dir_add_def slot_ofs_0 same_slots_def)
    show ?thesis
    proof (cases "find (\<lambda>j. \<not> de_in_use (slot s i j)) [0..<m]")
      case full: None
      then have "\<not> (\<exists>k < m. \<not> de_in_use (slot s i k))" by (auto simp: find_None_iff)
      moreover have "dir_add s d nm sec garbage = Some (Ret False, s2)"
        using step full write_end [OF f(3)] by (simp add: DIR_ENTRY_SIZE_def)
      ultimately show ?thesis using f(3) same_slots_map [OF same] ok(2) by auto
    next
      case (Some k)
      then have k: "k < m" "\<not> de_in_use (slot s i k)" by (auto simp: find_Some_iff)
      obtain s3 where w: "inode_write_at s2 i (new_entry e nm sec) (slot_ofs k) = Some (Ret DIR_ENTRY_SIZE, s3)" "dir_ok s3 i m"
        "\<forall>j. slot s3 i j = (if j = k then new_entry e nm sec else slot s2 i j)"
        using write_slot [OF f(3) k(1) ne(1)] by blast
      then have s3: "slot s3 i j = (if j = k then new_entry e nm sec else slot s i j)" for j using same by (simp add: same_slots_def)
      have "names_ok s3 i m" using ok(2) ne(2) by (auto simp: names_ok_def s3 slot_named_def)
      moreover have "dir_map s3 i m = (dir_map s i m)(nm \<mapsto> sec)" using dir_map_add [OF k ne(2) none s3] ne(3) by simp
      moreover have "dir_add s d nm sec garbage = Some (Ret True, s3)" using step Some w(1) by simp
      ultimately show ?thesis using w(2) valid none k by (intro exI [of _ True] exI [of _ s3]) auto
    qed
  qed
qed

subsection \<open>Properties\<close>

text \<open>C13. A directory that fits a sector and stays in the buffer cache is a map from names to inode sectors: a lookup finds the sector of
  a name, and \<^verbatim>\<open>dir_add\<close> adds a name exactly if it is valid, not there yet and a slot is free; otherwise it
  changes nothing. No other name is affected, and neither operation fails or panics.\<close>
theorem directory_is_map:
  assumes "dir_ok s i m" "names_ok s i m" "d \<noteq> 0" "dirs s d = Some dr" "d_inode dr = i" "0 \<notin> set nm" "length garbage = 20"
  shows "(\<exists>r s'. lookup s d nm = Some (Ret r, s') \<and> map_option (\<lambda>(e, _). de_sector e) r = dir_map s i m nm \<and>
      dir_ok s' i m \<and> dir_map s' i m = dir_map s i m) \<and>
    (\<exists>r s'. dir_add s d nm sec garbage = Some (Ret r, s') \<and> dir_ok s' i m \<and> names_ok s' i m \<and>
      (r \<longleftrightarrow> nm \<noteq> [] \<and> length nm \<le> NAME_MAX \<and> dir_map s i m nm = None \<and> (\<exists>k < m. \<not> de_in_use (slot s i k))) \<and>
      dir_map s' i m = (if r then (dir_map s i m)(nm \<mapsto> sec) else dir_map s i m))"
  using lookup_ok [OF assms(1-5), of nm] dir_add_ok [OF assms] same_slots_map(1) by blast

definition empty_root :: fs where
  "empty_root = example_fs\<lparr>inodes := [8 \<mapsto> \<lparr>nd_sector = 1, open_cnt = 1, removed = False, deny_write_cnt = 0,
     nd_data = \<lparr>id_start = 10, id_length = 320, id_magic = INODE_MAGIC\<rparr>\<rparr>], dirs := [16 \<mapsto> \<lparr>d_inode = 8, d_pos = 0\<rparr>]\<rparr>"

lemma empty_root_ok: "dir_ok empty_root 8 16"
proof -
  let ?nd = "\<lparr>nd_sector = 1, open_cnt = 1, removed = False, deny_write_cnt = 0,
     nd_data = \<lparr>id_start = 10, id_length = 320, id_magic = INODE_MAGIC\<rparr>\<rparr>"
  have "dir_inode_ok empty_root 8 16 ?nd" by (simp add: dir_inode_ok_def empty_root_def example_fs_def)
  moreover have "card (uncached empty_root 8 16) \<le> card {..<16 :: nat}" by (rule card_mono) (auto simp: uncached_def)
  ultimately show ?thesis
    unfolding dir_ok_def using fresh_ptrs [of 128] fresh_ptrs(2) [of 0 128]
    by (intro conjI exI [of _ ?nd]) (simp_all add: empty_root_def example_fs_def)
qed

lemma empty_root_slots: "k < 16 \<Longrightarrow> \<not> de_in_use (slot empty_root 8 k)"
  by (simp add: slot_def copy_at_def de_in_use_def buffer_cache_look_up_def empty_root_def example_fs_def)

theorem directory_is_map_witness:
  "\<exists>s'. dir_add empty_root 16 [97, 98] 5 (replicate 20 7) = Some (Ret True, s') \<and> dir_map s' 8 16 [97, 98] = Some 5"
proof -
  have n: "names_ok empty_root 8 16" "dir_map empty_root 8 16 [97, 98] = None"
    using empty_root_slots by (auto simp: names_ok_def dir_map_None slot_named_def)
  have d: "dirs empty_root 16 = Some \<lparr>d_inode = 8, d_pos = 0\<rparr>" by (simp add: empty_root_def)
  obtain r s' where r: "dir_add empty_root 16 [97, 98] 5 (replicate 20 7) = Some (Ret r, s')"
    "r \<longleftrightarrow> [97, 98 :: u8] \<noteq> [] \<and> length [97, 98 :: u8] \<le> NAME_MAX \<and> dir_map empty_root 8 16 [97, 98] = None \<and>
      (\<exists>k < 16. \<not> de_in_use (slot empty_root 8 k))"
    "dir_map s' 8 16 = (if r then (dir_map empty_root 8 16)([97, 98] \<mapsto> 5) else dir_map empty_root 8 16)"
    using directory_is_map [OF empty_root_ok n(1) _ d, where nm = "[97, 98]" and garbage = "replicate 20 7" and sec = 5] by auto
  moreover have r using r(2) n(2) empty_root_slots [of 0] by (auto simp: NAME_MAX_def)
  ultimately show ?thesis by simp
qed

end
