(* ===== verification/Swap.thy ===== *)
theory Swap
  imports Buf_Cache Cmem
begin

section \<open>The swap partition (vm/swap.c)\<close>

text \<open>
  A page that loses its frame is written to a slot of eight consecutive sectors of the swap disk. Slots below \<open>swap_cnt\<close> have been
  handed out before; the ones that are free again are kept in a list sorted by their first sector, and \<open>swap_cnt\<close> goes down when the
  slots right below it become free. A \<^verbatim>\<open>struct slot\<close> is found by its address. The addresses that
  \<^verbatim>\<open>malloc\<close> returns are the list \<open>ms\<close>. The theory shows that slots in use never overlap, that a page is read back
  as it was written, and that no space is lost.
\<close>

subsection \<open>Moving blocks between memory and a buffer\<close>

primrec load_bytes :: "mem \<Rightarrow> ptr \<Rightarrow> nat \<Rightarrow> u8 list option" where
  "load_bytes m p 0 = Some []"
| "load_bytes m p (Suc n) = do { b \<leftarrow> m p; bs \<leftarrow> load_bytes m (p + 1) n; Some (b # bs) }"

primrec store_bytes :: "mem \<Rightarrow> ptr \<Rightarrow> u8 list \<Rightarrow> mem option" where
  "store_bytes m p [] = Some m"
| "store_bytes m p (b # bs) = do { m \<leftarrow> store8 m p b; store_bytes m (p + 1) bs }"

lemma load_bytes_eq: "load_bytes m p n = Some bs \<longleftrightarrow> length bs = n \<and> bytes_at m p bs"
proof (induction n arbitrary: p bs)
  case (Suc n)
  show ?case by (cases bs) (auto simp: Suc bind_eq_Some_conv)
qed auto

lemma store_bytes_put:
  "mapped m p (length bs) \<Longrightarrow> length bs \<le> 2 ^ 32 \<Longrightarrow> store_bytes m p bs = Some (put m p bs)"
proof (induction bs arbitrary: m p)
  case (Cons b bs)
  have l: "length bs \<le> 2 ^ 32" "length bs < 2 ^ 32" using Cons.prems(2) by simp_all
  have "mapped (m(p \<mapsto> b)) (p + 1) (length bs)" using Cons.prems(1) by (auto simp: mapped_Suc intro: mapped_upd)
  from Cons.IH [OF this l(1)] have "store_bytes (m(p \<mapsto> b)) (p + 1) bs = Some (put m p (b # bs))"
    unfolding put_Cons [OF l(2)] .
  then show ?case using Cons.prems(1) by (simp add: store8_def mapped_Suc)
qed simp

definition next_malloc :: "ptr list \<Rightarrow> ptr \<times> ptr list" where
  "next_malloc ms = (case ms of [] \<Rightarrow> (0, []) | p # ps \<Rightarrow> (p, ps))"

subsection \<open>The code\<close>

record swap =
  partition :: disk
  slots :: "ptr \<Rightarrow> u32 option"
  free_swap :: "ptr list"
  swap_cnt :: u32
  slots_in_disk :: u32
  page_sectors :: u32

text \<open>\<^verbatim>\<open>disk_read\<close> and \<^verbatim>\<open>disk_write\<close> on the disk given as argument.\<close>

definition disk_get_sector :: "disk \<Rightarrow> u32 \<Rightarrow> (u8 list \<times> disk) option" where
  "disk_get_sector d sec_no = do { select_sector d sec_no; Some (sectors d sec_no, d\<lparr>read_cnt := read_cnt d + 1\<rparr>) }"

definition disk_put_sector :: "disk \<Rightarrow> u32 \<Rightarrow> u8 list \<Rightarrow> disk option" where
  "disk_put_sector d sec_no buffer = do {
     select_sector d sec_no;
     Some (d\<lparr>sectors := (sectors d)(sec_no := buffer), write_cnt := write_cnt d + 1\<rparr>)
   }"

lemma disk_read_get: "disk_read s n = map_option (\<lambda>(bs, d). (bs, s\<lparr>filesys_disk := d\<rparr>)) (disk_get_sector (filesys_disk s) n)"
  by (cases "select_sector (filesys_disk s) n") (auto simp: disk_read_def disk_get_sector_def Let_def)

lemma disk_write_put: "disk_write s n bs = map_option (\<lambda>d. s\<lparr>filesys_disk := d\<rparr>) (disk_put_sector (filesys_disk s) n bs)"
  by (cases "select_sector (filesys_disk s) n") (auto simp: disk_write_def disk_put_sector_def Let_def)

text \<open>The loop that counts the sectors of a page.\<close>

function count_sectors :: "int \<Rightarrow> u32 \<Rightarrow> u32" where
  "count_sectors s n = (if s < 4096 then count_sectors (s + DISK_SECTOR_SIZE) (n + 1) else n)"
  by pat_completeness auto
termination by (relation "measure (\<lambda>(s, _). nat (4096 - s))") (auto simp: DISK_SECTOR_SIZE_def)

declare count_sectors.simps [simp del]

text \<open>\<open>disk_get(1, 1)\<close> finds a disk or not.\<close>

definition swap_init :: "disk option \<Rightarrow> swap option" where
  "swap_init part = do {
     d \<leftarrow> part;
     Some \<lparr>partition = d, slots = (\<lambda>_. None), free_swap = [], swap_cnt = 0, slots_in_disk = disk_size d,
       page_sectors = count_sectors 0 0\<rparr>
   }"

text \<open>The loops over the sectors of a page; they start with \<open>i\<close> and \<open>j\<close> zero. The result is the sector after the last one.\<close>

function write_sectors :: "mem \<Rightarrow> ptr \<Rightarrow> u32 \<Rightarrow> u32 \<Rightarrow> u32 \<Rightarrow> disk \<Rightarrow> (u32 \<times> disk) option" where
  "write_sectors m buffer i j sector d =
    (if j < 4096
     then do {
       b \<leftarrow> load_bytes m (buffer + i * 512) 512;
       d \<leftarrow> disk_put_sector d sector b;
       write_sectors m buffer (i + 1) (j + 512) (sector + 1) d
     }
     else Some (sector, d))"
  by pat_completeness auto
termination
  by (relation "measure (\<lambda>(_, _, _, j, _, _). 5000 - unat j)") (auto simp: word_less_nat_alt unat_add_u32)

function read_sectors :: "ptr \<Rightarrow> u32 \<Rightarrow> u32 \<Rightarrow> u32 \<Rightarrow> disk \<Rightarrow> mem \<Rightarrow> (mem \<times> disk) option" where
  "read_sectors buffer i j sector d m =
    (if j < 4096
     then do {
       (b, d) \<leftarrow> disk_get_sector d sector;
       m \<leftarrow> store_bytes m (buffer + i * 512) b;
       read_sectors buffer (i + 1) (j + 512) (sector + 1) d m
     }
     else Some (m, d))"
  by pat_completeness auto
termination
  by (relation "measure (\<lambda>(_, _, j, _, _, _). 5000 - unat j)") (auto simp: word_less_nat_alt unat_add_u32)

declare write_sectors.simps [simp del] read_sectors.simps [simp del]

definition write_swap :: "swap \<Rightarrow> ptr list \<Rightarrow> mem \<Rightarrow> ptr \<Rightarrow> (ptr \<times> swap \<times> ptr list) option" where
  "write_swap s ms m buffer = do {
     let (b, ms) = next_malloc ms;
     kassert (b \<noteq> 0);
     (sl, increment, s, ms) \<leftarrow> (case free_swap s of
         e # es \<Rightarrow> Some (e, False, s\<lparr>free_swap := es\<rparr>, ms)
       | [] \<Rightarrow> do {
           kassert (\<not> swap_cnt s \<ge> slots_in_disk s);
           let (p, ms) = next_malloc ms;
           kassert (p \<noteq> 0);
           Some (p, True, s\<lparr>slots := (slots s)(p \<mapsto> swap_cnt s)\<rparr>, ms)
         });
     start \<leftarrow> slots s sl;
     (sector, d) \<leftarrow> write_sectors m buffer 0 0 start (partition s);
     let s = s\<lparr>partition := d\<rparr>;
     Some (sl, (if increment then s\<lparr>swap_cnt := sector\<rparr> else s), ms)
   }"

text \<open>\<^verbatim>\<open>list_insert_ordered\<close> with \<^verbatim>\<open>slot_less\<close>.\<close>

definition slot_less :: "swap \<Rightarrow> ptr \<Rightarrow> ptr \<Rightarrow> bool option" where
  "slot_less s a b = do { sa \<leftarrow> slots s a; sb \<leftarrow> slots s b; Some (sa < sb) }"

primrec insert_slot :: "swap \<Rightarrow> ptr \<Rightarrow> ptr list \<Rightarrow> ptr list option" where
  "insert_slot s p [] = Some [p]"
| "insert_slot s p (e # es) = do {
     l \<leftarrow> slot_less s p e;
     if l then Some (p # e # es) else map_option ((#) e) (insert_slot s p es)
   }"

text \<open>The loop that gives back the free slots right below \<open>swap_cnt\<close>; the list is taken from its back.\<close>

function shrink :: "swap \<Rightarrow> swap option" where
  "shrink s =
    (if free_swap s \<noteq> []
     then do {
       let e = last (free_swap s);
       start \<leftarrow> slots s e;
       if start + page_sectors s = swap_cnt s
       then shrink (s\<lparr>free_swap := butlast (free_swap s), slots := (slots s)(e := None), swap_cnt := swap_cnt s - page_sectors s\<rparr>)
       else Some s
     }
     else Some s)"
  by pat_completeness auto
termination by (relation "measure (\<lambda>s. length (free_swap s))") auto

declare shrink.simps [simp del]

definition free_slot :: "swap \<Rightarrow> ptr \<Rightarrow> swap option" where
  "free_slot s p = do {
     start \<leftarrow> slots s p;
     if start + page_sectors s = swap_cnt s
     then shrink (s\<lparr>slots := (slots s)(p := None), swap_cnt := swap_cnt s - page_sectors s\<rparr>)
     else do { es \<leftarrow> insert_slot s p (free_swap s); Some (s\<lparr>free_swap := es\<rparr>) }
   }"

definition read_swap :: "swap \<Rightarrow> ptr list \<Rightarrow> mem \<Rightarrow> ptr \<Rightarrow> ptr \<Rightarrow> (mem \<times> swap \<times> ptr list) option" where
  "read_swap s ms m buffer p = do {
     let (b, ms) = next_malloc ms;
     kassert (b \<noteq> 0);
     start \<leftarrow> slots s p;
     (m, d) \<leftarrow> read_sectors buffer 0 0 start (partition s) m;
     s \<leftarrow> free_slot (s\<lparr>partition := d\<rparr>) p;
     Some (m, s, ms)
   }"


subsection \<open>The loops over sectors\<close>

text \<open>The same loops, counting down the sectors that are left.\<close>

primrec puts :: "mem \<Rightarrow> ptr \<Rightarrow> nat \<Rightarrow> u32 \<Rightarrow> disk \<Rightarrow> (u32 \<times> disk) option" where
  "puts m p 0 sector d = Some (sector, d)"
| "puts m p (Suc n) sector d = do {
     b \<leftarrow> load_bytes m p 512;
     d \<leftarrow> disk_put_sector d sector b;
     puts m (p + 512) n (sector + 1) d
   }"

primrec gets :: "ptr \<Rightarrow> nat \<Rightarrow> u32 \<Rightarrow> disk \<Rightarrow> mem \<Rightarrow> (mem \<times> disk) option" where
  "gets p 0 sector d m = Some (m, d)"
| "gets p (Suc n) sector d m = do {
     (b, d) \<leftarrow> disk_get_sector d sector;
     m \<leftarrow> store_bytes m p b;
     gets (p + 512) n (sector + 1) d m
   }"

lemma write_sectors_puts:
  "k \<le> 8 \<Longrightarrow> write_sectors m buf (of_nat k) (of_nat (512 * k)) sector d = puts m (buf + of_nat k * 512) (8 - k) sector d"
proof (induction "8 - k" arbitrary: k sector d)
  case 0
  then have k: "k = 8" by simp
  show ?case unfolding k by (subst write_sectors.simps) simp
next
  case (Suc n)
  then have k: "Suc k \<le> 8" "8 - k = Suc (8 - Suc k)" "n = 8 - Suc k" by simp_all
  have lt: "(of_nat (512 * k) :: u32) < 4096" using k(1) by (simp add: word_less_nat_alt unat_of_nat_u32 del: of_nat_mult)
  have IH: "write_sectors m buf (of_nat (Suc k)) (of_nat (512 * Suc k)) (sector + 1) d' =
      puts m (buf + of_nat (Suc k) * 512) (8 - Suc k) (sector + 1) d'" for d'
    by (rule Suc.hyps(1)) (use k in simp_all)
  have eq: "of_nat k + 1 = (of_nat (Suc k) :: u32)" "of_nat (512 * k) + 512 = (of_nat (512 * Suc k) :: u32)"
    "buf + of_nat k * 512 + 512 = buf + of_nat (Suc k) * 512" by (simp_all add: algebra_simps)
  show ?case
    unfolding write_sectors.simps [of m buf "of_nat k"] if_P [OF lt] k(2) puts.simps eq IH ..
qed

lemma read_sectors_gets:
  "k \<le> 8 \<Longrightarrow> read_sectors buf (of_nat k) (of_nat (512 * k)) sector d m = gets (buf + of_nat k * 512) (8 - k) sector d m"
proof (induction "8 - k" arbitrary: k sector d m)
  case 0
  then have k: "k = 8" by simp
  show ?case unfolding k by (subst read_sectors.simps) simp
next
  case (Suc n)
  then have k: "Suc k \<le> 8" "8 - k = Suc (8 - Suc k)" "n = 8 - Suc k" by simp_all
  have lt: "(of_nat (512 * k) :: u32) < 4096" using k(1) by (simp add: word_less_nat_alt unat_of_nat_u32 del: of_nat_mult)
  have IH: "read_sectors buf (of_nat (Suc k)) (of_nat (512 * Suc k)) (sector + 1) d' m' =
      gets (buf + of_nat (Suc k) * 512) (8 - Suc k) (sector + 1) d' m'" for d' m'
    by (rule Suc.hyps(1)) (use k in simp_all)
  have eq: "of_nat k + 1 = (of_nat (Suc k) :: u32)" "of_nat (512 * k) + 512 = (of_nat (512 * Suc k) :: u32)"
    "buf + of_nat k * 512 + 512 = buf + of_nat (Suc k) * 512" by (simp_all add: algebra_simps)
  show ?case
    unfolding read_sectors.simps [of buf "of_nat k"] if_P [OF lt] k(2) gets.simps eq IH ..
qed

lemma write_sectors_eq: "write_sectors m buf 0 0 sector d = puts m buf 8 sector d"
  using write_sectors_puts [of 0 m buf sector d] by simp

lemma read_sectors_eq: "read_sectors buf 0 0 sector d m = gets buf 8 sector d m"
  using read_sectors_gets [of 0 buf sector d m] by simp


lemma select_sector_iff: "select_sector d n = Some () \<longleftrightarrow> n < capacity d \<and> n < 2 ^ 28"
  by (simp add: select_sector_def)

lemma of_nat_Suc_shift: "(sector :: u32) + of_nat (Suc k) = sector + 1 + of_nat k"
  by simp

lemma puts_ok:
  assumes "puts m p n sector d = Some (sector', d')" "n \<le> 8"
  shows "sector' = sector + of_nat n \<and> capacity d' = capacity d \<and>
    (\<forall>k < n. select_sector d (sector + of_nat k) = Some () \<and> length (sectors d' (sector + of_nat k)) = 512 \<and>
      bytes_at m (p + of_nat (512 * k)) (sectors d' (sector + of_nat k))) \<and>
    (\<forall>x. x \<notin> {sector + of_nat k | k. k < n} \<longrightarrow> sectors d' x = sectors d x)"
  using assms
proof (induction n arbitrary: p sector d)
  case (Suc n)
  obtain b d1 where b: "load_bytes m p 512 = Some b" "disk_put_sector d sector b = Some d1" "puts m (p + 512) n (sector + 1) d1 = Some (sector', d')"
    using Suc.prems(1) by (auto simp: bind_eq_Some_conv)
  have d1: "select_sector d sector = Some ()" "sectors d1 = (sectors d)(sector := b)" "capacity d1 = capacity d"
    using b(2) by (auto simp: disk_put_sector_def bind_eq_Some_conv)
  note IH = Suc.IH [OF b(3)]
  have sel: "select_sector d1 = select_sector d" by (rule ext) (simp add: select_sector_def d1(3))
  have fresh: "sector \<notin> {sector + 1 + of_nat k | k. k < n}"
  proof
    assume "sector \<in> {sector + 1 + of_nat k | k. k < n}"
    then obtain k where k: "k < n" "sector = sector + of_nat (Suc k)" by auto
    then show False using ptr_add_neq [of "Suc k" sector] Suc.prems(2) by simp
  qed
  have set: "{sector + of_nat k | k. k < Suc n} = insert sector {sector + 1 + of_nat k | k. k < n}"
    using block_Suc [of sector n] by (simp add: block_def)
  have s0: "sectors d' sector = b" using IH fresh d1(2) Suc.prems(2) by simp
  have all: "select_sector d (sector + of_nat k) = Some () \<and> length (sectors d' (sector + of_nat k)) = 512 \<and>
      bytes_at m (p + of_nat (512 * k)) (sectors d' (sector + of_nat k))" if "k < Suc n" for k
  proof (cases k)
    case 0
    then show ?thesis using b(1) d1(1) s0 by (simp add: load_bytes_eq)
  next
    case (Suc j)
    then have "j < n" using that by simp
    then have "select_sector d1 (sector + 1 + of_nat j) = Some () \<and> length (sectors d' (sector + 1 + of_nat j)) = 512 \<and>
        bytes_at m (p + 512 + of_nat (512 * j)) (sectors d' (sector + 1 + of_nat j))"
      using IH Suc.prems(2) by auto
    moreover have "p + of_nat (512 * k) = p + 512 + of_nat (512 * j)" using Suc by simp
    moreover have "sector + of_nat k = sector + 1 + of_nat j" unfolding Suc by (rule of_nat_Suc_shift)
    ultimately show ?thesis by (simp only: sel)
  qed
  have "sectors d' x = sectors d x" if "x \<notin> {sector + of_nat k | k. k < Suc n}" for x
  proof -
    have "x \<noteq> sector" "x \<notin> {sector + 1 + of_nat k | k. k < n}" using that unfolding set by blast+
    then show ?thesis using IH d1(2) Suc.prems(2) by simp
  qed
  moreover have "sector' = sector + of_nat (Suc n)" "capacity d' = capacity d" using IH Suc.prems(2) d1(3) by simp_all
  ultimately show ?case using all by blast
qed simp

lemma mapped_load: "mapped m p n \<Longrightarrow> \<exists>bs. load_bytes m p n = Some bs"
  by (metis mapped_bytes load_bytes_eq)

lemma mapped_shift: "mapped m p (a + b) \<longleftrightarrow> mapped m p a \<and> mapped m (p + of_nat a) b"
proof (induction a arbitrary: p)
  case (Suc a)
  then show ?case by (simp add: mapped_Suc add.assoc)
qed simp

lemma puts_total:
  assumes "\<And>k. k < n \<Longrightarrow> select_sector d (sector + of_nat k) = Some ()" "mapped m p (512 * n)"
  shows "\<exists>sector' d'. puts m p n sector d = Some (sector', d')"
  using assms
proof (induction n arbitrary: p sector d)
  case (Suc n)
  have m: "mapped m p 512" "mapped m (p + 512) (512 * n)" using Suc.prems(2) mapped_shift [of m p 512 "512 * n"] by simp_all
  obtain b where b: "load_bytes m p 512 = Some b" using mapped_load [OF m(1)] by blast
  have sel: "select_sector d sector = Some ()" using Suc.prems(1) [of 0] by simp
  define d1 where "d1 = d\<lparr>sectors := (sectors d)(sector := b), write_cnt := write_cnt d + 1\<rparr>"
  have "\<exists>sector' d'. puts m (p + 512) n (sector + 1) d1 = Some (sector', d')"
  proof (rule Suc.IH)
    fix k assume "k < n"
    then have "select_sector d (sector + of_nat (Suc k)) = Some ()" by (intro Suc.prems(1)) simp
    then show "select_sector d1 (sector + 1 + of_nat k) = Some ()"
      unfolding of_nat_Suc_shift by (simp add: select_sector_def d1_def)
  qed (use m(2) in simp)
  then show ?case using b sel by (simp add: disk_put_sector_def d1_def)
qed simp

lemma put_put:
  assumes "length xs + length ys \<le> 2 ^ 32" "q = p + of_nat (length xs)"
  shows "put (put m p xs) q ys = put m p (xs @ ys)"
  using assms
proof (induction ys arbitrary: xs q)
  case (Cons y ys)
  have "put (put m p xs) q (y # ys) = put ((put m p xs)(q \<mapsto> y)) (q + 1) ys"
    by (rule put_Cons [symmetric]) (use Cons.prems(1) in simp)
  also have "(put m p xs)(q \<mapsto> y) = put m p (xs @ [y])"
    unfolding Cons.prems(2) by (rule put_snoc) (use Cons.prems(1) in simp)
  also have "put (put m p (xs @ [y])) (q + 1) ys = put m p ((xs @ [y]) @ ys)"
    by (rule Cons.IH) (use Cons.prems in \<open>simp_all add: algebra_simps\<close>)
  finally show ?case by simp
qed simp

definition sector_range :: "disk \<Rightarrow> u32 \<Rightarrow> nat \<Rightarrow> u8 list" where
  "sector_range d sector n = concat (map (\<lambda>k. sectors d (sector + of_nat k)) [0..<n])"

lemma sector_range_Suc: "sector_range d sector (Suc n) = sectors d sector @ sector_range d (sector + 1) n"
  unfolding sector_range_def by (simp add: upt_conv_Cons map_Suc_upt [symmetric] comp_def add.assoc del: upt_Suc)

lemma gets_ok:
  assumes "\<And>k. k < n \<Longrightarrow> select_sector d (sector + of_nat k) = Some () \<and> length (sectors d (sector + of_nat k)) = 512"
    "mapped m p (512 * n)" "n \<le> 8"
  shows "\<exists>d'. gets p n sector d m = Some (put m p (sector_range d sector n), d') \<and> sectors d' = sectors d \<and> capacity d' = capacity d"
  using assms
proof (induction n arbitrary: p sector d m)
  case 0
  then show ?case by (simp add: sector_range_def)
next
  case (Suc n)
  define d1 where "d1 = d\<lparr>read_cnt := read_cnt d + 1\<rparr>"
  let ?b = "sectors d sector"
  have b: "select_sector d sector = Some ()" "length ?b = 512" using Suc.prems(1) [of 0] by simp_all
  have m: "mapped m p 512" "mapped m (p + 512) (512 * n)" using Suc.prems(2) mapped_shift [of m p 512 "512 * n"] by simp_all
  have st: "store_bytes m p ?b = Some (put m p ?b)" by (rule store_bytes_put) (use m(1) b(2) in simp_all)
  have "\<exists>d'. gets (p + 512) n (sector + 1) d1 (put m p ?b) = Some (put (put m p ?b) (p + 512) (sector_range d1 (sector + 1) n), d') \<and>
      sectors d' = sectors d1 \<and> capacity d' = capacity d1"
  proof (rule Suc.IH)
    fix k assume "k < n"
    then have "select_sector d (sector + of_nat (Suc k)) = Some () \<and> length (sectors d (sector + of_nat (Suc k))) = 512"
      by (intro Suc.prems(1)) simp
    then show "select_sector d1 (sector + 1 + of_nat k) = Some () \<and> length (sectors d1 (sector + 1 + of_nat k)) = 512"
      unfolding of_nat_Suc_shift by (simp add: select_sector_def d1_def)
  qed (use m(2) mapped_put Suc.prems(3) in simp_all)
  moreover have "sector_range d1 = sector_range d" by (simp add: sector_range_def d1_def fun_eq_iff)
  moreover have "put (put m p ?b) (p + 512) (sector_range d (sector + 1) n) = put m p (sector_range d sector (Suc n))"
  proof -
    have "length (sector_range d sector j) = 512 * j" if "j \<le> Suc n" for j
      using that
    proof (induction j)
      case (Suc j)
      then show ?case using Suc.prems \<open>\<And>k. k < Suc n \<Longrightarrow> _\<close> [of j] by (simp add: sector_range_def)
    qed (simp add: sector_range_def)
    from this [of "Suc n"] have "length ?b + length (sector_range d (sector + 1) n) = 512 * Suc n"
      unfolding sector_range_Suc by simp
    then show ?thesis unfolding sector_range_Suc using Suc.prems(3) b(2) by (intro put_put) simp_all
  qed
  ultimately show ?case using b st by (auto simp: disk_get_sector_def d1_def)
qed


subsection \<open>The invariant\<close>

text \<open>The first sectors of the slots are exactly the multiples of eight below the counter.\<close>

definition layout :: "(ptr \<Rightarrow> u32 option) \<Rightarrow> u32 \<Rightarrow> bool" where
  "layout sl c \<longleftrightarrow> inj_on sl (dom sl) \<and> ran sl = {x. 8 dvd unat x \<and> x < c} \<and> 8 dvd unat c"

lemma dvd8_less: "8 dvd (a :: nat) \<Longrightarrow> 8 dvd b \<Longrightarrow> a < b \<Longrightarrow> a + 8 \<le> b"
  by (elim dvdE) simp

lemma dvd8_below: "8 dvd (a :: nat) \<Longrightarrow> 8 dvd b \<Longrightarrow> a < b + 8 \<longleftrightarrow> a < b \<or> a = b"
  by (elim dvdE) auto

lemma layout_bounds:
  assumes "layout sl c" "sl p = Some st"
  shows "8 dvd unat st" "unat st + 8 \<le> unat c"
proof -
  have "st \<in> {x. 8 dvd unat x \<and> x < c}" using ranI [of sl, OF assms(2)] assms(1) unfolding layout_def by blast
  then have *: "8 dvd unat st" "unat st < unat c" "8 dvd unat c" using assms(1) by (simp_all add: layout_def word_less_nat_alt)
  then show "8 dvd unat st" "unat st + 8 \<le> unat c" using dvd8_less by blast+
qed

lemma layout_inj: "layout sl c \<Longrightarrow> sl p = Some st \<Longrightarrow> sl q = Some st \<Longrightarrow> p = q"
  unfolding layout_def inj_on_def by (metis domI)

lemma layout_disjoint:
  assumes "layout sl c" "sl p = Some a" "sl q = Some b" "p \<noteq> q"
  shows "unat a + 8 \<le> unat b \<or> unat b + 8 \<le> unat a"
proof -
  have "a \<noteq> b" using layout_inj [OF assms(1,2)] assms(3,4) by blast
  then have "unat a \<noteq> unat b" by (simp add: u32_eq_iff)
  moreover have "8 dvd unat a" "8 dvd unat b" using layout_bounds(1) assms by blast+
  ultimately show ?thesis using dvd8_less [of "unat a" "unat b"] dvd8_less [of "unat b" "unat a"] by linarith
qed

lemma layout_top:
  assumes "layout sl c" "sl p = Some st" "st + 8 = c"
  shows "unat c = unat st + 8" "c - 8 = st"
proof -
  have "unat st + 8 < 2 ^ 32" using layout_bounds(2) [OF assms(1,2)] unat_u32_bound [of c] by simp
  then show "unat c = unat st + 8" unfolding assms(3) [symmetric] by (simp add: unat_add_u32)
  show "c - 8 = st" using assms(3) by auto
qed

lemma layout_drop:
  assumes l: "layout sl c" and p: "sl p = Some st" "st + 8 = c"
  shows "layout (sl(p := None)) (c - 8)"
proof -
  note t = layout_top [OF l p]
  have inj: "inj_on sl (dom sl)" "ran sl = {x. 8 dvd unat x \<and> x < c}" using l by (simp_all add: layout_def)
  have "ran (sl(p := None)) = ran sl - {st}"
  proof
    show "ran (sl(p := None)) \<subseteq> ran sl - {st}"
      using layout_inj [OF l p(1)] by (auto simp: ran_def split: if_splits)
    show "ran sl - {st} \<subseteq> ran (sl(p := None))"
    proof
      fix x assume "x \<in> ran sl - {st}"
      then obtain q where "sl q = Some x" "x \<noteq> st" by (auto simp: ran_def)
      then have "(sl(p := None)) q = Some x" using p(1) by auto
      then show "x \<in> ran (sl(p := None))" by (rule ranI)
    qed
  qed
  also have "\<dots> = {x. 8 dvd unat x \<and> x < st}"
  proof -
    have "(8 dvd unat x \<and> x < c) \<and> x \<noteq> st \<longleftrightarrow> 8 dvd unat x \<and> x < st" for x
      using layout_bounds(1) [OF l p(1)] dvd8_below [of "unat x" "unat st"] unfolding word_less_nat_alt u32_eq_iff t(1) by auto
    then show ?thesis unfolding inj(2) by blast
  qed
  finally have "ran (sl(p := None)) = {x. 8 dvd unat x \<and> x < st}" .
  moreover have "inj_on (sl(p := None)) (dom (sl(p := None)))"
    using inj(1) by (auto simp: inj_on_def)
  ultimately show ?thesis using layout_bounds(1) [OF l p(1)] t(2) by (simp add: layout_def)
qed

lemma layout_add:
  assumes l: "layout sl c" and p: "sl p = None" "unat c + 8 < 2 ^ 32"
  shows "layout (sl(p \<mapsto> c)) (c + 8)"
proof -
  have inj: "inj_on sl (dom sl)" "ran sl = {x. 8 dvd unat x \<and> x < c}" "8 dvd unat c" using l by (simp_all add: layout_def)
  have u: "unat (c + 8) = unat c + 8" using p(2) by (simp add: unat_add_u32)
  have "(8 dvd unat x \<and> x < c) \<or> x = c \<longleftrightarrow> 8 dvd unat x \<and> x < c + 8" for x
    using inj(3) dvd8_below [of "unat x" "unat c"] unfolding word_less_nat_alt u32_eq_iff u by auto
  then have "insert c (ran sl) = {x. 8 dvd unat x \<and> x < c + 8}" unfolding inj(2) by blast
  then have "ran (sl(p \<mapsto> c)) = {x. 8 dvd unat x \<and> x < c + 8}" using p(1) by (simp add: ran_map_upd)
  moreover have "c \<notin> ran sl" unfolding inj(2) by simp
  then have "sl q \<noteq> Some c" for q by (metis ranI)
  then have "inj_on (sl(p \<mapsto> c)) (dom (sl(p \<mapsto> c)))"
    using inj(1) p(1) unfolding inj_on_def by (auto simp: domIff)
  ultimately show ?thesis using inj(3) u by (simp add: layout_def)
qed

definition slot_start :: "swap \<Rightarrow> ptr \<Rightarrow> u32" where
  "slot_start s p = the (slots s p)"

text \<open>\<open>U\<close> is the set of the slots in use.\<close>

definition swap_ok :: "ptr set \<Rightarrow> swap \<Rightarrow> bool" where
  "swap_ok U s \<longleftrightarrow> page_sectors s = 8 \<and> slots_in_disk s = capacity (partition s) \<and> swap_cnt s \<le> capacity (partition s) \<and>
     unat (swap_cnt s) \<le> 2 ^ 28 \<and> layout (slots s) (swap_cnt s) \<and> dom (slots s) = U \<union> set (free_swap s) \<and>
     U \<inter> set (free_swap s) = {} \<and> sorted_wrt (\<lambda>p q. slot_start s p < slot_start s q) (free_swap s)"

text \<open>The last free slot is not directly below the counter.\<close>

definition settled :: "swap \<Rightarrow> bool" where
  "settled s \<longleftrightarrow> free_swap s \<noteq> [] \<longrightarrow> slot_start s (last (free_swap s)) + 8 \<noteq> swap_cnt s"

lemma swap_okD:
  assumes "swap_ok U s"
  shows "page_sectors s = 8" "slots_in_disk s = capacity (partition s)" "swap_cnt s \<le> capacity (partition s)"
    "unat (swap_cnt s) \<le> 2 ^ 28" "layout (slots s) (swap_cnt s)" "dom (slots s) = U \<union> set (free_swap s)"
    "U \<inter> set (free_swap s) = {}" "sorted_wrt (\<lambda>p q. slot_start s p < slot_start s q) (free_swap s)"
  using assms unfolding swap_ok_def by blast+

lemma sorted_starts_distinct: "sorted_wrt (\<lambda>p q. slot_start s p < slot_start s q) ps \<Longrightarrow> distinct ps"
  by (induction ps) auto

lemma sorted_starts_cong:
  "(\<And>p. p \<in> set ps \<Longrightarrow> slots s' p = slots s p) \<Longrightarrow>
    sorted_wrt (\<lambda>p q. slot_start s' p < slot_start s' q) ps = sorted_wrt (\<lambda>p q. slot_start s p < slot_start s q) ps"
  by (induction ps) (auto simp: slot_start_def)

lemma free_swap_slot: "swap_ok U s \<Longrightarrow> p \<in> set (free_swap s) \<Longrightarrow> slots s p = Some (slot_start s p)"
  using swap_okD(6) [of U s] domD [of p "slots s"] unfolding slot_start_def by fastforce

lemma used_slot: "swap_ok U s \<Longrightarrow> p \<in> U \<Longrightarrow> slots s p = Some (slot_start s p)"
  using swap_okD(6) [of U s] domD [of p "slots s"] unfolding slot_start_def by fastforce

lemma shrink_ok:
  "swap_ok U s \<Longrightarrow> \<exists>s'. shrink s = Some s' \<and> swap_ok U s' \<and> settled s' \<and> partition s' = partition s \<and> (\<forall>p \<in> U. slots s' p = slots s p)"
proof (induction s rule: shrink.induct)
  case (1 s)
  note d = swap_okD [OF 1(2)]
  show ?case
  proof (cases "free_swap s = []")
    case True
    then show ?thesis using 1(2) by (simp add: shrink.simps settled_def)
  next
    case ne: False
    let ?e = "last (free_swap s)"
    have e: "?e \<in> set (free_swap s)" using ne by simp
    then have st: "slots s ?e = Some (slot_start s ?e)" by (rule free_swap_slot [OF 1(2)])
    show ?thesis
    proof (cases "slot_start s ?e + 8 = swap_cnt s")
      case False
      then show ?thesis using 1(2) st d(1) by (subst shrink.simps) (simp add: settled_def)
    next
      case True
      define s1 where "s1 = s\<lparr>free_swap := butlast (free_swap s), slots := (slots s)(?e := None), swap_cnt := swap_cnt s - 8\<rparr>"
      have split: "free_swap s = butlast (free_swap s) @ [?e]" using ne by simp
      have dist: "distinct (free_swap s)" by (rule sorted_starts_distinct [OF d(8)])
      then have e': "?e \<notin> set (butlast (free_swap s))" "set (free_swap s) = insert ?e (set (butlast (free_swap s)))"
        using split by (metis distinct_append disjoint_iff list.set_intros(1), metis set_append list.set Un_insert_right sup_bot.right_neutral)
      have eU: "?e \<notin> U" using d(7) e by blast
      have lay: "layout ((slots s)(?e := None)) (swap_cnt s - 8)" by (rule layout_drop [OF d(5) st True])
      have cnt: "unat (swap_cnt s - 8) \<le> unat (swap_cnt s)"
        using layout_top [OF d(5) st True] by simp
      have "swap_ok U s1"
        unfolding swap_ok_def
      proof (intro conjI)
        show "dom (slots s1) = U \<union> set (free_swap s1)" using d(6) eU e' by (auto simp: s1_def)
        show "U \<inter> set (free_swap s1) = {}" using d(7) e' by (auto simp: s1_def)
        have "sorted_wrt (\<lambda>p q. slot_start s p < slot_start s q) (butlast (free_swap s))"
          using d(8) split by (metis sorted_wrt_append)
        moreover have "slots s1 p = slots s p" if "p \<in> set (butlast (free_swap s))" for p
          using that e'(1) by (auto simp: s1_def)
        moreover have "free_swap s1 = butlast (free_swap s)" by (simp add: s1_def)
        ultimately show "sorted_wrt (\<lambda>p q. slot_start s1 p < slot_start s1 q) (free_swap s1)"
          using sorted_starts_cong [of "butlast (free_swap s)" s1 s] by simp
        show "swap_cnt s1 \<le> capacity (partition s1)" using d(3) cnt by (simp add: s1_def word_le_nat_alt)
        show "unat (swap_cnt s1) \<le> 2 ^ 28" using d(4) cnt by (simp add: s1_def)
      qed (use d lay in \<open>simp_all add: s1_def\<close>)
      moreover have sh: "shrink s = shrink s1"
        using ne st True d(1) unfolding s1_def by (subst shrink.simps) simp
      ultimately obtain s' where s': "shrink s1 = Some s'" "swap_ok U s'" "settled s'" "partition s' = partition s1"
          "\<forall>p \<in> U. slots s' p = slots s1 p"
        using 1(1) [OF ne refl st] True d(1) unfolding s1_def by auto
      have "\<forall>p \<in> U. slots s' p = slots s p" using s'(5) eU by (auto simp: s1_def)
      then show ?thesis using sh s' by (auto simp: s1_def)
    qed
  qed
qed

lemma insert_slot_ok:
  assumes "slots s p = Some st" "\<And>e. e \<in> set es \<Longrightarrow> slots s e = Some (slot_start s e) \<and> slot_start s e \<noteq> st"
    "sorted_wrt (\<lambda>p q. slot_start s p < slot_start s q) es"
  shows "\<exists>es'. insert_slot s p es = Some es' \<and> set es' = insert p (set es) \<and> es' \<noteq> [] \<and>
    sorted_wrt (\<lambda>p q. slot_start s p < slot_start s q) es' \<and> (es = [] \<or> slot_start s (last es) < st \<longrightarrow> last es' = p) \<and>
    (es \<noteq> [] \<and> \<not> slot_start s (last es) < st \<longrightarrow> last es' = last es)"
  using assms(2,3)
proof (induction es)
  case (Cons e es)
  have st: "slot_start s p = st" using assms(1) by (simp add: slot_start_def)
  have e: "slots s e = Some (slot_start s e)" "slot_start s e \<noteq> st" using Cons.prems(1) by simp_all
  have sl: "slot_less s p e = Some (st < slot_start s e)" using assms(1) e(1) by (simp add: slot_less_def)
  have srt: "\<forall>x \<in> set es. slot_start s e < slot_start s x" "sorted_wrt (\<lambda>p q. slot_start s p < slot_start s q) es"
    using Cons.prems(2) by simp_all
  show ?case
  proof (cases "st < slot_start s e")
    case True
    have all: "\<forall>x \<in> set (e # es). st < slot_start s x" using True srt(1) less_trans [OF True] by simp
    then have "st < slot_start s (last (e # es))" using last_in_set [of "e # es"] by blast
    then have "\<not> slot_start s (last (e # es)) < st" by (rule less_not_sym)
    moreover have "insert_slot s p (e # es) = Some (p # e # es)" using True sl by simp
    moreover have "sorted_wrt (\<lambda>p q. slot_start s p < slot_start s q) (p # e # es)" using all Cons.prems(2) st by simp
    ultimately show ?thesis by simp
  next
    case False
    then have lt: "slot_start s e < st" using e(2) by simp
    have pr: "slots s x = Some (slot_start s x) \<and> slot_start s x \<noteq> st" if "x \<in> set es" for x
      using Cons.prems(1) that by simp
    obtain es' where es': "insert_slot s p es = Some es'" "set es' = insert p (set es)" "es' \<noteq> []"
        "sorted_wrt (\<lambda>p q. slot_start s p < slot_start s q) es'" "es = [] \<or> slot_start s (last es) < st \<longrightarrow> last es' = p"
        "es \<noteq> [] \<and> \<not> slot_start s (last es) < st \<longrightarrow> last es' = last es"
      using Cons.IH [OF pr srt(2)] by blast
    have "insert_slot s p (e # es) = Some (e # es')" using sl False es'(1) by simp
    moreover have "sorted_wrt (\<lambda>p q. slot_start s p < slot_start s q) (e # es')" using es'(2,4) srt(1) lt st by auto
    ultimately show ?thesis using es'(2,3,5,6) lt by auto
  qed
qed simp

lemma swap_free_slot_ok:
  assumes ok: "swap_ok U s" "settled s" and p: "p \<in> U"
  shows "\<exists>s'. free_slot s p = Some s' \<and> swap_ok (U - {p}) s' \<and> settled s' \<and> partition s' = partition s \<and>
    (\<forall>q \<in> U - {p}. slots s' q = slots s q)"
proof -
  note d = swap_okD [OF ok(1)]
  have st: "slots s p = Some (slot_start s p)" by (rule used_slot [OF ok(1) p])
  have pf: "p \<notin> set (free_swap s)" using d(7) p by blast
  show ?thesis
  proof (cases "slot_start s p + 8 = swap_cnt s")
    case True
    define s1 where "s1 = s\<lparr>slots := (slots s)(p := None), swap_cnt := swap_cnt s - 8\<rparr>"
    have cnt: "unat (swap_cnt s - 8) \<le> unat (swap_cnt s)" using layout_top [OF d(5) st True] by simp
    have "swap_ok (U - {p}) s1"
      unfolding swap_ok_def
    proof (intro conjI)
      show "dom (slots s1) = U - {p} \<union> set (free_swap s1)" using d(6) pf by (auto simp: s1_def)
      show "layout (slots s1) (swap_cnt s1)" using layout_drop [OF d(5) st True] by (simp add: s1_def)
      show "swap_cnt s1 \<le> capacity (partition s1)" using d(3) cnt by (simp add: s1_def word_le_nat_alt)
      show "unat (swap_cnt s1) \<le> 2 ^ 28" using d(4) cnt by (simp add: s1_def)
      have "slots s1 q = slots s q" if "q \<in> set (free_swap s)" for q using that pf by (auto simp: s1_def)
      moreover have "free_swap s1 = free_swap s" by (simp add: s1_def)
      ultimately show "sorted_wrt (\<lambda>p q. slot_start s1 p < slot_start s1 q) (free_swap s1)"
        using sorted_starts_cong [of "free_swap s" s1 s] d(8) by simp
    qed (use d in \<open>auto simp: s1_def\<close>)
    from shrink_ok [OF this] obtain s' where s': "shrink s1 = Some s'" "swap_ok (U - {p}) s'" "settled s'" "partition s' = partition s1"
        "\<forall>q \<in> U - {p}. slots s' q = slots s1 q" by blast
    have "free_slot s p = shrink s1" using st True d(1) by (simp add: free_slot_def s1_def)
    moreover have "\<forall>q \<in> U - {p}. slots s' q = slots s q" "partition s' = partition s" using s'(4,5) by (auto simp: s1_def)
    ultimately show ?thesis using s'(1-3) by metis
  next
    case False
    have free: "slots s e = Some (slot_start s e) \<and> slot_start s e \<noteq> slot_start s p" if "e \<in> set (free_swap s)" for e
    proof
      show e: "slots s e = Some (slot_start s e)" by (rule free_swap_slot [OF ok(1) that])
      show "slot_start s e \<noteq> slot_start s p"
      proof
        assume "slot_start s e = slot_start s p"
        then have "e = p" using layout_inj [OF d(5) e] st by simp
        then show False using that pf by blast
      qed
    qed
    obtain es where es: "insert_slot s p (free_swap s) = Some es" "set es = insert p (set (free_swap s))" "es \<noteq> []"
        "sorted_wrt (\<lambda>p q. slot_start s p < slot_start s q) es"
        "free_swap s = [] \<or> slot_start s (last (free_swap s)) < slot_start s p \<longrightarrow> last es = p"
        "free_swap s \<noteq> [] \<and> \<not> slot_start s (last (free_swap s)) < slot_start s p \<longrightarrow> last es = last (free_swap s)"
      using insert_slot_ok [OF st free d(8)] by blast
    define s1 where "s1 = s\<lparr>free_swap := es\<rparr>"
    have ss: "slot_start s1 = slot_start s" by (simp add: s1_def slot_start_def fun_eq_iff)
    have "swap_ok (U - {p}) s1"
      using d es(2,4) pf p unfolding swap_ok_def ss by (auto simp: s1_def)
    moreover have "settled s1"
      using es(5,6) ok(2) False unfolding settled_def ss by (auto simp: s1_def)
    moreover have "free_slot s p = Some s1" using st False d(1) es(1) by (simp add: free_slot_def s1_def)
    ultimately show ?thesis by (auto simp: s1_def)
  qed
qed

subsection \<open>Pages in the swap partition\<close>

definition pages_ok :: "(ptr \<Rightarrow> u8 list option) \<Rightarrow> swap \<Rightarrow> bool" where
  "pages_ok V s \<longleftrightarrow> (\<forall>p pg. V p = Some pg \<longrightarrow>
     (\<forall>k < 8. length (sectors (partition s) (slot_start s p + of_nat k)) = 512) \<and> sector_range (partition s) (slot_start s p) 8 = pg)"

lemma range_bytes:
  assumes "\<And>k. k < n \<Longrightarrow> length (sectors d (st + of_nat k)) = 512 \<and> bytes_at m (p + of_nat (512 * k)) (sectors d (st + of_nat k))"
  shows "bytes_at m p (sector_range d st n) \<and> length (sector_range d st n) = 512 * n"
  using assms
proof (induction n)
  case (Suc n)
  have "bytes_at m p (sector_range d st n) \<and> length (sector_range d st n) = 512 * n" by (rule Suc.IH) (use Suc.prems in simp)
  moreover have "sector_range d st (Suc n) = sector_range d st n @ sectors d (st + of_nat n)" by (simp add: sector_range_def)
  ultimately show ?case using Suc.prems [of n] by (simp add: bytes_at_append)
qed (simp add: sector_range_def)

lemma range_cong: "(\<And>k. k < n \<Longrightarrow> sectors d' (st + of_nat k) = sectors d (st + of_nat k)) \<Longrightarrow> sector_range d' st n = sector_range d st n"
  unfolding sector_range_def by (rule arg_cong [of _ _ concat]) simp

lemma slot_sectors:
  assumes "layout sl c" "unat c \<le> 2 ^ 28" "sl p = Some st" "k < 8"
  shows "unat (st + of_nat k) = unat st + k" "unat st + k < unat c"
proof -
  have b: "unat st + 8 \<le> unat c" by (rule layout_bounds [OF assms(1,3)])
  then show "unat st + k < unat c" using assms(4) by simp
  have "unat st + unat (of_nat k :: u32) < 2 ^ 32" using b assms(2,4) by (simp add: unat_of_nat_u32)
  then show "unat (st + of_nat k) = unat st + k" using assms(4) by (simp add: unat_add_u32 unat_of_nat_u32)
qed

lemma other_slot_sectors:
  assumes "layout sl c" "unat c \<le> 2 ^ 28" "sl p = Some st" "sl q = Some st'" "p \<noteq> q" "k < 8"
  shows "st + of_nat k \<notin> {st' + of_nat j | j. j < 8}"
proof
  assume "st + of_nat k \<in> {st' + of_nat j | j. j < 8}"
  then obtain j where j: "j < 8" "st + of_nat k = st' + of_nat j" by blast
  then have "unat st + k = unat st' + j"
    using slot_sectors(1) [OF assms(1-3,6)] slot_sectors(1) [OF assms(1,2,4) j(1)] by simp
  then show False using layout_disjoint [OF assms(1,3,4,5)] assms(6) j(1) by linarith
qed

lemma slot_select:
  assumes "swap_ok U s" "slots s p = Some st" "k < 8"
  shows "select_sector (partition s) (st + of_nat k) = Some ()"
proof -
  note d = swap_okD [OF assms(1)]
  have "unat (st + of_nat k) < unat (swap_cnt s)" using slot_sectors [OF d(5,4) assms(2,3)] by simp
  then show ?thesis using d(3,4) by (simp add: select_sector_iff word_less_nat_alt word_le_nat_alt)
qed

lemma pages_ok_write:
  assumes lay: "layout (slots s) c" "unat c \<le> 2 ^ 28" and p: "slots s p = Some st" "p \<notin> dom V" and V: "dom V \<subseteq> dom (slots s)"
    and ok: "pages_ok V s" and w: "puts m buf 8 st (partition s) = Some (sec, d)" and pg: "bytes_at m buf pg" "length pg = 4096"
    and s': "slots s' = slots s" "partition s' = d"
  shows "pages_ok (V(p \<mapsto> pg)) s'"
  unfolding pages_ok_def
proof (intro allI impI)
  fix q pq
  assume q: "(V(p \<mapsto> pg)) q = Some pq"
  note P = puts_ok [OF w order_refl]
  have ss: "slot_start s' = slot_start s" by (simp add: slot_start_def fun_eq_iff s'(1))
  show "(\<forall>k < 8. length (sectors (partition s') (slot_start s' q + of_nat k)) = 512) \<and> sector_range (partition s') (slot_start s' q) 8 = pq"
  proof (cases "q = p")
    case True
    have st: "slot_start s q = st" using p(1) True by (simp add: slot_start_def)
    have B: "bytes_at m buf (sector_range d st 8) \<and> length (sector_range d st 8) = 512 * 8"
      by (rule range_bytes) (use P in blast)
    then have "sector_range d st 8 = pg" using bytes_at_unique [OF _ pg(1)] pg(2) by simp
    then show ?thesis using P q True unfolding ss s'(2) st by simp
  next
    case False
    then have Vq: "V q = Some pq" using q by simp
    then obtain sq where sq: "slots s q = Some sq" using V by blast
    have st: "slot_start s q = sq" using sq by (simp add: slot_start_def)
    have same: "sectors d (sq + of_nat k) = sectors (partition s) (sq + of_nat k)" if "k < 8" for k
      using P other_slot_sectors [OF lay sq p(1) False that] by blast
    have "(\<forall>k < 8. length (sectors (partition s) (sq + of_nat k)) = 512) \<and> sector_range (partition s) sq 8 = pq"
      using ok Vq unfolding pages_ok_def st [symmetric] by blast
    then show ?thesis using range_cong [of 8 d sq "partition s"] same unfolding ss s'(2) st by simp
  qed
qed

lemma write_swap_reuse:
  assumes ok: "swap_ok (dom V) s" "settled s" "pages_ok V s" and pg: "bytes_at m buf pg" "length pg = 4096"
    and fs: "free_swap s = e # es" "b \<noteq> 0"
  shows "\<exists>s'. write_swap s (b # ms) m buf = Some (e, s', ms) \<and> e \<notin> dom V \<and>
    swap_ok (dom (V(e \<mapsto> pg))) s' \<and> settled s' \<and> pages_ok (V(e \<mapsto> pg)) s'"
proof -
  note d = swap_okD [OF ok(1)]
  obtain st where st: "slots s e = Some st" using d(6) fs(1) by auto
  have "mapped m buf (512 * 8)" using bytes_at_mapped [OF pg(1)] pg(2) by simp
  then obtain sec dd where w: "puts m buf 8 st (partition s) = Some (sec, dd)"
    using puts_total [of 8 "partition s" st m buf] slot_select [OF ok(1) st] by blast
  define s' where "s' = s\<lparr>free_swap := es, partition := dd\<rparr>"
  have "write_swap s (b # ms) m buf = Some (e, s', ms)"
    using fs st w by (simp add: write_swap_def next_malloc_def write_sectors_eq s'_def)
  moreover have e: "e \<notin> dom V" using d(7) fs(1) by auto
  have ss: "slot_start s' = slot_start s" by (simp add: slot_start_def fun_eq_iff s'_def)
  have dist: "e \<notin> set es" using sorted_starts_distinct [OF d(8)] fs(1) by simp
  have cap: "capacity dd = capacity (partition s)" using puts_ok [OF w order_refl] by blast
  have "swap_ok (dom (V(e \<mapsto> pg))) s'"
    using d fs(1) cap dist unfolding swap_ok_def ss by (auto simp: s'_def)
  moreover have "settled s'" using ok(2) fs(1) unfolding settled_def ss by (auto simp: s'_def split: if_splits)
  moreover have "pages_ok (V(e \<mapsto> pg)) s'"
    by (rule pages_ok_write [OF d(5,4) st e _ ok(3) w pg]) (use d(6) in \<open>auto simp: s'_def\<close>)
  ultimately show ?thesis using e by blast
qed

lemma write_swap_new:
  assumes ok: "swap_ok (dom V) s" "settled s" "pages_ok V s" and pg: "bytes_at m buf pg" "length pg = 4096"
    and fs: "free_swap s = []" "b \<noteq> 0" "p \<noteq> 0" "slots s p = None"
  shows "if unat (swap_cnt s) + 8 \<le> min (unat (capacity (partition s))) (2 ^ 28)
    then \<exists>s'. write_swap s (b # p # ms) m buf = Some (p, s', ms) \<and> p \<notin> dom V \<and>
      swap_ok (dom (V(p \<mapsto> pg))) s' \<and> settled s' \<and> pages_ok (V(p \<mapsto> pg)) s'
    else write_swap s (b # p # ms) m buf = None"
proof -
  note d = swap_okD [OF ok(1)]
  let ?c = "swap_cnt s"
  have u: "unat (?c + of_nat k) = unat ?c + k" if "k \<le> 8" for k
    using d(4) that by (simp add: unat_add_u32 unat_of_nat_u32)
  have sel: "select_sector (partition s) (?c + of_nat k) = Some () \<longleftrightarrow> unat ?c + k < unat (capacity (partition s)) \<and> unat ?c + k < 2 ^ 28"
    if "k \<le> 8" for k unfolding select_sector_iff word_less_nat_alt u [OF that] by simp
  define s1 where "s1 = s\<lparr>slots := (slots s)(p \<mapsto> ?c)\<rparr>"
  have W: "write_swap s (b # p # ms) m buf = (if ?c < capacity (partition s) then
      map_option (\<lambda>(sec, dd). (p, s1\<lparr>partition := dd, swap_cnt := sec\<rparr>, ms)) (puts m buf 8 ?c (partition s)) else None)"
    using fs d(2) by (cases "puts m buf 8 ?c (partition s)")
      (auto simp: write_swap_def next_malloc_def write_sectors_eq s1_def kassert_def)
  show ?thesis
  proof (cases "unat ?c + 8 \<le> min (unat (capacity (partition s))) (2 ^ 28)")
    case True
    have "mapped m buf (512 * 8)" using bytes_at_mapped [OF pg(1)] pg(2) by simp
    then obtain sec dd where w: "puts m buf 8 ?c (partition s) = Some (sec, dd)"
      using puts_total [of 8 "partition s" ?c m buf] sel True by auto
    note P = puts_ok [OF w order_refl]
    have sec: "sec = ?c + 8" "capacity dd = capacity (partition s)" using P by simp_all
    define s' where "s' = s1\<lparr>partition := dd, swap_cnt := sec\<rparr>"
    have lay: "layout (slots s1) (?c + 8)" using layout_add [OF d(5) fs(4)] d(4) by (simp add: s1_def)
    have c8: "unat (?c + 8) = unat ?c + 8" using u [of 8] by simp
    have pV: "p \<notin> dom V" using d(6) fs(4) by auto
    have "swap_ok (dom (V(p \<mapsto> pg))) s'"
      unfolding swap_ok_def
    proof (intro conjI)
      show "swap_cnt s' \<le> capacity (partition s')" using True sec c8 by (simp add: s'_def word_le_nat_alt)
      show "unat (swap_cnt s') \<le> 2 ^ 28" using True sec c8 by (simp add: s'_def)
      show "layout (slots s') (swap_cnt s')" using lay sec by (simp add: s'_def)
      show "dom (slots s') = dom (V(p \<mapsto> pg)) \<union> set (free_swap s')" using d(6) fs(1) by (simp add: s'_def s1_def)
    qed (use d fs(1) sec in \<open>simp_all add: s'_def s1_def\<close>)
    moreover have "settled s'" using fs(1) by (simp add: settled_def s'_def s1_def)
    moreover have "pages_ok (V(p \<mapsto> pg)) s'"
    proof (rule pages_ok_write [OF lay])
      show "pages_ok V s1" using ok(3) pV unfolding pages_ok_def by (auto simp: s1_def slot_start_def)
      show "puts m buf 8 ?c (partition s1) = Some (sec, dd)" using w by (simp add: s1_def)
    qed (use True c8 pV d(6) pg in \<open>auto simp: s1_def s'_def\<close>)
    moreover have "write_swap s (b # p # ms) m buf = Some (p, s', ms)"
      using W w True by (simp add: s'_def word_less_nat_alt)
    ultimately show ?thesis using True pV by auto
  next
    case False
    have "puts m buf 8 ?c (partition s) = None"
    proof (rule ccontr)
      assume "puts m buf 8 ?c (partition s) \<noteq> None"
      then obtain sec dd where w: "puts m buf 8 ?c (partition s) = Some (sec, dd)" by auto
      have "(7 :: nat) < 8" by simp
      then have "select_sector (partition s) (?c + of_nat 7) = Some ()" using puts_ok [OF w order_refl] by blast
      then show False using sel [of 7] False by auto
    qed
    then show ?thesis using W False by auto
  qed
qed

lemma gets_disk: "gets p n sector d m = Some (m', d') \<Longrightarrow> sectors d' = sectors d \<and> capacity d' = capacity d"
  by (induction n arbitrary: p sector d m) (fastforce simp: bind_eq_Some_conv disk_get_sector_def)+

lemma pages_ok_drop:
  assumes "pages_ok V s" "sectors (partition s') = sectors (partition s)" "\<forall>q \<in> dom V - {p}. slots s' q = slots s q"
  shows "pages_ok (V(p := None)) s'"
  unfolding pages_ok_def
proof (intro allI impI)
  fix q pg
  assume "(V(p := None)) q = Some pg"
  then have q: "V q = Some pg" "q \<noteq> p" by (auto split: if_splits)
  then have "slot_start s' q = slot_start s q" using bspec [OF assms(3), of q] domI [of V q] by (auto simp: slot_start_def)
  moreover have "sector_range (partition s') = sector_range (partition s)" by (simp add: sector_range_def fun_eq_iff assms(2))
  ultimately show "(\<forall>k < 8. length (sectors (partition s') (slot_start s' q + of_nat k)) = 512) \<and>
      sector_range (partition s') (slot_start s' q) 8 = pg"
    using assms(1) q(1) unfolding pages_ok_def assms(2) by simp
qed

lemma free_slot_inv:
  assumes ok: "swap_ok (dom V) s" "settled s" "pages_ok V s" and p: "V p = Some pg"
    and d: "sectors d = sectors (partition s)" "capacity d = capacity (partition s)"
  shows "\<exists>s'. free_slot (s\<lparr>partition := d\<rparr>) p = Some s' \<and> swap_ok (dom (V(p := None))) s' \<and> settled s' \<and> pages_ok (V(p := None)) s'"
proof -
  define s1 where "s1 = s\<lparr>partition := d\<rparr>"
  have ss: "slot_start s1 = slot_start s" by (simp add: slot_start_def fun_eq_iff s1_def)
  have "swap_ok (dom V) s1" using ok(1) d(2) unfolding swap_ok_def ss by (simp add: s1_def)
  moreover have "settled s1" using ok(2) unfolding settled_def ss by (simp add: s1_def)
  ultimately obtain s' where s': "free_slot s1 p = Some s'" "swap_ok (dom V - {p}) s'" "settled s'" "partition s' = d"
      "\<forall>q \<in> dom V - {p}. slots s' q = slots s q"
    using swap_free_slot_ok [of "dom V" s1 p] p by (auto simp: s1_def)
  have "pages_ok (V(p := None)) s'" by (rule pages_ok_drop [OF ok(3) _ s'(5)]) (simp add: s'(4) d(1))
  then show ?thesis using s' by (simp add: s1_def)
qed

lemma read_swap_ok:
  assumes ok: "swap_ok (dom V) s" "settled s" "pages_ok V s" and p: "V p = Some pg" and m: "mapped m buf 4096" "b \<noteq> 0"
  shows "\<exists>s'. read_swap s (b # ms) m buf p = Some (put m buf pg, s', ms)"
proof -
  have st: "slots s p = Some (slot_start s p)" by (rule used_slot [OF ok(1)]) (use p in blast)
  have pg: "\<forall>k < 8. length (sectors (partition s) (slot_start s p + of_nat k)) = 512" "sector_range (partition s) (slot_start s p) 8 = pg"
    using ok(3) p unfolding pages_ok_def by blast+
  obtain d where d: "gets buf 8 (slot_start s p) (partition s) m = Some (put m buf pg, d)" "sectors d = sectors (partition s)"
      "capacity d = capacity (partition s)"
    using gets_ok [of 8 "partition s" "slot_start s p" m buf] slot_select [OF ok(1) st] pg m(1) by auto
  obtain s' where "free_slot (s\<lparr>partition := d\<rparr>) p = Some s'" using free_slot_inv [OF ok p d(2,3)] by blast
  then show ?thesis using m(2) st d(1) by (simp add: read_swap_def next_malloc_def read_sectors_eq)
qed

text \<open>
  The runs of the swap partition. \<open>V\<close> maps the slots in use to the pages they were given. The blocks that \<^verbatim>\<open>malloc\<close> returns are
  not slots already.
\<close>

inductive swap_runs :: "(ptr \<Rightarrow> u8 list option) \<Rightarrow> swap \<Rightarrow> bool" where
  Init: "swap_init (Some d) = Some s \<Longrightarrow> swap_runs (\<lambda>_. None) s"
| Write: "swap_runs V s \<Longrightarrow> \<forall>q \<in> set ms. slots s q = None \<Longrightarrow> bytes_at m buf pg \<Longrightarrow> length pg = 4096 \<Longrightarrow>
    write_swap s ms m buf = Some (p, s', ms') \<Longrightarrow> swap_runs (V(p \<mapsto> pg)) s'"
| Read: "swap_runs V s \<Longrightarrow> V p = Some pg \<Longrightarrow> read_swap s ms m buf p = Some (m', s', ms') \<Longrightarrow> swap_runs (V(p := None)) s'"
| Free: "swap_runs V s \<Longrightarrow> V p = Some pg \<Longrightarrow> free_slot s p = Some s' \<Longrightarrow> swap_runs (V(p := None)) s'"

lemma count_sectors_page: "count_sectors 0 0 = 8"
  by (simp add: count_sectors.simps DISK_SECTOR_SIZE_def)

lemma write_swap_ok:
  assumes ok: "swap_ok (dom V) s" "settled s" "pages_ok V s" and ms: "\<forall>q \<in> set ms. slots s q = None"
    and pg: "bytes_at m buf pg" "length pg = 4096" and w: "write_swap s ms m buf = Some (p, s', ms')"
  shows "p \<notin> dom V \<and> swap_ok (dom (V(p \<mapsto> pg))) s' \<and> settled s' \<and> pages_ok (V(p \<mapsto> pg)) s'"
proof -
  have "ms \<noteq> [] \<and> hd ms \<noteq> 0" using w by (cases ms) (auto simp: write_swap_def next_malloc_def)
  then obtain b ms1 where b: "ms = b # ms1" "b \<noteq> 0" by (cases ms) auto
  show ?thesis
  proof (cases "free_swap s")
    case (Cons e es)
    obtain s1 where "write_swap s (b # ms1) m buf = Some (e, s1, ms1)" "e \<notin> dom V" "swap_ok (dom (V(e \<mapsto> pg))) s1"
        "settled s1" "pages_ok (V(e \<mapsto> pg)) s1"
      using write_swap_reuse [OF ok pg Cons b(2)] by blast
    then show ?thesis using w b(1) by simp
  next
    case Nil
    then have "ms1 \<noteq> [] \<and> hd ms1 \<noteq> 0"
      using w b by (cases ms1) (auto simp: write_swap_def next_malloc_def)
    then obtain q ms2 where q: "ms1 = q # ms2" "q \<noteq> 0" by (cases ms1) auto
    have "slots s q = None" using ms b(1) q(1) by simp
    from write_swap_new [OF ok pg Nil b(2) q(2) this, of ms2] show ?thesis
      using w b(1) q(1) by (auto split: if_splits)
  qed
qed

lemma swap_runs_ok: "swap_runs V s \<Longrightarrow> swap_ok (dom V) s \<and> settled s \<and> pages_ok V s"
proof (induction rule: swap_runs.induct)
  case (Init d s)
  have "s = \<lparr>partition = d, slots = (\<lambda>_. None), free_swap = [], swap_cnt = 0, slots_in_disk = capacity d, page_sectors = 8\<rparr>"
    using Init by (simp add: swap_init_def disk_size_def count_sectors_page)
  then show ?case by (simp add: swap_ok_def settled_def pages_ok_def layout_def)
next
  case (Write V s ms m buf pg p s' ms')
  then show ?case using write_swap_ok by blast
next
  case (Read V s p pg ms m buf m' s' ms')
  obtain st d where d: "gets buf 8 st (partition s) m = Some (m', d)" "free_slot (s\<lparr>partition := d\<rparr>) p = Some s'"
    using Read.hyps(3) by (auto simp: read_swap_def read_sectors_eq bind_eq_Some_conv split: prod.splits)
  have ok: "swap_ok (dom V) s" "settled s" "pages_ok V s" "sectors d = sectors (partition s)" "capacity d = capacity (partition s)"
    using Read.IH gets_disk [OF d(1)] by blast+
  obtain s1 where "free_slot (s\<lparr>partition := d\<rparr>) p = Some s1" "swap_ok (dom (V(p := None))) s1 \<and> settled s1 \<and> pages_ok (V(p := None)) s1"
    using free_slot_inv [OF ok(1-3) Read.hyps(2) ok(4,5)] by blast
  then show ?case unfolding d(2) option.inject by (rule ssubst)
next
  case (Free V s p pg s')
  have ok: "swap_ok (dom V) s" "settled s" "pages_ok V s" using Free.IH by blast+
  obtain s1 where "free_slot (s\<lparr>partition := partition s\<rparr>) p = Some s1" "swap_ok (dom (V(p := None))) s1 \<and> settled s1 \<and> pages_ok (V(p := None)) s1"
    using free_slot_inv [OF ok Free.hyps(2) refl refl] by blast
  moreover have "s\<lparr>partition := partition s\<rparr> = s" by simp
  ultimately show ?case using Free.hyps(3) by (metis option.inject)
qed

lemma card_multiples: "8 dvd c \<Longrightarrow> c < 2 ^ 32 \<Longrightarrow> card {x :: u32. 8 dvd unat x \<and> unat x < c} = c div 8"
proof -
  assume c: "8 dvd c" "c < 2 ^ 32"
  have "{x :: u32. 8 dvd unat x \<and> unat x < c} = (\<lambda>k. of_nat (8 * k)) ` {..< c div 8}"
  proof (intro equalityI subsetI)
    fix x :: u32 assume "x \<in> {x. 8 dvd unat x \<and> unat x < c}"
    then have "x = of_nat (8 * (unat x div 8))" "unat x div 8 < c div 8" using c(1) by (auto elim!: dvdE)
    then show "x \<in> (\<lambda>k. of_nat (8 * k)) ` {..< c div 8}" by blast
  next
    fix x :: u32 assume "x \<in> (\<lambda>k. of_nat (8 * k)) ` {..< c div 8}"
    then obtain k where k: "x = of_nat (8 * k)" "k < c div 8" by blast
    then have "8 * k < c" using c(1) by auto
    then have "unat x = 8 * k" unfolding k(1) using c(2) by (intro unat_of_nat_u32) simp
    then show "x \<in> {x. 8 dvd unat x \<and> unat x < c}" using \<open>8 * k < c\<close> by simp
  qed
  moreover have "inj_on (\<lambda>k. of_nat (8 * k) :: u32) {..< c div 8}"
  proof (rule inj_onI)
    fix j k assume jk: "j \<in> {..< c div 8}" "k \<in> {..< c div 8}" "(of_nat (8 * j) :: u32) = of_nat (8 * k)"
    then have "8 * j < 2 ^ 32" "8 * k < 2 ^ 32" using c by auto
    then have "8 * j = 8 * k" using of_nat_eq_u32 jk(3) by blast
    then show "j = k" by simp
  qed
  ultimately show ?thesis by (simp add: card_image)
qed

text \<open>No sector is lost: the slots in use and the free ones fill the space below the counter.\<close>

lemma swap_space:
  assumes "swap_ok U s"
  shows "8 * (card U + length (free_swap s)) = unat (swap_cnt s)"
proof -
  note d = swap_okD [OF assms]
  have l: "inj_on (slots s) (dom (slots s))" "ran (slots s) = {x. 8 dvd unat x \<and> unat x < unat (swap_cnt s)}" "8 dvd unat (swap_cnt s)"
    using d(5) by (simp_all add: layout_def word_less_nat_alt)
  have "slots s ` dom (slots s) = Some ` ran (slots s)" by (auto simp: ran_def dom_def image_def)
  then have c: "card (dom (slots s)) = card (ran (slots s))" "finite (dom (slots s))"
    using card_image [OF l(1)] card_image [of Some "ran (slots s)"] finite_imageD [OF _ l(1)] by auto
  have "card (dom (slots s)) = card U + card (set (free_swap s))"
    unfolding d(6) by (rule card_Un_disjoint) (use d(6,7) c(2) in \<open>auto intro: finite_subset\<close>)
  moreover have "card (set (free_swap s)) = length (free_swap s)" by (rule distinct_card [OF sorted_starts_distinct [OF d(8)]])
  moreover have "card (ran (slots s)) = unat (swap_cnt s) div 8" unfolding l(2) by (rule card_multiples [OF l(3) unat_u32_bound])
  ultimately have "card U + length (free_swap s) = unat (swap_cnt s) div 8" using c(1) by simp
  then show ?thesis using dvd_mult_div_cancel [OF l(3)] by simp
qed

lemma swap_empty:
  assumes "swap_ok {} s" "settled s"
  shows "free_swap s = [] \<and> swap_cnt s = 0"
proof (cases "swap_cnt s = 0")
  case True
  then show ?thesis using swap_space [OF assms(1)] by simp
next
  case False
  note d = swap_okD [OF assms(1)]
  have c: "8 dvd unat (swap_cnt s)" using d(5) by (simp add: layout_def)
  moreover have "0 < unat (swap_cnt s)" using False by (simp add: unat_gt_0)
  ultimately have "8 \<le> unat (swap_cnt s)" by (auto elim!: dvdE)
  then have u: "unat (swap_cnt s - 8) = unat (swap_cnt s) - 8" by (simp add: unat_sub_u32 word_le_nat_alt)
  then have "swap_cnt s - 8 \<in> ran (slots s)"
    using d(5) c \<open>8 \<le> unat (swap_cnt s)\<close> by (simp add: layout_def word_less_nat_alt dvd_diff_nat)
  then obtain e where e: "slots s e = Some (swap_cnt s - 8)" by (auto simp: ran_def)
  then have ef: "e \<in> set (free_swap s)" using d(6) by auto
  let ?l = "last (free_swap s)"
  have ne: "free_swap s \<noteq> []" using ef by auto
  have "slot_start s e \<le> slot_start s ?l"
    using d(8) ef ne by (cases "free_swap s" rule: rev_cases) (auto simp: sorted_wrt_append intro: less_imp_le)
  moreover have "slots s ?l = Some (slot_start s ?l)" by (rule free_swap_slot [OF assms(1)]) (use ne in simp)
  then have "unat (slot_start s ?l) + 8 \<le> unat (swap_cnt s)" by (rule layout_bounds [OF d(5)])
  ultimately have "unat (slot_start s ?l) = unat (swap_cnt s - 8)"
    using u e by (simp add: slot_start_def word_le_nat_alt)
  then have "slot_start s ?l + 8 = swap_cnt s" by (simp add: u32_eq_iff [symmetric])
  then show ?thesis using assms(2) ne by (simp add: settled_def)
qed


text \<open>C21. The swap partition keeps pages: in every run each page that was written to a slot and not taken back is read from
  that slot as it was written, whatever happened to other slots; a write never hits a slot in use, and it succeeds
  while a slot is free or eight sectors are left. The slots in use and the free ones together fill the sectors below the
  counter, and when no page is swapped out the counter is zero.\<close>

theorem swap_roundtrip:
  assumes "swap_runs V s"
  shows "(\<forall>p pg m buf b ms. V p = Some pg \<and> mapped m buf 4096 \<and> b \<noteq> 0 \<longrightarrow>
      (\<exists>s'. read_swap s (b # ms) m buf p = Some (put m buf pg, s', ms) \<and> swap_runs (V(p := None)) s')) \<and>
    (\<forall>m buf pg b q ms. bytes_at m buf pg \<and> length pg = 4096 \<and> b \<noteq> 0 \<and> q \<noteq> 0 \<and> (\<forall>x \<in> set (b # q # ms). slots s x = None) \<and>
        (free_swap s \<noteq> [] \<or> unat (swap_cnt s) + 8 \<le> min (unat (capacity (partition s))) (2 ^ 28)) \<longrightarrow>
      (\<exists>p s' ms'. write_swap s (b # q # ms) m buf = Some (p, s', ms') \<and> p \<notin> dom V \<and> swap_runs (V(p \<mapsto> pg)) s')) \<and>
    8 * (card (dom V) + length (free_swap s)) = unat (swap_cnt s) \<and>
    (V = (\<lambda>_. None) \<longrightarrow> free_swap s = [] \<and> swap_cnt s = 0)"
proof (intro conjI allI impI)
  have ok: "swap_ok (dom V) s" "settled s" "pages_ok V s" using swap_runs_ok [OF assms] by blast+
  fix p pg m buf and b :: ptr and ms
  assume "V p = Some pg \<and> mapped m buf 4096 \<and> b \<noteq> 0"
  then have p: "V p = Some pg" "mapped m buf 4096" "b \<noteq> 0" by blast+
  from read_swap_ok [OF ok p, of ms] show "\<exists>s'. read_swap s (b # ms) m buf p = Some (put m buf pg, s', ms) \<and> swap_runs (V(p := None)) s'"
    using swap_runs.Read [OF assms p(1)] by blast
next
  have ok: "swap_ok (dom V) s" "settled s" "pages_ok V s" using swap_runs_ok [OF assms] by blast+
  fix m buf pg and b q :: ptr and ms
  assume A: "bytes_at m buf pg \<and> length pg = 4096 \<and> b \<noteq> 0 \<and> q \<noteq> 0 \<and> (\<forall>x \<in> set (b # q # ms). slots s x = None) \<and>
    (free_swap s \<noteq> [] \<or> unat (swap_cnt s) + 8 \<le> min (unat (capacity (partition s))) (2 ^ 28))"
  then have a: "bytes_at m buf pg" "length pg = 4096" "b \<noteq> 0" "q \<noteq> 0" "\<forall>x \<in> set (b # q # ms). slots s x = None" "slots s q = None" by simp_all
  have "\<exists>p s' ms'. write_swap s (b # q # ms) m buf = Some (p, s', ms')"
  proof (cases "free_swap s")
    case (Cons e es)
    then show ?thesis using write_swap_reuse [OF ok a(1,2) Cons a(3), of "q # ms"] by blast
  next
    case Nil
    then show ?thesis using write_swap_new [OF ok a(1,2) Nil a(3,4,6), of ms] A by auto
  qed
  then obtain p s' ms' where w: "write_swap s (b # q # ms) m buf = Some (p, s', ms')" by blast
  from write_swap_ok [OF ok a(5) a(1,2) w] swap_runs.Write [OF assms a(5) a(1,2) w] w
  show "\<exists>p s' ms'. write_swap s (b # q # ms) m buf = Some (p, s', ms') \<and> p \<notin> dom V \<and> swap_runs (V(p \<mapsto> pg)) s'" by blast
next
  show "8 * (card (dom V) + length (free_swap s)) = unat (swap_cnt s)" using swap_space swap_runs_ok [OF assms] by blast
next
  assume "V = (\<lambda>_. None)"
  then show "free_swap s = []" "swap_cnt s = 0" using swap_empty [of s] swap_runs_ok [OF assms] by auto
qed

definition small_disk :: disk where
  "small_disk = \<lparr>capacity = 64, read_cnt = 0, write_cnt = 0, sectors = (\<lambda>_. replicate 512 0)\<rparr>"

theorem swap_roundtrip_witness:
  "\<exists>s p s1 ms. swap_init (Some small_disk) = Some s \<and> write_swap s [8, 16] (\<lambda>_. Some 7) 0 = Some (p, s1, ms) \<and>
    swap_runs [p \<mapsto> replicate 4096 7] s1 \<and>
    (\<exists>s2. read_swap s1 [24] (\<lambda>_. Some 0) 4096 p = Some (put (\<lambda>_. Some 0) 4096 (replicate 4096 7), s2, []))"
proof -
  obtain s where s: "swap_init (Some small_disk) = Some s" "free_swap s = []" "swap_cnt s = 0" "capacity (partition s) = 64" "slots s = (\<lambda>_. None)"
    by (simp add: swap_init_def small_disk_def)
  have run: "swap_runs (\<lambda>_. None) s" by (rule swap_runs.Init [OF s(1)])
  have "bytes_at (\<lambda>_. Some 7) 0 (replicate 4096 7)" by (simp add: bytes_at_nth)
  then obtain p s1 ms where w: "write_swap s [8, 16] (\<lambda>_. Some 7) 0 = Some (p, s1, ms)" "swap_runs [p \<mapsto> replicate 4096 7] s1"
    using conjunct1 [OF conjunct2 [OF swap_roundtrip [OF run]], rule_format,
      of "\<lambda>_. Some 7" 0 "replicate 4096 7" 8 16 "[]"] s by auto
  have "\<exists>s2. read_swap s1 [24] (\<lambda>_. Some 0) 4096 p = Some (put (\<lambda>_. Some 0) 4096 (replicate 4096 7), s2, [])"
    using conjunct1 [OF swap_roundtrip [OF w(2)], rule_format, of p "replicate 4096 7" "\<lambda>_. Some 0" 4096 24 "[]"] by (auto simp: mapped_def)
  then show ?thesis using s(1) w by blast
qed

end
