(* ===== verification/Vm.thy ===== *)
theory Vm
  imports Swap Filesys Pagedir
begin

section \<open>Virtual memory (vm/frame.c, vm/page.c, userprog/exception.c)\<close>

text \<open>
  The user side of the kernel: the parts of \<^verbatim>\<open>struct thread\<close> that belong to a process, the table of the frames that hold user
  pages, the supplemental page tables, which say where the pages are that are not in memory, and the page fault handler that
  brings them in. The state joins the file system, the page tables with the physical memory, and the swap partition.
  The kernel is the one built with \<^verbatim>\<open>USERPROG\<close> and \<^verbatim>\<open>VM\<close>.

  Objects from \<^verbatim>\<open>malloc\<close> are found by their addresses, which are taken from the list \<open>mallocs\<close> of the file system's state.
  The readings of the real time clock are the list \<open>times\<close>. As in the file system an operation runs without
  being interrupted: the locks and the semaphores that guard a table are free and have no effect. Members that the code leaves
  uninitialised and does not read are zero.
\<close>

subsection \<open>State\<close>

datatype page_location = PAG_SWAP | PAG_FILE | PAG_EXEC

record page =
  pg_location :: ptr
  pg_kind :: page_location
  pg_writable :: bool
  pg_file_ofs :: u32
  pg_read_b :: u32
  pg_zero_b :: u32
  pg_page :: ptr

record frame =
  fr_finish :: u32
  fr_address :: ptr
  fr_owner :: ptr
  fr_page :: ptr
  fr_evictable :: bool
  fr_writable :: bool

record open_file =
  of_fd :: int
  of_file :: ptr

record child_process =
  pid_t :: int
  ch_exit_status :: int
  ch_sema :: u32

record mapped_file =
  mf_mapid :: u32
  mf_file :: ptr
  mf_addr :: ptr
  mf_size :: u32

record exec_arg =
  ea_page :: ptr
  ea_filename :: "u8 list"
  ea_sema :: u32
  ea_success :: bool

record uthread =
  t_tid :: int
  t_name :: "u8 list"
  t_pagedir :: ptr
  t_exit_status :: int
  exited_by_exit_call :: bool
  is_userprog :: bool
  open_files :: "ptr list"
  next_fd :: int
  childs :: "ptr list"
  t_parent :: ptr
  t_file :: ptr
  sup_page_table :: "ptr list"
  mf_table :: "ptr list"
  mmid :: u32
  max_code_seg_addr :: ptr

record machine =
  fsys :: fs
  mm :: mmu
  swp :: swap
  uthreads :: "ptr \<Rightarrow> uthread option"
  current :: ptr
  page_objs :: "ptr \<Rightarrow> page option"
  frame_objs :: "ptr \<Rightarrow> frame option"
  frame_list :: "ptr list"
  victim_frame :: ptr
  open_file_objs :: "ptr \<Rightarrow> open_file option"
  child_objs :: "ptr \<Rightarrow> child_process option"
  mf_objs :: "ptr \<Rightarrow> mapped_file option"
  exec_objs :: "ptr \<Rightarrow> exec_arg option"
  page_fault_cnt :: u64
  times :: "u32 list"
  exit_messages :: "(u8 list \<times> int) list"
  console :: "u8 list"
  keys :: "u8 list"

definition m_malloc :: "machine \<Rightarrow> ptr \<times> machine" where
  "m_malloc s = (let (p, x) = fs_malloc (fsys s) in (p, s\<lparr>fsys := x\<rparr>))"

definition rtc_now :: "machine \<Rightarrow> u32 \<times> machine" where
  "rtc_now s = (case times s of [] \<Rightarrow> (0, s) | t # ts \<Rightarrow> (t, s\<lparr>times := ts\<rparr>))"

definition on_fs :: "machine \<Rightarrow> (fs \<Rightarrow> ('a ret \<times> fs) option) \<Rightarrow> ('a ret \<times> machine) option" where
  "on_fs s f = map_option (\<lambda>(r, x). (r, s\<lparr>fsys := x\<rparr>)) (f (fsys s))"

definition kmem :: "machine \<Rightarrow> mem" where
  "kmem s = pmem (frames (mm s))"

definition set_kmem :: "machine \<Rightarrow> mem \<Rightarrow> machine" where
  "set_kmem s m = s\<lparr>mm := (mm s)\<lparr>frames := (frames (mm s))\<lparr>pmem := m\<rparr>\<rparr>\<rparr>"

definition cur_thread :: "machine \<Rightarrow> uthread option" where
  "cur_thread s = uthreads s (current s)"

definition upd_thread :: "machine \<Rightarrow> ptr \<Rightarrow> (uthread \<Rightarrow> uthread) \<Rightarrow> machine option" where
  "upd_thread s t g = do { th \<leftarrow> uthreads s t; Some (s\<lparr>uthreads := (uthreads s)(t \<mapsto> g th)\<rparr>) }"

definition upd_frame :: "machine \<Rightarrow> ptr \<Rightarrow> (frame \<Rightarrow> frame) \<Rightarrow> machine option" where
  "upd_frame s f g = do { fr \<leftarrow> frame_objs s f; Some (s\<lparr>frame_objs := (frame_objs s)(f \<mapsto> g fr)\<rparr>) }"

subsection \<open>Supplemental page tables\<close>

primrec spt_find :: "(ptr \<Rightarrow> page option) \<Rightarrow> ptr \<Rightarrow> ptr list \<Rightarrow> ptr option" where
  "spt_find m va [] = Some 0"
| "spt_find m va (e # es) = do { pg \<leftarrow> m e; if pg_page pg = va then Some e else spt_find m va es }"

definition supplemental_table_look_up_ext :: "machine \<Rightarrow> ptr \<Rightarrow> ptr \<Rightarrow> ptr option" where
  "supplemental_table_look_up_ext s vm_addr t = do {
     th \<leftarrow> uthreads s t;
     spt_find (page_objs s) vm_addr (sup_page_table th)
   }"

definition supplemental_table_look_up :: "machine \<Rightarrow> ptr \<Rightarrow> ptr option" where
  "supplemental_table_look_up s vm_addr = do {
     cur \<leftarrow> cur_thread s;
     spt_find (page_objs s) vm_addr (sup_page_table cur)
   }"

definition supplemental_table_free_page :: "machine \<Rightarrow> ptr \<Rightarrow> machine option" where
  "supplemental_table_free_page s p = do {
     cur \<leftarrow> cur_thread s;
     kassert (p \<in> set (sup_page_table cur));
     s \<leftarrow> upd_thread s (current s) (\<lambda>th. th\<lparr>sup_page_table := remove1 p (sup_page_table th)\<rparr>);
     Some (s\<lparr>page_objs := (page_objs s)(p := None)\<rparr>)
   }"

definition supplemental_table_add_frame :: "machine \<Rightarrow> ptr \<Rightarrow> ptr \<Rightarrow> (unit ret \<times> machine) option" where
  "supplemental_table_add_frame s f sl = do {
     fr \<leftarrow> frame_objs s f;
     let (p, s) = m_malloc s;
     if p = 0 then Some (Exits, s)
     else do {
       let s = s\<lparr>page_objs := (page_objs s)(p \<mapsto> \<lparr>pg_location = sl, pg_kind = PAG_SWAP, pg_writable = fr_writable fr,
         pg_file_ofs = 0, pg_read_b = 0, pg_zero_b = 0, pg_page = fr_page fr\<rparr>)\<rparr>;
       s \<leftarrow> upd_thread s (fr_owner fr) (\<lambda>th. th\<lparr>sup_page_table := p # sup_page_table th\<rparr>);
       Some (Ret (), s)
     }
   }"

subsection \<open>The frame table\<close>

definition frame_table_init :: "machine \<Rightarrow> machine" where
  "frame_table_init s = s\<lparr>frame_list := [], victim_frame := 0\<rparr>"

primrec frame_find :: "(ptr \<Rightarrow> frame option) \<Rightarrow> ptr \<Rightarrow> ptr list \<Rightarrow> ptr option" where
  "frame_find m a [] = Some 0"
| "frame_find m a (e # es) = do { fr \<leftarrow> m e; if a = fr_address fr then Some e else frame_find m a es }"

definition frame_table_look_up :: "machine \<Rightarrow> ptr \<Rightarrow> (ptr \<times> machine) option" where
  "frame_table_look_up s a = do {
     f \<leftarrow> frame_find (frame_objs s) a (frame_list s);
     if f \<noteq> 0 then do { let (t, s) = rtc_now s; s \<leftarrow> upd_frame s f (\<lambda>fr. fr\<lparr>fr_finish := t\<rparr>); Some (f, s) }
     else Some (0, s)
   }"

primrec find_min_loop :: "(ptr \<Rightarrow> frame option) \<Rightarrow> ptr list \<Rightarrow> u32 \<Rightarrow> ptr \<Rightarrow> ptr option" where
  "find_min_loop m [] mn ret = Some ret"
| "find_min_loop m (e # es) mn ret = do {
     fr \<leftarrow> m e;
     if mn > fr_finish fr then find_min_loop m es (fr_finish fr) e else find_min_loop m es mn ret
   }"

text \<open>On an empty table the code reads a frame at the end marker of the list.\<close>

definition frame_table_find_min :: "machine \<Rightarrow> ptr option" where
  "frame_table_find_min s = (case frame_list s of
      [] \<Rightarrow> None
    | e # es \<Rightarrow> do { fr \<leftarrow> frame_objs s e; find_min_loop (frame_objs s) (frame_list s) (fr_finish fr) e })"

text \<open>A new frame's time is not set; \<open>t\<close> is the value the block had.\<close>

definition frame_table_insert :: "machine \<Rightarrow> ptr \<Rightarrow> ptr \<Rightarrow> bool \<Rightarrow> u32 \<Rightarrow> (ptr ret \<times> machine) option" where
  "frame_table_insert s a upage writable t = do {
     let (f, s) = m_malloc s;
     if f = 0 then Some (Exits, s)
     else Some (Ret f, s\<lparr>frame_objs := (frame_objs s)(f \<mapsto> \<lparr>fr_finish = t, fr_address = a, fr_owner = current s, fr_page = upage,
       fr_evictable = False, fr_writable = writable\<rparr>), frame_list := f # frame_list s\<rparr>)
   }"

text \<open>
  \<open>victim_frame\<close> is a pointer to the list element in a frame, 20 bytes behind the start of the frame, and \<^verbatim>\<open>list_entry\<close>
  subtracts these 20 bytes.
\<close>

definition frame_elem :: "ptr \<Rightarrow> ptr" where "frame_elem f = f + 20"
definition frame_entry :: "ptr \<Rightarrow> ptr" where "frame_entry e = e - 20"

partial_function (option) choose_loop :: "machine \<Rightarrow> (ptr \<times> machine) option" where
  "choose_loop s = do {
     let f = frame_entry (victim_frame s);
     fr \<leftarrow> frame_objs s f;
     if fr_evictable fr then do {
       owner \<leftarrow> uthreads s (fr_owner fr);
       a \<leftarrow> pagedir_is_accessed (mm s) (t_pagedir owner) (fr_page fr);
       if \<not> a then do {
         n \<leftarrow> clock_next (frame_list s) f;
         Some (f, s\<lparr>victim_frame := frame_elem n\<rparr>)
       }
       else do {
         m \<leftarrow> pagedir_set_accessed (mm s) (t_pagedir owner) (fr_page fr) False;
         choose_loop (s\<lparr>mm := m\<rparr>)
       }
     }
     else do {
       n \<leftarrow> clock_next (frame_list s) f;
       choose_loop (s\<lparr>victim_frame := frame_elem n\<rparr>)
     }
   }"

text \<open>\<^verbatim>\<open>frame_table_find_min\<close> returns a frame, which the code stores in \<open>victim_frame\<close> as it is.\<close>

definition frame_table_choose_victim :: "machine \<Rightarrow> (ptr \<times> machine) option" where
  "frame_table_choose_victim s =
    (if frame_list s \<noteq> []
     then do {
       s \<leftarrow> (if victim_frame s = 0 then map_option (\<lambda>f. s\<lparr>victim_frame := f\<rparr>) (frame_table_find_min s) else Some s);
       (f, s) \<leftarrow> choose_loop s;
       s \<leftarrow> upd_frame s f (\<lambda>fr. fr\<lparr>fr_evictable := False\<rparr>);
       Some (f, s)
     }
     else Some (0, s))"

text \<open>What happens to the page in the frame that is taken: a page of a file goes back to the file if it was changed, any
  other to the swap partition.\<close>

definition evict_page :: "machine \<Rightarrow> ptr \<Rightarrow> (unit ret \<times> machine) option" where
  "evict_page s f = do {
     fr \<leftarrow> frame_objs s f;
     owner \<leftarrow> uthreads s (fr_owner fr);
     p \<leftarrow> supplemental_table_look_up_ext s (fr_page fr) (fr_owner fr);
     if p \<noteq> 0 then do {
       pg \<leftarrow> page_objs s p;
       dirty \<leftarrow> pagedir_is_dirty (mm s) (t_pagedir owner) (fr_page fr);
       m \<leftarrow> pagedir_clear_page (mm s) (t_pagedir owner) (fr_page fr);
       let s = s\<lparr>mm := m\<rparr>;
       if dirty \<and> fr_writable fr then do {
         bs \<leftarrow> load_bytes (kmem s) (fr_address fr) (unat (pg_read_b pg));
         and_then (on_fs s (\<lambda>x. file_write_at x (pg_location pg) bs (sint (pg_file_ofs pg)))) (\<lambda>k s.
           if k \<noteq> sint (pg_read_b pg) then Some (Exits, s) else Some (Ret (), s))
       }
       else Some (Ret (), s)
     }
     else do {
       m \<leftarrow> pagedir_clear_page (mm s) (t_pagedir owner) (fr_page fr);
       let s = s\<lparr>mm := m\<rparr>;
       (sl, sw, ms) \<leftarrow> write_swap (swp s) (mallocs (fsys s)) (kmem s) (fr_address fr);
       supplemental_table_add_frame (s\<lparr>swp := sw, fsys := (fsys s)\<lparr>mallocs := ms\<rparr>\<rparr>) f sl
     }
   }"

text \<open>\<open>t\<close> is what an uninitialised time field holds.\<close>

definition frame_table_get_frame :: "machine \<Rightarrow> ptr \<Rightarrow> bool \<Rightarrow> u32 \<Rightarrow> (ptr ret \<times> machine) option" where
  "frame_table_get_frame s upage writable t = do {
     (user_page, fr) \<leftarrow> palloc_get_page (frames (mm s)) (PAL_USER OR PAL_ZERO);
     let s = s\<lparr>mm := (mm s)\<lparr>frames := fr\<rparr>\<rparr>;
     if user_page = 0 then do {
       (f, s) \<leftarrow> frame_table_choose_victim s;
       if f = 0 then Some (Exits, s)
       else and_then (evict_page s f) (\<lambda>_ s. do {
         fr \<leftarrow> frame_objs s f;
         (_, m) \<leftarrow> memset (kmem s) (fr_address fr) 0 PGSIZE;
         let s = set_kmem s m;
         let (now, s) = rtc_now s;
         s \<leftarrow> upd_frame s f (\<lambda>fr. fr\<lparr>fr_owner := current s, fr_page := upage, fr_writable := writable, fr_finish := now\<rparr>);
         Some (Ret f, s)
       })
     }
     else and_then (frame_table_insert s user_page upage writable t) (\<lambda>f s. do {
       let (now, s) = rtc_now s;
       s \<leftarrow> upd_frame s f (\<lambda>fr. fr\<lparr>fr_finish := now\<rparr>);
       Some (Ret f, s)
     })
   }"

text \<open>The table is searched for the address of the frame's structure instead of the frame's address.\<close>

definition frame_table_remove :: "machine \<Rightarrow> ptr \<Rightarrow> machine option" where
  "frame_table_remove s f =
    (if f \<noteq> 0
     then do {
       (temp, s) \<leftarrow> frame_table_look_up s f;
       if temp \<noteq> 0 then do {
         fr \<leftarrow> frame_objs s f;
         p \<leftarrow> palloc_free_page (frames (mm s)) (fr_address fr);
         kassert (f \<in> set (frame_list s));
         Some (s\<lparr>mm := (mm s)\<lparr>frames := p\<rparr>, frame_list := remove1 f (frame_list s)\<rparr>)
       }
       else Some s
     }
     else Some s)"

primrec rmf_loop :: "ptr \<Rightarrow> ptr list \<Rightarrow> machine \<Rightarrow> machine option" where
  "rmf_loop t [] s = Some s"
| "rmf_loop t (f # fs) s = do {
     fr \<leftarrow> frame_objs s f;
     rmf_loop t fs (if fr_owner fr = t \<and> fr_evictable fr
       then s\<lparr>frame_list := remove1 f (frame_list s), frame_objs := (frame_objs s)(f := None)\<rparr> else s)
   }"

definition frame_table_rmf :: "machine \<Rightarrow> ptr \<Rightarrow> machine option" where
  "frame_table_rmf s t = rmf_loop t (frame_list s) s"

primrec accessed_loop :: "ptr list \<Rightarrow> machine \<Rightarrow> machine option" where
  "accessed_loop [] s = Some s"
| "accessed_loop (f # fs) s = do {
     fr \<leftarrow> frame_objs s f;
     owner \<leftarrow> uthreads s (fr_owner fr);
     m \<leftarrow> pagedir_set_accessed (mm s) (t_pagedir owner) (fr_page fr) False;
     accessed_loop fs (s\<lparr>mm := m\<rparr>)
   }"

definition frame_table_update_accessed_bit :: "machine \<Rightarrow> machine option" where
  "frame_table_update_accessed_bit s = accessed_loop (frame_list s) s"


subsection \<open>Loading a page\<close>

definition install_page :: "machine \<Rightarrow> ptr \<Rightarrow> ptr \<Rightarrow> bool \<Rightarrow> (bool \<times> machine) option" where
  "install_page s upage kpage writable = do {
     t \<leftarrow> cur_thread s;
     k \<leftarrow> pagedir_get_page (mm s) (t_pagedir t) upage;
     if k = 0 then do {
       (ok, m) \<leftarrow> pagedir_set_page (mm s) (t_pagedir t) upage kpage writable;
       Some (ok, s\<lparr>mm := m\<rparr>)
     }
     else Some (False, s)
   }"

definition read_page :: "machine \<Rightarrow> page \<Rightarrow> ptr \<Rightarrow> (bool ret \<times> machine) option" where
  "read_page s pg a =
    and_then (on_fs s (\<lambda>x. file_read_at x (pg_location pg) (sint (pg_read_b pg)) (sint (pg_file_ofs pg)))) (\<lambda>bs s. do {
      m \<leftarrow> store_bytes (kmem s) a bs;
      Some (Ret (int (length bs) = sint (pg_read_b pg)), set_kmem s m)
    })"

text \<open>An error gives the frame back and ends the thread.\<close>

definition drop_frame :: "machine \<Rightarrow> ptr \<Rightarrow> (unit ret \<times> machine) option" where
  "drop_frame s f = map_option (\<lambda>s. (Exits, s)) (frame_table_remove s f)"

definition install_or_exit :: "machine \<Rightarrow> page \<Rightarrow> ptr \<Rightarrow> (unit ret \<times> machine) option" where
  "install_or_exit s pg f = do {
     fr \<leftarrow> frame_objs s f;
     (ok, s) \<leftarrow> install_page s (pg_page pg) (fr_address fr) (pg_writable pg);
     if ok then Some (Ret (), s) else drop_frame s f
   }"

definition load_file_page :: "machine \<Rightarrow> page \<Rightarrow> ptr \<Rightarrow> (unit ret \<times> machine) option" where
  "load_file_page s pg f = do {
     fr \<leftarrow> frame_objs s f;
     and_then (if pg_zero_b pg \<noteq> PGSIZE then read_page s pg (fr_address fr) else Some (Ret True, s)) (\<lambda>ok s.
       if ok then install_or_exit s pg f else drop_frame s f)
   }"

definition load_swap_page :: "machine \<Rightarrow> page \<Rightarrow> ptr \<Rightarrow> (unit ret \<times> machine) option" where
  "load_swap_page s pg f = do {
     fr \<leftarrow> frame_objs s f;
     (m, sw, ms) \<leftarrow> read_swap (swp s) (mallocs (fsys s)) (kmem s) (fr_address fr) (pg_location pg);
     install_or_exit ((set_kmem s m)\<lparr>swp := sw, fsys := (fsys s)\<lparr>mallocs := ms\<rparr>\<rparr>) pg f
   }"

definition supplemental_table_load_page :: "machine \<Rightarrow> ptr \<Rightarrow> u32 \<Rightarrow> (unit ret \<times> machine) option" where
  "supplemental_table_load_page s p t = do {
     pg \<leftarrow> page_objs s p;
     and_then (frame_table_get_frame s (pg_page pg) (pg_writable pg) t) (\<lambda>f s.
       and_then (case pg_kind pg of
           PAG_EXEC \<Rightarrow> and_then (load_file_page s pg f) (\<lambda>_ s.
             if pg_writable pg then map_option (\<lambda>s. (Ret (), s)) (supplemental_table_free_page s p) else Some (Ret (), s))
         | PAG_FILE \<Rightarrow> load_file_page s pg f
         | PAG_SWAP \<Rightarrow> and_then (load_swap_page s pg f) (\<lambda>_ s.
             map_option (\<lambda>s. (Ret (), s)) (supplemental_table_free_page s p))) (\<lambda>_ s.
         map_option (\<lambda>s. (Ret (), s)) (upd_frame s f (\<lambda>fr. fr\<lparr>fr_evictable := True\<rparr>))))
   }"

subsection \<open>The tables of a process that ends\<close>

primrec spt_destroy_loop :: "ptr list \<Rightarrow> machine \<Rightarrow> machine option" where
  "spt_destroy_loop [] s = Some s"
| "spt_destroy_loop (p # ps) s = do {
     s \<leftarrow> upd_thread s (current s) (\<lambda>th. th\<lparr>sup_page_table := ps\<rparr>);
     pg \<leftarrow> page_objs s p;
     s \<leftarrow> (if pg_kind pg = PAG_SWAP then map_option (\<lambda>sw. s\<lparr>swp := sw\<rparr>) (Swap.free_slot (swp s) (pg_location pg)) else Some s);
     spt_destroy_loop ps (s\<lparr>page_objs := (page_objs s)(p := None)\<rparr>)
   }"

definition supplemental_table_destroy :: "machine \<Rightarrow> machine option" where
  "supplemental_table_destroy s = do { cur \<leftarrow> cur_thread s; spt_destroy_loop (sup_page_table cur) s }"

text \<open>
  The loop over the pages of a mapped file, which \<^verbatim>\<open>mf_table_destroy\<close> and \<^verbatim>\<open>handle_munmap\<close> share. It always clears the
  mapping of the first page.
\<close>

partial_function (option) unmap_loop :: "mapped_file \<Rightarrow> u32 \<Rightarrow> ptr \<Rightarrow> machine \<Rightarrow> (unit ret \<times> machine) option" where
  "unmap_loop mf sz addr s =
    (if sz > 0
     then do {
       p \<leftarrow> supplemental_table_look_up s addr;
       if p = 0 then Some (Exits, s)
       else do {
         cur \<leftarrow> cur_thread s;
         pg \<leftarrow> page_objs s p;
         let write_b = pg_read_b pg;
         kpage \<leftarrow> pagedir_get_page (mm s) (t_pagedir cur) (pg_page pg);
         dirty \<leftarrow> (if kpage \<noteq> 0 then pagedir_is_dirty (mm s) (t_pagedir cur) (pg_page pg) else Some False);
         (r, s) \<leftarrow>
           (if dirty then do {
              bs \<leftarrow> load_bytes (kmem s) kpage (unat write_b);
              and_then (on_fs s (\<lambda>x. file_write_at x (mf_file mf) bs (sint (pg_file_ofs pg)))) (\<lambda>k s.
                if k \<noteq> sint write_b then Some (Exits, s) else Some (Ret (), s))
            }
            else Some (Ret (), s));
         case r of
           Exits \<Rightarrow> Some (Exits, s)
         | Ret _ \<Rightarrow> do {
             m \<leftarrow> (if kpage \<noteq> 0 then pagedir_clear_page (mm s) (t_pagedir cur) (mf_addr mf) else Some (mm s));
             s \<leftarrow> supplemental_table_free_page (s\<lparr>mm := m\<rparr>) p;
             unmap_loop mf (sz - write_b) (addr + write_b) s
           }
       }
     }
     else Some (Ret (), s))"

fun mf_destroy_loop :: "ptr list \<Rightarrow> machine \<Rightarrow> (unit ret \<times> machine) option" where
  "mf_destroy_loop [] s = Some (Ret (), s)"
| "mf_destroy_loop (e # es) s = do {
     s \<leftarrow> upd_thread s (current s) (\<lambda>th. th\<lparr>mf_table := es\<rparr>);
     mf \<leftarrow> mf_objs s e;
     and_then (unmap_loop mf (mf_size mf) (mf_addr mf) s) (\<lambda>_ s.
       and_then (on_fs s (\<lambda>x. file_close x (mf_file mf))) (\<lambda>_ s.
         mf_destroy_loop es (s\<lparr>mf_objs := (mf_objs s)(e := None)\<rparr>)))
   }"

definition mf_table_destroy :: "machine \<Rightarrow> (unit ret \<times> machine) option" where
  "mf_table_destroy s = do { cur \<leftarrow> cur_thread s; mf_destroy_loop (mf_table cur) s }"

subsection \<open>Exceptions\<close>

definition PF_P :: u32 where "PF_P = 1"
definition PF_W :: u32 where "PF_W = 2"
definition PF_U :: u32 where "PF_U = 4"

definition SEL_KCSEG :: u16 where "SEL_KCSEG = 0x08"
definition SEL_UCSEG :: u16 where "SEL_UCSEG = 0x1B"

text \<open>An exception in kernel code is a kernel bug; any other ends the thread.\<close>

definition kill :: "u16 \<Rightarrow> 's \<Rightarrow> (unit ret \<times> 's) option" where
  "kill cs s = (if cs = SEL_UCSEG then Some (Exits, s) else if cs = SEL_KCSEG then None else Some (Exits, s))"

text \<open>
  The page fault handler. The result is true when the page has been loaded and the instruction is to be tried again. It is
  false when a kernel access failed: the handler sets \<^verbatim>\<open>eax\<close> to -1 and continues at the address that was in \<^verbatim>\<open>eax\<close>.
\<close>

definition page_fault :: "machine \<Rightarrow> ptr \<Rightarrow> u32 \<Rightarrow> u32 \<Rightarrow> (bool ret \<times> machine) option" where
  "page_fault s fault_addr error_code t = do {
     let s = s\<lparr>page_fault_cnt := page_fault_cnt s + 1\<rparr>;
     let not_present = (error_code AND PF_P = 0);
     let user = (error_code AND PF_U \<noteq> 0);
     and_then
       (if not_present \<and> fault_addr < PHYS_BASE
        then do {
          page \<leftarrow> supplemental_table_look_up s (pg_round_down fault_addr);
          and_then (if page \<noteq> 0 then and_then (supplemental_table_load_page s page t) (\<lambda>_ s. Some (Ret True, s))
                    else Some (Ret False, s)) (\<lambda>conti s.
            if \<not> user \<and> \<not> conti then Some (Exits, s) else Some (Ret conti, s))
        }
        else Some (Ret False, s)) (\<lambda>conti s.
       if \<not> user then Some (Ret conti, s) else if \<not> conti then Some (Exits, s) else Some (Ret conti, s))
   }"

text \<open>
  An access to memory by the kernel, as the processor makes it: kernel addresses are mapped one to one, user addresses
  through the page directory of the running process, and a fault calls the handler. The kernel may not write to a read-only
  page either. A successful access sets the accessed bit, and a write the dirty bit. The result is the kernel address, or none when the access failed.
\<close>

partial_function (option) kernel_access :: "machine \<Rightarrow> ptr \<Rightarrow> bool \<Rightarrow> u32 \<Rightarrow> (ptr option ret \<times> machine) option" where
  "kernel_access s va write t =
    (if va \<ge> PHYS_BASE
     then if kmem s va \<noteq> None then Some (Ret (Some va), s)
       else do {
         (r, s) \<leftarrow> page_fault s va (if write then PF_W else 0) t;
         case r of Exits \<Rightarrow> Some (Exits, s) | Ret conti \<Rightarrow> if conti then kernel_access s va write t else Some (Ret None, s)
       }
     else do {
       cur \<leftarrow> cur_thread s;
       k \<leftarrow> pagedir_get_page (mm s) (t_pagedir cur) va;
       w \<leftarrow> is_flag PTE_W (mm s) (t_pagedir cur) va;
       if k \<noteq> 0 \<and> (write \<longrightarrow> w) then do {
         m \<leftarrow> set_flag PTE_A (mm s) (t_pagedir cur) va True;
         m \<leftarrow> (if write then set_flag PTE_D m (t_pagedir cur) va True else Some m);
         Some (Ret (Some k), s\<lparr>mm := m\<rparr>)
       }
       else do {
         (r, s) \<leftarrow> page_fault s va ((if k \<noteq> 0 then PF_P else 0) OR (if write then PF_W else 0)) t;
         case r of Exits \<Rightarrow> Some (Exits, s) | Ret conti \<Rightarrow> if conti then kernel_access s va write t else Some (Ret None, s)
       }
     })"


subsection \<open>User memory\<close>

text \<open>The memory a process sees.\<close>

definition user_mem :: "machine \<Rightarrow> mem" where
  "user_mem s va = do {
     th \<leftarrow> cur_thread s;
     k \<leftarrow> pagedir_get_page (mm s) (t_pagedir th) va;
     if k = 0 then None else kmem s k
   }"

text \<open>A user page that is in memory, and writable when \<open>w\<close>; \<open>P\<close> is the set of the page directories, \<open>kp\<close> the frame.\<close>

definition page_in :: "ptr set \<Rightarrow> machine \<Rightarrow> bool \<Rightarrow> ptr \<Rightarrow> ptr \<Rightarrow> bool" where
  "page_in P s w up kp \<longleftrightarrow> mmu_ok P (mm s) \<and> tlb_ok P (mm s) \<and> pg_ofs up = 0 \<and> is_user_vaddr up \<and> pg_ofs kp = 0 \<and> kp \<noteq> 0 \<and>
     mapped (kmem s) kp 4096 \<and> (\<exists>th. cur_thread s = Some th \<and> t_pagedir th \<in> P \<and>
       (let e = upte (mm s) (t_pagedir th) up in e AND PTE_P \<noteq> 0 \<and> (w \<longrightarrow> e AND PTE_W \<noteq> 0) \<and> pte_get_page e = Some kp))"

lemma mmu_ok_pmem:
  assumes "mmu_ok P m" "\<And>q n. mapped (pmem (frames m)) q n \<Longrightarrow> mapped x q n"
  shows "mmu_ok P (m\<lparr>frames := (frames m)\<lparr>pmem := x\<rparr>\<rparr>)"
proof -
  let ?m = "m\<lparr>frames := (frames m)\<lparr>pmem := x\<rparr>\<rparr>"
  have same: "tables ?m = tables m" "base_page_dir ?m = base_page_dir m" "get_pool False (frames ?m) = get_pool False (frames m)"
    by (simp_all add: get_pool_def)
  have "palloc_ok (frames ?m)" using palloc_ok_pmem [OF mmu_okD(1) [OF assms(1)] assms(2)] by simp
  moreover have "dir_ok ?m pd = dir_ok m pd" "owned ?m pd = owned m pd" "base_ok ?m = base_ok m" for pd
    unfolding dir_ok_def base_ok_def owned_def page_used_def pt_at_def same by (rule refl)+
  ultimately show ?thesis using assms(1) unfolding mmu_ok_def same by simp
qed

lemma upte_pmem: "upte (m\<lparr>frames := fr\<rparr>) = upte m"
  by (intro ext) (simp add: upte_def pt_at_def cong: option.case_cong)

lemma tlb_ok_pmem: "tlb_ok P (m\<lparr>frames := fr\<rparr>) = tlb_ok P m"
  by (simp add: tlb_ok_def active_pd_def upte_pmem)

lemma lookup_page_same: "lookup_page m pd va False = Some (r, m') \<Longrightarrow> m' = m"
  by (auto simp: lookup_page_def bind_eq_Some_conv split: if_splits)

lemma set_entry_frames: "set_entry m t i e = Some m' \<Longrightarrow> frames m' = frames m"
  by (auto simp: set_entry_def bind_eq_Some_conv split: if_splits)

lemma set_flag_frames: "set_flag f m pd va True = Some m' \<Longrightarrow> frames m' = frames m"
  by (auto simp: set_flag_def bind_eq_Some_conv dest!: lookup_page_same set_entry_frames split: option.splits prod.splits)

lemma pte_get_page_or: "f AND PTE_ADDR = 0 \<Longrightarrow> pte_get_page (e OR f) = pte_get_page e"
  by (simp add: pte_get_page_def word_ao_dist)

lemma page_no_offset:
  assumes "pg_ofs up = 0" "unat (va - up) < 4096" "is_user_vaddr up"
  shows "pg_no va = pg_no up" "pg_ofs va = va - up" "is_user_vaddr va"
proof -
  have a: "unat up = 4096 * (unat up div 4096)" by (rule aligned_unat [OF assms(1)])
  have "va = up + (va - up)" by simp
  moreover have "unat up < 0xc0000000" using assms(3) by (simp add: is_user_vaddr_def PHYS_BASE_def word_less_nat_alt)
  ultimately have u: "unat va = 4096 * (unat up div 4096) + unat (va - up)" "unat up div 4096 < 786432"
    using assms(2) a unat_add_u32 [of up "va - up"] by simp_all
  show "pg_no va = pg_no up" using u(1) assms(2) by (simp add: u32_eq_iff unat_pg_no)
  show "pg_ofs va = va - up" using u(1) assms(2) by (simp add: u32_eq_iff unat_pg_ofs)
  show "is_user_vaddr va" using u assms(2) by (simp add: is_user_vaddr_def PHYS_BASE_def word_less_nat_alt)
qed

lemma upte_pt: "upte m pd va AND f \<noteq> 0 \<Longrightarrow> pt_at m pd (unat (pd_no va)) \<noteq> None"
  by (auto simp: upte_def split: option.splits)

lemma or_and_nonzero: "e AND f \<noteq> 0 \<Longrightarrow> (e OR g) AND f \<noteq> (0::u32)"
  by (metis or_eq_0_iff word_ao_dist)

text \<open>An address of a user page that is in memory is translated to the frame.\<close>

lemma user_page_translates:
  assumes "dir_ok m pd" "pg_ofs up = 0" "is_user_vaddr up" "upte m pd up AND PTE_P \<noteq> 0" "pte_get_page (upte m pd up) = Some kp"
    "pg_ofs kp = 0" "kp \<noteq> 0" "unat (va - up) < 4096"
  shows "pagedir_get_page m pd va = Some (kp + (va - up))" "kp + (va - up) \<noteq> 0"
proof -
  note n = page_no_offset [OF assms(2,8,3)]
  show "pagedir_get_page m pd va = Some (kp + (va - up))" using get_page_ok [OF assms(1) n(3)] upte_page [OF n(1)] assms(4,5) n(2) by simp
  have "unat kp = 4096 * (unat kp div 4096)" by (rule aligned_unat [OF assms(6)])
  moreover have "0 < unat kp" using assms(7) by (simp add: unat_gt_0)
  moreover have "unat kp div 4096 < 1048576" using unat_u32_bound [of kp] by (simp add: less_mult_imp_div_less)
  ultimately have "unat (kp + (va - up)) = unat kp + unat (va - up)" using assms(8) by (intro unat_add_u32) simp
  then show "kp + (va - up) \<noteq> 0" using \<open>0 < unat kp\<close> by (metis add_gr_0 less_irrefl unat_0)
qed

text \<open>Setting the accessed or the dirty bit of a page changes nothing else.\<close>

lemma set_flag_page_in:
  assumes p: "page_in P s w up kp" "cur_thread s = Some th" and va: "unat (va - up) < 4096" and f: "f = PTE_A \<or> f = PTE_D"
  shows "\<exists>m. set_flag f (mm s) (t_pagedir th) va True = Some m \<and> frames m = frames (mm s) \<and>
    (\<forall>w' up' kp'. page_in P s w' up' kp' \<longrightarrow> page_in P (s\<lparr>mm := m\<rparr>) w' up' kp')"
proof -
  let ?pd = "t_pagedir th"
  have ok: "mmu_ok P (mm s)" "tlb_ok P (mm s)" "pg_ofs up = 0" "is_user_vaddr up" "?pd \<in> P" "upte (mm s) ?pd up AND PTE_P \<noteq> 0"
    using p by (auto simp: page_in_def Let_def)
  note n = page_no_offset [OF ok(3) va ok(4)]
  have pt: "pt_at (mm s) ?pd (unat (pd_no va)) \<noteq> None"
    using upte_pt [of "mm s" ?pd va PTE_P] upte_page [OF n(1), of "mm s" ?pd] ok(6) by simp
  obtain m where m: "set_flag f (mm s) ?pd va True = Some m" "updated P (mm s) ?pd va (\<lambda>e. e OR f) m"
    using set_flag_ok [OF ok(1,2,5) n(3), of f True] pt f by auto
  have fr: "frames m = frames (mm s)" by (rule set_flag_frames [OF m(1)])
  have "page_in P (s\<lparr>mm := m\<rparr>) w' up' kp'" if q: "page_in P s w' up' kp'" for w' up' kp'
  proof -
    let ?e = "upte (mm s) ?pd up'" and ?e' = "upte m ?pd up'"
    have e: "?e AND PTE_P \<noteq> 0" "w' \<longrightarrow> ?e AND PTE_W \<noteq> 0" "pte_get_page ?e = Some kp'" "is_user_vaddr up'"
      using q p(2) by (auto simp: page_in_def Let_def)
    have "?e' = ?e OR f \<or> ?e' = ?e" using m(2) ok(5) e(4) by (simp add: updated_def)
    moreover have "pte_get_page (?e OR f) = pte_get_page ?e"
      using f by (intro pte_get_page_or) (auto simp: PTE_A_def PTE_D_def PTE_ADDR_def)
    ultimately have "?e' AND PTE_P \<noteq> 0" "w' \<longrightarrow> ?e' AND PTE_W \<noteq> 0" "pte_get_page ?e' = Some kp'"
      using e or_and_nonzero [of ?e _ f] by auto
    then show ?thesis using q m(2) p(2) fr by (simp add: page_in_def cur_thread_def kmem_def Let_def updated_def)
  qed
  then show ?thesis using m(1) fr by blast
qed

lemma page_in_access:
  assumes p: "page_in P s w up kp" and va: "unat (va - up) < 4096"
  shows "user_mem s va = kmem s (kp + (va - up))" "kmem s (kp + (va - up)) \<noteq> None"
    "write \<longrightarrow> w \<Longrightarrow> \<exists>m. kernel_access s va write t = Some (Ret (Some (kp + (va - up))), s\<lparr>mm := m\<rparr>) \<and> frames m = frames (mm s) \<and>
       (\<forall>w' up' kp'. page_in P s w' up' kp' \<longrightarrow> page_in P (s\<lparr>mm := m\<rparr>) w' up' kp')"
proof -
  obtain th where th: "cur_thread s = Some th" "t_pagedir th \<in> P" "upte (mm s) (t_pagedir th) up AND PTE_P \<noteq> 0"
      "w \<longrightarrow> upte (mm s) (t_pagedir th) up AND PTE_W \<noteq> 0" "pte_get_page (upte (mm s) (t_pagedir th) up) = Some kp"
    and ok: "mmu_ok P (mm s)" "tlb_ok P (mm s)" "pg_ofs up = 0" "is_user_vaddr up" "pg_ofs kp = 0" "kp \<noteq> 0" "mapped (kmem s) kp 4096"
    using p by (auto simp: page_in_def Let_def)
  note n = page_no_offset [OF ok(3) va ok(4)]
  let ?pd = "t_pagedir th" and ?k = "kp + (va - up)"
  have up: "upte (mm s) ?pd va = upte (mm s) ?pd up" by (rule upte_page [OF n(1)])
  note dok = mmu_okD(4) [OF ok(1) th(2)]
  note g = user_page_translates(1) [OF dok ok(3,4) th(3,5) ok(5,6) va] and k0 = user_page_translates(2) [OF dok ok(3,4) th(3,5) ok(5,6) va]
  show "user_mem s va = kmem s ?k" using th(1) g k0 by (simp add: user_mem_def)
  have "?k = kp + of_nat (unat (va - up))" by simp
  then show "kmem s ?k \<noteq> None" using ok(7) va unfolding mapped_def by metis
  assume w: "write \<longrightarrow> w"
  obtain m1 where m1: "set_flag PTE_A (mm s) ?pd va True = Some m1" "frames m1 = frames (mm s)"
      "\<forall>w' up' kp'. page_in P s w' up' kp' \<longrightarrow> page_in P (s\<lparr>mm := m1\<rparr>) w' up' kp'"
    using set_flag_page_in [OF p th(1) va] by blast
  have "page_in P (s\<lparr>mm := m1\<rparr>) w up kp" "cur_thread (s\<lparr>mm := m1\<rparr>) = Some th" using m1(3) p th(1) by (simp_all add: cur_thread_def)
  then obtain m2 where m2: "set_flag PTE_D m1 ?pd va True = Some m2" "frames m2 = frames (mm s)"
      "\<forall>w' up' kp'. page_in P s w' up' kp' \<longrightarrow> page_in P (s\<lparr>mm := m2\<rparr>) w' up' kp'"
    using set_flag_page_in [of P "s\<lparr>mm := m1\<rparr>" w up kp th va PTE_D] va m1(2,3) by auto
  have "\<not> va \<ge> PHYS_BASE" using n(3) by (simp add: is_user_vaddr_def)
  moreover have "is_flag PTE_W (mm s) ?pd va = Some (upte (mm s) ?pd up AND PTE_W \<noteq> 0)" using is_flag_ok [OF dok n(3)] up by simp
  ultimately have "kernel_access s va write t = Some (Ret (Some ?k), s\<lparr>mm := if write then m2 else m1\<rparr>)"
    using th(1,4) g k0 m1(1) m2(1) w by (subst kernel_access.simps) auto
  then show "\<exists>m. kernel_access s va write t = Some (Ret (Some ?k), s\<lparr>mm := m\<rparr>) \<and> frames m = frames (mm s) \<and>
       (\<forall>w' up' kp'. page_in P s w' up' kp' \<longrightarrow> page_in P (s\<lparr>mm := m\<rparr>) w' up' kp')"
    using m1(2,3) m2(2,3) by (intro exI [of _ "if write then m2 else m1"]) simp
qed

text \<open>Storing a byte of such a page.\<close>

lemma page_in_store:
  assumes p: "page_in P s w up kp" and m: "\<And>q n. mapped (kmem s) q n \<Longrightarrow> mapped x q n"
  shows "page_in P (set_kmem s x) w up kp"
  using p mmu_ok_pmem [of P "mm s" x] m unfolding page_in_def set_kmem_def kmem_def
  by (auto simp: cur_thread_def upte_pmem tlb_ok_pmem Let_def)


subsection \<open>Frames for user pages\<close>

text \<open>The frames of the user pool are physical memory.\<close>

definition user_pool_ok :: "mmu \<Rightarrow> bool" where
  "user_pool_ok m \<longleftrightarrow> (\<forall>q \<in> pool_pages (get_pool True (frames m)). 786432 \<le> q \<and> q < 786432 + unat (ram_pages m))"

lemma pool_page_ram:
  assumes "user_pool_ok m" "pg_ofs k = 0" "pages k 1 \<subseteq> pool_pages (get_pool True (frames m))"
  shows "is_kernel_vaddr k" "\<exists>p. vtop k = Some p \<and> drop_bit PTSHIFT p < ram_pages m"
proof -
  have "unat k div 4096 \<in> pool_pages (get_pool True (frames m))" using assms(3) by (simp add: pages_def)
  then have q: "786432 \<le> unat k div 4096" "unat k div 4096 < 786432 + unat (ram_pages m)" using assms(1) unfolding user_pool_ok_def by blast+
  then have "3221225472 \<le> unat k" by simp
  then have k: "PHYS_BASE \<le> k" by (simp add: PHYS_BASE_def word_le_nat_alt)
  show "is_kernel_vaddr k" using k by (simp add: is_kernel_vaddr_def)
  have "unat (k - PHYS_BASE) = unat k - 3221225472" using unat_sub_u32 [OF k] by (simp add: PHYS_BASE_def)
  also have "\<dots> = 4096 * (unat k div 4096 - 786432)" using aligned_unat [OF assms(2)] by simp
  finally have "unat (drop_bit PTSHIFT (k - PHYS_BASE)) = unat k div 4096 - 786432"
    by (simp add: drop_bit_eq_div PTSHIFT_def PGBITS_def unat_div)
  then show "\<exists>p. vtop k = Some p \<and> drop_bit PTSHIFT p < ram_pages m"
    using k q by (simp add: vtop_def is_kernel_vaddr_def word_less_nat_alt)
qed

lemma get_user_page:
  assumes "mmu_ok P m"
  shows "if no_run (get_pool True (frames m)) 1 then palloc_get_page (frames m) (PAL_USER OR PAL_ZERO) = Some (0, frames m)
    else \<exists>k fr. palloc_get_page (frames m) (PAL_USER OR PAL_ZERO) = Some (k, fr) \<and> got_pages True (PAL_USER OR PAL_ZERO) 1 (frames m) k fr \<and>
      mmu_ok P (m\<lparr>frames := fr\<rparr>)"
proof -
  have f: "True = ((PAL_USER OR PAL_ZERO) AND PAL_USER \<noteq> 0)" "(PAL_USER OR PAL_ZERO) AND PAL_ASSERT = 0"
    by (simp_all add: PAL_USER_def PAL_ZERO_def PAL_ASSERT_def)
  note g = palloc_get_multiple_ok [OF mmu_okD(1) [OF assms] _ f(1), of 1]
  have "mmu_ok P (m\<lparr>frames := fr\<rparr>)" if "got_pages True (PAL_USER OR PAL_ZERO) 1 (frames m) k fr" for k fr
  proof -
    let ?m = "m\<lparr>frames := fr\<rparr>"
    have same: "tables ?m = tables m" "base_page_dir ?m = base_page_dir m" "get_pool False (frames ?m) = get_pool False (frames m)"
      using that by (simp_all add: got_pages_def)
    have "dir_ok ?m pd = dir_ok m pd" "owned ?m pd = owned m pd" "base_ok ?m = base_ok m" for pd
      unfolding dir_ok_def base_ok_def owned_def page_used_def pt_at_def same by (rule refl)+
    then show ?thesis using assms that unfolding mmu_ok_def same by (simp add: got_pages_def)
  qed
  then show ?thesis using g f(2) unfolding palloc_get_page_def by (auto split: if_splits)
qed

lemma lookup_page_frames:
  assumes "palloc_ok (frames m)" "lookup_page m pd va True = Some (r, m')"
  shows "frames m' = frames m \<or> (\<exists>p. got_pages False PAL_ZERO 1 (frames m) p (frames m'))"
proof -
  have f: "False = (PAL_ZERO AND PAL_USER \<noteq> 0)" "PAL_ZERO AND PAL_ASSERT = 0" by (simp_all add: PAL_USER_def PAL_ZERO_def PAL_ASSERT_def)
  have "fr = frames m \<or> got_pages False PAL_ZERO 1 (frames m) p fr" if "palloc_get_page (frames m) PAL_ZERO = Some (p, fr)" for p fr
    using palloc_get_multiple_ok [OF assms(1) _ f(1), of 1] f(2) that unfolding palloc_get_page_def by (auto split: if_splits)
  then show ?thesis using assms(2)
    by (fastforce simp: lookup_page_def bind_eq_Some_conv Let_def dest!: set_entry_frames split: if_splits prod.splits)
qed

lemma set_page_frames:
  assumes "palloc_ok (frames m)" "pagedir_set_page m pd u k w = Some (ok, m')"
  shows "frames m' = frames m \<or> (\<exists>p. got_pages False PAL_ZERO 1 (frames m) p (frames m'))"
proof -
  obtain pte m1 where m1: "lookup_page m pd u True = Some (pte, m1)" "frames m' = frames m1"
    using assms(2) by (auto simp: pagedir_set_page_def bind_eq_Some_conv dest!: set_entry_frames split: option.splits prod.splits)
  then show ?thesis using lookup_page_frames [OF assms(1) m1(1)] by simp
qed

text \<open>Such an allocation does not touch the frames of the user pool.\<close>

lemma kernel_page_elsewhere:
  assumes "palloc_ok ps" "got_pages False PAL_ZERO 1 ps p ps'" "pg_ofs k = 0" "pages k 1 \<subseteq> pool_pages (get_pool True ps)" "i < 4096"
  shows "pmem ps' (k + of_nat i) = pmem ps (k + of_nat i)"
proof -
  have p: "pages p 1 \<subseteq> pool_pages (get_pool False ps)" "pg_ofs p = 0" "pmem ps' = put (pmem ps) p (replicate 4096 0)"
    using assms(2) by (simp_all add: got_pages_def PAL_ZERO_def)
  have "pool_pages (get_pool False ps) \<inter> pool_pages (get_pool True ps) = {}" using assms(1) by (simp add: palloc_ok_def get_pool_def)
  then have ne: "unat k div 4096 \<noteq> unat p div 4096" using p(1) assms(4) by (auto simp: pages_def)
  have "k + of_nat i \<notin> block p (length (replicate 4096 (0::u8)))"
  proof
    assume "k + of_nat i \<in> block p (length (replicate 4096 (0::u8)))"
    then obtain j where j: "k + of_nat i = p + of_nat j" "j < 4096" by (auto simp: block_def)
    have "unat (x + of_nat n) div 4096 = unat x div 4096" if "pg_ofs x = 0" "n < 4096" for x :: ptr and n
    proof -
      have a: "unat x = 4096 * (unat x div 4096)" by (rule aligned_unat [OF that(1)])
      have "unat x div 4096 < 1048576" using unat_u32_bound [of x] by (simp add: less_mult_imp_div_less)
      then have "unat (x + of_nat n) = 4096 * (unat x div 4096) + n"
        using that(2) a unat_add_u32 [of x "of_nat n"] by (simp add: unat_of_nat_u32)
      then show ?thesis using that(2) by simp
    qed
    from this [OF assms(3,5)] this [OF p(2) j(2)] show False using j(1) ne by simp
  qed
  then show ?thesis unfolding p(3) by (rule put_other)
qed

lemma install_new_page:
  assumes ok: "mmu_ok P (mm s)" "tlb_ok P (mm s)" "cur_thread s = Some th" "t_pagedir th \<in> P" and up: "pg_ofs up = 0" "is_user_vaddr up"
    and free: "upte (mm s) (t_pagedir th) up AND PTE_P = 0" and ram: "user_pool_ok (mm s)"
    and k: "pg_ofs k = 0" "pages k 1 \<subseteq> pool_pages (get_pool True (frames (mm s)))"
  shows "install_page s up k w = Some (False, s) \<and> no_run (get_pool False (frames (mm s))) 1 \<or>
    (\<exists>m'. install_page s up k w = Some (True, s\<lparr>mm := m'\<rparr>) \<and> mmu_ok P m' \<and> tlb_ok P m' \<and>
      (let e = upte m' (t_pagedir th) up in e AND PTE_P \<noteq> 0 \<and> (e AND PTE_W \<noteq> 0 \<longleftrightarrow> w) \<and> pte_get_page e = Some k) \<and>
      (\<forall>i < 4096. pmem (frames m') (k + of_nat i) = kmem s (k + of_nat i)))"
proof -
  let ?pd = "t_pagedir th"
  obtain p where p: "vtop k = Some p" "drop_bit PTSHIFT p < ram_pages (mm s)" and kv: "is_kernel_vaddr k"
    using pool_page_ram [OF ram k] by blast
  obtain e where e: "pte_create_user k w = Some e" "e AND PTE_P \<noteq> 0" "e AND PTE_W \<noteq> 0 \<longleftrightarrow> w" "pte_get_page e = Some k"
    using pte_roundtrip [OF k(1) kv, of w] by blast
  have g: "pagedir_get_page (mm s) ?pd up = Some 0" using get_page_ok [OF mmu_okD(4) [OF ok(1,4)] up(2)] free by simp
  consider "pagedir_set_page (mm s) ?pd up k w = Some (False, mm s)" "no_run (get_pool False (frames (mm s))) 1"
    | m' where "pagedir_set_page (mm s) ?pd up k w = Some (True, m')" "updated P (mm s) ?pd up (\<lambda>_. e) m'"
    using set_page_ok [OF ok(1,2,4) up k(1) kv p, of w] free e(1) by auto
  then show ?thesis
  proof cases
    case 1
    then show ?thesis using ok(3) g by (simp add: install_page_def)
  next
    case 2
    have "pmem (frames m') (k + of_nat i) = kmem s (k + of_nat i)" if "i < 4096" for i
      using set_page_frames [OF mmu_okD(1) [OF ok(1)] 2(1)] kernel_page_elsewhere [OF mmu_okD(1) [OF ok(1)] _ k that]
      unfolding kmem_def by auto
    moreover have "upte m' ?pd up = e" "mmu_ok P m'" "tlb_ok P m'" using 2(2) ok(4) up(2) by (simp_all add: updated_def)
    ultimately show ?thesis using 2(1) ok(3) g e by (intro disjI2 exI [of _ m']) (simp add: install_page_def Let_def)
  qed
qed


lemma user_mem_cong:
  assumes "mm s' = mm s" "map_option t_pagedir (cur_thread s') = map_option t_pagedir (cur_thread s)"
  shows "user_mem s' = user_mem s"
proof -
  have "kmem s' = kmem s" using assms(1) by (simp add: kmem_def)
  then show ?thesis using assms by (intro ext) (cases "cur_thread s"; cases "cur_thread s'"; simp add: user_mem_def cong: if_cong)
qed

lemma sint_small: "unat (x :: u32) < 2 ^ 31 \<Longrightarrow> sint x = int (unat x)"
proof -
  assume a: "unat x < 2 ^ 31"
  have "x = of_int (int (unat x))" by simp
  moreover have "int (unat x) < int (2 ^ 31)" using a by (simp only: of_nat_less_iff)
  then have "int_fits (int (unat x))" by (simp add: int_fits_def order_trans [OF _ uint_ge_0])
  ultimately show ?thesis using sint_of_int_fits [of "int (unat x)"] by simp
qed

lemma spt_find_sound: "spt_find m va es = Some e \<Longrightarrow> e \<noteq> 0 \<Longrightarrow> e \<in> set es \<and> (\<exists>pg. m e = Some pg \<and> pg_page pg = va)"
  by (induction es) (auto simp: bind_eq_Some_conv split: if_splits)

lemma get_frame_ok:
  assumes "mmu_ok P (mm s)" "\<not> no_run (get_pool True (frames (mm s))) 1" "mallocs (fsys s) = f # rest" "f \<noteq> 0"
  shows "\<exists>s1 fr. frame_table_get_frame s up w t = Some (Ret f, s1) \<and> frame_objs s1 f = Some fr \<and>
    got_pages True (PAL_USER OR PAL_ZERO) 1 (frames (mm s)) (fr_address fr) (frames (mm s1)) \<and>
    mm s1 = (mm s)\<lparr>frames := frames (mm s1)\<rparr> \<and> mmu_ok P (mm s1) \<and> fsys s1 = (fsys s)\<lparr>mallocs := rest\<rparr> \<and>
    uthreads s1 = uthreads s \<and> current s1 = current s \<and> page_objs s1 = page_objs s"
proof -
  obtain k ps where k: "palloc_get_page (frames (mm s)) (PAL_USER OR PAL_ZERO) = Some (k, ps)"
      "got_pages True (PAL_USER OR PAL_ZERO) 1 (frames (mm s)) k ps" "mmu_ok P ((mm s)\<lparr>frames := ps\<rparr>)"
    using get_user_page [OF assms(1)] assms(2) by auto
  have "k \<noteq> 0" using k(2) by (simp add: got_pages_def)
  then show ?thesis using k assms(3,4)
    by (auto simp: frame_table_get_frame_def frame_table_insert_def m_malloc_def fs_malloc_def rtc_now_def upd_frame_def Let_def split: list.splits)
qed

text \<open>Reading the part of a page that is in the file into its frame.\<close>

lemma read_page_ok:
  assumes "cache_ok (fsys s)" "files (fsys s) (pg_location pg) = Some fl" "inodes (fsys s) (f_inode fl) \<noteq> None"
    and ofs: "unat (pg_file_ofs pg) mod 512 = 0" "unat (pg_file_ofs pg) < 2 ^ 31" and rb: "unat (pg_read_b pg) \<le> 4096"
    and len: "unat (pg_file_ofs pg) + unat (pg_read_b pg) \<le> length (file_bytes (fsys s) (f_inode fl))" and m: "mapped (kmem s) a 4096"
  shows "\<exists>x. read_page s pg a = Some (Ret True, (set_kmem s (put (kmem s) a
      (take (unat (pg_read_b pg)) (drop (unat (pg_file_ofs pg)) (file_bytes (fsys s) (f_inode fl))))))\<lparr>fsys := x\<rparr>)"
proof -
  let ?rb = "unat (pg_read_b pg)" and ?o = "unat (pg_file_ofs pg)" and ?B = "file_bytes (fsys s) (f_inode fl)"
  have si: "sint (pg_read_b pg) = int ?rb" "sint (pg_file_ofs pg) = int ?o"
    using rb ofs(2) by (simp_all add: sint_small)
  have "int ?o mod 512 = int (?o mod 512)" by (simp only: of_nat_mod of_nat_numeral)
  moreover have "int ?o < int (2 ^ 31)" using ofs(2) by (simp only: of_nat_less_iff)
  ultimately have "aligned (int ?o)" using ofs(1) unfolding aligned_def by simp
  moreover have "?rb < 2 ^ 31" using rb by simp
  then have "int ?rb < int (2 ^ 31)" by (simp only: of_nat_less_iff)
  then have r: "int ?rb < 2 ^ 31" by (simp only: of_nat_power of_nat_numeral)
  moreover have "is_open (fsys s) (f_inode fl)" using assms(3) by (simp add: is_open_def)
  ultimately obtain x where x: "inode_read_at (fsys s) (f_inode fl) (int ?rb) (int ?o) = Some (Ret (spec_read ?B (int ?rb) (int ?o)), x)"
    using io.rd_law [OF assms(1)] by blast
  have l: "length (take ?rb (drop ?o ?B)) = ?rb" using len by simp
  have "store_bytes (kmem s) a (take ?rb (drop ?o ?B)) = Some (put (kmem s) a (take ?rb (drop ?o ?B)))"
    by (rule store_bytes_put) (use m rb l in \<open>auto simp: mapped_def\<close>)
  then show ?thesis using x assms(2) l
    by (intro exI [of _ x]) (simp add: read_page_def on_fs_def file_read_at_def si spec_read_def kmem_def set_kmem_def)
qed


lemma load_file_page_ok:
  assumes ok: "mmu_ok P (mm s)" "tlb_ok P (mm s)" "cur_thread s = Some th" "t_pagedir th \<in> P" "user_pool_ok (mm s)"
    and up: "pg_ofs (pg_page pg) = 0" "is_user_vaddr (pg_page pg)" "upte (mm s) (t_pagedir th) (pg_page pg) AND PTE_P = 0"
    and fr: "frame_objs s f = Some fr" "pg_ofs (fr_address fr) = 0" "fr_address fr \<noteq> 0"
      "pages (fr_address fr) 1 \<subseteq> pool_pages (get_pool True (frames (mm s)))" "\<forall>i < 4096. kmem s (fr_address fr + of_nat i) = Some 0"
    and mem: "\<not> no_run (get_pool False (frames (mm s))) 1"
    and src: "cache_ok (fsys s)" "files (fsys s) (pg_location pg) = Some fl" "inodes (fsys s) (f_inode fl) \<noteq> None"
      "unat (pg_file_ofs pg) mod 512 = 0" "unat (pg_file_ofs pg) < 2 ^ 31" "unat (pg_read_b pg) + unat (pg_zero_b pg) = 4096"
      "unat (pg_file_ofs pg) + unat (pg_read_b pg) \<le> length (file_bytes (fsys s) (f_inode fl))"
  shows "\<exists>m' x. load_file_page s pg f = Some (Ret (), s\<lparr>mm := m', fsys := x\<rparr>) \<and>
    (\<forall>d < 4096. user_mem (s\<lparr>mm := m', fsys := x\<rparr>) (pg_page pg + of_nat d) =
      Some (if d < unat (pg_read_b pg) then file_bytes (fsys s) (f_inode fl) ! (unat (pg_file_ofs pg) + d) else 0))"
proof -
  let ?k = "fr_address fr" and ?up = "pg_page pg" and ?pd = "t_pagedir th" and ?rb = "unat (pg_read_b pg)"
    and ?o = "unat (pg_file_ofs pg)" and ?B = "file_bytes (fsys s) (f_inode fl)"
  define v where "v = put (kmem s) ?k (take ?rb (drop ?o ?B))"
  have map: "mapped (kmem s) ?k 4096" using fr(5) by (simp add: mapped_def)
  have "\<exists>x. (if pg_zero_b pg \<noteq> PGSIZE then read_page s pg ?k else Some (Ret True, s)) = Some (Ret True, (set_kmem s v)\<lparr>fsys := x\<rparr>)"
  proof (cases "pg_zero_b pg = PGSIZE")
    case True
    then have "?rb = 0" using src(6) by (simp add: PGSIZE_def)
    then show ?thesis using True by (intro exI [of _ "fsys s"]) (simp add: v_def set_kmem_def kmem_def)
  next
    case False
    have "?rb \<le> 4096" using src(6) by simp
    then show ?thesis using False read_page_ok [OF src(1-5) _ src(7) map] by (simp add: v_def)
  qed
  then obtain x where x: "(if pg_zero_b pg \<noteq> PGSIZE then read_page s pg ?k else Some (Ret True, s)) = Some (Ret True, (set_kmem s v)\<lparr>fsys := x\<rparr>)" ..
  define s1 where "s1 = (set_kmem s v)\<lparr>fsys := x\<rparr>"
  have mm1: "mm s1 = (mm s)\<lparr>frames := (frames (mm s))\<lparr>pmem := v\<rparr>\<rparr>" and k1: "kmem s1 = v" by (simp_all add: s1_def set_kmem_def kmem_def)
  have ok1: "mmu_ok P (mm s1)" unfolding mm1 by (rule mmu_ok_pmem [OF ok(1)]) (simp add: v_def mapped_put kmem_def)
  have ok2: "tlb_ok P (mm s1)" using ok(2) unfolding mm1 tlb_ok_pmem .
  have ok3: "cur_thread s1 = Some th" using ok(3) by (simp add: s1_def cur_thread_def set_kmem_def)
  have free1: "upte (mm s1) ?pd ?up AND PTE_P = 0" using up(3) unfolding mm1 upte_pmem .
  have gp: "get_pool u (frames (mm s1)) = get_pool u (frames (mm s))" for u unfolding mm1 by (simp add: get_pool_def)
  have ram1: "user_pool_ok (mm s1)" using ok(5) unfolding user_pool_ok_def gp by (simp add: mm1)
  obtain m' where m': "install_page s1 ?up ?k (pg_writable pg) = Some (True, s1\<lparr>mm := m'\<rparr>)" "mmu_ok P m'"
      "upte m' ?pd ?up AND PTE_P \<noteq> 0" "pte_get_page (upte m' ?pd ?up) = Some ?k" "\<forall>i < 4096. pmem (frames m') (?k + of_nat i) = v (?k + of_nat i)"
    using install_new_page [OF ok1 ok2 ok3 ok(4) up(1,2) free1 ram1 fr(2), of "pg_writable pg"] fr(4) mem unfolding gp k1 Let_def by auto
  have s2: "s1\<lparr>mm := m'\<rparr> = s\<lparr>mm := m', fsys := x\<rparr>" by (simp add: s1_def set_kmem_def)
  have "frame_objs s1 f = Some fr" using fr(1) by (simp add: s1_def set_kmem_def)
  then have "load_file_page s pg f = Some (Ret (), s\<lparr>mm := m', fsys := x\<rparr>)"
    using x m'(1) fr(1) unfolding s2 by (simp add: load_file_page_def install_or_exit_def s1_def)
  moreover have "user_mem (s\<lparr>mm := m', fsys := x\<rparr>) (?up + of_nat d) = Some (if d < ?rb then ?B ! (?o + d) else 0)" if d: "d < 4096" for d
  proof -
    have u: "unat (?up + of_nat d - ?up) < 4096" "?up + of_nat d - ?up = of_nat d" using d by (simp_all add: unat_of_nat_u32)
    note tr = user_page_translates [OF mmu_okD(4) [OF m'(2) ok(4)] up(1,2) m'(3,4) fr(2,3) u(1), unfolded u(2)]
    have "user_mem (s\<lparr>mm := m', fsys := x\<rparr>) (?up + of_nat d) = v (?k + of_nat d)"
      using tr ok(3) m'(5) d by (simp add: user_mem_def cur_thread_def kmem_def)
    also have "\<dots> = Some (if d < ?rb then ?B ! (?o + d) else 0)"
      using fr(5) d src(7) by (simp add: v_def put_def unat_of_nat_u32)
    finally show ?thesis .
  qed
  ultimately show ?thesis by blast
qed


lemma file_bytes_mallocs: "file_bytes (x\<lparr>mallocs := ms\<rparr>) = file_bytes x"
proof -
  have "sector_view (x\<lparr>mallocs := ms\<rparr>) = sector_view x"
    by (intro ext) (simp add: sector_view_def buffer_cache_look_up_def on_disk_def cong: option.case_cong if_cong)
  then show ?thesis by (intro ext) (simp add: file_bytes_def cong: option.case_cong)
qed

lemma free_page_ok:
  assumes "cur_thread s = Some th" "p \<in> set (sup_page_table th)"
  shows "\<exists>s'. supplemental_table_free_page s p = Some s' \<and> user_mem s' = user_mem s \<and> frame_objs s' = frame_objs s"
proof -
  have "supplemental_table_free_page s p = Some (s\<lparr>uthreads := (uthreads s)(current s \<mapsto> th\<lparr>sup_page_table := remove1 p (sup_page_table th)\<rparr>),
      page_objs := (page_objs s)(p := None)\<rparr>)" (is "_ = Some ?s")
    using assms by (simp add: supplemental_table_free_page_def upd_thread_def cur_thread_def)
  moreover have "user_mem ?s = user_mem s" by (rule user_mem_cong) (use assms in \<open>simp_all add: cur_thread_def\<close>)
  ultimately show ?thesis by simp
qed



text \<open>C37. The first eviction fails. When the user pool is used up for the first time, the pointer to the next victim has never been set;
  the code sets it to the frame with the smallest time stamp, although it is a pointer to a list element, and then takes the
  bytes in front of that frame for a frame. With every frame descriptor in a block of its own, that is an access outside any
  frame.\<close>

theorem first_eviction_fails:
  assumes "palloc_get_page (frames (mm s)) (PAL_USER OR PAL_ZERO) = Some (0, ps)" "victim_frame s = 0" "frame_list s \<noteq> []"
    and "\<forall>f \<in> set (frame_list s). frame_objs s f \<noteq> None \<and> frame_objs s (f - 20) = None"
  shows "frame_table_get_frame s upage writable t = None"
proof -
  have mem: "find_min_loop m es mn r = Some f \<Longrightarrow> f = r \<or> f \<in> set es" for m es mn r f
    by (induction es arbitrary: mn r) (auto simp: bind_eq_Some_conv split: if_splits)
  define s1 where "s1 = s\<lparr>mm := (mm s)\<lparr>frames := ps\<rparr>\<rparr>"
  have s1: "frame_list s1 = frame_list s" "frame_objs s1 = frame_objs s" "victim_frame s1 = 0" by (simp_all add: s1_def assms(2))
  have "choose_loop (s1\<lparr>victim_frame := f\<rparr>) = None" if "frame_table_find_min s1 = Some f" for f
  proof -
    have "f \<in> set (frame_list s)"
      using that mem [of "frame_objs s" "frame_list s" _ _ f] s1
      by (auto simp: frame_table_find_min_def bind_eq_Some_conv split: list.splits)
    then have "frame_objs s (f - 20) = None" using assms(4) by blast
    then show ?thesis by (subst choose_loop.simps) (simp add: frame_entry_def s1)
  qed
  then have "frame_table_choose_victim s1 = None"
    using assms(3) s1(1,3) by (cases "frame_table_find_min s1") (simp_all add: frame_table_choose_victim_def)
  then show ?thesis using assms(1) by (simp add: frame_table_get_frame_def flip: s1_def)
qed

subsection \<open>A machine with one process\<close>

definition bytes_fs :: fs where
  "bytes_fs = example_fs\<lparr>filesys_disk := \<lparr>capacity = 100, read_cnt = 0, write_cnt = 0, sectors = (\<lambda>_. replicate 512 7)\<rparr>,
     files := [32 \<mapsto> \<lparr>f_inode = 8, f_pos = 0, f_deny_write = False\<rparr>], mallocs := 64 # fresh_ptrs 128\<rparr>"

definition one_thread :: uthread where
  "one_thread = \<lparr>t_tid = 2, t_name = [], t_pagedir = 0xc0101000, t_exit_status = 0, exited_by_exit_call = False,
     is_userprog = True, open_files = [], next_fd = 2, childs = [], t_parent = 0, t_file = 32, sup_page_table = [16], mf_table = [],
     mmid = 0, max_code_seg_addr = 0\<rparr>"

definition one_page :: page where
  "one_page = \<lparr>pg_location = 32, pg_kind = PAG_EXEC, pg_writable = True, pg_file_ofs = 512, pg_read_b = 100, pg_zero_b = 3996,
     pg_page = 0x8048000\<rparr>"

definition one_process :: machine where
  "one_process = \<lparr>fsys = bytes_fs, mm = one_dir,
     swp = \<lparr>partition = small_disk, slots = Map.empty, free_swap = [], swap_cnt = 0, slots_in_disk = 8, page_sectors = 8\<rparr>,
     uthreads = [0xc0003000 \<mapsto> one_thread], current = 0xc0003000, page_objs = [16 \<mapsto> one_page],
     frame_objs = Map.empty, frame_list = [], victim_frame = 0, open_file_objs = Map.empty, child_objs = Map.empty,
     mf_objs = Map.empty, exec_objs = Map.empty, page_fault_cnt = 0, times = [], exit_messages = [], console = [], keys = []\<rparr>"

lemma bytes_fs_ok: "cache_ok (bytes_fs\<lparr>mallocs := fresh_ptrs 128\<rparr>)"
proof -
  have "inodes_ok (bytes_fs\<lparr>mallocs := fresh_ptrs 128\<rparr>)"
    by (auto simp: inodes_ok_def inode_ok_def nsect_def sector_no_def bytes_fs_def example_fs_def word_unat_eq_iff unat_of_nat less_2_cases_iff
        split: if_splits)
  then show ?thesis using fresh_ptrs [of 128] fresh_ptrs(2) [of 0 128] by (simp add: cache_ok_def bytes_fs_def example_fs_def)
qed

lemma bytes_fs_bytes: "file_bytes bytes_fs 8 = replicate 1000 7"
proof -
  have "sector_view bytes_fs 8 n = replicate 512 7" for n
    by (simp add: sector_view_def buffer_cache_look_up_def on_disk_def bytes_fs_def example_fs_def)
  moreover have "[0..<nsect \<lparr>nd_sector = 2, open_cnt = 1, removed = False, deny_write_cnt = 0,
       nd_data = \<lparr>id_start = 10, id_length = 1000, id_magic = INODE_MAGIC\<rparr>\<rparr>] = [0, 1]" by (simp add: nsect_def upt_rec)
  ultimately show ?thesis by (simp add: file_bytes_def bytes_fs_def example_fs_def min_def flip: replicate_add)
qed

lemma one_dir_user_pool: "user_pool_ok one_dir" "\<not> no_run (get_pool True (frames one_dir)) 1"
proof -
  show "user_pool_ok one_dir" by (simp add: user_pool_ok_def one_dir_def get_pool_def pool_pages_def pages_def)
  have "run_at (bitmap_bits \<lparr>bit_cnt = 4, bits = [1]\<rparr>) 2 1 False" by code_simp
  then show "\<not> no_run (get_pool True (frames one_dir)) 1" unfolding no_run_def get_pool_def one_dir_def by auto
qed


text \<open>All frames of the user pool are in use.\<close>

definition full_process :: machine where
  "full_process = one_process\<lparr>mm := one_dir\<lparr>frames := (frames one_dir)\<lparr>user_pool := \<lparr>used_map = \<lparr>bit_cnt = 4, bits = [15]\<rparr>, base = 0xc0200000\<rparr>\<rparr>\<rparr>,
     frame_objs := [0xc0008040 \<mapsto> \<lparr>fr_finish = 5, fr_address = 0xc0201000, fr_owner = 0xc0003000, fr_page = 0x8048000,
       fr_evictable = True, fr_writable = True\<rparr>], frame_list := [0xc0008040]\<rparr>"

theorem first_eviction_fails_witness: "frame_table_get_frame full_process 0x8049000 True 0 = None"
proof -
  let ?ps = "frames (mm full_process)"
  have ok: "palloc_ok ?ps"
    by (simp add: full_process_def one_dir_def palloc_ok_def pool_ok_def bitmap_wf_def mapped_def pool_pages_def pages_def
        pg_ofs_def PGMASK_def BITMASK_def PGBITS_def)
  have b: "bitmap_bits \<lparr>bit_cnt = 4, bits = [15]\<rparr> = [True, True, True, True]" by code_simp
  have "no_run (get_pool True ?ps) 1"
    by (auto simp: no_run_def full_process_def get_pool_def b run_at_def nth_Cons' split: if_splits)
  then have "palloc_get_page ?ps (PAL_USER OR PAL_ZERO) = Some (0, ?ps)"
    using palloc_get_multiple_ok [OF ok, of 1 True "PAL_USER OR PAL_ZERO"]
    by (simp add: palloc_get_page_def PAL_USER_def PAL_ZERO_def PAL_ASSERT_def)
  then show ?thesis
    by (rule first_eviction_fails) (simp_all add: full_process_def one_process_def)
qed

end
