(* ===== verification/Process.thy ===== *)
theory Process
  imports Vm
begin

section \<open>Processes (userprog/process.c)\<close>

text \<open>
  Starting a process: the command line is split into arguments, the program headers of the executable become entries of the
  supplemental page table, and the arguments are pushed on the user stack. Further the end of a process and the exchange of exit
  statuses between parent and child.

  A string in kernel memory is the list of its characters without the terminator. An operation that may have to wait for a
  semaphore has the result \<^term>\<open>Ret None\<close> when it has to. The result of \<^verbatim>\<open>thread_create\<close>, which
  the theory \<^theory_text>\<open>Thread\<close> models, is an argument: the address and the identifier of the new thread, or none.
\<close>

subsection \<open>Arguments\<close>

lemma next_token_shorter:
  assumes "next_token ds s = (t, r)" "t \<noteq> []"
  shows "length r < length s"
proof -
  let ?q = "dropWhile (\<lambda>b. b \<in> set ds) s"
  have t: "t = takeWhile (\<lambda>b. b \<notin> set ds) ?q" "r = drop 1 (dropWhile (\<lambda>b. b \<notin> set ds) ?q)"
    using assms(1) by (auto simp: next_token_def Let_def)
  have "length t + length (dropWhile (\<lambda>b. b \<notin> set ds) ?q) = length ?q"
    using takeWhile_dropWhile_id [of "\<lambda>b. b \<notin> set ds" ?q] t(1) by (metis length_append)
  moreover have "length ?q \<le> length s" by (rule length_dropWhile_le)
  moreover have "0 < length t" using assms(2) by simp
  moreover have "length r \<le> length (dropWhile (\<lambda>b. b \<notin> set ds) ?q)" using t(2) by simp
  ultimately show ?thesis by linarith
qed

text \<open>
  The loop over the tokens, separated by blanks. Each token takes a block for the list entry and one for the string; neither is
  checked. The new entry goes to the front.
\<close>

function parse_loop :: "u8 list \<Rightarrow> u8 list list \<Rightarrow> u32 \<Rightarrow> machine \<Rightarrow> (u8 list list \<times> u32 \<times> machine) option" where
  "parse_loop rest argv argc s = (case next_token [0x20] rest of (token, rest) \<Rightarrow>
    if token \<noteq> []
    then do {
      let (param, s) = m_malloc s;
      kassert (param \<noteq> 0);
      let (str, s) = m_malloc s;
      kassert (str \<noteq> 0);
      parse_loop rest (token # argv) (argc + 1) s
    }
    else Some (argv, argc, s))"
  by pat_completeness auto
termination
  by (relation "measure (\<lambda>(rest, _). length rest)") (auto intro: next_token_shorter [OF sym])

declare parse_loop.simps [simp del]

text \<open>\<open>argc\<close> is the value the variable has before; \<^verbatim>\<open>load\<close> does not initialise it.\<close>

definition arg_parse :: "machine \<Rightarrow> u8 list \<Rightarrow> u32 \<Rightarrow> (bool \<times> u8 list list \<times> u32 \<times> machine) option" where
  "arg_parse s file_name argc = do {
     let (buf, s) = m_malloc s;
     if buf = 0 then Some (False, [], argc, s)
     else do { (argv, argc, s) \<leftarrow> parse_loop file_name [] argc s; Some (True, argv, argc, s) }
   }"

text \<open>Stores to user memory. A failed access continues at the address in a register that holds no address.\<close>

definition user_store8 :: "machine \<Rightarrow> ptr \<Rightarrow> u8 \<Rightarrow> u32 \<Rightarrow> (unit ret \<times> machine) option" where
  "user_store8 s va b t =
    and_then (kernel_access s va True t) (\<lambda>k s. do { a \<leftarrow> k; m \<leftarrow> store8 (kmem s) a b; Some (Ret (), set_kmem s m) })"

fun user_store :: "machine \<Rightarrow> ptr \<Rightarrow> u8 list \<Rightarrow> u32 \<Rightarrow> (unit ret \<times> machine) option" where
  "user_store s va [] t = Some (Ret (), s)"
| "user_store s va (b # bs) t = and_then (user_store8 s va b t) (\<lambda>_ s. user_store s (va + 1) bs t)"

text \<open>The character of a string at an index, the terminator included.\<close>

definition char_at :: "u8 list \<Rightarrow> nat \<Rightarrow> u8" where
  "char_at str i = (if i < length str then str ! i else 0)"

definition strnlen_str :: "u8 list \<Rightarrow> nat \<Rightarrow> nat" where
  "strnlen_str str n = min (length str) n"

text \<open>One argument, from its last character down; the result is the address of the first one and the next free address.\<close>

fun push_chars :: "u8 list \<Rightarrow> nat \<Rightarrow> ptr \<Rightarrow> machine \<Rightarrow> u32 \<Rightarrow> ((ptr \<times> ptr) ret \<times> machine) option" where
  "push_chars str 0 sp s t =
    and_then (user_store8 s sp (char_at str 0) t) (\<lambda>_ s. do {
      let (addr, s) = m_malloc s;
      kassert (addr \<noteq> 0);
      Some (Ret (sp, sp - 1), s)
    })"
| "push_chars str (Suc len) sp s t =
    and_then (user_store8 s sp (char_at str (Suc len)) t) (\<lambda>_ s. push_chars str len (sp - 1) s t)"

fun push_args :: "u8 list list \<Rightarrow> ptr \<Rightarrow> machine \<Rightarrow> u32 \<Rightarrow> ((ptr list \<times> ptr) ret \<times> machine) option" where
  "push_args [] sp s t = Some (Ret ([], sp), s)"
| "push_args (str # argv) sp s t =
    and_then (push_chars str (strnlen_str str 128) sp s t) (\<lambda>(addr, sp) s.
      and_then (push_args argv sp s t) (\<lambda>(addrs, sp) s. Some (Ret (addr # addrs, sp), s)))"

text \<open>At most three zero bytes align the stack pointer.\<close>

function push_align :: "ptr \<Rightarrow> machine \<Rightarrow> u32 \<Rightarrow> (ptr ret \<times> machine) option" where
  "push_align sp s t =
    (if sp mod 4 \<noteq> 0 then and_then (user_store8 s (sp - 1) 0 t) (\<lambda>_ s. push_align (sp - 1) s t)
     else Some (Ret sp, s))"
  by pat_completeness auto
termination
proof (relation "measure (\<lambda>(sp, _, _). unat sp)")
  fix sp :: ptr and s :: machine and t :: u32
  assume "sp mod 4 \<noteq> 0"
  then have "sp \<noteq> 0" by auto
  then show "((sp - 1, s', t), sp, s, t) \<in> measure (\<lambda>(sp, _, _). unat sp)" for s' :: machine
    by (simp add: unat_minus_one unat_gt_0)
qed simp

declare push_align.simps [simp del]

definition push_word :: "machine \<Rightarrow> ptr \<Rightarrow> u32 \<Rightarrow> u32 \<Rightarrow> (ptr ret \<times> machine) option" where
  "push_word s sp w t = and_then (user_store s (sp - 4) (word_bytes w) t) (\<lambda>_ s. Some (Ret (sp - 4), s))"

fun push_words :: "u32 list \<Rightarrow> ptr \<Rightarrow> machine \<Rightarrow> u32 \<Rightarrow> (ptr ret \<times> machine) option" where
  "push_words [] sp s t = Some (Ret sp, s)"
| "push_words (w # ws) sp s t = and_then (push_word s sp w t) (\<lambda>sp s. push_words ws sp s t)"

text \<open>\<open>argv\<close> has the last argument first.\<close>

definition arg_push :: "machine \<Rightarrow> u8 list list \<Rightarrow> u32 \<Rightarrow> u32 \<Rightarrow> (ptr ret \<times> machine) option" where
  "arg_push s argv argc t =
    and_then (push_args argv (PHYS_BASE - 1) s t) (\<lambda>(addrs, sp) s.
      and_then (push_align sp s t) (\<lambda>sp s.
        and_then (push_word s sp 0 t) (\<lambda>sp s.
          and_then (push_words addrs sp s t) (\<lambda>sp s.
            and_then (push_word s sp sp t) (\<lambda>sp s.
              and_then (push_word s sp argc t) (\<lambda>sp s.
                push_word s sp 0 t))))))"

subsection \<open>Executables\<close>

record ehdr =
  e_ident :: "u8 list"
  e_type :: u16
  e_machine :: u16
  e_version :: u32
  e_entry :: u32
  e_phoff :: u32
  e_phentsize :: u16
  e_phnum :: u16

record phdr =
  p_type :: u32
  p_offset :: u32
  p_vaddr :: u32
  p_filesz :: u32
  p_memsz :: u32
  p_flags :: u32

definition half_at :: "u8 list \<Rightarrow> nat \<Rightarrow> u16" where
  "half_at bs i = ucast (bs ! i) OR push_bit 8 (ucast (bs ! (i + 1)))"

definition word_at :: "u8 list \<Rightarrow> nat \<Rightarrow> u32" where
  "word_at bs i = word_of (drop i bs)"

definition ehdr_of :: "u8 list \<Rightarrow> ehdr" where
  "ehdr_of bs = \<lparr>e_ident = take 16 bs, e_type = half_at bs 16, e_machine = half_at bs 18, e_version = word_at bs 20,
     e_entry = word_at bs 24, e_phoff = word_at bs 28, e_phentsize = half_at bs 42, e_phnum = half_at bs 44\<rparr>"

definition phdr_of :: "u8 list \<Rightarrow> phdr" where
  "phdr_of bs = \<lparr>p_type = word_at bs 0, p_offset = word_at bs 4, p_vaddr = word_at bs 8, p_filesz = word_at bs 16,
     p_memsz = word_at bs 20, p_flags = word_at bs 24\<rparr>"

definition ehdr_ok :: "u8 list \<Rightarrow> bool" where
  "ehdr_ok bs \<longleftrightarrow> length bs = 52 \<and> (let h = ehdr_of bs in take 7 (e_ident h) = [0x7f, 0x45, 0x4c, 0x46, 1, 1, 1] \<and> e_type h = 2 \<and>
     e_machine h = 3 \<and> e_version h = 1 \<and> e_phentsize h = 32 \<and> e_phnum h \<le> 1024)"

definition validate_segment :: "machine \<Rightarrow> phdr \<Rightarrow> ptr \<Rightarrow> bool option" where
  "validate_segment s ph f = do {
     len \<leftarrow> file_length (fsys s) f;
     Some (p_offset ph AND PGMASK = p_vaddr ph AND PGMASK \<and>
       \<not> p_offset ph > of_int len \<and>
       \<not> p_memsz ph < p_filesz ph \<and>
       p_memsz ph \<noteq> 0 \<and>
       is_user_vaddr (p_vaddr ph) \<and>
       is_user_vaddr (p_vaddr ph + p_memsz ph) \<and>
       \<not> p_vaddr ph + p_memsz ph < p_vaddr ph)
   }"

partial_function (option) load_seg_loop ::
  "ptr \<Rightarrow> u32 \<Rightarrow> u32 \<Rightarrow> ptr \<Rightarrow> u32 \<Rightarrow> u32 \<Rightarrow> bool \<Rightarrow> machine \<Rightarrow> (bool \<times> machine) option" where
  "load_seg_loop f ofs loaded upage read_bytes zero_bytes writable s =
    (if read_bytes > 0 \<or> zero_bytes > 0
     then do {
       let page_read_bytes = (if read_bytes < PGSIZE then read_bytes else PGSIZE);
       let page_zero_bytes = PGSIZE - page_read_bytes;
       let (p, s) = m_malloc s;
       if p = 0 then Some (False, s)
       else do {
         let s = s\<lparr>page_objs := (page_objs s)(p \<mapsto> \<lparr>pg_location = f, pg_kind = PAG_EXEC, pg_writable = writable,
           pg_file_ofs = ofs + loaded * PGSIZE, pg_read_b = page_read_bytes, pg_zero_b = page_zero_bytes, pg_page = upage\<rparr>)\<rparr>;
         s \<leftarrow> upd_thread s (current s) (\<lambda>th. th\<lparr>
           max_code_seg_addr := (if max_code_seg_addr th < upage + PGSIZE then upage + PGSIZE else max_code_seg_addr th),
           sup_page_table := sup_page_table th @ [p]\<rparr>);
         load_seg_loop f ofs (loaded + 1) (upage + PGSIZE) (read_bytes - page_read_bytes) (zero_bytes - page_zero_bytes) writable s
       }
     }
     else Some (True, s))"

definition load_segment :: "machine \<Rightarrow> ptr \<Rightarrow> u32 \<Rightarrow> ptr \<Rightarrow> u32 \<Rightarrow> u32 \<Rightarrow> bool \<Rightarrow> (bool \<times> machine) option" where
  "load_segment s f ofs upage read_bytes zero_bytes writable = do {
     kassert ((read_bytes + zero_bytes) mod PGSIZE = 0);
     kassert (pg_ofs upage = 0);
     kassert (ofs mod PGSIZE = 0);
     load_seg_loop f ofs 0 upage read_bytes zero_bytes writable s
   }"

text \<open>The segment of one program header.\<close>

definition load_phdr :: "machine \<Rightarrow> ptr \<Rightarrow> phdr \<Rightarrow> (bool \<times> machine) option" where
  "load_phdr s f ph =
    (if p_type ph = 2 \<or> p_type ph = 3 \<or> p_type ph = 5 then Some (False, s)
     else if p_type ph = 1
     then do {
       ok \<leftarrow> validate_segment s ph f;
       if ok then do {
         let writable = (p_flags ph AND 2 \<noteq> 0);
         let file_page = p_offset ph AND NOT PGMASK;
         let mem_page = p_vaddr ph AND NOT PGMASK;
         let page_offset = p_vaddr ph AND PGMASK;
         let read_bytes = (if p_filesz ph > 0 then page_offset + p_filesz ph else 0);
         let zero_bytes = (if p_filesz ph > 0 then ROUND_UP (page_offset + p_memsz ph) PGSIZE - read_bytes
                           else ROUND_UP (page_offset + p_memsz ph) PGSIZE);
         load_segment s f file_page mem_page read_bytes zero_bytes writable
       }
       else Some (False, s)
     }
     else Some (True, s))"

fun load_phdrs :: "nat \<Rightarrow> ptr \<Rightarrow> int \<Rightarrow> machine \<Rightarrow> (bool ret \<times> machine) option" where
  "load_phdrs 0 f file_ofs s = Some (Ret True, s)"
| "load_phdrs (Suc n) f file_ofs s = do {
     len \<leftarrow> file_length (fsys s) f;
     if file_ofs < 0 \<or> file_ofs > len then Some (Ret False, s)
     else do {
       x \<leftarrow> file_seek (fsys s) f file_ofs;
       and_then (on_fs (s\<lparr>fsys := x\<rparr>) (\<lambda>x. file_read x f 32)) (\<lambda>bs s.
         if length bs \<noteq> 32 then Some (Ret False, s)
         else do {
           kassert (int_fits (file_ofs + 32));
           (ok, s) \<leftarrow> load_phdr s f (phdr_of bs);
           if ok then load_phdrs n f (file_ofs + 32) s else Some (Ret False, s)
         })
     }
   }"

definition setup_stack :: "machine \<Rightarrow> (bool \<times> machine) option" where
  "setup_stack s = do {
     (kpage, fr) \<leftarrow> palloc_get_page (frames (mm s)) (PAL_USER OR PAL_ZERO);
     let s = s\<lparr>mm := (mm s)\<lparr>frames := fr\<rparr>\<rparr>;
     if kpage \<noteq> 0 then do {
       (success, s) \<leftarrow> install_page s (PHYS_BASE - PGSIZE) kpage True;
       if success then Some (True, s)
       else do {
         fr \<leftarrow> palloc_free_page (frames (mm s)) kpage;
         Some (False, s\<lparr>mm := (mm s)\<lparr>frames := fr\<rparr>\<rparr>)
       }
     }
     else Some (False, s)
   }"

definition process_activate :: "machine \<Rightarrow> machine option" where
  "process_activate s = do { t \<leftarrow> cur_thread s; m \<leftarrow> pagedir_activate (mm s) (t_pagedir t); Some (s\<lparr>mm := m\<rparr>) }"

text \<open>The result is the entry point and the stack pointer, none on failure; \<open>argc\<close> is the uninitialised counter.\<close>

definition load :: "machine \<Rightarrow> u8 list \<Rightarrow> u32 \<Rightarrow> u32 \<Rightarrow> ((u32 \<times> ptr) option ret \<times> machine) option" where
  "load s file_name argc t = do {
     (pd, m) \<leftarrow> pagedir_create (mm s);
     s \<leftarrow> upd_thread (s\<lparr>mm := m\<rparr>) (current s) (\<lambda>th. th\<lparr>t_pagedir := pd\<rparr>);
     if pd = 0 then Some (Ret None, s)
     else do {
       s \<leftarrow> process_activate s;
       (ok, argv, argc, s) \<leftarrow> arg_parse s file_name argc;
       if \<not> ok then Some (Ret None, s)
       else do {
         kassert (argv \<noteq> []);
         and_then (on_fs s (\<lambda>x. filesys_open x (last argv))) (\<lambda>f s. do {
           s \<leftarrow> upd_thread s (current s) (\<lambda>th. th\<lparr>t_file := f\<rparr>);
           if f = 0 then Some (Ret None, s)
           else and_then (on_fs s (\<lambda>x. file_read x f 52)) (\<lambda>bs s.
             if \<not> ehdr_ok bs then Some (Ret None, s)
             else and_then (load_phdrs (unat (e_phnum (ehdr_of bs))) f (sint (e_phoff (ehdr_of bs))) s) (\<lambda>ok s.
               if \<not> ok then Some (Ret None, s)
               else do {
                 (ok, s) \<leftarrow> setup_stack s;
                 if \<not> ok then Some (Ret None, s)
                 else and_then (arg_push s argv argc t) (\<lambda>esp s. Some (Ret (Some (e_entry (ehdr_of bs), esp)), s))
               }))
         })
       }
     }
   }"


subsection \<open>The life of a process\<close>

definition TID_ERROR :: int where "TID_ERROR = -1"

text \<open>The members that \<^verbatim>\<open>init_thread\<close> sets for a process.\<close>

definition new_uthread :: "u8 list \<Rightarrow> int \<Rightarrow> ptr \<Rightarrow> uthread" where
  "new_uthread name tid parent = \<lparr>t_tid = tid, t_name = take 15 name, t_pagedir = 0, t_exit_status = -1, exited_by_exit_call = False,
     is_userprog = False, open_files = [], next_fd = 2, childs = [], t_parent = parent, t_file = 0, sup_page_table = [],
     mf_table = [], mmid = 0, max_code_seg_addr = 0\<rparr>"

definition free_pages :: "machine \<Rightarrow> ptr list \<Rightarrow> machine option" where
  "free_pages s ps = do {
     fr \<leftarrow> fold (\<lambda>p r. do { fr \<leftarrow> r; palloc_free_page fr p }) ps (Some (frames (mm s)));
     Some (s\<lparr>mm := (mm s)\<lparr>frames := fr\<rparr>\<rparr>)
   }"

text \<open>
  \<^verbatim>\<open>process_execute\<close> up to the point where it waits for the child to load; the result is the thread identifier with the address of the
  structure shared with the child, which is null when there is no child. A command line without a token gives a null
  name, for which \<^verbatim>\<open>init_thread\<close> panics.
\<close>

definition process_execute :: "machine \<Rightarrow> u8 list \<Rightarrow> (ptr \<times> int) option \<Rightarrow> ((int \<times> ptr) ret \<times> machine) option" where
  "process_execute s file_name created = do {
     (fn_copy, fr) \<leftarrow> palloc_get_page (frames (mm s)) 0;
     (temp, fr) \<leftarrow> palloc_get_page fr 0;
     let s = s\<lparr>mm := (mm s)\<lparr>frames := fr\<rparr>\<rparr>;
     if fn_copy = 0 \<or> temp = 0 then Some (Ret (TID_ERROR, 0), s)
     else do {
       let cmd = take 4095 file_name;
       let name = fst (next_token [0x20] cmd);
       let (child, s) = m_malloc s;
       if child = 0 then map_option (\<lambda>s. (Exits, s)) (free_pages s [fn_copy, temp])
       else do {
         let (args, s) = m_malloc s;
         if args = 0 then map_option (\<lambda>s. (Exits, s)) (free_pages s [fn_copy, temp])
         else case created of
             None \<Rightarrow> map_option (\<lambda>s. (Ret (TID_ERROR, 0), s)) (free_pages s [temp, fn_copy])
           | Some (t, tid) \<Rightarrow> do {
               kassert (name \<noteq> []);
               let s = s\<lparr>uthreads := (uthreads s)(t \<mapsto> new_uthread name tid (current s)),
                 exec_objs := (exec_objs s)(args \<mapsto> \<lparr>ea_page = fn_copy, ea_filename = cmd, ea_sema = 0, ea_success = False\<rparr>),
                 child_objs := (child_objs s)(child \<mapsto> \<lparr>pid_t = tid, ch_exit_status = 0, ch_sema = 0\<rparr>)\<rparr>;
               s \<leftarrow> upd_thread s (current s) (\<lambda>th. th\<lparr>childs := child # childs th\<rparr>);
               map_option (\<lambda>s. (Ret (tid, args), s)) (free_pages s [temp])
             }
       }
     }
   }"

text \<open>The rest of \<^verbatim>\<open>process_execute\<close>, once the child has raised the semaphore.\<close>

definition process_execute_end :: "machine \<Rightarrow> int \<Rightarrow> ptr \<Rightarrow> (int option ret \<times> machine) option" where
  "process_execute_end s tid args =
    (if args = 0 then Some (Ret (Some tid), s)
     else do {
       ea \<leftarrow> exec_objs s args;
       if ea_sema ea = 0 then Some (Ret None, s)
       else Some (Ret (Some (if ea_success ea then tid else TID_ERROR)), s\<lparr>exec_objs := (exec_objs s)(args := None)\<rparr>)
     })"

text \<open>The first steps of the child; when \<^verbatim>\<open>load\<close> ends the thread, the semaphore is not raised.\<close>

definition start_process :: "machine \<Rightarrow> ptr \<Rightarrow> u32 \<Rightarrow> u32 \<Rightarrow> ((u32 \<times> ptr) ret \<times> machine) option" where
  "start_process s args argc t = do {
     ea \<leftarrow> exec_objs s args;
     s \<leftarrow> upd_thread s (current s) (\<lambda>th. th\<lparr>is_userprog := True\<rparr>);
     and_then (load s (ea_filename ea) argc t) (\<lambda>r s. do {
       s \<leftarrow> free_pages s [ea_page ea];
       ea \<leftarrow> exec_objs s args;
       let s = s\<lparr>exec_objs := (exec_objs s)(args \<mapsto> ea\<lparr>ea_success := (r \<noteq> None), ea_sema := ea_sema ea + 1\<rparr>)\<rparr>;
       case r of None \<Rightarrow> Some (Exits, s) | Some entry \<Rightarrow> Some (Ret entry, s)
     })
   }"

text \<open>The condition of the loop is an assignment: the first child is taken, whatever its identifier.\<close>

primrec find_child_loop :: "int \<Rightarrow> ptr list \<Rightarrow> machine \<Rightarrow> (ptr \<times> machine) option" where
  "find_child_loop pid [] s = Some (0, s)"
| "find_child_loop pid (c # cs) s = do {
     ch \<leftarrow> child_objs s c;
     let s = s\<lparr>child_objs := (child_objs s)(c \<mapsto> ch\<lparr>pid_t := pid\<rparr>)\<rparr>;
     if pid \<noteq> 0 then Some (c, s) else find_child_loop pid cs s
   }"

definition find_child :: "machine \<Rightarrow> int \<Rightarrow> ptr \<Rightarrow> (ptr \<times> machine) option" where
  "find_child s pid t = do { th \<leftarrow> uthreads s t; find_child_loop pid (childs th) s }"

definition process_wait :: "machine \<Rightarrow> int \<Rightarrow> (int option \<times> machine) option" where
  "process_wait s child_tid = do {
     (child, s) \<leftarrow> find_child s child_tid (current s);
     if child = 0 then Some (Some (-1), s)
     else do {
       ch \<leftarrow> child_objs s child;
       if ch_sema ch = 0 then Some (None, s)
       else do {
         s \<leftarrow> upd_thread s (current s) (\<lambda>th. th\<lparr>childs := remove1 child (childs th)\<rparr>);
         Some (Some (ch_exit_status ch), s\<lparr>child_objs := (child_objs s)(child := None)\<rparr>)
       }
     }
   }"

text \<open>
  An open file is closed with its descriptor in place of its address. The access to \<^verbatim>\<open>deny_write\<close> at that address faults, unless the
  process has mapped the first page, and the handler of the fault ends the thread once more, which
  enters \<^verbatim>\<open>process_exit\<close> from the start with the file taken off the list.
\<close>

partial_function (option) process_exit :: "machine \<Rightarrow> machine option" where
  "process_exit s = do {
     cur \<leftarrow> cur_thread s;
     case open_files cur of
       e # es \<Rightarrow> do {
         ofl \<leftarrow> open_file_objs s e;
         s \<leftarrow> upd_thread s (current s) (\<lambda>th. th\<lparr>open_files := es\<rparr>);
         let f = word_of_int (of_fd ofl);
         if f = 0 then process_exit (s\<lparr>open_file_objs := (open_file_objs s)(e := None)\<rparr>)
         else do {
           kassert (files (fsys s) f = None \<and> f + 8 < PHYS_BASE);
           k \<leftarrow> pagedir_get_page (mm s) (t_pagedir cur) (f + 8);
           p \<leftarrow> supplemental_table_look_up s (pg_round_down (f + 8));
           kassert (k = 0 \<and> p = 0);
           process_exit (s\<lparr>page_fault_cnt := page_fault_cnt s + 1\<rparr>)
         }
       }
     | [] \<Rightarrow> do {
         (child, s) \<leftarrow> (if t_parent cur \<noteq> 0 then find_child s (t_tid cur) (t_parent cur) else Some (0, s));
         s \<leftarrow>
           (if is_userprog cur then do {
              let status = (if \<not> exited_by_exit_call cur then -1 else t_exit_status cur);
              ch \<leftarrow> child_objs s child;
              Some (s\<lparr>exit_messages := exit_messages s @ [(t_name cur, status)],
                child_objs := (child_objs s)(child \<mapsto> ch\<lparr>ch_exit_status := status\<rparr>)\<rparr>)
            }
            else Some s);
         s \<leftarrow> frame_table_rmf s (current s);
         (r, s) \<leftarrow> mf_table_destroy s;
         case r of
           Exits \<Rightarrow> process_exit s
         | Ret _ \<Rightarrow> do {
             s \<leftarrow> supplemental_table_destroy s;
             let pd = t_pagedir cur;
             s \<leftarrow>
               (if pd \<noteq> 0 then do {
                  s \<leftarrow> upd_thread s (current s) (\<lambda>th. th\<lparr>t_pagedir := 0\<rparr>);
                  m \<leftarrow> pagedir_activate (mm s) 0;
                  m \<leftarrow> pagedir_destroy m pd;
                  Some (s\<lparr>mm := m\<rparr>)
                }
                else Some s);
             if child \<noteq> 0 then do {
               ch \<leftarrow> child_objs s child;
               Some (s\<lparr>child_objs := (child_objs s)(child \<mapsto> ch\<lparr>ch_sema := ch_sema ch + 1\<rparr>)\<rparr>)
             }
             else Some s
           }
       }
   }"


subsection \<open>Loading segments\<close>

text \<open>The entry for page \<open>k\<close> of a segment of which the first \<open>R\<close> bytes come from the file.\<close>

definition seg_page :: "ptr \<Rightarrow> u32 \<Rightarrow> bool \<Rightarrow> ptr \<Rightarrow> nat \<Rightarrow> nat \<Rightarrow> page" where
  "seg_page f ofs w upage R k = \<lparr>pg_location = f, pg_kind = PAG_EXEC, pg_writable = w, pg_file_ofs = ofs + of_nat (4096 * k),
     pg_read_b = of_nat (min 4096 (R - 4096 * k)), pg_zero_b = of_nat (4096 - min 4096 (R - 4096 * k)), pg_page = upage + of_nat (4096 * k)\<rparr>"

lemma of_nat_diff_u32: "b \<le> a \<Longrightarrow> (of_nat a - of_nat b :: u32) = of_nat (a - b)"
  by (simp add: of_nat_diff)

lemma m_malloc_Cons: "mallocs (fsys s) = p # ps \<Longrightarrow> m_malloc s = (p, s\<lparr>fsys := (fsys s)\<lparr>mallocs := ps\<rparr>\<rparr>)"
  by (simp add: m_malloc_def fs_malloc_def)

lemma load_seg_loop_done: "load_seg_loop f ofs l u 0 0 w s = Some (True, s)"
  by (subst load_seg_loop.simps) simp

text \<open>One round of the loop, with the numbers of bytes left as natural numbers.\<close>

lemma load_seg_loop_step:
  assumes n: "k < n" "R \<le> 4096 * n" "4096 * n < 2 ^ 32" and p: "mallocs (fsys s) = p # ps" "p \<noteq> 0" "uthreads s (current s) = Some th"
  shows "\<exists>s1 th1. load_seg_loop f ofs (of_nat k) (up0 + of_nat (4096 * k)) (of_nat (R - 4096 * k)) (of_nat (4096 * n - max R (4096 * k))) w s =
      load_seg_loop f ofs (of_nat (Suc k)) (up0 + of_nat (4096 * Suc k)) (of_nat (R - 4096 * Suc k)) (of_nat (4096 * n - max R (4096 * Suc k))) w s1 \<and>
    current s1 = current s \<and> mallocs (fsys s1) = ps \<and> page_objs s1 = (page_objs s)(p \<mapsto> seg_page f ofs w up0 R k) \<and>
    uthreads s1 (current s) = Some th1 \<and> sup_page_table th1 = sup_page_table th @ [p]"
proof -
  let ?r = "R - 4096 * k" and ?z = "4096 * n - max R (4096 * k)"
  have small: "?r < 2 ^ 32" "?z < 2 ^ 32" using n by auto
  have pr: "(if (of_nat ?r :: u32) < PGSIZE then of_nat ?r else PGSIZE) = of_nat (min 4096 ?r)"
  proof -
    have "(of_nat ?r :: u32) < of_nat 4096 \<longleftrightarrow> ?r < 4096" by (rule of_nat_less_u32) (use small in simp_all)
    then show ?thesis by (simp add: PGSIZE_def min_def)
  qed
  have pz: "PGSIZE - of_nat (min 4096 ?r) = of_nat (4096 - min 4096 ?r)"
    using of_nat_diff_u32 [of "min 4096 ?r" 4096] by (simp add: PGSIZE_def)
  have go: "(of_nat ?r :: u32) > 0 \<or> (of_nat ?z :: u32) > 0"
  proof -
    have "0 < ?r \<or> 0 < ?z" using n(1) by (auto simp: max_def)
    then show ?thesis using of_nat_less_u32 [of 0 ?r] of_nat_less_u32 [of 0 ?z] small by auto
  qed
  have r': "of_nat ?r - of_nat (min 4096 ?r) = (of_nat (R - 4096 * Suc k) :: u32)"
    using of_nat_diff_u32 [of "min 4096 ?r" ?r] by (simp add: min_def)
  have z': "of_nat ?z - of_nat (4096 - min 4096 ?r) = (of_nat (4096 * n - max R (4096 * Suc k)) :: u32)"
  proof -
    have "4096 + 4096 * k \<le> 4096 * n" using n(1) by simp
    then have "4096 - min 4096 ?r \<le> ?z" "?z - (4096 - min 4096 ?r) = 4096 * n - max R (4096 * Suc k)"
      using n(2) unfolding max_def min_def by (simp_all split: if_split) linarith+
    then show ?thesis using of_nat_diff_u32 by metis
  qed
  have u': "up0 + of_nat (4096 * k) + PGSIZE = up0 + of_nat (4096 * Suc k)" "of_nat k + 1 = (of_nat (Suc k) :: u32)"
    "ofs + of_nat k * PGSIZE = ofs + of_nat (4096 * k)" by (simp_all add: PGSIZE_def algebra_simps)
  define g where "g = (\<lambda>th :: uthread. th\<lparr>
    max_code_seg_addr := (if max_code_seg_addr th < up0 + of_nat (4096 * Suc k) then up0 + of_nat (4096 * Suc k) else max_code_seg_addr th),
    sup_page_table := sup_page_table th @ [p]\<rparr>)"
  define s1 where "s1 = s\<lparr>fsys := (fsys s)\<lparr>mallocs := ps\<rparr>, page_objs := (page_objs s)(p \<mapsto> seg_page f ofs w up0 R k),
    uthreads := (uthreads s)(current s \<mapsto> g th)\<rparr>"
  have "load_seg_loop f ofs (of_nat k) (up0 + of_nat (4096 * k)) (of_nat ?r) (of_nat ?z) w s =
    load_seg_loop f ofs (of_nat (Suc k)) (up0 + of_nat (4096 * Suc k)) (of_nat (R - 4096 * Suc k)) (of_nat (4096 * n - max R (4096 * Suc k))) w s1"
    unfolding load_seg_loop.simps [of f ofs "of_nat k"] if_P [OF go] Let_def pr pz m_malloc_Cons [OF p(1)] prod.case r' z' u' if_not_P [OF p(2)]
      g_def [symmetric] seg_page_def [symmetric]
    by (simp add: upd_thread_def p(3) s1_def del: of_nat_Suc of_nat_mult)
  then show ?thesis by (intro exI [of _ s1] exI [of _ "g th"]) (simp add: s1_def g_def)
qed

lemma load_seg_loop_ok:
  assumes "n = k + length ps" "R \<le> 4096 * n" "4096 * n < 2 ^ 32" "distinct ps" "0 \<notin> set ps"
    "mallocs (fsys s) = ps @ rest" "uthreads s (current s) = Some th"
  shows "\<exists>s' th'. load_seg_loop f ofs (of_nat k) (up0 + of_nat (4096 * k)) (of_nat (R - 4096 * k)) (of_nat (4096 * n - max R (4096 * k))) w s =
      Some (True, s') \<and> current s' = current s \<and> uthreads s' (current s) = Some th' \<and> sup_page_table th' = sup_page_table th @ ps \<and>
      mallocs (fsys s') = rest \<and> (\<forall>i < length ps. page_objs s' (ps ! i) = Some (seg_page f ofs w up0 R (k + i))) \<and>
      (\<forall>p. p \<notin> set ps \<longrightarrow> page_objs s' p = page_objs s p)"
  using assms
proof (induction ps arbitrary: k s th)
  case Nil
  then show ?case by (simp add: load_seg_loop_done)
next
  case (Cons p ps)
  have "k < n" "p \<noteq> 0" "mallocs (fsys s) = p # (ps @ rest)" using Cons.prems by auto
  from load_seg_loop_step [OF this(1) Cons.prems(2,3) this(3,2) Cons.prems(7), of f ofs up0 w] obtain s1 th1 where
    s1: "load_seg_loop f ofs (of_nat k) (up0 + of_nat (4096 * k)) (of_nat (R - 4096 * k)) (of_nat (4096 * n - max R (4096 * k))) w s =
      load_seg_loop f ofs (of_nat (Suc k)) (up0 + of_nat (4096 * Suc k)) (of_nat (R - 4096 * Suc k)) (of_nat (4096 * n - max R (4096 * Suc k))) w s1"
    "current s1 = current s" "mallocs (fsys s1) = ps @ rest" "page_objs s1 = (page_objs s)(p \<mapsto> seg_page f ofs w up0 R k)"
    "uthreads s1 (current s) = Some th1" "sup_page_table th1 = sup_page_table th @ [p]" by blast
  have "n = Suc k + length ps" "distinct ps" "0 \<notin> set ps" "uthreads s1 (current s1) = Some th1" using Cons.prems s1(2,5) by simp_all
  from Cons.IH [OF this(1) Cons.prems(2,3) this(2,3) s1(3) this(4)] obtain s' th' where
    s': "load_seg_loop f ofs (of_nat (Suc k)) (up0 + of_nat (4096 * Suc k)) (of_nat (R - 4096 * Suc k)) (of_nat (4096 * n - max R (4096 * Suc k))) w s1 =
      Some (True, s')" "current s' = current s1" "uthreads s' (current s1) = Some th'" "sup_page_table th' = sup_page_table th1 @ ps"
    "mallocs (fsys s') = rest" "\<forall>i < length ps. page_objs s' (ps ! i) = Some (seg_page f ofs w up0 R (Suc k + i))"
    "\<forall>q. q \<notin> set ps \<longrightarrow> page_objs s' q = page_objs s1 q" by blast
  have "page_objs s' ((p # ps) ! i) = Some (seg_page f ofs w up0 R (k + i))" if "i < length (p # ps)" for i
    using that s'(6,7) s1(4) Cons.prems(4) by (cases i) auto
  moreover have "page_objs s' q = page_objs s q" if "q \<notin> set (p # ps)" for q using that s'(7) s1(4) by simp
  ultimately show ?case using s1(1,2,6) s'(1-5) by auto
qed


lemma of_nat_unat_u32: "unat x = n \<Longrightarrow> x = (of_nat n :: u32)"
  by auto

lemma ROUND_UP_page: "unat x + 4095 < 2 ^ 32 \<Longrightarrow> unat (ROUND_UP x PGSIZE) = (unat x + 4095) div 4096 * 4096"
proof -
  assume x: "unat x + 4095 < 2 ^ 32"
  then have "unat (x + 4096 - 1) = unat x + 4095" using unat_add_u32 [of x 4095] by (simp add: add_diff_eq [symmetric])
  moreover have "(unat x + 4095) div 4096 * 4096 < 2 ^ 32" using x by (meson div_times_less_eq_dividend le_less_trans)
  ultimately show ?thesis unfolding ROUND_UP_def PGSIZE_def by (subst unat_mult_u32) (simp_all add: unat_div)
qed

text \<open>A valid segment: the page of its first byte, the number of its pages, and what its assertions rely on.\<close>

lemma valid_segment:
  assumes "validate_segment s ph f = Some True"
  defines "po \<equiv> unat (p_vaddr ph) mod 4096"
  shows "unat (p_vaddr ph) + unat (p_memsz ph) < 0xc0000000" "p_filesz ph \<le> p_memsz ph" "0 < unat (p_memsz ph)"
    "p_offset ph AND PGMASK = p_vaddr ph AND PGMASK" "unat (p_vaddr ph AND PGMASK) = po"
    "unat (p_vaddr ph AND NOT PGMASK) = unat (p_vaddr ph) - po" "po \<le> unat (p_vaddr ph)" "4096 dvd unat (p_vaddr ph) - po" "po < 4096"
proof -
  have v: "p_offset ph AND PGMASK = p_vaddr ph AND PGMASK" "p_filesz ph \<le> p_memsz ph" "p_memsz ph \<noteq> 0"
    "p_vaddr ph + p_memsz ph < PHYS_BASE" "p_vaddr ph \<le> p_vaddr ph + p_memsz ph"
    using assms(1) by (auto simp: validate_segment_def is_user_vaddr_def bind_eq_Some_conv not_less)
  have "unat (p_vaddr ph + p_memsz ph) = unat (p_vaddr ph) + unat (p_memsz ph)"
    using v(5) unat_u32_bound [of "p_memsz ph"] by (simp add: unat_plus_if_size word_le_nat_alt word_size split: if_splits)
  then show "unat (p_vaddr ph) + unat (p_memsz ph) < 0xc0000000" using v(4) by (simp add: PHYS_BASE_def word_less_nat_alt)
  show "p_filesz ph \<le> p_memsz ph" "p_offset ph AND PGMASK = p_vaddr ph AND PGMASK" using v by blast+
  show "0 < unat (p_memsz ph)" using v(3) by (simp add: unat_gt_0)
  show "unat (p_vaddr ph AND PGMASK) = po" unfolding po_def using unat_pg_ofs [of "p_vaddr ph"] by (simp add: pg_ofs_def)
  show "unat (p_vaddr ph AND NOT PGMASK) = unat (p_vaddr ph) - po"
    unfolding po_def using unat_pg_round_down [of "p_vaddr ph"] by (simp add: pg_round_down_def minus_mod_eq_div_mult)
  show "po \<le> unat (p_vaddr ph)" "4096 dvd unat (p_vaddr ph) - po" "po < 4096" by (simp_all add: po_def minus_mod_eq_mult_div)
qed

lemma segment_sizes:
  assumes "validate_segment s ph f = Some True"
  defines "po \<equiv> unat (p_vaddr ph) mod 4096"
  defines "n \<equiv> (po + unat (p_memsz ph) + 4095) div 4096"
  shows "unat (ROUND_UP ((p_vaddr ph AND PGMASK) + p_memsz ph) PGSIZE) = 4096 * n" "po + unat (p_memsz ph) \<le> 4096 * n"
    "unat (p_vaddr ph) - po + 4096 * n \<le> 0xc0000000" "unat ((p_vaddr ph AND PGMASK) + p_filesz ph) = po + unat (p_filesz ph)"
proof -
  note v = valid_segment [OF assms(1), folded po_def]
  have u: "unat ((p_vaddr ph AND PGMASK) + p_memsz ph) = po + unat (p_memsz ph)"
    using v(1,5,7) by (subst unat_add_u32) simp_all
  show "unat (ROUND_UP ((p_vaddr ph AND PGMASK) + p_memsz ph) PGSIZE) = 4096 * n"
    unfolding n_def using v(1,7) ROUND_UP_page [of "(p_vaddr ph AND PGMASK) + p_memsz ph"] u by simp
  show "po + unat (p_memsz ph) \<le> 4096 * n" unfolding n_def by simp
  obtain b where b: "unat (p_vaddr ph) - po = 4096 * b" using v(8) by (elim dvdE)
  have "4096 * b + po + unat (p_memsz ph) < 4096 * 786432" using b v(1,7) by simp
  then have "(4096 * b + po + unat (p_memsz ph) + 4095) div 4096 < 786433" by (simp add: less_mult_imp_div_less)
  moreover have "(4096 * b + po + unat (p_memsz ph) + 4095) div 4096 = b + n" unfolding n_def by (simp add: add.assoc)
  ultimately show "unat (p_vaddr ph) - po + 4096 * n \<le> 0xc0000000" using b by simp
  have "unat (p_filesz ph) \<le> unat (p_memsz ph)" using v(2) by (simp add: word_le_nat_alt)
  then show "unat ((p_vaddr ph AND PGMASK) + p_filesz ph) = po + unat (p_filesz ph)" using v(1,5,7) by (subst unat_add_u32) simp_all
qed

lemma seg_page_sizes:
  "unat (pg_read_b (seg_page f ofs w u R k)) = min 4096 (R - 4096 * k)"
  "unat (pg_zero_b (seg_page f ofs w u R k)) = 4096 - min 4096 (R - 4096 * k)"
  unfolding seg_page_def page.select_convs by (rule unat_of_nat_u32, simp)+

lemma seg_page_address:
  "k < n \<Longrightarrow> unat u + 4096 * n \<le> 0xc0000000 \<Longrightarrow> unat (pg_page (seg_page f ofs w u R k)) = unat u + 4096 * k"
  unfolding seg_page_def page.select_convs by (subst unat_add_u32) (simp_all add: unat_of_nat_u32 del: of_nat_mult)

text \<open>Where byte \<open>j\<close> of a segment that starts at offset \<open>po\<close> of its first page lies.\<close>

lemma seg_page_byte:
  assumes "unat va = unat u + po" "unat u + 4096 * n \<le> 0xc0000000" "po + j < 4096 * n" "R = (if 0 < fz then po + fz else 0)"
    "ofs + of_nat po = offset"
  shows "\<exists>k < n. \<exists>d < 4096. unat va + j = unat (pg_page (seg_page f ofs w u R k)) + d \<and>
    (if j < fz then d < unat (pg_read_b (seg_page f ofs w u R k)) \<and> pg_file_ofs (seg_page f ofs w u R k) + of_nat d = offset + of_nat j
     else unat (pg_read_b (seg_page f ofs w u R k)) \<le> d)"
proof -
  let ?k = "(po + j) div 4096" and ?d = "(po + j) mod 4096"
  have eq: "4096 * ?k + ?d = po + j" by simp
  have k: "?k < n" using assms(3) by (simp add: less_mult_imp_div_less)
  have "unat va + j = unat (pg_page (seg_page f ofs w u R ?k)) + ?d"
    using seg_page_address [OF k assms(2)] assms(1) eq by simp
  moreover have "pg_file_ofs (seg_page f ofs w u R ?k) + of_nat ?d = offset + of_nat j"
  proof -
    have "pg_file_ofs (seg_page f ofs w u R ?k) + of_nat ?d = ofs + of_nat (4096 * ?k + ?d)"
      unfolding seg_page_def page.select_convs by (simp only: of_nat_add add.assoc)
    also have "\<dots> = ofs + of_nat po + of_nat j" unfolding eq by simp
    finally show ?thesis using assms(5) by simp
  qed
  moreover have "?d < unat (pg_read_b (seg_page f ofs w u R ?k)) \<longleftrightarrow> j < fz"
  proof -
    have "?d < R - 4096 * ?k \<longleftrightarrow> po + j < R" using eq by linarith
    moreover have "po + j < R \<longleftrightarrow> j < fz" using assms(4) by auto
    ultimately show ?thesis using seg_page_sizes(1) [of f ofs w u R ?k] by simp
  qed
  ultimately show ?thesis using k by (intro exI [of _ ?k] conjI exI [of _ ?d]) (auto simp: not_less)
qed

text \<open>C18. A loadable segment that passes the checks becomes entries of the supplemental page table for exactly the pages that
  it touches, one after the other and all below the kernel: no assertion fails, byte \<open>j\<close> of the segment lies in one of the
  pages, and that page takes it from offset \<open>p_offset + j\<close> of the file if \<open>j\<close> is less than the segment's size in the file, and
  fills it with zero otherwise.\<close>

theorem load_segment_pages:
  assumes ok: "validate_segment s ph f = Some True" "p_type ph = 1" "uthreads s (current s) = Some th"
    and ps: "mallocs (fsys s) = ps @ rest" "distinct ps" "0 \<notin> set ps"
      "length ps = (unat (p_vaddr ph) mod 4096 + unat (p_memsz ph) + 4095) div 4096"
  shows "\<exists>s' th'. load_phdr s f ph = Some (True, s') \<and> uthreads s' (current s) = Some th' \<and>
    sup_page_table th' = sup_page_table th @ ps \<and>
    (\<forall>k < length ps. \<exists>pg. page_objs s' (ps ! k) = Some pg \<and> pg_kind pg = PAG_EXEC \<and> pg_location pg = f \<and>
       pg_writable pg = (p_flags ph AND 2 \<noteq> 0) \<and> unat (pg_page pg) = unat (pg_round_down (p_vaddr ph)) + 4096 * k \<and>
       unat (pg_page pg) + 4096 \<le> unat PHYS_BASE \<and> unat (pg_read_b pg) + unat (pg_zero_b pg) = 4096) \<and>
    (\<forall>j < unat (p_memsz ph). \<exists>k < length ps. \<exists>pg d. page_objs s' (ps ! k) = Some pg \<and> d < 4096 \<and>
       unat (p_vaddr ph) + j = unat (pg_page pg) + d \<and>
       (if j < unat (p_filesz ph) then d < unat (pg_read_b pg) \<and> pg_file_ofs pg + of_nat d = p_offset ph + of_nat j
        else unat (pg_read_b pg) \<le> d))"
proof -
  define po where "po = unat (p_vaddr ph) mod 4096"
  define n where "n = (po + unat (p_memsz ph) + 4095) div 4096"
  define R where "R = (if p_filesz ph > 0 then po + unat (p_filesz ph) else 0)"
  define u where "u = p_vaddr ph AND NOT PGMASK"
  define w where "w = (p_flags ph AND 2 \<noteq> 0)"
  define ofs where "ofs = p_offset ph AND NOT PGMASK"
  note v = valid_segment [OF ok(1), folded po_def]
  note z = segment_sizes [OF ok(1), folded po_def, folded n_def]
  have len: "length ps = n" using ps(4) by (simp add: n_def po_def)
  have fm: "unat (p_filesz ph) \<le> unat (p_memsz ph)" using v(2) by (simp add: word_le_nat_alt)
  have Rn: "R \<le> 4096 * n" using z(2) fm by (simp add: R_def)
  have n32: "4096 * n < 2 ^ 32" using z(3) by simp
  have uu: "unat u = unat (p_vaddr ph) - po" using v(6) by (simp add: u_def)
  have rd: "(if p_filesz ph > 0 then (p_vaddr ph AND PGMASK) + p_filesz ph else 0) = of_nat (R - 4096 * 0)"
    using of_nat_unat_u32 [OF z(4)] by (simp add: R_def)
  have zr: "(if p_filesz ph > 0 then ROUND_UP ((p_vaddr ph AND PGMASK) + p_memsz ph) PGSIZE - of_nat (R - 4096 * 0)
      else ROUND_UP ((p_vaddr ph AND PGMASK) + p_memsz ph) PGSIZE) = of_nat (4096 * n - max R (4096 * 0))"
  proof -
    have "ROUND_UP ((p_vaddr ph AND PGMASK) + p_memsz ph) PGSIZE = of_nat (4096 * n)" by (rule of_nat_unat_u32 [OF z(1)])
    moreover have "R = 0" if "\<not> p_filesz ph > 0" using that by (simp add: R_def)
    ultimately show ?thesis using of_nat_diff_u32 [OF Rn] by (cases "p_filesz ph > 0") (simp_all del: of_nat_mult)
  qed
  have "load_phdr s f ph = load_segment s f ofs u (of_nat (R - 4096 * 0)) (of_nat (4096 * n - max R (4096 * 0))) w"
    unfolding load_phdr_def ok(2) Let_def rd zr ofs_def u_def w_def using ok(1) by simp
  also have "\<dots> = load_seg_loop f ofs (of_nat 0) (u + of_nat (4096 * 0)) (of_nat (R - 4096 * 0)) (of_nat (4096 * n - max R (4096 * 0))) w s"
  proof -
    have "(of_nat (R - 4096 * 0) :: u32) + of_nat (4096 * n - max R (4096 * 0)) = of_nat (4096 * n)"
      using Rn by (simp flip: of_nat_add)
    moreover have "(of_nat (4096 * n) :: u32) mod PGSIZE = 0"
      using n32 by (simp add: u32_eq_iff unat_mod PGSIZE_def unat_of_nat_u32 del: of_nat_mult)
    moreover have "pg_ofs u = 0" unfolding u_def pg_ofs_def by (simp add: and.assoc)
    moreover have "ofs mod PGSIZE = 0"
      using unat_pg_round_down [of "p_offset ph"] by (simp add: u32_eq_iff unat_mod PGSIZE_def ofs_def pg_round_down_def)
    ultimately show ?thesis unfolding load_segment_def by simp
  qed
  finally obtain s' th' where s': "load_phdr s f ph = Some (True, s')" "uthreads s' (current s) = Some th'"
      "sup_page_table th' = sup_page_table th @ ps" "\<forall>i < length ps. page_objs s' (ps ! i) = Some (seg_page f ofs w u R (0 + i))"
    using load_seg_loop_ok [of n 0 ps R s rest th f ofs u w] len Rn n32 ps ok(3) by auto
  have pg: "page_objs s' (ps ! k) = Some (seg_page f ofs w u R k)" if "k < n" for k using s'(4) that len by simp
  have up: "unat (pg_page (seg_page f ofs w u R k)) = unat u + 4096 * k" if "k < n" for k
    using seg_page_address [OF that] z(3) uu by simp
  have fst_part: "\<exists>pg. page_objs s' (ps ! k) = Some pg \<and> pg_kind pg = PAG_EXEC \<and> pg_location pg = f \<and> pg_writable pg = (p_flags ph AND 2 \<noteq> 0) \<and>
      unat (pg_page pg) = unat (pg_round_down (p_vaddr ph)) + 4096 * k \<and> unat (pg_page pg) + 4096 \<le> unat PHYS_BASE \<and>
      unat (pg_read_b pg) + unat (pg_zero_b pg) = 4096" if k: "k < length ps" for k
  proof (intro exI conjI)
    show "page_objs s' (ps ! k) = Some (seg_page f ofs w u R k)" using pg k len by simp
    have "4096 * k + 4096 \<le> 4096 * n" using k len by simp
    then show "unat (pg_page (seg_page f ofs w u R k)) + 4096 \<le> unat PHYS_BASE"
      using up [of k] k len z(3) uu by (simp add: PHYS_BASE_def)
    show "unat (pg_page (seg_page f ofs w u R k)) = unat (pg_round_down (p_vaddr ph)) + 4096 * k"
      using up [of k] k len by (simp add: pg_round_down_def u_def)
    show "unat (pg_read_b (seg_page f ofs w u R k)) + unat (pg_zero_b (seg_page f ofs w u R k)) = 4096" unfolding seg_page_sizes by simp
  qed (simp_all add: seg_page_def w_def)
  have "ofs + of_nat po = p_offset ph"
  proof -
    have "of_nat po = p_offset ph AND PGMASK" using of_nat_unat_u32 [OF v(5)] v(4) by simp
    then show ?thesis unfolding ofs_def by (simp add: disjunctive_add bit_simps) (auto simp: bit_simps bit_eq_iff)
  qed
  then have snd_part: "\<exists>k < length ps. \<exists>pg d. page_objs s' (ps ! k) = Some pg \<and> d < 4096 \<and> unat (p_vaddr ph) + j = unat (pg_page pg) + d \<and>
      (if j < unat (p_filesz ph) then d < unat (pg_read_b pg) \<and> pg_file_ofs pg + of_nat d = p_offset ph + of_nat j
       else unat (pg_read_b pg) \<le> d)" if j: "j < unat (p_memsz ph)" for j
    using seg_page_byte [of "p_vaddr ph" u po n j R "unat (p_filesz ph)" ofs "p_offset ph" f w] j z(2,3) v(7) uu len pg
    by (fastforce simp: R_def word_less_nat_alt)
  show ?thesis using s'(1-3) fst_part snd_part by blast
qed


subsection \<open>The initial stack\<close>

lemma put_below:
  assumes "length xs + length ys \<le> 2 ^ 32"
  shows "put (put m (q + of_nat (length xs)) ys) q xs = put m q (xs @ ys)"
proof
  fix a
  show "put (put m (q + of_nat (length xs)) ys) q xs a = put m q (xs @ ys) a"
  proof (cases "unat (a - q) < length xs")
    case False
    moreover have "unat (a - (q + of_nat (length xs))) = unat (a - q) - length xs"
    proof -
      have l: "length xs < 2 ^ 32" using False unat_u32_bound [of "a - q"] by simp
      have "a - (q + of_nat (length xs)) = (a - q) - of_nat (length xs)" by simp
      then show ?thesis using unat_sub_u32 [of "of_nat (length xs)" "a - q"] l False
        by (simp only:) (simp add: unat_of_nat_u32 word_le_nat_alt)
    qed
    ultimately show ?thesis by (auto simp: put_def nth_append)
  qed (simp add: put_def nth_append)
qed

text \<open>The process sees the bytes \<open>v\<close> in its page \<open>up\<close>.\<close>

definition page_view :: "ptr set \<Rightarrow> machine \<Rightarrow> ptr \<Rightarrow> ptr \<Rightarrow> mem \<Rightarrow> bool" where
  "page_view P s up kp v \<longleftrightarrow> page_in P s True up kp \<and> (\<forall>a. unat (a - up) < 4096 \<longrightarrow> user_mem s a = v a)"

lemma page_view_fsys: "page_view P (s\<lparr>fsys := x\<rparr>) up kp v = page_view P s up kp v"
proof -
  have k: "kmem (s\<lparr>fsys := x\<rparr>) = kmem s" "cur_thread (s\<lparr>fsys := x\<rparr>) = cur_thread s" "mm (s\<lparr>fsys := x\<rparr>) = mm s"
    by (simp_all add: kmem_def cur_thread_def)
  show ?thesis unfolding page_view_def page_in_def user_mem_def k by (rule refl)
qed

lemma user_store8_view:
  assumes v: "page_view P s up kp v" and va: "unat (va - up) < 4096"
  shows "\<exists>s'. user_store8 s va b t = Some (Ret (), s') \<and> page_view P s' up kp (v(va \<mapsto> b)) \<and> fsys s' = fsys s"
proof -
  have p: "page_in P s True up kp" and um: "\<And>a. unat (a - up) < 4096 \<Longrightarrow> user_mem s a = v a" using v by (simp_all add: page_view_def)
  let ?k = "kp + (va - up)"
  obtain m where m: "kernel_access s va True t = Some (Ret (Some ?k), s\<lparr>mm := m\<rparr>)" "frames m = frames (mm s)" "page_in P (s\<lparr>mm := m\<rparr>) True up kp"
    using page_in_access(3) [OF p va, of True t] p by blast
  define s1 where "s1 = s\<lparr>mm := m\<rparr>"
  define s' where "s' = set_kmem s1 ((kmem s)(?k \<mapsto> b))"
  have k1: "kmem s1 = kmem s" using m(2) by (simp add: s1_def kmem_def)
  have p': "page_in P s' True up kp" unfolding s'_def
    by (rule page_in_store [OF m(3) [folded s1_def]]) (simp add: k1 mapped_def)
  have k': "kmem s' = (kmem s)(?k \<mapsto> b)" by (simp add: s'_def kmem_def set_kmem_def)
  have "user_store8 s va b t = Some (Ret (), s')"
    using m(1) page_in_access(2) [OF p va] by (simp add: user_store8_def store8_def k1 s'_def flip: s1_def)
  moreover have "user_mem s' a = (v(va \<mapsto> b)) a" if a: "unat (a - up) < 4096" for a
    using page_in_access(1) [OF p' a] page_in_access(1) [OF p a] um [OF a] unfolding k' by simp
  moreover have "fsys s' = fsys s" by (simp add: s'_def s1_def set_kmem_def)
  ultimately show ?thesis using p' unfolding page_view_def by blast
qed

lemma user_store_view:
  assumes "page_view P s up kp v" "unat (va - up) + length bs \<le> 4096"
  shows "\<exists>s'. user_store s va bs t = Some (Ret (), s') \<and> page_view P s' up kp (put v va bs) \<and> fsys s' = fsys s"
  using assms
proof (induction bs arbitrary: s va v)
  case (Cons b bs)
  obtain s1 where s1: "user_store8 s va b t = Some (Ret (), s1)" "page_view P s1 up kp (v(va \<mapsto> b))" "fsys s1 = fsys s"
    using user_store8_view [OF Cons.prems(1), of va b t] Cons.prems(2) by auto
  have "unat (va + 1 - up) = unat (va - up) + 1"
    using unat_add_u32 [of "va - up" 1] Cons.prems(2) by (simp add: algebra_simps)
  then have "unat (va + 1 - up) + length bs \<le> 4096" using Cons.prems(2) by simp
  then obtain s2 where s2: "user_store s1 (va + 1) bs t = Some (Ret (), s2)" "page_view P s2 up kp (put (v(va \<mapsto> b)) (va + 1) bs)" "fsys s2 = fsys s1"
    using Cons.IH [OF s1(2)] by blast
  have "put (v(va \<mapsto> b)) (va + 1) bs = put v va (b # bs)" by (rule put_Cons) (use Cons.prems(2) in simp)
  with s1 s2 show ?case by simp
qed simp

lemma unat_down: "n \<le> unat (sp - up) \<Longrightarrow> unat (sp - of_nat n - up) = unat (sp - up :: u32) - n"
  using unat_sub_u32 [of "of_nat n" "sp - up"] unat_u32_bound [of "sp - up"] by (simp add: unat_of_nat_u32 word_le_nat_alt algebra_simps)

lemma put_down:
  assumes "length bs < 2 ^ 32" "q + of_nat (length bs) = sp"
  shows "put (v(sp \<mapsto> b)) q bs = put v q (bs @ [b])"
  using put_below [of bs "[b]" v q] put_Cons [of "[]" v sp b] assms by simp

lemma push_chars_view:
  assumes "page_view P s up kp v" "unat (sp - up) < 4096" "len \<le> unat (sp - up)" "mallocs (fsys s) = p # ps" "p \<noteq> 0"
  shows "\<exists>s'. push_chars str len sp s t = Some (Ret (sp - of_nat len, sp - of_nat len - 1), s') \<and>
    page_view P s' up kp (put v (sp - of_nat len) (map (char_at str) [0 ..< Suc len])) \<and> mallocs (fsys s') = ps"
  using assms
proof (induction len arbitrary: s sp v)
  case 0
  obtain s1 where s1: "user_store8 s sp (char_at str 0) t = Some (Ret (), s1)" "page_view P s1 up kp (v(sp \<mapsto> char_at str 0))" "fsys s1 = fsys s"
    using user_store8_view [OF 0(1,2)] by blast
  define s2 where "s2 = s1\<lparr>fsys := (fsys s1)\<lparr>mallocs := ps\<rparr>\<rparr>"
  have "m_malloc s1 = (p, s2)" using m_malloc_Cons [of s1 p ps] s1(3) 0(4) by (simp add: s2_def)
  moreover have "page_view P s2 up kp (put v sp [char_at str 0])"
    using s1(2) put_Cons [of "[]" v sp "char_at str 0"] unfolding s2_def page_view_fsys put_Nil by (metis list.size(3) zero_less_numeral zero_less_power)
  ultimately show ?case using s1(1) 0(5) by (simp add: s2_def)
next
  case (Suc len)
  let ?c = "char_at str (Suc len)"
  obtain s1 where s1: "user_store8 s sp ?c t = Some (Ret (), s1)" "page_view P s1 up kp (v(sp \<mapsto> ?c))" "fsys s1 = fsys s"
    using user_store8_view [OF Suc.prems(1,2)] by blast
  have d: "unat (sp - 1 - up) = unat (sp - up) - 1" using unat_down [of 1 sp up] Suc.prems(3) by simp
  then have d': "unat (sp - 1 - up) < 4096" "len \<le> unat (sp - 1 - up)" using Suc.prems(2,3) by simp_all
  have ms: "mallocs (fsys s1) = p # ps" using s1(3) Suc.prems(4) by simp
  obtain s' where s': "push_chars str len (sp - 1) s1 t = Some (Ret (sp - 1 - of_nat len, sp - 1 - of_nat len - 1), s')"
      "page_view P s' up kp (put (v(sp \<mapsto> ?c)) (sp - 1 - of_nat len) (map (char_at str) [0 ..< Suc len]))" "mallocs (fsys s') = ps"
    using Suc.IH [OF s1(2) d' ms Suc.prems(5)] by blast
  have q: "sp - 1 - of_nat len = sp - of_nat (Suc len)" by simp
  have "put (v(sp \<mapsto> ?c)) (sp - 1 - of_nat len) (map (char_at str) [0 ..< Suc len]) =
      put v (sp - of_nat (Suc len)) (map (char_at str) [0 ..< Suc len] @ [?c])"
    unfolding q by (rule put_down) (use Suc.prems in \<open>simp_all add: algebra_simps\<close>)
  moreover have "map (char_at str) [0 ..< Suc len] @ [?c] = map (char_at str) [0 ..< Suc (Suc len)]" by simp
  ultimately show ?case using s' s1(1) unfolding q by simp
qed


definition args_bytes :: "u8 list list \<Rightarrow> u8 list" where
  "args_bytes args = concat (map (\<lambda>str. str @ [0]) args)"

fun arg_addrs :: "u8 list list \<Rightarrow> ptr \<Rightarrow> ptr list" where
  "arg_addrs [] sp = []"
| "arg_addrs (str # argv) sp = (sp - of_nat (length str)) # arg_addrs argv (sp - of_nat (length str) - 1)"

lemma args_bytes_simps [simp]:
  "args_bytes [] = []" "args_bytes (str # argv) = str @ 0 # args_bytes argv" "args_bytes (xs @ ys) = args_bytes xs @ args_bytes ys"
  by (simp_all add: args_bytes_def)

lemma length_args_bytes_rev [simp]: "length (args_bytes (rev argv)) = length (args_bytes argv)"
  by (induction argv) simp_all

lemma chars_of_string: "map (char_at str) [0 ..< Suc (length str)] = str @ [0]"
  by (rule nth_equalityI) (auto simp: char_at_def nth_append simp del: upt_Suc)

lemma push_args_view:
  assumes "page_view P s up kp v" "unat (sp - up) < 4096" "length (args_bytes argv) \<le> unat (sp - up)"
    "mallocs (fsys s) = ms @ rest" "length ms = length argv" "0 \<notin> set ms" "\<forall>str \<in> set argv. length str \<le> 128"
  shows "\<exists>s'. push_args argv sp s t = Some (Ret (arg_addrs argv sp, sp - of_nat (length (args_bytes argv))), s') \<and>
    page_view P s' up kp (put v (sp - of_nat (length (args_bytes argv)) + 1) (args_bytes (rev argv))) \<and> mallocs (fsys s') = rest"
  using assms
proof (induction argv arbitrary: s sp v ms)
  case (Cons str argv)
  obtain p ps where ms: "ms = p # ps" "p \<noteq> 0" "length ps = length argv" "0 \<notin> set ps" using Cons.prems(5,6) by (cases ms) auto
  have len: "strnlen_str str 128 = length str" using Cons.prems(7) by (simp add: strnlen_str_def)
  have l: "length str + (1 + length (args_bytes argv)) \<le> unat (sp - up)" using Cons.prems(3) by simp
  let ?q = "sp - of_nat (length str)" and ?N = "length (args_bytes argv)"
  obtain s1 where s1: "push_chars str (length str) sp s t = Some (Ret (?q, ?q - 1), s1)"
      "page_view P s1 up kp (put v ?q (str @ [0]))" "mallocs (fsys s1) = ps @ rest"
    using push_chars_view [OF Cons.prems(1,2), of "length str" p "ps @ rest" str t] l Cons.prems(4) ms(1,2) unfolding chars_of_string by auto
  have e: "?q - 1 = sp - of_nat (length str + 1)" by simp
  have d: "unat (?q - 1 - up) = unat (sp - up) - (length str + 1)" unfolding e by (rule unat_down) (use l in simp)
  have d': "unat (?q - 1 - up) < 4096" "?N \<le> unat (?q - 1 - up)" using d l Cons.prems(2) by simp_all
  obtain s2 where s2: "push_args argv (?q - 1) s1 t = Some (Ret (arg_addrs argv (?q - 1), ?q - 1 - of_nat ?N), s2)"
      "page_view P s2 up kp (put (put v ?q (str @ [0])) (?q - 1 - of_nat ?N + 1) (args_bytes (rev argv)))" "mallocs (fsys s2) = rest"
    using Cons.IH [OF s1(2) d' s1(3) ms(3,4)] Cons.prems(7) by auto
  have q: "?q - 1 - of_nat ?N = sp - of_nat (length (args_bytes (str # argv)))" by (simp add: algebra_simps)
  have "?q = (?q - 1 - of_nat ?N + 1) + of_nat (length (args_bytes (rev argv)))" by simp
  then have "put (put v ?q (str @ [0])) (?q - 1 - of_nat ?N + 1) (args_bytes (rev argv)) =
      put v (?q - 1 - of_nat ?N + 1) (args_bytes (rev argv) @ str @ [0])"
    using put_below [of "args_bytes (rev argv)" "str @ [0]" v "?q - 1 - of_nat ?N + 1"] l Cons.prems(2) by simp
  then have "page_view P s2 up kp (put v (?q - 1 - of_nat ?N + 1) (args_bytes (rev (str # argv))))" using s2(2) by simp
  then show ?case using s1(1) s2(1,3) unfolding q by (simp add: len)
qed simp

lemma push_align_view:
  assumes "page_view P s up kp v" "unat (sp - up) < 4096" "3 \<le> unat (sp - up)"
  shows "\<exists>s'. push_align sp s t = Some (Ret (sp - of_nat (unat sp mod 4)), s') \<and>
    page_view P s' up kp (put v (sp - of_nat (unat sp mod 4)) (replicate (unat sp mod 4) 0)) \<and> fsys s' = fsys s"
proof -
  have "\<exists>s'. push_align sp s t = Some (Ret (sp - of_nat r), s') \<and> page_view P s' up kp (put v (sp - of_nat r) (replicate r 0)) \<and> fsys s' = fsys s"
    if "unat sp mod 4 = r" "r \<le> unat (sp - up)" "unat (sp - up) < 4096" "page_view P s up kp v" for r sp s v
    using that
  proof (induction r arbitrary: sp s v)
    case 0
    then have "sp mod 4 = 0" by (simp add: u32_eq_iff unat_mod)
    then show ?case using 0(4) by (subst push_align.simps) simp
  next
    case (Suc r)
    have nz: "sp mod 4 \<noteq> 0" using Suc.prems(1) by (simp add: u32_eq_iff unat_mod)
    then have "sp \<noteq> 0" by auto
    then have "unat sp = Suc (unat (sp - 1))" by (simp add: unat_minus_one unat_gt_0)
    then have m: "unat (sp - 1) mod 4 = r" using Suc.prems(1) mod_Suc [of "unat (sp - 1)" 4] by (simp split: if_splits)
    have d: "unat (sp - 1 - up) = unat (sp - up) - 1" using unat_down [of 1 sp up] Suc.prems(2) by simp
    then have d': "r \<le> unat (sp - 1 - up)" "unat (sp - 1 - up) < 4096" using Suc.prems(2,3) by simp_all
    obtain s1 where s1: "user_store8 s (sp - 1) 0 t = Some (Ret (), s1)" "page_view P s1 up kp (v(sp - 1 \<mapsto> 0))" "fsys s1 = fsys s"
      using user_store8_view [OF Suc.prems(4) d'(2)] by blast
    obtain s2 where s2: "push_align (sp - 1) s1 t = Some (Ret (sp - 1 - of_nat r), s2)"
        "page_view P s2 up kp (put (v(sp - 1 \<mapsto> 0)) (sp - 1 - of_nat r) (replicate r 0))" "fsys s2 = fsys s1"
      using Suc.IH [OF m d' s1(2)] by blast
    have q: "sp - 1 - of_nat r = sp - of_nat (Suc r)" by simp
    have "put (v(sp - 1 \<mapsto> 0)) (sp - 1 - of_nat r) (replicate r 0) = put v (sp - 1 - of_nat r) (replicate r 0 @ [0])"
      by (rule put_down) (use m in auto)
    then have "page_view P s2 up kp (put v (sp - of_nat (Suc r)) (replicate (Suc r) 0))"
      using s2(2) unfolding q replicate_append_same replicate_Suc by simp
    then show ?case using nz s1(1,3) s2(1,3) unfolding q by (subst push_align.simps) simp
  qed
  moreover have "unat sp mod 4 \<le> 3" by presburger
  ultimately show ?thesis using assms le_trans by blast
qed

lemma push_words_view:
  assumes "page_view P s up kp v" "unat (sp - up) \<le> 4096" "4 * length ws \<le> unat (sp - up)"
  shows "\<exists>s'. push_words ws sp s t = Some (Ret (sp - of_nat (4 * length ws)), s') \<and>
    page_view P s' up kp (put v (sp - of_nat (4 * length ws)) (concat (map word_bytes (rev ws)))) \<and> fsys s' = fsys s"
  using assms
proof (induction ws arbitrary: s sp v)
  case (Cons w ws)
  have d: "unat (sp - 4 - up) = unat (sp - up) - 4" using unat_down [of 4 sp up] Cons.prems(3) by simp
  have d': "unat (sp - 4 - up) \<le> 4096" "4 * length ws \<le> unat (sp - 4 - up)" "unat (sp - 4 - up) + length (word_bytes w) \<le> 4096"
    using d Cons.prems(2,3) by simp_all
  obtain s1 where s1: "user_store s (sp - 4) (word_bytes w) t = Some (Ret (), s1)" "page_view P s1 up kp (put v (sp - 4) (word_bytes w))" "fsys s1 = fsys s"
    using user_store_view [OF Cons.prems(1) d'(3)] by blast
  let ?n = "of_nat (4 * length ws)" and ?W = "concat (map word_bytes (rev ws))"
  obtain s2 where s2: "push_words ws (sp - 4) s1 t = Some (Ret (sp - 4 - ?n), s2)"
      "page_view P s2 up kp (put (put v (sp - 4) (word_bytes w)) (sp - 4 - ?n) ?W)" "fsys s2 = fsys s1"
    using Cons.IH [OF s1(2) d'(1,2)] by blast
  have lw: "length (concat (map word_bytes xs)) = 4 * length xs" for xs by (induction xs) simp_all
  have q: "sp - 4 - ?n = sp - of_nat (4 * length (w # ws))" by (simp add: algebra_simps)
  have "put (put v (sp - 4) (word_bytes w)) (sp - 4 - ?n) ?W = put v (sp - 4 - ?n) (?W @ word_bytes w)"
    using put_below [of ?W "word_bytes w" v "sp - 4 - ?n"] Cons.prems unfolding lw by simp
  then have "page_view P s2 up kp (put v (sp - of_nat (4 * length (w # ws))) (concat (map word_bytes (rev (w # ws)))))"
    using s2(2) unfolding q by simp
  then show ?case using s1(1,3) s2(1,3) unfolding q by (simp add: push_word_def)
qed simp


lemma setup_stack_ok:
  assumes ok: "mmu_ok P (mm s)" "tlb_ok P (mm s)" "cur_thread s = Some th" "t_pagedir th \<in> P" "user_pool_ok (mm s)"
    and free: "upte (mm s) (t_pagedir th) (PHYS_BASE - PGSIZE) AND PTE_P = 0"
    and mem: "\<not> no_run (get_pool True (frames (mm s))) 1" "\<not> no_run (get_pool False (frames (mm s))) 1"
  shows "\<exists>s' kp. setup_stack s = Some (True, s') \<and> page_in P s' True (PHYS_BASE - PGSIZE) kp \<and> fsys s' = fsys s"
proof -
  obtain k ps where k: "palloc_get_page (frames (mm s)) (PAL_USER OR PAL_ZERO) = Some (k, ps)"
      "got_pages True (PAL_USER OR PAL_ZERO) 1 (frames (mm s)) k ps" "mmu_ok P ((mm s)\<lparr>frames := ps\<rparr>)"
    using get_user_page [OF ok(1)] mem(1) by auto
  define s1 where "s1 = s\<lparr>mm := (mm s)\<lparr>frames := ps\<rparr>\<rparr>"
  have g: "pg_ofs k = 0" "k \<noteq> 0" "pages k 1 \<subseteq> pool_pages (get_pool True ps)"
      "pool_pages (get_pool True ps) = pool_pages (get_pool True (frames (mm s)))" "\<not> no_run (get_pool False ps) 1" "mapped (pmem ps) k 4096"
    using k(2) mem(2) by (simp_all add: got_pages_def mapped_put split: if_splits)
  have st: "pg_ofs (PHYS_BASE - PGSIZE) = 0" "is_user_vaddr (PHYS_BASE - PGSIZE)"
    by (simp_all add: pg_ofs_def PGMASK_def BITMASK_def PGBITS_def is_user_vaddr_def PHYS_BASE_def PGSIZE_def)
  have m1: "mm s1 = (mm s)\<lparr>frames := ps\<rparr>" "cur_thread s1 = Some th" "kmem s1 = pmem ps" using ok(3) by (simp_all add: s1_def cur_thread_def kmem_def)
  have "tlb_ok P (mm s1)" "upte (mm s1) (t_pagedir th) (PHYS_BASE - PGSIZE) AND PTE_P = 0" "user_pool_ok (mm s1)" "mmu_ok P (mm s1)"
    "pages k 1 \<subseteq> pool_pages (get_pool True (frames (mm s1)))"
    using ok(2,5) free k(3) g(3,4) unfolding m1 tlb_ok_pmem upte_pmem user_pool_ok_def by simp_all
  then obtain m' where m': "install_page s1 (PHYS_BASE - PGSIZE) k True = Some (True, s1\<lparr>mm := m'\<rparr>)" "mmu_ok P m'" "tlb_ok P m'"
      "let e = upte m' (t_pagedir th) (PHYS_BASE - PGSIZE) in e AND PTE_P \<noteq> 0 \<and> e AND PTE_W \<noteq> 0 \<and> pte_get_page e = Some k"
      "\<forall>i < 4096. pmem (frames m') (k + of_nat i) = pmem ps (k + of_nat i)"
    using install_new_page [OF _ _ m1(2) ok(4) st _ _ g(1), of True] g(5) by (auto simp: m1 Let_def)
  have "page_in P (s1\<lparr>mm := m'\<rparr>) True (PHYS_BASE - PGSIZE) k"
    using m'(2-5) g(1,2,6) st ok(4) m1(2) by (simp add: page_in_def kmem_def mapped_def cur_thread_def)
  moreover have "setup_stack s = Some (True, s1\<lparr>mm := m'\<rparr>)" using k(1) g(2) m'(1) by (simp add: setup_stack_def s1_def)
  moreover have "fsys (s1\<lparr>mm := m'\<rparr>) = fsys s" by (simp add: s1_def)
  ultimately show ?thesis by blast
qed

lemma and_then_assoc: "and_then (and_then r f) g = and_then r (\<lambda>a s. and_then (f a s) g)"
  by (cases r) (auto simp: and_then_def split: ret.splits)

lemma push_words_append:
  "push_words (xs @ ys) sp s t = and_then (push_words xs sp s t) (\<lambda>sp s. push_words ys sp s t)"
  by (induction xs arbitrary: sp s) (simp_all add: and_then_assoc)

lemma put_above: "unat (q - up) + length bs \<le> unat (a - up) \<Longrightarrow> put v q bs a = v a"
proof -
  assume h: "unat (q - up) + length bs \<le> unat (a - up)"
  then have "q - up \<le> a - up" by (simp add: word_le_nat_alt)
  from unat_sub_u32 [OF this] have "unat (a - q) = unat (a - up) - unat (q - up)" by simp
  then have "\<not> unat (a - q) < length bs" using h by linarith
  then show ?thesis by (simp add: put_def)
qed

lemma arg_addrs_nth:
  "j < length argv \<Longrightarrow> arg_addrs argv sp ! j = sp - of_nat (length (args_bytes (take (Suc j) argv))) + 1"
proof (induction argv arbitrary: sp j)
  case (Cons str argv)
  then show ?case
  proof (cases j)
    case (Suc k)
    then show ?thesis using Cons.IH [of k "sp - of_nat (length str) - 1"] Cons.prems by (simp add: diff_diff_eq add_ac)
  qed simp
qed simp

lemma length_arg_addrs [simp]: "length (arg_addrs argv sp) = length argv"
  by (induction argv arbitrary: sp) simp_all

text \<open>The addresses, in the order of the arguments.\<close>

lemma arg_addrs_rev:
  assumes "i < length args"
  shows "rev (arg_addrs (rev args) sp) ! i = sp - of_nat (length (args_bytes args)) + 1 + of_nat (length (args_bytes (take i args)))"
proof -
  let ?j = "length args - Suc i"
  have "take (Suc ?j) (rev args) = rev (drop i args)" using assms by (simp add: take_rev Suc_diff_Suc)
  then have "rev (arg_addrs (rev args) sp) ! i = sp - of_nat (length (args_bytes (drop i args))) + 1"
    using assms arg_addrs_nth [of ?j "rev args" sp] by (simp add: rev_nth)
  moreover have "length (args_bytes args) = length (args_bytes (take i args)) + length (args_bytes (drop i args))"
    using args_bytes_simps(3) [of "take i args" "drop i args"] by (metis append_take_drop_id length_append)
  ultimately show ?thesis by simp
qed


lemma arg_push_view:
  assumes "page_view P s up kp v" "up = PHYS_BASE - PGSIZE" "mallocs (fsys s) = ms @ rest" "length ms = length args" "0 \<notin> set ms"
    "\<forall>str \<in> set args. length str \<le> 128" "length (args_bytes args) + 4 * length args + 20 \<le> 4096"
  shows "\<exists>esp s'. arg_push s (rev args) argc t = Some (Ret esp, s') \<and> unat esp mod 4 = 0 \<and>
    unat (esp - up) + 4 * (length args + 4) + length (args_bytes args) < 4096 \<and>
    page_view P s' up kp (put (put (put v (PHYS_BASE - of_nat (length (args_bytes args))) (args_bytes args))
      (esp + of_nat (4 * (length args + 4))) (replicate (4095 - length (args_bytes args) - unat (esp - up) - 4 * (length args + 4)) 0))
      esp (concat (map word_bytes ([0, argc, esp + 12] @ rev (arg_addrs (rev args) (PHYS_BASE - 1)) @ [0]))))"
proof -
  let ?N = "length (args_bytes args)" and ?n = "length args" and ?sp = "PHYS_BASE - 1 :: ptr"
  have sp: "?sp - up = 4095" using assms(2) by (simp add: PGSIZE_def)
  have l: "unat (?sp - up) < 4096" "length (args_bytes (rev args)) \<le> unat (?sp - up)" using assms(7) unfolding sp by simp_all
  have ms: "length ms = length (rev args)" "\<forall>str \<in> set (rev args). length str \<le> 128" using assms(4,6) by simp_all
  define sp1 where "sp1 = ?sp - of_nat ?N"
  have q1: "sp1 + 1 = PHYS_BASE - of_nat ?N" by (simp add: sp1_def)
  obtain s1 where s1: "push_args (rev args) ?sp s t = Some (Ret (arg_addrs (rev args) ?sp, sp1), s1)"
      "page_view P s1 up kp (put v (sp1 + 1) (args_bytes args))"
    using push_args_view [OF assms(1) l assms(3) ms(1) assms(5) ms(2), of t] unfolding sp1_def by auto
  have d1: "unat (sp1 - up) = 4095 - ?N" using unat_down [of ?N ?sp up] assms(7) unfolding sp1_def sp by simp
  define r where "r = unat sp1 mod 4"
  have r: "r < 4" by (simp add: r_def)
  define sp2 where "sp2 = sp1 - of_nat r"
  have "unat (sp1 - up) < 4096" "3 \<le> unat (sp1 - up)" using d1 assms(7) by simp_all
  then obtain s2 where s2: "push_align sp1 s1 t = Some (Ret sp2, s2)" "page_view P s2 up kp (put (put v (sp1 + 1) (args_bytes args)) sp2 (replicate r 0))"
    using push_align_view [OF s1(2), of sp1 t] unfolding r_def sp2_def by auto
  have d2: "unat (sp2 - up) = 4095 - ?N - r" using unat_down [of r sp1 up] d1 r assms(7) unfolding sp2_def by simp
  define sp3 where "sp3 = sp2 - of_nat (4 * (?n + 1))"
  define ws where "ws = [0] @ arg_addrs (rev args) ?sp @ [sp3, argc, 0]"
  have lw: "length ws = ?n + 4" by (simp add: ws_def)
  define esp where "esp = sp2 - of_nat (4 * (?n + 4))"
  have b: "unat (sp2 - up) \<le> 4096" "4 * length ws \<le> unat (sp2 - up)" using d2 r assms(7) by (simp_all add: lw)
  obtain s3 where s3: "push_words ws sp2 s2 t = Some (Ret esp, s3)"
      "page_view P s3 up kp (put (put (put v (sp1 + 1) (args_bytes args)) sp2 (replicate r 0)) esp (concat (map word_bytes (rev ws))))"
    using push_words_view [OF s2(2) b, of t] unfolding lw esp_def by blast
  have "4 * length ([0] @ arg_addrs (rev args) ?sp) \<le> unat (sp2 - up)" using b(2) by (simp add: lw)
  then obtain s4 where s4: "push_words ([0] @ arg_addrs (rev args) ?sp) sp2 s2 t = Some (Ret sp3, s4)"
    using push_words_view [OF s2(2) b(1), of "[0] @ arg_addrs (rev args) ?sp" t] unfolding sp3_def by auto
  then have "push_words ws sp2 s2 t = push_words [sp3, argc, 0] sp3 s4 t"
    unfolding ws_def using push_words_append [of "[0] @ arg_addrs (rev args) ?sp" "[sp3, argc, 0]"] by simp
  then have run: "arg_push s (rev args) argc t = Some (Ret esp, s3)"
  proof -
    have ret: "and_then x (\<lambda>sp s. Some (Ret sp, s)) = x" for x :: "(ptr ret \<times> machine) option"
      by (cases x) (auto simp: and_then_def split: ret.splits)
    have "arg_push s (rev args) argc t = and_then (push_words ([0] @ arg_addrs (rev args) ?sp) sp2 s2 t) (\<lambda>sp s.
        and_then (push_word s sp sp t) (\<lambda>sp s. and_then (push_word s sp argc t) (\<lambda>sp s. push_word s sp 0 t)))"
      by (simp add: arg_push_def s1(1) s2(1) and_then_assoc)
    also have "\<dots> = push_words [sp3, argc, 0] sp3 s4 t" unfolding s4 by (simp add: ret)
    finally show ?thesis using \<open>push_words ws sp2 s2 t = push_words [sp3, argc, 0] sp3 s4 t\<close> s3(1) by simp
  qed
  have d3: "unat (esp - up) = 4095 - ?N - r - 4 * (?n + 4)" using unat_down [of "4 * (?n + 4)" sp2 up] b(2) d2 unfolding esp_def lw by simp
  have e: "esp + of_nat (4 * (?n + 4)) = sp2" "sp3 = esp + 12" by (simp_all add: esp_def sp3_def algebra_simps)
  have len: "4095 - ?N - unat (esp - up) - 4 * (?n + 4) = r" using d3 r assms(7) by simp
  have "rev ws = [0, argc, esp + 12] @ rev (arg_addrs (rev args) ?sp) @ [0]" by (simp add: ws_def e(2))
  then have view: "page_view P s3 up kp (put (put (put v (PHYS_BASE - of_nat ?N) (args_bytes args)) (esp + of_nat (4 * (?n + 4)))
      (replicate (4095 - ?N - unat (esp - up) - 4 * (?n + 4)) 0)) esp (concat (map word_bytes ([0, argc, esp + 12] @ rev (arg_addrs (rev args) ?sp) @ [0]))))"
    using s3(2) unfolding q1 e(1) len by simp
  have "unat esp mod 4 = 0"
  proof -
    have add: "unat x = unat up + unat (x - up)" if "unat (x - up) < 4096" for x
    proof -
      have "unat up = 3221221376" using assms(2) by (simp add: PHYS_BASE_def PGSIZE_def)
      then show ?thesis using unat_add_u32 [of up "x - up"] that by simp
    qed
    have "unat sp1 = r + 4 * (unat sp1 div 4)" by (simp add: r_def)
    moreover have "unat sp1 = unat up + (4095 - ?N)" using add [of sp1] d1 by simp
    moreover have "unat esp = unat up + (4095 - ?N - r - 4 * (?n + 4))" using add [of esp] d3 by simp
    moreover have "r + 4 * (?n + 4) \<le> 4095 - ?N" using r assms(7) by simp
    ultimately have "unat esp = 4 * (unat sp1 div 4 - (?n + 4))" unfolding diff_mult_distrib2 by linarith
    then show ?thesis by simp
  qed
  then show ?thesis using run view d3 r assms(7) by (intro exI [of _ esp] exI [of _ s3]) simp
qed


lemma page_offset: "unat (q - up :: ptr) + i < 4096 \<Longrightarrow> unat (q + of_nat i - up) = unat (q - up) + i"
  using unat_add_u32 [of "q - up" "of_nat i"] by (simp add: unat_of_nat_u32 algebra_simps)

lemma page_view_bytes:
  assumes "page_view P s up kp v" "unat (q - up) + length bs \<le> 4096"
  shows "bytes_at (user_mem s) q bs = bytes_at v q bs"
proof -
  have "user_mem s (q + of_nat i) = v (q + of_nat i)" if "i < length bs" for i
    using assms page_offset [of q up i] that by (simp add: page_view_def)
  then show ?thesis by (simp add: bytes_at_nth)
qed

lemma bytes_at_put_below:
  assumes "unat (q' - up) + length cs \<le> unat (q - up)" "unat (q - up) + length bs \<le> 4096"
  shows "bytes_at (put v q' cs) q bs = bytes_at v q bs"
proof -
  have "put v q' cs (q + of_nat i) = v (q + of_nat i)" if "i < length bs" for i
    by (rule put_above [where up = up]) (use assms page_offset [of q up i] that in simp)
  then show ?thesis by (simp add: bytes_at_nth)
qed

lemma args_bytes_strings:
  assumes "bytes_at m q (args_bytes args)" "i < length args" "0 \<notin> set (args ! i)"
  shows "str_at m (q + of_nat (length (args_bytes (take i args)))) (args ! i)"
proof -
  have "args_bytes args = args_bytes (take i args @ args ! i # drop (Suc i) args)" using id_take_nth_drop [OF assms(2)] by simp
  then have "args_bytes args = args_bytes (take i args) @ (args ! i @ [0]) @ args_bytes (drop (Suc i) args)" by simp
  then show ?thesis using assms(1,3) by (simp only: bytes_at_append str_at_bytes simp_thms)
qed



lemma one_process_mallocs: "mallocs (fsys one_process) = [64, 4096] @ drop 1 (fresh_ptrs 128)"
proof -
  have "[0..<128] = 0 # [Suc 0..<128]" by (rule upt_conv_Cons) simp
  then have "fresh_ptrs 128 = 4096 # drop 1 (fresh_ptrs 128)" unfolding fresh_ptrs_def by (simp only:) simp
  then show ?thesis by (simp add: one_process_def bytes_fs_def)
qed

theorem load_segment_pages_witness:
  "\<exists>s' th'. load_phdr one_process 32 \<lparr>p_type = 1, p_offset = 16, p_vaddr = 0x8049010, p_filesz = 100, p_memsz = 5000, p_flags = 2\<rparr> = Some (True, s') \<and>
    uthreads s' 0xc0003000 = Some th' \<and> sup_page_table th' = [16, 64, 4096]"
proof -
  let ?ph = "\<lparr>p_type = 1, p_offset = 16, p_vaddr = 0x8049010, p_filesz = 100, p_memsz = 5000, p_flags = 2\<rparr> :: phdr"
  have "validate_segment one_process ?ph 32 = Some True"
    by (simp add: validate_segment_def file_length_def one_process_def bytes_fs_def example_fs_def inode_length_def PGMASK_def BITMASK_def
        PGBITS_def is_user_vaddr_def PHYS_BASE_def)
  moreover have "uthreads one_process (current one_process) = Some one_thread" "current one_process = 0xc0003000" "sup_page_table one_thread = [16]"
    by (simp_all add: one_process_def one_thread_def)
  ultimately show ?thesis
    using load_segment_pages [of one_process ?ph 32 one_thread, OF _ _ _ one_process_mallocs] by auto
qed



subsection \<open>Waiting\<close>



end
