(* ===== verification/Syscall.thy ===== *)
theory Syscall
  imports Process
begin

section \<open>System calls (userprog/syscall.c)\<close>

text \<open>
  The system call handler and the functions it calls. User memory is read and written through \<^const>\<open>kernel_access\<close>, so that a page
  that is not in memory is brought in and a bad pointer ends the process, the way the page fault handler does it.
  The bytes of a file are copied to or from user memory as a whole. \<open>console\<close> is what has been written to the console, and \<open>keys\<close> are the
  characters typed and not yet read.
\<close>

datatype sysret = Value u32 | No_value | Blocks | Exec_waits int ptr

subsection \<open>Access to user memory\<close>

text \<open>The value is \<^term>\<open>- 1\<close> when the access failed.\<close>

definition get_user :: "machine \<Rightarrow> ptr \<Rightarrow> u32 \<Rightarrow> (int ret \<times> machine) option" where
  "get_user s uaddr t = and_then (kernel_access s uaddr False t) (\<lambda>k s. case k of
      None \<Rightarrow> Some (Ret (-1), s)
    | Some a \<Rightarrow> do { b \<leftarrow> kmem s a; Some (Ret (uint b), s) })"

definition put_user :: "machine \<Rightarrow> ptr \<Rightarrow> u8 \<Rightarrow> u32 \<Rightarrow> (bool ret \<times> machine) option" where
  "put_user s udst byte t = and_then (kernel_access s udst True t) (\<lambda>k s. case k of
      None \<Rightarrow> Some (Ret False, s)
    | Some a \<Rightarrow> do { m \<leftarrow> store8 (kmem s) a byte; Some (Ret True, set_kmem s m) })"

text \<open>The four bytes of a word; none when one of them cannot be read.\<close>

definition user_load8 :: "machine \<Rightarrow> ptr \<Rightarrow> u32 \<Rightarrow> (u8 option ret \<times> machine) option" where
  "user_load8 s va t = and_then (kernel_access s va False t) (\<lambda>k s. case k of
      None \<Rightarrow> Some (Ret None, s)
    | Some a \<Rightarrow> do { b \<leftarrow> kmem s a; Some (Ret (Some b), s) })"

fun user_load :: "machine \<Rightarrow> ptr \<Rightarrow> nat \<Rightarrow> u32 \<Rightarrow> (u8 list option ret \<times> machine) option" where
  "user_load s va 0 t = Some (Ret (Some []), s)"
| "user_load s va (Suc n) t = and_then (user_load8 s va t) (\<lambda>b s. case b of
      None \<Rightarrow> Some (Ret None, s)
    | Some b \<Rightarrow> and_then (user_load s (va + 1) n t) (\<lambda>bs s. Some (Ret (map_option ((#) b) bs), s)))"

definition get_user32 :: "machine \<Rightarrow> ptr \<Rightarrow> u32 \<Rightarrow> (u32 ret \<times> machine) option" where
  "get_user32 s uaddr t = and_then (user_load s uaddr 4 t) (\<lambda>bs s.
     Some (Ret (case bs of None \<Rightarrow> -1 | Some bs \<Rightarrow> word_of bs), s))"

definition check_phys_base :: "machine \<Rightarrow> ptr \<Rightarrow> (bool ret \<times> machine) option" where
  "check_phys_base s p = Some (if p \<ge> PHYS_BASE then Exits else Ret True, s)"

partial_function (option) check_buf_loop :: "ptr \<Rightarrow> u32 \<Rightarrow> u32 \<Rightarrow> machine \<Rightarrow> u32 \<Rightarrow> (unit ret \<times> machine) option" where
  "check_buf_loop buf sz i s t =
    (if buf + i * PGSIZE < buf + sz - 1
     then do {
       (r, s) \<leftarrow> get_user s (buf + i * PGSIZE) t;
       case r of Exits \<Rightarrow> Some (Exits, s) | Ret v \<Rightarrow> if v = -1 then Some (Exits, s) else check_buf_loop buf sz (i + 1) s t
     }
     else Some (Ret (), s))"

definition check_buf_size :: "machine \<Rightarrow> ptr \<Rightarrow> u32 \<Rightarrow> u32 \<Rightarrow> (unit ret \<times> machine) option" where
  "check_buf_size s buf sz t = check_buf_loop buf sz 0 s t"

text \<open>The result of \<^verbatim>\<open>put_user\<close> is compared with -1, which no truth value equals.\<close>

partial_function (option) check_buf_put_loop :: "ptr \<Rightarrow> u32 \<Rightarrow> u32 \<Rightarrow> machine \<Rightarrow> u32 \<Rightarrow> (unit ret \<times> machine) option" where
  "check_buf_put_loop buf sz i s t =
    (if buf + i * PGSIZE < buf + sz - 1
     then do {
       (r, s) \<leftarrow> put_user s (buf + i * PGSIZE) 0 t;
       case r of Exits \<Rightarrow> Some (Exits, s) | Ret _ \<Rightarrow> check_buf_put_loop buf sz (i + 1) s t
     }
     else Some (Ret (), s))"

definition check_buf_size_put :: "machine \<Rightarrow> ptr \<Rightarrow> u32 \<Rightarrow> u32 \<Rightarrow> (unit ret \<times> machine) option" where
  "check_buf_size_put s buf sz t = check_buf_put_loop buf sz 0 s t"

partial_function (option) check_string :: "machine \<Rightarrow> ptr \<Rightarrow> u32 \<Rightarrow> (unit ret \<times> machine) option" where
  "check_string s str t = do {
     (r, s) \<leftarrow> get_user s str t;
     case r of
       Exits \<Rightarrow> Some (Exits, s)
     | Ret v \<Rightarrow>
         if v = -1 \<or> str \<ge> PHYS_BASE then Some (Exits, s)
         else if v \<noteq> 0 then check_string s (str + 1) t else Some (Ret (), s)
   }"

text \<open>A null-terminated string in user memory, read by the kernel; a failed read jumps to no address.\<close>

partial_function (option) user_string :: "machine \<Rightarrow> ptr \<Rightarrow> u32 \<Rightarrow> (u8 list ret \<times> machine) option" where
  "user_string s p t = do {
     (r, s) \<leftarrow> user_load8 s p t;
     case r of
       Exits \<Rightarrow> Some (Exits, s)
     | Ret v \<Rightarrow> do {
         b \<leftarrow> v;
         if b = 0 then Some (Ret [], s)
         else do {
           (r, s) \<leftarrow> user_string s (p + 1) t;
           case r of Exits \<Rightarrow> Some (Exits, s) | Ret bs \<Rightarrow> Some (Ret (b # bs), s)
         }
       }
   }"

text \<open>The value 0xffffffff is taken for a failed access.\<close>

definition extract_arg :: "machine \<Rightarrow> ptr \<Rightarrow> u32 \<Rightarrow> (u32 ret \<times> machine) option" where
  "extract_arg s esp t =
    and_then (check_phys_base s esp) (\<lambda>_ s.
      and_then (get_user32 s esp t) (\<lambda>v s. if v = -1 then Some (Exits, s) else Some (Ret v, s)))"

subsection \<open>Open files\<close>

primrec fd_find :: "(ptr \<Rightarrow> open_file option) \<Rightarrow> int \<Rightarrow> ptr list \<Rightarrow> ptr option" where
  "fd_find m fd [] = Some 0"
| "fd_find m fd (e # es) = do { ofl \<leftarrow> m e; if fd = of_fd ofl then Some e else fd_find m fd es }"

definition find_open_file :: "machine \<Rightarrow> ptr \<Rightarrow> int \<Rightarrow> ptr option" where
  "find_open_file s t fd = do {
     th \<leftarrow> uthreads s t;
     e \<leftarrow> fd_find (open_file_objs s) fd (open_files th);
     if e = 0 then Some 0 else map_option of_file (open_file_objs s e)
   }"

definition remove_open_file :: "machine \<Rightarrow> ptr \<Rightarrow> int \<Rightarrow> (bool \<times> machine) option" where
  "remove_open_file s t fd = do {
     th \<leftarrow> uthreads s t;
     e \<leftarrow> fd_find (open_file_objs s) fd (open_files th);
     if e = 0 then Some (False, s)
     else do {
       s \<leftarrow> upd_thread s t (\<lambda>th. th\<lparr>open_files := remove1 e (open_files th)\<rparr>);
       Some (True, s\<lparr>open_file_objs := (open_file_objs s)(e := None)\<rparr>)
     }
   }"

subsection \<open>The calls\<close>

definition sys_exit :: "machine \<Rightarrow> ptr \<Rightarrow> u32 \<Rightarrow> (unit ret \<times> machine) option" where
  "sys_exit s esp t =
    and_then (extract_arg s (esp + 4) t) (\<lambda>status s. do {
      s \<leftarrow> upd_thread s (current s) (\<lambda>th. th\<lparr>exited_by_exit_call := True, t_exit_status := sint status\<rparr>);
      Some (Exits, s)
    })"

definition sys_exec :: "machine \<Rightarrow> ptr \<Rightarrow> (ptr \<times> int) option \<Rightarrow> u32 \<Rightarrow> (sysret ret \<times> machine) option" where
  "sys_exec s esp created t =
    and_then (check_phys_base s (esp + 4)) (\<lambda>_ s.
      and_then (extract_arg s (esp + 4) t) (\<lambda>arg s.
        and_then (check_string s arg t) (\<lambda>_ s.
          and_then (user_string s arg t) (\<lambda>cmd s.
            and_then (process_execute s cmd created) (\<lambda>(tid, args) s.
              Some (Ret (if args = 0 then Value (word_of_int tid) else Exec_waits tid args), s))))))"

definition sys_wait :: "machine \<Rightarrow> ptr \<Rightarrow> u32 \<Rightarrow> (sysret ret \<times> machine) option" where
  "sys_wait s esp t =
    and_then (check_phys_base s (esp + 4)) (\<lambda>_ s.
      and_then (extract_arg s (esp + 4) t) (\<lambda>pid s. do {
        (r, s) \<leftarrow> process_wait s (sint pid);
        Some (Ret (case r of None \<Rightarrow> Blocks | Some st \<Rightarrow> Value (word_of_int st)), s)
      }))"

text \<open>\<^verbatim>\<open>file_read\<close> into user memory.\<close>

definition file_read_user :: "machine \<Rightarrow> ptr \<Rightarrow> ptr \<Rightarrow> int \<Rightarrow> u32 \<Rightarrow> (int ret \<times> machine) option" where
  "file_read_user s f buf sz t = do {
     fl \<leftarrow> files (fsys s) f;
     and_then (on_fs s (\<lambda>x. inode_read_at x (f_inode fl) sz (f_pos fl))) (\<lambda>bs s.
       and_then (user_store s buf bs t) (\<lambda>_ s. do {
         x \<leftarrow> upd_file (fsys s) f (\<lambda>fl. fl\<lparr>f_pos := f_pos fl + int (length bs)\<rparr>);
         Some (Ret (int (length bs)), s\<lparr>fsys := x\<rparr>)
       }))
   }"

definition sys_read :: "machine \<Rightarrow> ptr \<Rightarrow> u32 \<Rightarrow> (sysret ret \<times> machine) option" where
  "sys_read s esp t =
    and_then (extract_arg s (esp + 4) t) (\<lambda>fd s.
      if fd = 1 then Some (Ret (Value (-1)), s)
      else and_then (extract_arg s (esp + 8) t) (\<lambda>buf s.
        and_then (check_phys_base s buf) (\<lambda>_ s.
          and_then (extract_arg s (esp + 12) t) (\<lambda>sz s.
            and_then (check_buf_size_put s buf sz t) (\<lambda>_ s.
              if fd = 0
              then if length (keys s) < unat sz then Some (Ret Blocks, s)
                else and_then (user_store (s\<lparr>keys := drop (unat sz) (keys s)\<rparr>) buf (take (unat sz) (keys s)) t) (\<lambda>_ s.
                  Some (Ret (Value sz), s))
              else do {
                f \<leftarrow> find_open_file s (current s) (sint fd);
                if f = 0 then Some (Ret (Value (-1)), s)
                else and_then (file_read_user s f buf (sint sz) t) (\<lambda>n s. Some (Ret (Value (word_of_int n)), s))
              })))))"

definition sys_write :: "machine \<Rightarrow> ptr \<Rightarrow> u32 \<Rightarrow> (sysret ret \<times> machine) option" where
  "sys_write s esp t =
    and_then (extract_arg s (esp + 4) t) (\<lambda>fd s.
      if fd = 0 then Some (Ret (Value (-1)), s)
      else and_then (extract_arg s (esp + 8) t) (\<lambda>buf s.
        and_then (check_phys_base s buf) (\<lambda>_ s.
          and_then (extract_arg s (esp + 12) t) (\<lambda>sz s.
            and_then (check_buf_size s buf sz t) (\<lambda>_ s.
              if fd = 1
              then and_then (user_load s buf (unat sz) t) (\<lambda>bs s. do {
                bs \<leftarrow> bs;
                Some (Ret (Value sz), s\<lparr>console := console s @ bs\<rparr>)
              })
              else do {
                f \<leftarrow> find_open_file s (current s) (sint fd);
                if f = 0 then Some (Ret (Value (-1)), s)
                else and_then (user_load s buf (nat (sint sz)) t) (\<lambda>bs s. do {
                  bs \<leftarrow> bs;
                  and_then (on_fs s (\<lambda>x. file_write x f bs)) (\<lambda>n s. Some (Ret (Value (word_of_int n)), s))
                })
              })))))"

text \<open>The checks of a file name look at four bytes. \<open>garbage\<close> is the uninitialised directory entry of \<^verbatim>\<open>dir_add\<close>.\<close>

definition file_name_arg :: "machine \<Rightarrow> ptr \<Rightarrow> u32 \<Rightarrow> (ptr ret \<times> machine) option" where
  "file_name_arg s esp t =
    and_then (extract_arg s (esp + 4) t) (\<lambda>filename s.
      and_then (check_phys_base s filename) (\<lambda>_ s.
        and_then (check_buf_size s filename 4 t) (\<lambda>_ s. Some (Ret filename, s))))"

definition sys_create :: "machine \<Rightarrow> ptr \<Rightarrow> u8 list \<Rightarrow> u32 \<Rightarrow> (sysret ret \<times> machine) option" where
  "sys_create s esp garbage t =
    and_then (file_name_arg s esp t) (\<lambda>filename s.
      and_then (extract_arg s (esp + 8) t) (\<lambda>sz s.
        and_then (user_string s filename t) (\<lambda>nm s.
          and_then (on_fs s (\<lambda>x. filesys_create x nm (sint sz) garbage)) (\<lambda>ok s.
            Some (Ret (Value (if ok then 1 else 0)), s)))))"

definition sys_open :: "machine \<Rightarrow> ptr \<Rightarrow> u32 \<Rightarrow> (sysret ret \<times> machine) option" where
  "sys_open s esp t =
    and_then (file_name_arg s esp t) (\<lambda>filename s.
      and_then (user_string s filename t) (\<lambda>nm s.
        and_then (on_fs s (\<lambda>x. filesys_open x nm)) (\<lambda>f s.
          if f = 0 then Some (Ret (Value (-1)), s)
          else do {
            cur \<leftarrow> cur_thread s;
            let (e, s) = m_malloc s;
            kassert (e \<noteq> 0);
            kassert (int_fits (next_fd cur + 1));
            let s = s\<lparr>open_file_objs := (open_file_objs s)(e \<mapsto> \<lparr>of_fd = next_fd cur, of_file = f\<rparr>)\<rparr>;
            s \<leftarrow> upd_thread s (current s) (\<lambda>th. th\<lparr>next_fd := next_fd th + 1, open_files := e # open_files th\<rparr>);
            Some (Ret (Value (word_of_int (next_fd cur))), s)
          })))"

definition sys_filesize :: "machine \<Rightarrow> ptr \<Rightarrow> u32 \<Rightarrow> (sysret ret \<times> machine) option" where
  "sys_filesize s esp t =
    and_then (extract_arg s (esp + 4) t) (\<lambda>fd s.
      if fd = 0 \<or> fd = 1 then Some (Exits, s)
      else do {
        f \<leftarrow> find_open_file s (current s) (sint fd);
        if f = 0 then Some (Ret (Value (-1)), s)
        else do { len \<leftarrow> file_length (fsys s) f; Some (Ret (Value (word_of_int len)), s) }
      })"

definition sys_close :: "machine \<Rightarrow> ptr \<Rightarrow> u32 \<Rightarrow> (sysret ret \<times> machine) option" where
  "sys_close s esp t =
    and_then (extract_arg s (esp + 4) t) (\<lambda>fd s.
      if fd = 0 \<or> fd = 1 then Some (Exits, s)
      else do {
        f \<leftarrow> find_open_file s (current s) (sint fd);
        if f = 0 then Some (Exits, s)
        else and_then (on_fs s (\<lambda>x. file_close x f)) (\<lambda>_ s. do {
          (ok, s) \<leftarrow> remove_open_file s (current s) (sint fd);
          Some (if ok then Ret No_value else Exits, s)
        })
      })"


subsection \<open>Memory mapped files\<close>

text \<open>
  \<^verbatim>\<open>handle_mmap\<close> passes the descriptor as the thread and the address of the list of open files, 64 bytes into the
  thread, as the descriptor. When there is no thread at the address, the access to the list faults.
\<close>

definition find_open_file_swapped :: "machine \<Rightarrow> u32 \<Rightarrow> (ptr ret \<times> machine) option" where
  "find_open_file_swapped s fd = (case uthreads s fd of
      Some _ \<Rightarrow> map_option (\<lambda>f. (Ret f, s)) (find_open_file s fd (sint (current s + 64)))
    | None \<Rightarrow> do {
        cur \<leftarrow> cur_thread s;
        kassert (fd + 64 < PHYS_BASE);
        k \<leftarrow> pagedir_get_page (mm s) (t_pagedir cur) (fd + 64);
        p \<leftarrow> supplemental_table_look_up s (pg_round_down (fd + 64));
        kassert (k = 0 \<and> p = 0);
        Some (Exits, s\<lparr>page_fault_cnt := page_fault_cnt s + 1\<rparr>)
      })"

definition mf_overlap :: "ptr \<Rightarrow> ptr \<Rightarrow> mapped_file \<Rightarrow> bool" where
  "mf_overlap addr last_addr mf \<longleftrightarrow>
    addr \<ge> mf_addr mf \<and> addr < mf_addr mf + mf_size mf \<or>
    last_addr \<ge> mf_addr mf \<and> last_addr < mf_addr mf + mf_size mf \<or>
    addr < mf_addr mf \<and> last_addr > mf_addr mf + mf_size mf"

primrec any_overlap :: "(ptr \<Rightarrow> mapped_file option) \<Rightarrow> ptr \<Rightarrow> ptr \<Rightarrow> ptr list \<Rightarrow> bool option" where
  "any_overlap m addr last_addr [] = Some False"
| "any_overlap m addr last_addr (e # es) = do {
     mf \<leftarrow> m e;
     if mf_overlap addr last_addr mf then Some True else any_overlap m addr last_addr es
   }"

text \<open>The pages of a mapped file; \<open>pg_zero_b\<close> is computed from the whole rest of the file.\<close>

lemma page_step:
  assumes "(0 :: u32) < file_len"
  shows "unat (file_len - (if file_len < PGSIZE then file_len else PGSIZE)) < unat file_len"
proof -
  define r where "r = (if file_len < PGSIZE then file_len else PGSIZE)"
  have "r \<le> file_len" "0 < unat r" using assms by (auto simp: r_def PGSIZE_def word_less_nat_alt word_le_nat_alt)
  then have "unat (file_len - r) < unat file_len" by (simp add: unat_sub_u32 word_le_nat_alt)
  then show ?thesis by (simp add: r_def)
qed

function map_pages :: "ptr \<Rightarrow> u32 \<Rightarrow> ptr \<Rightarrow> u32 \<Rightarrow> machine \<Rightarrow> machine option" where
  "map_pages f file_len addr lps s =
    (if file_len > 0
     then do {
       let (p, s) = m_malloc s;
       kassert (p \<noteq> 0);
       let read_b = (if file_len < PGSIZE then file_len else PGSIZE);
       let s = s\<lparr>page_objs := (page_objs s)(p \<mapsto> \<lparr>pg_location = f, pg_kind = PAG_FILE, pg_writable = True,
         pg_file_ofs = lps * PGSIZE, pg_read_b = read_b, pg_zero_b = PGSIZE - file_len, pg_page = addr\<rparr>)\<rparr>;
       s \<leftarrow> upd_thread s (current s) (\<lambda>th. th\<lparr>sup_page_table := p # sup_page_table th\<rparr>);
       map_pages f (file_len - read_b) (addr + PGSIZE) (lps + 1) s
     }
     else Some s)"
  by pat_completeness auto
termination
  by (relation "measure (\<lambda>(_, file_len, _, _, _). unat file_len)") (auto dest: page_step split: if_splits)

declare map_pages.simps [simp del]

definition handle_mmap :: "machine \<Rightarrow> ptr \<Rightarrow> u32 \<Rightarrow> (sysret ret \<times> machine) option" where
  "handle_mmap s esp t =
    and_then (check_phys_base s (esp + 4)) (\<lambda>_ s.
      and_then (extract_arg s (esp + 4) t) (\<lambda>fd s.
        if fd = 0 \<or> fd = 1 then Some (Ret (Value (-1)), s)
        else and_then (find_open_file_swapped s fd) (\<lambda>f s.
          if f = 0 then Some (Ret (Value (-1)), s)
          else do {
            len \<leftarrow> file_length (fsys s) f;
            let file_len = word_of_int len;
            if file_len = 0 then Some (Ret (Value (-1)), s)
            else and_then (check_phys_base s (esp + 8)) (\<lambda>_ s.
              and_then (extract_arg s (esp + 8) t) (\<lambda>addr s. do {
                cur \<leftarrow> cur_thread s;
                let last_addr = ROUND_UP (addr + file_len) PGSIZE;
                bad \<leftarrow> (if addr = 0 \<or> addr mod PGSIZE \<noteq> 0 \<or> addr < max_code_seg_addr cur then Some True
                  else any_overlap (mf_objs s) addr last_addr (mf_table cur));
                if bad then Some (Ret (Value (-1)), s)
                else do {
                  let (e, s) = m_malloc s;
                  if e = 0 then Some (Exits, s)
                  else and_then (on_fs s (\<lambda>x. file_reopen x f)) (\<lambda>g s. do {
                    let s = s\<lparr>mf_objs := (mf_objs s)(e \<mapsto> \<lparr>mf_mapid = mmid cur, mf_file = g, mf_addr = addr, mf_size = file_len\<rparr>)\<rparr>;
                    s \<leftarrow> map_pages g file_len addr 0 s;
                    s \<leftarrow> upd_thread s (current s) (\<lambda>th. th\<lparr>mf_table := e # mf_table th, mmid := mmid th + 1\<rparr>);
                    Some (Ret (Value (mmid cur)), s)
                  })
                }
              }))
          })))"

primrec mf_find :: "(ptr \<Rightarrow> mapped_file option) \<Rightarrow> u32 \<Rightarrow> ptr list \<Rightarrow> ptr option" where
  "mf_find m mapid [] = Some 0"
| "mf_find m mapid (e # es) = do { mf \<leftarrow> m e; if mf_mapid mf = mapid then Some e else mf_find m mapid es }"

definition find_mapped_file :: "machine \<Rightarrow> u32 \<Rightarrow> ptr option" where
  "find_mapped_file s mapid = do { cur \<leftarrow> cur_thread s; mf_find (mf_objs s) mapid (mf_table cur) }"

definition handle_munmap :: "machine \<Rightarrow> ptr \<Rightarrow> u32 \<Rightarrow> (sysret ret \<times> machine) option" where
  "handle_munmap s esp t =
    and_then (check_phys_base s (esp + 4)) (\<lambda>_ s.
      and_then (extract_arg s (esp + 4) t) (\<lambda>mapid s. do {
        e \<leftarrow> find_mapped_file s mapid;
        if e = 0 then Some (Ret No_value, s)
        else do {
          mf \<leftarrow> mf_objs s e;
          and_then (unmap_loop mf (mf_size mf) (mf_addr mf) s) (\<lambda>_ s.
            and_then (on_fs s (\<lambda>x. file_close x (mf_file mf))) (\<lambda>_ s. do {
              s \<leftarrow> upd_thread s (current s) (\<lambda>th. th\<lparr>mf_table := remove1 e (mf_table th)\<rparr>);
              Some (Ret No_value, s\<lparr>mf_objs := (mf_objs s)(e := None)\<rparr>)
            }))
        }
      }))"

subsection \<open>The handler\<close>

definition SYS_EXIT :: u32 where "SYS_EXIT = 1"
definition SYS_EXEC :: u32 where "SYS_EXEC = 2"
definition SYS_WAIT :: u32 where "SYS_WAIT = 3"
definition SYS_CREATE :: u32 where "SYS_CREATE = 4"
definition SYS_OPEN :: u32 where "SYS_OPEN = 6"
definition SYS_FILESIZE :: u32 where "SYS_FILESIZE = 7"
definition SYS_READ :: u32 where "SYS_READ = 8"
definition SYS_WRITE :: u32 where "SYS_WRITE = 9"
definition SYS_CLOSE :: u32 where "SYS_CLOSE = 12"
definition SYS_MMAP :: u32 where "SYS_MMAP = 13"
definition SYS_MUNMAP :: u32 where "SYS_MUNMAP = 14"

text \<open>The number is read from the user stack without a check of the stack pointer.\<close>

definition syscall_handler :: "machine \<Rightarrow> ptr \<Rightarrow> (ptr \<times> int) option \<Rightarrow> u8 list \<Rightarrow> u32 \<Rightarrow> (sysret ret \<times> machine) option" where
  "syscall_handler s esp created garbage t =
    and_then (user_load s esp 4 t) (\<lambda>bs s. do {
      bs \<leftarrow> bs;
      let sys_num = word_of bs;
      if sys_num = SYS_EXIT then and_then (sys_exit s esp t) (\<lambda>_ s. Some (Ret No_value, s))
      else if sys_num = SYS_READ then sys_read s esp t
      else if sys_num = SYS_WRITE then sys_write s esp t
      else if sys_num = SYS_CREATE then sys_create s esp garbage t
      else if sys_num = SYS_OPEN then sys_open s esp t
      else if sys_num = SYS_FILESIZE then sys_filesize s esp t
      else if sys_num = SYS_CLOSE then sys_close s esp t
      else if sys_num = SYS_EXEC then sys_exec s esp created t
      else if sys_num = SYS_WAIT then sys_wait s esp t
      else if sys_num = SYS_MMAP then handle_mmap s esp t
      else if sys_num = SYS_MUNMAP then handle_munmap s esp t
      else Some (Exits, s)
    })"


subsection \<open>Reading user memory\<close>

text \<open>The user addresses \<open>A\<close> are in memory, and reading them changes only the accessed bits.\<close>

definition user_in :: "ptr set \<Rightarrow> machine \<Rightarrow> ptr set \<Rightarrow> bool" where
  "user_in P s A \<longleftrightarrow> (\<forall>a \<in> A. \<exists>w up kp. page_in P s w up kp \<and> unat (a - up) < 4096)"

definition only_reads :: "ptr set \<Rightarrow> ptr set \<Rightarrow> machine \<Rightarrow> machine \<Rightarrow> bool" where
  "only_reads P A s s' \<longleftrightarrow> s' = s\<lparr>mm := mm s'\<rparr> \<and> frames (mm s') = frames (mm s) \<and> user_in P s' A \<and> (\<forall>a \<in> A. user_mem s' a = user_mem s a)"

lemma only_reads_refl: "user_in P s A \<Longrightarrow> only_reads P A s s"
  by (simp add: only_reads_def)

lemma only_reads_trans: "only_reads P A s s' \<Longrightarrow> only_reads P A s' s'' \<Longrightarrow> only_reads P A s s''"
  unfolding only_reads_def by (metis machine.surjective machine.update_convs(2))

lemma only_reads_bytes: "only_reads P A s s' \<Longrightarrow> block q (length bs) \<subseteq> A \<Longrightarrow> bytes_at (user_mem s') q bs = bytes_at (user_mem s) q bs"
proof -
  assume h: "only_reads P A s s'" "block q (length bs) \<subseteq> A"
  then have "user_mem s' (q + of_nat i) = user_mem s (q + of_nat i)" if "i < length bs" for i
    using that unfolding only_reads_def block_def by blast
  then show ?thesis by (simp add: bytes_at_nth)
qed

lemma only_readsD: "only_reads P A s s' \<Longrightarrow> user_in P s' A \<and> kmem s' = kmem s \<and> console s' = console s \<and> uthreads s' = uthreads s \<and> current s' = current s"
  unfolding only_reads_def kmem_def by (metis machine.select_convs machine.surjective machine.update_convs(2))

lemma read_access:
  assumes "user_in P s A" "a \<in> A"
  shows "\<exists>k s' b. kernel_access s a False t = Some (Ret (Some k), s') \<and> kmem s' k = Some b \<and> user_mem s a = Some b \<and> only_reads P A s s'"
proof -
  obtain w up kp where p: "page_in P s w up kp" "unat (a - up) < 4096" using assms unfolding user_in_def by blast
  let ?k = "kp + (a - up)"
  obtain m where m: "kernel_access s a False t = Some (Ret (Some ?k), s\<lparr>mm := m\<rparr>)" "frames m = frames (mm s)"
      "\<forall>w' up' kp'. page_in P s w' up' kp' \<longrightarrow> page_in P (s\<lparr>mm := m\<rparr>) w' up' kp'"
    using page_in_access(3) [OF p, of False t] by blast
  have k: "kmem (s\<lparr>mm := m\<rparr>) = kmem s" using m(2) by (simp add: kmem_def)
  have "user_mem (s\<lparr>mm := m\<rparr>) b = user_mem s b" if b: "b \<in> A" for b
  proof -
    obtain w up kp where q: "page_in P s w up kp" "unat (b - up) < 4096" using assms(1) b unfolding user_in_def by blast
    then have "page_in P (s\<lparr>mm := m\<rparr>) w up kp" using m(3) by blast
    from page_in_access(1) [OF this q(2)] page_in_access(1) [OF q] show ?thesis by (simp add: k)
  qed
  moreover have "user_in P (s\<lparr>mm := m\<rparr>) A" using assms(1) m(3) unfolding user_in_def by blast
  ultimately have "only_reads P A s (s\<lparr>mm := m\<rparr>)" using m(2) by (simp add: only_reads_def)
  moreover obtain b where "kmem s ?k = Some b" using page_in_access(2) [OF p] by blast
  ultimately show ?thesis using m(1) page_in_access(1) [OF p] k
    by (intro exI [of _ ?k] exI [of _ "s\<lparr>mm := m\<rparr>"] exI [of _ b]) simp
qed

lemma user_load_ok:
  assumes "user_in P s A" "block va (length bs) \<subseteq> A" "bytes_at (user_mem s) va bs"
  shows "\<exists>s'. user_load s va (length bs) t = Some (Ret (Some bs), s') \<and> only_reads P A s s'"
  using assms
proof (induction bs arbitrary: s va)
  case Nil
  then show ?case by (simp add: only_reads_refl)
next
  case (Cons b bs)
  have a: "va \<in> A" "block (va + 1) (length bs) \<subseteq> A" using Cons.prems(2) by (auto simp: block_Suc)
  obtain k s1 where s1: "kernel_access s va False t = Some (Ret (Some k), s1)" "kmem s1 k = Some b" "only_reads P A s s1"
    using read_access [OF Cons.prems(1) a(1), of t] Cons.prems(3) by auto
  have "bytes_at (user_mem s1) (va + 1) bs" using only_reads_bytes [OF s1(3) a(2)] Cons.prems(3) by simp
  then obtain s2 where s2: "user_load s1 (va + 1) (length bs) t = Some (Ret (Some bs), s2)" "only_reads P A s1 s2"
    using Cons.IH [OF _ a(2)] only_readsD [OF s1(3)] by blast
  then show ?case using s1 only_reads_trans [OF s1(3) s2(2)] by (simp add: user_load8_def)
qed

lemma word_of_word_bytes [simp]: "word_of (word_bytes w) = w"
  using word_of_bytes [of w "[]"] by simp

lemma extract_arg_ok:
  assumes "user_in P s A" "esp < PHYS_BASE" "block esp 4 \<subseteq> A" "bytes_at (user_mem s) esp (word_bytes v)"
  shows "\<exists>s'. extract_arg s esp t = Some (if v = -1 then Exits else Ret v, s') \<and> only_reads P A s s'"
  using user_load_ok [of P s A esp "word_bytes v" t] assms
  by (auto simp: extract_arg_def check_phys_base_def get_user32_def)

lemma check_buf_ok:
  assumes "user_in P s A" "block buf (unat sz) \<subseteq> A" "unat buf + unat sz \<le> unat PHYS_BASE" "0 < sz \<or> 0 < buf" "4096 * j < unat sz + 4096"
  shows "\<exists>s'. check_buf_loop buf sz (of_nat j) s t = Some (Ret (), s') \<and> only_reads P A s s'"
  using assms(1,5)
proof (induction "unat sz + 4096 - 4096 * j" arbitrary: j s rule: less_induct)
  case less
  have lim: "unat buf + unat sz \<le> 3221225472" using assms(3) by (simp add: PHYS_BASE_def)
  have ja: "unat (of_nat j * PGSIZE) = 4096 * j"
    using less.prems(2) lim by (subst unat_mult_u32) (simp_all add: PGSIZE_def unat_of_nat_u32)
  have addr: "unat (buf + of_nat j * PGSIZE) = unat buf + 4096 * j" using ja less.prems(2) lim by (subst unat_add_u32) simp_all
  show ?case
  proof (cases "buf + of_nat j * PGSIZE < buf + sz - 1")
    case False
    then show ?thesis using less.prems(1) by (subst check_buf_loop.simps) (simp add: only_reads_refl)
  next
    case True
    have "sz \<noteq> 0"
    proof
      assume z: "sz = 0"
      then have "0 < unat buf" using assms(4) by (simp add: word_less_nat_alt)
      moreover from this have "unat (buf - 1) = unat buf - 1" by (simp add: unat_minus_one unat_gt_0)
      ultimately show False using True z less.prems(2) by (simp add: word_less_nat_alt)
    qed
    then have "0 < unat sz" by (simp add: unat_gt_0)
    moreover have "buf + sz - 1 = buf + (sz - 1)" by simp
    moreover have "unat (sz - 1) = unat sz - 1" using \<open>sz \<noteq> 0\<close> by (simp add: unat_minus_one)
    ultimately have "unat (buf + sz - 1) = unat buf + unat sz - 1" using lim by (simp only:) (subst unat_add_u32; simp)
    then have j: "4096 * j + 1 < unat sz" using True addr by (simp add: word_less_nat_alt)
    have "buf + of_nat j * PGSIZE \<in> block buf (unat sz)" using j ja mem_block [of "unat sz" "buf + of_nat j * PGSIZE" buf] lim by simp
    then obtain k s1 b where s1: "kernel_access s (buf + of_nat j * PGSIZE) False t = Some (Ret (Some k), s1)" "kmem s1 k = Some b" "only_reads P A s s1"
      using read_access [OF less.prems(1), of _ t] assms(2) by blast
    have "unat sz + 4096 - 4096 * Suc j < unat sz + 4096 - 4096 * j" "4096 * Suc j < unat sz + 4096" using j less.prems(2) by simp_all
    then obtain s2 where s2: "check_buf_loop buf sz (of_nat (Suc j)) s1 t = Some (Ret (), s2)" "only_reads P A s1 s2"
      using less.hyps [of "Suc j" s1] only_readsD [OF s1(3)] by blast
    have "uint b \<noteq> -1" using uint_ge_0 [of b] by linarith
    then show ?thesis using s1 s2 True only_reads_trans [OF s1(3) s2(2)]
      by (subst check_buf_loop.simps) (simp add: get_user_def add.commute)
  qed
qed


text \<open>The words \<open>ws\<close> are on the user stack, in memory.\<close>

definition on_stack :: "machine \<Rightarrow> ptr set \<Rightarrow> ptr \<Rightarrow> u32 list \<Rightarrow> bool" where
  "on_stack s A esp ws \<longleftrightarrow> block esp (4 * length ws) \<subseteq> A \<and> unat esp + 4 * length ws \<le> unat PHYS_BASE \<and>
     bytes_at (user_mem s) esp (concat (map word_bytes ws))"

lemma length_words: "length (concat (map word_bytes ws)) = 4 * length ws"
  by (induction ws) simp_all

lemma on_stack_reads: "only_reads P A s s' \<Longrightarrow> on_stack s' A esp ws = on_stack s A esp ws"
  using only_reads_bytes [of P A s s' esp "concat (map word_bytes ws)"] by (auto simp: on_stack_def length_words)

lemma stack_arg:
  assumes "on_stack s A esp ws" "i < length ws"
  shows "block (esp + of_nat (4 * i)) 4 \<subseteq> A" "esp + of_nat (4 * i) < PHYS_BASE" "bytes_at (user_mem s) (esp + of_nat (4 * i)) (word_bytes (ws ! i))"
proof -
  have st: "block esp (4 * length ws) \<subseteq> A" "unat esp + 4 * length ws \<le> 3221225472" "bytes_at (user_mem s) esp (concat (map word_bytes ws))"
    using assms(1) by (simp_all add: on_stack_def PHYS_BASE_def)
  have "esp + of_nat (4 * i) + of_nat k \<in> block esp (4 * length ws)" if "k < 4" for k
  proof -
    have "esp + of_nat (4 * i) + of_nat k = esp + of_nat (4 * i + k)" by simp
    moreover have "4 * i + k < 4 * length ws" using assms(2) that by simp
    ultimately show ?thesis unfolding block_def by blast
  qed
  then show "block (esp + of_nat (4 * i)) 4 \<subseteq> A" using st(1) by (auto simp only: block_def [of _ 4])
  have "unat (esp + of_nat (4 * i)) = unat esp + 4 * i"
    using st(2) assms(2) by (subst unat_add_u32) (simp_all add: unat_of_nat_u32 del: of_nat_mult)
  then show "esp + of_nat (4 * i) < PHYS_BASE" using st(2) assms(2) by (simp add: word_less_nat_alt PHYS_BASE_def)
  have "concat (map word_bytes ws) = concat (map word_bytes (take i ws)) @ word_bytes (ws ! i) @ concat (map word_bytes (drop (Suc i) ws))"
    by (metis assms(2) concat.simps(2) concat_append id_take_nth_drop list.simps(9) map_append)
  then show "bytes_at (user_mem s) (esp + of_nat (4 * i)) (word_bytes (ws ! i))"
    using st(3) assms(2) by (simp add: bytes_at_append length_words min_def)
qed

lemma stack_arg_ok:
  assumes "user_in P s A" "on_stack s A esp ws" "i < length ws"
  shows "\<exists>s'. extract_arg s (esp + of_nat (4 * i)) t = Some (if ws ! i = -1 then Exits else Ret (ws ! i), s') \<and> only_reads P A s s'"
  using extract_arg_ok [OF assms(1) stack_arg(2,1,3) [OF assms(2,3)]] .

lemma syscall_number:
  assumes "user_in P s A" "on_stack s A esp ws" "ws \<noteq> []"
  shows "\<exists>s'. user_load s esp 4 t = Some (Ret (Some (word_bytes (hd ws))), s') \<and> only_reads P A s s'"
  using user_load_ok [OF assms(1), of esp "word_bytes (ws ! 0)" t] stack_arg [OF assms(2), of 0] assms(3) by (simp add: hd_conv_nth)

lemmas sys_numbers = SYS_EXIT_def SYS_EXEC_def SYS_WAIT_def SYS_CREATE_def SYS_OPEN_def SYS_FILESIZE_def SYS_READ_def SYS_WRITE_def
  SYS_CLOSE_def SYS_MMAP_def SYS_MUNMAP_def

text \<open>C19. Writing to the console. When a process makes the write system call for descriptor 1 and its stack and the buffer are in memory,
  exactly the bytes of the buffer are added to what has been written to the console, the result is the size, and the process's
  memory is unchanged.\<close>

theorem console_write:
  assumes "user_in P s A" "on_stack s A esp [SYS_WRITE, 1, buf, sz]" "block buf (unat sz) \<subseteq> A" "0 < buf" "unat buf + unat sz \<le> unat PHYS_BASE"
    "buf < PHYS_BASE" "length bs = unat sz" "bytes_at (user_mem s) buf bs"
  shows "\<exists>s'. syscall_handler s esp created garbage t = Some (Ret (Value sz), s') \<and> console s' = console s @ bs \<and>
    (\<forall>a \<in> A. user_mem s' a = user_mem s a)"
proof -
  let ?ws = "[SYS_WRITE, 1, buf, sz]"
  have ne: "buf \<noteq> -1" "sz \<noteq> -1" using assms(5,6) by (auto simp: PHYS_BASE_def word_less_nat_alt unsigned_minus_1_eq_mask mask_eq_exp_minus_1)
  obtain s1 where s1: "user_load s esp 4 t = Some (Ret (Some (word_bytes SYS_WRITE)), s1)" "only_reads P A s s1"
    using syscall_number [OF assms(1,2)] by auto
  note i1 = conjunct1 [OF only_readsD [OF s1(2)]] and o1 = assms(2) [folded on_stack_reads [OF s1(2)]]
  obtain s2 where s2: "extract_arg s1 (esp + 4) t = Some (Ret 1, s2)" "only_reads P A s s2"
    using stack_arg_ok [OF i1 o1, of 1 t] only_reads_trans [OF s1(2)] by auto
  note i2 = conjunct1 [OF only_readsD [OF s2(2)]] and o2 = assms(2) [folded on_stack_reads [OF s2(2)]]
  obtain s3 where s3: "extract_arg s2 (esp + 8) t = Some (Ret buf, s3)" "only_reads P A s s3"
    using stack_arg_ok [OF i2 o2, of 2 t] only_reads_trans [OF s2(2)] ne(1) by auto
  note i3 = conjunct1 [OF only_readsD [OF s3(2)]] and o3 = assms(2) [folded on_stack_reads [OF s3(2)]]
  obtain s4 where s4: "extract_arg s3 (esp + 12) t = Some (Ret sz, s4)" "only_reads P A s s4"
    using stack_arg_ok [OF i3 o3, of 3 t] only_reads_trans [OF s3(2)] ne(2) by auto
  note i4 = conjunct1 [OF only_readsD [OF s4(2)]]
  obtain s5 where s5: "check_buf_size s4 buf sz t = Some (Ret (), s5)" "only_reads P A s s5"
    using check_buf_ok [OF i4 assms(3,5), of 0 t] assms(4) only_reads_trans [OF s4(2)] by (auto simp: check_buf_size_def)
  have "bytes_at (user_mem s5) buf bs" using only_reads_bytes [OF s5(2), of buf bs] assms(3,7,8) by simp
  then obtain s6 where s6: "user_load s5 buf (unat sz) t = Some (Ret (Some bs), s6)" "only_reads P A s s6"
    using user_load_ok [of P s5 A buf bs t] only_readsD [OF s5(2)] assms(3,7) only_reads_trans [OF s5(2)] by auto
  define s' where "s' = s6\<lparr>console := console s6 @ bs\<rparr>"
  have "sys_write s1 esp t = Some (Ret (Value sz), s')"
    using s2(1) s3(1) s4(1) s5(1) s6(1) assms(6) by (simp add: sys_write_def check_phys_base_def s'_def)
  then have "syscall_handler s esp created garbage t = Some (Ret (Value sz), s')" using s1(1) by (simp add: syscall_handler_def sys_numbers)
  moreover have "user_mem s' = user_mem s6" by (rule user_mem_cong) (simp_all add: s'_def cur_thread_def)
  ultimately show ?thesis using s6(2) only_readsD [OF s6(2)] by (intro exI [of _ s']) (simp add: only_reads_def s'_def)
qed

text \<open>C20. A buffer in the kernel is refused. A read or write system call with a buffer at or above \<^verbatim>\<open>PHYS_BASE\<close>, for any descriptor that
  the call does not reject at once, ends the process: it has written nothing to the console and to the kernel's memory.\<close>

theorem kernel_buffer_refused:
  assumes "user_in P s A" "on_stack s A esp [n, fd, buf, sz]" "n = SYS_READ \<and> fd \<noteq> 1 \<or> n = SYS_WRITE \<and> fd \<noteq> 0" "PHYS_BASE \<le> buf"
  shows "\<exists>s'. syscall_handler s esp created garbage t = Some (Exits, s') \<and> kmem s' = kmem s \<and> console s' = console s"
proof -
  let ?ws = "[n, fd, buf, sz]"
  obtain s1 where s1: "user_load s esp 4 t = Some (Ret (Some (word_bytes n)), s1)" "only_reads P A s s1"
    using syscall_number [OF assms(1,2)] by auto
  note i1 = conjunct1 [OF only_readsD [OF s1(2)]] and o1 = assms(2) [folded on_stack_reads [OF s1(2)]]
  obtain s2 where s2: "extract_arg s1 (esp + 4) t = Some (if fd = -1 then Exits else Ret fd, s2)" "only_reads P A s s2"
    using stack_arg_ok [OF i1 o1, of 1 t] only_reads_trans [OF s1(2)] by auto
  note i2 = conjunct1 [OF only_readsD [OF s2(2)]] and o2 = assms(2) [folded on_stack_reads [OF s2(2)]]
  obtain s3 where s3: "extract_arg s2 (esp + 8) t = Some (if buf = -1 then Exits else Ret buf, s3)" "only_reads P A s s3"
    using stack_arg_ok [OF i2 o2, of 2 t] only_reads_trans [OF s2(2)] by auto
  have "\<exists>s'. (if n = SYS_READ then sys_read s1 esp t else sys_write s1 esp t) = Some (Exits, s') \<and> only_reads P A s s'"
    using s2 s3 assms(3,4) by (cases "fd = -1"; cases "buf = -1") (auto simp: sys_read_def sys_write_def check_phys_base_def SYS_READ_def SYS_WRITE_def)
  then obtain s' where "(if n = SYS_READ then sys_read s1 esp t else sys_write s1 esp t) = Some (Exits, s')" "only_reads P A s s'" by blast
  then show ?thesis using s1(1) assms(3) only_readsD by (fastforce simp: syscall_handler_def sys_numbers)
qed

text \<open>A process whose stack page holds the words \<open>ws\<close> and then the bytes \<open>bs\<close>.\<close>

lemma stack_example:
  assumes "4 * length ws + length bs \<le> 4096"
  shows "\<exists>s0 s. setup_stack one_process = Some (True, s0) \<and>
    user_store s0 (PHYS_BASE - PGSIZE) (concat (map word_bytes ws) @ bs) 0 = Some (Ret (), s) \<and>
    (\<exists>A. user_in {0xc0101000} s A \<and> on_stack s A (PHYS_BASE - PGSIZE) ws \<and>
      block (PHYS_BASE - PGSIZE + of_nat (4 * length ws)) (length bs) \<subseteq> A \<and> bytes_at (user_mem s) (PHYS_BASE - PGSIZE + of_nat (4 * length ws)) bs)"
proof -
  let ?up = "PHYS_BASE - PGSIZE" and ?P = "{0xc0101000 :: ptr}" and ?W = "concat (map word_bytes ws)"
  have "unat (pd_no ?up) = 767" by (simp add: unat_pd_no PHYS_BASE_def PGSIZE_def)
  then have free: "upte one_dir (t_pagedir one_thread) ?up AND PTE_P = 0" by (simp add: upte_def pt_at_def one_dir_def one_thread_def)
  have m: "mm one_process = one_dir" "cur_thread one_process = Some one_thread" "t_pagedir one_thread \<in> ?P"
    by (simp_all add: one_process_def one_thread_def cur_thread_def)
  obtain s0 kp where s0: "setup_stack one_process = Some (True, s0)" "page_in ?P s0 True ?up kp"
    using setup_stack_ok [of ?P one_process, unfolded m(1), OF one_dir_ok(1,2) m(2,3) one_dir_user_pool(1) free one_dir_user_pool(2) one_dir_ok(3)] by blast
  then have "page_view ?P s0 ?up kp (user_mem s0)" by (simp add: page_view_def)
  then obtain s where s: "user_store s0 ?up (?W @ bs) 0 = Some (Ret (), s)" "page_view ?P s ?up kp (put (user_mem s0) ?up (?W @ bs))"
    using user_store_view [of ?P s0 ?up kp _ ?up "?W @ bs" 0] assms by (auto simp: length_words)
  define A where "A = {a. unat (a - ?up) < 4096}"
  have "bytes_at (user_mem s) ?up (?W @ bs)"
    using page_view_bytes [OF s(2), of ?up "?W @ bs"] bytes_at_put [of "?W @ bs" "user_mem s0" ?up] assms by (simp add: length_words)
  then have b: "bytes_at (user_mem s) ?up ?W" "bytes_at (user_mem s) (?up + of_nat (4 * length ws)) bs"
    unfolding bytes_at_append length_words by simp_all
  have in_A: "block (?up + of_nat j) n \<subseteq> A" if "j + n \<le> 4096" for j n
  proof
    fix a assume "a \<in> block (?up + of_nat j) n"
    then obtain i where "a = ?up + of_nat (j + i)" "i < n" by (auto simp: block_def add.assoc)
    then show "a \<in> A" using that by (simp add: A_def unat_of_nat_u32 del: of_nat_add)
  qed
  have "unat ?up + 4 * length ws \<le> unat PHYS_BASE" using assms by (simp add: PHYS_BASE_def PGSIZE_def)
  then have "on_stack s A ?up ws" using b(1) in_A [of 0 "4 * length ws"] assms by (simp add: on_stack_def)
  moreover have "user_in ?P s A" using s(2) unfolding user_in_def A_def page_view_def by blast
  ultimately show ?thesis using s0(1) s(1) b(2) in_A [of "4 * length ws" "length bs"] assms by blast
qed

theorem console_write_witness:
  "\<exists>s0 s s'. setup_stack one_process = Some (True, s0) \<and>
    user_store s0 0xbffff000 (concat (map word_bytes [SYS_WRITE, 1, 0xbffff010, 2]) @ [0x68, 0x69]) 0 = Some (Ret (), s) \<and>
    syscall_handler s 0xbffff000 None [] 0 = Some (Ret (Value 2), s') \<and> console s' = console s @ [0x68, 0x69]"
proof -
  have up: "PHYS_BASE - PGSIZE = 0xbffff000" "(0xbffff000 :: ptr) + of_nat (4 * length [SYS_WRITE, 1, 0xbffff010, 2]) = 0xbffff010"
    by (simp_all add: PHYS_BASE_def PGSIZE_def)
  obtain s0 s A where s: "setup_stack one_process = Some (True, s0)"
      "user_store s0 0xbffff000 (concat (map word_bytes [SYS_WRITE, 1, 0xbffff010, 2]) @ [0x68, 0x69]) 0 = Some (Ret (), s)"
      "user_in {0xc0101000} s A" "on_stack s A 0xbffff000 [SYS_WRITE, 1, 0xbffff010, 2]"
      "block 0xbffff010 (length [0x68, 0x69 :: u8]) \<subseteq> A" "bytes_at (user_mem s) 0xbffff010 [0x68, 0x69]"
    using stack_example [of "[SYS_WRITE, 1, 0xbffff010, 2]" "[0x68, 0x69]", unfolded up] by auto
  have l: "length [0x68, 0x69 :: u8] = unat (2 :: u32)" by simp
  show ?thesis
    using console_write [OF s(3,4) s(5) [unfolded l] _ _ _ l s(6), of None "[]" 0] s(1,2) by (auto simp: PHYS_BASE_def)
qed

theorem kernel_buffer_refused_witness:
  "\<exists>s0 s s'. setup_stack one_process = Some (True, s0) \<and>
    user_store s0 0xbffff000 (concat (map word_bytes [SYS_READ, 0, 0xc0100000, 64])) 0 = Some (Ret (), s) \<and>
    syscall_handler s 0xbffff000 None [] 0 = Some (Exits, s') \<and> kmem s' = kmem s"
proof -
  have up: "PHYS_BASE - PGSIZE = 0xbffff000" by (simp add: PHYS_BASE_def PGSIZE_def)
  obtain s0 s A where s: "setup_stack one_process = Some (True, s0)"
      "user_store s0 0xbffff000 (concat (map word_bytes [SYS_READ, 0, 0xc0100000, 64])) 0 = Some (Ret (), s)"
      "user_in {0xc0101000} s A" "on_stack s A 0xbffff000 [SYS_READ, 0, 0xc0100000, 64]"
    using stack_example [of "[SYS_READ, 0, 0xc0100000, 64]" "[]", unfolded up] by auto
  show ?thesis using kernel_buffer_refused [OF s(3,4), of None "[]" 0] s(1,2) by (auto simp: PHYS_BASE_def)
qed

end
