(* ===== verification/Spec2Isabelle.thy ===== *)
theory Spec2Isabelle
  imports Pintos_Prelude Bitmap Klist_Alg Arith64 Runqueue Thread Synch Cstring Stdlib Hash Palloc Malloc Pagedir Stdio Filesys Syscall
begin

text \<open>
  A verification development for the Pintos kernel, the C sources under \<^verbatim>\<open>src/pintos/src\<close>.

  \<^bold>\<open>How the code is translated.\<close> Every C function becomes a function of the same name. A function that reads
  or changes global state or memory takes the state as an argument and returns the new one. A kernel panic, that is
  a failing \<^verbatim>\<open>ASSERT\<close>, a \<^verbatim>\<open>PANIC\<close>, or an access outside an object, is the value \<^term>\<open>None\<close>, and \<^const>\<open>kassert\<close> is the
  translation of \<^verbatim>\<open>ASSERT\<close>. A \<^verbatim>\<open>while\<close> or \<^verbatim>\<open>for\<close> loop is a recursive function, by \<^verbatim>\<open>function\<close> with a measure where it always
  ends and by \<^verbatim>\<open>partial_function\<close> where it may not, so that a loop that does not end has the value \<^term>\<open>None\<close>; the
  theorems then show that the result is not \<^term>\<open>None\<close>. No definition uses fuel. Unsigned integers are words of their width, so that
  they wrap around as in C. A signed \<^verbatim>\<open>int\<close> is an \<^typ>\<open>int\<close> where the code keeps it in range, with an assertion where an
  overflow, undefined in C, is possible.

  \<^bold>\<open>The parts.\<close>

  \<^item> \<open>Pintos_Prelude\<close> names the integer types and has the facts on words and lists the other theories share.

  \<^item> \<open>Bitmap\<close> is \<^verbatim>\<open>lib/kernel/bitmap.c\<close>: bits in an array of 32-bit elements. The operations are shown to act on the list of bits;
    \<^verbatim>\<open>bitmap_scan_and_flip\<close> finds the first run. The locale \<open>bit_allocator\<close> is what its clients use of it.

  \<^item> \<open>Klist\<close>, \<open>Klist_Seq\<close> and \<open>Klist_Alg\<close> are \<^verbatim>\<open>lib/kernel/list.c\<close>: the operations on a store of links, their effect on
    the sequences of elements the store holds, and the algorithms over whole lists, among them the merge sort.

  \<^item> \<open>Hash\<close> is \<^verbatim>\<open>lib/kernel/hash.c\<close>; the table refines a set with one element of each class of equal elements.

  \<^item> \<open>Arith64\<close> is \<^verbatim>\<open>lib/arithmetic.c\<close>, the division of 64-bit integers on a 32-bit machine.

  \<^item> \<open>Cmem\<close>, \<open>Cstring\<close>, \<open>Stdlib\<close> and \<open>Stdio\<close> are the C library: a memory of bytes, \<^verbatim>\<open>lib/string.c\<close>, \<^verbatim>\<open>lib/ctype.h\<close> with
    \<^verbatim>\<open>lib/stdlib.c\<close> (number conversion, heap sort, binary search), and the formatted output of \<^verbatim>\<open>lib/stdio.c\<close>.

  \<^item> \<open>Runqueue\<close>, \<open>Thread\<close> and \<open>Synch\<close> are the scheduler (\<^verbatim>\<open>threads/thread.c\<close>) and the synchronization primitives
    (\<^verbatim>\<open>threads/synch.c\<close>). A function that ends in a context switch is translated up to the point where the other
    thread runs; what a suspended thread has still to do is kept as a list of instructions per thread, so that all interleavings
    of threads and timer interrupts are runs of the model. The invariants hold in all reachable states.

  \<^item> \<open>Vaddr\<close> is the address arithmetic of \<^verbatim>\<open>threads/vaddr.h\<close>, \<^verbatim>\<open>threads/pte.h\<close> and \<^verbatim>\<open>lib/round.h\<close>.

  \<^item> \<open>Palloc\<close>, \<open>Malloc\<close> and \<open>Pagedir\<close> are memory management: \<^verbatim>\<open>threads/palloc.c\<close> over bitmaps, \<^verbatim>\<open>threads/malloc.c\<close> over the
    page allocator, and the page tables of \<^verbatim>\<open>userprog/pagedir.c\<close> over the page allocator, with the CPU's cache of
    translations. Pages and blocks in use are disjoint, and a page directory refines a map from user pages to entries.

  \<^bold>\<open>Not modelled.\<close> The boot code, the assembly of the context switch and the interrupt entry, and the device drivers,
  which are mostly input and output on hardware ports; user programs, tests and host utilities, which are no part of the kernel.
\<close>

end
